(* ===== verification/Rsp_Prelude.thy ===== *)
theory Rsp_Prelude
  imports Main "HOL-Library.Word"
begin

unbundle bit_operations_syntax

text \<open>
  The machine types, word lemmas and vector lanes that every component of the development shares.
  A packed vector is one word (\<open>m128i\<close> is 128 bits, a NEON D register 64); its packed views are
  read by \<open>lane\<close> and built by \<open>vec\<close>, so reinterpreting a vector at another lane width is the
  identity. The collection \<open>lane_simps\<close> pushes \<open>lane\<close> through vector expressions, which turns a
  statement about vectors into one about the words of a single lane.
\<close>

section \<open>Machine types\<close>

type_synonym u8 = "8 word"
type_synonym u16 = "16 word"
type_synonym u32 = "32 word"
type_synonym u64 = "64 word"
type_synonym m128i = "128 word"
type_synonym d64 = "64 word"

named_theorems lane_simps \<open>a lane of a vector expression, in terms of the lanes of its operands\<close>
named_theorems simd_defs \<open>definitions of packed integer operations\<close>

section \<open>Lanes\<close>

definition lane :: "'v::len word \<Rightarrow> nat \<Rightarrow> 'w::len word" where
  "lane v i = ucast (drop_bit (LENGTH('w) * i) v)"

definition lane_count :: "'v::len itself \<Rightarrow> 'w::len itself \<Rightarrow> nat" where
  "lane_count _ _ = LENGTH('v) div LENGTH('w)"

primrec of_lanes :: "'w::len word list \<Rightarrow> 'v::len word" where
  "of_lanes [] = 0"
| "of_lanes (x # xs) = ucast x OR push_bit (LENGTH('w)) (of_lanes xs)"

definition vec :: "(nat \<Rightarrow> 'w::len word) \<Rightarrow> 'v::len word" where
  "vec f = of_lanes (map f [0..<lane_count TYPE('v) TYPE('w)])"

lemma bit_lane [bit_simps]:
  "bit (lane v i :: 'w::len word) n \<longleftrightarrow> n < LENGTH('w) \<and> bit v (LENGTH('w) * i + n)"
  by (simp add: lane_def bit_simps ac_simps)

lemma bit_of_lanes [bit_simps]:
  fixes xs :: "'w::len word list"
  shows "bit (of_lanes xs :: 'v::len word) n \<longleftrightarrow>
    n < LENGTH('v) \<and> n div LENGTH('w) < length xs \<and> bit (xs ! (n div LENGTH('w))) (n mod LENGTH('w))"
proof (induction xs arbitrary: n)
  case Nil
  then show ?case by simp
next
  case (Cons x xs)
  show ?case
  proof (cases "n < LENGTH('w)")
    case True
    then show ?thesis by (auto simp: bit_simps)
  next
    case False
    then have d: "n div LENGTH('w) = Suc ((n - LENGTH('w)) div LENGTH('w))"
      and m: "n mod LENGTH('w) = (n - LENGTH('w)) mod LENGTH('w)"
      by (simp_all add: le_div_geq le_mod_geq)
    from False show ?thesis
      by (auto simp: bit_simps Cons d m dest: bit_imp_le_length)
  qed
qed

lemma lane_of_lanes:
  fixes xs :: "'w::len word list"
  assumes "i < length xs" "LENGTH('w) * length xs \<le> LENGTH('v)"
  shows "lane (of_lanes xs :: 'v::len word) i = xs ! i"
proof (rule bit_word_eqI)
  fix n assume n: "n < LENGTH('w)"
  have "LENGTH('w) * i + n < LENGTH('w) * Suc i" using n by simp
  also have "\<dots> \<le> LENGTH('w) * length xs" using assms(1) by (intro mult_le_mono2) simp
  finally have "LENGTH('w) * i + n < LENGTH('v)" using assms(2) by simp
  with n assms(1) show "bit (lane (of_lanes xs :: 'v word) i :: 'w word) n = bit (xs ! i) n"
    by (simp add: bit_simps)
qed

lemma lane_count_fits: "LENGTH('w) * lane_count TYPE('v::len) TYPE('w::len) \<le> LENGTH('v)"
  by (simp add: lane_count_def)

lemma lane_vec [lane_simps]:
  "i < lane_count TYPE('v) TYPE('w) \<Longrightarrow> lane (vec f :: 'v::len word) i = (f i :: 'w::len word)"
  by (simp add: vec_def lane_of_lanes lane_count_fits)

lemma lane_count_simps [simp]:
  "lane_count TYPE(128) TYPE(8) = 16" "lane_count TYPE(128) TYPE(16) = 8"
  "lane_count TYPE(128) TYPE(32) = 4" "lane_count TYPE(128) TYPE(64) = 2"
  "lane_count TYPE(64) TYPE(8) = 8" "lane_count TYPE(64) TYPE(16) = 4"
  "lane_count TYPE(64) TYPE(32) = 2" "lane_count TYPE(64) TYPE(64) = 1"
  "lane_count TYPE(16) TYPE(8) = 2" "lane_count TYPE(32) TYPE(8) = 4"
  "lane_count TYPE(32) TYPE(16) = 2" "lane_count TYPE(64) TYPE(32) = 2"
  by (simp_all add: lane_count_def)

text \<open>A vector is determined by its lanes at any width that divides it.\<close>

lemma vec_eqI:
  fixes a b :: "'v::len word"
  assumes w: "LENGTH('w) dvd LENGTH('v)"
    and eq: "\<And>i. i < lane_count TYPE('v) TYPE('w::len) \<Longrightarrow> (lane a i :: 'w word) = lane b i"
  shows "a = b"
proof (rule bit_word_eqI)
  fix n assume n: "n < LENGTH('v)"
  let ?i = "n div LENGTH('w)"
  have i: "?i < lane_count TYPE('v) TYPE('w)"
    using n w by (simp add: lane_count_def less_mult_imp_div_less)
  have "bit a n = bit (lane a ?i :: 'w word) (n mod LENGTH('w))"
    by (simp add: bit_simps)
  also have "\<dots> = bit (lane b ?i :: 'w word) (n mod LENGTH('w))"
    by (simp add: eq [OF i])
  also have "\<dots> = bit b n"
    by (simp add: bit_simps)
  finally show "bit a n = bit b n" .
qed

lemma vec_lane: "LENGTH('w::len) dvd LENGTH('v::len) \<Longrightarrow> vec (lane v :: nat \<Rightarrow> 'w word) = (v :: 'v word)"
  by (rule vec_eqI) (auto simp: lane_simps)

lemma m128i_eqI16: "(\<And>i. i < 8 \<Longrightarrow> (lane a i :: u16) = lane b i) \<Longrightarrow> a = (b :: m128i)"
  by (rule vec_eqI [where 'w = 16]) simp_all

lemma m128i_eqI8: "(\<And>i. i < 16 \<Longrightarrow> (lane a i :: u8) = lane b i) \<Longrightarrow> a = (b :: m128i)"
  by (rule vec_eqI [where 'w = 8]) simp_all

lemma m128i_eqI32: "(\<And>i. i < 4 \<Longrightarrow> (lane a i :: u32) = lane b i) \<Longrightarrow> a = (b :: m128i)"
  by (rule vec_eqI [where 'w = 32]) simp_all

lemma m128i_eqI64: "(\<And>i. i < 2 \<Longrightarrow> (lane a i :: u64) = lane b i) \<Longrightarrow> a = (b :: m128i)"
  by (rule vec_eqI [where 'w = 64]) simp_all

text \<open>A narrow lane is a lane of the wider lane that holds it.\<close>

lemma lane_lane:
  assumes "LENGTH('n::len) * r = LENGTH('w::len)" "j < r"
  shows "lane (lane v i :: 'w word) j = (lane v (r * i + j) :: 'n word)"
proof (rule bit_word_eqI)
  fix n assume n: "n < LENGTH('n)"
  have "LENGTH('n) * j + n < LENGTH('n) * Suc j" using n by simp
  also have "\<dots> \<le> LENGTH('n) * r" using assms(2) by (intro mult_le_mono2) simp
  finally have lt: "LENGTH('n) * j + n < LENGTH('w)" using assms(1) by simp
  have "LENGTH('w) * i + (LENGTH('n) * j + n) = LENGTH('n) * (r * i + j) + n"
    by (simp add: algebra_simps flip: assms(1))
  then show "bit (lane (lane v i :: 'w word) j :: 'n word) n = bit (lane v (r * i + j) :: 'n word) n"
    using n lt by (simp only: bit_lane simp_thms)
qed

text \<open>Lane-wise maps, the shape of most packed instructions.\<close>

definition map_lanes :: "('w::len word \<Rightarrow> 'w word) \<Rightarrow> 'v::len word \<Rightarrow> 'v word" where
  "map_lanes f a = vec (\<lambda>i. f (lane a i))"

definition map2_lanes ::
  "('w::len word \<Rightarrow> 'w word \<Rightarrow> 'w word) \<Rightarrow> 'v::len word \<Rightarrow> 'v word \<Rightarrow> 'v word" where
  "map2_lanes f a b = vec (\<lambda>i. f (lane a i) (lane b i))"

lemma lane_map_lanes [lane_simps]:
  "i < lane_count TYPE('v) TYPE('w) \<Longrightarrow>
   lane (map_lanes f (a :: 'v::len word)) i = f (lane a i :: 'w::len word)"
  by (simp add: map_lanes_def lane_vec)

lemma lane_map2_lanes [lane_simps]:
  "i < lane_count TYPE('v) TYPE('w) \<Longrightarrow>
   lane (map2_lanes f (a :: 'v::len word) b) i = f (lane a i :: 'w::len word) (lane b i)"
  by (simp add: map2_lanes_def lane_vec)

lemma lane_bitwise [lane_simps]:
  "lane (a AND b) i = (lane a i AND lane b i :: 'w::len word)"
  "lane (a OR b) i = (lane a i OR lane b i :: 'w::len word)"
  "lane (a XOR b) i = (lane a i XOR lane b i :: 'w::len word)"
  "lane 0 i = (0 :: 'w::len word)"
  by (rule bit_word_eqI; auto simp: bit_simps)+

lemma lane_not [lane_simps]:
  "i < lane_count TYPE('v) TYPE('w) \<Longrightarrow>
   lane (NOT (a :: 'v::len word)) i = (NOT (lane a i) :: 'w::len word)"
proof (rule bit_word_eqI)
  fix n assume i: "i < lane_count TYPE('v) TYPE('w)" and n: "n < LENGTH('w)"
  have "LENGTH('w) * i + n < LENGTH('w) * Suc i" using n by simp
  also have "\<dots> \<le> LENGTH('w) * lane_count TYPE('v) TYPE('w)"
    using i by (intro mult_le_mono2) simp
  also have "\<dots> \<le> LENGTH('v)" by (rule lane_count_fits)
  finally show "bit (lane (NOT a) i :: 'w word) n = bit (NOT (lane a i :: 'w word)) n"
    using n by (auto simp: bit_simps)
qed

lemma lane_minus_one [lane_simps]:
  "i < lane_count TYPE('v) TYPE('w) \<Longrightarrow> lane (- 1 :: 'v::len word) i = (- 1 :: 'w::len word)"
  using lane_not [where 'v = 'v and 'w = 'w, of i 0] by (simp add: lane_simps)

section \<open>Masks and saturation\<close>

definition mask_word :: "bool \<Rightarrow> 'w::len word" where
  "mask_word b = (if b then - 1 else 0)"

definition is_mask :: "'w::len word \<Rightarrow> bool" where
  "is_mask m \<longleftrightarrow> m = 0 \<or> m = - 1"

definition sat_s :: "int \<Rightarrow> 'w::len word" where
  "sat_s x = word_of_int (max (- (2 ^ (LENGTH('w) - 1))) (min (2 ^ (LENGTH('w) - 1) - 1) x))"

definition sat_u :: "int \<Rightarrow> 'w::len word" where
  "sat_u x = word_of_int (max 0 (min (2 ^ LENGTH('w) - 1) x))"

lemma mask_word_simps [simp]:
  "mask_word True = - 1" "mask_word False = 0"
  "mask_word b = (0 :: 'w::len word) \<longleftrightarrow> \<not> b"
  "mask_word b = (- 1 :: 'w::len word) \<longleftrightarrow> b"
  by (simp_all add: mask_word_def)

lemma is_mask_mask_word [simp]: "is_mask (mask_word b)"
  by (simp add: is_mask_def mask_word_def)

lemma is_mask_eq: "is_mask m \<longleftrightarrow> m = mask_word (m \<noteq> 0)"
  by (auto simp: is_mask_def mask_word_def)

lemma mask_word_bitwise [simp]:
  "mask_word a AND mask_word b = mask_word (a \<and> b)"
  "mask_word a OR mask_word b = mask_word (a \<or> b)"
  "NOT (mask_word a) = mask_word (\<not> a)"
  by (simp_all add: mask_word_def)

text \<open>A flag vector: every 16 bit lane is all zeros or all ones.\<close>

definition mask_lanes :: "m128i \<Rightarrow> bool" where
  "mask_lanes m = list_all (\<lambda>i. is_mask (lane m i :: u16)) [0..<8]"

lemma mask_lanes_iff: "mask_lanes m \<longleftrightarrow> (\<forall>i<8. is_mask (lane m i :: u16))"
  by (auto simp: mask_lanes_def list_all_iff)

lemma mask_lanesD: "mask_lanes m \<Longrightarrow> i < 8 \<Longrightarrow> is_mask (lane m i :: u16)"
  by (simp add: mask_lanes_iff)

lemma mask_lanes_zero [simp]: "mask_lanes 0"
  by (simp add: mask_lanes_iff lane_simps is_mask_def)

lemma mask_lanes_minus_one [simp]: "mask_lanes (- 1)"
  by (simp add: mask_lanes_iff lane_simps is_mask_def)

section \<open>Bit fields\<close>

lemma unat_take_bit_less: "unat (take_bit n w) < 2 ^ n"
  by (simp add: unsigned_take_bit_eq)

lemma and_ones_take_bit:
  "w AND 7 = take_bit 3 w" "w AND 15 = take_bit 4 w" "w AND 31 = take_bit 5 w" "w AND 63 = take_bit 6 w"
  "w AND 255 = take_bit 8 w" "w AND 4095 = take_bit 12 w" "w AND 65535 = take_bit 16 w"
  for w :: "'w::len word"
  by (simp_all add: take_bit_eq_mask mask_eq_exp_minus_1)

end
