(* ===== verification/Sse.thy ===== *)
theory Sse
  imports Rsp_Prelude
begin

unbundle bit_operations_syntax

text \<open>
  The reference semantics of the packed integer instructions, as the instruction set documents them,
  lane by lane. The vector unit (\<open>src/arch/simd/rsp/*.h\<close>) is written in the C intrinsics
  \<open>_mm_*\<close>; on x86 the compiler maps each to the instruction defined here, on ARM they are the
  functions of \<open>src/arch/simd/rsp/SSE2NEON.h\<close>, which theory \<open>Sse2neon\<close> proves to be these instructions. Each instruction is defined once,
  with the lane width as a type argument; the intrinsic names are abbreviations.
\<close>

section \<open>Lane-wise arithmetic\<close>

definition padd :: "'w::len itself \<Rightarrow> m128i \<Rightarrow> m128i \<Rightarrow> m128i" where
  [simd_defs]: "padd _ = map2_lanes ((+) :: 'w word \<Rightarrow> 'w word \<Rightarrow> 'w word)"

definition psub :: "'w::len itself \<Rightarrow> m128i \<Rightarrow> m128i \<Rightarrow> m128i" where
  [simd_defs]: "psub _ = map2_lanes ((-) :: 'w word \<Rightarrow> 'w word \<Rightarrow> 'w word)"

definition padds :: "'w::len itself \<Rightarrow> m128i \<Rightarrow> m128i \<Rightarrow> m128i" where
  [simd_defs]: "padds _ = map2_lanes (\<lambda>x y :: 'w word. sat_s (sint x + sint y))"

definition paddus :: "'w::len itself \<Rightarrow> m128i \<Rightarrow> m128i \<Rightarrow> m128i" where
  [simd_defs]: "paddus _ = map2_lanes (\<lambda>x y :: 'w word. sat_u (uint x + uint y))"

definition psubs :: "'w::len itself \<Rightarrow> m128i \<Rightarrow> m128i \<Rightarrow> m128i" where
  [simd_defs]: "psubs _ = map2_lanes (\<lambda>x y :: 'w word. sat_s (sint x - sint y))"

definition psubus :: "'w::len itself \<Rightarrow> m128i \<Rightarrow> m128i \<Rightarrow> m128i" where
  [simd_defs]: "psubus _ = map2_lanes (\<lambda>x y :: 'w word. sat_u (uint x - uint y))"

definition pmull :: "'w::len itself \<Rightarrow> m128i \<Rightarrow> m128i \<Rightarrow> m128i" where
  [simd_defs]: "pmull _ = map2_lanes ((*) :: 'w word \<Rightarrow> 'w word \<Rightarrow> 'w word)"

definition pmulh :: "'w::len itself \<Rightarrow> m128i \<Rightarrow> m128i \<Rightarrow> m128i" where
  [simd_defs]: "pmulh _ = map2_lanes (\<lambda>x y :: 'w word. word_of_int ((sint x * sint y) div 2 ^ LENGTH('w)))"

definition pmulhu :: "'w::len itself \<Rightarrow> m128i \<Rightarrow> m128i \<Rightarrow> m128i" where
  [simd_defs]: "pmulhu _ = map2_lanes (\<lambda>x y :: 'w word. word_of_int ((uint x * uint y) div 2 ^ LENGTH('w)))"

definition pcmpeq :: "'w::len itself \<Rightarrow> m128i \<Rightarrow> m128i \<Rightarrow> m128i" where
  [simd_defs]: "pcmpeq _ = map2_lanes (\<lambda>x y :: 'w word. mask_word (x = y))"

definition pcmpgt :: "'w::len itself \<Rightarrow> m128i \<Rightarrow> m128i \<Rightarrow> m128i" where
  [simd_defs]: "pcmpgt _ = map2_lanes (\<lambda>x y :: 'w word. mask_word (sint x > sint y))"

definition pmins :: "'w::len itself \<Rightarrow> m128i \<Rightarrow> m128i \<Rightarrow> m128i" where
  [simd_defs]: "pmins _ = map2_lanes (\<lambda>x y :: 'w word. if sint x < sint y then x else y)"

definition pmaxs :: "'w::len itself \<Rightarrow> m128i \<Rightarrow> m128i \<Rightarrow> m128i" where
  [simd_defs]: "pmaxs _ = map2_lanes (\<lambda>x y :: 'w word. if sint x > sint y then x else y)"

definition pminu :: "'w::len itself \<Rightarrow> m128i \<Rightarrow> m128i \<Rightarrow> m128i" where
  [simd_defs]: "pminu _ = map2_lanes (\<lambda>x y :: 'w word. if x < y then x else y)"

definition pmaxu :: "'w::len itself \<Rightarrow> m128i \<Rightarrow> m128i \<Rightarrow> m128i" where
  [simd_defs]: "pmaxu _ = map2_lanes (\<lambda>x y :: 'w word. if x > y then x else y)"

definition pavg :: "'w::len itself \<Rightarrow> m128i \<Rightarrow> m128i \<Rightarrow> m128i" where
  [simd_defs]: "pavg _ = map2_lanes (\<lambda>x y :: 'w word. word_of_int ((uint x + uint y + 1) div 2))"

definition pabs :: "'w::len itself \<Rightarrow> m128i \<Rightarrow> m128i" where
  [simd_defs]: "pabs _ = map_lanes (\<lambda>x :: 'w word. word_of_int \<bar>sint x\<bar>)"

definition psign :: "'w::len itself \<Rightarrow> m128i \<Rightarrow> m128i \<Rightarrow> m128i" where
  [simd_defs]: "psign _ = map2_lanes
     (\<lambda>x y :: 'w word. if sint y < 0 then - x else if y = 0 then 0 else x)"

section \<open>Shifts\<close>

definition psll :: "'w::len itself \<Rightarrow> m128i \<Rightarrow> nat \<Rightarrow> m128i" where
  [simd_defs]: "psll _ a n = map_lanes (\<lambda>x :: 'w word. push_bit n x) a"

definition psrl :: "'w::len itself \<Rightarrow> m128i \<Rightarrow> nat \<Rightarrow> m128i" where
  [simd_defs]: "psrl _ a n = map_lanes (\<lambda>x :: 'w word. drop_bit n x) a"

definition psra :: "'w::len itself \<Rightarrow> m128i \<Rightarrow> nat \<Rightarrow> m128i" where
  [simd_defs]: "psra _ a n = map_lanes (\<lambda>x :: 'w word. signed_drop_bit n x) a"

definition pslldq :: "m128i \<Rightarrow> nat \<Rightarrow> m128i" where
  "pslldq a n = push_bit (8 * n) a"

definition psrldq :: "m128i \<Rightarrow> nat \<Rightarrow> m128i" where
  "psrldq a n = drop_bit (8 * n) a"

section \<open>Bitwise operations and moves\<close>

definition pandn :: "m128i \<Rightarrow> m128i \<Rightarrow> m128i" where
  "pandn a b = NOT a AND b"

definition pblendvb :: "m128i \<Rightarrow> m128i \<Rightarrow> m128i \<Rightarrow> m128i" where
  [simd_defs]: "pblendvb a b m = vec (\<lambda>i. if bit (lane m i :: u8) 7 then lane b i else lane a i :: u8)"

definition pset1 :: "'w::len word \<Rightarrow> m128i" where
  [simd_defs]: "pset1 x = vec (\<lambda>_. x)"

definition pinsr :: "m128i \<Rightarrow> 'w::len word \<Rightarrow> nat \<Rightarrow> m128i" where
  [simd_defs]: "pinsr a x n = vec (\<lambda>i. if i = n then x else lane a i)"

definition pmovmskb :: "m128i \<Rightarrow> u32" where
  "pmovmskb a = horner_sum of_bool 2 (map (\<lambda>i. bit (lane a i :: u8) 7) [0..<16])"

section \<open>Lane rearrangement\<close>

definition punpckl :: "'w::len itself \<Rightarrow> m128i \<Rightarrow> m128i \<Rightarrow> m128i" where
  [simd_defs]: "punpckl _ a b = vec (\<lambda>i. lane (if even i then a else b) (i div 2) :: 'w word)"

definition punpckh :: "'w::len itself \<Rightarrow> m128i \<Rightarrow> m128i \<Rightarrow> m128i" where
  [simd_defs]: "punpckh _ a b = vec (\<lambda>i. lane (if even i then a else b)
     (i div 2 + lane_count TYPE(64) TYPE('w)) :: 'w word)"

definition packss :: "'w::len itself \<Rightarrow> 'n::len itself \<Rightarrow> m128i \<Rightarrow> m128i \<Rightarrow> m128i" where
  [simd_defs]: "packss _ _ a b = vec (\<lambda>i. let k = lane_count TYPE(128) TYPE('w) in
     sat_s (sint (if i < k then lane a i else lane b (i - k) :: 'w word)) :: 'n word)"

definition packus :: "'w::len itself \<Rightarrow> 'n::len itself \<Rightarrow> m128i \<Rightarrow> m128i \<Rightarrow> m128i" where
  [simd_defs]: "packus _ _ a b = vec (\<lambda>i. let k = lane_count TYPE(128) TYPE('w) in
     sat_u (sint (if i < k then lane a i else lane b (i - k) :: 'w word)) :: 'n word)"

definition pshufb :: "m128i \<Rightarrow> m128i \<Rightarrow> m128i" where
  [simd_defs]: "pshufb a k = vec (\<lambda>i. let c = lane k i :: u8 in
     if bit c 7 then 0 else lane a (unat (take_bit 4 c)) :: u8)"

definition pshufd :: "m128i \<Rightarrow> u8 \<Rightarrow> m128i" where
  [simd_defs]: "pshufd a imm = vec (\<lambda>i. lane a (unat (take_bit 2 (drop_bit (2 * i) imm))) :: u32)"

definition pshuflw :: "m128i \<Rightarrow> u8 \<Rightarrow> m128i" where
  [simd_defs]: "pshuflw a imm = vec (\<lambda>i. lane a
     (if i < 4 then unat (take_bit 2 (drop_bit (2 * i) imm)) else i) :: u16)"

definition pshufhw :: "m128i \<Rightarrow> u8 \<Rightarrow> m128i" where
  [simd_defs]: "pshufhw a imm = vec (\<lambda>i. lane a
     (if i < 4 then i else 4 + unat (take_bit 2 (drop_bit (2 * (i - 4)) imm))) :: u16)"

section \<open>Lanes of the packed operations\<close>

lemma lane_arith [lane_simps]:
  fixes a b :: m128i
  assumes "i < lane_count TYPE(128) TYPE('w::len)"
  shows "lane (padd TYPE('w) a b) i = (lane a i + lane b i :: 'w word)"
    "lane (psub TYPE('w) a b) i = (lane a i - lane b i :: 'w word)"
    "lane (pmull TYPE('w) a b) i = (lane a i * lane b i :: 'w word)"
    "lane (padds TYPE('w) a b) i = (sat_s (sint (lane a i :: 'w word) + sint (lane b i :: 'w word)) :: 'w word)"
    "lane (paddus TYPE('w) a b) i = (sat_u (uint (lane a i :: 'w word) + uint (lane b i :: 'w word)) :: 'w word)"
    "lane (psubs TYPE('w) a b) i = (sat_s (sint (lane a i :: 'w word) - sint (lane b i :: 'w word)) :: 'w word)"
    "lane (psubus TYPE('w) a b) i = (sat_u (uint (lane a i :: 'w word) - uint (lane b i :: 'w word)) :: 'w word)"
    "lane (pmulh TYPE('w) a b) i =
       (word_of_int ((sint (lane a i :: 'w word) * sint (lane b i :: 'w word)) div 2 ^ LENGTH('w)) :: 'w word)"
    "lane (pmulhu TYPE('w) a b) i =
       (word_of_int ((uint (lane a i :: 'w word) * uint (lane b i :: 'w word)) div 2 ^ LENGTH('w)) :: 'w word)"
  using assms by (simp_all add: simd_defs lane_simps)

lemma lane_compare [lane_simps]:
  fixes a b :: m128i
  assumes "i < lane_count TYPE(128) TYPE('w::len)"
  shows "lane (pcmpeq TYPE('w) a b) i = (mask_word ((lane a i :: 'w word) = lane b i) :: 'w word)"
    "lane (pcmpgt TYPE('w) a b) i =
       (mask_word (sint (lane a i :: 'w word) > sint (lane b i :: 'w word)) :: 'w word)"
    "lane (pmins TYPE('w) a b) i =
       (if sint (lane a i :: 'w word) < sint (lane b i :: 'w word) then lane a i else lane b i :: 'w word)"
    "lane (pmaxs TYPE('w) a b) i =
       (if sint (lane a i :: 'w word) > sint (lane b i :: 'w word) then lane a i else lane b i :: 'w word)"
    "lane (pminu TYPE('w) a b) i = (if lane a i < (lane b i :: 'w word) then lane a i else lane b i :: 'w word)"
    "lane (pmaxu TYPE('w) a b) i = (if lane a i > (lane b i :: 'w word) then lane a i else lane b i :: 'w word)"
  using assms by (simp_all add: simd_defs lane_simps)

lemma lane_shift [lane_simps]:
  fixes a :: m128i
  assumes "i < lane_count TYPE(128) TYPE('w::len)"
  shows "lane (psll TYPE('w) a n) i = (push_bit n (lane a i) :: 'w word)"
    "lane (psrl TYPE('w) a n) i = (drop_bit n (lane a i) :: 'w word)"
    "lane (psra TYPE('w) a n) i = (signed_drop_bit n (lane a i) :: 'w word)"
    "lane (pset1 x) i = (x :: 'w word)"
    "lane (pandn a b) i = (NOT (lane a i) AND lane b i :: 'w word)"
  using assms by (simp_all add: simd_defs pandn_def lane_simps)

section \<open>The intrinsics\<close>

text \<open>The names by which the sources call the instructions.\<close>

abbreviation "mm_add_epi16 \<equiv> padd TYPE(16)"
abbreviation "mm_sub_epi16 \<equiv> psub TYPE(16)"
abbreviation "mm_adds_epi16 \<equiv> padds TYPE(16)"
abbreviation "mm_adds_epu16 \<equiv> paddus TYPE(16)"
abbreviation "mm_subs_epi16 \<equiv> psubs TYPE(16)"
abbreviation "mm_subs_epu16 \<equiv> psubus TYPE(16)"
abbreviation "mm_mullo_epi16 \<equiv> pmull TYPE(16)"
abbreviation "mm_mulhi_epi16 \<equiv> pmulh TYPE(16)"
abbreviation "mm_mulhi_epu16 \<equiv> pmulhu TYPE(16)"
abbreviation "mm_cmpeq_epi16 \<equiv> pcmpeq TYPE(16)"
abbreviation "mm_cmpeq_epi8 \<equiv> pcmpeq TYPE(8)"
abbreviation "mm_cmpgt_epi16 \<equiv> pcmpgt TYPE(16)"
abbreviation "mm_cmplt_epi16 a b \<equiv> pcmpgt TYPE(16) b a"
abbreviation "mm_min_epi16 \<equiv> pmins TYPE(16)"
abbreviation "mm_max_epi16 \<equiv> pmaxs TYPE(16)"
abbreviation "mm_slli_epi16 \<equiv> psll TYPE(16)"
abbreviation "mm_srli_epi16 \<equiv> psrl TYPE(16)"
abbreviation "mm_srai_epi16 \<equiv> psra TYPE(16)"
abbreviation "mm_and_si128 \<equiv> ((AND) :: m128i \<Rightarrow> m128i \<Rightarrow> m128i)"
abbreviation "mm_or_si128 \<equiv> ((OR) :: m128i \<Rightarrow> m128i \<Rightarrow> m128i)"
abbreviation "mm_xor_si128 \<equiv> ((XOR) :: m128i \<Rightarrow> m128i \<Rightarrow> m128i)"
abbreviation "mm_andnot_si128 \<equiv> pandn"
abbreviation "mm_setzero_si128 \<equiv> (0 :: m128i)"
abbreviation "mm_set1_epi16 \<equiv> (pset1 :: u16 \<Rightarrow> m128i)"
abbreviation "mm_set1_epi32 \<equiv> (pset1 :: u32 \<Rightarrow> m128i)"
abbreviation "mm_blendv_epi8 \<equiv> pblendvb"
abbreviation "mm_unpacklo_epi16 \<equiv> punpckl TYPE(16)"
abbreviation "mm_unpackhi_epi16 \<equiv> punpckh TYPE(16)"
abbreviation "mm_unpacklo_epi64 \<equiv> punpckl TYPE(64)"
abbreviation "mm_unpacklo_epi8 \<equiv> punpckl TYPE(8)"
abbreviation "mm_packs_epi16 \<equiv> packss TYPE(16) TYPE(8)"
abbreviation "mm_packs_epi32 \<equiv> packss TYPE(32) TYPE(16)"
abbreviation "mm_shuffle_epi8 \<equiv> pshufb"
abbreviation "mm_shuffle_epi32 \<equiv> pshufd"
abbreviation "mm_shufflelo_epi16 \<equiv> pshuflw"
abbreviation "mm_shufflehi_epi16 \<equiv> pshufhw"
abbreviation "mm_insert_epi16 \<equiv> (pinsr :: m128i \<Rightarrow> u16 \<Rightarrow> nat \<Rightarrow> m128i)"
abbreviation "mm_movemask_epi8 \<equiv> pmovmskb"
abbreviation "mm_srli_si128 \<equiv> psrldq"

end
