(* ===== verification/S16.thy ===== *)
theory S16
  imports Sse
begin

unbundle bit_operations_syntax

text \<open>
  Arithmetic on one 16 bit lane. Every fact reads a word operation through \<open>sint\<close>, as a case
  distinction on integers, so that linear arithmetic decides the equations of the vector unit.
\<close>

named_theorems s16_simps \<open>16 bit operations read as signed integers\<close>

lemma s16_range: "- 32768 \<le> sint (x :: u16)" "sint (x :: u16) \<le> 32767"
  using sint_greater_eq [of x] sint_less [of x] by simp_all

lemma u16_range: "0 \<le> uint (x :: u16)" "uint (x :: u16) \<le> 65535"
  using uint_bounded [of x] by simp_all

lemma u16_bounds: "- 1 < uint (x :: u16)" "uint (x :: u16) \<le> 65535"
  using u16_range [of x] by linarith+

lemma mod_once: "0 \<le> k \<Longrightarrow> k < 2 * m \<Longrightarrow> k mod m = (if k < m then k else k - m)" for k m :: int
  using minus_mod_self2 [of k m] mod_pos_pos_trivial [of "k - m" m] by auto

lemma mod_once_neg:
  "- m \<le> k \<Longrightarrow> k < m \<Longrightarrow> k mod m = (if k < 0 then k + m else k)" for k m :: int
  using mod_add_self2 [of k m] mod_pos_pos_trivial [of "k + m" m] by auto

lemma wrap16:
  assumes "- 98304 \<le> k" "k < 98304"
  shows "(k + 32768) mod 65536 - 32768 =
    (if k > 32767 then k - 65536 else if k < - 32768 then k + 65536 else (k :: int))"
proof (cases "k < - 32768")
  case True
  have "(k + 32768) mod 65536 = (k + 98304) mod 65536"
    using mod_add_self2 [of "k + 32768" 65536] by (simp add: add.assoc)
  with True assms show ?thesis by simp
next
  case False
  with assms show ?thesis by (simp add: mod_once)
qed

lemma sint_word_of_int16: "sint (word_of_int k :: u16) = (k + 32768) mod 65536 - 32768"
  by (simp add: sint_sbintrunc' signed_take_bit_eq_take_bit_shift take_bit_eq_mod)

lemma sint_of_int16: "- 32768 \<le> k \<Longrightarrow> k \<le> 32767 \<Longrightarrow> sint (word_of_int k :: u16) = k"
  by (simp add: sint_word_of_int16)

lemma s16_eqI: "sint (x :: u16) = sint y \<Longrightarrow> x = y"
  by (simp add: signed_word_eqI)

lemma s16_eq_iff: "(x :: u16) = y \<longleftrightarrow> sint x = sint y"
  by (auto intro: s16_eqI)

lemma uint_s16: "uint (x :: u16) = (if sint x < 0 then sint x + 65536 else sint x)"
proof -
  have "sint x = (uint x + 32768) mod 65536 - 32768"
    using sint_word_of_int16 [of "uint x"] by simp
  with u16_range [of x] show ?thesis by (simp add: mod_once split: if_splits)
qed

lemma s16_ring:
  fixes x y :: u16
  shows sint_add16: "sint (x + y) = (let k = sint x + sint y in
      if k > 32767 then k - 65536 else if k < - 32768 then k + 65536 else k)"
    and sint_sub16: "sint (x - y) = (let k = sint x - sint y in
      if k > 32767 then k - 65536 else if k < - 32768 then k + 65536 else k)"
    and sint_uminus16: "sint (- x) = (if sint x = - 32768 then - 32768 else - sint x)"
proof -
  have "sint (x + y) = sint (word_of_int (sint x + sint y) :: u16)" by simp
  then show "sint (x + y) = (let k = sint x + sint y in
      if k > 32767 then k - 65536 else if k < - 32768 then k + 65536 else k)"
    using s16_range [of x] s16_range [of y] unfolding sint_word_of_int16 Let_def by (simp add: wrap16)
  have "sint (x - y) = sint (word_of_int (sint x - sint y) :: u16)" by simp
  then show "sint (x - y) = (let k = sint x - sint y in
      if k > 32767 then k - 65536 else if k < - 32768 then k + 65536 else k)"
    using s16_range [of x] s16_range [of y] unfolding sint_word_of_int16 Let_def by (simp add: wrap16)
  have "sint (- x) = sint (word_of_int (- sint x) :: u16)" by simp
  then show "sint (- x) = (if sint x = - 32768 then - 32768 else - sint x)"
    using s16_range [of x] unfolding sint_word_of_int16 by (simp add: wrap16)
qed

lemma sint_not16: "sint (NOT (x :: u16)) = - sint x - 1"
  using s16_range [of x] by (simp add: not_eq_complement sint_sub16 sint_uminus16 Let_def)

lemma sint_sat16:
  "sint (sat_s k :: u16) = (if k < - 32768 then - 32768 else if k > 32767 then 32767 else k)"
  by (simp add: sat_s_def sint_of_int16)

lemma uint_sat16: "uint (sat_u k :: u16) = (if k < 0 then 0 else if k > 65535 then 65535 else k)"
  by (simp add: sat_u_def uint_word_of_int)

lemma sint_mask16: "sint (mask_word b :: u16) = (if b then - 1 else 0)"
  by (simp add: mask_word_def)

lemma sign_bit16: "bit (x :: u16) 15 \<longleftrightarrow> sint x < 0"
  using bit_last_iff [of x] by simp

lemma xor_neg16: "sint (x XOR y :: u16) < 0 \<longleftrightarrow> (sint x < 0) \<noteq> (sint y < 0)"
  by (simp flip: sign_bit16 add: bit_xor_iff)

lemma sra15: "signed_drop_bit 15 (x :: u16) = mask_word (sint x < 0)"
proof (rule bit_word_eqI)
  fix n assume n: "n < LENGTH(16)"
  then have "bit (signed_drop_bit 15 x) n = bit x 15"
    by (cases "n = 0") (auto simp: bit_simps)
  with n show "bit (signed_drop_bit 15 x) n = bit (mask_word (sint x < 0) :: u16) n"
    by (simp add: mask_word_def sign_bit16)
qed

lemma mask_and16: "mask_word b AND (x :: u16) = (if b then x else 0)"
  "x AND mask_word b = (if b then x else 0)"
  by (simp_all add: mask_word_def)

lemma mask_or16: "mask_word b OR (x :: u16) = (if b then - 1 else x)"
  "x OR mask_word b = (if b then - 1 else x)"
  by (simp_all add: mask_word_def)

lemma mask_xor16: "(x :: u16) XOR mask_word b = (if b then NOT x else x)"
  "mask_word b XOR x = (if b then NOT x else x)"
  by (simp_all add: mask_word_def)

lemma mask_sel16: "(mask_word b AND (x :: u16)) OR (NOT (mask_word b) AND y) = (if b then x else y)"
  by (simp add: mask_word_def)

lemma not_mask_zero [simp]: "mask_word (mask_word b = (0 :: u16)) = (mask_word (\<not> b) :: u16)"
  by simp

text \<open>The packed carry test: an unsigned sum carried iff the saturating and the wrapping sums differ.\<close>

lemma carry_test16:
  "(x + y = (sat_u (uint x + uint y) :: u16)) \<longleftrightarrow> uint x + uint y < 65536"
  "((sat_u (uint x + uint y) :: u16) = x + y) \<longleftrightarrow> uint x + uint y < 65536"
proof -
  have sat: "k mod 65536 = (if k < 0 then 0 else if k > 65535 then 65535 else k) \<longleftrightarrow> k < 65536"
    if "0 \<le> k" "k \<le> 131070" for k :: int
    using that by (auto simp: mod_once)
  have le: "uint x + uint y \<le> 131070"
    using u16_range [of x] u16_range [of y] by simp
  have "uint (x + y) = (uint x + uint y) mod 65536"
    by (simp add: uint_word_ariths)
  then have "uint (x + y) = uint (sat_u (uint x + uint y) :: u16) \<longleftrightarrow> uint x + uint y < 65536"
    by (simp only: uint_sat16 sat [OF _ le] add_nonneg_nonneg uint_ge_0)
  then show "(x + y = (sat_u (uint x + uint y) :: u16)) \<longleftrightarrow> uint x + uint y < 65536"
    "((sat_u (uint x + uint y) :: u16) = x + y) \<longleftrightarrow> uint x + uint y < 65536"
    by (auto simp: word_eq_iff_unsigned [symmetric])
qed

end
