(* ===== verification/Vector_Alu.thy ===== *)
theory Vector_Alu
  imports S16
begin

unbundle bit_operations_syntax

text \<open>
  The add, logic and select instructions of the vector unit: the inline functions of
  \<open>vabs.h\<close>, \<open>vadd.h\<close>, \<open>vaddc.h\<close>, \<open>vand.h\<close>, \<open>vor.h\<close>, \<open>vxor.h\<close>, \<open>vsub.h\<close>, \<open>vsubc.h\<close>,
  \<open>vmrg.h\<close> and \<open>vcmp.h\<close>, with the integer meaning of each lane. A pointer parameter the C code
  writes is a further component of the result. \<open>sse41\<close> selects the body compiled under
  \<open>__SSE4_1__\<close>.
\<close>

section \<open>Operations\<close>

definition rsp_vabs :: "m128i \<Rightarrow> m128i \<Rightarrow> m128i \<times> m128i" where
  "rsp_vabs vs vt =
     (let vs_zero = mm_cmpeq_epi16 vs mm_setzero_si128;
          sign_lt = mm_srai_epi16 vs 15;
          vd = mm_andnot_si128 vs_zero vt;
          vd = mm_xor_si128 vd sign_lt;
          acc_lo = mm_sub_epi16 vd sign_lt
      in (mm_subs_epi16 vd sign_lt, acc_lo))"

definition rsp_vadd :: "m128i \<Rightarrow> m128i \<Rightarrow> m128i \<Rightarrow> m128i \<times> m128i" where
  "rsp_vadd vs vt carry =
     (let vd = mm_add_epi16 vs vt;
          acc_lo = mm_sub_epi16 vd carry;
          minimum = mm_min_epi16 vs vt;
          maximum = mm_max_epi16 vs vt;
          minimum = mm_subs_epi16 minimum carry
      in (mm_adds_epi16 minimum maximum, acc_lo))"

definition rsp_vaddc :: "m128i \<Rightarrow> m128i \<Rightarrow> m128i \<Rightarrow> m128i \<times> m128i" where
  "rsp_vaddc vs vt zero =
     (let sat_sum = mm_adds_epu16 vs vt;
          unsat_sum = mm_add_epi16 vs vt;
          sn = mm_cmpeq_epi16 sat_sum unsat_sum;
          sn = mm_cmpeq_epi16 sn zero
      in (unsat_sum, sn))"

definition rsp_vsub :: "m128i \<Rightarrow> m128i \<Rightarrow> m128i \<Rightarrow> m128i \<times> m128i" where
  "rsp_vsub vs vt carry =
     (let unsat_diff = mm_sub_epi16 vt carry;
          sat_diff = mm_subs_epi16 vt carry;
          acc_lo = mm_sub_epi16 vs unsat_diff;
          vd = mm_subs_epi16 vs sat_diff;
          overflow = mm_cmpgt_epi16 sat_diff unsat_diff
      in (mm_adds_epi16 vd overflow, acc_lo))"

definition rsp_vsubc :: "m128i \<Rightarrow> m128i \<Rightarrow> m128i \<Rightarrow> m128i \<times> m128i \<times> m128i" where
  "rsp_vsubc vs vt zero =
     (let sat_udiff = mm_subs_epu16 vs vt;
          equal = mm_cmpeq_epi16 vs vt;
          sat_udiff_zero = mm_cmpeq_epi16 sat_udiff zero;
          eq = mm_cmpeq_epi16 equal zero;
          sn = mm_andnot_si128 equal sat_udiff_zero
      in (mm_sub_epi16 vs vt, eq, sn))"

definition rsp_vand :: "m128i \<Rightarrow> m128i \<Rightarrow> m128i" where
  "rsp_vand vs vt = mm_and_si128 vs vt"

definition rsp_vnand :: "m128i \<Rightarrow> m128i \<Rightarrow> m128i" where
  "rsp_vnand vs vt = (let vd = mm_and_si128 vs vt in mm_xor_si128 vd (mm_set1_epi32 0xffffffff))"

definition rsp_vor :: "m128i \<Rightarrow> m128i \<Rightarrow> m128i" where
  "rsp_vor vs vt = mm_or_si128 vs vt"

definition rsp_vnor :: "m128i \<Rightarrow> m128i \<Rightarrow> m128i" where
  "rsp_vnor vs vt = (let vd = mm_or_si128 vs vt in mm_xor_si128 vd (mm_set1_epi32 0xffffffff))"

definition rsp_vxor :: "m128i \<Rightarrow> m128i \<Rightarrow> m128i" where
  "rsp_vxor vs vt = mm_xor_si128 vs vt"

definition rsp_vnxor :: "m128i \<Rightarrow> m128i \<Rightarrow> m128i" where
  "rsp_vnxor vs vt = (let vd = mm_xor_si128 vs vt in mm_xor_si128 vd (mm_set1_epi32 0xffffffff))"

definition rsp_vmrg :: "bool \<Rightarrow> m128i \<Rightarrow> m128i \<Rightarrow> m128i \<Rightarrow> m128i" where
  "rsp_vmrg sse41 vs vt le =
     (if sse41 then mm_blendv_epi8 vt vs le
      else let vs = mm_and_si128 le vs;
               vt = mm_andnot_si128 le vt
           in mm_or_si128 vs vt)"

definition rsp_veq :: "bool \<Rightarrow> m128i \<Rightarrow> m128i \<Rightarrow> m128i \<Rightarrow> m128i \<Rightarrow> m128i \<Rightarrow> m128i \<times> m128i" where
  "rsp_veq sse41 vs vt zero eq sign =
     (let equal = mm_cmpeq_epi16 vs vt;
          le = mm_andnot_si128 eq equal
      in (if sse41 then mm_blendv_epi8 vt vs le
          else let vs = mm_and_si128 le vs;
                   vt = mm_andnot_si128 le vt
               in mm_or_si128 vs vt, le))"

definition rsp_vge :: "bool \<Rightarrow> m128i \<Rightarrow> m128i \<Rightarrow> m128i \<Rightarrow> m128i \<Rightarrow> m128i \<Rightarrow> m128i \<times> m128i" where
  "rsp_vge sse41 vs vt zero eq sign =
     (let equal = mm_cmpeq_epi16 vs vt;
          gt = mm_cmpgt_epi16 vs vt;
          equalsign = mm_and_si128 eq sign;
          equal = mm_andnot_si128 equalsign equal;
          le = mm_or_si128 gt equal
      in (if sse41 then mm_blendv_epi8 vt vs le
          else let vs = mm_and_si128 le vs;
                   vt = mm_andnot_si128 le vt
               in mm_or_si128 vs vt, le))"

definition rsp_vlt :: "bool \<Rightarrow> m128i \<Rightarrow> m128i \<Rightarrow> m128i \<Rightarrow> m128i \<Rightarrow> m128i \<Rightarrow> m128i \<times> m128i" where
  "rsp_vlt sse41 vs vt zero eq sign =
     (let equal = mm_cmpeq_epi16 vs vt;
          lt = mm_cmplt_epi16 vs vt;
          equal = mm_and_si128 eq equal;
          equal = mm_and_si128 sign equal;
          le = mm_or_si128 lt equal
      in (if sse41 then mm_blendv_epi8 vt vs le
          else let vs = mm_and_si128 le vs;
                   vt = mm_andnot_si128 le vt
               in mm_or_si128 vs vt, le))"

definition rsp_vne :: "bool \<Rightarrow> m128i \<Rightarrow> m128i \<Rightarrow> m128i \<Rightarrow> m128i \<Rightarrow> m128i \<Rightarrow> m128i \<times> m128i" where
  "rsp_vne sse41 vs vt zero eq sign =
     (let equal = mm_cmpeq_epi16 vs vt;
          nequal = mm_cmpeq_epi16 equal zero;
          le = mm_and_si128 eq equal;
          le = mm_or_si128 le nequal
      in (if sse41 then mm_blendv_epi8 vt vs le
          else let vs = mm_and_si128 le vs;
                   vt = mm_andnot_si128 le vt
               in mm_or_si128 vs vt, le))"

section \<open>Blends\<close>

text \<open>A byte blend whose mask lane is all ones or all zeros is a lane select.\<close>

lemma lane_blendv16 [lane_simps]:
  assumes "i < 8" "is_mask (lane m i :: u16)"
  shows "lane (pblendvb a b m) i = (if lane m i = (0 :: u16) then lane a i else lane b i :: u16)"
proof (rule bit_word_eqI)
  fix n assume n: "n < LENGTH(16)"
  let ?j = "2 * i + n div 8"
  have j: "?j < 16" using assms(1) n by auto
  have split: "bit (lane v i :: u16) k \<longleftrightarrow> bit (lane v (2 * i + k div 8) :: u8) (k mod 8)"
    if "k < 16" for v :: m128i and k
  proof -
    have "8 * (2 * i + k div 8) + k mod 8 = 16 * i + k"
      by presburger
    then have "bit v (8 * (2 * i + k div 8) + k mod 8) = bit v (16 * i + k)"
      by (rule arg_cong)
    with that show ?thesis unfolding bit_lane by simp
  qed
  have "bit (lane m ?j :: u8) 7 \<longleftrightarrow> lane m i \<noteq> (0 :: u16)"
  proof -
    have n8: "8 * (n div 8) + 7 < 16" using n by simp presburger
    have "bit (lane m ?j :: u8) 7 \<longleftrightarrow> bit (lane m i :: u16) (8 * (n div 8) + 7)"
      using split [OF n8, of m] by simp
    with assms(2) n8 show ?thesis by (auto simp: is_mask_def)
  qed
  then have "bit (lane (pblendvb a b m) i :: u16) n \<longleftrightarrow>
      bit (if lane m i = (0 :: u16) then lane a ?j else lane b ?j :: u8) (n mod 8)"
    using n j split [of n "pblendvb a b m"] by (simp add: pblendvb_def lane_vec)
  then show "bit (lane (pblendvb a b m) i :: u16) n \<longleftrightarrow>
      bit (if lane m i = (0 :: u16) then lane a i else lane b i :: u16) n"
    using n split [of n a] split [of n b] by simp
qed

section \<open>Lane-wise meaning\<close>

text \<open>What each instruction computes in one lane, on the integers the operand lanes stand for.\<close>

definition carry_int :: "u16 \<Rightarrow> int" where
  "carry_int c = (if c = 0 then 0 else 1)"

definition vabs_int :: "int \<Rightarrow> int \<Rightarrow> int" where
  "vabs_int s t = (if s < 0 then - t else if s = 0 then 0 else t)"

lemmas s16_calc = s16_eq_iff sint_sat16 sint_mask16 sint_not16 sint_add16 sint_sub16 sint_uminus16
  sint_word_of_int16 wrap16

lemma vabs_lane:
  assumes "i < 8"
  shows "(lane (fst (rsp_vabs vs vt)) i :: u16) = sat_s (vabs_int (sint (lane vs i :: u16)) (sint (lane vt i :: u16)))"
    "(lane (snd (rsp_vabs vs vt)) i :: u16) = word_of_int (vabs_int (sint (lane vs i :: u16)) (sint (lane vt i :: u16)))"
  using assms s16_range [of "lane vt i"]
  by (auto simp: rsp_vabs_def vabs_int_def Let_def lane_simps sra15 mask_xor16 mask_and16 s16_calc)

lemma vadd_scalar:
  fixes x y c :: u16
  assumes "is_mask c"
  shows "sat_s (sint (sat_s (sint (if sint x < sint y then x else y) - sint c) :: u16) +
       sint (if sint y < sint x then x else y)) =
     (sat_s (sint x + sint y + carry_int c) :: u16)"
proof -
  have "sint c = - carry_int c" "carry_int c = 0 \<or> carry_int c = 1"
    using assms by (auto simp: is_mask_def carry_int_def)
  then show ?thesis using s16_range [of y] s16_range [of x]
    by (auto simp add: s16_eq_iff sint_sat16)
qed

lemma vadd_lane:
  assumes "i < 8" and "is_mask (lane carry i :: u16)"
  shows "(lane (fst (rsp_vadd vs vt carry)) i :: u16) =
      sat_s (sint (lane vs i :: u16) + sint (lane vt i :: u16) + carry_int (lane carry i))"
    "(lane (snd (rsp_vadd vs vt carry)) i :: u16) = lane vs i + lane vt i + word_of_int (carry_int (lane carry i))"
proof -
  show "(lane (fst (rsp_vadd vs vt carry)) i :: u16) =
      sat_s (sint (lane vs i :: u16) + sint (lane vt i :: u16) + carry_int (lane carry i))"
    unfolding rsp_vadd_def Let_def fst_conv
    using assms vadd_scalar [OF assms(2), of "lane vs i" "lane vt i"] by (simp only: lane_simps lane_count_simps)
  show "(lane (snd (rsp_vadd vs vt carry)) i :: u16) =
      lane vs i + lane vt i + word_of_int (carry_int (lane carry i))"
    using assms by (auto simp: rsp_vadd_def Let_def lane_simps is_mask_def carry_int_def)
qed

lemma vsub_scalar_borrow:
  fixes x y :: u16
  shows "sat_s (sint (sat_s (sint x - sint (sat_s (sint y + 1) :: u16)) :: u16) +
       sint (mask_word (sint (y + 1) < sint (sat_s (sint y + 1) :: u16)) :: u16)) =
     (sat_s (sint x - sint y - 1) :: u16)"
proof (cases "sint y = 32767")
  case True
  have "sint (y + 1) = - 32768" using True by (simp add: sint_add16)
  with True show ?thesis using s16_range [of x]
    by (simp add: s16_eq_iff sint_sat16 sint_mask16)
next
  case False
  then have "sint (y + 1) = sint y + 1" using s16_range [of y] by (simp add: sint_add16)
  with False show ?thesis using s16_range [of x] s16_range [of y]
    by (simp add: s16_eq_iff sint_sat16 sint_mask16)
qed

lemma vsub_scalar:
  fixes x y c :: u16
  assumes "is_mask c"
  shows "sat_s (sint (sat_s (sint x - sint (sat_s (sint y - sint c) :: u16)) :: u16) +
       sint (mask_word (sint (y - c) < sint (sat_s (sint y - sint c) :: u16)) :: u16)) =
     (sat_s (sint x - sint y - carry_int c) :: u16)"
proof (cases "c = 0")
  case True
  show ?thesis unfolding True using s16_range [of y] s16_range [of x]
    by (simp add: carry_int_def s16_eq_iff sint_sat16 sint_mask16)
next
  case False
  with assms have "c = - 1" by (simp add: is_mask_def)
  then show ?thesis using vsub_scalar_borrow [of x y] by (simp add: carry_int_def)
qed

lemma vsub_lane:
  assumes "i < 8" and "is_mask (lane carry i :: u16)"
  shows "(lane (fst (rsp_vsub vs vt carry)) i :: u16) =
      sat_s (sint (lane vs i :: u16) - sint (lane vt i :: u16) - carry_int (lane carry i))"
    "(lane (snd (rsp_vsub vs vt carry)) i :: u16) = lane vs i - lane vt i - word_of_int (carry_int (lane carry i))"
  using assms
  by (auto simp: rsp_vsub_def lane_simps Let_def vsub_scalar carry_int_def is_mask_def)

lemma vaddc_lane:
  assumes "i < 8"
  shows "(lane (fst (rsp_vaddc vs vt 0)) i :: u16) = lane vs i + lane vt i"
    "(lane (snd (rsp_vaddc vs vt 0)) i :: u16) =
      mask_word (65536 \<le> uint (lane vs i :: u16) + uint (lane vt i :: u16))"
  using assms by (auto simp: rsp_vaddc_def Let_def lane_simps carry_test16 not_less)

lemma borrow_test16: "(sat_u (uint x - uint y) = (0 :: u16)) \<longleftrightarrow> x \<le> y" for x y :: u16
  using u16_range [of x] u16_range [of y] uint_sat16 [of "uint x - uint y"]
  by (auto simp: word_le_def word_uint_eq_iff split: if_splits)

lemma vsubc_lane:
  assumes "i < 8"
  shows "(lane (fst (rsp_vsubc vs vt 0)) i :: u16) = lane vs i - lane vt i"
    "(lane (fst (snd (rsp_vsubc vs vt 0))) i :: u16) = mask_word (lane vs i \<noteq> (lane vt i :: u16))"
    "(lane (snd (snd (rsp_vsubc vs vt 0))) i :: u16) = mask_word (lane vs i < (lane vt i :: u16))"
  using assms by (auto simp: rsp_vsubc_def Let_def lane_simps borrow_test16 less_le conj_commute)

lemma lane_all_ones [lane_simps]: "i < 8 \<Longrightarrow> lane (pset1 (0xffffffff :: u32)) i = (- 1 :: u16)"
proof -
  assume i: "i < 8"
  have "(pset1 (0xffffffff :: u32) :: m128i) = - 1"
    by (rule m128i_eqI32) (simp add: lane_simps)
  with i show ?thesis by (simp add: lane_simps)
qed

lemma vlogic_lane:
  assumes "i < 8"
  shows "(lane (rsp_vand vs vt) i :: u16) = lane vs i AND lane vt i"
    "(lane (rsp_vnand vs vt) i :: u16) = NOT (lane vs i AND lane vt i)"
    "(lane (rsp_vor vs vt) i :: u16) = lane vs i OR lane vt i"
    "(lane (rsp_vnor vs vt) i :: u16) = NOT (lane vs i OR lane vt i)"
    "(lane (rsp_vxor vs vt) i :: u16) = lane vs i XOR lane vt i"
    "(lane (rsp_vnxor vs vt) i :: u16) = NOT (lane vs i XOR lane vt i)"
  using assms
  by (simp_all add: rsp_vand_def rsp_vnand_def rsp_vor_def rsp_vnor_def rsp_vxor_def rsp_vnxor_def
      lane_simps)

lemma select_lane:
  assumes "i < 8" "is_mask (lane m i :: u16)"
  shows "(lane ((m AND x) OR pandn m y) i :: u16) = (if lane m i = (0 :: u16) then lane y i else lane x i)"
  using assms by (auto simp: lane_simps is_mask_def)

lemma vmrg_lane:
  assumes "i < 8" "is_mask (lane le i :: u16)"
  shows "(lane (rsp_vmrg sse41 vs vt le) i :: u16) =
    (if lane le i = (0 :: u16) then lane vt i else lane vs i)"
  unfolding rsp_vmrg_def Let_def
  using assms by (cases sse41) (simp_all only: if_True if_False lane_blendv16 select_lane)

text \<open>The four compares read the carry (\<open>sign\<close>) and not-equal (\<open>eq\<close>) flags of VCO, write the
  compare flag and select.\<close>

lemma vcmp_lane:
  assumes "i < 8" "is_mask (lane eq i :: u16)" "is_mask (lane sign i :: u16)"
  defines "e \<equiv> lane eq i \<noteq> (0 :: u16)" and "c \<equiv> lane sign i \<noteq> (0 :: u16)"
  shows veq_flag: "(lane (snd (rsp_veq sse41 vs vt 0 eq sign)) i :: u16) =
      mask_word (lane vs i = (lane vt i :: u16) \<and> \<not> e)"
    and vne_flag: "(lane (snd (rsp_vne sse41 vs vt 0 eq sign)) i :: u16) =
      mask_word (lane vs i \<noteq> (lane vt i :: u16) \<or> e)"
    and vlt_flag: "(lane (snd (rsp_vlt sse41 vs vt 0 eq sign)) i :: u16) =
      mask_word (sint (lane vs i :: u16) < sint (lane vt i :: u16) \<or>
        lane vs i = (lane vt i :: u16) \<and> e \<and> c)"
    and vge_flag: "(lane (snd (rsp_vge sse41 vs vt 0 eq sign)) i :: u16) =
      mask_word (sint (lane vs i :: u16) > sint (lane vt i :: u16) \<or>
        lane vs i = (lane vt i :: u16) \<and> \<not> (e \<and> c))"
  using assms(1-3) unfolding e_def c_def
  by (auto simp: rsp_veq_def rsp_vne_def rsp_vlt_def rsp_vge_def Let_def lane_simps is_mask_def)

lemma vcmp_select:
  assumes "i < 8" "is_mask (lane eq i :: u16)" "is_mask (lane sign i :: u16)"
    and "op = rsp_veq \<or> op = rsp_vne \<or> op = rsp_vlt \<or> op = rsp_vge"
  shows "(lane (fst (op sse41 vs vt 0 eq sign)) i :: u16) =
    (if lane (snd (op sse41 vs vt 0 eq sign)) i = (0 :: u16) then lane vt i else lane vs i)"
proof -
  have m: "is_mask (lane (snd (op sse41 vs vt 0 eq sign)) i :: u16)"
    using assms(4) vcmp_lane [OF assms(1-3)] by auto
  have "fst (op sse41 vs vt 0 eq sign) = rsp_vmrg sse41 vs vt (snd (op sse41 vs vt 0 eq sign))"
    using assms(4) by (auto simp: rsp_vmrg_def rsp_veq_def rsp_vne_def rsp_vlt_def rsp_vge_def Let_def)
  then show ?thesis using vmrg_lane [OF assms(1) m] by simp
qed

section \<open>Properties\<close>

text \<open>
  Thirty-two bit arithmetic on register pairs. The low halves go through VADDC (VSUBC), whose carry
  (borrow) flag VADD (VSUB) consumes on the high halves: the wrapped accumulator word and the low
  result together are the 32 bit sum (difference) modulo \<open>2 ^ 32\<close>.
\<close>

definition pair32 :: "u16 \<Rightarrow> u16 \<Rightarrow> int" where
  "pair32 h l = uint h * 65536 + uint l"

lemma pair32_mod:
  assumes "0 \<le> l" "l < 65536"
  shows "(h mod 65536) * 65536 + l = (h * 65536 + l) mod (4294967296 :: int)"
proof -
  have h: "(h * 65536) mod 4294967296 = (h mod 65536) * 65536"
    using mult_mod_right [of 65536 h 65536] by (simp add: mult.commute)
  have "0 \<le> h mod 65536" "h mod 65536 < 65536" by simp_all
  then have "(h mod 65536) * 65536 + l < 4294967296" "0 \<le> (h mod 65536) * 65536 + l"
    using assms by linarith+
  then have "((h mod 65536) * 65536 + l) mod 4294967296 = (h mod 65536) * 65536 + l"
    by (rule mod_pos_pos_trivial [rotated])
  then show ?thesis unfolding h [symmetric] mod_add_left_eq by (rule sym)
qed

lemma pair32_add:
  fixes c :: int
  assumes "c = (if 65536 \<le> uint xl + uint yl then 1 else 0)"
  shows "pair32 (xh + yh + word_of_int c) (xl + yl) = (pair32 xh xl + pair32 yh yl) mod 2 ^ 32"
proof -
  have hi: "uint (xh + yh + word_of_int c) = (uint xh + uint yh + c) mod 65536"
    by (simp add: uint_word_ariths uint_word_of_int mod_simps)
  have lo: "uint (xl + yl) = uint xl + uint yl - 65536 * c"
    using u16_range [of xl] u16_range [of yl] assms by (simp add: uint_word_ariths mod_once)
  have "uint (xl + yl) < 65536" "0 \<le> uint (xl + yl)"
    using u16_range [of "xl + yl"] by simp_all
  from pair32_mod [OF this(2,1), of "uint xh + uint yh + c"] show ?thesis
    unfolding pair32_def hi lo by (simp add: algebra_simps)
qed

lemma pair32_sub:
  fixes c :: int
  assumes "c = (if xl < yl then 1 else 0)"
  shows "pair32 (xh - yh - word_of_int c) (xl - yl) = (pair32 xh xl - pair32 yh yl) mod 2 ^ 32"
proof -
  have hi: "uint (xh - yh - word_of_int c) = (uint xh - uint yh - c) mod 65536"
    by (simp add: uint_word_ariths uint_word_of_int mod_simps)
  have "- 65536 \<le> uint xl - uint yl" "uint xl - uint yl < 65536"
    using u16_range [of xl] u16_range [of yl] by linarith+
  then have lo: "uint (xl - yl) = uint xl - uint yl + 65536 * c"
    using mod_once_neg [of 65536 "uint xl - uint yl"] assms
    by (simp add: uint_word_ariths word_less_def)
  have "uint (xl - yl) < 65536" "0 \<le> uint (xl - yl)"
    using u16_range [of "xl - yl"] by simp_all
  from pair32_mod [OF this(2,1), of "uint xh - uint yh - c"] show ?thesis
    unfolding pair32_def hi lo by (simp add: algebra_simps)
qed

lemma carry_int_mask_word [simp]: "carry_int (mask_word b) = (if b then 1 else 0)"
  by (simp add: carry_int_def)

text \<open>C8: thirty-two bit addition and subtraction on register pairs is exact modulo \<open>2 ^ 32\<close>: the
  carry (borrow) VADDC (VSUBC) leaves for a lane is the one VADD (VSUB) needs in that lane.\<close>

theorem extended_add_sub:
  assumes "i < 8"
  shows "pair32 (lane (snd (rsp_vadd xh yh (snd (rsp_vaddc xl yl 0)))) i) (lane (fst (rsp_vaddc xl yl 0)) i) =
      (pair32 (lane xh i) (lane xl i) + pair32 (lane yh i) (lane yl i)) mod 2 ^ 32
    \<and> pair32 (lane (snd (rsp_vsub xh yh (snd (snd (rsp_vsubc xl yl 0))))) i) (lane (fst (rsp_vsubc xl yl 0)) i) =
      (pair32 (lane xh i) (lane xl i) - pair32 (lane yh i) (lane yl i)) mod 2 ^ 32"
  using assms
  by (simp_all add: vadd_lane vaddc_lane vsub_lane vsubc_lane pair32_add pair32_sub)

theorem extended_add_sub_witness:
  "pair32 (lane (snd (rsp_vadd (mm_set1_epi16 1) 0 (snd (rsp_vaddc (mm_set1_epi16 0xffff) (mm_set1_epi16 2) 0)))) 3)
     (lane (fst (rsp_vaddc (mm_set1_epi16 0xffff) (mm_set1_epi16 2) 0)) 3) = 0x20001"
  using extended_add_sub [of 3 "mm_set1_epi16 1" 0 "mm_set1_epi16 0xffff" "mm_set1_epi16 2"]
  by (simp add: lane_simps pair32_def)

text \<open>C9: with a carry flag vector of masks, VADD and VSUB return the signed sum and difference with
  carry, saturated to 16 bits, and VABS returns the value of \<open>vt\<close> with the sign of \<open>vs\<close> applied,
  saturated; the accumulator word is the same number wrapped. (A comment in \<open>vsub.h\<close> says that the
  accumulator of VSUB uses saturated arithmetic; the code, like that of VADD, wraps.)\<close>

theorem saturating_add_sub_abs:
  fixes i :: nat and vs vt carry :: m128i
  assumes "i < 8" "mask_lanes carry"
  defines "x \<equiv> sint (lane vs i :: u16)" and "y \<equiv> sint (lane vt i :: u16)"
    and "c \<equiv> carry_int (lane carry i)"
  shows "(lane (fst (rsp_vadd vs vt carry)) i :: u16) = sat_s (x + y + c)
       \<and> (lane (snd (rsp_vadd vs vt carry)) i :: u16) = word_of_int (x + y + c)
       \<and> (lane (fst (rsp_vsub vs vt carry)) i :: u16) = sat_s (x - y - c)
       \<and> (lane (snd (rsp_vsub vs vt carry)) i :: u16) = word_of_int (x - y - c)
       \<and> (lane (fst (rsp_vabs vs vt)) i :: u16) = sat_s (vabs_int x y)
       \<and> (lane (snd (rsp_vabs vs vt)) i :: u16) = word_of_int (vabs_int x y)"
  using assms(1) mask_lanesD [OF assms(2,1)] unfolding x_def y_def c_def
  by (simp_all add: vadd_lane vsub_lane vabs_lane)

theorem saturating_add_sub_abs_witness:
  "lane (fst (rsp_vadd (pset1 (0x7fff :: u16)) (pset1 (1 :: u16)) 0)) 5 = (0x7fff :: u16)"
  using saturating_add_sub_abs [of 5 0 "pset1 (0x7fff :: u16)" "pset1 (1 :: u16)"]
  by (simp add: lane_simps sat_s_def carry_int_def)

text \<open>C10: the compares. With flag vectors of masks, each compare decides its relation on the signed
  lanes, with the not-equal flag \<open>e\<close> and the carry flag \<open>c\<close> of VCO breaking ties, writes the decision
  as a mask, and selects \<open>vs\<close> where it holds and \<open>vt\<close> elsewhere, with both bodies of the select.\<close>

theorem compares_correct:
  fixes i :: nat and vs vt eq sign :: m128i
  assumes "i < 8" "mask_lanes eq" "mask_lanes sign"
  defines "x \<equiv> lane vs i :: u16" and "y \<equiv> lane vt i :: u16"
    and "e \<equiv> lane eq i \<noteq> (0 :: u16)" and "c \<equiv> lane sign i \<noteq> (0 :: u16)"
  defines "out op \<equiv> (lane (fst (op vs vt (0 :: m128i) eq sign)) i :: u16, lane (snd (op vs vt 0 eq sign)) i :: u16)"
    and "decides b \<equiv> (if b then x else y, mask_word b :: u16)"
  shows "out (rsp_veq sse41) = decides (x = y \<and> \<not> e)
    \<and> out (rsp_vne sse41) = decides (x \<noteq> y \<or> e)
    \<and> out (rsp_vlt sse41) = decides (sint x < sint y \<or> x = y \<and> e \<and> c)
    \<and> out (rsp_vge sse41) = decides (sint x > sint y \<or> x = y \<and> \<not> (e \<and> c))"
proof -
  note flags = vcmp_lane [OF assms(1) mask_lanesD [OF assms(2,1)] mask_lanesD [OF assms(3,1)]]
  note sel = vcmp_select [OF assms(1) mask_lanesD [OF assms(2,1)] mask_lanesD [OF assms(3,1)]]
  show ?thesis
    unfolding out_def decides_def x_def y_def e_def c_def by (simp add: sel flags)
qed

theorem compares_correct_witness:
  "lane (fst (rsp_vlt False (mm_set1_epi16 0xffff) (mm_set1_epi16 3) 0 0 0)) 7 = (0xffff :: u16)"
  using compares_correct [where i = 7 and eq = 0 and sign = 0 and vs = "mm_set1_epi16 0xffff" and
    vt = "mm_set1_epi16 3" and ?sse41.0 = False]
  by (simp add: lane_simps)

end
