(* ===== verification/Vector_Clip.thy ===== *)
theory Vector_Clip
  imports Vector_Alu
begin

unbundle bit_operations_syntax

text \<open>
  The clip tests of the vector unit, \<open>vch.h\<close>, \<open>vcl.h\<close> and \<open>vcr.h\<close>, on single lanes: VCH compares
  a value with a positive and a negated limit and leaves its case in the flags, VCL continues the
  comparison on the low halves of a double precision value, VCR is the one's complement form.
  The results are tuples: the returned vector first, then the pointer parameters in order.
\<close>

section \<open>Operations\<close>

definition rsp_vch :: "bool \<Rightarrow> m128i \<Rightarrow> m128i \<Rightarrow> m128i \<Rightarrow>
    m128i \<times> m128i \<times> m128i \<times> m128i \<times> m128i \<times> m128i" where
  "rsp_vch sse41 vs vt zero =
     (let sign = mm_xor_si128 vs vt;
          sign = mm_cmplt_epi16 sign zero;
          sign_negvt = mm_xor_si128 vt sign;
          sign_negvt = mm_sub_epi16 sign_negvt sign;
          diff = mm_sub_epi16 vs sign_negvt;
          diff_zero = mm_cmpeq_epi16 diff zero;
          vt_neg = mm_cmplt_epi16 vt zero;
          diff_lez = mm_cmpgt_epi16 diff zero;
          diff_gez = mm_or_si128 diff_lez diff_zero;
          diff_lez = mm_cmpeq_epi16 zero diff_lez;
          ge = (if sse41 then mm_blendv_epi8 diff_gez vt_neg sign
                else mm_or_si128 (mm_and_si128 sign vt_neg) (mm_andnot_si128 sign diff_gez));
          le = (if sse41 then mm_blendv_epi8 vt_neg diff_lez sign
                else mm_or_si128 (mm_and_si128 sign diff_lez) (mm_andnot_si128 sign vt_neg));
          vce = mm_cmpeq_epi16 diff sign;
          vce = mm_and_si128 vce sign;
          eq = mm_or_si128 diff_zero vce;
          eq = mm_cmpeq_epi16 eq zero;
          res = (if sse41 then
                   let diff_sel_mask = mm_blendv_epi8 ge le sign
                   in mm_blendv_epi8 vs sign_negvt diff_sel_mask
                 else
                   let diff_lez = mm_and_si128 sign le;
                       diff_gez = mm_andnot_si128 sign ge;
                       diff_sel_mask = mm_or_si128 diff_lez diff_gez;
                       diff_lez = mm_and_si128 diff_sel_mask sign_negvt;
                       diff_gez = mm_andnot_si128 diff_sel_mask vs
                   in mm_or_si128 diff_lez diff_gez)
      in (res, ge, le, eq, sign, vce))"

definition rsp_vcl :: "bool \<Rightarrow> m128i \<Rightarrow> m128i \<Rightarrow> m128i \<Rightarrow> m128i \<Rightarrow> m128i \<Rightarrow> m128i \<Rightarrow> m128i \<Rightarrow> m128i \<Rightarrow>
    m128i \<times> m128i \<times> m128i" where
  "rsp_vcl sse41 vs vt zero ge le eq sign vce =
     (let sign_negvt = mm_xor_si128 vt sign;
          sign_negvt = mm_sub_epi16 sign_negvt sign;
          diff = mm_sub_epi16 vs sign_negvt;
          ncarry = mm_adds_epu16 vs vt;
          ncarry = mm_cmpeq_epi16 diff ncarry;
          nvce = mm_cmpeq_epi16 vce zero;
          diff_zero = mm_cmpeq_epi16 diff zero;
          le_case1 = mm_and_si128 diff_zero ncarry;
          le_case1 = mm_and_si128 nvce le_case1;
          le_case2 = mm_or_si128 diff_zero ncarry;
          le_case2 = mm_and_si128 vce le_case2;
          le_eq = mm_or_si128 le_case1 le_case2;
          ge_eq = mm_subs_epu16 vt vs;
          ge_eq = mm_cmpeq_epi16 ge_eq zero;
          do_le = mm_andnot_si128 eq sign;
          le = (if sse41 then mm_blendv_epi8 le le_eq do_le
                else mm_or_si128 (mm_and_si128 do_le le_eq) (mm_andnot_si128 do_le le));
          do_ge = mm_or_si128 sign eq;
          ge = (if sse41 then mm_blendv_epi8 ge_eq ge do_ge
                else mm_or_si128 (mm_andnot_si128 do_ge ge_eq) (mm_and_si128 do_ge ge));
          mux_mask = (if sse41 then mm_blendv_epi8 ge le sign
                      else mm_or_si128 (mm_and_si128 sign le) (mm_andnot_si128 sign ge));
          res = (if sse41 then mm_blendv_epi8 vs sign_negvt mux_mask
                 else mm_or_si128 (mm_and_si128 mux_mask sign_negvt) (mm_andnot_si128 mux_mask vs))
      in (res, ge, le))"

definition rsp_vcr :: "bool \<Rightarrow> m128i \<Rightarrow> m128i \<Rightarrow> m128i \<Rightarrow> m128i \<times> m128i \<times> m128i" where
  "rsp_vcr sse41 vs vt zero =
     (let sign = mm_xor_si128 vs vt;
          sign = mm_srai_epi16 sign 15;
          diff_lez = mm_and_si128 vs sign;
          diff_lez = mm_add_epi16 diff_lez vt;
          le = mm_srai_epi16 diff_lez 15;
          diff_gez = mm_or_si128 vs sign;
          diff_gez = mm_min_epi16 diff_gez vt;
          ge = mm_cmpeq_epi16 diff_gez vt;
          sign_notvt = mm_xor_si128 vt sign;
          res = (if sse41 then
                   let diff_sel_mask = mm_blendv_epi8 ge le sign
                   in mm_blendv_epi8 vs sign_notvt diff_sel_mask
                 else
                   let diff_sel_mask = mm_sub_epi16 le ge;
                       diff_sel_mask = mm_and_si128 diff_sel_mask sign;
                       diff_sel_mask = mm_add_epi16 diff_sel_mask ge;
                       zero = mm_sub_epi16 sign_notvt vs;
                       zero = mm_and_si128 zero diff_sel_mask
                   in mm_add_epi16 zero vs)
      in (res, ge, le))"

section \<open>Masks\<close>

lemma blendv_select: "mask_lanes m \<Longrightarrow> pblendvb a b m = (m AND b) OR pandn m a"
  by (rule m128i_eqI16) (simp add: lane_blendv16 select_lane mask_lanesD)

lemma is_mask_bitwise:
  "is_mask a \<Longrightarrow> is_mask b \<Longrightarrow> is_mask (a AND b)"
  "is_mask a \<Longrightarrow> is_mask b \<Longrightarrow> is_mask (a OR b)"
  "is_mask a \<Longrightarrow> is_mask b \<Longrightarrow> is_mask (NOT a AND b)"
  by (auto simp: is_mask_def)

lemma mask_lanes_ops [intro, simp]:
  "mask_lanes (pcmpeq TYPE(16) a b)"
  "mask_lanes (pcmpgt TYPE(16) a b)"
  "mask_lanes (psra TYPE(16) a 15)"
  "mask_lanes p \<Longrightarrow> mask_lanes q \<Longrightarrow> mask_lanes (p AND q)"
  "mask_lanes p \<Longrightarrow> mask_lanes q \<Longrightarrow> mask_lanes (p OR q)"
  "mask_lanes p \<Longrightarrow> mask_lanes q \<Longrightarrow> mask_lanes (pandn p q)"
  by (auto simp: mask_lanes_iff lane_simps sra15 intro: is_mask_bitwise)

text \<open>The SSE4.1 bodies compute what the plain SSE2 bodies compute.\<close>

lemma vch_sse41: "rsp_vch True vs vt 0 = rsp_vch False vs vt 0"
  by (simp add: rsp_vch_def Let_def blendv_select)

lemma vcl_sse41:
  assumes "mask_lanes ge" "mask_lanes le" "mask_lanes eq" "mask_lanes sign" "mask_lanes vce"
  shows "rsp_vcl True vs vt 0 ge le eq sign vce = rsp_vcl False vs vt 0 ge le eq sign vce"
  using assms by (simp add: rsp_vcl_def Let_def blendv_select or.commute)

section \<open>One lane\<close>

definition opposite :: "u16 \<Rightarrow> u16 \<Rightarrow> bool" where
  "opposite x y \<longleftrightarrow> (sint x < 0) \<noteq> (sint y < 0)"

lemma opposite_xor: "sint (x XOR y) < 0 \<longleftrightarrow> opposite x y"
  by (simp add: xor_neg16 opposite_def)

lemma cond_negate16: "(y XOR mask_word s) - mask_word s = (if s then - y else y :: u16)"
  by (simp add: mask_xor16 not_eq_complement)

lemma not_add_one16: "NOT y + 1 = - (y :: u16)"
  by (simp add: not_eq_complement)

lemma clip_sum:
  assumes "opposite x y"
  shows "sint (x + y) = sint x + sint y" "x = - y \<longleftrightarrow> sint x + sint y = 0"
    "x + y = 0 \<longleftrightarrow> sint x + sint y = 0"
    "x + y = - 1 \<longleftrightarrow> sint x + sint y = - 1" "x = NOT y \<longleftrightarrow> sint x + sint y = - 1"
proof -
  show s: "sint (x + y) = sint x + sint y"
    using assms s16_range [of x] s16_range [of y] by (auto simp: opposite_def sint_add16 Let_def)
  have "x = - y \<longleftrightarrow> x + y = 0" by (simp add: eq_neg_iff_add_eq_0)
  then show "x = - y \<longleftrightarrow> sint x + sint y = 0" "x + y = 0 \<longleftrightarrow> sint x + sint y = 0"
    using s by (simp_all add: s16_eq_iff)
  show e: "x + y = - 1 \<longleftrightarrow> sint x + sint y = - 1" using s by (simp add: s16_eq_iff)
  have "NOT y = - 1 - y" by (simp add: not_eq_complement)
  then show "x = NOT y \<longleftrightarrow> sint x + sint y = - 1" unfolding e [symmetric] by (metis eq_diff_eq)
qed

lemma clip_diff: "\<not> opposite x y \<Longrightarrow> sint (x - y) = sint x - sint y"
  using s16_range [of x] s16_range [of y]
  by (auto simp: opposite_def sint_sub16 Let_def)

text \<open>The case analysis of VCH: which limit applies, on which side of it the value lies, and the
  special case in which the sum of value and limit is exactly \<open>-1\<close>.\<close>

definition vch_ge :: "u16 \<Rightarrow> u16 \<Rightarrow> bool" where
  "vch_ge x y \<longleftrightarrow> (if opposite x y then sint y < 0 else sint x \<ge> sint y)"

definition vch_le :: "u16 \<Rightarrow> u16 \<Rightarrow> bool" where
  "vch_le x y \<longleftrightarrow> (if opposite x y then sint x + sint y \<le> 0 else sint y < 0)"

definition vch_vce :: "u16 \<Rightarrow> u16 \<Rightarrow> bool" where
  "vch_vce x y \<longleftrightarrow> opposite x y \<and> sint x + sint y = - 1"

definition vch_ne :: "u16 \<Rightarrow> u16 \<Rightarrow> bool" where
  "vch_ne x y \<longleftrightarrow> (if opposite x y then sint x + sint y \<notin> {0, - 1} else x \<noteq> y)"

definition vch_res :: "u16 \<Rightarrow> u16 \<Rightarrow> u16" where
  "vch_res x y = (if opposite x y then if vch_le x y then - y else x
                  else if vch_ge x y then y else x)"

lemmas vch_defs = vch_ge_def vch_le_def vch_vce_def vch_ne_def vch_res_def

lemma vch_lane:
  fixes vs vt :: m128i
  assumes "i < 8"
  defines "x \<equiv> lane vs i :: u16" and "y \<equiv> lane vt i :: u16"
  shows "case rsp_vch sse41 vs vt 0 of (res, ge, le, eq, sign, vce) \<Rightarrow>
     lane res i = vch_res x y \<and> lane ge i = (mask_word (vch_ge x y) :: u16)
   \<and> lane le i = (mask_word (vch_le x y) :: u16) \<and> lane eq i = (mask_word (vch_ne x y) :: u16)
   \<and> lane sign i = (mask_word (opposite x y) :: u16) \<and> lane vce i = (mask_word (vch_vce x y) :: u16)"
proof -
  have "rsp_vch sse41 vs vt 0 = rsp_vch False vs vt 0"
    using vch_sse41 by (cases sse41) simp_all
  moreover have "case rsp_vch False vs vt 0 of (res, ge, le, eq, sign, vce) \<Rightarrow>
     lane res i = vch_res x y \<and> lane ge i = (mask_word (vch_ge x y) :: u16)
   \<and> lane le i = (mask_word (vch_le x y) :: u16) \<and> lane eq i = (mask_word (vch_ne x y) :: u16)
   \<and> lane sign i = (mask_word (opposite x y) :: u16) \<and> lane vce i = (mask_word (vch_vce x y) :: u16)"
  proof (cases "opposite x y")
    case True
    then show ?thesis using assms(1) clip_sum [OF True]
      by (simp add: rsp_vch_def Let_def lane_simps opposite_xor cond_negate16 not_add_one16 mask_and16 vch_defs
          flip: x_def y_def)
  next
    case False
    then show ?thesis using assms(1) clip_diff [OF False]
      by (simp add: rsp_vch_def Let_def lane_simps opposite_xor cond_negate16 not_add_one16 mask_and16 vch_defs
          flip: x_def y_def) (auto simp: s16_eq_iff)
  qed
  ultimately show ?thesis by simp
qed

text \<open>VCL on one lane: \<open>s\<close>, \<open>e\<close>, \<open>v\<close> are the sign, not-equal and VCE flags VCH left; a flag is
  recomputed only in its own case and kept otherwise.\<close>

definition vcl_le :: "bool \<Rightarrow> bool \<Rightarrow> bool \<Rightarrow> bool \<Rightarrow> u16 \<Rightarrow> u16 \<Rightarrow> bool" where
  "vcl_le s e v l x y \<longleftrightarrow>
     (if s \<and> \<not> e then uint x + uint y \<le> (if v then 65536 else 0) else l)"

definition vcl_ge :: "bool \<Rightarrow> bool \<Rightarrow> bool \<Rightarrow> u16 \<Rightarrow> u16 \<Rightarrow> bool" where
  "vcl_ge s e g x y \<longleftrightarrow> (if \<not> s \<and> \<not> e then y \<le> x else g)"

lemma sum_zero16: "x + y = (0 :: u16) \<longleftrightarrow> uint x + uint y = 0 \<or> uint x + uint y = 65536"
proof -
  have le: "0 \<le> uint x + uint y" "uint x + uint y < 2 * 65536"
    using u16_range [of x] u16_range [of y] by simp_all
  have "uint (x + y) = (if uint x + uint y < 65536 then uint x + uint y else uint x + uint y - 65536)"
    using mod_once [OF le] by (simp add: uint_word_ariths)
  then show ?thesis using le by (auto simp: word_uint_eq_iff)
qed

lemma vcl_carry:
  "(x + y = 0 \<and> x + y = sat_u (uint x + uint y)) \<longleftrightarrow> uint x + uint y \<le> 0" (is ?A)
  "(x + y = 0 \<or> x + y = sat_u (uint x + uint y)) \<longleftrightarrow> uint x + uint y \<le> 65536" (is ?B)
  for x y :: u16
proof -
  have "0 \<le> uint x + uint y" by simp
  then show ?A ?B unfolding carry_test16 sum_zero16 by linarith+
qed

lemma vcl_lane:
  fixes vs vt :: m128i
  assumes "i < 8"
    and masks: "mask_lanes ge" "mask_lanes le" "mask_lanes eq" "mask_lanes sign" "mask_lanes vce"
  defines "x \<equiv> lane vs i :: u16" and "y \<equiv> lane vt i :: u16"
    and "s \<equiv> lane sign i \<noteq> (0 :: u16)" and "e \<equiv> lane eq i \<noteq> (0 :: u16)" and "v \<equiv> lane vce i \<noteq> (0 :: u16)"
    and "g \<equiv> lane ge i \<noteq> (0 :: u16)" and "l \<equiv> lane le i \<noteq> (0 :: u16)"
  shows "case rsp_vcl sse41 vs vt 0 ge le eq sign vce of (res, ge', le') \<Rightarrow>
      lane res i = (if (if s then vcl_le s e v l x y else vcl_ge s e g x y) then if s then - y else y else x)
    \<and> lane ge' i = (mask_word (vcl_ge s e g x y) :: u16)
    \<and> lane le' i = (mask_word (vcl_le s e v l x y) :: u16)"
proof -
  have b: "rsp_vcl sse41 vs vt 0 ge le eq sign vce = rsp_vcl False vs vt 0 ge le eq sign vce"
    using vcl_sse41 [OF masks] by (cases sse41) simp_all
  have m: "lane ge i = (mask_word g :: u16)" "lane le i = (mask_word l :: u16)"
    "lane eq i = (mask_word e :: u16)" "lane sign i = (mask_word s :: u16)" "lane vce i = (mask_word v :: u16)"
    unfolding g_def l_def e_def s_def v_def
    by (rule is_mask_eq [THEN iffD1], rule mask_lanesD [OF _ assms(1)], rule masks)+
  show ?thesis
    unfolding b using assms(1) vcl_carry [of x y]
    by (cases s; cases e; cases v)
      (auto simp: rsp_vcl_def Let_def lane_simps m mask_and16 borrow_test16 not_add_one16 vcl_le_def vcl_ge_def
        simp flip: x_def y_def)
qed

text \<open>VCR, the one's complement clip of one lane.\<close>

definition vcr_ge :: "u16 \<Rightarrow> u16 \<Rightarrow> bool" where
  "vcr_ge x y \<longleftrightarrow> (if opposite x y then sint y < 0 else sint y \<le> sint x)"

definition vcr_le :: "u16 \<Rightarrow> u16 \<Rightarrow> bool" where
  "vcr_le x y \<longleftrightarrow> (if opposite x y then sint x + sint y < 0 else sint y < 0)"

lemma vcr_lane:
  fixes vs vt :: m128i
  assumes "i < 8"
  defines "x \<equiv> lane vs i :: u16" and "y \<equiv> lane vt i :: u16"
  shows "case rsp_vcr sse41 vs vt 0 of (res, ge, le) \<Rightarrow>
      lane res i = (if (if opposite x y then vcr_le x y else vcr_ge x y)
                    then if opposite x y then NOT y else y else x)
    \<and> lane ge i = (mask_word (vcr_ge x y) :: u16) \<and> lane le i = (mask_word (vcr_le x y) :: u16)"
proof (cases "opposite x y")
  case True
  have "sint x < sint y \<or> \<not> sint x < sint y" "sint y \<le> - 1 \<longleftrightarrow> sint y < 0" by auto
  with True show ?thesis using assms(1) clip_sum(1) [OF True]
    by (cases sse41) (auto simp: rsp_vcr_def Let_def lane_simps sra15 opposite_xor mask_and16 mask_or16
        mask_xor16 blendv_select vcr_ge_def vcr_le_def simp flip: x_def y_def)
next
  case False
  then show ?thesis using assms(1)
    by (cases sse41) (auto simp: rsp_vcr_def Let_def lane_simps sra15 opposite_xor mask_and16 mask_or16
        mask_xor16 blendv_select vcr_ge_def vcr_le_def s16_eq_iff simp flip: x_def y_def)
qed

section \<open>Properties\<close>

lemma vch_masks:
  assumes "rsp_vch sse41 vs vt 0 = (res, ge, le, eq, sign, vce)"
  shows "mask_lanes ge" "mask_lanes le" "mask_lanes eq" "mask_lanes sign" "mask_lanes vce"
  using vch_lane [where vs = vs and vt = vt and ?sse41.0 = sse41] unfolding assms
  by (simp_all add: mask_lanes_iff)

text \<open>A 32 bit signed value kept as a signed high and an unsigned low half.\<close>

definition spair32 :: "u16 \<Rightarrow> u16 \<Rightarrow> int" where
  "spair32 h l = sint h * 65536 + uint l"

lemma spair32_neg: "spair32 h l < 0 \<longleftrightarrow> sint h < 0"
  using u16_range [of l] unfolding spair32_def by linarith

text \<open>The flags VCH leaves for the high halves let VCL decide the 32 bit comparison exactly.\<close>

lemma clip_le_exact:
  assumes "opposite xh yh"
  shows "vcl_le True (vch_ne xh yh) (vch_vce xh yh) (vch_le xh yh) xl yl \<longleftrightarrow>
    spair32 xh xl + spair32 yh yl \<le> 0"
proof -
  note r = u16_bounds [of xl] u16_bounds [of yl]
  consider "sint xh + sint yh = 0" | "sint xh + sint yh = - 1" | "sint xh + sint yh \<le> - 2" | "sint xh + sint yh \<ge> 1"
    by linarith
  then show ?thesis
    using assms r unfolding vcl_le_def vch_ne_def vch_vce_def vch_le_def spair32_def
    by cases auto
qed

lemma clip_ge_exact:
  assumes "\<not> opposite xh yh"
  shows "vcl_ge False (vch_ne xh yh) (vch_ge xh yh) xl yl \<longleftrightarrow> spair32 yh yl \<le> spair32 xh xl"
proof -
  note r = u16_bounds [of xl] u16_bounds [of yl]
  consider "xh = yh" | "sint xh < sint yh" | "sint yh < sint xh"
    using s16_eq_iff [of xh yh] by linarith
  then show ?thesis
    using assms r unfolding vcl_ge_def vch_ne_def vch_ge_def spair32_def word_le_def
    by cases auto
qed

text \<open>C6: double precision clip. VCH on the high halves followed by VCL on the low halves with the
  flags VCH left decides the comparison of the 32 bit values exactly: with operands of opposite sign
  the less-or-equal flag is \<open>X \<le> - Y\<close>, otherwise the greater-or-equal flag is \<open>X \<ge> Y\<close> and the
  result pair is the smaller of the two; the low half of the result is that of the clipped value.\<close>

theorem double_precision_clip:
  fixes xh xl yh yl :: m128i
  assumes "i < 8"
    and vch: "rsp_vch sse41 xh yh 0 = (rh, ge, le, eq, sign, vce)"
    and vcl: "rsp_vcl sse41 xl yl 0 ge le eq sign vce = (rl, ge', le')"
  defines "X \<equiv> spair32 (lane xh i) (lane xl i)" and "Y \<equiv> spair32 (lane yh i) (lane yl i)"
  shows "if (X < 0) \<noteq> (Y < 0)
    then lane le' i = (mask_word (X \<le> - Y) :: u16)
       \<and> lane rl i = (if X \<le> - Y then - lane yl i else lane xl i :: u16)
    else lane ge' i = (mask_word (X \<ge> Y) :: u16) \<and> spair32 (lane rh i) (lane rl i) = min X Y"
proof -
  let ?x = "lane xh i :: u16" and ?y = "lane yh i :: u16"
  note hi = vch_lane [OF assms(1), where vs = xh and vt = yh and ?sse41.0 = sse41, unfolded vch prod.case]
  note lo = vcl_lane [OF assms(1) vch_masks [OF vch], where vs = xl and vt = yl and ?sse41.0 = sse41, unfolded vcl prod.case]
  have op: "(X < 0) \<noteq> (Y < 0) \<longleftrightarrow> opposite ?x ?y"
    by (simp add: X_def Y_def spair32_neg opposite_def)
  show ?thesis
  proof (cases "opposite ?x ?y")
    case True
    then show ?thesis using hi lo clip_le_exact [OF True, of "lane xl i" "lane yl i"]
      unfolding op by (auto simp: X_def Y_def)
  next
    case False
    have "spair32 (lane rh i) (lane rl i) = (if spair32 ?y (lane yl i) \<le> spair32 ?x (lane xl i)
        then spair32 ?y (lane yl i) else spair32 ?x (lane xl i))"
      using False hi lo clip_ge_exact [OF False, of "lane xl i" "lane yl i"] s16_eq_iff [of ?x ?y]
      by (auto simp: vch_res_def vch_ge_def vch_ne_def vcl_ge_def)
    with False show ?thesis using hi lo clip_ge_exact [OF False, of "lane xl i" "lane yl i"]
      unfolding op by (auto simp: X_def Y_def)
  qed
qed

theorem double_precision_clip_witness:
  "\<exists>rh ge le eq sign vce rl ge' le'. rsp_vch False (mm_set1_epi16 2) (mm_set1_epi16 1) 0 = (rh, ge, le, eq, sign, vce)
    \<and> rsp_vcl False (mm_set1_epi16 7) (mm_set1_epi16 9) 0 ge le eq sign vce = (rl, ge', le')
    \<and> spair32 (lane rh 0) (lane rl 0) = 0x10009"
proof -
  obtain rh ge le eq sign vce rl ge' le'
    where vch: "rsp_vch False (mm_set1_epi16 2) (mm_set1_epi16 1) 0 = (rh, ge, le, eq, sign, vce)"
      and vcl: "rsp_vcl False (mm_set1_epi16 7) (mm_set1_epi16 9) 0 ge le eq sign vce = (rl, ge', le')"
    using prod_cases3 prod_cases6 by metis
  then show ?thesis
    using double_precision_clip [OF _ vch vcl, of 0] by (simp add: lane_simps spair32_def)
qed

text \<open>C7: single precision clip. For a non-negative limit \<open>y\<close>, VCH clamps a signed lane to
  \<open>[- y, y]\<close> and VCR, its one's complement form, to \<open>[- y - 1, y]\<close>, with both bodies of the select.\<close>

theorem single_precision_clip:
  fixes vs vt :: m128i
  assumes "i < 8"
  defines "x \<equiv> sint (lane vs i :: u16)" and "y \<equiv> sint (lane vt i :: u16)"
  assumes "0 \<le> y"
  shows "sint (lane (fst (rsp_vch sse41 vs vt 0)) i :: u16) = max (- y) (min x y)
       \<and> sint (lane (fst (rsp_vcr sse41 vs vt 0)) i :: u16) = max (- y - 1) (min x y)"
proof -
  note lanes = vch_lane [OF assms(1), where vs = vs and vt = vt and ?sse41.0 = sse41]
    vcr_lane [OF assms(1), where vs = vs and vt = vt and ?sse41.0 = sse41]
  have neg: "sint (- lane vt i :: u16) = - y" "sint (NOT (lane vt i :: u16)) = - y - 1"
    using assms(4) by (simp_all add: sint_uminus16 sint_not16 y_def)
  show ?thesis
    using lanes neg assms(4)
    by (auto simp: split_beta vch_res_def vch_le_def vch_ge_def vcr_le_def vcr_ge_def opposite_def
        max_def min_def simp flip: x_def y_def)
qed

theorem single_precision_clip_witness:
  "sint (lane (fst (rsp_vch True (mm_set1_epi16 0xff00) (mm_set1_epi16 5) 0)) 2 :: u16) = - 5"
  using single_precision_clip [where i = 2 and vt = "mm_set1_epi16 5" and vs = "mm_set1_epi16 0xff00"
    and ?sse41.0 = True]
  by (simp add: lane_simps)

end
