(* ===== verification/Vector_Mul.thy ===== *)
theory Vector_Mul
  imports Vector_Clip
begin

unbundle bit_operations_syntax

text \<open>
  The multiply instructions of the vector unit and the clamps of \<open>clamp.h\<close>. Every lane has a 48 bit
  accumulator kept as three vectors of 16 bit words (\<open>acc_hi\<close>, \<open>acc_md\<close>, \<open>acc_lo\<close>). The results
  are tuples: the returned vector, then \<open>acc_lo\<close>, \<open>acc_md\<close>, \<open>acc_hi\<close>. The template parameter that
  selects the accumulating variant is a \<open>bool\<close>.
\<close>

section \<open>Operations\<close>

definition rsp_sclamp_acc_tomd :: "m128i \<Rightarrow> m128i \<Rightarrow> m128i" where
  "rsp_sclamp_acc_tomd acc_md acc_hi =
     (let l = mm_unpacklo_epi16 acc_md acc_hi;
          h = mm_unpackhi_epi16 acc_md acc_hi
      in mm_packs_epi32 l h)"

definition rsp_uclamp_acc :: "bool \<Rightarrow> m128i \<Rightarrow> m128i \<Rightarrow> m128i \<Rightarrow> m128i \<Rightarrow> m128i" where
  "rsp_uclamp_acc sse41 val acc_md acc_hi zero =
     (let hi_negative = mm_srai_epi16 acc_hi 15;
          md_negative = mm_srai_epi16 acc_md 15;
          hi_sign_check = mm_cmpeq_epi16 hi_negative acc_hi;
          md_sign_check = mm_cmpeq_epi16 hi_negative md_negative;
          clamp_mask = mm_and_si128 md_sign_check hi_sign_check;
          clamped_val = mm_cmpeq_epi16 hi_negative zero
      in if \<not> sse41 then
           let tmp = mm_and_si128 clamp_mask val;
               val = mm_andnot_si128 clamp_mask clamped_val
           in mm_or_si128 val tmp
         else mm_blendv_epi8 clamped_val val clamp_mask)"

definition rsp_vmacf_vmacu :: "bool \<Rightarrow> m128i \<Rightarrow> m128i \<Rightarrow> m128i \<Rightarrow> m128i \<Rightarrow> m128i \<Rightarrow> m128i \<Rightarrow>
    m128i \<times> m128i \<times> m128i \<times> m128i" where
  "rsp_vmacf_vmacu VMACU vs vt zero acc_lo acc_md acc_hi =
     (let lo = mm_mullo_epi16 vs vt;
          hi = mm_mulhi_epi16 vs vt;
          md = mm_slli_epi16 hi 1;
          carry = mm_srli_epi16 lo 15;
          hi = mm_srai_epi16 hi 15;
          md = mm_or_si128 md carry;
          lo = mm_slli_epi16 lo 1;
          overflow_mask = mm_adds_epu16 acc_lo lo;
          acc_lo = mm_add_epi16 acc_lo lo;
          overflow_mask = mm_cmpeq_epi16 acc_lo overflow_mask;
          overflow_mask = mm_cmpeq_epi16 overflow_mask zero;
          md = mm_sub_epi16 md overflow_mask;
          carry = mm_cmpeq_epi16 md zero;
          carry = mm_and_si128 carry overflow_mask;
          hi = mm_sub_epi16 hi carry;
          overflow_mask = mm_adds_epu16 acc_md md;
          acc_md = mm_add_epi16 acc_md md;
          overflow_mask = mm_cmpeq_epi16 acc_md overflow_mask;
          overflow_mask = mm_cmpeq_epi16 overflow_mask zero;
          acc_hi = mm_add_epi16 acc_hi hi;
          acc_hi = mm_sub_epi16 acc_hi overflow_mask
      in (if VMACU then
            let overflow_hi_mask = mm_srai_epi16 acc_hi 15;
                overflow_md_mask = mm_srai_epi16 acc_md 15;
                md = mm_or_si128 overflow_md_mask acc_md;
                overflow_mask = mm_cmpgt_epi16 acc_hi zero;
                md = mm_andnot_si128 overflow_hi_mask md
            in mm_or_si128 overflow_mask md
          else rsp_sclamp_acc_tomd acc_md acc_hi, acc_lo, acc_md, acc_hi))"

definition rsp_vmulf_vmulu :: "bool \<Rightarrow> m128i \<Rightarrow> m128i \<Rightarrow> m128i \<Rightarrow> m128i \<times> m128i \<times> m128i \<times> m128i" where
  "rsp_vmulf_vmulu VMULU vs vt zero =
     (let lo = mm_mullo_epi16 vs vt;
          round = mm_cmpeq_epi16 zero zero;
          sign1 = mm_srli_epi16 lo 15;
          lo = mm_add_epi16 lo lo;
          round = mm_slli_epi16 round 15;
          hi = mm_mulhi_epi16 vs vt;
          sign2 = mm_srli_epi16 lo 15;
          acc_lo = mm_add_epi16 round lo;
          sign1 = mm_add_epi16 sign1 sign2;
          hi = mm_slli_epi16 hi 1;
          eq = mm_cmpeq_epi16 vs vt;
          neq = eq;
          acc_md = mm_add_epi16 hi sign1;
          neg = mm_srai_epi16 acc_md 15
      in if VMULU then
           let acc_hi = mm_andnot_si128 eq neg;
               hi = mm_or_si128 acc_md neg
           in (mm_andnot_si128 acc_hi hi, acc_lo, acc_md, acc_hi)
         else
           let eq = mm_and_si128 eq neg;
               acc_hi = mm_andnot_si128 neq neg
           in (mm_add_epi16 acc_md eq, acc_lo, acc_md, acc_hi))"

definition rsp_vmudh :: "m128i \<Rightarrow> m128i \<Rightarrow> m128i \<times> m128i \<times> m128i" where
  "rsp_vmudh vs vt =
     (let acc_md = mm_mullo_epi16 vs vt;
          acc_hi = mm_mulhi_epi16 vs vt
      in (rsp_sclamp_acc_tomd acc_md acc_hi, acc_md, acc_hi))"

definition rsp_vmadh_vmudh :: "bool \<Rightarrow> m128i \<Rightarrow> m128i \<Rightarrow> m128i \<Rightarrow> m128i \<Rightarrow> m128i \<Rightarrow> m128i \<Rightarrow>
    m128i \<times> m128i \<times> m128i \<times> m128i" where
  "rsp_vmadh_vmudh VMADH vs vt zero acc_lo acc_md acc_hi =
     (let lo = mm_mullo_epi16 vs vt;
          hi = mm_mulhi_epi16 vs vt
      in if VMADH then
           let overflow_mask = mm_adds_epu16 acc_md lo;
               acc_md = mm_add_epi16 acc_md lo;
               overflow_mask = mm_cmpeq_epi16 acc_md overflow_mask;
               overflow_mask = mm_cmpeq_epi16 overflow_mask zero;
               hi = mm_sub_epi16 hi overflow_mask;
               acc_hi = mm_add_epi16 acc_hi hi
           in (rsp_sclamp_acc_tomd acc_md acc_hi, acc_lo, acc_md, acc_hi)
         else
           let acc_lo = zero; acc_md = lo; acc_hi = hi
           in (rsp_sclamp_acc_tomd acc_md acc_hi, acc_lo, acc_md, acc_hi))"

definition rsp_vmadl_vmudl :: "bool \<Rightarrow> bool \<Rightarrow> m128i \<Rightarrow> m128i \<Rightarrow> m128i \<Rightarrow> m128i \<Rightarrow> m128i \<Rightarrow> m128i \<Rightarrow>
    m128i \<times> m128i \<times> m128i \<times> m128i" where
  "rsp_vmadl_vmudl sse41 VMADL vs vt zero acc_lo acc_md acc_hi =
     (let hi = mm_mulhi_epu16 vs vt
      in if VMADL then
           let overflow_mask = mm_adds_epu16 acc_lo hi;
               acc_lo = mm_add_epi16 acc_lo hi;
               overflow_mask = mm_cmpeq_epi16 acc_lo overflow_mask;
               overflow_mask = mm_cmpeq_epi16 overflow_mask zero;
               hi = mm_sub_epi16 zero overflow_mask;
               overflow_mask = mm_adds_epu16 acc_md hi;
               acc_md = mm_add_epi16 acc_md hi;
               overflow_mask = mm_cmpeq_epi16 acc_md overflow_mask;
               overflow_mask = mm_cmpeq_epi16 overflow_mask zero;
               acc_hi = mm_sub_epi16 acc_hi overflow_mask
           in (rsp_uclamp_acc sse41 acc_lo acc_md acc_hi zero, acc_lo, acc_md, acc_hi)
         else (hi, hi, zero, zero))"

definition rsp_vmadm_vmudm :: "bool \<Rightarrow> m128i \<Rightarrow> m128i \<Rightarrow> m128i \<Rightarrow> m128i \<Rightarrow> m128i \<Rightarrow> m128i \<Rightarrow>
    m128i \<times> m128i \<times> m128i \<times> m128i" where
  "rsp_vmadm_vmudm VMADM vs vt zero acc_lo acc_md acc_hi =
     (let lo = mm_mullo_epi16 vs vt;
          hi = mm_mulhi_epu16 vs vt;
          sign = mm_srai_epi16 vs 15;
          vt = mm_and_si128 vt sign;
          hi = mm_sub_epi16 hi vt
      in if VMADM then
           let overflow_mask = mm_adds_epu16 acc_lo lo;
               acc_lo = mm_add_epi16 acc_lo lo;
               overflow_mask = mm_cmpeq_epi16 acc_lo overflow_mask;
               overflow_mask = mm_cmpeq_epi16 overflow_mask zero;
               hi = mm_sub_epi16 hi overflow_mask;
               overflow_mask = mm_adds_epu16 acc_md hi;
               acc_md = mm_add_epi16 acc_md hi;
               overflow_mask = mm_cmpeq_epi16 acc_md overflow_mask;
               overflow_mask = mm_cmpeq_epi16 overflow_mask zero;
               acc_hi = mm_add_epi16 acc_hi (mm_srai_epi16 hi 15);
               acc_hi = mm_sub_epi16 acc_hi overflow_mask
           in (rsp_sclamp_acc_tomd acc_md acc_hi, acc_lo, acc_md, acc_hi)
         else (hi, lo, hi, mm_srai_epi16 hi 15))"

definition rsp_vmadn_vmudn :: "bool \<Rightarrow> bool \<Rightarrow> m128i \<Rightarrow> m128i \<Rightarrow> m128i \<Rightarrow> m128i \<Rightarrow> m128i \<Rightarrow> m128i \<Rightarrow>
    m128i \<times> m128i \<times> m128i \<times> m128i" where
  "rsp_vmadn_vmudn sse41 VMADN vs vt zero acc_lo acc_md acc_hi =
     (let lo = mm_mullo_epi16 vs vt;
          hi = mm_mulhi_epu16 vs vt;
          sign = mm_srai_epi16 vt 15;
          vs = mm_and_si128 vs sign;
          hi = mm_sub_epi16 hi vs
      in if VMADN then
           let overflow_mask = mm_adds_epu16 acc_lo lo;
               acc_lo = mm_add_epi16 acc_lo lo;
               overflow_mask = mm_cmpeq_epi16 acc_lo overflow_mask;
               overflow_mask = mm_cmpeq_epi16 overflow_mask zero;
               hi = mm_sub_epi16 hi overflow_mask;
               overflow_mask = mm_adds_epu16 acc_md hi;
               acc_md = mm_add_epi16 acc_md hi;
               overflow_mask = mm_cmpeq_epi16 acc_md overflow_mask;
               overflow_mask = mm_cmpeq_epi16 overflow_mask zero;
               acc_hi = mm_add_epi16 acc_hi (mm_srai_epi16 hi 15);
               acc_hi = mm_sub_epi16 acc_hi overflow_mask
           in (rsp_uclamp_acc sse41 acc_lo acc_md acc_hi zero, acc_lo, acc_md, acc_hi)
         else (lo, lo, hi, mm_srai_epi16 hi 15))"

section \<open>The 48 bit accumulator of a lane\<close>

definition acc48 :: "u16 \<Rightarrow> u16 \<Rightarrow> u16 \<Rightarrow> int" where
  "acc48 h m l = sint h * 2 ^ 32 + uint m * 2 ^ 16 + uint l"

lemma acc48_num: "acc48 h m l = sint h * 4294967296 + uint m * 65536 + uint l"
  by (simp add: acc48_def)

definition wrap48 :: "int \<Rightarrow> int" where
  "wrap48 k = (k + 2 ^ 47) mod 2 ^ 48 - 2 ^ 47"

lemma acc48_range: "- (2 ^ 47) \<le> acc48 h m l" "acc48 h m l < 2 ^ 47"
  using s16_range [of h] u16_bounds [of m] u16_bounds [of l] unfolding acc48_def by simp_all

lemma wrap48_id: "- (2 ^ 47) \<le> k \<Longrightarrow> k < 2 ^ 47 \<Longrightarrow> wrap48 k = k"
  by (simp add: wrap48_def)

lemma wrap48_cong: "j mod 2 ^ 48 = k mod 2 ^ 48 \<Longrightarrow> wrap48 j = wrap48 k"
  unfolding wrap48_def by (metis mod_add_left_eq)

lemma wrap48_mod [simp]: "wrap48 k mod 2 ^ 48 = k mod 2 ^ 48"
  unfolding wrap48_def by (simp add: mod_diff_left_eq)

lemma wrap48_add [simp]: "wrap48 (wrap48 a + b) = wrap48 (a + b)"
  by (rule wrap48_cong) (metis mod_add_left_eq wrap48_mod)

lemma acc48_eqI: "acc48 h m l mod 2 ^ 48 = k mod 2 ^ 48 \<Longrightarrow> acc48 h m l = wrap48 k"
  using wrap48_cong [of "acc48 h m l" k] acc48_range [of h m l] by (simp add: wrap48_id)

section \<open>Adding limbs with carries\<close>

definition carries :: "u16 \<Rightarrow> u16 \<Rightarrow> bool" where
  "carries x y \<longleftrightarrow> 65536 \<le> uint x + uint y"

lemma carry_lane:
  "(mask_word (mask_word (x + y = sat_u (uint x + uint y)) = (0 :: u16)) :: u16) = mask_word (carries x y)"
  by (simp add: carry_test16 carries_def not_less)

lemma uint_add_carries: "uint (x + y) = uint x + uint y - (if carries x y then 65536 else 0)"
  using u16_bounds [of x] u16_bounds [of y]
  by (simp add: uint_word_ariths carries_def mod_once)

lemma sint_cong16: "sint (word_of_int k :: u16) mod 65536 = k mod 65536"
  unfolding sint_word_of_int16 using mod_diff_left_eq [of "k + 32768" 65536 32768] by simp

lemma sint_offset:
  assumes "x = word_of_int k"
  obtains q where "sint (x :: u16) = k + 65536 * q"
proof -
  have "sint x mod 65536 = k mod 65536" using sint_cong16 assms by simp
  then have "65536 dvd sint x - k" by (rule mod_eq_dvd_iff [THEN iffD1])
  then obtain q where "sint x - k = 65536 * q" by (rule dvdE)
  then show thesis using that [of q] by simp
qed

text \<open>Adding a three limb number to the accumulator, with the carry from the low into the middle limb
  added to the addend's middle limb first; \<open>c1\<close> is the carry out of that increment.\<close>

lemma acc48_add:
  fixes ah am al h m l m1 :: u16
  assumes m1: "m1 = m - mask_word (carries al l)" and c1: "c1 \<longleftrightarrow> m1 = 0 \<and> carries al l"
  shows "acc48 (ah + (h - mask_word c1) - mask_word (carries am m1)) (am + m1) (al + l) =
    wrap48 (acc48 ah am al + acc48 h m l)"
proof (rule acc48_eqI)
  define b0 b1 b2 :: int where "b0 = (if carries al l then 1 else 0)" "b1 = (if c1 then 1 else 0)"
    and "b2 = (if carries am m1 then 1 else 0)"
  note bs = b0_b1_def b2_def
  let ?h = "ah + (h - mask_word c1) - mask_word (carries am m1)"
  have "?h = word_of_int (sint ah + sint h + b1 + b2)"
    by (simp add: bs)
  then obtain q where h: "sint ?h = sint ah + sint h + b1 + b2 + 65536 * q"
    by (rule sint_offset)
  have "uint m1 = uint m + b0 - 65536 * b1"
    using u16_bounds [of m] uint_add_carries [of m 1] unfolding c1 m1 bs
    by (auto simp: carries_def word_uint_eq_iff split: if_splits)
  moreover have "uint (am + m1) = uint am + uint m1 - 65536 * b2"
    "uint (al + l) = uint al + uint l - 65536 * b0"
    by (simp_all add: uint_add_carries bs)
  ultimately have "acc48 ?h (am + m1) (al + l) = acc48 ah am al + acc48 h m l + 2 ^ 48 * q"
    unfolding acc48_def h by simp
  then show "acc48 ?h (am + m1) (al + l) mod 2 ^ 48 = (acc48 ah am al + acc48 h m l) mod 2 ^ 48"
    by simp
qed

section \<open>Products as limbs\<close>

lemma product_range:
  "\<bar>sint (x :: u16) * sint (y :: u16)\<bar> \<le> 1073741824"
  "\<bar>sint (x :: u16) * uint (y :: u16)\<bar> \<le> 2147450880"
proof -
  have s: "\<bar>sint (z :: u16)\<bar> \<le> 32768" for z using s16_range [of z] by linarith
  have u: "\<bar>uint (z :: u16)\<bar> \<le> 65535" for z using u16_bounds [of z] by linarith
  show "\<bar>sint x * sint y\<bar> \<le> 1073741824" "\<bar>sint x * uint y\<bar> \<le> 2147450880"
    using mult_mono [OF s [of x] s [of y]] mult_mono [OF s [of x] u [of y]] by (simp_all add: abs_mult)
qed

lemma uint_of_int16: "uint (word_of_int k :: u16) = k mod 65536"
  by (simp add: uint_word_of_int)

lemma uint_mult_s: "uint (x * y :: u16) = (sint x * sint y) mod 65536"
  using uint_of_int16 [of "sint x * sint y"] by simp

lemma mulhi_s: "sint (word_of_int ((sint x * sint y) div 65536) :: u16) = (sint x * sint y) div 65536"
  for x y :: u16
  using product_range(1) [of x y] by (intro sint_of_int16) linarith+

lemma msb_u16: "bit (v :: u16) 15 \<longleftrightarrow> 32768 \<le> uint v"
  using uint_s16 [of v] s16_range [of v] unfolding sign_bit16 by (simp split: if_splits)

lemma shift_in_msb: "push_bit 1 w OR drop_bit 15 v = 2 * w + of_bool (32768 \<le> uint v)" for w v :: u16
proof -
  have d: "drop_bit 15 v = of_bool (bit v 15)"
  proof (rule bit_word_eqI)
    fix n assume "n < LENGTH(16)"
    then show "bit (drop_bit 15 v) n = bit (of_bool (bit v 15) :: u16) n"
      by (cases n) (auto simp: bit_simps dest: bit_imp_le_length)
  qed
  have "push_bit 1 w + drop_bit 15 v = push_bit 1 w OR drop_bit 15 v"
    unfolding d by (rule disjunctive_add) (simp only: bit_push_bit_iff bit_of_bool_iff, auto)
  then show ?thesis unfolding d msb_u16 [symmetric] by (simp add: mult.commute [of _ 2] split: if_splits)
qed

lemma drop_msb: "drop_bit 15 v = of_bool (32768 \<le> uint v)" for v :: u16
  using shift_in_msb [of 0 v] by simp

text \<open>The doubled product of two signed lanes as accumulator limbs (VMACF, VMACU).\<close>

lemma vmacf_limbs:
  fixes x y :: u16
  defines "hi \<equiv> word_of_int ((sint x * sint y) div 65536) :: u16"
  shows "acc48 (mask_word (sint hi < 0)) (push_bit 1 hi OR drop_bit 15 (x * y)) (push_bit 1 (x * y)) =
    2 * (sint x * sint y)"
proof -
  let ?p = "sint x * sint y"
  define H L where "H = ?p div 65536" and "L = ?p mod 65536"
  have p: "?p = 65536 * H + L" and L: "0 \<le> L" "L < 65536" by (simp_all add: H_def L_def)
  have H: "- 16384 \<le> H" "H \<le> 16384" using product_range(1) [of x y] p L by linarith+
  have sh: "sint hi = H" unfolding hi_def H_def by (rule mulhi_s)
  have ul: "uint (x * y) = L" unfolding L_def by (rule uint_mult_s)
  have lo: "uint (push_bit 1 (x * y)) = 2 * L - (if 32768 \<le> L then 65536 else 0)"
  proof -
    have "push_bit 1 (x * y) = word_of_int (2 * uint (x * y))" by simp
    then show ?thesis using mod_once [of "2 * L" 65536] L
      by (simp only: uint_of_int16 ul) simp
  qed
  have "push_bit 1 hi OR drop_bit 15 (x * y) = word_of_int (2 * H + (if 32768 \<le> L then 1 else 0))"
    unfolding shift_in_msb ul hi_def H_def by simp
  then have md: "uint (push_bit 1 hi OR drop_bit 15 (x * y)) =
      2 * H + (if 32768 \<le> L then 1 else 0) + (if H < 0 then 65536 else 0)"
    using mod_once_neg [of 65536 "2 * H + (if 32768 \<le> L then 1 else 0)"] H
    by (simp only: uint_of_int16) (auto split: if_splits)
  show ?thesis unfolding acc48_def lo md p sh sint_mask16 by simp
qed

text \<open>The product of a signed and an unsigned lane: the high half of the unsigned product, corrected
  by the unsigned factor when the signed one is negative (VMUDM, VMUDN).\<close>

definition mulhi_su :: "u16 \<Rightarrow> u16 \<Rightarrow> u16" where
  "mulhi_su x y = word_of_int ((uint x * uint y) div 65536) - (if sint x < 0 then y else 0)"

lemma mulhi_su:
  "sint (mulhi_su x y) = (sint x * uint y) div 65536"
  "uint (x * y) = (sint x * uint y) mod 65536"
proof -
  have "uint x * uint y = sint x * uint y + 65536 * (if sint x < 0 then uint y else 0)"
    by (simp add: uint_s16 [of x] algebra_simps)
  then have "(uint x * uint y) div 65536 = (sint x * uint y) div 65536 + (if sint x < 0 then uint y else 0)"
    by simp
  then have "mulhi_su x y = word_of_int ((sint x * uint y) div 65536)"
    unfolding mulhi_su_def by simp
  then show "sint (mulhi_su x y) = (sint x * uint y) div 65536"
    using product_range(2) [of x y] by simp (rule sint_of_int16; linarith)
  show "uint (x * y) = (sint x * uint y) mod 65536"
    using uint_of_int16 [of "sint x * uint y"] by simp
qed

section \<open>Clamps\<close>

text \<open>The upper 32 bits of the accumulator, as the clamps read it.\<close>

lemma acc48_div: "acc48 h m l div 65536 = sint h * 65536 + uint m"
proof -
  have "acc48 h m l = 65536 * (sint h * 65536 + uint m) + uint l" by (simp add: acc48_def)
  moreover have "uint l div 65536 = 0" using u16_bounds [of l] by (simp add: div_pos_pos_trivial)
  ultimately show ?thesis by simp
qed

lemma sint_halves32: "sint (w :: u32) = sint (lane w 1 :: u16) * 65536 + uint (lane w 0 :: u16)"
proof -
  have s32: "sint w = (uint w + 2147483648) mod 4294967296 - 2147483648"
    by (simp add: sint_uint signed_take_bit_eq_take_bit_shift take_bit_eq_mod)
  have r: "0 \<le> uint w" "uint w < 4294967296" using uint_bounded [of w] by simp_all
  have lo: "uint (lane w 0 :: u16) = uint w mod 65536"
    by (simp add: lane_def unsigned_ucast_eq take_bit_eq_mod)
  have "uint w div 65536 < 65536" "0 \<le> uint w div 65536" using r by linarith+
  then have hi: "uint (lane w 1 :: u16) = uint w div 65536"
    by (simp add: lane_def unsigned_ucast_eq take_bit_eq_mod uint_div drop_bit_eq_div)
  have sh: "sint (lane w 1 :: u16) = (if 32768 \<le> uint w div 65536 then uint w div 65536 - 65536 else uint w div 65536)"
    using uint_s16 [of "lane w 1"] s16_range [of "lane w 1"] unfolding hi by (simp split: if_splits)
  have "sint w = (if 2147483648 \<le> uint w then uint w - 4294967296 else uint w)"
    unfolding s32 using r by (simp add: mod_once)
  moreover have "uint w = 65536 * (uint w div 65536) + uint w mod 65536" by simp
  moreover have "32768 \<le> uint w div 65536 \<longleftrightarrow> 2147483648 \<le> uint w" by linarith
  ultimately show ?thesis unfolding sh lo by auto
qed

lemma lane32_16: "lane (lane (v :: m128i) i :: u32) j = (lane v (2 * i + j) :: u16)" if "j < 2"
  using that by (rule lane_lane [rotated]) simp

lemma unpack_pairs:
  assumes "i < 4"
  shows "sint (lane (mm_unpacklo_epi16 a b) i :: u32) = sint (lane b i :: u16) * 65536 + uint (lane a i :: u16)"
    "sint (lane (mm_unpackhi_epi16 a b) i :: u32) =
      sint (lane b (i + 4) :: u16) * 65536 + uint (lane a (i + 4) :: u16)"
  using assms by (simp_all add: sint_halves32 lane32_16 simd_defs lane_vec del: One_nat_def)

lemma sclamp_lane:
  assumes "i < 8"
  shows "(lane (rsp_sclamp_acc_tomd md hi) i :: u16) =
    sat_s (acc48 (lane hi i) (lane md i) l div 65536)"
proof (cases "i < 4")
  case True
  then show ?thesis using assms
    by (simp add: rsp_sclamp_acc_tomd_def packss_def lane_vec unpack_pairs acc48_div)
next
  case False
  then show ?thesis using assms unpack_pairs(2) [of "i - 4" md hi]
    by (simp add: rsp_sclamp_acc_tomd_def packss_def lane_vec acc48_div)
qed

text \<open>The clamp of the instructions that return the low word: the low word itself when the upper 32
  bits are in range, else the bound.\<close>

definition uclamp_lo :: "int \<Rightarrow> u16" where
  "uclamp_lo a = (let v = a div 65536 in if v < - 32768 then 0 else if v > 32767 then 0xffff else word_of_int a)"

text \<open>The clamp of VMULU and VMACU: negative values give 0, values above the signed maximum give 0xffff.\<close>

definition uclamp_md :: "int \<Rightarrow> u16" where
  "uclamp_md a = (let v = a div 65536 in if v < 0 then 0 else if v > 32767 then 0xffff else word_of_int v)"

lemma acc48_low: "(word_of_int (acc48 h m l) :: u16) = l"
proof -
  have "acc48 h m l = uint l + 65536 * (sint h * 65536 + uint m)" by (simp add: acc48_def)
  then have "acc48 h m l mod 65536 = uint l mod 65536" by (simp only: mod_mult_self2)
  then have "acc48 h m l mod 65536 = uint l" using u16_bounds [of l] by simp
  then show ?thesis by (metis uint_of_int16 word_uint_eq_iff)
qed

lemma uclamp_in_range:
  "- 32768 \<le> sint h * 65536 + uint m \<and> sint h * 65536 + uint m \<le> 32767 \<longleftrightarrow>
    h = mask_word (sint h < 0) \<and> (sint h < 0 \<longleftrightarrow> sint m < 0)"
  for h m :: u16
  using s16_range [of m] s16_range [of h]
  by (auto simp: uint_s16 s16_eq_iff sint_mask16)

lemma uclamp_lane:
  assumes "i < 8"
  shows "(lane (rsp_uclamp_acc sse41 val md hi 0) i :: u16) =
    (let h = lane hi i :: u16; m = lane md i :: u16; v = sint h * 65536 + uint m in
     if v < - 32768 then 0 else if v > 32767 then 0xffff else lane val i)"
proof -
  let ?h = "lane hi i :: u16" and ?m = "lane md i :: u16"
  have "(lane (rsp_uclamp_acc sse41 val md hi 0) i :: u16) =
    (if ?h = mask_word (sint ?h < 0) \<and> (sint ?h < 0 \<longleftrightarrow> sint ?m < 0) then lane val i
     else mask_word (\<not> sint ?h < 0))"
    using assms by (auto simp: rsp_uclamp_acc_def Let_def lane_simps blendv_select sra15 mask_and16 mask_or16)
  also have "\<dots> = (let v = sint ?h * 65536 + uint ?m in
     if v < - 32768 then 0 else if v > 32767 then 0xffff else lane val i)"
    using u16_bounds [of ?m] unfolding uclamp_in_range [symmetric] Let_def
    by (auto simp: not_le)
  finally show ?thesis by (simp add: Let_def)
qed

section \<open>One lane of each multiply\<close>

definition lane_acc :: "nat \<Rightarrow> m128i \<Rightarrow> m128i \<Rightarrow> m128i \<Rightarrow> int" where
  "lane_acc i lo md hi = acc48 (lane hi i) (lane md i) (lane lo i)"

lemma uclamp_md_acc:
  "uclamp_md (acc48 h m l) = (if sint h < 0 then 0 else if sint h > 0 \<or> sint m < 0 then 0xffff else m)"
  using u16_bounds [of m] s16_range [of m] s16_range [of h] s16_eqI [of h 0]
  by (auto simp: uclamp_md_def acc48_div Let_def uint_s16 [of m] not_less)

lemma projs:
  assumes "f = (a, b, c, d)"
  shows "b = fst (snd f)" "c = fst (snd (snd f))" "d = snd (snd (snd f))"
  using assms by simp_all

lemma pow16: "2 ^ LENGTH(16) = (65536 :: int)"
  by simp

lemma vmacf_lane:
  fixes vs vt :: m128i
  assumes i: "i < 8"
    and op: "rsp_vmacf_vmacu u vs vt 0 lo md hi = (res, lo', md', hi')"
  defines "a \<equiv> wrap48 (lane_acc i lo md hi + 2 * (sint (lane vs i :: u16) * sint (lane vt i :: u16)))"
  shows "lane_acc i lo' md' hi' = a" "lane res i = (if u then uclamp_md a else sat_s (a div 65536))"
proof -
  let ?h = "word_of_int ((sint (lane vs i :: u16) * sint (lane vt i :: u16)) div 65536) :: u16"
  let ?p = "lane vs i * lane vt i :: u16"
  let ?m1 = "(push_bit 1 ?h OR drop_bit 15 ?p) - mask_word (carries (lane lo i) (push_bit 1 ?p)) :: u16"
  have lanes: "lane lo' i = lane lo i + push_bit 1 ?p" "lane md' i = lane md i + ?m1"
    "lane hi' i = lane hi i + (mask_word (sint ?h < 0) -
       mask_word (?m1 = 0 \<and> carries (lane lo i) (push_bit 1 ?p))) - (mask_word (carries (lane md i) ?m1) :: u16)"
    unfolding projs [OF op] rsp_vmacf_vmacu_def Let_def fst_conv snd_conv using i
    by (simp_all only: lane_simps lane_count_simps carry_lane sra15 mask_word_bitwise pow16)
  show acc: "lane_acc i lo' md' hi' = a"
    unfolding lane_acc_def lanes a_def vmacf_limbs [symmetric] by (rule acc48_add) (rule refl)+
  show "lane res i = (if u then uclamp_md a else sat_s (a div 65536))"
  proof (cases u)
    case True
    then show ?thesis using op i unfolding acc [symmetric] lane_acc_def uclamp_md_acc
      by (auto simp: rsp_vmacf_vmacu_def Let_def lane_simps sra15 mask_and16 mask_or16)
  next
    case False
    then have "res = rsp_sclamp_acc_tomd md' hi'" using op by (auto simp: rsp_vmacf_vmacu_def Let_def)
    with False show ?thesis using sclamp_lane [OF i, of md' hi' "lane lo' i"] acc by (simp add: lane_acc_def)
  qed
qed

lemma uclamp_lo_acc:
  assumes "i < 8"
  shows "lane (rsp_uclamp_acc sse41 lo md hi 0) i = uclamp_lo (lane_acc i lo md hi)"
  using assms unfolding uclamp_lane [OF assms] uclamp_lo_def lane_acc_def acc48_div
  by (simp add: Let_def acc48_low)

lemma vmadl_lane:
  fixes vs vt :: m128i
  assumes i: "i < 8"
    and op: "rsp_vmadl_vmudl sse41 True vs vt 0 lo md hi = (res, lo', md', hi')"
  defines "a \<equiv> wrap48 (lane_acc i lo md hi + (uint (lane vs i :: u16) * uint (lane vt i :: u16)) div 65536)"
  shows "lane_acc i lo' md' hi' = a" "lane res i = uclamp_lo a"
proof -
  let ?x = "uint (lane vs i :: u16)" and ?y = "uint (lane vt i :: u16)"
  let ?l = "word_of_int ((?x * ?y) div 65536) :: u16"
  let ?m1 = "0 - mask_word (carries (lane lo i) ?l) :: u16"
  have "0 \<le> ?x * ?y" "?x * ?y \<le> 65535 * 65535"
    using u16_range [of "lane vs i"] u16_range [of "lane vt i"] mult_mono [of ?x 65535 ?y 65535]
    by simp_all
  then have "0 \<le> (?x * ?y) div 65536" "(?x * ?y) div 65536 < 65536" by linarith+
  then have l: "acc48 0 0 ?l = (?x * ?y) div 65536" by (simp add: acc48_def uint_of_int16)
  have lanes: "lane lo' i = lane lo i + ?l" "lane md' i = lane md i + ?m1"
    "lane hi' i = lane hi i - (mask_word (carries (lane md i) ?m1) :: u16)"
    unfolding projs [OF op] rsp_vmadl_vmudl_def Let_def fst_conv snd_conv if_True using i
    by (simp_all only: lane_simps lane_count_simps carry_lane pow16)
  have "acc48 (lane hi i + (0 - mask_word (?m1 = 0 \<and> carries (lane lo i) ?l)) - mask_word (carries (lane md i) ?m1))
      (lane md i + ?m1) (lane lo i + ?l) = wrap48 (lane_acc i lo md hi + acc48 0 0 ?l)"
    unfolding lane_acc_def by (rule acc48_add) (rule refl)+
  then show acc: "lane_acc i lo' md' hi' = a"
    unfolding lane_acc_def lanes a_def l by (cases "carries (lane lo i) ?l") simp_all
  have "res = rsp_uclamp_acc sse41 lo' md' hi' 0"
    using op by (auto simp: rsp_vmadl_vmudl_def Let_def)
  then show "lane res i = uclamp_lo a" using uclamp_lo_acc [OF i] acc by simp
qed

text \<open>The carry into the high half of a signed by unsigned product never leaves its sign, because the
  half is at most \<open>0x7ffe\<close>.\<close>

lemma sext_carry:
  fixes h :: u16
  assumes "sint h \<le> 32766"
  shows "mask_word (sint (h - mask_word c) < 0) =
    (mask_word (sint h < 0) - mask_word (h - mask_word c = 0 \<and> c) :: u16)"
proof (cases c)
  case True
  have "sint (h + 1) = sint h + 1" using assms s16_range [of h] by (simp add: sint_add16)
  moreover have "h + 1 = 0 \<longleftrightarrow> sint h = - 1" using calculation by (auto simp: s16_eq_iff)
  ultimately show ?thesis using True by (auto simp: mask_word_def)
qed simp

lemma su_limbs:
  "acc48 (mask_word (sint (mulhi_su x y) < 0)) (mulhi_su x y) (x * y) = sint x * uint y"
  "sint (mulhi_su x y) \<le> 32766"
proof -
  let ?p = "sint x * uint y"
  have "?p = 65536 * (?p div 65536) + ?p mod 65536" by simp
  moreover have "?p div 65536 = uint (mulhi_su x y) + (if sint (mulhi_su x y) < 0 then - 65536 else 0)"
    unfolding mulhi_su(1) [symmetric] using uint_s16 [of "mulhi_su x y"] by simp
  ultimately show "acc48 (mask_word (sint (mulhi_su x y) < 0)) (mulhi_su x y) (x * y) = ?p"
    unfolding acc48_def mulhi_su(2) sint_mask16 by (auto split: if_splits)
  have "?p \<le> 32767 * 65535"
    using s16_range [of x] u16_range [of y] mult_mono [of "sint x" 32767 "uint y" 65535]
    by (cases "0 \<le> sint x") (auto simp: mult_le_0_iff intro: order.trans)
  then show "sint (mulhi_su x y) \<le> 32766" unfolding mulhi_su by linarith
qed

text \<open>The accumulation VMADM and VMADN share.\<close>

lemma acc48_add_su:
  fixes x y :: u16
  assumes m1: "m1 = mulhi_su x y - mask_word (carries al (x * y))"
  shows "acc48 (ah + mask_word (sint m1 < 0) - mask_word (carries am m1)) (am + m1) (al + x * y) =
    wrap48 (acc48 ah am al + sint x * uint y)"
  using acc48_add [OF m1 refl, of ah "mask_word (sint (mulhi_su x y) < 0)" am]
  unfolding su_limbs(1) m1 sext_carry [OF su_limbs(2)] .

lemma vmadm_lane:
  fixes vs vt :: m128i
  assumes i: "i < 8"
    and op: "rsp_vmadm_vmudm True vs vt 0 lo md hi = (res, lo', md', hi')"
  defines "a \<equiv> wrap48 (lane_acc i lo md hi + sint (lane vs i :: u16) * uint (lane vt i :: u16))"
  shows "lane_acc i lo' md' hi' = a" "(lane res i :: u16) = sat_s (a div 65536)"
proof -
  let ?x = "lane vs i :: u16" and ?y = "lane vt i :: u16"
  let ?m1 = "mulhi_su ?x ?y - mask_word (carries (lane lo i) (?x * ?y)) :: u16"
  have lanes: "lane lo' i = lane lo i + ?x * ?y" "lane md' i = lane md i + ?m1"
    "lane hi' i = lane hi i + mask_word (sint ?m1 < 0) - (mask_word (carries (lane md i) ?m1) :: u16)"
    unfolding projs [OF op] rsp_vmadm_vmudm_def Let_def fst_conv snd_conv if_True using i
    by (simp_all only: lane_simps lane_count_simps carry_lane pow16 sra15 mask_and16 mulhi_su_def)
  show acc: "lane_acc i lo' md' hi' = a"
    unfolding lane_acc_def lanes a_def by (rule acc48_add_su) (rule refl)
  have "res = rsp_sclamp_acc_tomd md' hi'"
    using op by (auto simp: rsp_vmadm_vmudm_def Let_def)
  then show "(lane res i :: u16) = sat_s (a div 65536)"
    using sclamp_lane [OF i, of md' hi' "lane lo' i"] acc by (simp add: lane_acc_def)
qed

lemma vmadn_lane:
  fixes vs vt :: m128i
  assumes i: "i < 8"
    and op: "rsp_vmadn_vmudn sse41 True vs vt 0 lo md hi = (res, lo', md', hi')"
  defines "a \<equiv> wrap48 (lane_acc i lo md hi + uint (lane vs i :: u16) * sint (lane vt i :: u16))"
  shows "lane_acc i lo' md' hi' = a" "lane res i = uclamp_lo a"
proof -
  let ?x = "lane vs i :: u16" and ?y = "lane vt i :: u16"
  let ?m1 = "mulhi_su ?y ?x - mask_word (carries (lane lo i) (?y * ?x)) :: u16"
  have lanes: "lane lo' i = lane lo i + ?y * ?x" "lane md' i = lane md i + ?m1"
    "lane hi' i = lane hi i + mask_word (sint ?m1 < 0) - (mask_word (carries (lane md i) ?m1) :: u16)"
    unfolding projs [OF op] rsp_vmadn_vmudn_def Let_def fst_conv snd_conv if_True using i
    by (simp_all only: lane_simps lane_count_simps carry_lane pow16 sra15 mask_and16 mulhi_su_def
        mult.commute [of ?y ?x] mult.commute [of "uint ?y" "uint ?x"])
  show acc: "lane_acc i lo' md' hi' = a"
    unfolding lane_acc_def lanes a_def mult.commute [of "uint ?x" "sint ?y"]
    by (rule acc48_add_su) (rule refl)
  have "res = rsp_uclamp_acc sse41 lo' md' hi' 0"
    using op by (auto simp: rsp_vmadn_vmudn_def Let_def)
  then show "lane res i = uclamp_lo a" using uclamp_lo_acc [OF i] acc by simp
qed

lemma prod_limbs:
  fixes x y :: u16
  shows "acc48 (word_of_int ((sint x * sint y) div 65536)) (x * y) 0 = 65536 * (sint x * sint y)"
proof -
  let ?p = "sint x * sint y"
  have "?p = 65536 * (?p div 65536) + ?p mod 65536" by simp
  then show ?thesis unfolding acc48_num mulhi_s uint_mult_s unsigned_0 by linarith
qed

lemma vmadh_lane:
  fixes vs vt :: m128i
  assumes i: "i < 8"
    and op: "rsp_vmadh_vmudh True vs vt 0 lo md hi = (res, lo', md', hi')"
  defines "a \<equiv> wrap48 (lane_acc i lo md hi + 65536 * (sint (lane vs i :: u16) * sint (lane vt i :: u16)))"
  shows "lane_acc i lo' md' hi' = a" "(lane res i :: u16) = sat_s (a div 65536)"
proof -
  let ?x = "lane vs i :: u16" and ?y = "lane vt i :: u16"
  let ?h = "word_of_int ((sint ?x * sint ?y) div 65536) :: u16"
  have lanes: "lane lo' i = (lane lo i :: u16)" "lane md' i = lane md i + ?x * ?y"
    "lane hi' i = lane hi i + (?h - mask_word (carries (lane md i) (?x * ?y)))"
    unfolding projs [OF op] rsp_vmadh_vmudh_def Let_def fst_conv snd_conv if_True using i
    by (simp_all only: lane_simps lane_count_simps carry_lane pow16)
  have "\<not> carries (lane lo i) 0" using u16_bounds [of "lane lo i"] by (simp add: carries_def)
  then show acc: "lane_acc i lo' md' hi' = a"
    using acc48_add [OF refl refl, of "lane hi i" ?h "?x * ?y" "lane lo i" 0 "lane md i"]
    unfolding lane_acc_def lanes a_def prod_limbs by (simp add: add_diff_eq)
  have "res = rsp_sclamp_acc_tomd md' hi'"
    using op by (auto simp: rsp_vmadh_vmudh_def Let_def)
  then show "(lane res i :: u16) = sat_s (a div 65536)"
    using sclamp_lane [OF i, of md' hi' "lane lo' i"] acc by (simp add: lane_acc_def)
qed

text \<open>VMULF and VMULU: the doubled product with its rounding bit. The only product that leaves the 32
  bit range is \<open>(-32768)\<^sup>2\<close>, which the equality test of the code singles out.\<close>

definition vmulf_md :: "u16 \<Rightarrow> u16 \<Rightarrow> int" where
  "vmulf_md x y = (2 * (sint x * sint y) + 32768) div 65536"

lemma vmulf_md_range:
  shows "- 32768 \<le> vmulf_md x y" "vmulf_md x y \<le> 32768"
    and "vmulf_md x y = 32768 \<longleftrightarrow> sint x = - 32768 \<and> sint y = - 32768"
    and "x = y \<Longrightarrow> 0 \<le> vmulf_md x y"
proof -
  show "- 32768 \<le> vmulf_md x y" "vmulf_md x y \<le> 32768"
    using product_range(1) [of x y] unfolding vmulf_md_def by linarith+
  have m: "\<bar>sint x * sint y\<bar> \<le> 1073709056" if "\<bar>sint x\<bar> \<le> 32767 \<or> \<bar>sint y\<bar> \<le> 32767"
  proof -
    have s: "\<bar>sint (z :: u16)\<bar> \<le> 32768" for z using s16_range [of z] by linarith
    show ?thesis using that mult_mono [OF _ s [of y], of "\<bar>sint x\<bar>" 32767] mult_mono [OF s [of x], of "\<bar>sint y\<bar>" 32767]
      by (auto simp: abs_mult)
  qed
  have n: "sint z = - 32768 \<or> \<bar>sint z\<bar> \<le> 32767" for z :: u16
    using s16_range [of z] by linarith
  show "vmulf_md x y = 32768 \<longleftrightarrow> sint x = - 32768 \<and> sint y = - 32768"
  proof (cases "sint x = - 32768 \<and> sint y = - 32768")
    case False
    then have "\<bar>sint x * sint y\<bar> \<le> 1073709056" using m n [of x] n [of y] by blast
    then have "vmulf_md x y \<le> 32767" unfolding vmulf_md_def by linarith
    with False show ?thesis by simp
  qed (simp add: vmulf_md_def)
  show "0 \<le> vmulf_md x y" if "x = y"
  proof -
    have "0 \<le> sint x * sint y" using that by simp
    then show ?thesis unfolding vmulf_md_def by linarith
  qed
qed

lemma round_word: "push_bit 15 (- 1) = (0x8000 :: u16)"
  by code_simp

lemma vmulf_words:
  fixes x y :: u16
  defines "h \<equiv> word_of_int ((sint x * sint y) div 65536) :: u16"
  shows "uint (push_bit 15 (- 1) + (x * y + x * y) :: u16) = (2 * (sint x * sint y) + 32768) mod 65536"
    and "push_bit 1 h + (drop_bit 15 (x * y) + drop_bit 15 (x * y + x * y)) = word_of_int (vmulf_md x y)"
proof -
  let ?p = "sint x * sint y"
  define H L where "H = ?p div 65536" and "L = ?p mod 65536"
  have p: "?p = 65536 * H + L" and L: "0 \<le> L" "L < 65536" by (simp_all add: H_def L_def)
  have ul: "uint (x * y) = L" unfolding L_def by (rule uint_mult_s)
  have u2: "uint (x * y + x * y) = 2 * L - (if 32768 \<le> L then 65536 else 0)"
    unfolding uint_add_carries carries_def ul by simp
  have "push_bit 15 (- 1) + (x * y + x * y) = word_of_int (2 * ?p + 32768)"
    unfolding round_word by simp
  then show "uint (push_bit 15 (- 1) + (x * y + x * y) :: u16) = (2 * ?p + 32768) mod 65536"
    by (simp only: uint_of_int16)
  have "vmulf_md x y = 2 * H + (if 32768 \<le> L then 1 else 0) +
      (if 32768 \<le> 2 * L - (if 32768 \<le> L then 65536 else 0) then 1 else 0)"
    unfolding vmulf_md_def p using L by (auto split: if_splits)
  then show "push_bit 1 h + (drop_bit 15 (x * y) + drop_bit 15 (x * y + x * y)) = word_of_int (vmulf_md x y)"
    unfolding drop_msb ul u2 h_def H_def [symmetric] by simp
qed

lemma vmulf_lane:
  fixes vs vt :: m128i
  assumes i: "i < 8"
    and op: "rsp_vmulf_vmulu u vs vt 0 = (res, lo, md, hi)"
  defines "a \<equiv> 2 * (sint (lane vs i :: u16) * sint (lane vt i :: u16)) + 32768"
  shows "lane_acc i lo md hi = a" "lane res i = (if u then uclamp_md a else sat_s (a div 65536))"
proof -
  define x y M where "x = (lane vs i :: u16)" and "y = (lane vt i :: u16)" and "M = vmulf_md x y"
  have lanes: "lane lo i = push_bit 15 (- 1) + (x * y + x * y)" "lane md i = (word_of_int M :: u16)"
    "lane hi i = (mask_word (x \<noteq> y \<and> sint (word_of_int M :: u16) < 0) :: u16)"
    unfolding projs [OF op] rsp_vmulf_vmulu_def Let_def M_def vmulf_words(2) [symmetric] x_def y_def using i
    by (cases u; simp only: if_True if_False fst_conv snd_conv lane_simps lane_count_simps pow16 sra15
        mask_word_bitwise mask_word_simps simp_thms)+
  have M: "- 32768 \<le> M" "M \<le> 32768" "M = 32768 \<longleftrightarrow> sint x = - 32768 \<and> sint y = - 32768"
    "x = y \<Longrightarrow> 0 \<le> M"
    unfolding M_def by (rule vmulf_md_range; assumption?)+
  have eq: "M = 32768 \<Longrightarrow> x = y" using M(3) by (simp add: s16_eq_iff)
  have sM: "sint (word_of_int M :: u16) = (if M = 32768 then - 32768 else M)"
    using M(1,2) by (auto simp add: sint_word_of_int16 mod_once)
  have a: "a = 65536 * M + (2 * (sint x * sint y) + 32768) mod 65536"
    unfolding a_def M_def vmulf_md_def x_def y_def by simp
  show acc: "lane_acc i lo md hi = a"
    unfolding lane_acc_def acc48_num lanes vmulf_words(1) a sM sint_mask16 uint_s16 [of "word_of_int M"]
    using M eq by auto
  have M_eq: "a div 65536 = M" unfolding a_def M_def vmulf_md_def x_def y_def ..
  have res: "lane res i = (if u then NOT (mask_word (x \<noteq> y \<and> sint (word_of_int M :: u16) < 0)) AND
        (word_of_int M OR mask_word (sint (word_of_int M :: u16) < 0))
      else word_of_int M + mask_word (x = y \<and> sint (word_of_int M :: u16) < 0) :: u16)"
    using op i unfolding M_def vmulf_words(2) [symmetric] x_def y_def
    by (auto simp: rsp_vmulf_vmulu_def Let_def lane_simps sra15 simp flip: M_def)
  show "lane res i = (if u then uclamp_md a else sat_s (a div 65536))"
    unfolding res sM uclamp_md_def M_eq Let_def using M eq
    by (auto simp: mask_and16 mask_or16 s16_eq_iff [of "sat_s M"] sat_s_def)
qed

text \<open>The variants that start a sum: they set the accumulator to the product.\<close>

lemma vmudl_lane:
  fixes vs vt :: m128i
  assumes i: "i < 8"
    and op: "rsp_vmadl_vmudl sse41 False vs vt 0 lo md hi = (res, lo', md', hi')"
  defines "a \<equiv> (uint (lane vs i :: u16) * uint (lane vt i :: u16)) div 65536"
  shows "lane_acc i lo' md' hi' = a" "lane res i = uclamp_lo a"
proof -
  let ?x = "uint (lane vs i :: u16)" and ?y = "uint (lane vt i :: u16)"
  have "0 \<le> ?x * ?y" "?x * ?y \<le> 65535 * 65535"
    using u16_range [of "lane vs i"] u16_range [of "lane vt i"] mult_mono [of ?x 65535 ?y 65535]
    by simp_all
  then have r: "0 \<le> a" "a < 65536" unfolding a_def by linarith+
  show "lane_acc i lo' md' hi' = a" "lane res i = uclamp_lo a"
    using op i r
    by (auto simp: rsp_vmadl_vmudl_def Let_def lane_acc_def lane_simps acc48_num uint_of_int16 uclamp_lo_def simp flip: a_def)
qed

lemma su_result:
  "mulhi_su x y = sat_s ((sint x * uint y) div 65536)" "x * y = uclamp_lo (sint x * uint y)"
proof -
  have r: "- 32768 \<le> (sint x * uint y) div 65536" "(sint x * uint y) div 65536 \<le> 32766"
    using product_range(2) [of x y] su_limbs(2) [of x y] unfolding mulhi_su(1) by linarith+
  then show "mulhi_su x y = sat_s ((sint x * uint y) div 65536)"
    by (simp add: s16_eq_iff mulhi_su sint_sat16)
  from r show "x * y = uclamp_lo (sint x * uint y)" by (simp add: uclamp_lo_def)
qed

lemma vmudm_lane:
  fixes vs vt :: m128i
  assumes i: "i < 8"
    and op: "rsp_vmadm_vmudm False vs vt 0 lo md hi = (res, lo', md', hi')"
  defines "a \<equiv> sint (lane vs i :: u16) * uint (lane vt i :: u16)"
  shows "lane_acc i lo' md' hi' = a" "(lane res i :: u16) = sat_s (a div 65536)"
proof -
  let ?x = "lane vs i :: u16" and ?y = "lane vt i :: u16"
  have lanes: "lane lo' i = ?x * ?y" "lane md' i = mulhi_su ?x ?y" "lane res i = mulhi_su ?x ?y"
    "lane hi' i = (mask_word (sint (mulhi_su ?x ?y) < 0) :: u16)"
    using op i
    by (auto simp: rsp_vmadm_vmudm_def Let_def lane_simps pow16 sra15 mask_and16 mulhi_su_def)
  show "lane_acc i lo' md' hi' = a" "(lane res i :: u16) = sat_s (a div 65536)"
    unfolding lane_acc_def lanes a_def by (rule su_limbs su_result)+
qed

lemma vmudn_lane:
  fixes vs vt :: m128i
  assumes i: "i < 8"
    and op: "rsp_vmadn_vmudn sse41 False vs vt 0 lo md hi = (res, lo', md', hi')"
  defines "a \<equiv> uint (lane vs i :: u16) * sint (lane vt i :: u16)"
  shows "lane_acc i lo' md' hi' = a" "lane res i = uclamp_lo a"
proof -
  let ?x = "lane vs i :: u16" and ?y = "lane vt i :: u16"
  have a: "a = sint ?y * uint ?x" by (simp add: a_def)
  have lanes: "lane lo' i = ?y * ?x" "lane md' i = mulhi_su ?y ?x" "lane res i = ?y * ?x"
    "lane hi' i = (mask_word (sint (mulhi_su ?y ?x) < 0) :: u16)"
    using op i
    by (auto simp: rsp_vmadn_vmudn_def Let_def lane_simps pow16 sra15 mask_and16 mulhi_su_def mult.commute)
  show "lane_acc i lo' md' hi' = a" "lane res i = uclamp_lo a"
    unfolding lane_acc_def lanes a by (rule su_limbs su_result)+
qed

lemma vmudh_lane:
  fixes vs vt :: m128i
  assumes i: "i < 8"
    and op: "rsp_vmadh_vmudh False vs vt 0 lo md hi = (res, lo', md', hi')"
  defines "a \<equiv> 65536 * (sint (lane vs i :: u16) * sint (lane vt i :: u16))"
  shows "lane_acc i lo' md' hi' = a" "(lane res i :: u16) = sat_s (a div 65536)"
proof -
  show acc: "lane_acc i lo' md' hi' = a"
    using op i prod_limbs unfolding a_def
    by (auto simp: rsp_vmadh_vmudh_def Let_def lane_simps lane_acc_def)
  have "res = rsp_sclamp_acc_tomd md' hi'"
    using op by (auto simp: rsp_vmadh_vmudh_def Let_def)
  then show "(lane res i :: u16) = sat_s (a div 65536)"
    using sclamp_lane [OF i, of md' hi' "lane lo' i"] acc by (simp add: lane_acc_def)
qed

section \<open>The multiply families\<close>

text \<open>
  Each multiply comes as a pair: an instruction that starts a sum and one that accumulates. The
  contract of a family: what its product is, which constant the starting instruction adds, and how
  the result is clamped from the accumulator. From the contract follows that a program of one starting
  instruction and any number of accumulating ones computes the sum of products modulo \<open>2 ^ 48\<close>.
\<close>

type_synonym acc_vectors = "m128i \<times> m128i \<times> m128i"

fun acc_of :: "nat \<Rightarrow> acc_vectors \<Rightarrow> int" where
  "acc_of i (lo, md, hi) = lane_acc i lo md hi"

fun mac_run :: "(m128i \<Rightarrow> m128i \<Rightarrow> acc_vectors \<Rightarrow> m128i \<times> acc_vectors) \<Rightarrow>
    m128i \<times> acc_vectors \<Rightarrow> (m128i \<times> m128i) list \<Rightarrow> m128i \<times> acc_vectors" where
  "mac_run mac ra [] = ra"
| "mac_run mac ra ((vs, vt) # ops) = mac_run mac (mac vs vt (snd ra)) ops"

definition products :: "(u16 \<Rightarrow> u16 \<Rightarrow> int) \<Rightarrow> nat \<Rightarrow> (m128i \<times> m128i) list \<Rightarrow> int" where
  "products pr i ops = (\<Sum>(vs, vt) \<leftarrow> ops. pr (lane vs i) (lane vt i))"

locale multiply_family =
  fixes mul :: "m128i \<Rightarrow> m128i \<Rightarrow> m128i \<times> acc_vectors"
    and mac :: "m128i \<Rightarrow> m128i \<Rightarrow> acc_vectors \<Rightarrow> m128i \<times> acc_vectors"
    and pr :: "u16 \<Rightarrow> u16 \<Rightarrow> int" and bias :: int and clamp :: "int \<Rightarrow> u16"
  assumes mul_acc: "i < 8 \<Longrightarrow> mul vs vt = (res, lo, md, hi) \<Longrightarrow>
      lane_acc i lo md hi = pr (lane vs i) (lane vt i) + bias"
    and mul_res: "i < 8 \<Longrightarrow> mul vs vt = (res, lo, md, hi) \<Longrightarrow>
      lane res i = clamp (pr (lane vs i) (lane vt i) + bias)"
    and mac_acc: "i < 8 \<Longrightarrow> mac vs vt (lo, md, hi) = (res, lo', md', hi') \<Longrightarrow>
      lane_acc i lo' md' hi' = wrap48 (lane_acc i lo md hi + pr (lane vs i) (lane vt i))"
    and mac_res: "i < 8 \<Longrightarrow> mac vs vt (lo, md, hi) = (res, lo', md', hi') \<Longrightarrow>
      lane res i = clamp (wrap48 (lane_acc i lo md hi + pr (lane vs i) (lane vt i)))"
begin

lemma mac_step:
  assumes "i < 8"
  shows "acc_of i (snd (mac vs vt acc)) = wrap48 (acc_of i acc + pr (lane vs i) (lane vt i))"
    "lane (fst (mac vs vt acc)) i = clamp (acc_of i (snd (mac vs vt acc)))"
  using mac_acc [OF assms, of vs vt] mac_res [OF assms, of vs vt]
  by (cases acc; cases "mac vs vt acc"; simp)+

lemma mul_step:
  assumes "i < 8"
  shows "acc_of i (snd (mul vs vt)) = pr (lane vs i) (lane vt i) + bias"
    "lane (fst (mul vs vt)) i = clamp (acc_of i (snd (mul vs vt)))"
  using mul_acc [OF assms, of vs vt] mul_res [OF assms, of vs vt]
  by (cases "mul vs vt"; simp)+

lemma run_acc:
  assumes "i < 8" "wrap48 (acc_of i (snd ra)) = acc_of i (snd ra)"
  shows "acc_of i (snd (mac_run mac ra ops)) = wrap48 (acc_of i (snd ra) + products pr i ops)"
  using assms
proof (induction ops arbitrary: ra)
  case Nil
  then show ?case by (simp add: products_def)
next
  case (Cons op ops)
  have ww: "wrap48 (wrap48 k) = wrap48 k" for k using wrap48_add [of k 0] by simp
  from Cons show ?case
    by (cases op) (simp add: mac_step ww products_def add.assoc)
qed

lemma run_res:
  assumes "i < 8" "lane (fst ra) i = clamp (acc_of i (snd ra))"
  shows "lane (fst (mac_run mac ra ops)) i = clamp (acc_of i (snd (mac_run mac ra ops)))"
  using assms
proof (induction ops arbitrary: ra)
  case (Cons op ops)
  then show ?case using mac_step(2) by (cases op) simp
qed simp

lemma sum_of_products:
  assumes "i < 8"
  shows "lane (fst (mac_run mac (mul vs vt) ops)) i = clamp (wrap48 (bias + products pr i ((vs, vt) # ops)))
    \<and> acc_of i (snd (mac_run mac (mul vs vt) ops)) = wrap48 (bias + products pr i ((vs, vt) # ops))"
proof -
  have w: "wrap48 (acc_of i (snd (mul vs vt))) = acc_of i (snd (mul vs vt))"
    using acc48_range by (cases "snd (mul vs vt)") (simp add: wrap48_id lane_acc_def)
  have "acc_of i (snd (mac_run mac (mul vs vt) ops)) = wrap48 (bias + products pr i ((vs, vt) # ops))"
    unfolding run_acc [OF assms w] mul_step [OF assms] by (simp add: products_def ac_simps)
  then show ?thesis
    using run_res [OF assms mul_step(2) [OF assms]] by simp
qed

end

text \<open>The instructions of each family, as the handlers call them (with the zero vector).\<close>

fun vmacf :: "bool \<Rightarrow> m128i \<Rightarrow> m128i \<Rightarrow> acc_vectors \<Rightarrow> m128i \<times> acc_vectors" where
  "vmacf u vs vt (lo, md, hi) = rsp_vmacf_vmacu u vs vt 0 lo md hi"

fun vmadl :: "bool \<Rightarrow> bool \<Rightarrow> m128i \<Rightarrow> m128i \<Rightarrow> acc_vectors \<Rightarrow> m128i \<times> acc_vectors" where
  "vmadl sse41 a vs vt (lo, md, hi) = rsp_vmadl_vmudl sse41 a vs vt 0 lo md hi"

fun vmadm :: "bool \<Rightarrow> m128i \<Rightarrow> m128i \<Rightarrow> acc_vectors \<Rightarrow> m128i \<times> acc_vectors" where
  "vmadm a vs vt (lo, md, hi) = rsp_vmadm_vmudm a vs vt 0 lo md hi"

fun vmadn :: "bool \<Rightarrow> bool \<Rightarrow> m128i \<Rightarrow> m128i \<Rightarrow> acc_vectors \<Rightarrow> m128i \<times> acc_vectors" where
  "vmadn sse41 a vs vt (lo, md, hi) = rsp_vmadn_vmudn sse41 a vs vt 0 lo md hi"

fun vmadh :: "bool \<Rightarrow> m128i \<Rightarrow> m128i \<Rightarrow> acc_vectors \<Rightarrow> m128i \<times> acc_vectors" where
  "vmadh a vs vt (lo, md, hi) = rsp_vmadh_vmudh a vs vt 0 lo md hi"

abbreviation "zero_acc \<equiv> (0, 0, 0) :: acc_vectors"

definition clamp_md :: "int \<Rightarrow> u16" where
  "clamp_md a = sat_s (a div 65536)"

interpretation vmulf: multiply_family "\<lambda>vs vt. rsp_vmulf_vmulu u vs vt 0" "vmacf u"
  "\<lambda>x y. 2 * (sint x * sint y)" 32768 "if u then uclamp_md else clamp_md" for u
  by unfold_locales (simp_all add: vmulf_lane vmacf_lane clamp_md_def)

interpretation vmudl: multiply_family "\<lambda>vs vt. vmadl sse41 False vs vt acc" "vmadl sse41 True"
  "\<lambda>x y. (uint x * uint y) div 65536" 0 uclamp_lo for sse41 acc
  by (cases acc, unfold_locales) (auto dest: vmudl_lane vmadl_lane)

interpretation vmudm: multiply_family "\<lambda>vs vt. vmadm False vs vt acc" "vmadm True"
  "\<lambda>x y. sint x * uint y" 0 clamp_md for acc
  by (cases acc, unfold_locales) (auto dest: vmudm_lane vmadm_lane simp: clamp_md_def)

interpretation vmudn: multiply_family "\<lambda>vs vt. vmadn sse41 False vs vt acc" "vmadn sse41 True"
  "\<lambda>x y. uint x * sint y" 0 uclamp_lo for sse41 acc
  by (cases acc, unfold_locales) (auto dest: vmudn_lane vmadn_lane)

interpretation vmudh: multiply_family "\<lambda>vs vt. vmadh False vs vt acc" "vmadh True"
  "\<lambda>x y. 65536 * (sint x * sint y)" 0 clamp_md for acc
  by (cases acc, unfold_locales) (auto dest: vmudh_lane vmadh_lane simp: clamp_md_def)

section \<open>Properties\<close>

text \<open>C4: sums of products. In every lane, a starting multiply followed by any number of accumulating
  multiplies of its family leaves in the 48 bit accumulator the sum of the products (plus the rounding
  constant of VMULF and VMULU) modulo \<open>2 ^ 48\<close>, and the last result is that sum clamped as the family
  clamps: fractions (VMULF/VMACF, VMULU/VMACU), and the low, middle, and high partial products of
  double precision arithmetic (VMUDL/VMADL, VMUDM/VMADM, VMUDN/VMADN, VMUDH/VMADH).\<close>

theorem multiply_accumulate_sums:
  fixes vs vt :: m128i and ops :: "(m128i \<times> m128i) list"
  assumes "i < 8"
  defines "sums mac start pr bias clamp \<equiv>
    (let a = wrap48 (bias + products pr i ((vs, vt) # ops)); out = mac_run mac start ops
     in lane (fst out) i = clamp a \<and> acc_of i (snd out) = a)"
  shows "sums (vmacf False) (rsp_vmulf_vmulu False vs vt 0) (\<lambda>x y. 2 * (sint x * sint y)) 32768 clamp_md
    \<and> sums (vmacf True) (rsp_vmulf_vmulu True vs vt 0) (\<lambda>x y. 2 * (sint x * sint y)) 32768 uclamp_md
    \<and> sums (vmadl sse41 True) (vmadl sse41 False vs vt acc) (\<lambda>x y. (uint x * uint y) div 65536) 0 uclamp_lo
    \<and> sums (vmadm True) (vmadm False vs vt acc) (\<lambda>x y. sint x * uint y) 0 clamp_md
    \<and> sums (vmadn sse41 True) (vmadn sse41 False vs vt acc) (\<lambda>x y. uint x * sint y) 0 uclamp_lo
    \<and> sums (vmadh True) (vmadh False vs vt acc) (\<lambda>x y. 65536 * (sint x * sint y)) 0 clamp_md"
  unfolding sums_def Let_def
  using vmulf.sum_of_products [OF assms(1), of False] vmulf.sum_of_products [OF assms(1), of True]
    vmudl.sum_of_products [OF assms(1)] vmudm.sum_of_products [OF assms(1)]
    vmudn.sum_of_products [OF assms(1)] vmudh.sum_of_products [OF assms(1)]
  by (simp only: if_True if_False simp_thms)

theorem multiply_accumulate_sums_witness:
  "acc_of 4 (snd (mac_run (vmadh True) (vmadh False (mm_set1_epi16 3) (mm_set1_epi16 0xfffe) zero_acc)
     [(mm_set1_epi16 100, mm_set1_epi16 100), (mm_set1_epi16 1, mm_set1_epi16 7)])) = 65536 * 10001"
  using multiply_accumulate_sums [where i = 4 and vs = "mm_set1_epi16 3" and vt = "mm_set1_epi16 0xfffe"
    and acc = zero_acc and ops = "[(mm_set1_epi16 100, mm_set1_epi16 100), (mm_set1_epi16 1, mm_set1_epi16 7)]"]
  by (simp add: products_def lane_simps wrap48_def Let_def)

lemma products_single [simp]: "products pr i [(vs, vt)] = pr (lane vs i) (lane vt i)"
  by (simp add: products_def)

lemma spair32_product:
  "(spair32 xh xl * spair32 yh yl) div 65536 =
    (uint xl * uint yl) div 65536 + sint xh * uint yl + uint xl * sint yh + 65536 * (sint xh * sint yh)"
proof -
  have "spair32 xh xl * spair32 yh yl =
      uint xl * uint yl + 65536 * (sint xh * uint yl + uint xl * sint yh + 65536 * (sint xh * sint yh))"
    by (simp add: spair32_def algebra_simps)
  then show ?thesis by simp
qed

lemma spair32_product_range:
  "wrap48 ((spair32 xh xl * spair32 yh yl) div 65536) = (spair32 xh xl * spair32 yh yl) div 65536"
proof -
  have s: "\<bar>spair32 h l\<bar> \<le> 2147483648" for h l
    using s16_range [of h] u16_bounds [of l] unfolding spair32_def by linarith
  have "\<bar>spair32 xh xl * spair32 yh yl\<bar> \<le> 2147483648 * 2147483648"
    unfolding abs_mult by (rule mult_mono) (use s in auto)
  then show ?thesis by (intro wrap48_id) (simp; linarith)+
qed

text \<open>C5: double precision product. The four instruction sequence VMUDL, VMADM, VMADN, VMADH on the
  halves of two 16.16 fixed point numbers leaves their exact product, shifted right by 16, in the
  accumulator of every lane (no intermediate sum wraps), and VMADH returns its upper part saturated.\<close>

theorem double_precision_multiply:
  fixes xh xl yh yl :: m128i and sse41 :: bool and acc :: acc_vectors
  assumes "i < 8"
  defines "X \<equiv> spair32 (lane xh i) (lane xl i)" and "Y \<equiv> spair32 (lane yh i) (lane yl i)"
  defines "out \<equiv> vmadh True xh yh (snd (vmadn sse41 True xl yh (snd (vmadm True xh yl (snd (vmadl sse41 False xl yl acc))))))"
  shows "acc_of i (snd out) = (X * Y) div 65536 \<and> lane (fst out) i = clamp_md ((X * Y) div 65536)"
proof -
  have "acc_of i (snd out) = wrap48 ((X * Y) div 65536)"
    unfolding out_def X_def Y_def vmudh.mac_step(1) [OF assms(1)] vmudn.mac_step(1) [OF assms(1)]
      vmudm.mac_step(1) [OF assms(1)] vmudl.mul_step(1) [OF assms(1)] wrap48_add spair32_product
    by simp
  then show ?thesis
    using vmudh.mac_step(2) [OF assms(1)] unfolding X_def Y_def spair32_product_range
    by (simp add: out_def)
qed

theorem double_precision_multiply_witness:
  "acc_of 0 (snd (vmadh True (mm_set1_epi16 2) (mm_set1_epi16 3) (snd (vmadn False True (mm_set1_epi16 0x8000) (mm_set1_epi16 3)
     (snd (vmadm True (mm_set1_epi16 2) 0 (snd (vmadl False False (mm_set1_epi16 0x8000) 0 zero_acc)))))))) = 0x78000"
  using double_precision_multiply [where i = 0 and xh = "mm_set1_epi16 2" and yh = "mm_set1_epi16 3"
    and xl = "mm_set1_epi16 0x8000" and yl = 0 and ?sse41.0 = False and acc = zero_acc]
  by (simp add: lane_simps spair32_def)

end
