(* ===== verification/Rsp_State.thy ===== *)
theory Rsp_State
  imports Vector_Mul
begin

unbundle bit_operations_syntax

text \<open>
  The processor state of \<open>state.hpp\<close> and the accessors of \<open>rsp_common.h\<close> and \<open>rsp_core.cpp\<close>: vector
  registers, flag and accumulator vectors as arrays of 16 bit elements, operand loads with element
  shuffles, and the packed flag words. Arrays are functions from indices; a C array index is a \<open>nat\<close>.
  DMEM is kept as host bytes, so that an access outside its 4096 bytes is visible in the model.
  A control register \<open>cr[i]\<close> is a pointer to a register of the host; the model keeps the value it points to.
\<close>

section \<open>State\<close>

record CP0 =
  cr :: "nat \<Rightarrow> u32"
  irq :: u32

record CP2 =
  regs :: "nat \<Rightarrow> nat \<Rightarrow> u16"
  flags :: "nat \<Rightarrow> nat \<Rightarrow> u16"
  acc :: "nat \<Rightarrow> u16"
  div_out :: u16
  div_in :: u16
  dp_flag :: u8

record CPUState =
  pc :: u32
  dirty_blocks :: u32
  has_delay_slot :: u32
  branch_target :: u32
  sr :: "nat \<Rightarrow> u32"
  dmem :: "nat \<Rightarrow> u8"
  imem :: "nat \<Rightarrow> u32"
  rdram :: "nat \<Rightarrow> u32"
  cp2 :: CP2
  cp0 :: CP0

abbreviation (input) "RSP_VCO \<equiv> 0 :: nat"
abbreviation (input) "RSP_VCC \<equiv> 1 :: nat"
abbreviation (input) "RSP_VCE \<equiv> 2 :: nat"

text \<open>What the compiler was told about the host: which intrinsics it may use, and the content of the
  vector register that an empty \<open>asm\<close> statement leaves undefined.\<close>

record target =
  has_ssse3 :: bool
  has_sse41 :: bool
  undef_xmm :: m128i

section \<open>Operand access\<close>

definition load_si128 :: "(nat \<Rightarrow> u16) \<Rightarrow> nat \<Rightarrow> m128i" where
  "load_si128 p off = vec (\<lambda>i. p (off + i))"

definition store_si128 :: "(nat \<Rightarrow> u16) \<Rightarrow> nat \<Rightarrow> m128i \<Rightarrow> nat \<Rightarrow> u16" where
  "store_si128 p off v = (\<lambda>k. if off \<le> k \<and> k < off + 8 then lane v (k - off) else p k)"

definition shuffle_keys :: "u16 list list" where
  "shuffle_keys =
  [[0x0100, 0x0302, 0x0504, 0x0706, 0x0908, 0x0b0a, 0x0d0c, 0x0f0e],
   [0x0100, 0x0302, 0x0504, 0x0706, 0x0908, 0x0b0a, 0x0d0c, 0x0f0e],
   [0x0100, 0x0100, 0x0504, 0x0504, 0x0908, 0x0908, 0x0d0c, 0x0d0c],
   [0x0302, 0x0302, 0x0706, 0x0706, 0x0b0a, 0x0b0a, 0x0f0e, 0x0f0e],
   [0x0100, 0x0100, 0x0100, 0x0100, 0x0908, 0x0908, 0x0908, 0x0908],
   [0x0302, 0x0302, 0x0302, 0x0302, 0x0b0a, 0x0b0a, 0x0b0a, 0x0b0a],
   [0x0504, 0x0504, 0x0504, 0x0504, 0x0d0c, 0x0d0c, 0x0d0c, 0x0d0c],
   [0x0706, 0x0706, 0x0706, 0x0706, 0x0f0e, 0x0f0e, 0x0f0e, 0x0f0e],
   [0x0100, 0x0100, 0x0100, 0x0100, 0x0100, 0x0100, 0x0100, 0x0100],
   [0x0302, 0x0302, 0x0302, 0x0302, 0x0302, 0x0302, 0x0302, 0x0302],
   [0x0504, 0x0504, 0x0504, 0x0504, 0x0504, 0x0504, 0x0504, 0x0504],
   [0x0706, 0x0706, 0x0706, 0x0706, 0x0706, 0x0706, 0x0706, 0x0706],
   [0x0908, 0x0908, 0x0908, 0x0908, 0x0908, 0x0908, 0x0908, 0x0908],
   [0x0b0a, 0x0b0a, 0x0b0a, 0x0b0a, 0x0b0a, 0x0b0a, 0x0b0a, 0x0b0a],
   [0x0d0c, 0x0d0c, 0x0d0c, 0x0d0c, 0x0d0c, 0x0d0c, 0x0d0c, 0x0d0c],
   [0x0f0e, 0x0f0e, 0x0f0e, 0x0f0e, 0x0f0e, 0x0f0e, 0x0f0e, 0x0f0e]]"

definition rsp_vect_load_and_shuffle_operand_ssse3 :: "(nat \<Rightarrow> u16) \<Rightarrow> nat \<Rightarrow> m128i" where
  "rsp_vect_load_and_shuffle_operand_ssse3 src element =
     (let operand = load_si128 src 0;
          key = load_si128 (\<lambda>i. shuffle_keys ! element ! i) 0
      in mm_shuffle_epi8 operand key)"

definition MM_SHUFFLE :: "u8 \<Rightarrow> u8 \<Rightarrow> u8 \<Rightarrow> u8 \<Rightarrow> u8" where
  "MM_SHUFFLE z y x w = push_bit 6 z OR push_bit 4 y OR push_bit 2 x OR w"

definition rsp_vect_load_and_shuffle_operand_sse2 :: "m128i \<Rightarrow> (nat \<Rightarrow> u16) \<Rightarrow> nat \<Rightarrow> m128i" where
  "rsp_vect_load_and_shuffle_operand_sse2 undef src element =
     (if element \<le> 1 then load_si128 src 0
      else if element = 2 then
        let v = load_si128 src 0;
            v = mm_shufflelo_epi16 v (MM_SHUFFLE 2 2 0 0);
            v = mm_shufflehi_epi16 v (MM_SHUFFLE 2 2 0 0)
        in v
      else if element = 3 then
        let v = load_si128 src 0;
            v = mm_shufflelo_epi16 v (MM_SHUFFLE 3 3 1 1);
            v = mm_shufflehi_epi16 v (MM_SHUFFLE 3 3 1 1)
        in v
      else if element \<le> 7 then
        let v = undef;
            v = mm_insert_epi16 v (src (element - 4)) 0;
            v = mm_insert_epi16 v (src (element - 0)) 1;
            v = mm_shufflelo_epi16 v (MM_SHUFFLE 1 1 0 0);
            v = mm_shuffle_epi32 v (MM_SHUFFLE 1 1 0 0)
        in v
      else
        let v = undef;
            v = mm_insert_epi16 v (src (element - 8)) 0;
            v = mm_unpacklo_epi16 v v;
            v = mm_shuffle_epi32 v (MM_SHUFFLE 0 0 0 0)
        in v)"

definition rsp_vect_load_and_shuffle_operand :: "target \<Rightarrow> (nat \<Rightarrow> u16) \<Rightarrow> nat \<Rightarrow> m128i" where
  "rsp_vect_load_and_shuffle_operand t src element =
     (if has_ssse3 t then rsp_vect_load_and_shuffle_operand_ssse3 src element
      else rsp_vect_load_and_shuffle_operand_sse2 (undef_xmm t) src element)"

definition rsp_vect_load_unshuffled_operand :: "(nat \<Rightarrow> u16) \<Rightarrow> nat \<Rightarrow> m128i" where
  "rsp_vect_load_unshuffled_operand src off = load_si128 src off"

definition rsp_vect_write_operand :: "(nat \<Rightarrow> u16) \<Rightarrow> nat \<Rightarrow> m128i \<Rightarrow> nat \<Rightarrow> u16" where
  "rsp_vect_write_operand dest off src = store_si128 dest off src"

definition read_acc_lo :: "(nat \<Rightarrow> u16) \<Rightarrow> m128i" where
  "read_acc_lo a = rsp_vect_load_unshuffled_operand a 16"

definition read_acc_md :: "(nat \<Rightarrow> u16) \<Rightarrow> m128i" where
  "read_acc_md a = rsp_vect_load_unshuffled_operand a 8"

definition read_acc_hi :: "(nat \<Rightarrow> u16) \<Rightarrow> m128i" where
  "read_acc_hi a = rsp_vect_load_unshuffled_operand a 0"

definition read_vcc_lo :: "(nat \<Rightarrow> u16) \<Rightarrow> m128i" where
  "read_vcc_lo vcc = rsp_vect_load_unshuffled_operand vcc 8"

definition read_vcc_hi :: "(nat \<Rightarrow> u16) \<Rightarrow> m128i" where
  "read_vcc_hi vcc = rsp_vect_load_unshuffled_operand vcc 0"

definition read_vco_lo :: "(nat \<Rightarrow> u16) \<Rightarrow> m128i" where
  "read_vco_lo vco = rsp_vect_load_unshuffled_operand vco 8"

definition read_vco_hi :: "(nat \<Rightarrow> u16) \<Rightarrow> m128i" where
  "read_vco_hi vco = rsp_vect_load_unshuffled_operand vco 0"

definition read_vce :: "(nat \<Rightarrow> u16) \<Rightarrow> m128i" where
  "read_vce vce = rsp_vect_load_unshuffled_operand vce 8"

definition write_acc_lo :: "(nat \<Rightarrow> u16) \<Rightarrow> m128i \<Rightarrow> nat \<Rightarrow> u16" where
  "write_acc_lo a v = rsp_vect_write_operand a 16 v"

definition write_acc_md :: "(nat \<Rightarrow> u16) \<Rightarrow> m128i \<Rightarrow> nat \<Rightarrow> u16" where
  "write_acc_md a v = rsp_vect_write_operand a 8 v"

definition write_acc_hi :: "(nat \<Rightarrow> u16) \<Rightarrow> m128i \<Rightarrow> nat \<Rightarrow> u16" where
  "write_acc_hi a v = rsp_vect_write_operand a 0 v"

definition write_vcc_lo :: "(nat \<Rightarrow> u16) \<Rightarrow> m128i \<Rightarrow> nat \<Rightarrow> u16" where
  "write_vcc_lo vcc v = rsp_vect_write_operand vcc 8 v"

definition write_vcc_hi :: "(nat \<Rightarrow> u16) \<Rightarrow> m128i \<Rightarrow> nat \<Rightarrow> u16" where
  "write_vcc_hi vcc v = rsp_vect_write_operand vcc 0 v"

definition write_vco_lo :: "(nat \<Rightarrow> u16) \<Rightarrow> m128i \<Rightarrow> nat \<Rightarrow> u16" where
  "write_vco_lo vco v = rsp_vect_write_operand vco 8 v"

definition write_vco_hi :: "(nat \<Rightarrow> u16) \<Rightarrow> m128i \<Rightarrow> nat \<Rightarrow> u16" where
  "write_vco_hi vco v = rsp_vect_write_operand vco 0 v"

definition write_vce :: "(nat \<Rightarrow> u16) \<Rightarrow> m128i \<Rightarrow> nat \<Rightarrow> u16" where
  "write_vce vce v = rsp_vect_write_operand vce 8 v"

definition rsp_vzero :: m128i where
  "rsp_vzero = mm_setzero_si128"

section \<open>Packed flags\<close>

definition rsp_get_flags :: "(nat \<Rightarrow> u16) \<Rightarrow> u16" where
  "rsp_get_flags f = ucast (mm_movemask_epi8 (mm_packs_epi16 (load_si128 f 8) (load_si128 f 0)))"

definition set_flags_array :: "u16 list list" where
  "set_flags_array =
  [[0x0000, 0x0000, 0x0000, 0x0000],
   [0xffff, 0x0000, 0x0000, 0x0000],
   [0x0000, 0xffff, 0x0000, 0x0000],
   [0xffff, 0xffff, 0x0000, 0x0000],
   [0x0000, 0x0000, 0xffff, 0x0000],
   [0xffff, 0x0000, 0xffff, 0x0000],
   [0x0000, 0xffff, 0xffff, 0x0000],
   [0xffff, 0xffff, 0xffff, 0x0000],
   [0x0000, 0x0000, 0x0000, 0xffff],
   [0xffff, 0x0000, 0x0000, 0xffff],
   [0x0000, 0xffff, 0x0000, 0xffff],
   [0xffff, 0xffff, 0x0000, 0xffff],
   [0x0000, 0x0000, 0xffff, 0xffff],
   [0xffff, 0x0000, 0xffff, 0xffff],
   [0x0000, 0xffff, 0xffff, 0xffff],
   [0xffff, 0xffff, 0xffff, 0xffff]]"

definition copy4 :: "(nat \<Rightarrow> u16) \<Rightarrow> nat \<Rightarrow> u16 list \<Rightarrow> nat \<Rightarrow> u16" where
  "copy4 f off src = (\<lambda>k. if off \<le> k \<and> k < off + 4 then src ! (k - off) else f k)"

definition rsp_set_flags :: "(nat \<Rightarrow> u16) \<Rightarrow> u16 \<Rightarrow> nat \<Rightarrow> u16" where
  "rsp_set_flags f rt =
     (let f = copy4 f (8 + 0 * 4) (set_flags_array ! unat (rt AND 0xf)); rt = drop_bit 4 rt;
          f = copy4 f (8 + 1 * 4) (set_flags_array ! unat (rt AND 0xf)); rt = drop_bit 4 rt;
          f = copy4 f (0 + 0 * 4) (set_flags_array ! unat (rt AND 0xf)); rt = drop_bit 4 rt;
          f = copy4 f (0 + 1 * 4) (set_flags_array ! unat (rt AND 0xf))
      in f)"

section \<open>Loads and stores\<close>

lemma lane_load_si128 [lane_simps]: "i < 8 \<Longrightarrow> lane (load_si128 p off) i = p (off + i)"
  by (simp add: load_si128_def lane_simps)

lemma load_store_si128 [simp]:
  "load_si128 (store_si128 p off v) off = v"
  "off' + 8 \<le> off \<or> off + 8 \<le> off' \<Longrightarrow> load_si128 (store_si128 p off v) off' = load_si128 p off'"
  by (rule m128i_eqI16; auto simp: lane_simps store_si128_def)+

lemma store_si128_in: "off \<le> k \<Longrightarrow> k < off + 8 \<Longrightarrow> store_si128 p off v k = lane v (k - off)"
  and store_si128_out: "k < off \<or> off + 8 \<le> k \<Longrightarrow> store_si128 p off v k = p k"
  by (auto simp: store_si128_def)

lemmas access_defs = rsp_vect_load_unshuffled_operand_def rsp_vect_write_operand_def
  read_acc_lo_def read_acc_md_def read_acc_hi_def write_acc_lo_def write_acc_md_def write_acc_hi_def
  read_vcc_lo_def read_vcc_hi_def read_vco_lo_def read_vco_hi_def read_vce_def
  write_vcc_lo_def write_vcc_hi_def write_vco_lo_def write_vco_hi_def write_vce_def rsp_vzero_def

section \<open>Element shuffles\<close>

text \<open>The element an operand lane is read from: the whole vector, one element of each pair (quarter), of
  each four (half), or one element for all lanes.\<close>

definition shuffle_index :: "nat \<Rightarrow> nat \<Rightarrow> nat" where
  "shuffle_index e i =
     (if e < 2 then i else if e < 4 then i - i mod 2 + (e - 2)
      else if e < 8 then i - i mod 4 + (e - 4) else e - 8)"

lemma shuffle_index_less: "e < 16 \<Longrightarrow> i < 8 \<Longrightarrow> shuffle_index e i < 8"
proof -
  have "\<forall>e \<in> set [0..<16]. \<forall>i \<in> set [0..<8]. shuffle_index e i < 8" by code_simp
  then show "e < 16 \<Longrightarrow> i < 8 \<Longrightarrow> shuffle_index e i < 8" by simp
qed

lemma lane16_eqI:
  fixes x y :: u16
  assumes "(lane x 0 :: u8) = lane y 0" "(lane x 1 :: u8) = lane y 1"
  shows "x = y"
proof (rule vec_eqI [where 'w = 8])
  fix i assume "i < lane_count TYPE(16) TYPE(8)"
  then have "i = 0 \<or> i = 1" by auto
  then show "(lane x i :: u8) = lane y i" using assms by auto
qed simp

lemma lane16_8: "j < 2 \<Longrightarrow> lane (lane (v :: m128i) i :: u16) j = (lane v (2 * i + j) :: u8)"
  by (rule lane_lane) simp_all

lemma shuffle_key_bytes:
  assumes "t < 8"
  shows "(lane (0x0100 + 0x0202 * word_of_nat t :: u16) 0 :: u8) = word_of_nat (2 * t)"
    "(lane (0x0100 + 0x0202 * word_of_nat t :: u16) 1 :: u8) = word_of_nat (2 * t + 1)"
    "\<not> bit (word_of_nat (2 * t) :: u8) 7" "\<not> bit (word_of_nat (2 * t + 1) :: u8) 7"
    "unat (take_bit 4 (word_of_nat (2 * t) :: u8)) = 2 * t"
    "unat (take_bit 4 (word_of_nat (2 * t + 1) :: u8)) = 2 * t + 1"
proof -
  have "\<forall>t \<in> set [0..<8]. (lane (0x0100 + 0x0202 * word_of_nat t :: u16) 0 :: u8) = word_of_nat (2 * t)
    \<and> (lane (0x0100 + 0x0202 * word_of_nat t :: u16) 1 :: u8) = word_of_nat (2 * t + 1)
    \<and> \<not> bit (word_of_nat (2 * t) :: u8) 7 \<and> \<not> bit (word_of_nat (2 * t + 1) :: u8) 7
    \<and> unat (take_bit 4 (word_of_nat (2 * t) :: u8)) = 2 * t
    \<and> unat (take_bit 4 (word_of_nat (2 * t + 1) :: u8)) = 2 * t + 1"
    by code_simp
  then show "(lane (0x0100 + 0x0202 * word_of_nat t :: u16) 0 :: u8) = word_of_nat (2 * t)"
    "(lane (0x0100 + 0x0202 * word_of_nat t :: u16) 1 :: u8) = word_of_nat (2 * t + 1)"
    "\<not> bit (word_of_nat (2 * t) :: u8) 7" "\<not> bit (word_of_nat (2 * t + 1) :: u8) 7"
    "unat (take_bit 4 (word_of_nat (2 * t) :: u8)) = 2 * t"
    "unat (take_bit 4 (word_of_nat (2 * t + 1) :: u8)) = 2 * t + 1"
    using assms by (simp_all only: set_upt atLeastLessThan_iff le0 simp_thms Ball_def)
qed

lemma lane_pshufb16:
  assumes "i < 8" "t < 8" and k: "(lane k i :: u16) = 0x0100 + 0x0202 * word_of_nat t"
  shows "lane (pshufb a k) i = (lane a t :: u16)"
proof (rule lane16_eqI)
  have k0: "(lane k (2 * i) :: u8) = word_of_nat (2 * t)"
    using lane16_8 [of 0 k i] unfolding k by (simp only: shuffle_key_bytes [OF assms(2)]) simp
  have k1: "(lane k (2 * i + 1) :: u8) = word_of_nat (2 * t + 1)"
    using lane16_8 [of 1 k i] unfolding k by (simp only: shuffle_key_bytes [OF assms(2)])
  show "lane (lane (pshufb a k) i :: u16) 0 = (lane (lane a t :: u16) 0 :: u8)"
    using assms(1) k0 shuffle_key_bytes [OF assms(2)] lane16_8 [of 0]
    by (simp add: pshufb_def lane_vec Let_def)
  show "lane (lane (pshufb a k) i :: u16) 1 = (lane (lane a t :: u16) 1 :: u8)"
    using assms(1) k1 shuffle_key_bytes [OF assms(2)] lane16_8 [of 1]
    by (simp add: pshufb_def lane_vec Let_def)
qed

lemma shuffle_keys_index:
  "e < 16 \<Longrightarrow> i < 8 \<Longrightarrow> shuffle_keys ! e ! i = 0x0100 + 0x0202 * word_of_nat (shuffle_index e i)"
proof -
  have "\<forall>e \<in> set [0..<16]. \<forall>i \<in> set [0..<8].
      shuffle_keys ! e ! i = 0x0100 + 0x0202 * word_of_nat (shuffle_index e i)" by code_simp
  then show "e < 16 \<Longrightarrow> i < 8 \<Longrightarrow> shuffle_keys ! e ! i = 0x0100 + 0x0202 * word_of_nat (shuffle_index e i)"
    by simp
qed

lemma shuffle_ssse3:
  assumes "e < 16" "i < 8"
  shows "lane (rsp_vect_load_and_shuffle_operand_ssse3 src e) i = src (shuffle_index e i)"
  unfolding rsp_vect_load_and_shuffle_operand_ssse3_def Let_def
  using assms shuffle_index_less [OF assms]
  by (subst lane_pshufb16 [where t = "shuffle_index e i"]) (simp_all add: lane_simps shuffle_keys_index)

lemma lane_pshufd16:
  assumes "i < 8"
  shows "lane (pshufd a imm) i = (lane a (2 * unat (take_bit 2 (drop_bit (2 * (i div 2)) imm)) + i mod 2) :: u16)"
proof -
  have m: "i mod 2 < 2" by simp
  have "lane (pshufd a imm) i = (lane (lane (pshufd a imm) (i div 2) :: u32) (i mod 2) :: u16)"
    using lane32_16 [OF m, of "pshufd a imm" "i div 2"] by simp
  also have "\<dots> = lane (lane a (unat (take_bit 2 (drop_bit (2 * (i div 2)) imm))) :: u32) (i mod 2)"
    using assms by (simp add: pshufd_def lane_vec)
  finally show ?thesis unfolding lane32_16 [OF m] .
qed

lemma lane_shuffles16:
  fixes a :: m128i
  assumes "i < 8"
  shows "lane (pshuflw a imm) i = (lane a (if i < 4 then unat (take_bit 2 (drop_bit (2 * i) imm)) else i) :: u16)"
    "lane (pshufhw a imm) i =
       (lane a (if i < 4 then i else 4 + unat (take_bit 2 (drop_bit (2 * (i - 4)) imm))) :: u16)"
    "lane (pinsr a x n) i = (if i = n then x else lane a i :: u16)"
    "lane (punpckl TYPE(16) a b) i = (lane (if even i then a else b) (i div 2) :: u16)"
  using assms by (simp_all add: simd_defs lane_vec)

lemma MM_SHUFFLE_values:
  "MM_SHUFFLE 2 2 0 0 = 0xa0" "MM_SHUFFLE 3 3 1 1 = 0xf5" "MM_SHUFFLE 1 1 0 0 = 0x50" "MM_SHUFFLE 0 0 0 0 = 0"
  by code_simp+

lemma less_8_cases: "i < 8 \<Longrightarrow> i \<in> {0, 1, 2, 3, 4, 5, 6, 7 :: nat}"
  by auto

lemma shuffle_sse2:
  assumes "e < 16" "i < 8"
  shows "lane (rsp_vect_load_and_shuffle_operand_sse2 undef src e) i = src (shuffle_index e i)"
proof -
  consider "e \<le> 1" | "e = 2" | "e = 3" | "4 \<le> e" "e \<le> 7" | "8 \<le> e" by linarith
  then show ?thesis
  proof cases
    case 1
    then show ?thesis using assms
      by (simp add: rsp_vect_load_and_shuffle_operand_sse2_def lane_simps shuffle_index_def)
  next
    case 2
    then show ?thesis using less_8_cases [OF assms(2)]
      by (auto simp: rsp_vect_load_and_shuffle_operand_sse2_def Let_def lane_simps lane_shuffles16
          MM_SHUFFLE_values shuffle_index_def) (simp_all add: eval_nat_numeral)
  next
    case 3
    then show ?thesis using less_8_cases [OF assms(2)]
      by (auto simp: rsp_vect_load_and_shuffle_operand_sse2_def Let_def lane_simps lane_shuffles16
          MM_SHUFFLE_values shuffle_index_def)
  next
    case 4
    then show ?thesis using less_8_cases [OF assms(2)]
      by (auto simp: rsp_vect_load_and_shuffle_operand_sse2_def Let_def lane_pshufd16 lane_shuffles16
          MM_SHUFFLE_values shuffle_index_def)
  next
    case 5
    then show ?thesis using less_8_cases [OF assms(2)]
      by (auto simp: rsp_vect_load_and_shuffle_operand_sse2_def Let_def lane_pshufd16 lane_shuffles16
          MM_SHUFFLE_values shuffle_index_def)
  qed
qed

lemma shuffle_lane [lane_simps]:
  "e < 16 \<Longrightarrow> i < 8 \<Longrightarrow> lane (rsp_vect_load_and_shuffle_operand t src e) i = src (shuffle_index e i)"
  by (simp add: rsp_vect_load_and_shuffle_operand_def shuffle_ssse3 shuffle_sse2)

section \<open>Flag words\<close>

text \<open>The invariant of the flag vectors: every element of VCO, VCC and VCE is all zeros or all ones.\<close>

definition flags_ok :: "CPUState \<Rightarrow> bool" where
  "flags_ok s = list_all (\<lambda>r. list_all (\<lambda>k. is_mask (flags (cp2 s) r k)) [0..<16]) [0..<3]"

lemma flags_ok_iff: "flags_ok s \<longleftrightarrow> (\<forall>r<3. \<forall>k<16. is_mask (flags (cp2 s) r k))"
  by (auto simp: flags_ok_def list_all_iff)

lemma mask_load: "\<forall>k<16. is_mask (f k) \<Longrightarrow> off \<le> 8 \<Longrightarrow> mask_lanes (load_si128 f off)"
  by (simp add: mask_lanes_iff lane_simps)

lemma bit_movemask: "bit (mm_movemask_epi8 a) i \<longleftrightarrow> i < 16 \<and> bit (lane a i :: u8) 7"
  by (auto simp: pmovmskb_def bit_horner_sum_bit_word_iff)

lemma lane_packs8:
  assumes "i < 16"
  shows "lane (mm_packs_epi16 a b) i = (sat_s (sint (if i < 8 then lane a i else lane b (i - 8) :: u16)) :: u8)"
  using assms by (simp add: simd_defs lane_vec)

lemma bit_sat8_mask: "is_mask m \<Longrightarrow> bit (sat_s (sint (m :: u16)) :: u8) 7 \<longleftrightarrow> m \<noteq> 0"
  by (auto simp: is_mask_def sat_s_def)

text \<open>Bit \<open>i\<close> of the packed word: the low eight bits are the elements 8 to 15, the high ones 0 to 7.\<close>

lemma bit_get_flags:
  assumes "\<forall>k<16. is_mask (f k)"
  shows "bit (rsp_get_flags f) i \<longleftrightarrow> i < 16 \<and> f (if i < 8 then 8 + i else i - 8) \<noteq> 0"
proof (cases "i < 16")
  case True
  then show ?thesis using assms
    by (simp add: rsp_get_flags_def bit_simps bit_movemask lane_packs8 lane_simps bit_sat8_mask)
qed (simp add: rsp_get_flags_def bit_simps)

lemma set_flags_array_entry:
  "n < 16 \<Longrightarrow> j < 4 \<Longrightarrow> set_flags_array ! n ! j = mask_word (bit n j)"
proof -
  have "\<forall>n \<in> set [0..<16]. \<forall>j \<in> set [0..<4]. set_flags_array ! n ! j = mask_word (bit n j)" by code_simp
  then show "n < 16 \<Longrightarrow> j < 4 \<Longrightarrow> set_flags_array ! n ! j = mask_word (bit n j)" by simp
qed

lemma nibble: "unat (w AND 0xf :: u16) < 16" "j < 4 \<Longrightarrow> bit (unat (w AND 0xf :: u16)) j = bit w j"
proof -
  have n: "w AND 0xf = take_bit 4 w" by (simp add: take_bit_eq_mask mask_eq_exp_minus_1)
  show "unat (w AND 0xf) < 16" unfolding n unsigned_take_bit_eq using take_bit_nat_less_exp [of 4 "unat w"] by simp
  show "j < 4 \<Longrightarrow> bit (unat (w AND 0xf)) j = bit w j" unfolding n by (simp add: bit_simps)
qed

lemma set_flags_element:
  assumes "k < 16"
  shows "rsp_set_flags f rt k = mask_word (bit rt (if k < 8 then k + 8 else k - 8))"
proof -
  consider "k < 4" | "4 \<le> k" "k < 8" | "8 \<le> k" "k < 12" | "12 \<le> k" using assms by linarith
  then show ?thesis
    using assms by cases
      (auto simp: rsp_set_flags_def Let_def copy4_def set_flags_array_entry nibble bit_drop_bit_eq
        drop_bit_drop_bit add.commute)
qed

lemma set_flags_out: "16 \<le> k \<Longrightarrow> rsp_set_flags f rt k = f k"
  by (simp add: rsp_set_flags_def Let_def copy4_def)

lemma get_set_flags: "rsp_get_flags (rsp_set_flags f rt) = rt"
proof (rule bit_word_eqI)
  have m: "\<forall>k<16. is_mask (rsp_set_flags f rt k)" by (simp add: set_flags_element)
  fix n assume "n < LENGTH(16)"
  then show "bit (rsp_get_flags (rsp_set_flags f rt)) n = bit rt n"
    by (auto simp: bit_get_flags [OF m] set_flags_element)
qed

lemma set_get_flags:
  assumes "\<forall>k<16. is_mask (f k)"
  shows "rsp_set_flags f (rsp_get_flags f) = f"
proof
  fix k
  show "rsp_set_flags f (rsp_get_flags f) k = f k"
    using is_mask_eq [of "f k"] assms by (cases "k < 16")
      (auto simp: set_flags_element set_flags_out bit_get_flags [OF assms])
qed

end
