(* ===== verification/Reciprocal.thy ===== *)
theory Reciprocal
  imports Rsp_State "HOL-Library.Log_Nat"
begin

unbundle bit_operations_syntax

text \<open>
  The divide unit: the reciprocal ROM of \<open>rsp/reciprocal.cpp\<close> and the functions of \<open>vrcpsq.h\<close>,
  \<open>vrsq.h\<close>, \<open>vdivh.h\<close> and \<open>vmov.h\<close>. The input is normalised by its leading zero count, the ROM holds
  the mantissas of \<open>1/x\<close> (first half) and of \<open>1/sqrt x\<close> (second half, even and odd exponents interleaved).
  The properties bound the error of both.
\<close>

section \<open>The ROM\<close>

text \<open>The reciprocal half and the square root half of the array, in the order of the source.\<close>

definition rcp_rom :: "u16 list" where
  "rcp_rom =
  [0xffff, 0xff00, 0xfe01, 0xfd04, 0xfc07, 0xfb0c, 0xfa11, 0xf918, 0xf81f, 0xf727, 0xf631, 0xf53b, 0xf446, 0xf352,
   0xf25f, 0xf16d, 0xf07c, 0xef8b, 0xee9c, 0xedae, 0xecc0, 0xebd3, 0xeae8, 0xe9fd, 0xe913, 0xe829, 0xe741, 0xe65a,
   0xe573, 0xe48d, 0xe3a9, 0xe2c5, 0xe1e1, 0xe0ff, 0xe01e, 0xdf3d, 0xde5d, 0xdd7e, 0xdca0, 0xdbc2, 0xdae6, 0xda0a,
   0xd92f, 0xd854, 0xd77b, 0xd6a2, 0xd5ca, 0xd4f3, 0xd41d, 0xd347, 0xd272, 0xd19e, 0xd0cb, 0xcff8, 0xcf26, 0xce55,
   0xcd85, 0xccb5, 0xcbe6, 0xcb18, 0xca4b, 0xc97e, 0xc8b2, 0xc7e7, 0xc71c, 0xc652, 0xc589, 0xc4c0, 0xc3f8, 0xc331,
   0xc26b, 0xc1a5, 0xc0e0, 0xc01c, 0xbf58, 0xbe95, 0xbdd2, 0xbd10, 0xbc4f, 0xbb8f, 0xbacf, 0xba10, 0xb951, 0xb894,
   0xb7d6, 0xb71a, 0xb65e, 0xb5a2, 0xb4e8, 0xb42e, 0xb374, 0xb2bb, 0xb203, 0xb14b, 0xb094, 0xafde, 0xaf28, 0xae73,
   0xadbe, 0xad0a, 0xac57, 0xaba4, 0xaaf1, 0xaa40, 0xa98e, 0xa8de, 0xa82e, 0xa77e, 0xa6d0, 0xa621, 0xa574, 0xa4c6,
   0xa41a, 0xa36e, 0xa2c2, 0xa217, 0xa16d, 0xa0c3, 0xa01a, 0x9f71, 0x9ec8, 0x9e21, 0x9d79, 0x9cd3, 0x9c2d, 0x9b87,
   0x9ae2, 0x9a3d, 0x9999, 0x98f6, 0x9852, 0x97b0, 0x970e, 0x966c, 0x95cb, 0x952b, 0x948b, 0x93eb, 0x934c, 0x92ad,
   0x920f, 0x9172, 0x90d4, 0x9038, 0x8f9c, 0x8f00, 0x8e65, 0x8dca, 0x8d30, 0x8c96, 0x8bfc, 0x8b64, 0x8acb, 0x8a33,
   0x899c, 0x8904, 0x886e, 0x87d8, 0x8742, 0x86ad, 0x8618, 0x8583, 0x84f0, 0x845c, 0x83c9, 0x8336, 0x82a4, 0x8212,
   0x8181, 0x80f0, 0x8060, 0x7fd0, 0x7f40, 0x7eb1, 0x7e22, 0x7d93, 0x7d05, 0x7c78, 0x7beb, 0x7b5e, 0x7ad2, 0x7a46,
   0x79ba, 0x792f, 0x78a4, 0x781a, 0x7790, 0x7706, 0x767d, 0x75f5, 0x756c, 0x74e4, 0x745d, 0x73d5, 0x734f, 0x72c8,
   0x7242, 0x71bc, 0x7137, 0x70b2, 0x702e, 0x6fa9, 0x6f26, 0x6ea2, 0x6e1f, 0x6d9c, 0x6d1a, 0x6c98, 0x6c16, 0x6b95,
   0x6b14, 0x6a94, 0x6a13, 0x6993, 0x6914, 0x6895, 0x6816, 0x6798, 0x6719, 0x669c, 0x661e, 0x65a1, 0x6524, 0x64a8,
   0x642c, 0x63b0, 0x6335, 0x62ba, 0x623f, 0x61c5, 0x614b, 0x60d1, 0x6058, 0x5fdf, 0x5f66, 0x5eed, 0x5e75, 0x5dfd,
   0x5d86, 0x5d0f, 0x5c98, 0x5c22, 0x5bab, 0x5b35, 0x5ac0, 0x5a4b, 0x59d6, 0x5961, 0x58ed, 0x5879, 0x5805, 0x5791,
   0x571e, 0x56ac, 0x5639, 0x55c7, 0x5555, 0x54e3, 0x5472, 0x5401, 0x5390, 0x5320, 0x52af, 0x5240, 0x51d0, 0x5161,
   0x50f2, 0x5083, 0x5015, 0x4fa6, 0x4f38, 0x4ecb, 0x4e5e, 0x4df1, 0x4d84, 0x4d17, 0x4cab, 0x4c3f, 0x4bd3, 0x4b68,
   0x4afd, 0x4a92, 0x4a27, 0x49bd, 0x4953, 0x48e9, 0x4880, 0x4817, 0x47ae, 0x4745, 0x46dc, 0x4674, 0x460c, 0x45a5,
   0x453d, 0x44d6, 0x446f, 0x4408, 0x43a2, 0x433c, 0x42d6, 0x4270, 0x420b, 0x41a6, 0x4141, 0x40dc, 0x4078, 0x4014,
   0x3fb0, 0x3f4c, 0x3ee8, 0x3e85, 0x3e22, 0x3dc0, 0x3d5d, 0x3cfb, 0x3c99, 0x3c37, 0x3bd6, 0x3b74, 0x3b13, 0x3ab2,
   0x3a52, 0x39f1, 0x3991, 0x3931, 0x38d2, 0x3872, 0x3813, 0x37b4, 0x3755, 0x36f7, 0x3698, 0x363a, 0x35dc, 0x357f,
   0x3521, 0x34c4, 0x3467, 0x340a, 0x33ae, 0x3351, 0x32f5, 0x3299, 0x323e, 0x31e2, 0x3187, 0x312c, 0x30d1, 0x3076,
   0x301c, 0x2fc2, 0x2f68, 0x2f0e, 0x2eb4, 0x2e5b, 0x2e02, 0x2da9, 0x2d50, 0x2cf8, 0x2c9f, 0x2c47, 0x2bef, 0x2b97,
   0x2b40, 0x2ae8, 0x2a91, 0x2a3a, 0x29e4, 0x298d, 0x2937, 0x28e0, 0x288b, 0x2835, 0x27df, 0x278a, 0x2735, 0x26e0,
   0x268b, 0x2636, 0x25e2, 0x258d, 0x2539, 0x24e5, 0x2492, 0x243e, 0x23eb, 0x2398, 0x2345, 0x22f2, 0x22a0, 0x224d,
   0x21fb, 0x21a9, 0x2157, 0x2105, 0x20b4, 0x2063, 0x2012, 0x1fc1, 0x1f70, 0x1f1f, 0x1ecf, 0x1e7f, 0x1e2e, 0x1ddf,
   0x1d8f, 0x1d3f, 0x1cf0, 0x1ca1, 0x1c52, 0x1c03, 0x1bb4, 0x1b66, 0x1b17, 0x1ac9, 0x1a7b, 0x1a2d, 0x19e0, 0x1992,
   0x1945, 0x18f8, 0x18ab, 0x185e, 0x1811, 0x17c4, 0x1778, 0x172c, 0x16e0, 0x1694, 0x1648, 0x15fd, 0x15b1, 0x1566,
   0x151b, 0x14d0, 0x1485, 0x143b, 0x13f0, 0x13a6, 0x135c, 0x1312, 0x12c8, 0x127f, 0x1235, 0x11ec, 0x11a3, 0x1159,
   0x1111, 0x10c8, 0x107f, 0x1037, 0x0fef, 0x0fa6, 0x0f5e, 0x0f17, 0x0ecf, 0x0e87, 0x0e40, 0x0df9, 0x0db2, 0x0d6b,
   0x0d24, 0x0cdd, 0x0c97, 0x0c50, 0x0c0a, 0x0bc4, 0x0b7e, 0x0b38, 0x0af2, 0x0aad, 0x0a68, 0x0a22, 0x09dd, 0x0998,
   0x0953, 0x090f, 0x08ca, 0x0886, 0x0842, 0x07fd, 0x07b9, 0x0776, 0x0732, 0x06ee, 0x06ab, 0x0668, 0x0624, 0x05e1,
   0x059e, 0x055c, 0x0519, 0x04d6, 0x0494, 0x0452, 0x0410, 0x03ce, 0x038c, 0x034a, 0x0309, 0x02c7, 0x0286, 0x0245,
   0x0204, 0x01c3, 0x0182, 0x0141, 0x0101, 0x00c0, 0x0080, 0x0040]"

definition rsq_rom :: "u16 list" where
  "rsq_rom =
  [0x6a09, 0xffff, 0x6955, 0xff00, 0x68a1, 0xfe02, 0x67ef, 0xfd06, 0x673e, 0xfc0b, 0x668d, 0xfb12, 0x65de, 0xfa1a,
   0x6530, 0xf923, 0x6482, 0xf82e, 0x63d6, 0xf73b, 0x632b, 0xf648, 0x6280, 0xf557, 0x61d7, 0xf467, 0x612e, 0xf379,
   0x6087, 0xf28c, 0x5fe0, 0xf1a0, 0x5f3a, 0xf0b6, 0x5e95, 0xefcd, 0x5df1, 0xeee5, 0x5d4e, 0xedff, 0x5cac, 0xed19,
   0x5c0b, 0xec35, 0x5b6b, 0xeb52, 0x5acb, 0xea71, 0x5a2c, 0xe990, 0x598f, 0xe8b1, 0x58f2, 0xe7d3, 0x5855, 0xe6f6,
   0x57ba, 0xe61b, 0x5720, 0xe540, 0x5686, 0xe467, 0x55ed, 0xe38e, 0x5555, 0xe2b7, 0x54be, 0xe1e1, 0x5427, 0xe10d,
   0x5391, 0xe039, 0x52fc, 0xdf66, 0x5268, 0xde94, 0x51d5, 0xddc4, 0x5142, 0xdcf4, 0x50b0, 0xdc26, 0x501f, 0xdb59,
   0x4f8e, 0xda8c, 0x4efe, 0xd9c1, 0x4e6f, 0xd8f7, 0x4de1, 0xd82d, 0x4d53, 0xd765, 0x4cc6, 0xd69e, 0x4c3a, 0xd5d7,
   0x4baf, 0xd512, 0x4b24, 0xd44e, 0x4a9a, 0xd38a, 0x4a10, 0xd2c8, 0x4987, 0xd206, 0x48ff, 0xd146, 0x4878, 0xd086,
   0x47f1, 0xcfc7, 0x476b, 0xcf0a, 0x46e5, 0xce4d, 0x4660, 0xcd91, 0x45dc, 0xccd6, 0x4558, 0xcc1b, 0x44d5, 0xcb62,
   0x4453, 0xcaa9, 0x43d1, 0xc9f2, 0x434f, 0xc93b, 0x42cf, 0xc885, 0x424f, 0xc7d0, 0x41cf, 0xc71c, 0x4151, 0xc669,
   0x40d2, 0xc5b6, 0x4055, 0xc504, 0x3fd8, 0xc453, 0x3f5b, 0xc3a3, 0x3edf, 0xc2f4, 0x3e64, 0xc245, 0x3de9, 0xc198,
   0x3d6e, 0xc0eb, 0x3cf5, 0xc03f, 0x3c7c, 0xbf93, 0x3c03, 0xbee9, 0x3b8b, 0xbe3f, 0x3b13, 0xbd96, 0x3a9c, 0xbced,
   0x3a26, 0xbc46, 0x39b0, 0xbb9f, 0x393a, 0xbaf8, 0x38c5, 0xba53, 0x3851, 0xb9ae, 0x37dd, 0xb90a, 0x3769, 0xb867,
   0x36f6, 0xb7c5, 0x3684, 0xb723, 0x3612, 0xb681, 0x35a0, 0xb5e1, 0x352f, 0xb541, 0x34bf, 0xb4a2, 0x344f, 0xb404,
   0x33df, 0xb366, 0x3370, 0xb2c9, 0x3302, 0xb22c, 0x3293, 0xb191, 0x3226, 0xb0f5, 0x31b9, 0xb05b, 0x314c, 0xafc1,
   0x30df, 0xaf28, 0x3074, 0xae8f, 0x3008, 0xadf7, 0x2f9d, 0xad60, 0x2f33, 0xacc9, 0x2ec8, 0xac33, 0x2e5f, 0xab9e,
   0x2df6, 0xab09, 0x2d8d, 0xaa75, 0x2d24, 0xa9e1, 0x2cbc, 0xa94e, 0x2c55, 0xa8bc, 0x2bee, 0xa82a, 0x2b87, 0xa799,
   0x2b21, 0xa708, 0x2abb, 0xa678, 0x2a55, 0xa5e8, 0x29f0, 0xa559, 0x298b, 0xa4cb, 0x2927, 0xa43d, 0x28c3, 0xa3b0,
   0x2860, 0xa323, 0x27fd, 0xa297, 0x279a, 0xa20b, 0x2738, 0xa180, 0x26d6, 0xa0f6, 0x2674, 0xa06c, 0x2613, 0x9fe2,
   0x25b2, 0x9f59, 0x2552, 0x9ed1, 0x24f2, 0x9e49, 0x2492, 0x9dc2, 0x2432, 0x9d3b, 0x23d3, 0x9cb4, 0x2375, 0x9c2f,
   0x2317, 0x9ba9, 0x22b9, 0x9b25, 0x225b, 0x9aa0, 0x21fe, 0x9a1c, 0x21a1, 0x9999, 0x2145, 0x9916, 0x20e8, 0x9894,
   0x208d, 0x9812, 0x2031, 0x9791, 0x1fd6, 0x9710, 0x1f7b, 0x968f, 0x1f21, 0x960f, 0x1ec7, 0x9590, 0x1e6d, 0x9511,
   0x1e13, 0x9492, 0x1dba, 0x9414, 0x1d61, 0x9397, 0x1d09, 0x931a, 0x1cb1, 0x929d, 0x1c59, 0x9221, 0x1c01, 0x91a5,
   0x1baa, 0x9129, 0x1b53, 0x90af, 0x1afc, 0x9034, 0x1aa6, 0x8fba, 0x1a50, 0x8f40, 0x19fa, 0x8ec7, 0x19a5, 0x8e4f,
   0x1950, 0x8dd6, 0x18fb, 0x8d5e, 0x18a7, 0x8ce7, 0x1853, 0x8c70, 0x17ff, 0x8bf9, 0x17ab, 0x8b83, 0x1758, 0x8b0d,
   0x1705, 0x8a98, 0x16b2, 0x8a23, 0x1660, 0x89ae, 0x160d, 0x893a, 0x15bc, 0x88c6, 0x156a, 0x8853, 0x1519, 0x87e0,
   0x14c8, 0x876d, 0x1477, 0x86fb, 0x1426, 0x8689, 0x13d6, 0x8618, 0x1386, 0x85a7, 0x1337, 0x8536, 0x12e7, 0x84c6,
   0x1298, 0x8456, 0x1249, 0x83e7, 0x11fb, 0x8377, 0x11ac, 0x8309, 0x115e, 0x829a, 0x1111, 0x822c, 0x10c3, 0x81bf,
   0x1076, 0x8151, 0x1029, 0x80e4, 0x0fdc, 0x8078, 0x0f8f, 0x800c, 0x0f43, 0x7fa0, 0x0ef7, 0x7f34, 0x0eab, 0x7ec9,
   0x0e60, 0x7e5e, 0x0e15, 0x7df4, 0x0dca, 0x7d8a, 0x0d7f, 0x7d20, 0x0d34, 0x7cb6, 0x0cea, 0x7c4d, 0x0ca0, 0x7be5,
   0x0c56, 0x7b7c, 0x0c0c, 0x7b14, 0x0bc3, 0x7aac, 0x0b7a, 0x7a45, 0x0b31, 0x79de, 0x0ae8, 0x7977, 0x0aa0, 0x7911,
   0x0a58, 0x78ab, 0x0a10, 0x7845, 0x09c8, 0x77df, 0x0981, 0x777a, 0x0939, 0x7715, 0x08f2, 0x76b1, 0x08ab, 0x764d,
   0x0865, 0x75e9, 0x081e, 0x7585, 0x07d8, 0x7522, 0x0792, 0x74bf, 0x074d, 0x745d, 0x0707, 0x73fa, 0x06c2, 0x7398,
   0x067d, 0x7337, 0x0638, 0x72d5, 0x05f3, 0x7274, 0x05af, 0x7213, 0x056a, 0x71b3, 0x0526, 0x7152, 0x04e2, 0x70f2,
   0x049f, 0x7093, 0x045b, 0x7033, 0x0418, 0x6fd4, 0x03d5, 0x6f76, 0x0392, 0x6f17, 0x0350, 0x6eb9, 0x030d, 0x6e5b,
   0x02cb, 0x6dfd, 0x0289, 0x6da0, 0x0247, 0x6d43, 0x0206, 0x6ce6, 0x01c4, 0x6c8a, 0x0183, 0x6c2d, 0x0142, 0x6bd1,
   0x0101, 0x6b76, 0x00c0, 0x6b1a, 0x0080, 0x6abf, 0x0040, 0x6a64]"

definition rsp_reciprocal_rom :: "u16 list" where
  "rsp_reciprocal_rom = rcp_rom @ rsq_rom"

section \<open>Operations\<close>

definition clz32 :: "u32 \<Rightarrow> nat" where
  "clz32 w = 32 - floorlog 2 (unat w)"

definition vrcp_vrsq_index :: "bool \<Rightarrow> u32 \<Rightarrow> nat \<Rightarrow> u32" where
  "vrcp_vrsq_index VRSQ data shift =
     (let idx = ucast (drop_bit 22 (push_bit shift (scast data :: u64) AND 0x7FC00000)) :: u32
      in if VRSQ then ((idx OR 0x200) AND 0x3FE) OR word_of_nat (shift mod 2) else idx)"

definition vrcp_vrsq_data :: "u32 \<Rightarrow> u32" where
  "vrcp_vrsq_data inp =
     (let input_mask = signed_drop_bit 31 inp;
          data = inp XOR input_mask
      in if sint inp > - 32768 then data - input_mask else data)"

definition vrcp_vrsq_result :: "bool \<Rightarrow> u32 \<Rightarrow> u32" where
  "vrcp_vrsq_result VRSQ inp =
     (let input_mask = signed_drop_bit 31 inp;
          data = vrcp_vrsq_data inp
      in if data = 0 then 0x7fffffff
         else if sint inp = - 32768 then 0xffff0000
         else
           let shift = clz32 data;
               idx = vrcp_vrsq_index VRSQ data shift;
               result = ucast (rsp_reciprocal_rom ! unat idx) :: u32;
               result = (if VRSQ then signed_drop_bit ((31 - shift) div 2) (push_bit 14 (0x10000 OR result))
                         else signed_drop_bit (31 - shift) (push_bit 14 (0x10000 OR result)))
           in result XOR input_mask)"

definition write_element :: "CPUState \<Rightarrow> nat \<Rightarrow> nat \<Rightarrow> u16 \<Rightarrow> CPUState" where
  "write_element rsp r k x =
     rsp\<lparr>cp2 := (cp2 rsp)\<lparr>regs := (regs (cp2 rsp))(r := (regs (cp2 rsp) r)(k := x))\<rparr>\<rparr>"

definition rsp_vrcp_vrsq :: "bool \<Rightarrow> CPUState \<Rightarrow> bool \<Rightarrow> nat \<Rightarrow> nat \<Rightarrow> nat \<Rightarrow> nat \<Rightarrow> CPUState \<times> m128i" where
  "rsp_vrcp_vrsq VRSQ rsp dp src e dest de =
     (let vt = regs (cp2 rsp) src (e mod 8);
          dp_input = push_bit 16 (scast (div_in (cp2 rsp)) :: u32) OR ucast vt;
          sp_input = scast vt :: u32;
          inp = (if dp then dp_input else sp_input);
          result = vrcp_vrsq_result VRSQ inp;
          rsp = rsp\<lparr>cp2 := (cp2 rsp)\<lparr>div_out := ucast (signed_drop_bit 16 result)\<rparr>\<rparr>;
          rsp = write_element rsp dest (de mod 8) (ucast result)
      in (rsp, rsp_vect_load_unshuffled_operand (regs (cp2 rsp) dest) 0))"

definition rsp_vrsq :: "CPUState \<Rightarrow> bool \<Rightarrow> nat \<Rightarrow> nat \<Rightarrow> nat \<Rightarrow> nat \<Rightarrow> CPUState \<times> m128i" where
  "rsp_vrsq rsp dp src e dest de =
     (let vt = regs (cp2 rsp) src (e mod 8);
          dp_input = push_bit 16 (scast (div_in (cp2 rsp)) :: u32) OR ucast vt;
          sp_input = scast vt :: u32;
          inp = (if dp then dp_input else sp_input);
          input_mask = signed_drop_bit 31 inp;
          data = inp XOR input_mask;
          data = (if sint inp > - 32768 then data - input_mask else data);
          result = (if data = 0 then 0x7fffffff
            else if sint inp = - 32768 then 0xffff0000
            else
              let shift = clz32 data;
                  idx = ucast (drop_bit 22 (push_bit shift (scast data :: u64) AND 0x7FC00000)) :: u32;
                  idx = ((idx OR 0x200) AND 0x3FE) OR word_of_nat (shift mod 2);
                  result = ucast (rsp_reciprocal_rom ! unat idx) :: u32;
                  result = signed_drop_bit ((31 - shift) div 2) (push_bit 14 (0x10000 OR result))
              in result XOR input_mask);
          rsp = rsp\<lparr>cp2 := (cp2 rsp)\<lparr>div_out := ucast (signed_drop_bit 16 result)\<rparr>\<rparr>;
          rsp = write_element rsp dest (de mod 8) (ucast result)
      in (rsp, rsp_vect_load_unshuffled_operand (regs (cp2 rsp) dest) 0))"

definition vrsq_mask_table :: "u16 list list" where
  "vrsq_mask_table =
  [[0xffff, 0, 0, 0, 0, 0, 0, 0],
   [0, 0xffff, 0, 0, 0, 0, 0, 0],
   [0, 0, 0xffff, 0, 0, 0, 0, 0],
   [0, 0, 0, 0xffff, 0, 0, 0, 0],
   [0, 0, 0, 0, 0xffff, 0, 0, 0],
   [0, 0, 0, 0, 0, 0xffff, 0, 0],
   [0, 0, 0, 0, 0, 0, 0xffff, 0],
   [0, 0, 0, 0, 0, 0, 0, 0xffff]]"

definition rsp_vrsqh :: "CPUState \<Rightarrow> nat \<Rightarrow> nat \<Rightarrow> nat \<Rightarrow> nat \<Rightarrow> CPUState \<times> m128i" where
  "rsp_vrsqh rsp src e dest de =
     (let rsp = rsp\<lparr>cp2 := (cp2 rsp)\<lparr>div_in := regs (cp2 rsp) src e\<rparr>\<rparr>;
          vd_mask = load_si128 (\<lambda>k. vrsq_mask_table ! de ! k) 0;
          vd = load_si128 (regs (cp2 rsp) dest) 0;
          vd = mm_andnot_si128 vd_mask vd;
          b_result = mm_set1_epi16 (div_out (cp2 rsp));
          b_result = mm_and_si128 vd_mask b_result
      in (rsp, mm_or_si128 b_result vd))"

definition rsp_vdivh :: "CPUState \<Rightarrow> nat \<Rightarrow> nat \<Rightarrow> nat \<Rightarrow> nat \<Rightarrow> CPUState \<times> m128i" where
  "rsp_vdivh rsp src e dest de =
     (let rsp = rsp\<lparr>cp2 := (cp2 rsp)\<lparr>div_in := regs (cp2 rsp) src (e mod 8)\<rparr>\<rparr>;
          rsp = write_element rsp dest (de mod 8) (div_out (cp2 rsp))
      in (rsp, rsp_vect_load_unshuffled_operand (regs (cp2 rsp) dest) 0))"

definition rsp_vmov :: "CPUState \<Rightarrow> nat \<Rightarrow> nat \<Rightarrow> nat \<Rightarrow> nat \<Rightarrow> CPUState \<times> m128i" where
  "rsp_vmov rsp src e dest de =
     (let data = regs (cp2 rsp) src (e mod 8);
          rsp = write_element rsp dest (de mod 8) data
      in (rsp, rsp_vect_load_unshuffled_operand (regs (cp2 rsp) dest) 0))"

section \<open>ROM contents\<close>

text \<open>Entry \<open>i\<close> of the first half, with its implicit leading bit, is \<open>2 ^ 26 / (512 + i)\<close> up to rounding. Entries
  \<open>2 * i\<close> and \<open>2 * i + 1\<close> of the second half are \<open>2 ^ 21 / sqrt m\<close> and \<open>sqrt 2\<close> times that, for \<open>m = 512 + 2 * i\<close>.\<close>

definition rom_mantissa :: "u16 \<Rightarrow> int" where
  "rom_mantissa x = 65536 + uint x"

definition rcp_entry_ok :: "int \<Rightarrow> u16 \<Rightarrow> bool" where
  "rcp_entry_ok m x \<longleftrightarrow> (let a = rom_mantissa x * m in 67108864 - 994 \<le> a \<and> a \<le> 67108864 + 2)"

definition rsq_entry_ok :: "int \<Rightarrow> int \<Rightarrow> u16 \<Rightarrow> bool" where
  "rsq_entry_ok b m x \<longleftrightarrow> (let a = rom_mantissa x * rom_mantissa x * m in b * (4398046511104 - 134217728) \<le> a \<and> a \<le> b * 4398046511104)"

fun rcp_ok :: "int \<Rightarrow> u16 list \<Rightarrow> bool" where
  "rcp_ok m [] = True"
| "rcp_ok m (x # xs) = (rcp_entry_ok m x \<and> rcp_ok (m + 1) xs)"

fun rsq_ok :: "int \<Rightarrow> u16 list \<Rightarrow> bool" where
  "rsq_ok m (x # y # xs) = (rsq_entry_ok 1 m x \<and> rsq_entry_ok 2 m y \<and> rsq_ok (m + 2) xs)"
| "rsq_ok m _ = True"

lemma rcp_rom_ok: "rcp_ok 512 rcp_rom"
  by code_simp

lemma rsq_rom_ok: "rsq_ok 512 rsq_rom"
  by code_simp

lemma length_rom: "length rcp_rom = 512" "length rsq_rom = 512"
  by (simp_all add: rcp_rom_def rsq_rom_def)

lemma rcp_ok_nth: "rcp_ok m xs \<Longrightarrow> i < length xs \<Longrightarrow> rcp_entry_ok (m + int i) (xs ! i)"
proof (induction xs arbitrary: m i)
  case (Cons x xs)
  then show ?case using Cons.IH [of "m + 1" "i - 1"] by (cases i) (simp_all add: add.assoc)
qed simp

lemma rsq_ok_nth:
  "rsq_ok m xs \<Longrightarrow> even (length xs) \<Longrightarrow> i < length xs \<Longrightarrow>
    rsq_entry_ok (if even i then 1 else 2) (m + int (i - i mod 2)) (xs ! i)"
proof (induction m xs arbitrary: i rule: rsq_ok.induct)
  case (1 m x y xs)
  consider "i = 0" | "i = 1" | j where "i = Suc (Suc j)" by (metis One_nat_def not0_implies_Suc)
  then show ?case
  proof cases
    case 3
    have "rsq_entry_ok (if even j then 1 else 2) (m + 2 + int (j - j mod 2)) (xs ! j)"
      using 1 3 by simp
    moreover have "Suc (Suc j) - Suc (Suc j) mod 2 = 2 + (j - j mod 2)" by presburger
    ultimately show ?thesis using 3 by (cases "even j") (simp_all add: add.assoc)
  qed (use 1 in simp_all)
qed simp_all

lemma rom_rcp: "i < 512 \<Longrightarrow> rcp_entry_ok (512 + int i) (rsp_reciprocal_rom ! i)"
  using rcp_ok_nth [OF rcp_rom_ok, of i] by (simp add: rsp_reciprocal_rom_def nth_append length_rom)

lemma rom_rsq:
  assumes "512 \<le> j" "j < 1024"
  shows "rsq_entry_ok (if even j then 1 else 2) (int (j - j mod 2)) (rsp_reciprocal_rom ! j)"
proof -
  obtain k where j: "j = 512 + k" using assms(1) le_Suc_ex by blast
  have "rsq_entry_ok (if even k then 1 else 2) (512 + int (k - k mod 2)) (rsq_rom ! k)"
    using rsq_ok_nth [OF rsq_rom_ok, of k] assms(2) by (simp add: j length_rom)
  then show ?thesis
    by (cases "even k"; cases k) (simp_all add: j rsp_reciprocal_rom_def nth_append length_rom mod2_eq_if)
qed

section \<open>Normalisation\<close>

lemma clz32_bounds:
  assumes "w \<noteq> 0"
  shows "clz32 w \<le> 31" "2 ^ 31 \<le> uint w * 2 ^ clz32 w" "uint w * 2 ^ clz32 w < 2 ^ 32"
proof -
  define f where "f = floorlog 2 (unat w)"
  have w: "0 < unat w" "unat w < 2 ^ 32" using assms unsigned_less [of w] by (simp_all add: unat_gt_0)
  have b: "2 ^ (f - 1) \<le> unat w" "unat w < 2 ^ f"
    using floorlog_bounds [of "unat w" 2] w by (simp_all add: f_def)
  have f: "0 < f" using b w by (cases f) auto
  have f32: "f \<le> 32"
  proof (rule ccontr)
    assume "\<not> f \<le> 32"
    then have "(2 :: nat) ^ 32 \<le> 2 ^ (f - 1)" by (intro power_increasing) simp_all
    with b w show False by simp
  qed
  have c: "clz32 w = 32 - f" by (simp add: clz32_def f_def)
  show "clz32 w \<le> 31" using f c by simp
  have "unat w * 2 ^ (32 - f) < 2 ^ f * 2 ^ (32 - f)" using b by simp
  also have "\<dots> = 2 ^ 32" using f32 by (simp flip: power_add)
  finally have u: "unat w * 2 ^ (32 - f) < 2 ^ 32" .
  have "2 ^ 31 = (2 :: nat) ^ (f - 1) * 2 ^ (32 - f)" using f f32 by (simp flip: power_add)
  also have "\<dots> \<le> unat w * 2 ^ (32 - f)" using b by simp
  finally have l: "2 ^ 31 \<le> unat w * 2 ^ (32 - f)" .
  from u have "int (unat w * 2 ^ (32 - f)) < int (2 ^ 32)" by (simp only: of_nat_less_iff)
  then show "uint w * 2 ^ clz32 w < 2 ^ 32" by (simp add: c)
  from l have "int (2 ^ 31) \<le> int (unat w * 2 ^ (32 - f))" by (simp only: of_nat_le_iff)
  then show "2 ^ 31 \<le> uint w * 2 ^ clz32 w" by (simp add: c)
qed

text \<open>The nine bits below the leading one of the normalised input.\<close>

lemma norm_field: "drop_bit 22 (w AND 0x7FC00000) = take_bit 9 (drop_bit 22 w)" for w :: u64
  by (simp add: drop_bit_and take_bit_eq_mask mask_eq_exp_minus_1)

lemma s32_eqI: "sint (x :: u32) = sint y \<Longrightarrow> x = y"
  by (simp add: signed_word_eqI)

lemma uint_s32: "uint (x :: u32) = (if sint x < 0 then sint x + 4294967296 else sint x)"
proof -
  have "sint x = (uint x + 2147483648) mod 4294967296 - 2147483648"
    by (simp add: sint_uint signed_take_bit_eq_take_bit_shift take_bit_eq_mod)
  with uint_bounded [of x] show ?thesis by (simp add: mod_once split: if_splits)
qed

lemma norm_index:
  assumes d: "d \<noteq> 0" "0 \<le> sint d"
  defines "n \<equiv> uint d * 2 ^ clz32 d"
  shows "uint (vrcp_vrsq_index False d (clz32 d)) = n div 4194304 - 512"
proof -
  note b = clz32_bounds [OF d(1), folded n_def]
  have "uint d = sint d" using d(2) unfolding uint_s32 by simp
  then have s: "(scast d :: u64) = word_of_int (uint d)" by (simp only: scast_eq)
  have u: "uint (scast d :: u64) = uint d"
    unfolding s using uint_bounded [of d] by (simp add: unsigned_ucast_eq take_bit_int_eq_self)
  have p: "uint (push_bit (clz32 d) (scast d :: u64)) = n"
    unfolding unsigned_push_bit_eq u using b
    by (simp add: push_bit_eq_mult take_bit_eq_mod n_def [symmetric])
  have "512 \<le> n div 4194304" "n div 4194304 < 1024" using b by simp_all
  then have "(n div 4194304) mod 512 = n div 4194304 - 512" by (simp add: mod_once)
  then show ?thesis
    unfolding vrcp_vrsq_index_def Let_def norm_field if_False
    by (simp only: unsigned_ucast_eq unsigned_take_bit_eq unsigned_drop_bit_eq p)
      (use b in \<open>simp add: drop_bit_eq_div take_bit_eq_mod\<close>)
qed

lemma rsq_index_bits:
  fixes x b :: int
  assumes x: "0 \<le> x" "x < 512" and b: "b = 0 \<or> b = 1"
  shows "((x OR 512) AND 1022) OR b = 512 + (x - x mod 2) + b"
proof -
  have "x OR 512 = x + 512"
  proof (rule disjunctive_add [symmetric])
    fix n
    have "bit (push_bit 9 (1 :: int)) n \<longleftrightarrow> n = 9" by (simp only: bit_push_bit_iff) (auto simp: bit_1_iff)
    then have "bit (512 :: int) n \<longleftrightarrow> n = 9" by simp
    moreover have "\<not> bit x 9" using x by (simp add: bit_iff_odd)
    ultimately show "\<not> bit x n \<or> \<not> bit (512 :: int) n" by auto
  qed
  moreover have "(x + 512) AND 1022 = x + 512 - x mod 2"
  proof -
    have m: "(511 :: int) = mask 9" by (simp add: mask_eq_exp_minus_1)
    have "take_bit 9 ((x + 512) div 2) = (x + 512) div 2" using x by (intro take_bit_int_eq_self) simp_all
    then have "(x + 512) div 2 AND 511 = (x + 512) div 2" unfolding m take_bit_eq_mask .
    moreover have "(x + 512) AND 1022 = 2 * ((x + 512) div 2 AND 511)" by (subst and_rec) simp
    ultimately have "(x + 512) AND 1022 = 2 * ((x + 512) div 2)" by simp
    moreover have "2 * ((x + 512) div 2) = x + 512 - (x + 512) mod 2" by (simp add: minus_mod_eq_mult_div)
    moreover have "(x + 512) mod 2 = x mod 2" by (metis mod_add_self2 add.commute mod_mult_self1 mult.commute numeral_Bit0 mult_2_right)
    ultimately show ?thesis by simp
  qed
  moreover have "y OR b = y + b" if "even y" for y :: int
    using b that by (auto simp: or_one_eq)
  moreover have "even (x + 512 - x mod 2)" by simp
  ultimately show ?thesis by simp
qed

lemma norm_range:
  assumes "d \<noteq> 0"
  shows "512 \<le> uint d * 2 ^ clz32 d div 4194304" "uint d * 2 ^ clz32 d div 4194304 < 1024"
  using clz32_bounds [OF assms] by simp_all

lemma rsq_index:
  assumes d: "d \<noteq> 0" "0 \<le> sint d"
  defines "x \<equiv> uint d * 2 ^ clz32 d div 4194304 - 512"
  shows "uint (vrcp_vrsq_index True d (clz32 d)) = 512 + (x - x mod 2) + int (clz32 d mod 2)"
proof -
  have i: "uint (vrcp_vrsq_index False d (clz32 d)) = x" using norm_index [OF d] by (simp add: x_def)
  have r: "0 \<le> x" "x < 512" using norm_range [OF d(1)] by (simp_all add: x_def)
  have p: "uint (word_of_nat (clz32 d mod 2) :: u32) = int (clz32 d mod 2)"
    by (cases "even (clz32 d)") (simp_all add: mod2_eq_if)
  have "vrcp_vrsq_index True d (clz32 d) =
      ((vrcp_vrsq_index False d (clz32 d) OR 0x200) AND 0x3FE) OR word_of_nat (clz32 d mod 2)"
    by (simp add: vrcp_vrsq_index_def Let_def)
  then have "uint (vrcp_vrsq_index True d (clz32 d)) = ((x OR 512) AND 1022) OR int (clz32 d mod 2)"
    by (simp only: unsigned_or_eq unsigned_and_eq i p) simp
  then show ?thesis using rsq_index_bits [OF r, of "int (clz32 d mod 2)"] by (simp add: mod2_eq_if)
qed

lemma rom_word:
  fixes r :: u16
  shows "sint (signed_drop_bit h (push_bit 14 (0x10000 OR ucast r :: u32))) = (rom_mantissa r * 16384) div 2 ^ h"
proof -
  have "uint (0x10000 OR ucast r :: u32) = 65536 OR uint r"
    using u16_range [of r] by (simp add: unsigned_or_eq unsigned_ucast_eq take_bit_int_eq_self)
  also have "\<dots> = 65536 + uint r"
  proof (rule disjunctive_add [symmetric])
    fix n
    have "bit (push_bit 16 (1 :: int)) n \<longleftrightarrow> n = 16" by (simp only: bit_push_bit_iff) (auto simp: bit_1_iff)
    then have "bit (65536 :: int) n \<longleftrightarrow> n = 16" by simp
    moreover have "\<not> bit (uint r) 16" by (simp add: bit_uint_iff)
    ultimately show "\<not> bit (65536 :: int) n \<or> \<not> bit (uint r) n" by auto
  qed
  finally have v: "uint (0x10000 OR ucast r :: u32) = rom_mantissa r" by (simp add: rom_mantissa_def)
  have m: "rom_mantissa r * 16384 < 2147483648" "0 \<le> rom_mantissa r * 16384"
    using u16_bounds [of r] by (simp_all add: rom_mantissa_def)
  then have "uint (push_bit 14 (0x10000 OR ucast r :: u32)) = rom_mantissa r * 16384"
    unfolding unsigned_push_bit_eq v by (simp add: push_bit_eq_mult take_bit_int_eq_self)
  then have "sint (push_bit 14 (0x10000 OR ucast r :: u32)) = rom_mantissa r * 16384"
    using m uint_s32 [of "push_bit 14 (0x10000 OR ucast r)"]
      sint_less [of "push_bit 14 (0x10000 OR ucast r :: u32)"] sint_ge [of "push_bit 14 (0x10000 OR ucast r :: u32)"]
    by (simp split: if_splits)
  then show ?thesis by (simp add: sint_signed_drop_bit_eq drop_bit_eq_div)
qed

lemma result_positive:
  assumes "0 < sint inp"
  shows "sint (vrcp_vrsq_result V inp) =
    (rom_mantissa (rsp_reciprocal_rom ! unat (vrcp_vrsq_index V inp (clz32 inp))) * 16384)
      div 2 ^ (if V then (31 - clz32 inp) div 2 else 31 - clz32 inp)"
proof -
  have "sint inp < 2147483648" using sint_less [of inp] by simp
  then have "signed_drop_bit 31 inp = 0"
    by (intro s32_eqI) (use assms in \<open>simp add: sint_signed_drop_bit_eq drop_bit_eq_div\<close>)
  then have "vrcp_vrsq_result V inp = signed_drop_bit (if V then (31 - clz32 inp) div 2 else 31 - clz32 inp)
      (push_bit 14 (0x10000 OR ucast (rsp_reciprocal_rom ! unat (vrcp_vrsq_index V inp (clz32 inp)))))"
    using assms by (auto simp: vrcp_vrsq_result_def vrcp_vrsq_data_def Let_def)
  then show ?thesis by (simp only: rom_word)
qed

section \<open>Error bounds\<close>

text \<open>With \<open>p * q = 2 ^ 31\<close> for the scale \<open>p\<close> of the result and \<open>q\<close> of the normalised input \<open>n = d * q\<close>, of
  which \<open>m\<close> holds the leading ten bits.\<close>

lemma div_bounds: "0 < p \<Longrightarrow> (a div p) * p \<le> a" "0 < p \<Longrightarrow> a < (a div p + 1) * p" for a p :: int
proof -
  assume p: "0 < p"
  have "a = (a div p) * p + a mod p" by simp
  moreover have "0 \<le> a mod p" "a mod p < p" using p by simp_all
  moreover have "(a div p + 1) * p = (a div p) * p + p" by (simp add: distrib_right)
  ultimately show "(a div p) * p \<le> a" "a < (a div p + 1) * p" by linarith+
qed

lemma rcp_bound:
  fixes v m d p q :: int
  assumes pq: "p * q = 2147483648" "0 < p" "0 < q" and v: "0 < v" "v < 131072" and d: "0 < d"
    and m: "m * 4194304 \<le> d * q" "d * q < (m + 1) * 4194304"
    and vm: "67108864 - 994 \<le> v * m" "v * m \<le> 67108864 + 2"
  defines "r \<equiv> (v * 16384) div p"
  shows "r * d < 2147483648 + 4194304 + 64" "2147483648 - 31808 < (r + 1) * d"
proof -
  have r: "r * p \<le> v * 16384" "v * 16384 < (r + 1) * p"
    using div_bounds [OF pq(2), of "v * 16384"] by (simp_all add: r_def)
  have "r * d * 2147483648 = (r * p) * (d * q)" unfolding pq(1) [symmetric] by (simp add: algebra_simps)
  also have "\<dots> \<le> (v * 16384) * (d * q)" using r d pq(3) by (intro mult_right_mono) simp_all
  also have "\<dots> < (v * 16384) * ((m + 1) * 4194304)" using m v by (intro mult_strict_left_mono) simp_all
  also have "\<dots> = (32 * (v * m) + 32 * v) * 2147483648" by (simp add: algebra_simps)
  finally have "r * d < 32 * (v * m) + 32 * v" by simp
  then show "r * d < 2147483648 + 4194304 + 64" using vm v by linarith
  have "32 * (v * m) * 2147483648 = (v * 16384) * (m * 4194304)" by (simp add: algebra_simps)
  also have "\<dots> \<le> (v * 16384) * (d * q)" using m v by (intro mult_left_mono) simp_all
  also have "\<dots> < ((r + 1) * p) * (d * q)" using r d pq(3) by (intro mult_strict_right_mono) simp_all
  also have "\<dots> = (r + 1) * d * 2147483648" unfolding pq(1) [symmetric] by (simp add: algebra_simps)
  finally have "32 * (v * m) < (r + 1) * d" by (simp add: mult.commute)
  then show "2147483648 - 31808 < (r + 1) * d" using vm by linarith
qed

text \<open>For the square root \<open>p * p * q = c * 2 ^ 31\<close>, with \<open>c\<close> one or two halves by the parity of the exponent,
  and \<open>m\<close> the leading ten bits with the last one cleared.\<close>

lemma rsq_bound:
  fixes v m d p q b :: int
  assumes pq: "b * (p * p * q) = 2147483648" "0 < p" "0 < q" and v: "0 < v" "v < 131072" and d: "0 < d"
    and b: "b = 1 \<or> b = 2"
    and m: "m * 4194304 \<le> d * q" "d * q < (m + 2) * 4194304"
    and vm: "(3 - b) * (4398046511104 - 134217728) \<le> v * v * m" "v * v * m \<le> (3 - b) * 4398046511104"
  defines "r \<equiv> (v * 16384) div p"
  shows "r * r * d < 2 ^ 62 + 2 ^ 55" "2 ^ 62 - 2 ^ 47 < (r + 1) * (r + 1) * d"
proof -
  have r0: "0 \<le> r" using v pq(2) by (simp add: r_def pos_imp_zdiv_nonneg_iff)
  have r: "r * p \<le> v * 16384" "v * 16384 < (r + 1) * p"
    using div_bounds [OF pq(2), of "v * 16384"] by (simp_all add: r_def)
  have vv: "v * v < 17179869184"
    using mult_strict_mono [of v 131072 v 131072] v by simp
  have sq: "(r * p) * (r * p) \<le> (v * 16384) * (v * 16384)" "(v * 16384) * (v * 16384) < ((r + 1) * p) * ((r + 1) * p)"
  proof -
    have "0 \<le> r * p" using r0 pq(2) by simp
    then show "(r * p) * (r * p) \<le> (v * 16384) * (v * 16384)"
      using mult_mono [OF r(1) r(1)] v by simp
    have "0 < v * 16384" using v by simp
    then show "(v * 16384) * (v * 16384) < ((r + 1) * p) * ((r + 1) * p)"
      using mult_strict_mono [OF r(2) r(2)] r(2) by linarith
  qed
  have dq: "0 < d * q" using d pq(3) by simp
  have "r * r * d * 2147483648 = b * ((r * p) * (r * p) * (d * q))"
    unfolding pq(1) [symmetric] by (simp add: algebra_simps)
  also have "\<dots> \<le> b * ((v * 16384) * (v * 16384) * (d * q))"
    by (rule mult_left_mono [OF mult_right_mono [OF sq(1)]]) (use dq b in auto)
  also have "\<dots> < b * ((v * 16384) * (v * 16384) * ((m + 2) * 4194304))"
    using m v b by (intro mult_strict_left_mono) auto
  also have "\<dots> = 524288 * (b * (v * v * m + 2 * (v * v))) * 2147483648" by (simp add: algebra_simps)
  finally have "r * r * d < 524288 * (b * (v * v * m + 2 * (v * v)))"
    by (simp only: mult_less_cancel_right)
  then show "r * r * d < 2 ^ 62 + 2 ^ 55" using vm vv b by auto
  have "524288 * (b * (v * v * m)) * 2147483648 = b * ((v * 16384) * (v * 16384) * (m * 4194304))"
    by (simp add: algebra_simps)
  also have "\<dots> \<le> b * ((v * 16384) * (v * 16384) * (d * q))"
    using m v b by (intro mult_left_mono) auto
  also have "\<dots> < b * (((r + 1) * p) * ((r + 1) * p) * (d * q))"
    by (rule mult_strict_left_mono [OF mult_strict_right_mono [OF sq(2) dq]]) (use b in auto)
  also have "\<dots> = (r + 1) * (r + 1) * d * 2147483648"
    unfolding pq(1) [symmetric] by (simp add: algebra_simps)
  finally have "524288 * (b * (v * v * m)) < (r + 1) * (r + 1) * d"
    by (simp only: mult_less_cancel_right)
  then show "2 ^ 62 - 2 ^ 47 < (r + 1) * (r + 1) * d" using vm b by auto
qed

lemma power_split: "k \<le> 31 \<Longrightarrow> (2 :: int) ^ (31 - k) * 2 ^ k = 2147483648"
  by (simp flip: power_add)

lemma power_split_half:
  assumes "k \<le> 31"
  shows "(if even k then 2 else 1) * ((2 :: int) ^ ((31 - k) div 2) * 2 ^ ((31 - k) div 2) * 2 ^ k) = 2147483648"
proof -
  let ?h = "(31 - k) div 2"
  have "?h + ?h + k = (if even k then 30 else 31)" using assms by presburger
  then have "(2 :: int) ^ (?h + ?h + k) = 2 ^ (if even k then 30 else 31)" by simp
  then show ?thesis by (cases "even k") (simp_all add: power_add)
qed

lemma mantissa_range: "0 < rom_mantissa x" "rom_mantissa x < 131072"
  using u16_bounds [of x] by (simp_all add: rom_mantissa_def)

lemma rcp_index_less:
  assumes "d \<noteq> 0" "0 \<le> sint d"
  shows "unat (vrcp_vrsq_index False d (clz32 d)) < 512"
proof -
  have "int (unat (vrcp_vrsq_index False d (clz32 d))) = uint d * 2 ^ clz32 d div 4194304 - 512"
    using norm_index [OF assms] by simp
  then show ?thesis using norm_range [OF assms(1)] by linarith
qed

lemma rsq_index_less:
  assumes "d \<noteq> 0" "0 \<le> sint d"
  defines "i \<equiv> unat (vrcp_vrsq_index True d (clz32 d))" and "x \<equiv> uint d * 2 ^ clz32 d div 4194304 - 512"
  shows "512 \<le> i" "i < 1024" "even i = even (clz32 d)" "int (i - i mod 2) = 512 + (x - x mod 2)"
proof -
  let ?s = "clz32 d"
  define m where "m = 512 + (x - x mod 2)"
  have x: "0 \<le> x" "x < 512" using norm_range [OF assms(1)] by (simp_all add: x_def)
  have i: "int i = m + int (?s mod 2)"
    using rsq_index [OF assms(1,2)] by (simp add: i_def m_def x_def)
  have "even m" by (simp add: m_def)
  then obtain h where h: "m = 2 * h" by (rule evenE)
  have "x mod 2 \<le> x" "0 \<le> x mod 2" using x by (simp_all add: zmod_le_nonneg_dividend)
  then have "512 \<le> m" "m \<le> 1023" using x unfolding m_def by linarith+
  then have "512 \<le> m" "h \<le> 511" using h by linarith+
  moreover have "int (?s mod 2) \<le> 1" by simp
  ultimately show "512 \<le> i" "i < 1024" using i h by linarith+
  have "even (int i) = even (int (?s mod 2))" unfolding i h by simp
  then show e: "even i = even ?s" unfolding even_of_nat by simp
  then have "i mod 2 = ?s mod 2" by (simp add: mod2_eq_if)
  moreover have "int (i - i mod 2) = int i - int (i mod 2)" by (rule of_nat_diff) simp
  ultimately show "int (i - i mod 2) = 512 + (x - x mod 2)" using i by (simp add: m_def)
qed

lemma rcp_accuracy:
  fixes inp :: u32
  assumes "0 < sint inp"
  defines "r \<equiv> sint (vrcp_vrsq_result False inp)"
  shows "r * sint inp < 2147483648 + 4194304 + 64" "2147483648 - 31808 < (r + 1) * sint inp"
proof -
  let ?s = "clz32 inp" and ?i = "unat (vrcp_vrsq_index False inp (clz32 inp))"
  define n where "n = uint inp * 2 ^ ?s"
  have nz: "inp \<noteq> 0" and nn: "0 \<le> sint inp" using assms(1) by auto
  have ud: "uint inp = sint inp" using assms(1) unfolding uint_s32 by simp
  have m: "(n div 4194304) * 4194304 \<le> sint inp * 2 ^ ?s" "sint inp * 2 ^ ?s < (n div 4194304 + 1) * 4194304"
    using div_bounds [of 4194304 n] by (simp_all add: n_def ud)
  have i: "int ?i = n div 4194304 - 512" using norm_index [OF nz nn] by (simp add: n_def)
  from rom_rcp [OF rcp_index_less [OF nz nn]] have "rcp_entry_ok (n div 4194304) (rsp_reciprocal_rom ! ?i)"
    unfolding i by simp
  then show "r * sint inp < 2147483648 + 4194304 + 64" "2147483648 - 31808 < (r + 1) * sint inp"
    unfolding r_def result_positive [OF assms(1)] if_False
    using rcp_bound [OF power_split [OF clz32_bounds(1) [OF nz]] _ _ mantissa_range assms(1) m]
    by (simp_all add: rcp_entry_ok_def Let_def)
qed

lemma rsq_accuracy:
  fixes inp :: u32
  assumes "0 < sint inp"
  defines "r \<equiv> sint (vrcp_vrsq_result True inp)"
  shows "r * r * sint inp < 2 ^ 62 + 2 ^ 55" "2 ^ 62 - 2 ^ 47 < (r + 1) * (r + 1) * sint inp"
proof -
  let ?s = "clz32 inp" and ?i = "unat (vrcp_vrsq_index True inp (clz32 inp))"
  define n x where "n = uint inp * 2 ^ ?s" and "x = n div 4194304 - 512"
  define m where "m = 512 + (x - x mod 2)"
  have nz: "inp \<noteq> 0" and nn: "0 \<le> sint inp" using assms(1) by auto
  have ud: "uint inp = sint inp" using assms(1) unfolding uint_s32 by simp
  have "0 \<le> x mod 2" "x mod 2 < 2" by simp_all
  then have "m \<le> n div 4194304" "n div 4194304 < m + 2" by (simp_all add: m_def x_def)
  then have m: "m * 4194304 \<le> sint inp * 2 ^ ?s" "sint inp * 2 ^ ?s < (m + 2) * 4194304"
    using div_bounds [of 4194304 n] by (simp_all add: n_def ud)
  note i = rsq_index_less [OF nz nn, folded n_def, folded x_def, folded m_def]
  from rom_rsq [OF i(1,2)] have "rsq_entry_ok (3 - (if even ?s then 2 else 1)) m (rsp_reciprocal_rom ! ?i)"
    unfolding i by (cases "even ?s") simp_all
  then show "r * r * sint inp < 2 ^ 62 + 2 ^ 55" "2 ^ 62 - 2 ^ 47 < (r + 1) * (r + 1) * sint inp"
    unfolding r_def result_positive [OF assms(1)] if_True
    using rsq_bound [OF power_split_half [OF clz32_bounds(1) [OF nz]] _ _ mantissa_range assms(1) _ m]
    by (simp_all add: rsq_entry_ok_def Let_def)
qed

section \<open>Properties\<close>

text \<open>C12: reciprocal accuracy. For a positive 32 bit input \<open>d\<close> the reciprocal unit returns \<open>2 ^ 31 / d\<close>, and the
  reciprocal square root unit \<open>2 ^ 31 / sqrt d\<close>, up to the precision of the ROM (nine and eight bits of mantissa):
  the product with the input, and of the square with the input, stay within the stated bounds.\<close>

theorem reciprocal_accuracy:
  fixes inp :: u32
  assumes "0 < sint inp"
  defines "d \<equiv> sint inp"
    and "r \<equiv> sint (vrcp_vrsq_result False inp)" and "q \<equiv> sint (vrcp_vrsq_result True inp)"
  shows "r * d < 2 ^ 31 + 2 ^ 22 + 64 \<and> 2 ^ 31 - 31808 < (r + 1) * d
    \<and> q * q * d < 2 ^ 62 + 2 ^ 55 \<and> 2 ^ 62 - 2 ^ 47 < (q + 1) * (q + 1) * d"
  using rcp_accuracy [OF assms(1)] rsq_accuracy [OF assms(1)] unfolding d_def r_def q_def by simp

theorem reciprocal_accuracy_witness:
  "2 ^ 31 - 31808 < (sint (vrcp_vrsq_result False 3) + 1) * 3"
  using reciprocal_accuracy [of 3] by simp

text \<open>The magnitude the unit looks up: the absolute value, in one's complement from \<open>-32768\<close> down.\<close>

lemma sra31: "signed_drop_bit 31 (x :: u32) = (if sint x < 0 then - 1 else 0)"
proof (rule s32_eqI)
  have "sint x < 2147483648" "- 2147483648 \<le> sint x" using sint_less [of x] sint_ge [of x] by simp_all
  then have "sint x div 2147483648 = (if sint x < 0 then - 1 else 0)" by auto
  then show "sint (signed_drop_bit 31 x) = sint (if sint x < 0 then - 1 else 0 :: u32)"
    by (simp add: sint_signed_drop_bit_eq drop_bit_eq_div)
qed

lemma data_word:
  "vrcp_vrsq_data inp = (if 0 \<le> sint inp then inp else if sint inp > - 32768 then - inp else NOT inp)"
  by (simp add: vrcp_vrsq_data_def Let_def sra31 not_eq_complement)

lemma sint_of_int32: "- 2147483648 \<le> k \<Longrightarrow> k < 2147483648 \<Longrightarrow> sint (word_of_int k :: u32) = k"
  by (simp add: sint_sbintrunc' signed_take_bit_eq_take_bit_shift take_bit_eq_mod)

lemma data_value:
  "sint (vrcp_vrsq_data inp) =
    (if 0 \<le> sint inp then sint inp else if sint inp > - 32768 then - sint inp else - sint inp - 1)"
proof -
  have r: "sint inp < 2147483648" "- 2147483648 \<le> sint inp" using sint_less [of inp] sint_ge [of inp] by simp_all
  have "NOT inp = word_of_int (- sint inp - 1)" "- inp = word_of_int (- sint inp)"
    by (simp_all add: not_eq_complement)
  then have "sint (NOT inp) = - sint inp - 1" "sint inp > - 32768 \<Longrightarrow> sint (- inp) = - sint inp"
    by (simp_all only:) (rule sint_of_int32; use r in linarith)+
  then show ?thesis unfolding data_word by auto
qed

lemma data_nonneg: "0 \<le> sint (vrcp_vrsq_data inp)"
  unfolding data_value by simp

text \<open>C13: every lookup of the divide unit stays inside its half of the 1024 entry ROM, for every input; the
  result for a negative input is the one's complement of the result for its magnitude; the special cases are
  exactly zero and \<open>-32768\<close>.\<close>

theorem reciprocal_lookup_safe:
  fixes inp :: u32
  defines "d \<equiv> vrcp_vrsq_data inp"
  shows "(d \<noteq> 0 \<longrightarrow> unat (vrcp_vrsq_index False d (clz32 d)) < 512
      \<and> 512 \<le> unat (vrcp_vrsq_index True d (clz32 d)) \<and> unat (vrcp_vrsq_index True d (clz32 d)) < 1024)
    \<and> length rsp_reciprocal_rom = 1024
    \<and> (d = 0 \<longleftrightarrow> inp = 0)
    \<and> (sint inp < 0 \<longrightarrow> vrcp_vrsq_result V inp =
         (if sint inp = - 32768 then 0xffff0000 else NOT (vrcp_vrsq_result V d)))"
proof -
  have z: "d = 0 \<longleftrightarrow> inp = 0"
  proof -
    have "d = 0 \<longleftrightarrow> sint d = 0" using s32_eqI [of d 0] by auto
    also have "\<dots> \<longleftrightarrow> sint inp = 0" unfolding d_def data_value by auto
    finally show ?thesis using s32_eqI [of inp 0] by auto
  qed
  have neg: "vrcp_vrsq_result V inp = NOT (vrcp_vrsq_result V d)" if "sint inp < 0" "sint inp \<noteq> - 32768"
  proof -
    have p: "0 < sint d" using that unfolding d_def data_value by auto
    then have "vrcp_vrsq_data d = d" by (simp add: data_word)
    moreover have "inp \<noteq> 0" "d \<noteq> 0" using that p by auto
    ultimately show ?thesis using that p
      by (simp add: vrcp_vrsq_result_def sra31 Let_def flip: d_def)
  qed
  have "vrcp_vrsq_result V inp = 0xffff0000" if "sint inp = - 32768"
    using that z by (auto simp: vrcp_vrsq_result_def d_def Let_def)
  then show ?thesis
    using rcp_index_less [OF _ data_nonneg, of inp] rsq_index_less [OF _ data_nonneg, of inp] z neg
    by (auto simp: d_def rsp_reciprocal_rom_def length_rom)
qed

theorem reciprocal_lookup_safe_witness:
  "unat (vrcp_vrsq_index True (vrcp_vrsq_data (- 5)) (clz32 (vrcp_vrsq_data (- 5)))) < 1024
    \<and> vrcp_vrsq_result False (- 5) = NOT (vrcp_vrsq_result False 5)"
  using reciprocal_lookup_safe [of "- 5" False] by (simp add: data_word)

end
