(* ===== verification/Vu.thy ===== *)
theory Vu
  imports Reciprocal
begin

unbundle bit_operations_syntax

text \<open>
  The vector instruction handlers of \<open>rsp/vfunctions.cpp\<close>, each a function of the whole processor state, and the
  decoding of a vector instruction word (\<open>packed_vu.h\<close> and the dispatch table of \<open>CPU::jit_instruction\<close>).
  The template parameter \<open>e\<close> is the element selector, \<open>vd\<close>, \<open>vs\<close>, \<open>vt\<close> are register numbers.
\<close>

section \<open>Operand macros\<close>

definition LOAD_VS :: "CPUState \<Rightarrow> nat \<Rightarrow> m128i" where
  "LOAD_VS rsp vs = rsp_vect_load_unshuffled_operand (regs (cp2 rsp) vs) 0"

definition LOAD_VT :: "target \<Rightarrow> nat \<Rightarrow> CPUState \<Rightarrow> nat \<Rightarrow> m128i" where
  "LOAD_VT t e rsp vt = rsp_vect_load_and_shuffle_operand t (regs (cp2 rsp) vt) e"

definition STORE_RESULT :: "nat \<Rightarrow> m128i \<Rightarrow> CPUState \<Rightarrow> CPUState" where
  "STORE_RESULT vd result rsp =
     rsp\<lparr>cp2 := (cp2 rsp)\<lparr>regs := (regs (cp2 rsp))(vd := rsp_vect_write_operand (regs (cp2 rsp) vd) 0 result)\<rparr>\<rparr>"

definition set_acc :: "((nat \<Rightarrow> u16) \<Rightarrow> nat \<Rightarrow> u16) \<Rightarrow> CPUState \<Rightarrow> CPUState" where
  "set_acc f rsp = rsp\<lparr>cp2 := (cp2 rsp)\<lparr>acc := f (acc (cp2 rsp))\<rparr>\<rparr>"

definition set_flag :: "nat \<Rightarrow> ((nat \<Rightarrow> u16) \<Rightarrow> nat \<Rightarrow> u16) \<Rightarrow> CPUState \<Rightarrow> CPUState" where
  "set_flag r f rsp = rsp\<lparr>cp2 := (cp2 rsp)\<lparr>flags := (flags (cp2 rsp))(r := f (flags (cp2 rsp) r))\<rparr>\<rparr>"

definition set_dp_flag :: "u8 \<Rightarrow> CPUState \<Rightarrow> CPUState" where
  "set_dp_flag b rsp = rsp\<lparr>cp2 := (cp2 rsp)\<lparr>dp_flag := b\<rparr>\<rparr>"

abbreviation (input) "acc_lo_to v \<equiv> set_acc (\<lambda>a. write_acc_lo a v)"
abbreviation (input) "acc_md_to v \<equiv> set_acc (\<lambda>a. write_acc_md a v)"
abbreviation (input) "acc_hi_to v \<equiv> set_acc (\<lambda>a. write_acc_hi a v)"
abbreviation (input) "vco_hi_to v \<equiv> set_flag RSP_VCO (\<lambda>f. write_vco_hi f v)"
abbreviation (input) "vco_lo_to v \<equiv> set_flag RSP_VCO (\<lambda>f. write_vco_lo f v)"
abbreviation (input) "vcc_hi_to v \<equiv> set_flag RSP_VCC (\<lambda>f. write_vcc_hi f v)"
abbreviation (input) "vcc_lo_to v \<equiv> set_flag RSP_VCC (\<lambda>f. write_vcc_lo f v)"
abbreviation (input) "vce_to v \<equiv> set_flag RSP_VCE (\<lambda>f. write_vce f v)"

type_synonym vu_handler = "target \<Rightarrow> nat \<Rightarrow> CPUState \<Rightarrow> nat \<Rightarrow> nat \<Rightarrow> nat \<Rightarrow> CPUState"

section \<open>Handlers\<close>

definition RSP_VABS :: vu_handler where
  "RSP_VABS t e rsp vd vs vt =
     (let (result, acc_lo) = rsp_vabs (LOAD_VS rsp vs) (LOAD_VT t e rsp vt);
          rsp = acc_lo_to acc_lo rsp
      in STORE_RESULT vd result rsp)"

definition RSP_VADD :: vu_handler where
  "RSP_VADD t e rsp vd vs vt =
     (let carry = read_vco_lo (flags (cp2 rsp) RSP_VCO);
          (result, acc_lo) = rsp_vadd (LOAD_VS rsp vs) (LOAD_VT t e rsp vt) carry;
          rsp = vco_hi_to rsp_vzero rsp;
          rsp = vco_lo_to rsp_vzero rsp;
          rsp = acc_lo_to acc_lo rsp
      in STORE_RESULT vd result rsp)"

definition RSP_VSUB :: vu_handler where
  "RSP_VSUB t e rsp vd vs vt =
     (let carry = read_vco_lo (flags (cp2 rsp) RSP_VCO);
          (result, acc_lo) = rsp_vsub (LOAD_VS rsp vs) (LOAD_VT t e rsp vt) carry;
          rsp = vco_hi_to rsp_vzero rsp;
          rsp = vco_lo_to rsp_vzero rsp;
          rsp = acc_lo_to acc_lo rsp
      in STORE_RESULT vd result rsp)"

definition RSP_VADDC :: vu_handler where
  "RSP_VADDC t e rsp vd vs vt =
     (let (result, sn) = rsp_vaddc (LOAD_VS rsp vs) (LOAD_VT t e rsp vt) rsp_vzero;
          rsp = vco_hi_to rsp_vzero rsp;
          rsp = vco_lo_to sn rsp;
          rsp = acc_lo_to result rsp
      in STORE_RESULT vd result rsp)"

definition RSP_VSUBC :: vu_handler where
  "RSP_VSUBC t e rsp vd vs vt =
     (let (result, eq, sn) = rsp_vsubc (LOAD_VS rsp vs) (LOAD_VT t e rsp vt) rsp_vzero;
          rsp = vco_hi_to eq rsp;
          rsp = vco_lo_to sn rsp;
          rsp = acc_lo_to result rsp
      in STORE_RESULT vd result rsp)"

definition RSP_VAND :: vu_handler where
  "RSP_VAND t e rsp vd vs vt =
     (let result = rsp_vand (LOAD_VS rsp vs) (LOAD_VT t e rsp vt);
          rsp = acc_lo_to result rsp
      in STORE_RESULT vd result rsp)"

definition RSP_VNAND :: vu_handler where
  "RSP_VNAND t e rsp vd vs vt =
     (let result = rsp_vnand (LOAD_VS rsp vs) (LOAD_VT t e rsp vt);
          rsp = acc_lo_to result rsp
      in STORE_RESULT vd result rsp)"

definition RSP_VOR :: vu_handler where
  "RSP_VOR t e rsp vd vs vt =
     (let result = rsp_vor (LOAD_VS rsp vs) (LOAD_VT t e rsp vt);
          rsp = acc_lo_to result rsp
      in STORE_RESULT vd result rsp)"

definition RSP_VNOR :: vu_handler where
  "RSP_VNOR t e rsp vd vs vt =
     (let result = rsp_vnor (LOAD_VS rsp vs) (LOAD_VT t e rsp vt);
          rsp = acc_lo_to result rsp
      in STORE_RESULT vd result rsp)"

definition RSP_VXOR :: vu_handler where
  "RSP_VXOR t e rsp vd vs vt =
     (let result = rsp_vxor (LOAD_VS rsp vs) (LOAD_VT t e rsp vt);
          rsp = acc_lo_to result rsp
      in STORE_RESULT vd result rsp)"

definition RSP_VNXOR :: vu_handler where
  "RSP_VNXOR t e rsp vd vs vt =
     (let result = rsp_vnxor (LOAD_VS rsp vs) (LOAD_VT t e rsp vt);
          rsp = acc_lo_to result rsp
      in STORE_RESULT vd result rsp)"

definition RSP_VCH :: vu_handler where
  "RSP_VCH t e rsp vd vs vt =
     (let (result, ge, le, eq, sign, vce) =
            rsp_vch (has_sse41 t) (LOAD_VS rsp vs) (LOAD_VT t e rsp vt) rsp_vzero;
          rsp = vcc_hi_to ge rsp;
          rsp = vcc_lo_to le rsp;
          rsp = vco_hi_to eq rsp;
          rsp = vco_lo_to sign rsp;
          rsp = vce_to vce rsp;
          rsp = acc_lo_to result rsp
      in STORE_RESULT vd result rsp)"

definition RSP_VCL :: vu_handler where
  "RSP_VCL t e rsp vd vs vt =
     (let ge = read_vcc_hi (flags (cp2 rsp) RSP_VCC);
          le = read_vcc_lo (flags (cp2 rsp) RSP_VCC);
          eq = read_vco_hi (flags (cp2 rsp) RSP_VCO);
          sign = read_vco_lo (flags (cp2 rsp) RSP_VCO);
          vce = read_vce (flags (cp2 rsp) RSP_VCE);
          (result, ge, le) =
            rsp_vcl (has_sse41 t) (LOAD_VS rsp vs) (LOAD_VT t e rsp vt) rsp_vzero ge le eq sign vce;
          rsp = vcc_hi_to ge rsp;
          rsp = vcc_lo_to le rsp;
          rsp = vco_hi_to rsp_vzero rsp;
          rsp = vco_lo_to rsp_vzero rsp;
          rsp = vce_to rsp_vzero rsp;
          rsp = acc_lo_to result rsp
      in STORE_RESULT vd result rsp)"

definition RSP_VCR :: vu_handler where
  "RSP_VCR t e rsp vd vs vt =
     (let (result, ge, le) = rsp_vcr (has_sse41 t) (LOAD_VS rsp vs) (LOAD_VT t e rsp vt) rsp_vzero;
          rsp = vcc_hi_to ge rsp;
          rsp = vcc_lo_to le rsp;
          rsp = vco_hi_to rsp_vzero rsp;
          rsp = vco_lo_to rsp_vzero rsp;
          rsp = vce_to rsp_vzero rsp;
          rsp = acc_lo_to result rsp
      in STORE_RESULT vd result rsp)"

definition RSP_VEQ :: vu_handler where
  "RSP_VEQ t e rsp vd vs vt =
     (let eq = read_vco_hi (flags (cp2 rsp) RSP_VCO);
          sign = read_vco_lo (flags (cp2 rsp) RSP_VCO);
          (result, le) = rsp_veq (has_sse41 t) (LOAD_VS rsp vs) (LOAD_VT t e rsp vt) rsp_vzero eq sign;
          rsp = vcc_hi_to rsp_vzero rsp;
          rsp = vcc_lo_to le rsp;
          rsp = vco_hi_to rsp_vzero rsp;
          rsp = vco_lo_to rsp_vzero rsp;
          rsp = acc_lo_to result rsp
      in STORE_RESULT vd result rsp)"

definition RSP_VGE :: vu_handler where
  "RSP_VGE t e rsp vd vs vt =
     (let eq = read_vco_hi (flags (cp2 rsp) RSP_VCO);
          sign = read_vco_lo (flags (cp2 rsp) RSP_VCO);
          (result, le) = rsp_vge (has_sse41 t) (LOAD_VS rsp vs) (LOAD_VT t e rsp vt) rsp_vzero eq sign;
          rsp = vcc_hi_to rsp_vzero rsp;
          rsp = vcc_lo_to le rsp;
          rsp = vco_hi_to rsp_vzero rsp;
          rsp = vco_lo_to rsp_vzero rsp;
          rsp = acc_lo_to result rsp
      in STORE_RESULT vd result rsp)"

definition RSP_VLT :: vu_handler where
  "RSP_VLT t e rsp vd vs vt =
     (let eq = read_vco_hi (flags (cp2 rsp) RSP_VCO);
          sign = read_vco_lo (flags (cp2 rsp) RSP_VCO);
          (result, le) = rsp_vlt (has_sse41 t) (LOAD_VS rsp vs) (LOAD_VT t e rsp vt) rsp_vzero eq sign;
          rsp = vcc_hi_to rsp_vzero rsp;
          rsp = vcc_lo_to le rsp;
          rsp = vco_hi_to rsp_vzero rsp;
          rsp = vco_lo_to rsp_vzero rsp;
          rsp = acc_lo_to result rsp
      in STORE_RESULT vd result rsp)"

definition RSP_VNE :: vu_handler where
  "RSP_VNE t e rsp vd vs vt =
     (let eq = read_vco_hi (flags (cp2 rsp) RSP_VCO);
          sign = read_vco_lo (flags (cp2 rsp) RSP_VCO);
          (result, le) = rsp_vne (has_sse41 t) (LOAD_VS rsp vs) (LOAD_VT t e rsp vt) rsp_vzero eq sign;
          rsp = vcc_hi_to rsp_vzero rsp;
          rsp = vcc_lo_to le rsp;
          rsp = vco_hi_to rsp_vzero rsp;
          rsp = vco_lo_to rsp_vzero rsp;
          rsp = acc_lo_to result rsp
      in STORE_RESULT vd result rsp)"

definition RSP_VINVALID :: vu_handler where
  "RSP_VINVALID t e rsp vd vs vt =
     rsp"

definition RSP_VMACF :: vu_handler where
  "RSP_VMACF t e rsp vd vs vt =
     (let a = acc (cp2 rsp);
          acc_lo = read_acc_lo a; acc_md = read_acc_md a; acc_hi = read_acc_hi a;
          (result, acc_lo, acc_md, acc_hi) =
            rsp_vmacf_vmacu False (LOAD_VS rsp vs) (LOAD_VT t e rsp vt) rsp_vzero acc_lo acc_md acc_hi;
          rsp = acc_lo_to acc_lo rsp;
          rsp = acc_md_to acc_md rsp;
          rsp = acc_hi_to acc_hi rsp
      in STORE_RESULT vd result rsp)"

definition RSP_VMACU :: vu_handler where
  "RSP_VMACU t e rsp vd vs vt =
     (let a = acc (cp2 rsp);
          acc_lo = read_acc_lo a; acc_md = read_acc_md a; acc_hi = read_acc_hi a;
          (result, acc_lo, acc_md, acc_hi) =
            rsp_vmacf_vmacu True (LOAD_VS rsp vs) (LOAD_VT t e rsp vt) rsp_vzero acc_lo acc_md acc_hi;
          rsp = acc_lo_to acc_lo rsp;
          rsp = acc_md_to acc_md rsp;
          rsp = acc_hi_to acc_hi rsp
      in STORE_RESULT vd result rsp)"

definition RSP_VMADH :: vu_handler where
  "RSP_VMADH t e rsp vd vs vt =
     (let a = acc (cp2 rsp);
          acc_lo = read_acc_lo a; acc_md = read_acc_md a; acc_hi = read_acc_hi a;
          (result, acc_lo, acc_md, acc_hi) =
            rsp_vmadh_vmudh True (LOAD_VS rsp vs) (LOAD_VT t e rsp vt) rsp_vzero acc_lo acc_md acc_hi;
          rsp = acc_lo_to acc_lo rsp;
          rsp = acc_md_to acc_md rsp;
          rsp = acc_hi_to acc_hi rsp
      in STORE_RESULT vd result rsp)"

definition RSP_VMUDH :: vu_handler where
  "RSP_VMUDH t e rsp vd vs vt =
     (let a = acc (cp2 rsp);
          acc_lo = read_acc_lo a; acc_md = read_acc_md a; acc_hi = read_acc_hi a;
          (result, acc_lo, acc_md, acc_hi) =
            rsp_vmadh_vmudh False (LOAD_VS rsp vs) (LOAD_VT t e rsp vt) rsp_vzero acc_lo acc_md acc_hi;
          rsp = acc_lo_to acc_lo rsp;
          rsp = acc_md_to acc_md rsp;
          rsp = acc_hi_to acc_hi rsp
      in STORE_RESULT vd result rsp)"

definition RSP_VMADL :: vu_handler where
  "RSP_VMADL t e rsp vd vs vt =
     (let a = acc (cp2 rsp);
          acc_lo = read_acc_lo a; acc_md = read_acc_md a; acc_hi = read_acc_hi a;
          (result, acc_lo, acc_md, acc_hi) =
            rsp_vmadl_vmudl (has_sse41 t) True (LOAD_VS rsp vs) (LOAD_VT t e rsp vt) rsp_vzero acc_lo acc_md acc_hi;
          rsp = acc_lo_to acc_lo rsp;
          rsp = acc_md_to acc_md rsp;
          rsp = acc_hi_to acc_hi rsp
      in STORE_RESULT vd result rsp)"

definition RSP_VMUDL :: vu_handler where
  "RSP_VMUDL t e rsp vd vs vt =
     (let a = acc (cp2 rsp);
          acc_lo = read_acc_lo a; acc_md = read_acc_md a; acc_hi = read_acc_hi a;
          (result, acc_lo, acc_md, acc_hi) =
            rsp_vmadl_vmudl (has_sse41 t) False (LOAD_VS rsp vs) (LOAD_VT t e rsp vt) rsp_vzero acc_lo acc_md acc_hi;
          rsp = acc_lo_to acc_lo rsp;
          rsp = acc_md_to acc_md rsp;
          rsp = acc_hi_to acc_hi rsp
      in STORE_RESULT vd result rsp)"

definition RSP_VMADM :: vu_handler where
  "RSP_VMADM t e rsp vd vs vt =
     (let a = acc (cp2 rsp);
          acc_lo = read_acc_lo a; acc_md = read_acc_md a; acc_hi = read_acc_hi a;
          (result, acc_lo, acc_md, acc_hi) =
            rsp_vmadm_vmudm True (LOAD_VS rsp vs) (LOAD_VT t e rsp vt) rsp_vzero acc_lo acc_md acc_hi;
          rsp = acc_lo_to acc_lo rsp;
          rsp = acc_md_to acc_md rsp;
          rsp = acc_hi_to acc_hi rsp
      in STORE_RESULT vd result rsp)"

definition RSP_VMUDM :: vu_handler where
  "RSP_VMUDM t e rsp vd vs vt =
     (let a = acc (cp2 rsp);
          acc_lo = read_acc_lo a; acc_md = read_acc_md a; acc_hi = read_acc_hi a;
          (result, acc_lo, acc_md, acc_hi) =
            rsp_vmadm_vmudm False (LOAD_VS rsp vs) (LOAD_VT t e rsp vt) rsp_vzero acc_lo acc_md acc_hi;
          rsp = acc_lo_to acc_lo rsp;
          rsp = acc_md_to acc_md rsp;
          rsp = acc_hi_to acc_hi rsp
      in STORE_RESULT vd result rsp)"

definition RSP_VMADN :: vu_handler where
  "RSP_VMADN t e rsp vd vs vt =
     (let a = acc (cp2 rsp);
          acc_lo = read_acc_lo a; acc_md = read_acc_md a; acc_hi = read_acc_hi a;
          (result, acc_lo, acc_md, acc_hi) =
            rsp_vmadn_vmudn (has_sse41 t) True (LOAD_VS rsp vs) (LOAD_VT t e rsp vt) rsp_vzero acc_lo acc_md acc_hi;
          rsp = acc_lo_to acc_lo rsp;
          rsp = acc_md_to acc_md rsp;
          rsp = acc_hi_to acc_hi rsp
      in STORE_RESULT vd result rsp)"

definition RSP_VMUDN :: vu_handler where
  "RSP_VMUDN t e rsp vd vs vt =
     (let a = acc (cp2 rsp);
          acc_lo = read_acc_lo a; acc_md = read_acc_md a; acc_hi = read_acc_hi a;
          (result, acc_lo, acc_md, acc_hi) =
            rsp_vmadn_vmudn (has_sse41 t) False (LOAD_VS rsp vs) (LOAD_VT t e rsp vt) rsp_vzero acc_lo acc_md acc_hi;
          rsp = acc_lo_to acc_lo rsp;
          rsp = acc_md_to acc_md rsp;
          rsp = acc_hi_to acc_hi rsp
      in STORE_RESULT vd result rsp)"

definition RSP_VMULF :: vu_handler where
  "RSP_VMULF t e rsp vd vs vt =
     (let (result, acc_lo, acc_md, acc_hi) =
            rsp_vmulf_vmulu False (LOAD_VS rsp vs) (LOAD_VT t e rsp vt) rsp_vzero;
          rsp = acc_lo_to acc_lo rsp;
          rsp = acc_md_to acc_md rsp;
          rsp = acc_hi_to acc_hi rsp
      in STORE_RESULT vd result rsp)"

definition RSP_VMULU :: vu_handler where
  "RSP_VMULU t e rsp vd vs vt =
     (let (result, acc_lo, acc_md, acc_hi) =
            rsp_vmulf_vmulu True (LOAD_VS rsp vs) (LOAD_VT t e rsp vt) rsp_vzero;
          rsp = acc_lo_to acc_lo rsp;
          rsp = acc_md_to acc_md rsp;
          rsp = acc_hi_to acc_hi rsp
      in STORE_RESULT vd result rsp)"

definition clamp16s :: "u32 \<Rightarrow> u32" where
  "clamp16s x = (if sint x > 0x7fff then 0x7fff else if sint x < - 0x8000 then - 0x8000 else x)"

definition vmacq_lane :: "nat \<Rightarrow> nat \<Rightarrow> CPUState \<Rightarrow> CPUState" where
  "vmacq_lane vd i rsp =
     (let prod = push_bit 16 (scast (acc (cp2 rsp) i) :: u32);
          prod = prod OR ucast (acc (cp2 rsp) (8 + i));
          prod = (if sint prod < 0 \<and> prod AND push_bit 5 1 = 0 then prod + 32
                  else if sint prod \<ge> 32 \<and> prod AND push_bit 5 1 = 0 then prod - 32 else prod);
          rsp = set_acc (\<lambda>a. a(i := ucast (signed_drop_bit 16 prod))) rsp;
          rsp = set_acc (\<lambda>a. a(8 + i := ucast (prod AND 0xffff))) rsp
      in write_element rsp vd i (ucast (clamp16s (signed_drop_bit 1 prod) AND NOT 15)))"

definition RSP_VMACQ :: vu_handler where
  "RSP_VMACQ t e rsp vd vs vt =
     fold (vmacq_lane vd) [0..<8] rsp"

definition vmulq_lane :: "nat \<Rightarrow> nat \<Rightarrow> m128i \<Rightarrow> nat \<Rightarrow> CPUState \<Rightarrow> CPUState" where
  "vmulq_lane vd vs vte i rsp =
     (let prod = scast (regs (cp2 rsp) vs i) * scast (lane vte i :: u16) :: u32;
          prod = (if sint prod < 0 then prod + 31 else prod);
          rsp = set_acc (\<lambda>a. a(i := ucast (signed_drop_bit 16 prod))) rsp;
          rsp = set_acc (\<lambda>a. a(8 + i := ucast (prod AND 0xffff))) rsp;
          rsp = set_acc (\<lambda>a. a(16 + i := 0)) rsp
      in write_element rsp vd i (ucast (clamp16s (signed_drop_bit 1 prod) AND NOT 15)))"

definition RSP_VMULQ :: vu_handler where
  "RSP_VMULQ t e rsp vd vs vt =
     (let vtt = LOAD_VT t e rsp vt in fold (vmulq_lane vd vs vtt) [0..<8] rsp)"

definition vrnd_lane :: "nat \<Rightarrow> nat \<Rightarrow> bool \<Rightarrow> m128i \<Rightarrow> nat \<Rightarrow> CPUState \<Rightarrow> CPUState" where
  "vrnd_lane vd vs variant vte i rsp =
     (let a = acc (cp2 rsp);
          acc64 = push_bit 32 (scast (a i) :: u64) OR push_bit 16 (ucast (a (8 + i))) OR ucast (a (16 + i));
          negative_acc = sint acc64 < 0;
          acc64 = (if variant \<noteq> negative_acc then
                     let value = scast (lane vte i :: u16) :: u64;
                         value = (if odd vs then push_bit 16 value else value)
                     in acc64 + value
                   else acc64);
          rsp = set_acc (\<lambda>a. a(i := ucast (signed_drop_bit 32 acc64 AND 0xffff))) rsp;
          rsp = set_acc (\<lambda>a. a(8 + i := ucast (signed_drop_bit 16 acc64 AND 0xffff))) rsp;
          rsp = set_acc (\<lambda>a. a(16 + i := ucast (acc64 AND 0xffff))) rsp
      in write_element rsp vd i (ucast (clamp16s (ucast (signed_drop_bit 16 acc64)))))"

definition RSP_VRND :: "target \<Rightarrow> CPUState \<Rightarrow> nat \<Rightarrow> nat \<Rightarrow> nat \<Rightarrow> nat \<Rightarrow> bool \<Rightarrow> CPUState" where
  "RSP_VRND t rsp vd vs vt e variant =
     (let vtt = LOAD_VT t e rsp vt in fold (vrnd_lane vd vs variant vtt) [0..<8] rsp)"

definition RSP_VRNDN :: vu_handler where
  "RSP_VRNDN t e rsp vd vs vt =
     RSP_VRND t rsp vd vs vt e False"

definition RSP_VRNDP :: vu_handler where
  "RSP_VRNDP t e rsp vd vs vt =
     RSP_VRND t rsp vd vs vt e True"

definition RSP_VNOP :: vu_handler where
  "RSP_VNOP t e rsp vd vs vt =
     rsp"

definition RSP_VMOV :: vu_handler where
  "RSP_VMOV t e rsp vd vs vt =
     (let rsp = acc_lo_to (LOAD_VT t e rsp vt) rsp;
          vs = vs mod 8
      in write_element rsp vd vs (acc (cp2 rsp) (16 + vs)))"

definition RSP_VMRG :: vu_handler where
  "RSP_VMRG t e rsp vd vs vt =
     (let le = read_vcc_lo (flags (cp2 rsp) RSP_VCC);
          result = rsp_vmrg (has_sse41 t) (LOAD_VS rsp vs) (LOAD_VT t e rsp vt) le;
          rsp = vco_hi_to rsp_vzero rsp;
          rsp = vco_lo_to rsp_vzero rsp;
          rsp = acc_lo_to result rsp
      in STORE_RESULT vd result rsp)"

definition RSP_VRCP :: vu_handler where
  "RSP_VRCP t e rsp vd vs vt =
     (let de = vs mod 8;
          rsp = acc_lo_to (LOAD_VT t e rsp vt) rsp;
          rsp = set_dp_flag 0 rsp;
          (rsp, result) = rsp_vrcp_vrsq False rsp False vt e vd de
      in STORE_RESULT vd result rsp)"

definition RSP_VRCPL :: vu_handler where
  "RSP_VRCPL t e rsp vd vs vt =
     (let de = vs mod 8;
          rsp = acc_lo_to (LOAD_VT t e rsp vt) rsp;
          dp = dp_flag (cp2 rsp) AND 1 \<noteq> 0;
          rsp = set_dp_flag 0 rsp;
          (rsp, result) = rsp_vrcp_vrsq False rsp dp vt e vd de
      in STORE_RESULT vd result rsp)"

definition RSP_VRSQ :: vu_handler where
  "RSP_VRSQ t e rsp vd vs vt =
     (let de = vs mod 8;
          rsp = acc_lo_to (LOAD_VT t e rsp vt) rsp;
          rsp = set_dp_flag 0 rsp;
          (rsp, result) = rsp_vrcp_vrsq True rsp False vt e vd de
      in STORE_RESULT vd result rsp)"

definition RSP_VRSQL :: vu_handler where
  "RSP_VRSQL t e rsp vd vs vt =
     (let de = vs mod 8;
          rsp = acc_lo_to (LOAD_VT t e rsp vt) rsp;
          dp = dp_flag (cp2 rsp) AND 1 \<noteq> 0;
          rsp = set_dp_flag 0 rsp;
          (rsp, result) = rsp_vrcp_vrsq True rsp dp vt e vd de
      in STORE_RESULT vd result rsp)"

definition RSP_VRCPH :: vu_handler where
  "RSP_VRCPH t e rsp vd vs vt =
     (let de = vs mod 8;
          rsp = acc_lo_to (LOAD_VT t e rsp vt) rsp;
          rsp = set_dp_flag 1 rsp;
          (rsp, result) = rsp_vdivh rsp vt e vd de
      in STORE_RESULT vd result rsp)"

definition RSP_VRSQH :: vu_handler where
  "RSP_VRSQH t e rsp vd vs vt =
     (let de = vs mod 8;
          rsp = acc_lo_to (LOAD_VT t e rsp vt) rsp;
          rsp = set_dp_flag 1 rsp;
          (rsp, result) = rsp_vdivh rsp vt e vd de
      in STORE_RESULT vd result rsp)"

definition RSP_VSAR :: vu_handler where
  "RSP_VSAR t e rsp vd vs vt =
     (let a = acc (cp2 rsp);
          result = (if e = 8 then read_acc_hi a else if e = 9 then read_acc_md a
                    else if e = 10 then read_acc_lo a else rsp_vzero)
      in STORE_RESULT vd result rsp)"

definition RSP_RESERVED :: vu_handler where
  "RSP_RESERVED t e rsp vd vs vt =
     (let result = mm_add_epi16 (LOAD_VS rsp vs) (LOAD_VT t e rsp vt);
          rsp = acc_lo_to result rsp;
          result = rsp_vzero
      in STORE_RESULT vd result rsp)"

section \<open>Instruction words\<close>

text \<open>The operands of a vector instruction travel as one word (\<open>PackedVU\<close>, little-endian fields).\<close>

definition pack_vu :: "nat \<Rightarrow> nat \<Rightarrow> nat \<Rightarrow> u32" where
  "pack_vu vd vs vt = word_of_nat (vd mod 256) OR push_bit 16 (word_of_nat (vs mod 256)) OR push_bit 24 (word_of_nat (vt mod 256))"

definition unpack_vu :: "u32 \<Rightarrow> nat \<times> nat \<times> nat" where
  "unpack_vu v = (unat (take_bit 16 v), unat (take_bit 8 (drop_bit 16 v)), unat (drop_bit 24 v))"

definition vu_ops :: "vu_handler option list" where
  "vu_ops =
  [Some RSP_VMULF, Some RSP_VMULU, Some RSP_VRNDP, Some RSP_VMULQ, Some RSP_VMUDL, Some RSP_VMUDM, Some RSP_VMUDN, Some RSP_VMUDH,
   Some RSP_VMACF, Some RSP_VMACU, Some RSP_VRNDN, Some RSP_VMACQ, Some RSP_VMADL, Some RSP_VMADM, Some RSP_VMADN, Some RSP_VMADH,
   Some RSP_VADD, Some RSP_VSUB, None, Some RSP_VABS, Some RSP_VADDC, Some RSP_VSUBC, None, None,
   None, None, None, None, None, Some RSP_VSAR, None, None,
   Some RSP_VLT, Some RSP_VEQ, Some RSP_VNE, Some RSP_VGE, Some RSP_VCL, Some RSP_VCH, Some RSP_VCR, Some RSP_VMRG,
   Some RSP_VAND, Some RSP_VNAND, Some RSP_VOR, Some RSP_VNOR, Some RSP_VXOR, Some RSP_VNXOR, None, None,
   Some RSP_VRCP, Some RSP_VRCPL, Some RSP_VRCPH, Some RSP_VMOV, Some RSP_VRSQ, Some RSP_VRSQL, Some RSP_VRSQH, Some RSP_VNOP,
   None, None, None, None, None, None, None, Some RSP_VNOP]"

definition run_packed_vu :: "vu_handler \<Rightarrow> target \<Rightarrow> nat \<Rightarrow> CPUState \<Rightarrow> u32 \<Rightarrow> CPUState" where
  "run_packed_vu h t e rsp v = (case unpack_vu v of (vd, vs, vt) \<Rightarrow> h t e rsp vd vs vt)"

definition is_vu_instruction :: "u32 \<Rightarrow> bool" where
  "is_vu_instruction instr \<longleftrightarrow> drop_bit 25 instr = 0x25"

definition vu_handler_of :: "u32 \<Rightarrow> vu_handler" where
  "vu_handler_of instr = (case vu_ops ! unat (instr AND 63) of None \<Rightarrow> RSP_RESERVED | Some h \<Rightarrow> h)"

definition vu_instruction :: "target \<Rightarrow> u32 \<Rightarrow> CPUState \<Rightarrow> CPUState" where
  "vu_instruction t instr rsp =
     (let vd = drop_bit 6 instr AND 31;
          vs = drop_bit 11 instr AND 31;
          vt = drop_bit 16 instr AND 31;
          e = drop_bit 21 instr AND 15;
          packed = pack_vu (unat vd) (unat vs) (unat vt);
          vuop = vu_handler_of instr
      in run_packed_vu vuop t (unat e) rsp packed)"

section \<open>State access\<close>

lemma STORE_RESULT_simps [simp]:
  "regs (cp2 (STORE_RESULT vd v rsp)) r = (if r = vd then store_si128 (regs (cp2 rsp) vd) 0 v else regs (cp2 rsp) r)"
  "flags (cp2 (STORE_RESULT vd v rsp)) = flags (cp2 rsp)" "acc (cp2 (STORE_RESULT vd v rsp)) = acc (cp2 rsp)"
  "div_in (cp2 (STORE_RESULT vd v rsp)) = div_in (cp2 rsp)" "div_out (cp2 (STORE_RESULT vd v rsp)) = div_out (cp2 rsp)"
  "dp_flag (cp2 (STORE_RESULT vd v rsp)) = dp_flag (cp2 rsp)"
  by (simp_all add: STORE_RESULT_def rsp_vect_write_operand_def)

lemma set_acc_simps [simp]:
  "acc (cp2 (set_acc f rsp)) = f (acc (cp2 rsp))"
  "regs (cp2 (set_acc f rsp)) = regs (cp2 rsp)" "flags (cp2 (set_acc f rsp)) = flags (cp2 rsp)"
  "div_in (cp2 (set_acc f rsp)) = div_in (cp2 rsp)" "div_out (cp2 (set_acc f rsp)) = div_out (cp2 rsp)"
  "dp_flag (cp2 (set_acc f rsp)) = dp_flag (cp2 rsp)"
  by (simp_all add: set_acc_def)

lemma set_flag_simps [simp]:
  "flags (cp2 (set_flag r f rsp)) q = (if q = r then f (flags (cp2 rsp) r) else flags (cp2 rsp) q)"
  "regs (cp2 (set_flag r f rsp)) = regs (cp2 rsp)" "acc (cp2 (set_flag r f rsp)) = acc (cp2 rsp)"
  "div_in (cp2 (set_flag r f rsp)) = div_in (cp2 rsp)" "div_out (cp2 (set_flag r f rsp)) = div_out (cp2 rsp)"
  "dp_flag (cp2 (set_flag r f rsp)) = dp_flag (cp2 rsp)"
  by (simp_all add: set_flag_def)

lemma set_dp_flag_simps [simp]:
  "dp_flag (cp2 (set_dp_flag b rsp)) = b" "regs (cp2 (set_dp_flag b rsp)) = regs (cp2 rsp)"
  "flags (cp2 (set_dp_flag b rsp)) = flags (cp2 rsp)" "acc (cp2 (set_dp_flag b rsp)) = acc (cp2 rsp)"
  "div_in (cp2 (set_dp_flag b rsp)) = div_in (cp2 rsp)" "div_out (cp2 (set_dp_flag b rsp)) = div_out (cp2 rsp)"
  by (simp_all add: set_dp_flag_def)

lemma write_element_simps [simp]:
  "regs (cp2 (write_element rsp r k x)) q = (if q = r then (regs (cp2 rsp) r)(k := x) else regs (cp2 rsp) q)"
  "flags (cp2 (write_element rsp r k x)) = flags (cp2 rsp)" "acc (cp2 (write_element rsp r k x)) = acc (cp2 rsp)"
  "div_in (cp2 (write_element rsp r k x)) = div_in (cp2 rsp)" "div_out (cp2 (write_element rsp r k x)) = div_out (cp2 rsp)"
  "dp_flag (cp2 (write_element rsp r k x)) = dp_flag (cp2 rsp)"
  by (simp_all add: write_element_def)

text \<open>Everything a vector instruction must leave alone: the state outside the vector unit.\<close>

definition non_cp2 :: "CPUState \<Rightarrow> CPUState" where
  "non_cp2 rsp = rsp\<lparr>cp2 := \<lparr>regs = \<lambda>_ _. 0, flags = \<lambda>_ _. 0, acc = \<lambda>_. 0, div_out = 0, div_in = 0, dp_flag = 0\<rparr>\<rparr>"

lemma non_cp2_simps [simp]:
  "non_cp2 (STORE_RESULT vd v rsp) = non_cp2 rsp" "non_cp2 (set_acc f rsp) = non_cp2 rsp"
  "non_cp2 (set_flag r g rsp) = non_cp2 rsp" "non_cp2 (set_dp_flag b rsp) = non_cp2 rsp"
  "non_cp2 (write_element rsp r k x) = non_cp2 rsp" "non_cp2 (rsp\<lparr>cp2 := c\<rparr>) = non_cp2 rsp"
  by (simp_all add: non_cp2_def STORE_RESULT_def set_acc_def set_flag_def set_dp_flag_def write_element_def)

lemma non_cp2_eqD:
  assumes "non_cp2 rsp' = non_cp2 rsp"
  shows "dmem rsp' = dmem rsp" "imem rsp' = imem rsp" "rdram rsp' = rdram rsp" "sr rsp' = sr rsp" "cp0 rsp' = cp0 rsp"
    "pc rsp' = pc rsp" "dirty_blocks rsp' = dirty_blocks rsp"
  using arg_cong [OF assms, of dmem] arg_cong [OF assms, of imem] arg_cong [OF assms, of rdram]
    arg_cong [OF assms, of sr] arg_cong [OF assms, of cp0] arg_cong [OF assms, of pc] arg_cong [OF assms, of dirty_blocks]
  by (simp_all add: non_cp2_def)

section \<open>The contract of a handler\<close>

text \<open>Every handler keeps the flag invariant, writes no vector register but its destination and nothing outside
  the vector unit.\<close>

locale vu_contract =
  fixes h :: "target \<Rightarrow> nat \<Rightarrow> CPUState \<Rightarrow> nat \<Rightarrow> nat \<Rightarrow> nat \<Rightarrow> CPUState"
  assumes keeps_flags: "e < 16 \<Longrightarrow> flags_ok rsp \<Longrightarrow> flags_ok (h t e rsp vd vs vt)"
    and writes_vd_only: "r \<noteq> vd \<Longrightarrow> regs (cp2 (h t e rsp vd vs vt)) r = regs (cp2 rsp) r"
    and writes_cp2_only: "non_cp2 (h t e rsp vd vs vt) = non_cp2 rsp"
begin

lemma run_list_keeps:
  assumes "flags_ok rsp" "\<forall>(e, vd, vs, vt) \<in> set ops. e < 16"
  shows "flags_ok (fold (\<lambda>(e, vd, vs, vt) rsp. h t e rsp vd vs vt) ops rsp)
    \<and> non_cp2 (fold (\<lambda>(e, vd, vs, vt) rsp. h t e rsp vd vs vt) ops rsp) = non_cp2 rsp"
  using assms
  by (induction ops arbitrary: rsp) (auto simp: keeps_flags writes_cp2_only)

end

lemma flags_ok_simps [simp]:
  "flags_ok (STORE_RESULT vd v rsp) = flags_ok rsp" "flags_ok (set_acc f rsp) = flags_ok rsp"
  "flags_ok (set_dp_flag b rsp) = flags_ok rsp" "flags_ok (write_element rsp r k x) = flags_ok rsp"
  by (simp_all add: flags_ok_def)

lemma flags_ok_write:
  assumes "flags_ok rsp" "mask_lanes v" "off = 0 \<or> off = 8"
  shows "flags_ok (set_flag r (\<lambda>f. rsp_vect_write_operand f off v) rsp)"
  using assms by (auto simp: flags_ok_iff rsp_vect_write_operand_def store_si128_def mask_lanes_iff)

lemma flags_ok_writes [simp]:
  assumes "flags_ok rsp" "mask_lanes v"
  shows "flags_ok (set_flag r (\<lambda>f. write_vco_hi f v) rsp)" "flags_ok (set_flag r (\<lambda>f. write_vco_lo f v) rsp)"
    "flags_ok (set_flag r (\<lambda>f. write_vcc_hi f v) rsp)" "flags_ok (set_flag r (\<lambda>f. write_vcc_lo f v) rsp)"
    "flags_ok (set_flag r (\<lambda>f. write_vce f v) rsp)"
  using assms unfolding write_vco_hi_def write_vco_lo_def write_vcc_hi_def write_vcc_lo_def write_vce_def
  by (simp_all add: flags_ok_write)

lemma flags_ok_reads [simp]:
  assumes "flags_ok rsp"
  shows "mask_lanes (read_vco_hi (flags (cp2 rsp) 0))" "mask_lanes (read_vco_lo (flags (cp2 rsp) 0))"
    "mask_lanes (read_vcc_hi (flags (cp2 rsp) 1))" "mask_lanes (read_vcc_lo (flags (cp2 rsp) 1))"
    "mask_lanes (read_vce (flags (cp2 rsp) 2))"
  using assms unfolding flags_ok_iff access_defs by (auto intro!: mask_load)

lemmas flags_ok_reads_Suc [simp] = flags_ok_reads [unfolded One_nat_def]

lemma mask_lanes_vzero [simp]: "mask_lanes rsp_vzero"
  by (simp add: rsp_vzero_def)

lemma flag_result_masks [simp]:
  "mask_lanes (snd (rsp_vaddc a b rsp_vzero))"
  "mask_lanes (fst (snd (rsp_vsubc a b rsp_vzero)))" "mask_lanes (snd (snd (rsp_vsubc a b rsp_vzero)))"
  "mask_lanes (fst (snd (rsp_vcr sse41 a b rsp_vzero)))" "mask_lanes (snd (snd (rsp_vcr sse41 a b rsp_vzero)))"
  by (simp_all add: mask_lanes_iff vaddc_lane vsubc_lane rsp_vzero_def)
    (use vcr_lane [where vs = a and vt = b and ?sse41.0 = sse41] in \<open>auto simp: split_beta\<close>)

lemma vch_result_masks [simp]:
  "mask_lanes (fst (snd (rsp_vch sse41 a b rsp_vzero)))"
  "mask_lanes (fst (snd (snd (rsp_vch sse41 a b rsp_vzero))))"
  "mask_lanes (fst (snd (snd (snd (rsp_vch sse41 a b rsp_vzero)))))"
  "mask_lanes (fst (snd (snd (snd (snd (rsp_vch sse41 a b rsp_vzero))))))"
  "mask_lanes (snd (snd (snd (snd (snd (rsp_vch sse41 a b rsp_vzero))))))"
  using vch_lane [where vs = a and vt = b and ?sse41.0 = sse41]
  by (simp_all add: mask_lanes_iff split_beta rsp_vzero_def)

lemma vcl_result_masks [simp]:
  assumes "mask_lanes ge" "mask_lanes le" "mask_lanes eq" "mask_lanes sign" "mask_lanes vce"
  shows "mask_lanes (fst (snd (rsp_vcl sse41 a b rsp_vzero ge le eq sign vce)))"
    "mask_lanes (snd (snd (rsp_vcl sse41 a b rsp_vzero ge le eq sign vce)))"
  using vcl_lane [OF _ assms, where vs = a and vt = b and ?sse41.0 = sse41]
  by (simp_all add: mask_lanes_iff split_beta rsp_vzero_def)

lemma vcmp_result_masks [simp]:
  assumes "mask_lanes eq" "mask_lanes sign"
  shows "mask_lanes (snd (rsp_veq sse41 a b rsp_vzero eq sign))" "mask_lanes (snd (rsp_vne sse41 a b rsp_vzero eq sign))"
    "mask_lanes (snd (rsp_vlt sse41 a b rsp_vzero eq sign))" "mask_lanes (snd (rsp_vge sse41 a b rsp_vzero eq sign))"
  using assms by (simp_all add: mask_lanes_iff vcmp_lane rsp_vzero_def)

lemma contract_alu:
  shows "vu_contract RSP_VABS"
    "vu_contract RSP_VADD"
    "vu_contract RSP_VSUB"
    "vu_contract RSP_VADDC"
    "vu_contract RSP_VSUBC"
    "vu_contract RSP_VAND"
    "vu_contract RSP_VNAND"
    "vu_contract RSP_VOR"
    "vu_contract RSP_VNOR"
    "vu_contract RSP_VXOR"
    "vu_contract RSP_VNXOR"
    "vu_contract RSP_VCH"
    "vu_contract RSP_VCL"
    "vu_contract RSP_VCR"
    "vu_contract RSP_VEQ"
    "vu_contract RSP_VGE"
    "vu_contract RSP_VLT"
    "vu_contract RSP_VNE"
    "vu_contract RSP_VMRG"
  by (unfold_locales; simp add: RSP_VABS_def RSP_VADD_def RSP_VSUB_def RSP_VADDC_def RSP_VSUBC_def RSP_VAND_def RSP_VNAND_def RSP_VOR_def RSP_VNOR_def RSP_VXOR_def RSP_VNXOR_def RSP_VCH_def RSP_VCL_def RSP_VCR_def RSP_VEQ_def RSP_VGE_def RSP_VLT_def RSP_VNE_def RSP_VMRG_def Let_def split_beta)+

lemma contract_mul:
  shows "vu_contract RSP_VMACF"
    "vu_contract RSP_VMACU"
    "vu_contract RSP_VMADH"
    "vu_contract RSP_VMUDH"
    "vu_contract RSP_VMADL"
    "vu_contract RSP_VMUDL"
    "vu_contract RSP_VMADM"
    "vu_contract RSP_VMUDM"
    "vu_contract RSP_VMADN"
    "vu_contract RSP_VMUDN"
    "vu_contract RSP_VMULF"
    "vu_contract RSP_VMULU"
    "vu_contract RSP_VSAR"
    "vu_contract RSP_RESERVED"
    "vu_contract RSP_VNOP"
    "vu_contract RSP_VINVALID"
  by (unfold_locales; simp add: RSP_VMACF_def RSP_VMACU_def RSP_VMADH_def RSP_VMUDH_def RSP_VMADL_def RSP_VMUDL_def RSP_VMADM_def RSP_VMUDM_def RSP_VMADN_def RSP_VMUDN_def RSP_VMULF_def RSP_VMULU_def RSP_VSAR_def RSP_RESERVED_def RSP_VNOP_def RSP_VINVALID_def Let_def split_beta)+

lemma fold_keeps: "(\<And>x s. P (f x s) = P s) \<Longrightarrow> P (fold f xs s) = P s"
  by (induction xs arbitrary: s) auto

lemma loop_lanes_keep:
  "flags_ok (vmacq_lane vd i rsp) = flags_ok rsp" "flags_ok (vmulq_lane vd vs w i rsp) = flags_ok rsp"
  "flags_ok (vrnd_lane vd vs b w i rsp) = flags_ok rsp"
  "non_cp2 (vmacq_lane vd i rsp) = non_cp2 rsp" "non_cp2 (vmulq_lane vd vs w i rsp) = non_cp2 rsp"
  "non_cp2 (vrnd_lane vd vs b w i rsp) = non_cp2 rsp"
  "r \<noteq> vd \<Longrightarrow> regs (cp2 (vmacq_lane vd i rsp)) r = regs (cp2 rsp) r"
  "r \<noteq> vd \<Longrightarrow> regs (cp2 (vmulq_lane vd vs w i rsp)) r = regs (cp2 rsp) r"
  "r \<noteq> vd \<Longrightarrow> regs (cp2 (vrnd_lane vd vs b w i rsp)) r = regs (cp2 rsp) r"
  by (simp_all add: vmacq_lane_def vmulq_lane_def vrnd_lane_def Let_def)

lemma divide_keeps:
  "flags_ok (fst (rsp_vrcp_vrsq V rsp dp src e dest de)) = flags_ok rsp"
  "flags_ok (fst (rsp_vdivh rsp src e dest de)) = flags_ok rsp"
  "non_cp2 (fst (rsp_vrcp_vrsq V rsp dp src e dest de)) = non_cp2 rsp"
  "non_cp2 (fst (rsp_vdivh rsp src e dest de)) = non_cp2 rsp"
  "r \<noteq> dest \<Longrightarrow> regs (cp2 (fst (rsp_vrcp_vrsq V rsp dp src e dest de))) r = regs (cp2 rsp) r"
  "r \<noteq> dest \<Longrightarrow> regs (cp2 (fst (rsp_vdivh rsp src e dest de))) r = regs (cp2 rsp) r"
  by (simp_all add: rsp_vrcp_vrsq_def rsp_vdivh_def Let_def) (simp_all add: flags_ok_def)

lemma contract_loops:
  shows "vu_contract RSP_VMACQ" "vu_contract RSP_VMULQ" "vu_contract RSP_VRNDN" "vu_contract RSP_VRNDP"
  by (unfold_locales; simp add: RSP_VMACQ_def RSP_VMULQ_def RSP_VRNDN_def RSP_VRNDP_def RSP_VRND_def Let_def
      fold_keeps [where P = flags_ok] fold_keeps [where P = non_cp2] fold_keeps [where P = "\<lambda>s. regs (cp2 s) r" for r]
      loop_lanes_keep)+

lemma contract_divide:
  shows "vu_contract RSP_VMOV" "vu_contract RSP_VRCP" "vu_contract RSP_VRCPL" "vu_contract RSP_VRSQ"
    "vu_contract RSP_VRSQL" "vu_contract RSP_VRCPH" "vu_contract RSP_VRSQH"
  by (unfold_locales; simp add: RSP_VMOV_def RSP_VRCP_def RSP_VRCPL_def RSP_VRSQ_def RSP_VRSQL_def RSP_VRCPH_def
      RSP_VRSQH_def Let_def split_beta divide_keeps)+

lemmas contracts = contract_alu contract_mul contract_loops contract_divide

lemma contract_dispatch: "vu_contract (vu_handler_of instr)"
proof -
  have "list_all (\<lambda>h. case h of None \<Rightarrow> True | Some h \<Rightarrow> vu_contract h) vu_ops"
    unfolding vu_ops_def by (simp add: contracts)
  moreover have "unat (instr AND 63) < length vu_ops"
    using unat_take_bit_less [of 6 instr] by (simp add: and_ones_take_bit vu_ops_def)
  ultimately show ?thesis
    by (auto simp: vu_handler_of_def list_all_length contracts split: option.splits)
qed

interpretation vu: vu_contract "vu_handler_of instr" for instr
  by (rule contract_dispatch)

section \<open>Decoding\<close>

lemma byte_bits: "n < 256 \<Longrightarrow> bit n k \<Longrightarrow> k < 8" for n k :: nat
  using bit_take_bit_iff [of 8 n k] take_bit_nat_eq_self [of n 8] by simp

lemma unpack_pack_vu:
  assumes "vd < 256" "vs < 256" "vt < 256"
  shows "unpack_vu (pack_vu vd vs vt) = (vd, vs, vt)"
proof -
  have "take_bit 16 (pack_vu vd vs vt) = word_of_nat vd"
    by (rule bit_word_eqI) (use assms in \<open>auto simp: pack_vu_def bit_simps dest: byte_bits\<close>)
  moreover have "take_bit 8 (drop_bit 16 (pack_vu vd vs vt)) = word_of_nat vs"
    by (rule bit_word_eqI) (use assms in \<open>auto simp: pack_vu_def bit_simps dest: byte_bits\<close>)
  moreover have "drop_bit 24 (pack_vu vd vs vt) = word_of_nat vt"
    by (rule bit_word_eqI) (use assms in \<open>auto simp: pack_vu_def bit_simps dest: byte_bits\<close>)
  ultimately show ?thesis using assms by (simp add: unpack_vu_def unat_of_nat)
qed

lemma field_less: "unat (drop_bit k instr AND 31 :: u32) < 32" "unat (drop_bit k instr AND 15 :: u32) < 16"
  using unat_take_bit_less [of 5 "drop_bit k instr"] unat_take_bit_less [of 4 "drop_bit k instr"]
  by (simp_all add: and_ones_take_bit)

lemma vu_instruction_handler:
  "vu_instruction t instr rsp = vu_handler_of instr t (unat (drop_bit 21 instr AND 15)) rsp
    (unat (drop_bit 6 instr AND 31)) (unat (drop_bit 11 instr AND 31)) (unat (drop_bit 16 instr AND 31))"
proof -
  have "unat (drop_bit k instr AND 31) < 256" for k using field_less(1) [of k instr] by simp
  then show ?thesis
    by (simp add: vu_instruction_def run_packed_vu_def unpack_pack_vu Let_def)
qed

lemma vu_instruction_keeps:
  "flags_ok rsp \<Longrightarrow> flags_ok (vu_instruction t instr rsp)"
  "non_cp2 (vu_instruction t instr rsp) = non_cp2 rsp"
  "r \<noteq> unat (drop_bit 6 instr AND 31) \<Longrightarrow> regs (cp2 (vu_instruction t instr rsp)) r = regs (cp2 rsp) r"
  unfolding vu_instruction_handler
  by (rule vu.keeps_flags [OF field_less(2)] vu.writes_cp2_only vu.writes_vd_only, assumption?)+

section \<open>Properties\<close>

text \<open>C3: vector programs are safe. Every sequence of vector instruction words, valid or reserved, keeps every
  flag element all zeros or all ones, changes nothing outside the vector unit (scalar registers, memories, control
  registers, program counter), and leaves every vector register alone that no instruction names as destination.\<close>

theorem vector_program_safe:
  assumes "flags_ok rsp"
  shows "flags_ok (fold (vu_instruction t) prog rsp)
    \<and> non_cp2 (fold (vu_instruction t) prog rsp) = non_cp2 rsp
    \<and> (\<forall>r. (\<forall>instr \<in> set prog. r \<noteq> unat (drop_bit 6 instr AND 31)) \<longrightarrow>
         regs (cp2 (fold (vu_instruction t) prog rsp)) r = regs (cp2 rsp) r)"
  using assms by (induction prog arbitrary: rsp) (simp_all add: vu_instruction_keeps)

definition reset_state :: CPUState where
  "reset_state = \<lparr>pc = 0, dirty_blocks = 0, has_delay_slot = 0, branch_target = 0, sr = \<lambda>_. 0, dmem = \<lambda>_. 0,
     imem = \<lambda>_. 0, rdram = \<lambda>_. 0,
     cp2 = \<lparr>regs = \<lambda>_ _. 0, flags = \<lambda>_ _. 0, acc = \<lambda>_. 0, div_out = 0, div_in = 0, dp_flag = 0\<rparr>,
     cp0 = \<lparr>cr = \<lambda>_. 0, irq = 0\<rparr>\<rparr>"

lemma flags_ok_reset [simp]: "flags_ok reset_state"
  by (simp add: flags_ok_iff reset_state_def is_mask_def)

theorem vector_program_safe_witness:
  "flags_ok (fold (vu_instruction \<lparr>has_ssse3 = True, has_sse41 = False, undef_xmm = 0\<rparr>) [0x4a0110d4, 0x4a000025] reset_state)
    \<and> dmem (fold (vu_instruction \<lparr>has_ssse3 = True, has_sse41 = False, undef_xmm = 0\<rparr>) [0x4a0110d4, 0x4a000025] reset_state) = dmem reset_state"
  using vector_program_safe [OF flags_ok_reset, of "\<lparr>has_ssse3 = True, has_sse41 = False, undef_xmm = 0\<rparr>" "[0x4a0110d4, 0x4a000025]"]
    non_cp2_eqD(1) by blast

section \<open>Handlers in sequence\<close>

lemma lane_LOAD_VS [lane_simps]: "i < 8 \<Longrightarrow> lane (LOAD_VS rsp vs) i = regs (cp2 rsp) vs i"
  by (simp add: LOAD_VS_def rsp_vect_load_unshuffled_operand_def lane_simps)

lemma lane_LOAD_VT [lane_simps]:
  "e < 16 \<Longrightarrow> i < 8 \<Longrightarrow> lane (LOAD_VT t e rsp vt) i = regs (cp2 rsp) vt (shuffle_index e i)"
  by (simp add: LOAD_VT_def lane_simps)

lemma LOAD_cong:
  "regs (cp2 rsp') vs = regs (cp2 rsp) vs \<Longrightarrow> LOAD_VS rsp' vs = LOAD_VS rsp vs"
  "regs (cp2 rsp') vt = regs (cp2 rsp) vt \<Longrightarrow> LOAD_VT t e rsp' vt = LOAD_VT t e rsp vt"
  by (simp_all add: LOAD_VS_def LOAD_VT_def)

lemma store_lane0: "i < 8 \<Longrightarrow> store_si128 p 0 v i = lane v i" "16 \<le> k \<Longrightarrow> k < 24 \<Longrightarrow> store_si128 p 16 v k = lane v (k - 16)"
  by (simp_all add: store_si128_def)

lemma get_flags_zero: "load_si128 f 8 = 0 \<Longrightarrow> load_si128 f 0 = 0 \<Longrightarrow> rsp_get_flags f = 0"
  unfolding rsp_get_flags_def
  by (rule bit_word_eqI) (simp add: bit_simps bit_movemask lane_packs8 lane_bitwise sat_s_def)

lemma VADDC_effect:
  fixes t :: target and rsp :: CPUState and e vd vs vt :: nat
  defines "s \<equiv> RSP_VADDC t e rsp vd vs vt" and "r \<equiv> rsp_vaddc (LOAD_VS rsp vs) (LOAD_VT t e rsp vt) 0"
  shows "load_si128 (regs (cp2 s) vd) 0 = fst r" "read_vco_lo (flags (cp2 s) 0) = snd r"
    "q \<noteq> vd \<Longrightarrow> regs (cp2 s) q = regs (cp2 rsp) q"
  by (simp_all add: s_def r_def RSP_VADDC_def Let_def split_beta access_defs)

lemma VSUBC_effect:
  fixes t :: target and rsp :: CPUState and e vd vs vt :: nat
  defines "s \<equiv> RSP_VSUBC t e rsp vd vs vt" and "r \<equiv> rsp_vsubc (LOAD_VS rsp vs) (LOAD_VT t e rsp vt) 0"
  shows "load_si128 (regs (cp2 s) vd) 0 = fst r" "read_vco_lo (flags (cp2 s) 0) = snd (snd r)"
    "q \<noteq> vd \<Longrightarrow> regs (cp2 s) q = regs (cp2 rsp) q"
  by (simp_all add: s_def r_def RSP_VSUBC_def Let_def split_beta access_defs)

lemma VADD_effect:
  fixes t :: target and rsp :: CPUState and e vd vs vt :: nat
  defines "s \<equiv> RSP_VADD t e rsp vd vs vt"
    and "r \<equiv> rsp_vadd (LOAD_VS rsp vs) (LOAD_VT t e rsp vt) (read_vco_lo (flags (cp2 rsp) 0))"
  shows "load_si128 (regs (cp2 s) vd) 0 = fst r" "load_si128 (acc (cp2 s)) 16 = snd r"
    "rsp_get_flags (flags (cp2 s) 0) = 0" "q \<noteq> vd \<Longrightarrow> regs (cp2 s) q = regs (cp2 rsp) q"
  by (simp_all add: s_def r_def RSP_VADD_def Let_def split_beta access_defs get_flags_zero)

lemma VSUB_effect:
  fixes t :: target and rsp :: CPUState and e vd vs vt :: nat
  defines "s \<equiv> RSP_VSUB t e rsp vd vs vt"
    and "r \<equiv> rsp_vsub (LOAD_VS rsp vs) (LOAD_VT t e rsp vt) (read_vco_lo (flags (cp2 rsp) 0))"
  shows "load_si128 (regs (cp2 s) vd) 0 = fst r" "load_si128 (acc (cp2 s)) 16 = snd r"
    "rsp_get_flags (flags (cp2 s) 0) = 0" "q \<noteq> vd \<Longrightarrow> regs (cp2 s) q = regs (cp2 rsp) q"
  by (simp_all add: s_def r_def RSP_VSUB_def Let_def split_beta access_defs get_flags_zero)

lemma element_of_load: "i < 8 \<Longrightarrow> load_si128 p off = v \<Longrightarrow> p (off + i) = lane v i"
  using lane_load_si128 by metis

text \<open>C11: thirty-two bit arithmetic through the processor state. VADDC on the low registers followed by VADD on the
  high ones (VSUBC and VSUB alike) leaves the low half of the 32 bit sum (difference) in the low destination and the
  high half in the accumulator, with the operand \<open>vt\<close> read through the element selector; the carry travels in VCO,
  which is clear afterwards.\<close>

theorem extended_arithmetic_in_state:
  fixes t :: target and rsp :: CPUState and vdl vsl vtl vdh vsh vth :: nat
  assumes "e < 16" "i < 8" "vdl \<noteq> vsh" "vdl \<noteq> vth" "vdl \<noteq> vdh"
  defines "X \<equiv> pair32 (regs (cp2 rsp) vsh i) (regs (cp2 rsp) vsl i)"
    and "Y \<equiv> pair32 (regs (cp2 rsp) vth (shuffle_index e i)) (regs (cp2 rsp) vtl (shuffle_index e i))"
    and "add \<equiv> RSP_VADD t e (RSP_VADDC t e rsp vdl vsl vtl) vdh vsh vth"
    and "sub \<equiv> RSP_VSUB t e (RSP_VSUBC t e rsp vdl vsl vtl) vdh vsh vth"
  shows "pair32 (acc (cp2 add) (16 + i)) (regs (cp2 add) vdl i) = (X + Y) mod 2 ^ 32
    \<and> pair32 (acc (cp2 sub) (16 + i)) (regs (cp2 sub) vdl i) = (X - Y) mod 2 ^ 32
    \<and> rsp_get_flags (flags (cp2 add) 0) = 0 \<and> rsp_get_flags (flags (cp2 sub) 0) = 0"
proof -
  have addl: "regs (cp2 add) vdl i = lane (fst (rsp_vaddc (LOAD_VS rsp vsl) (LOAD_VT t e rsp vtl) 0)) i"
    using element_of_load [OF assms(2) VADDC_effect(1) [of t e rsp vdl vsl vtl]] assms(5)
    by (simp add: add_def VADD_effect)
  have subl: "regs (cp2 sub) vdl i = lane (fst (rsp_vsubc (LOAD_VS rsp vsl) (LOAD_VT t e rsp vtl) 0)) i"
    using element_of_load [OF assms(2) VSUBC_effect(1) [of t e rsp vdl vsl vtl]] assms(5)
    by (simp add: sub_def VSUB_effect)
  have loads: "LOAD_VS (RSP_VADDC t e rsp vdl vsl vtl) vsh = LOAD_VS rsp vsh"
    "LOAD_VT t e (RSP_VADDC t e rsp vdl vsl vtl) vth = LOAD_VT t e rsp vth"
    "LOAD_VS (RSP_VSUBC t e rsp vdl vsl vtl) vsh = LOAD_VS rsp vsh"
    "LOAD_VT t e (RSP_VSUBC t e rsp vdl vsl vtl) vth = LOAD_VT t e rsp vth"
    using assms(3,4) by (auto intro!: LOAD_cong simp: VADDC_effect VSUBC_effect)
  note addh = element_of_load [OF assms(2) VADD_effect(2) [of t e "RSP_VADDC t e rsp vdl vsl vtl" vdh vsh vth]]
  note subh = element_of_load [OF assms(2) VSUB_effect(2) [of t e "RSP_VSUBC t e rsp vdl vsl vtl" vdh vsh vth]]
  show ?thesis
    unfolding addl subl X_def Y_def
    using assms(1,2) addh subh
    by (simp add: add_def sub_def VADD_effect VSUB_effect loads VADDC_effect VSUBC_effect
        vadd_lane vaddc_lane vsub_lane vsubc_lane lane_LOAD_VS lane_LOAD_VT pair32_add pair32_sub)
qed

theorem extended_arithmetic_in_state_witness:
  "pair32 (acc (cp2 (RSP_VADD \<lparr>has_ssse3 = False, has_sse41 = False, undef_xmm = 0\<rparr> 0
     (RSP_VADDC \<lparr>has_ssse3 = False, has_sse41 = False, undef_xmm = 0\<rparr> 0 reset_state 1 2 3) 4 5 6)) (16 + 2))
     (regs (cp2 (RSP_VADD \<lparr>has_ssse3 = False, has_sse41 = False, undef_xmm = 0\<rparr> 0
     (RSP_VADDC \<lparr>has_ssse3 = False, has_sse41 = False, undef_xmm = 0\<rparr> 0 reset_state 1 2 3) 4 5 6)) 1 2) = 0"
  using extended_arithmetic_in_state [where e = 0 and i = 2 and vdl = 1 and vsl = 2 and vtl = 3 and vdh = 4 and vsh = 5
    and vth = 6 and rsp = reset_state and t = "\<lparr>has_ssse3 = False, has_sse41 = False, undef_xmm = 0\<rparr>"]
  by (simp add: reset_state_def pair32_def)

lemma store_load_si128 [simp]: "store_si128 p off (load_si128 p off) = p"
  by (rule ext) (auto simp: store_si128_def lane_simps)

text \<open>What the two halves of a divide do to the state: the high instruction latches its operand and arms double
  precision, the low one consumes the latch if it is armed, and disarms it.\<close>

lemma divide_high_effect:
  fixes t :: target and rsp :: CPUState and e vd vs vt :: nat
  assumes "h = RSP_VRCPH \<or> h = RSP_VRSQH"
  shows "cp2 (h t e rsp vd vs vt) =
    (cp2 rsp)\<lparr>regs := (regs (cp2 rsp))(vd := (regs (cp2 rsp) vd)(vs mod 8 := div_out (cp2 rsp))),
      acc := write_acc_lo (acc (cp2 rsp)) (LOAD_VT t e rsp vt), div_in := regs (cp2 rsp) vt (e mod 8), dp_flag := 1\<rparr>"
  using assms by (auto simp: RSP_VRCPH_def RSP_VRSQH_def Let_def rsp_vdivh_def set_acc_def set_dp_flag_def
      STORE_RESULT_def write_element_def access_defs)

lemma divide_low_effect:
  fixes t :: target and rsp :: CPUState and e vd vs vt :: nat
  assumes "(V, h) = (False, RSP_VRCPL) \<or> (V, h) = (True, RSP_VRSQL)"
  defines "x \<equiv> regs (cp2 rsp) vt (e mod 8)"
  defines "r \<equiv> vrcp_vrsq_result V (if dp_flag (cp2 rsp) AND 1 \<noteq> 0
      then push_bit 16 (scast (div_in (cp2 rsp))) OR ucast x else scast x)"
  shows "cp2 (h t e rsp vd vs vt) =
    (cp2 rsp)\<lparr>regs := (regs (cp2 rsp))(vd := (regs (cp2 rsp) vd)(vs mod 8 := ucast r)),
      acc := write_acc_lo (acc (cp2 rsp)) (LOAD_VT t e rsp vt), div_out := ucast (signed_drop_bit 16 r), dp_flag := 0\<rparr>"
  using assms(1) unfolding r_def x_def
  by (auto simp: RSP_VRCPL_def RSP_VRSQL_def Let_def rsp_vrcp_vrsq_def set_acc_def set_dp_flag_def
      STORE_RESULT_def write_element_def access_defs)

text \<open>C14: double precision divide. VRCPH (VRSQH) on the high half of a 32 bit operand, VRCPL (VRSQL) on the low half,
  and a second high instruction deliver the two halves of the 32 bit reciprocal (square root) of the whole operand: the
  low half in the destination element of the low instruction, the high half in that of the last one. The latch is used
  once: the low instruction disarms it, and a low instruction that follows takes its operand alone, sign extended, as does any low
  instruction while the latch is disarmed.\<close>

theorem double_precision_divide:
  fixes t :: target and rsp :: CPUState and e1 e2 e3 e4 vs vt1 vs2 vs3 vt3 vs4 vt4 :: nat
  assumes "(V, hi, lo) = (False, RSP_VRCPH, RSP_VRCPL) \<or> (V, hi, lo) = (True, RSP_VRSQH, RSP_VRSQL)"
    and "vd \<noteq> vt2" "vd3 \<noteq> vd2"
  defines "s1 \<equiv> hi t e1 rsp vd vs vt1"
  defines "s2 \<equiv> lo t e2 s1 vd2 vs2 vt2"
  defines "s3 \<equiv> hi t e3 s2 vd3 vs3 vt3"
  defines "x \<equiv> push_bit 16 (scast (regs (cp2 rsp) vt1 (e1 mod 8))) OR ucast (regs (cp2 rsp) vt2 (e2 mod 8)) :: u32"
    and "y \<equiv> regs (cp2 rsp) vt2 (e2 mod 8)"
  shows "regs (cp2 s3) vd2 (vs2 mod 8) = ucast (vrcp_vrsq_result V x)
    \<and> regs (cp2 s3) vd3 (vs3 mod 8) = ucast (signed_drop_bit 16 (vrcp_vrsq_result V x))
    \<and> dp_flag (cp2 s2) = 0
    \<and> regs (cp2 (lo t e4 s2 vd4 vs4 vt4)) vd4 (vs4 mod 8) = ucast (vrcp_vrsq_result V (scast (regs (cp2 s2) vt4 (e4 mod 8))))
    \<and> (dp_flag (cp2 rsp) = 0 \<longrightarrow>
         regs (cp2 (lo t e2 rsp vd2 vs2 vt2)) vd2 (vs2 mod 8) = ucast (vrcp_vrsq_result V (scast y)))"
proof -
  have h: "hi = RSP_VRCPH \<or> hi = RSP_VRSQH" and l: "(V, lo) = (False, RSP_VRCPL) \<or> (V, lo) = (True, RSP_VRSQL)"
    using assms(1) by auto
  have off: "dp_flag (cp2 s2) = 0" unfolding s2_def divide_low_effect [OF l] by simp
  then have alone: "regs (cp2 (lo t e4 s2 vd4 vs4 vt4)) vd4 (vs4 mod 8) = ucast (vrcp_vrsq_result V (scast (regs (cp2 s2) vt4 (e4 mod 8))))"
    unfolding divide_low_effect [OF l] by simp
  have "regs (cp2 s3) vd2 (vs2 mod 8) = ucast (vrcp_vrsq_result V x) \<and> regs (cp2 s3) vd3 (vs3 mod 8) = ucast (signed_drop_bit 16 (vrcp_vrsq_result V x))
      \<and> (dp_flag (cp2 rsp) = 0 \<longrightarrow> regs (cp2 (lo t e2 rsp vd2 vs2 vt2)) vd2 (vs2 mod 8) = ucast (vrcp_vrsq_result V (scast y)))"
    using assms(2,3) unfolding s3_def s2_def s1_def x_def y_def divide_high_effect [OF h] divide_low_effect [OF l] by simp
  then show ?thesis using off alone by blast
qed

theorem double_precision_divide_witness:
  "regs (cp2 (RSP_VRCPL \<lparr>has_ssse3 = True, has_sse41 = True, undef_xmm = 0\<rparr> 0 reset_state 4 0 5)) 4 0 = 0xffff"
  using double_precision_divide [where V = False and hi = RSP_VRCPH and lo = RSP_VRCPL and vd = 1 and ?vt2.0 = 5
    and ?vd3.0 = 6 and ?vd2.0 = 4 and t = "\<lparr>has_ssse3 = True, has_sse41 = True, undef_xmm = 0\<rparr>" and ?e1.0 = 0
    and rsp = reset_state and vs = 0 and ?vt1.0 = 2 and ?e2.0 = 0 and ?vs2.0 = 0 and ?e3.0 = 0 and ?vs3.0 = 0 and ?vt3.0 = 0]
  by (simp add: reset_state_def vrcp_vrsq_result_def data_word)

end
