(* ===== verification/Ls.thy ===== *)
theory Ls
  imports Vu
begin

unbundle bit_operations_syntax

text \<open>
  The vector loads and stores of \<open>rsp/ls.cpp\<close> with the byte access macros of \<open>rsp_common.h\<close>. DMEM holds big-endian
  words in host order, so a byte address is flipped by \<open>BES\<close>; a vector element is a host half word, so a byte of a
  vector is flipped by \<open>MES\<close>. The compiler accepts the vector extensions (\<open>USE_VEC_OPTS\<close>), so their fast paths are
  part of the model; the one that also wants SSSE3 depends on the target. A loop carries the state and its running
  address; loop bounds that are unsigned expressions are computed at 32 bits.
\<close>

section \<open>Byte access\<close>

definition BES :: "nat \<Rightarrow> nat" where
  "BES x = x XOR 3"

definition HES :: "nat \<Rightarrow> nat" where
  "HES x = x XOR 2"

definition MES :: "nat \<Rightarrow> nat" where
  "MES x = x XOR 1"

definition READ_MEM_U8 :: "(nat \<Rightarrow> u8) \<Rightarrow> u32 \<Rightarrow> u8" where
  "READ_MEM_U8 mem addr = mem (BES (unat addr))"

definition WRITE_MEM_U8 :: "(nat \<Rightarrow> u8) \<Rightarrow> u32 \<Rightarrow> u8 \<Rightarrow> nat \<Rightarrow> u8" where
  "WRITE_MEM_U8 mem addr data = mem(BES (unat addr) := data)"

definition host_u16 :: "(nat \<Rightarrow> u8) \<Rightarrow> nat \<Rightarrow> u16" where
  "host_u16 mem k = ucast (mem (2 * k)) OR push_bit 8 (ucast (mem (2 * k + 1)))"

definition set_host_u16 :: "(nat \<Rightarrow> u8) \<Rightarrow> nat \<Rightarrow> u16 \<Rightarrow> nat \<Rightarrow> u8" where
  "set_host_u16 mem k x = mem(2 * k := ucast x, 2 * k + 1 := ucast (drop_bit 8 x))"

definition WRITE_MEM_U16 :: "(nat \<Rightarrow> u8) \<Rightarrow> u32 \<Rightarrow> u16 \<Rightarrow> nat \<Rightarrow> u8" where
  "WRITE_MEM_U16 mem addr data = set_host_u16 mem (HES (unat addr) div 2) data"

definition vec_u8 :: "(nat \<Rightarrow> u16) \<Rightarrow> nat \<Rightarrow> u8" where
  "vec_u8 p k = (if even k then ucast (p (k div 2)) else ucast (drop_bit 8 (p (k div 2))))"

definition set_vec_u8 :: "(nat \<Rightarrow> u16) \<Rightarrow> nat \<Rightarrow> u8 \<Rightarrow> nat \<Rightarrow> u16" where
  "set_vec_u8 p k b =
     p(k div 2 := (if even k then (p (k div 2) AND 0xff00) OR ucast b
                   else (p (k div 2) AND 0x00ff) OR push_bit 8 (ucast b)))"

definition READ_VEC_U8 :: "(nat \<Rightarrow> u16) \<Rightarrow> nat \<Rightarrow> u8" where
  "READ_VEC_U8 v addr = vec_u8 v (MES addr)"

definition WRITE_VEC_U8 :: "(nat \<Rightarrow> u16) \<Rightarrow> nat \<Rightarrow> u8 \<Rightarrow> nat \<Rightarrow> u16" where
  "WRITE_VEC_U8 v addr data = set_vec_u8 v (MES addr) data"

definition set_reg :: "nat \<Rightarrow> ((nat \<Rightarrow> u16) \<Rightarrow> nat \<Rightarrow> u16) \<Rightarrow> CPUState \<Rightarrow> CPUState" where
  "set_reg rt f rsp = rsp\<lparr>cp2 := (cp2 rsp)\<lparr>regs := (regs (cp2 rsp))(rt := f (regs (cp2 rsp) rt))\<rparr>\<rparr>"

definition set_dmem :: "((nat \<Rightarrow> u8) \<Rightarrow> nat \<Rightarrow> u8) \<Rightarrow> CPUState \<Rightarrow> CPUState" where
  "set_dmem f rsp = rsp\<lparr>dmem := f (dmem rsp)\<rparr>"

section \<open>Loops\<close>

text \<open>\<open>for (i = from; i < to; i++) WRITE_VEC_U8(regs[rt], i & 0xf, READ_MEM_U8(dmem, addr++ & 0xfff))\<close>\<close>

definition load_bytes :: "nat \<Rightarrow> nat \<Rightarrow> nat \<Rightarrow> u32 \<Rightarrow> CPUState \<Rightarrow> CPUState" where
  "load_bytes rt from to addr rsp =
     fst (fold (\<lambda>i (rsp, addr).
       (set_reg rt (\<lambda>v. WRITE_VEC_U8 v (i mod 16) (READ_MEM_U8 (dmem rsp) (addr AND 0xfff))) rsp, addr + 1))
       [from..<to] (rsp, addr))"

text \<open>\<open>for (i = from; i < to; i++) WRITE_MEM_U8(dmem, addr++, READ_VEC_U8(regs[rt], (i + shift) & 0xf))\<close>\<close>

definition store_bytes :: "nat \<Rightarrow> nat \<Rightarrow> nat \<Rightarrow> nat \<Rightarrow> u32 \<Rightarrow> CPUState \<Rightarrow> CPUState" where
  "store_bytes rt shift from to addr rsp =
     fst (fold (\<lambda>i (rsp, addr).
       (set_dmem (\<lambda>m. WRITE_MEM_U8 m addr (READ_VEC_U8 (regs (cp2 rsp) rt) ((i + shift) mod 16))) rsp, addr + 1))
       [from..<to] (rsp, addr))"

type_synonym ls_handler = "target \<Rightarrow> nat \<Rightarrow> CPUState \<Rightarrow> nat \<Rightarrow> int \<Rightarrow> nat \<Rightarrow> CPUState"

section \<open>Scalar element loads and stores\<close>

definition RSP_LBV :: ls_handler where
  "RSP_LBV t e rsp rt offset base =
     (let addr = (sr rsp base + word_of_int (offset * 1)) AND 0xfff
      in set_reg rt (\<lambda>v. set_vec_u8 v (MES e) (READ_MEM_U8 (dmem rsp) addr)) rsp)"

definition RSP_SBV :: ls_handler where
  "RSP_SBV t e rsp rt offset base =
     (let addr = (sr rsp base + word_of_int (offset * 1)) AND 0xfff;
          v = vec_u8 (regs (cp2 rsp) rt) (MES e)
      in set_dmem (\<lambda>m. WRITE_MEM_U8 m addr v) rsp)"

definition RSP_LSV :: ls_handler where
  "RSP_LSV t e rsp rt offset base =
     (let addr = sr rsp base + word_of_int (offset * 2);
          end' = (if e > 14 then 16 else e + 2)
      in load_bytes rt e end' addr rsp)"

definition RSP_SSV :: ls_handler where
  "RSP_SSV t e rsp rt offset base =
     (let addr = (sr rsp base + word_of_int (offset * 2)) AND 0xfff;
          v0 = vec_u8 (regs (cp2 rsp) rt) (MES e);
          v1 = vec_u8 (regs (cp2 rsp) rt) (MES ((e + 1) mod 16));
          rsp = set_dmem (\<lambda>m. WRITE_MEM_U8 m addr v0) rsp
      in set_dmem (\<lambda>m. WRITE_MEM_U8 m ((addr + 1) AND 0xfff) v1) rsp)"

definition RSP_LLV :: ls_handler where
  "RSP_LLV t e rsp rt offset base =
     (let addr = (sr rsp base + word_of_int (offset * 4)) AND 0xfff;
          end' = (if e > 12 then 16 else e + 4)
      in if e mod 4 = 0 \<and> addr AND 3 = 0 then
           let k = unat addr div 4 * 2; v0 = host_u16 (dmem rsp) k; v1 = host_u16 (dmem rsp) (k + 1)
           in set_reg rt (\<lambda>r. r(e div 2 := v1, e div 2 + 1 := v0)) rsp
         else load_bytes rt e end' addr rsp)"

definition RSP_SLV :: ls_handler where
  "RSP_SLV t e rsp rt offset base =
     (let addr = (sr rsp base + word_of_int (offset * 4)) AND 0xfff
      in store_bytes rt 0 e (e + 4) addr rsp)"

definition RSP_LDV :: ls_handler where
  "RSP_LDV t e rsp rt offset base =
     (let addr = sr rsp base + word_of_int (offset * 8);
          end' = (if e > 8 then 16 else e + 8)
      in if (e = 0 \<or> e = 8) \<and> addr AND 7 = 0 then
           let addr = addr AND 0xfff; k = unat addr div 4 * 2; v = host_u16 (dmem rsp)
           in set_reg rt (\<lambda>r. r(e div 2 := v (k + 1), e div 2 + 1 := v k,
                e div 2 + 2 := v (k + 3), e div 2 + 3 := v (k + 2))) rsp
         else load_bytes rt e end' addr rsp)"

definition RSP_SDV :: ls_handler where
  "RSP_SDV t e rsp rt offset base =
     (let addr = (sr rsp base + word_of_int (offset * 8)) AND 0xfff
      in if e > 8 \<or> odd e \<or> addr AND 1 \<noteq> 0 then
           fold (\<lambda>i rsp. set_dmem (\<lambda>m. WRITE_MEM_U8 m ((addr + word_of_nat i) AND 0xfff)
               (vec_u8 (regs (cp2 rsp) rt) (MES ((e + i) mod 16)))) rsp) [0..<8] rsp
         else if (e = 0 \<or> e = 8) \<and> addr AND 7 = 0 then
           let v = (\<lambda>j. regs (cp2 rsp) rt (e div 2 + j)); k = unat addr div 4 * 2
           in set_dmem (\<lambda>m. set_host_u16 (set_host_u16 (set_host_u16 (set_host_u16 m
                k (v 1)) (k + 1) (v 0)) (k + 2) (v 3)) (k + 3) (v 2)) rsp
         else
           let e' = e div 2
           in fold (\<lambda>i rsp. set_dmem (\<lambda>m. WRITE_MEM_U16 m ((addr + word_of_nat (2 * i)) AND 0xfff)
                (regs (cp2 rsp) rt (e' + i))) rsp) [0..<4] rsp)"

section \<open>Packed loads and stores\<close>

definition RSP_LPV :: ls_handler where
  "RSP_LPV t e rsp rt offset base =
     (let addr = (sr rsp base + word_of_int (offset * 8)) AND 0xfff
      in if has_ssse3 t \<and> e = 0 \<and> addr AND 7 = 0 then
           let k = unat addr div 4 * 4; v = (\<lambda>j. dmem rsp (k + j));
               vsh = (\<lambda>i. push_bit 8 (ucast (v ([3, 2, 1, 0, 7, 6, 5, 4] ! i)) :: u16))
           in set_reg rt (\<lambda>r i. if i < 8 then vsh i else r i) rsp
         else
           let index = (addr AND 7) - word_of_nat e; addr = addr AND NOT 7
           in fold (\<lambda>i rsp. set_reg rt (\<lambda>r. r(i := push_bit 8 (ucast
                (READ_MEM_U8 (dmem rsp) ((addr + ((word_of_nat i + index) AND 0xf)) AND 0xfff))))) rsp) [0..<8] rsp)"

definition RSP_SPV :: ls_handler where
  "RSP_SPV t e rsp rt offset base =
     (let addr = (sr rsp base + word_of_int (offset * 8)) AND 0xfff
      in fst (fold (\<lambda>i (rsp, addr).
           let shift = (if i mod 16 < 8 then 8 else 7)
           in (set_dmem (\<lambda>m. WRITE_MEM_U8 m (addr AND 0xfff)
                 (ucast (signed_drop_bit shift (regs (cp2 rsp) rt (i mod 8))))) rsp, addr + 1))
           [e..<e + 8] (rsp, addr)))"

definition RSP_LUV :: ls_handler where
  "RSP_LUV t e rsp rt offset base =
     (let addr = (sr rsp base + word_of_int (offset * 8)) AND 0xfff;
          index = (addr AND 7) - word_of_nat e; addr = addr AND NOT 7
      in fold (\<lambda>i rsp. set_reg rt (\<lambda>r. r(i := push_bit 7 (ucast
           (READ_MEM_U8 (dmem rsp) ((addr + ((word_of_nat i + index) AND 0xf)) AND 0xfff))))) rsp) [0..<8] rsp)"

definition RSP_SUV :: ls_handler where
  "RSP_SUV t e rsp rt offset base =
     (let addr = (sr rsp base + word_of_int (offset * 8)) AND 0xfff
      in fst (fold (\<lambda>i (rsp, addr).
           let shift = (if i mod 16 < 8 then 7 else 8)
           in (set_dmem (\<lambda>m. WRITE_MEM_U8 m (addr AND 0xfff)
                 (ucast (signed_drop_bit shift (regs (cp2 rsp) rt (i mod 8))))) rsp, addr + 1))
           [e..<e + 8] (rsp, addr)))"

definition RSP_LHV :: ls_handler where
  "RSP_LHV t e rsp rt offset base =
     (let addr = sr rsp base + word_of_int (offset * 16);
          index = (addr AND 7) - word_of_nat e; addr = addr AND NOT 7
      in fold (\<lambda>i rsp. set_reg rt (\<lambda>r. r(i := push_bit 7 (ucast
           (READ_MEM_U8 (dmem rsp) ((addr + ((index + word_of_nat (i * 2)) AND 0xf)) AND 0xfff))))) rsp) [0..<8] rsp)"

definition RSP_SHV :: ls_handler where
  "RSP_SHV t e rsp rt offset base =
     (let addr = (sr rsp base + word_of_int (offset * 16)) AND 0xfff;
          index = addr AND 7; addr = addr AND NOT 7
      in fold (\<lambda>i rsp.
           let reg = regs (cp2 rsp) rt; b = e + 2 * i;
               byte = push_bit 1 (READ_VEC_U8 reg (b mod 16)) OR drop_bit 7 (READ_VEC_U8 reg ((b + 1) mod 16))
           in set_dmem (\<lambda>m. WRITE_MEM_U8 m (addr + ((index + word_of_nat (i * 2)) AND 0xf)) byte) rsp) [0..<8] rsp)"

definition RSP_LFV :: ls_handler where
  "RSP_LFV t e rsp rt offset base =
     (let addr = sr rsp base + word_of_int (offset * 16);
          index = (addr AND 7) - word_of_nat e;
          end' = (if e > 8 then 16 else e + 8);
          addr = addr AND NOT 7;
          byte = (\<lambda>k. push_bit 7 (ucast (READ_MEM_U8 (dmem rsp) ((addr + ((index + word_of_nat k) AND 0xf)) AND 0xfff)) :: u16));
          temp = (\<lambda>i. if i < 4 then byte (i * 4) else byte ((i - 4) * 4 + 8))
      in fold (\<lambda>i rsp. set_reg rt (\<lambda>v. WRITE_VEC_U8 v i (READ_VEC_U8 temp i)) rsp) [e..<end'] rsp)"

definition sfv_elements :: "nat \<Rightarrow> (nat \<times> nat \<times> nat \<times> nat) option" where
  "sfv_elements e =
     (if e = 0 \<or> e = 15 then Some (0, 1, 2, 3) else if e = 1 then Some (6, 7, 4, 5)
      else if e = 4 then Some (1, 2, 3, 0) else if e = 5 then Some (7, 4, 5, 6)
      else if e = 8 then Some (4, 5, 6, 7) else if e = 11 then Some (3, 0, 1, 2)
      else if e = 12 then Some (5, 6, 7, 4) else None)"

definition RSP_SFV :: ls_handler where
  "RSP_SFV t e rsp rt offset base =
     (let addr = (sr rsp base + word_of_int (offset * 16)) AND 0xfff;
          base = addr AND 7; addr = addr AND NOT 7;
          reg = regs (cp2 rsp) rt;
          byte = (\<lambda>k. ucast (signed_drop_bit 7 (reg k)) :: u8);
          (x0, x1, x2, x3) = (case sfv_elements e of Some (a, b, c, d) \<Rightarrow> (byte a, byte b, byte c, byte d)
                              | None \<Rightarrow> (0, 0, 0, 0));
          rsp = set_dmem (\<lambda>m. WRITE_MEM_U8 m (addr + base) x0) rsp;
          rsp = set_dmem (\<lambda>m. WRITE_MEM_U8 m (addr + 4 + base) x1) rsp;
          rsp = set_dmem (\<lambda>m. WRITE_MEM_U8 m (addr + ((8 + base) AND 0xf)) x2) rsp
      in set_dmem (\<lambda>m. WRITE_MEM_U8 m (addr + ((12 + base) AND 0xf)) x3) rsp)"

definition RSP_LWV :: ls_handler where
  "RSP_LWV t e rsp rt offset base =
     (let addr = sr rsp base + word_of_int (offset * 16)
      in fst (fold (\<lambda>i (rsp, addr).
           (set_reg rt (\<lambda>v. WRITE_VEC_U8 v (i mod 16) (READ_MEM_U8 (dmem rsp) (addr AND 0xfff))) rsp, addr + 4))
           [16 - e..<16 + e] (rsp, addr)))"

definition RSP_SWV :: ls_handler where
  "RSP_SWV t e rsp rt offset base =
     (let addr = (sr rsp base + word_of_int (offset * 16)) AND 0xfff;
          base = addr AND 7; addr = addr AND NOT 7
      in fst (fold (\<lambda>i (rsp, base).
           (set_dmem (\<lambda>m. WRITE_MEM_U8 m (addr + (base AND 0xf)) (READ_VEC_U8 (regs (cp2 rsp) rt) (i mod 16))) rsp, base + 1))
           [e..<e + 16] (rsp, base)))"

section \<open>Quad loads and stores\<close>

definition RSP_LQV :: ls_handler where
  "RSP_LQV t e rsp rt offset base =
     (let addr = sr rsp base + word_of_int (offset * 16)
      in if addr AND 0xf = 0 then
           let addr = addr AND 0xfff;
               end' = (let end' = 16 + e in if end' > 16 then 16 else end')
           in if e = 0 then
                let k = unat addr div 4 * 2; v = host_u16 (dmem rsp)
                in set_reg rt (\<lambda>r i. if i < 8 then v (k + [1, 0, 3, 2, 5, 4, 7, 6] ! i) else r i) rsp
              else
                fst (fold (\<lambda>i (rsp, addr).
                  (set_reg rt (\<lambda>v. WRITE_VEC_U8 v (i mod 16) (READ_MEM_U8 (dmem rsp) addr)) rsp, addr + 1))
                  [e..<end'] (rsp, addr))
         else
           let end' = (let end' = 16 + e - unat (addr AND 0xf) in if end' > 16 then 16 else end')
           in load_bytes rt e end' addr rsp)"

definition RSP_SQV :: ls_handler where
  "RSP_SQV t e rsp rt offset base =
     (let addr = (sr rsp base + word_of_int (offset * 16)) AND 0xfff
      in if addr AND 0xf = 0 then
           let end' = e + 16
           in if e = 0 then
                let v = regs (cp2 rsp) rt; k = unat addr div 4 * 2
                in set_dmem (\<lambda>m. fold (\<lambda>j m. set_host_u16 m (k + j) (v ([1, 0, 3, 2, 5, 4, 7, 6] ! j))) [0..<8] m) rsp
              else store_bytes rt 0 e end' addr rsp
         else
           let end' = e + (16 - unat (addr AND 15))
           in store_bytes rt 0 e end' addr rsp)"

definition RSP_LRV :: ls_handler where
  "RSP_LRV t e rsp rt offset base =
     (let addr = sr rsp base + word_of_int (offset * 16)
      in if addr AND 0xf = 0 then
           let addr = addr AND 0xfff; start = 16 + e
           in fst (fold (\<lambda>i (rsp, addr).
                (set_reg rt (\<lambda>v. WRITE_VEC_U8 v (i mod 16) (READ_MEM_U8 (dmem rsp) addr)) rsp, addr + 1))
                [start..<16] (rsp, addr))
         else
           let start = unat (16 - ((addr AND 0xf) - word_of_nat e)); addr = addr AND NOT 0xf
           in load_bytes rt start 16 addr rsp)"

definition RSP_SRV :: ls_handler where
  "RSP_SRV t e rsp rt offset base =
     (let addr = (sr rsp base + word_of_int (offset * 16)) AND 0xfff
      in if addr AND 0xf = 0 then
           let end' = e
           in store_bytes rt 16 e end' addr rsp
         else
           let end' = e + unat (addr AND 0xf); shift = 16 - unat (addr AND 0xf); addr = addr AND NOT 0xf
           in store_bytes rt shift e end' addr rsp)"

section \<open>Transposed loads and stores\<close>

definition RSP_LTV :: ls_handler where
  "RSP_LTV t e rsp rt offset base =
     (let addr = sr rsp base + word_of_int (offset * 16);
          start = addr AND NOT 7;
          vt0 = rt - rt mod 8;
          addr = start + ((word_of_nat e + (addr AND 8)) AND 0xf);
          step = (\<lambda>i (rsp, addr, j).
            let j = j mod 8;
                rsp = set_reg (vt0 + j) (\<lambda>v. WRITE_VEC_U8 v (2 * i) (READ_MEM_U8 (dmem rsp) (addr AND 0xfff))) rsp;
                addr = addr + 1; addr = (if addr = start + 16 then start else addr);
                rsp = set_reg (vt0 + j) (\<lambda>v. WRITE_VEC_U8 v (2 * i + 1) (READ_MEM_U8 (dmem rsp) (addr AND 0xfff))) rsp;
                addr = addr + 1; addr = (if addr = start + 16 then start else addr)
            in (rsp, addr, j + 1))
      in fst (fold step [0..<8] (rsp, addr, e div 2)))"

definition RSP_STV :: ls_handler where
  "RSP_STV t e rsp rt offset base =
     (let e' = e - e mod 2;
          rt = rt - rt mod 8;
          addr = (sr rsp base + word_of_int (offset * 16)) AND 0xfff;
          element = 16 - e';
          base = (addr AND 7) - word_of_nat e';
          addr = addr AND NOT 7;
          step = (\<lambda>i (rsp, base, element).
            let rsp = set_dmem (\<lambda>m. WRITE_MEM_U8 m (addr + (base AND 0xf)) (READ_VEC_U8 (regs (cp2 rsp) i) (element mod 16))) rsp;
                base = base + 1; element = element + 1;
                rsp = set_dmem (\<lambda>m. WRITE_MEM_U8 m (addr + (base AND 0xf)) (READ_VEC_U8 (regs (cp2 rsp) i) (element mod 16))) rsp;
                base = base + 1; element = element + 1
            in (rsp, base, element))
      in fst (fold step [rt..<rt + 8] (rsp, base, element)))"

section \<open>Operands\<close>

text \<open>The packed operand word of a load or store (\<open>PackedLS\<close>).\<close>

definition unpack_ls :: "u32 \<Rightarrow> int \<times> nat \<times> nat" where
  "unpack_ls v = (sint (ucast v :: u16), unat (take_bit 8 (drop_bit 16 v)), unat (drop_bit 24 v))"

definition run_packed_ls :: "ls_handler \<Rightarrow> target \<Rightarrow> nat \<Rightarrow> CPUState \<Rightarrow> u32 \<Rightarrow> CPUState" where
  "run_packed_ls h t e rsp v = (case unpack_ls v of (offset, rt, base) \<Rightarrow> h t e rsp rt offset base)"

section \<open>Arrays\<close>

text \<open>What the loads and stores rely on: a value written at an address is read back there, and nothing else changes.
  A run of writes at distinct addresses then delivers each value to its address.\<close>

locale array_access =
  fixes rd :: "'m \<Rightarrow> 'a \<Rightarrow> 'b" and wr :: "'m \<Rightarrow> 'a \<Rightarrow> 'b \<Rightarrow> 'm"
  assumes rd_wr: "rd (wr m a b) c = (if c = a then b else rd m c)"
begin

lemma rd_run:
  assumes "inj_on f (set xs)"
  shows "rd (fold (\<lambda>x m. wr m (f x) (g x)) xs m) c =
    (if c \<in> f ` set xs then g (the_inv_into (set xs) f c) else rd m c)"
  using assms
proof (induction xs arbitrary: m rule: rev_induct)
  case (snoc x xs)
  have inj: "inj_on f (set xs)" "inj_on f (set (xs @ [x]))" using snoc.prems by (auto simp: inj_on_def)
  show ?case
  proof (cases "c = f x")
    case True
    then have "the_inv_into (set (xs @ [x])) f c = x"
      using inj(2) by (simp add: the_inv_into_f_f)
    then show ?thesis using True by (simp add: rd_wr)
  next
    case False
    have "the_inv_into (set (xs @ [x])) f c = the_inv_into (set xs) f c" if c: "c \<in> f ` set xs"
    proof -
      from c obtain y where "y \<in> set xs" "c = f y" by blast
      then show ?thesis using inj by (simp add: the_inv_into_f_f)
    qed
    then show ?thesis using False snoc.IH [OF inj(1)] by (simp add: rd_wr)
  qed
qed simp

lemma rd_run_at:
  assumes "inj_on f (set xs)" "x \<in> set xs"
  shows "rd (fold (\<lambda>x m. wr m (f x) (g x)) xs m) (f x) = g x"
  using assms by (simp add: rd_run the_inv_into_f_f)

lemma rd_run_other:
  assumes "c \<notin> f ` set xs"
  shows "rd (fold (\<lambda>x m. wr m (f x) (g x)) xs m) c = rd m c"
  using assms by (induction xs arbitrary: m) (auto simp: rd_wr)

end

lemma xor_flip: "(a XOR k) XOR k = (a :: nat)" "a XOR k = b XOR k \<longleftrightarrow> a = (b :: nat)"
proof -
  show e: "(a XOR k) XOR k = (a :: nat)" for a by (simp add: xor.assoc)
  show "a XOR k = b XOR k \<longleftrightarrow> a = b" by (metis e)
qed

lemma BES_inj: "BES a = BES b \<longleftrightarrow> a = b"
  by (simp add: BES_def xor_flip)

lemma MES_inj: "MES a = MES b \<longleftrightarrow> a = b"
  by (simp add: MES_def xor_flip)

interpretation mem: array_access READ_MEM_U8 WRITE_MEM_U8
  by unfold_locales (simp add: READ_MEM_U8_def WRITE_MEM_U8_def BES_inj word_unat_eq_iff)

lemma bit_ff00: "bit (0xff00 :: u16) n \<longleftrightarrow> 8 \<le> n \<and> n < 16" "bit (0x00ff :: u16) n \<longleftrightarrow> n < 8"
proof -
  have "\<forall>n \<in> set [0..<16]. (bit (0xff00 :: u16) n \<longleftrightarrow> 8 \<le> n) \<and> (bit (0x00ff :: u16) n \<longleftrightarrow> n < 8)" by code_simp
  then have "n < 16 \<Longrightarrow> (bit (0xff00 :: u16) n \<longleftrightarrow> 8 \<le> n) \<and> (bit (0x00ff :: u16) n \<longleftrightarrow> n < 8)" by simp
  then show "bit (0xff00 :: u16) n \<longleftrightarrow> 8 \<le> n \<and> n < 16" "bit (0x00ff :: u16) n \<longleftrightarrow> n < 8"
    using bit_imp_le_length [of "0xff00 :: u16" n] bit_imp_le_length [of "0x00ff :: u16" n] by (auto simp: not_less)
qed

lemma byte_splice:
  fixes x :: u16 and b :: u8
  shows "ucast ((x AND 0xff00) OR ucast b) = b" "ucast (drop_bit 8 ((x AND 0xff00) OR ucast b)) = (ucast (drop_bit 8 x) :: u8)"
    "ucast ((x AND 0x00ff) OR push_bit 8 (ucast b)) = (ucast x :: u8)" "ucast (drop_bit 8 ((x AND 0x00ff) OR push_bit 8 (ucast b))) = b"
proof -
  have b8: "bit b n \<Longrightarrow> n < 8" for n using bit_imp_le_length [of b n] by simp
  note r = bit_unsigned_iff bit_or_iff bit_and_iff bit_drop_bit_eq bit_push_bit_iff possible_bit_word bit_ff00 comp_def
  show "ucast ((x AND 0xff00) OR ucast b) = b"
    by (rule bit_word_eqI, unfold r) (auto dest: b8)
  show "ucast (drop_bit 8 ((x AND 0xff00) OR ucast b)) = (ucast (drop_bit 8 x) :: u8)"
    by (rule bit_word_eqI, unfold r) (auto dest: b8)
  show "ucast ((x AND 0x00ff) OR push_bit 8 (ucast b)) = (ucast x :: u8)"
    by (rule bit_word_eqI, unfold r) (auto dest: b8)
  show "ucast (drop_bit 8 ((x AND 0x00ff) OR push_bit 8 (ucast b))) = b"
    by (rule bit_word_eqI, unfold r) (auto dest: b8)
qed

lemma vec_u8_set: "vec_u8 (set_vec_u8 p k b) j = (if j = k then b else vec_u8 p j)"
proof (cases "j div 2 = k div 2")
  case True
  then have "j = k \<longleftrightarrow> (even j = even k)" by (metis even_two_times_div_two odd_two_times_div_two_succ)
  then show ?thesis using True 
    by (cases "even j"; cases "even k") (simp_all only: vec_u8_def set_vec_u8_def byte_splice fun_upd_same if_True if_False simp_thms)
next
  case False
  then show ?thesis by (auto simp: vec_u8_def set_vec_u8_def)
qed
interpretation vreg: array_access READ_VEC_U8 WRITE_VEC_U8
  by unfold_locales (simp add: READ_VEC_U8_def WRITE_VEC_U8_def vec_u8_set MES_inj)

section \<open>Loops as runs of byte moves\<close>

lemma state_updates [simp]:
  "dmem (set_reg rt f rsp) = dmem rsp" "sr (set_reg rt f rsp) = sr rsp"
  "regs (cp2 (set_reg rt f rsp)) r = (if r = rt then f (regs (cp2 rsp) rt) else regs (cp2 rsp) r)"
  "dmem (set_dmem g rsp) = g (dmem rsp)" "sr (set_dmem g rsp) = sr rsp" "cp2 (set_dmem g rsp) = cp2 rsp"
  by (simp_all add: set_reg_def set_dmem_def)

lemma set_reg_comp: "set_reg rt f (set_reg rt g rsp) = set_reg rt (\<lambda>v. f (g v)) rsp"
  and set_dmem_comp: "set_dmem h (set_dmem k rsp) = set_dmem (\<lambda>m. h (k m)) rsp"
  and set_reg_id: "set_reg rt (\<lambda>v. v) rsp = rsp" and set_dmem_id: "set_dmem (\<lambda>m. m) rsp = rsp"
  by (simp_all add: set_reg_def set_dmem_def)

lemma set_reg_eqI: "f (regs (cp2 rsp) rt) = g (regs (cp2 rsp) rt) \<Longrightarrow> set_reg rt f rsp = set_reg rt g rsp"
  by (simp add: set_reg_def)

lemma set_dmem_eqI: "f (dmem rsp) = g (dmem rsp) \<Longrightarrow> set_dmem f rsp = set_dmem g rsp"
  by (simp add: set_dmem_def)

lemma fold_cong_set: "(\<And>x. x \<in> set xs \<Longrightarrow> f x = g x) \<Longrightarrow> fold f xs = fold g xs"
  by (induction xs) simp_all

lemma fold_set_reg:
  "fold (\<lambda>i rsp. set_reg rt (f i rsp) rsp) xs rsp = set_reg rt (fold (\<lambda>i v. f i rsp v) xs) rsp"
  if "\<And>i g rsp. f i (set_reg rt g rsp) = f i rsp"
  using that
  by (induction xs arbitrary: rsp) (simp_all add: set_reg_id set_reg_comp comp_def id_def)

lemma fold_set_dmem:
  "fold (\<lambda>i rsp. set_dmem (f i rsp) rsp) xs rsp = set_dmem (fold (\<lambda>i m. f i rsp m) xs) rsp"
  if "\<And>i g rsp. f i (set_dmem g rsp) = f i rsp"
  using that
  by (induction xs arbitrary: rsp) (simp_all add: set_dmem_id set_dmem_comp comp_def id_def)

text \<open>A loop that carries a running address is a loop over addresses computed from the index.\<close>

lemma fold_running:
  fixes a :: "'w::len word"
  shows "fold (\<lambda>i (s, a). (f i a s, a + c)) [from..<to] (s, a) =
    (fold (\<lambda>i s. f i (a + c * word_of_nat (i - from)) s) [from..<to] s, a + c * word_of_nat (to - from))"
proof (induction to)
  case (Suc to)
  then show ?case
    by (cases "from \<le> to") (simp_all add: Suc_diff_le algebra_simps)
qed simp

lemma load_bytes_run:
  "load_bytes rt from to addr rsp = set_reg rt (fold (\<lambda>i v. WRITE_VEC_U8 v (i mod 16)
     (READ_MEM_U8 (dmem rsp) ((addr + word_of_nat (i - from)) AND 0xfff))) [from..<to]) rsp"
  unfolding load_bytes_def
  using fold_running [of "\<lambda>i a rsp. set_reg rt (\<lambda>v. WRITE_VEC_U8 v (i mod 16) (READ_MEM_U8 (dmem rsp) (a AND 0xfff))) rsp" 1]
  by (simp add: fold_set_reg)

lemma store_bytes_run:
  "store_bytes rt shift from to addr rsp = set_dmem (fold (\<lambda>i m. WRITE_MEM_U8 m (addr + word_of_nat (i - from))
     (READ_VEC_U8 (regs (cp2 rsp) rt) ((i + shift) mod 16))) [from..<to]) rsp"
  unfolding store_bytes_def
  using fold_running [of "\<lambda>i a rsp. set_dmem (\<lambda>m. WRITE_MEM_U8 m a (READ_VEC_U8 (regs (cp2 rsp) rt) ((i + shift) mod 16))) rsp" 1]
  by (simp add: fold_set_dmem)

text \<open>The bytes of a register after a load of a run of bytes.\<close>

lemma load_bytes_vec:
  assumes "to \<le> 16"
  shows "READ_VEC_U8 (regs (cp2 (load_bytes rt from to addr rsp)) rt) k =
    (if from \<le> k \<and> k < to then READ_MEM_U8 (dmem rsp) ((addr + word_of_nat (k - from)) AND 0xfff)
     else READ_VEC_U8 (regs (cp2 rsp) rt) k)"
proof -
  have "fold (\<lambda>i v. WRITE_VEC_U8 v (i mod 16) (READ_MEM_U8 (dmem rsp) ((addr + word_of_nat (i - from)) AND 0xfff))) [from..<to]
      = fold (\<lambda>i v. WRITE_VEC_U8 v i (READ_MEM_U8 (dmem rsp) ((addr + word_of_nat (i - from)) AND 0xfff))) [from..<to]"
    using assms by (intro fold_cong_set) simp
  then show ?thesis
    using vreg.rd_run_at [of "\<lambda>i. i" "[from..<to]" k] vreg.rd_run_other [of k "\<lambda>i. i" "[from..<to]"]
    by (auto simp: load_bytes_run)
qed

text \<open>A register is determined by its bytes, and a byte run only reaches its eight elements.\<close>

lemma MES_value: "MES (2 * k) = 2 * k + 1" "MES (2 * k + 1) = 2 * k"
  by (simp_all add: MES_def xor_Suc_0_eq)

lemma reg_eqI: "(\<And>k. READ_VEC_U8 p k = READ_VEC_U8 q k) \<Longrightarrow> p = q"
proof
  fix i
  assume e: "\<And>k. READ_VEC_U8 p k = READ_VEC_U8 q k"
  show "p i = q i"
  proof (rule lane16_eqI)
    show "(lane (p i) 0 :: u8) = lane (q i) 0"
      using e [of "2 * i + 1"] by (simp add: READ_VEC_U8_def MES_value vec_u8_def lane_def del: One_nat_def add_Suc_right)
    show "(lane (p i) 1 :: u8) = lane (q i) 1"
      using e [of "2 * i"] by (simp add: READ_VEC_U8_def MES_value vec_u8_def lane_def del: One_nat_def add_Suc_right)
  qed
qed

text \<open>Masked addresses as numbers.\<close>

lemma unat_masks:
  fixes w :: u32
  shows "unat (w AND 1) = unat w mod 2" "unat (w AND 3) = unat w mod 4" "unat (w AND 7) = unat w mod 8"
    "unat (w AND 0xf) = unat w mod 16" "unat (w AND 0xfff) = unat w mod 4096"
proof -
  have "w AND 1 = take_bit 1 w" "w AND 3 = take_bit 2 w"
    by (simp_all add: take_bit_eq_mask mask_eq_exp_minus_1)
  then show "unat (w AND 1) = unat w mod 2" "unat (w AND 3) = unat w mod 4" "unat (w AND 7) = unat w mod 8"
    "unat (w AND 0xf) = unat w mod 16" "unat (w AND 0xfff) = unat w mod 4096"
    by (simp_all only: and_ones_take_bit unsigned_take_bit_eq) (simp_all add: take_bit_eq_mod)
qed

lemma unat_offset: "unat ((w + word_of_nat i :: u32) AND 0xfff) = (unat w + i) mod 4096"
proof -
  have "unat (w + word_of_nat i) mod 4096 = (unat w + i) mod 2 ^ 32 mod 4096"
    by (simp add: unat_word_ariths unat_of_nat mod_simps)
  also have "\<dots> = (unat w + i) mod 4096" by (rule mod_mod_cancel) simp
  finally show ?thesis by (simp add: unat_masks)
qed

lemma BES_value:
  "BES a = (if a mod 4 = 0 then a + 3 else if a mod 4 = 1 then a + 1 else if a mod 4 = 2 then a - 1 else a - 3)"
proof -
  obtain q r where a: "a = 4 * q + r" "r < 4" by (metis mod_less_divisor mult_div_mod_eq zero_less_numeral)
  have s: "(4 * q + r) XOR 3 = of_bool (even r) + 2 * ((2 * q + r div 2) XOR 1)" if "r < 4"
    by (subst xor_nat_rec) (use that in \<open>simp add: div_add1_eq\<close>)
  have "r \<in> {0, 1, 2, 3}" using a by auto
  then show ?thesis unfolding BES_def a(1) s [OF a(2)] by (auto simp: xor_Suc_0_eq)
qed

lemma host_u16_bytes: "ucast (host_u16 m k) = m (2 * k)" "ucast (drop_bit 8 (host_u16 m k)) = m (2 * k + 1)"
proof -
  have "bit (x :: u8) n \<Longrightarrow> n < 8" for x n using bit_imp_le_length [of x n] by simp
  note b8 = this
  show "ucast (host_u16 m k) = m (2 * k)" "ucast (drop_bit 8 (host_u16 m k)) = m (2 * k + 1)"
    unfolding host_u16_def by (rule bit_word_eqI; auto simp: bit_simps dest: b8)+
qed

lemma READ_VEC_halves: "READ_VEC_U8 p (2 * i) = ucast (drop_bit 8 (p i))" "READ_VEC_U8 p (2 * i + 1) = ucast (p i)"
  unfolding READ_VEC_U8_def MES_value vec_u8_def by simp_all

lemma BES_halves:
  assumes "a mod 4 = 0"
  shows "BES (a + 2 * y) = 2 * (a div 2 + MES y) + 1" "BES (a + (2 * y + 1)) = 2 * (a div 2 + MES y)"
proof -
  obtain q where a: "a = 4 * q" using assms by auto
  obtain z where y: "y = 2 * z \<or> y = 2 * z + 1" by (metis oddE evenE)
  have m: "MES (2 * z) = 2 * z + 1" "MES (2 * z + 1) = 2 * z" by (rule MES_value)+
  have "(4 * q + 2 * (2 * z)) mod 4 = 0" "(4 * q + 2 * (2 * z + 1)) mod 4 = 2"
    "(4 * q + (2 * (2 * z) + 1)) mod 4 = 1" "(4 * q + (2 * (2 * z + 1) + 1)) mod 4 = 3"
    by presburger+
  with y show "BES (a + 2 * y) = 2 * (a div 2 + MES y) + 1" "BES (a + (2 * y + 1)) = 2 * (a div 2 + MES y)"
    unfolding a BES_value by (elim disjE; simp only: m; simp)+
qed

lemma half_copy:
  assumes p: "\<And>i. p i = (if e \<le> i \<and> i < e + n then host_u16 m (a div 2 + MES (i - e)) else r i)"
    and a: "a mod 4 = 0"
  shows "READ_VEC_U8 p k = (if 2 * e \<le> k \<and> k < 2 * e + 2 * n then m (BES (a + (k - 2 * e))) else READ_VEC_U8 r k)"
proof -
  obtain i where "k = 2 * i \<or> k = 2 * i + 1" by (metis oddE evenE)
  moreover have "2 * i - 2 * e = 2 * (i - e)" "e \<le> i \<Longrightarrow> 2 * i + 1 - 2 * e = 2 * (i - e) + 1" by simp_all
  moreover have "e \<le> i \<Longrightarrow> 2 * e \<le> 2 * i + 1" "2 * e \<le> 2 * i + 1 \<Longrightarrow> e \<le> i"
    "2 * i + 1 < 2 * e + 2 * n \<longleftrightarrow> i < e + n" "2 * i < 2 * e + 2 * n \<longleftrightarrow> i < e + n" by linarith+
  ultimately show ?thesis
    by (elim disjE) (auto simp: READ_VEC_halves p host_u16_bytes BES_halves [OF a] simp del: One_nat_def add_Suc_right add_2_eq_Suc add_2_eq_Suc')
qed

section \<open>Loads\<close>

text \<open>What the byte loads do: bytes \<open>from\<close> to \<open>to\<close> of one register come from consecutive DMEM bytes, the address wrapping
  at 4096.\<close>

lemma load_bytes_eqI:
  assumes "to \<le> 16" "\<And>k. READ_VEC_U8 (f (regs (cp2 rsp) rt)) k =
    (if from \<le> k \<and> k < to then READ_MEM_U8 (dmem rsp) ((addr + word_of_nat (k - from)) AND 0xfff)
     else READ_VEC_U8 (regs (cp2 rsp) rt) k)"
  shows "set_reg rt f rsp = load_bytes rt from to addr rsp"
proof -
  have "f (regs (cp2 rsp) rt) = regs (cp2 (load_bytes rt from to addr rsp)) rt"
    by (rule reg_eqI) (simp add: load_bytes_vec assms)
  then show ?thesis unfolding load_bytes_run by (intro set_reg_eqI) simp
qed

lemma load_bytes_mask: "load_bytes rt from to (addr AND 0xfff) rsp = load_bytes rt from to addr rsp"
proof -
  have "(addr AND 0xfff) + word_of_nat i AND 0xfff = addr + word_of_nat i AND 0xfff" for i
    unfolding word_unat_eq_iff unat_offset by (simp add: unat_masks mod_simps)
  then show ?thesis by (simp add: load_bytes_run)
qed

lemma aligned_run:
  assumes "unat addr mod n = 0" "n dvd 4096" "i < n"
  shows "unat ((addr + word_of_nat i :: u32) AND 0xfff) = unat (addr AND 0xfff) + i"
proof -
  obtain c where c: "4096 = n * c" using assms(2) by blast
  obtain q where q: "unat addr = n * q" using assms(1) by auto
  have "(n * q + i) mod (n * c) = n * q mod (n * c) + i"
  proof -
    have "(n * q + i) div n = q" "(n * q + i) mod n = i" using assms(3) by simp_all
    then show ?thesis by (simp add: mod_mult2_eq)
  qed
  then show ?thesis unfolding unat_offset unfolding unat_masks q c .
qed

lemma fast_load:
  assumes "e + 2 * n \<le> 16" "even e" "2 * n dvd 4096" "even n" "n > 0" "unat addr mod (2 * n) = 0"
    and p: "\<And>i. f (regs (cp2 rsp) rt) i = (if e div 2 \<le> i \<and> i < e div 2 + n
      then host_u16 (dmem rsp) (unat (addr AND 0xfff) div 2 + MES (i - e div 2)) else regs (cp2 rsp) rt i)"
  shows "set_reg rt f rsp = load_bytes rt e (e + 2 * n) addr rsp"
proof (rule load_bytes_eqI)
  fix k
  have 4: "4 dvd 2 * n" using assms(4) by auto
  have "unat (addr AND 0xfff) mod 4 = unat addr mod 4" by (simp add: unat_masks mod_mod_cancel)
  also have "\<dots> = 0" using assms(6) 4 by (meson dvd_trans mod_eq_0_iff_dvd)
  finally have "READ_VEC_U8 (f (regs (cp2 rsp) rt)) k = (if 2 * (e div 2) \<le> k \<and> k < 2 * (e div 2) + 2 * n
      then dmem rsp (BES (unat (addr AND 0xfff) + (k - 2 * (e div 2)))) else READ_VEC_U8 (regs (cp2 rsp) rt) k)"
    by (rule half_copy [rotated]) (rule p)
  then show "READ_VEC_U8 (f (regs (cp2 rsp) rt)) k =
    (if e \<le> k \<and> k < e + 2 * n then READ_MEM_U8 (dmem rsp) ((addr + word_of_nat (k - e)) AND 0xfff)
     else READ_VEC_U8 (regs (cp2 rsp) rt) k)"
    using assms(2) aligned_run [OF assms(6,3), of "k - e"] by (auto simp: READ_MEM_U8_def simp del: of_nat_diff)
qed (use assms in simp)

lemma word_and_zero: "(w AND 3 = 0) = (unat w mod 4 = 0)" "(w AND 7 = 0) = (unat w mod 8 = 0)"
  "(w AND 15 = 0) = (unat w mod 16 = 0)" "(w AND 1 = 0) = (unat w mod 2 = 0)" for w :: u32
  by (simp_all add: word_unat_eq_iff unat_masks)

lemma half_base: "4 dvd a \<Longrightarrow> a div 4 * 2 = a div (2 :: nat)"
  by auto

lemma LLV_bytes:
  assumes "e < 16"
  shows "RSP_LLV t e rsp rt offset base = load_bytes rt e (min 16 (e + 4)) (sr rsp base + word_of_int (offset * 4)) rsp"
proof -
  define a where "a = (sr rsp base + word_of_int (offset * 4)) AND 0xfff"
  have "set_reg rt (\<lambda>r. r(e div 2 := host_u16 (dmem rsp) (unat a div 4 * 2 + 1), e div 2 + 1 := host_u16 (dmem rsp) (unat a div 4 * 2))) rsp
      = load_bytes rt e (e + 2 * 2) a rsp" if c: "e mod 4 = 0" "unat a mod 4 = 0"
  proof (rule fast_load)
    have "a AND 0xfff = a" by (simp add: a_def and.assoc)
    then show "((regs (cp2 rsp) rt)(e div 2 := host_u16 (dmem rsp) (unat a div 4 * 2 + 1), e div 2 + 1 := host_u16 (dmem rsp) (unat a div 4 * 2))) i
      = (if e div 2 \<le> i \<and> i < e div 2 + 2 then host_u16 (dmem rsp) (unat (a AND 0xfff) div 2 + MES (i - e div 2))
         else regs (cp2 rsp) rt i)" for i
      using c(2) by (auto simp: MES_def half_base)
  qed (use c assms in \<open>auto simp: mod_eq_0_iff_dvd elim!: dvdE\<close>)
  moreover have "4 dvd e \<Longrightarrow> 12 \<le> e \<Longrightarrow> e = 12" using assms by presburger
  ultimately show ?thesis
    using assms unfolding RSP_LLV_def Let_def a_def [symmetric] load_bytes_mask [symmetric, of rt e _ "sr rsp base + word_of_int (offset * 4)"]
    by (auto simp: word_and_zero min_def)
qed

lemma LDV_bytes:
  assumes "e < 16"
  shows "RSP_LDV t e rsp rt offset base = load_bytes rt e (min 16 (e + 8)) (sr rsp base + word_of_int (offset * 8)) rsp"
proof -
  define a where "a = sr rsp base + word_of_int (offset * 8)"
  define k where "k = unat (a AND 0xfff) div 4 * 2"
  define v where "v = host_u16 (dmem rsp)"
  have "set_reg rt (\<lambda>r. r(e div 2 := v (k + 1), e div 2 + 1 := v k, e div 2 + 2 := v (k + 3), e div 2 + 3 := v (k + 2))) rsp
      = load_bytes rt e (e + 2 * 4) a rsp" if c: "e = 0 \<or> e = 8" "unat a mod 8 = 0"
  proof (rule fast_load)
    have "4 dvd unat (a AND 0xfff)" using c(2) by (simp add: unat_masks dvd_eq_mod_eq_0 mod_mod_cancel) presburger
    then show "((regs (cp2 rsp) rt)(e div 2 := v (k + 1), e div 2 + 1 := v k, e div 2 + 2 := v (k + 3), e div 2 + 3 := v (k + 2))) i
      = (if e div 2 \<le> i \<and> i < e div 2 + 4 then host_u16 (dmem rsp) (unat (a AND 0xfff) div 2 + MES (i - e div 2))
         else regs (cp2 rsp) rt i)" for i
      by (auto simp: k_def v_def half_base MES_def)
  qed (use c in auto)
  then show ?thesis
    using assms unfolding RSP_LDV_def Let_def a_def [symmetric] k_def [symmetric] v_def [symmetric]
    by (auto simp: word_and_zero min_def)
qed

lemma swap_list: "i < 8 \<Longrightarrow> [1, 0, 3, 2, 5, 4, 7, 6] ! i = MES i"
proof -
  have "\<forall>i \<in> set [0..<8]. [1, 0, 3, 2, 5, 4, 7, 6] ! i = MES i" by code_simp
  then show "i < 8 \<Longrightarrow> [1, 0, 3, 2, 5, 4, 7, 6] ! i = MES i" by simp
qed

text \<open>The aligned byte loops leave out the wrap of the running address: it cannot leave its 16 byte row.\<close>

lemma aligned_load_loop:
  assumes "unat addr mod 16 = 0" "to \<le> 16"
  shows "fst (fold (\<lambda>i (rsp, addr). (set_reg rt (\<lambda>v. WRITE_VEC_U8 v (i mod 16) (READ_MEM_U8 (dmem rsp) addr)) rsp, addr + 1))
      [from..<to] (rsp, addr AND 0xfff)) = load_bytes rt from to addr rsp"
proof -
  have a: "(addr AND 0xfff) + word_of_nat i = (addr + word_of_nat i) AND 0xfff" if "i < 16" for i
  proof -
    have "unat (addr AND 0xfff) + i < 4096"
      using aligned_run [OF assms(1) _ that] unat_masks(5) [of "addr + word_of_nat i"] by simp
    then have "unat ((addr AND 0xfff) + word_of_nat i) = unat (addr AND 0xfff) + i"
      by (simp add: unat_word_ariths unat_of_nat)
    then show ?thesis using aligned_run [OF assms(1) _ that] by (simp add: word_unat_eq_iff)
  qed
  have "fold (\<lambda>i v. WRITE_VEC_U8 v (i mod 16) (READ_MEM_U8 (dmem rsp) ((addr AND 0xfff) + word_of_nat (i - from)))) [from..<to] =
    fold (\<lambda>i v. WRITE_VEC_U8 v (i mod 16) (READ_MEM_U8 (dmem rsp) ((addr + word_of_nat (i - from)) AND 0xfff))) [from..<to]"
    using assms(2) by (intro fold_cong_set) (auto simp: a simp del: of_nat_diff)
  then show ?thesis
    using fold_running [of "\<lambda>i a rsp. set_reg rt (\<lambda>v. WRITE_VEC_U8 v (i mod 16) (READ_MEM_U8 (dmem rsp) a)) rsp" 1]
    by (simp add: fold_set_reg load_bytes_run)
qed

lemma LQV_bytes:
  assumes "e < 16"
  shows "RSP_LQV t e rsp rt offset base =
    (let addr = sr rsp base + word_of_int (offset * 16) in load_bytes rt e (min 16 (16 + e - unat addr mod 16)) addr rsp)"
proof -
  define a where "a = sr rsp base + word_of_int (offset * 16)"
  define k where "k = unat (a AND 0xfff) div 4 * 2"
  have "set_reg rt (\<lambda>r i. if i < 8 then host_u16 (dmem rsp) (k + [1, 0, 3, 2, 5, 4, 7, 6] ! i) else r i) rsp
      = load_bytes rt 0 (0 + 2 * 8) a rsp" if c: "unat a mod 16 = 0"
  proof (rule fast_load)
    have "4 dvd unat (a AND 0xfff)" using c by (simp add: unat_masks dvd_eq_mod_eq_0 mod_mod_cancel) presburger
    then show "(if i < 8 then host_u16 (dmem rsp) (k + [1, 0, 3, 2, 5, 4, 7, 6] ! i) else regs (cp2 rsp) rt i)
      = (if 0 div 2 \<le> i \<and> i < 0 div 2 + 8 then host_u16 (dmem rsp) (unat (a AND 0xfff) div 2 + MES (i - 0 div 2))
         else regs (cp2 rsp) rt i)" for i
      by (cases "i < 8") (simp_all only: swap_list k_def half_base if_True if_False, simp_all)
  qed (use c in auto)
  then show ?thesis
    using assms unfolding RSP_LQV_def Let_def a_def [symmetric] k_def [symmetric]
    by (simp add: word_and_zero aligned_load_loop unat_masks min_def)
qed

lemma LRV_bytes:
  assumes "e < 16"
  shows "RSP_LRV t e rsp rt offset base =
    (let addr = sr rsp base + word_of_int (offset * 16); n = unat addr mod 16
     in load_bytes rt (16 + e - n) 16 (addr AND NOT 0xf) rsp)"
proof -
  define a where "a = sr rsp base + word_of_int (offset * 16)"
  have n: "a AND 0xf = word_of_nat (unat a mod 16)" by (simp add: word_unat_eq_iff unat_masks unat_of_nat)
  have "unat (16 - ((a AND 0xf) - word_of_nat e)) = 16 + e - unat a mod 16"
  proof -
    have "16 - ((a AND 0xf) - word_of_nat e) = word_of_nat (16 + e - unat a mod 16)"
      using mod_less_divisor [of 16 "unat a"] unfolding n by (simp add: of_nat_diff)
    then show ?thesis using assms by (simp only: unat_of_nat) simp
  qed
  then show ?thesis
    using assms unfolding RSP_LRV_def Let_def a_def [symmetric]
    by (simp add: word_and_zero load_bytes_def)
qed

lemma LSV_bytes:
  assumes "e < 16"
  shows "RSP_LSV t e rsp rt offset base = load_bytes rt e (min 16 (e + 2)) (sr rsp base + word_of_int (offset * 2)) rsp"
  using assms by (simp add: RSP_LSV_def Let_def min_def)

lemma load_bytes_frame:
  "load_bytes rt from to a rsp = set_reg rt (\<lambda>_. regs (cp2 (load_bytes rt from to a rsp)) rt) rsp"
  by (simp add: load_bytes_run) (rule set_reg_eqI, simp)

text \<open>C15: the loads of a run of bytes (short, long, double, quad and rest), for every element and alignment and whichever
  fast path the alignment selects, read consecutive DMEM bytes (the address wrapping at 4096) into consecutive bytes
  of the target register and change nothing else. The quad load stops at the next 16 byte boundary, where the rest load
  goes on: it fills the bytes from \<open>16 + e - addr mod 16\<close>, out of the row that holds the address.\<close>

theorem byte_loads_correct:
  fixes t :: target and rsp :: CPUState and rt base e k :: nat and offset :: int
  assumes "e < 16"
  defines "addr \<equiv> \<lambda>scale. sr rsp base + word_of_int (offset * scale) :: u32"
    and "run \<equiv> \<lambda>from to a s. s = set_reg rt (\<lambda>_. regs (cp2 s) rt) rsp \<and>
      READ_VEC_U8 (regs (cp2 s) rt) k = (if from \<le> k \<and> k < to
        then READ_MEM_U8 (dmem rsp) (word_of_nat ((unat a + (k - from)) mod 4096)) else READ_VEC_U8 (regs (cp2 rsp) rt) k)"
  shows "run e (min 16 (e + 2)) (addr 2) (RSP_LSV t e rsp rt offset base)
    \<and> run e (min 16 (e + 4)) (addr 4) (RSP_LLV t e rsp rt offset base)
    \<and> run e (min 16 (e + 8)) (addr 8) (RSP_LDV t e rsp rt offset base)
    \<and> run e (min 16 (16 + e - unat (addr 16) mod 16)) (addr 16) (RSP_LQV t e rsp rt offset base)
    \<and> run (16 + e - unat (addr 16) mod 16) 16 (addr 16 AND NOT 0xf) (RSP_LRV t e rsp rt offset base)"
proof -
  have m: "word_of_nat ((unat a + i) mod 4096) = (a + word_of_nat i) AND 0xfff" for a :: u32 and i
    unfolding unat_offset [symmetric] by simp
  have "run lo hi a (load_bytes rt lo hi a rsp)" if "hi \<le> 16" for lo hi a
    unfolding run_def load_bytes_vec [OF that] m using load_bytes_frame by blast
  then show ?thesis
    by (simp add: LSV_bytes LLV_bytes LDV_bytes LQV_bytes LRV_bytes assms(1) Let_def addr_def)
qed

section \<open>Stores\<close>

text \<open>What the byte stores do: \<open>n\<close> bytes go to the DMEM addresses \<open>A 0\<close>, \<open>A 1\<close>, \<open>\<dots>\<close>, every other byte of memory (inside
  or outside DMEM) and the rest of the state stay.\<close>

definition writes_bytes :: "nat \<Rightarrow> (nat \<Rightarrow> u32) \<Rightarrow> (nat \<Rightarrow> u8) \<Rightarrow> CPUState \<Rightarrow> CPUState \<Rightarrow> bool" where
  "writes_bytes n A g rsp s \<longleftrightarrow> s = set_dmem (\<lambda>_. dmem s) rsp \<and> (\<forall>i<n. READ_MEM_U8 (dmem s) (A i) = g i) \<and>
     (\<forall>x. x \<notin> (\<lambda>i. BES (unat (A i))) ` {..<n} \<longrightarrow> dmem s x = dmem rsp x)"

lemma run_other_host:
  "x \<notin> (\<lambda>i. BES (unat (A i))) ` set xs \<Longrightarrow> fold (\<lambda>i m. WRITE_MEM_U8 m (A i) (g i)) xs m x = m x"
  by (induction xs arbitrary: m) (auto simp: WRITE_MEM_U8_def)

lemma writes_bytes_run:
  assumes "inj_on A {..<n}" "s = set_dmem (fold (\<lambda>i m. WRITE_MEM_U8 m (A i) (g i)) [0..<n]) rsp"
  shows "writes_bytes n A g rsp s"
proof -
  have "s = set_dmem (\<lambda>_. dmem s) rsp" unfolding assms(2) by simp (rule set_dmem_eqI, simp)
  moreover have "\<forall>i<n. READ_MEM_U8 (dmem s) (A i) = g i"
    unfolding assms(2) using mem.rd_run_at [of A "[0..<n]"] assms(1) by (simp add: atLeast0LessThan)
  moreover have "\<forall>x. x \<notin> (\<lambda>i. BES (unat (A i))) ` {..<n} \<longrightarrow> dmem s x = dmem rsp x"
    unfolding assms(2) using run_other_host [of _ A "[0..<n]"] by (simp add: atLeast0LessThan)
  ultimately show ?thesis unfolding writes_bytes_def by blast
qed

lemma writes_bytesD:
  assumes "writes_bytes n A g rsp s"
  shows "i < n \<Longrightarrow> READ_MEM_U8 (dmem s) (A i) = g i"
    "(\<And>i. i < n \<Longrightarrow> c \<noteq> A i) \<Longrightarrow> READ_MEM_U8 (dmem s) c = READ_MEM_U8 (dmem rsp) c"
    "cp2 s = cp2 rsp" "sr s = sr rsp"
proof -
  have s: "s = set_dmem (\<lambda>_. dmem s) rsp" and other: "x \<notin> (\<lambda>i. BES (unat (A i))) ` {..<n} \<Longrightarrow> dmem s x = dmem rsp x" for x
    using assms by (auto simp: writes_bytes_def)
  show "i < n \<Longrightarrow> READ_MEM_U8 (dmem s) (A i) = g i" using assms by (simp add: writes_bytes_def)
  show "(\<And>i. i < n \<Longrightarrow> c \<noteq> A i) \<Longrightarrow> READ_MEM_U8 (dmem s) c = READ_MEM_U8 (dmem rsp) c"
    unfolding READ_MEM_U8_def by (rule other) (auto simp: BES_inj word_unat_eq_iff)
  show "cp2 s = cp2 rsp" "sr s = sr rsp" by (subst s, simp)+
qed

lemma writes_bytes_cong:
  assumes "\<And>i. i < n \<Longrightarrow> A i = A' i" "\<And>i. i < n \<Longrightarrow> g i = g' i"
  shows "writes_bytes n A g rsp s \<longleftrightarrow> writes_bytes n A' g' rsp s"
proof -
  have "(\<lambda>i. BES (unat (A i))) ` {..<n} = (\<lambda>i. BES (unat (A' i))) ` {..<n}" using assms(1) by (intro image_cong) auto
  then show ?thesis using assms by (simp add: writes_bytes_def)
qed

lemma word32_inj: "n \<le> 4096 \<Longrightarrow> inj_on (\<lambda>i. a + word_of_nat i :: u32) {..<n}"
  by (rule inj_onI) (simp add: word_of_nat_eq_iff take_bit_nat_eq_self)

lemma masked_inj: "n \<le> 4096 \<Longrightarrow> inj_on (\<lambda>i. (a + word_of_nat i :: u32) AND 0xfff) {..<n}"
proof (rule inj_onI)
  fix x y
  assume n: "n \<le> 4096" and xy: "x \<in> {..<n}" "y \<in> {..<n}"
    and "(a + word_of_nat x) AND 0xfff = (a + word_of_nat y :: u32) AND 0xfff"
  then have "(unat a + x) mod 4096 = (unat a + y) mod 4096" by (metis unat_offset)
  then have "x mod 4096 = y mod 4096" by (simp add: mod_add_cong nat_mod_eq_iff)
  then show "x = y" using xy n by simp
qed

lemma store_bytes_writes:
  assumes "to - from \<le> 4096"
  shows "writes_bytes (to - from) (\<lambda>i. addr + word_of_nat i)
    (\<lambda>i. READ_VEC_U8 (regs (cp2 rsp) rt) ((i + from + shift) mod 16)) rsp (store_bytes rt shift from to addr rsp)"
proof (rule writes_bytes_run [OF word32_inj [OF assms]])
  have "fold (\<lambda>i m. WRITE_MEM_U8 m (addr + word_of_nat (i - from)) (READ_VEC_U8 (regs (cp2 rsp) rt) ((i + shift) mod 16))) [from..<to]
    = fold (\<lambda>i m. WRITE_MEM_U8 m (addr + word_of_nat i) (READ_VEC_U8 (regs (cp2 rsp) rt) ((i + from + shift) mod 16))) [0..<to - from]"
  proof (cases "from \<le> to")
    case True
    then have "[from..<to] = map (\<lambda>i. i + from) [0..<to - from]" by (simp add: map_add_upt)
    then show ?thesis by (simp add: fold_map comp_def)
  qed simp
  then show "store_bytes rt shift from to addr rsp = set_dmem (fold (\<lambda>i m. WRITE_MEM_U8 m (addr + word_of_nat i)
      (READ_VEC_U8 (regs (cp2 rsp) rt) ((i + from + shift) mod 16))) [0..<to - from]) rsp"
    by (simp add: store_bytes_run)
qed

lemma BES_offset: "4 dvd a \<Longrightarrow> BES (a + j) = a + BES j"
proof -
  assume "4 dvd a"
  then have "(a + j) mod 4 = j mod 4" by (auto elim!: dvdE)
  moreover have "j mod 4 \<le> j" "j mod 4 < 4" by simp_all
  ultimately show ?thesis unfolding BES_value by (auto simp: le_diff_conv2)
qed

lemma set_host_bytes: "set_host_u16 m k x = m(2 * k := vec_u8 (\<lambda>_. x) 0, 2 * k + 1 := vec_u8 (\<lambda>_. x) 1)"
  by (simp add: set_host_u16_def vec_u8_def)

lemma WRITE_MEM_U16_bytes:
  assumes "even (unat a)"
  shows "WRITE_MEM_U16 m a (v i) = WRITE_MEM_U8 (WRITE_MEM_U8 m a (READ_VEC_U8 v (2 * i))) (a + 1) (READ_VEC_U8 v (2 * i + 1))"
proof -
  obtain q where q: "unat a = 2 * q" using assms by blast
  moreover have "unat a < 2 ^ 32" using unsigned_less [of a, where 'a = nat] by simp
  ultimately have "unat (a + 1) = 2 * q + 1" by (simp add: unat_word_ariths)
  moreover have "BES (2 * q) = 2 * MES q + 1" "BES (2 * q + 1) = 2 * MES q" using BES_halves [of 0 q] by simp_all
  moreover have "HES (2 * q) div 2 = MES q" unfolding HES_def MES_def by (subst xor_nat_rec) simp
  ultimately show ?thesis unfolding WRITE_MEM_U16_def WRITE_MEM_U8_def q READ_VEC_halves
    by (simp add: set_host_u16_def fun_upd_twist)
qed

lemma even_masked: "even (unat (a :: u32)) \<Longrightarrow> even (unat ((a + word_of_nat (2 * i)) AND 0xfff))"
  unfolding unat_offset by (simp add: dvd_mod_iff)

lemma masked_succ:
  assumes "even (unat (a :: u32))"
  shows "((a + word_of_nat (2 * i)) AND 0xfff) + 1 = (a + word_of_nat (2 * i + 1)) AND 0xfff"
proof -
  have "even ((unat a + 2 * i) mod 4096)" using assms by (simp add: dvd_mod_iff)
  then have "Suc ((unat a + 2 * i) mod 4096) \<noteq> 4096" by (metis even_Suc even_numeral)
  then have "(unat a + (2 * i + 1)) mod 4096 = (unat a + 2 * i) mod 4096 + 1" by (simp add: mod_Suc)
  moreover have "unat (((a + word_of_nat (2 * i)) AND 0xfff) + 1) = (unat a + 2 * i) mod 4096 + 1"
  proof -
    have "(unat a + 2 * i) mod 4096 < 4096" by simp
    then show ?thesis unfolding unat_word_ariths unat_offset by simp
  qed
  ultimately show ?thesis unfolding word_unat_eq_iff unat_offset by simp
qed

text \<open>All three bodies of SDV and both of SQV are the same runs of byte stores.\<close>

lemma fold_pairs: "fold f [0..<2 * n] s = fold (\<lambda>i s. f (2 * i + 1) (f (2 * i) s)) [0..<n] s"
  by (induction n) simp_all

lemma half_stores:
  assumes "e + 2 * n \<le> 16" "even e" "even (unat a)"
  shows "fold (\<lambda>i m. WRITE_MEM_U16 m ((a + word_of_nat (2 * i)) AND 0xfff) (v (e div 2 + i))) [0..<n] m =
    fold (\<lambda>i m. WRITE_MEM_U8 m ((a + word_of_nat i) AND 0xfff) (READ_VEC_U8 v ((e + i) mod 16))) [0..<2 * n] m"
proof -
  have e: "2 * (e div 2 + i) = e + 2 * i" for i using assms(2) by simp
  have r: "(e + 2 * i) mod 16 = e + 2 * i" "(e + (2 * i + 1)) mod 16 = e + 2 * i + 1" if "i \<in> set [0..<n]" for i
    using that assms(1) by simp_all
  show ?thesis unfolding fold_pairs
    unfolding WRITE_MEM_U16_bytes [OF even_masked [OF assms(3)]] masked_succ [OF assms(3)] e
    by (rule fold_cong [OF refl refl]) (simp only: r)
qed

lemma set_host_commute: "j \<noteq> k \<Longrightarrow> set_host_u16 (set_host_u16 m j x) k y = set_host_u16 (set_host_u16 m k y) j x"
  unfolding set_host_u16_def by (auto simp: fun_eq_iff)

lemma half_swap:
  assumes "unat a mod (4 * n) = 0" "4 * n dvd 4096"
  shows "fold (\<lambda>j m. set_host_u16 m (unat (a AND 0xfff) div 2 + j) (v (MES j))) [0..<2 * n] m =
    fold (\<lambda>i m. WRITE_MEM_U16 m ((a + word_of_nat (2 * i)) AND 0xfff) (v i)) [0..<2 * n] m"
proof -
  define k where "k = unat (a AND 0xfff) div 2"
  have "unat (a AND 0xfff) mod 4 = unat a mod 4" by (simp add: unat_masks mod_mod_cancel)
  then have a4: "unat (a AND 0xfff) mod 4 = 0"
    using assms(1) by (metis dvd_triv_left mod_0_imp_dvd dvd_trans dvd_imp_mod_0)
  have "WRITE_MEM_U16 m ((a + word_of_nat (2 * i)) AND 0xfff) x = set_host_u16 m (k + MES i) x" if "i < 2 * n" for i m x
  proof -
    have "HES (unat (a AND 0xfff) + 2 * i) div 2 = k + MES i"
    proof -
      obtain q where q: "unat (a AND 0xfff) = 4 * q" using a4 by auto
      have "HES (4 * q + 2 * i) div 2 = (2 * q + i) XOR 1" unfolding HES_def by (subst xor_nat_rec) simp
      then show ?thesis unfolding q k_def by (auto simp: MES_def xor_Suc_0_eq elim!: oddE)
    qed
    then show ?thesis unfolding WRITE_MEM_U16_def using aligned_run [OF assms, of "2 * i"] that by simp
  qed
  then have "fold (\<lambda>i m. WRITE_MEM_U16 m ((a + word_of_nat (2 * i)) AND 0xfff) (v i)) [0..<2 * n] m =
    fold (\<lambda>i m. set_host_u16 m (k + MES i) (v i)) [0..<2 * n] m"
    by (intro fold_cong refl) simp
  also have "\<dots> = fold (\<lambda>j m. set_host_u16 m (k + j) (v (MES j))) [0..<2 * n] m"
    unfolding fold_pairs MES_value by (subst set_host_commute) simp_all
  finally show ?thesis unfolding k_def by simp
qed

lemma SDV_bytes:
  assumes "e < 16"
  shows "RSP_SDV t e rsp rt offset base =
    set_dmem (fold (\<lambda>i m. WRITE_MEM_U8 m ((sr rsp base + word_of_int (offset * 8) + word_of_nat i) AND 0xfff)
      (READ_VEC_U8 (regs (cp2 rsp) rt) ((e + i) mod 16))) [0..<8]) rsp"
proof -
  define a where "a = (sr rsp base + word_of_int (offset * 8)) AND 0xfff"
  define v where "v = regs (cp2 rsp) rt"
  have m: "(sr rsp base + word_of_int (offset * 8) + word_of_nat i) AND 0xfff = (a + word_of_nat i) AND 0xfff" for i
    unfolding word_unat_eq_iff unat_offset a_def by (simp add: unat_masks mod_simps)
  have a: "a AND 0xfff = a" by (simp add: a_def and.assoc)
  have fast: "set_host_u16 (set_host_u16 (set_host_u16 (set_host_u16 m
      (unat a div 4 * 2) (w 1)) (unat a div 4 * 2 + 1) (w 0)) (unat a div 4 * 2 + 2) (w 3)) (unat a div 4 * 2 + 3) (w 2)
    = fold (\<lambda>i m. WRITE_MEM_U16 m ((a + word_of_nat (2 * i)) AND 0xfff) (w i)) [0..<4] m"
    if "unat a mod 8 = 0" for m w
  proof -
    have "4 dvd unat a" using that by presburger
    moreover have "[0..<2 * 2] = [0, 1, 2, 3]" "[0..<4] = [0, 1, 2, 3 :: nat]" "MES 0 = 1" "MES 1 = 0" "MES 2 = 3" "MES 3 = 2"
      by code_simp+
    ultimately show ?thesis using half_swap [of a 2 w m] that by (simp add: a half_base del: One_nat_def)
  qed
  show ?thesis
  proof (cases "e > 8 \<or> odd e \<or> odd (unat a)")
    case True
    then show ?thesis
      unfolding RSP_SDV_def Let_def m v_def [symmetric] a_def [symmetric]
      by (auto simp: word_and_zero READ_VEC_U8_def fold_set_dmem v_def)
  next
    case False
    have "(if (e = 0 \<or> e = 8) \<and> unat a mod 8 = 0 then
        set_dmem (\<lambda>m. set_host_u16 (set_host_u16 (set_host_u16 (set_host_u16 m (unat a div 4 * 2) (v (e div 2 + 1)))
          (unat a div 4 * 2 + 1) (v (e div 2 + 0))) (unat a div 4 * 2 + 2) (v (e div 2 + 3))) (unat a div 4 * 2 + 3) (v (e div 2 + 2))) rsp
      else fold (\<lambda>i rsp. set_dmem (\<lambda>m. WRITE_MEM_U16 m ((a + word_of_nat (2 * i)) AND 0xfff) (regs (cp2 rsp) rt (e div 2 + i))) rsp) [0..<4] rsp) =
      set_dmem (fold (\<lambda>i m. WRITE_MEM_U16 m ((a + word_of_nat (2 * i)) AND 0xfff) (v (e div 2 + i))) [0..<4]) rsp"
      using fast [of _ "\<lambda>i. v (e div 2 + i)"] by (auto simp: fold_set_dmem v_def intro!: set_dmem_eqI)
    then show ?thesis using False half_stores [of e 4 a v]
      unfolding RSP_SDV_def Let_def m v_def [symmetric] a_def [symmetric]
      by (auto simp: word_and_zero intro!: set_dmem_eqI)
  qed
qed

text \<open>An aligned row or its tail is stored without a wrap of the running address.\<close>

lemma SQV_bytes:
  assumes "e < 16"
  shows "RSP_SQV t e rsp rt offset base =
    (let addr = (sr rsp base + word_of_int (offset * 16)) AND 0xfff in store_bytes rt 0 e (e + (16 - unat addr mod 16)) addr rsp)"
proof -
  define a where "a = (sr rsp base + word_of_int (offset * 16)) AND 0xfff"
  define v where "v = regs (cp2 rsp) rt"
  have a: "a AND 0xfff = a" by (simp add: a_def and.assoc)
  have "set_dmem (\<lambda>m. fold (\<lambda>j m. set_host_u16 m (unat a div 4 * 2 + j) (v ([1, 0, 3, 2, 5, 4, 7, 6] ! j))) [0..<8] m) rsp
      = store_bytes rt 0 0 16 a rsp" if al: "unat a mod 16 = 0"
  proof -
    have 4: "4 dvd unat a" and "even (unat a)" using al by presburger+
    have r: "(a + word_of_nat i) AND 0xfff = a + word_of_nat i" if "i < 16" for i
    proof -
      have "unat a + i < 4096"
        using aligned_run [OF al _ that] unat_masks(5) [of "a + word_of_nat i"] by (simp add: a)
      then show ?thesis using aligned_run [OF al _ that] by (simp add: a word_unat_eq_iff unat_word_ariths unat_of_nat)
    qed
    have "fold (\<lambda>j m. set_host_u16 m (unat a div 4 * 2 + j) (v ([1, 0, 3, 2, 5, 4, 7, 6] ! j))) [0..<8] m
      = fold (\<lambda>j m. set_host_u16 m (unat (a AND 0xfff) div 2 + j) (v (MES j))) [0..<2 * 4] m" for m
      unfolding a half_base [OF 4] by (intro fold_cong) (simp_all only: swap_list set_upt atLeastLessThan_iff, simp_all)
    also have "\<dots> m = fold (\<lambda>i m. WRITE_MEM_U8 m ((a + word_of_nat i) AND 0xfff) (READ_VEC_U8 v ((0 + i) mod 16))) [0..<2 * 8] m" for m
      using half_swap [of a 4 v m] half_stores [of 0 8 a v m] al \<open>even (unat a)\<close> by simp
    also have "\<dots> m = fold (\<lambda>i m. WRITE_MEM_U8 m (a + word_of_nat i) (READ_VEC_U8 v (i mod 16))) [0..<16] m" for m
      by (intro fold_cong) (simp_all add: r)
    finally show ?thesis by (simp add: store_bytes_run v_def)
  qed
  then show ?thesis using assms
    unfolding RSP_SQV_def Let_def a_def [symmetric] v_def [symmetric]
    by (auto simp: word_and_zero unat_masks)
qed

lemma SRV_bytes:
  shows "RSP_SRV t e rsp rt offset base =
    (let addr = (sr rsp base + word_of_int (offset * 16)) AND 0xfff; n = unat addr mod 16
     in store_bytes rt (16 - n) e (e + n) (addr AND NOT 0xf) rsp)"
  unfolding RSP_SRV_def Let_def by (simp add: word_and_zero unat_masks store_bytes_def)

lemma unat_wrap: "((a AND 0xfff) + word_of_nat i) AND 0xfff = (a + word_of_nat i) AND 0xfff" for a :: u32
  unfolding word_unat_eq_iff unat_offset by (simp add: unat_masks mod_simps)

lemma SBV_writes:
  assumes "e < 16"
  shows "writes_bytes 1 (\<lambda>i. (sr rsp base + word_of_int (offset * 1) + word_of_nat i) AND 0xfff)
    (\<lambda>i. READ_VEC_U8 (regs (cp2 rsp) rt) ((e + i) mod 16)) rsp (RSP_SBV t e rsp rt offset base)"
  by (rule writes_bytes_run [OF masked_inj]) (use assms in \<open>simp_all add: RSP_SBV_def Let_def READ_VEC_U8_def\<close>)

lemma SSV_writes:
  assumes "e < 16"
  shows "writes_bytes 2 (\<lambda>i. (sr rsp base + word_of_int (offset * 2) + word_of_nat i) AND 0xfff)
    (\<lambda>i. READ_VEC_U8 (regs (cp2 rsp) rt) ((e + i) mod 16)) rsp (RSP_SSV t e rsp rt offset base)"
proof (rule writes_bytes_run [OF masked_inj])
  have "[0..<2] = [0, 1 :: nat]" by code_simp
  then show "RSP_SSV t e rsp rt offset base = set_dmem (fold (\<lambda>i m. WRITE_MEM_U8 m
      ((sr rsp base + word_of_int (offset * 2) + word_of_nat i) AND 0xfff) (READ_VEC_U8 (regs (cp2 rsp) rt) ((e + i) mod 16))) [0..<2]) rsp"
    using assms unat_wrap [of "sr rsp base + word_of_int (offset * 2)" 1]
    by (simp add: RSP_SSV_def Let_def READ_VEC_U8_def set_dmem_comp comp_def)
qed simp

lemma SLV_writes:
  "writes_bytes 4 (\<lambda>i. ((sr rsp base + word_of_int (offset * 4)) AND 0xfff) + word_of_nat i)
    (\<lambda>i. READ_VEC_U8 (regs (cp2 rsp) rt) ((e + i) mod 16)) rsp (RSP_SLV t e rsp rt offset base)"
  using store_bytes_writes [of "e + 4" e "(sr rsp base + word_of_int (offset * 4)) AND 0xfff" rsp rt 0]
  by (simp add: RSP_SLV_def Let_def add.commute [of e])

lemma SDV_writes:
  assumes "e < 16"
  shows "writes_bytes 8 (\<lambda>i. (sr rsp base + word_of_int (offset * 8) + word_of_nat i) AND 0xfff)
    (\<lambda>i. READ_VEC_U8 (regs (cp2 rsp) rt) ((e + i) mod 16)) rsp (RSP_SDV t e rsp rt offset base)"
  by (rule writes_bytes_run [OF masked_inj]) (simp_all add: SDV_bytes assms)

lemma SQV_writes:
  fixes rsp :: CPUState and base e :: nat and offset :: int
  assumes "e < 16"
  defines "a \<equiv> sr rsp base + word_of_int (offset * 16)"
  shows "writes_bytes (16 - unat a mod 16) (\<lambda>i. (a AND 0xfff) + word_of_nat i)
    (\<lambda>i. READ_VEC_U8 (regs (cp2 rsp) rt) ((e + i) mod 16)) rsp (RSP_SQV t e rsp rt offset base)"
proof -
  have n: "unat (a AND 0xfff) mod 16 = unat a mod 16" by (simp add: unat_masks mod_mod_cancel)
  show ?thesis
    using store_bytes_writes [of "e + (16 - unat a mod 16)" e "a AND 0xfff" rsp rt 0]
    unfolding SQV_bytes [OF assms(1)] Let_def a_def [symmetric] n by (simp add: add.commute [of e])
qed

lemma SRV_writes:
  fixes rsp :: CPUState and base e :: nat and offset :: int
  defines "a \<equiv> sr rsp base + word_of_int (offset * 16)"
  shows "writes_bytes (unat a mod 16) (\<lambda>i. ((a AND NOT 0xf) AND 0xfff) + word_of_nat i)
    (\<lambda>i. READ_VEC_U8 (regs (cp2 rsp) rt) ((e + (16 - unat a mod 16) + i) mod 16)) rsp (RSP_SRV t e rsp rt offset base)"
proof -
  have n: "unat (a AND 0xfff) mod 16 = unat a mod 16" by (simp add: unat_masks mod_mod_cancel)
  have row: "(a AND 0xfff) AND NOT 0xf = (a AND NOT 0xf) AND 0xfff" unfolding and.assoc by (simp only: and.commute)
  have el: "(e + (16 - unat a mod 16) + i) mod 16 = (i + e + (16 - unat a mod 16)) mod 16" for i by (simp add: ac_simps)
  have "unat a mod 16 \<le> 4096" by (rule order.trans [OF less_imp_le [OF mod_less_divisor]]) simp_all
  then show ?thesis
    using store_bytes_writes [of "e + unat a mod 16" e "(a AND NOT 0xf) AND 0xfff" rsp rt "16 - unat a mod 16"]
    unfolding SRV_bytes Let_def a_def [symmetric] n row el add_diff_cancel_left' by blast
qed

text \<open>C16: the stores of a run of bytes (byte, short, long, double, quad and rest) write consecutive bytes of the register,
  from element byte \<open>e\<close> on and wrapping at 16, to consecutive DMEM addresses and nothing else, in every one of the bodies that
  alignment selects. The short and double stores wrap the address at 4096; the quad store stops at the next 16 byte
  boundary and the rest store writes the row below it; the long store does not wrap.\<close>

theorem byte_stores_correct:
  fixes t :: target and rsp :: CPUState and rt base e :: nat and offset :: int
  assumes "e < 16"
  defines "addr \<equiv> \<lambda>scale. sr rsp base + word_of_int (offset * scale) :: u32"
    and "elem \<equiv> \<lambda>d i. READ_VEC_U8 (regs (cp2 rsp) rt) ((e + d + i) mod 16)"
    and "wrapped \<equiv> \<lambda>a i. (a + word_of_nat i) AND 0xfff :: u32"
    and "straight \<equiv> \<lambda>a i. (a AND 0xfff) + word_of_nat i :: u32"
  shows "writes_bytes 1 (wrapped (addr 1)) (elem 0) rsp (RSP_SBV t e rsp rt offset base)
    \<and> writes_bytes 2 (wrapped (addr 2)) (elem 0) rsp (RSP_SSV t e rsp rt offset base)
    \<and> writes_bytes 4 (straight (addr 4)) (elem 0) rsp (RSP_SLV t e rsp rt offset base)
    \<and> writes_bytes 8 (wrapped (addr 8)) (elem 0) rsp (RSP_SDV t e rsp rt offset base)
    \<and> (let n = unat (addr 16) mod 16 in
       writes_bytes (16 - n) (straight (addr 16)) (elem 0) rsp (RSP_SQV t e rsp rt offset base)
       \<and> writes_bytes n (straight (addr 16 AND NOT 0xf)) (elem (16 - n)) rsp (RSP_SRV t e rsp rt offset base))"
  unfolding Let_def addr_def wrapped_def straight_def elem_def add_0_right
  by (intro conjI SBV_writes SSV_writes SLV_writes SDV_writes SQV_writes SRV_writes assms(1))

section \<open>Quad words at any alignment\<close>

text \<open>An address in terms of the start of its row.\<close>

lemma row_start: "a AND NOT 0xf = a - word_of_nat (unat a mod 16)" for a :: u32
proof -
  have "a AND 0xf = word_of_nat (unat a mod 16)" by (simp add: word_unat_eq_iff unat_masks unat_of_nat)
  moreover have "(a AND NOT 0xf) + (a AND 0xf) = (a AND NOT 0xf) OR (a AND 0xf)"
    by (rule disjunctive_add_eq_or) (simp add: bit_eq_iff bit_simps)
  moreover have "(a AND NOT 0xf) OR (a AND 0xf) = a" by (rule bit_word_eqI) (auto simp: bit_simps)
  ultimately show ?thesis by (simp add: algebra_simps)
qed

lemma row_aligned: "unat (a AND NOT 0xf) mod 16 = 0" for a :: u32
proof -
  have "(a AND NOT 0xf) AND 0xf = a AND (NOT 0xf AND 0xf)" by (rule and.assoc)
  also have "\<dots> = 0" by simp
  finally have "(a AND NOT 0xf) AND 0xf = 0" .
  then show ?thesis unfolding unat_masks(4) [symmetric] by simp
qed

lemma row_next: "unat (a + 16) mod 16 = unat a mod 16" "(a + 16) AND NOT 0xf = (a AND NOT 0xf) + 16" for a :: u32
proof -
  have "unat (a + 16) mod 16 = (unat a + 16) mod 2 ^ 32 mod 16" by (simp add: unat_word_ariths)
  also have "\<dots> = (unat a + 16) mod 16" by (rule mod_mod_cancel) simp
  finally show m: "unat (a + 16) mod 16 = unat a mod 16" by simp
  show "(a + 16) AND NOT 0xf = (a AND NOT 0xf) + 16" unfolding row_start m by simp
qed

text \<open>Every address of a row is the start of the row plus an offset below 16, also after the wrap at 4096.\<close>

lemma row_address:
  fixes a :: u32
  assumes "unat a mod 16 = 0" "j + i < 16"
  shows "((a + word_of_nat j) AND 0xfff) + word_of_nat i = (a + word_of_nat (j + i)) AND 0xfff"
proof -
  have "unat ((a + word_of_nat j) AND 0xfff) = unat (a AND 0xfff) + j" "unat ((a + word_of_nat (j + i)) AND 0xfff) = unat (a AND 0xfff) + (j + i)"
    using assms by (intro aligned_run [of a 16]; simp)+
  moreover from this(2) have "unat (a AND 0xfff) + (j + i) < 4096" using unat_masks(5) [of "a + word_of_nat (j + i)"] by simp
  ultimately show ?thesis by (simp add: word_unat_eq_iff unat_word_ariths unat_of_nat)
qed

lemma unaligned_quad_writes:
  fixes t :: target and rsp :: CPUState and offset :: int and base rt :: nat
  defines "a \<equiv> sr rsp base + word_of_int (offset * 16)"
  defines "s \<equiv> RSP_SRV t 0 (RSP_SQV t 0 rsp rt offset base) rt (offset + 1) base"
  assumes "k < 16"
  shows "READ_MEM_U8 (dmem s) ((a + word_of_nat k) AND 0xfff) = READ_VEC_U8 (regs (cp2 rsp) rt) k"
proof -
  define n where "n = unat a mod 16"
  define r where "r = a AND NOT 0xf"
  define s1 where "s1 = RSP_SQV t 0 rsp rt offset base"
  have n: "n < 16" by (simp add: n_def)
  have a: "a = r + word_of_nat n" unfolding r_def row_start n_def by simp
  have al: "unat r mod 16 = 0" "unat (r + 16) mod 16 = 0" unfolding r_def row_next(1) by (rule row_aligned)+
  have am: "unat (a AND 0xfff) mod 16 = n" by (simp add: unat_masks mod_mod_cancel n_def)
  have w1: "writes_bytes (16 - n) (\<lambda>i. (r + word_of_nat (n + i)) AND 0xfff) (READ_VEC_U8 (regs (cp2 rsp) rt)) rsp s1"
    using store_bytes_writes [of "16 - n" 0 "a AND 0xfff" rsp rt 0]
    unfolding s1_def SQV_bytes [OF zero_less_numeral] Let_def a_def [symmetric] am
    by (subst writes_bytes_cong [where A' = "\<lambda>i. (a AND 0xfff) + word_of_nat i" and
          g' = "\<lambda>i. READ_VEC_U8 (regs (cp2 rsp) rt) ((i + 0 + 0) mod 16)"]) (simp_all add: a row_address [OF al(1)] del: of_nat_add)
  have s1: "cp2 s1 = cp2 rsp" "sr s1 base + word_of_int ((offset + 1) * 16) = a + 16"
    using writes_bytesD(3,4) [OF w1] by (simp_all add: a_def algebra_simps)
  have w2: "writes_bytes n (\<lambda>i. (r + word_of_nat (16 + i)) AND 0xfff) (\<lambda>i. READ_VEC_U8 (regs (cp2 rsp) rt) (16 - n + i)) s1 s"
  proof -
    have "((a + 16) AND 0xfff) AND NOT 0xf = (r + 16) AND 0xfff"
      unfolding r_def row_next(2) [symmetric] and.assoc by (simp only: and.commute)
    moreover have "unat ((a + 16) AND 0xfff) mod 16 = n" by (simp add: unat_masks mod_mod_cancel row_next n_def)
    ultimately have "s = store_bytes rt (16 - n) 0 n ((r + 16) AND 0xfff) s1"
      unfolding s_def s1_def [symmetric] SRV_bytes s1 by simp
    moreover have "(r + word_of_nat (16 + i)) AND 0xfff = ((r + 16) AND 0xfff) + word_of_nat i" if "i < n" for i
      using row_address [OF al(2), of 0 i] that n by (simp add: add.assoc)
    moreover have "(i + 0 + (16 - n)) mod 16 = 16 - n + i" if "i < n" for i using that n by auto
    ultimately show ?thesis
      using store_bytes_writes [of n 0 "(r + 16) AND 0xfff" s1 rt "16 - n"] n
      by (subst writes_bytes_cong [where A' = "\<lambda>i. ((r + 16) AND 0xfff) + word_of_nat i" and
          g' = "\<lambda>i. READ_VEC_U8 (regs (cp2 s1) rt) ((i + 0 + (16 - n)) mod 16)"]) (simp_all only: s1, simp_all)
  qed
  have k: "a + word_of_nat k = r + word_of_nat (n + k)" by (simp add: a)
  show ?thesis
  proof (cases "k < 16 - n")
    case True
    have "(r + word_of_nat (n + k)) AND 0xfff \<noteq> (r + word_of_nat (16 + i)) AND 0xfff" if "i < n" for i
      using inj_onD [OF masked_inj [of 32 r], of "n + k" "16 + i"] that n True by fastforce
    then show ?thesis unfolding k using writes_bytesD [OF w2] writes_bytesD(1) [OF w1 True] by simp
  next
    case False
    then have i: "k - (16 - n) < n" "16 + (k - (16 - n)) = n + k" "16 - n + (k - (16 - n)) = k" using assms(3) n by auto
    show ?thesis unfolding k using writes_bytesD(1) [OF w2 i(1)] unfolding i(2,3) .
  qed
qed

text \<open>C17: an unaligned quad word round trip. SQV at an address and SRV 16 bytes on store a register; LQV and LRV with the
  same operands read it back into any register, whatever the alignment (also across the end of DMEM), in any later state
  that has the same memory and base register.\<close>

theorem unaligned_quad_round_trip:
  fixes t :: target and rsp rsp' :: CPUState and rt rt' base i :: nat and offset :: int
  defines "stored \<equiv> RSP_SRV t 0 (RSP_SQV t 0 rsp rt offset base) rt (offset + 1) base"
  assumes "dmem rsp' = dmem stored" "sr rsp' base = sr rsp base" "i < 8"
  shows "regs (cp2 (RSP_LRV t 0 (RSP_LQV t 0 rsp' rt' offset base) rt' (offset + 1) base)) rt' i = regs (cp2 rsp) rt i"
proof -
  define a where "a = sr rsp base + word_of_int (offset * 16)"
  define n where "n = unat a mod 16"
  define s where "s = RSP_LQV t 0 rsp' rt' offset base"
  define s' where "s' = RSP_LRV t 0 s rt' (offset + 1) base"
  have s: "s = load_bytes rt' 0 (16 - n) a rsp'"
    unfolding s_def LQV_bytes [OF zero_less_numeral] Let_def assms(3) a_def [symmetric] n_def [symmetric] by (simp add: min_absorb2)
  have "sr s base + word_of_int ((offset + 1) * 16) = a + 16" "dmem s = dmem stored"
    by (simp_all add: s load_bytes_run assms(2,3) a_def algebra_simps)
  then have s': "s' = load_bytes rt' (16 - n) 16 ((a AND NOT 0xf) + 16) s"
    unfolding s'_def LRV_bytes [OF zero_less_numeral] Let_def by (simp only: row_next n_def) simp
  have "READ_VEC_U8 (regs (cp2 s') rt') k = READ_VEC_U8 (regs (cp2 rsp) rt) k" if "k < 16" for k
  proof -
    have "READ_VEC_U8 (regs (cp2 s') rt') k = READ_MEM_U8 (dmem stored) ((a + word_of_nat k) AND 0xfff)"
    proof (cases "k < 16 - n")
      case True
      then show ?thesis unfolding s' load_bytes_vec [OF order.refl]
        by (simp add: s load_bytes_vec assms(2))
    next
      case False
      have "(a AND NOT 0xf) + 16 + word_of_nat (k - (16 - n)) = a + word_of_nat k"
        using False unfolding row_start n_def [symmetric] by (simp add: of_nat_diff n_def)
      then show ?thesis using False that \<open>dmem s = dmem stored\<close> unfolding s' load_bytes_vec [OF order.refl]
        by (simp del: of_nat_diff)
    qed
    then show ?thesis
      using unaligned_quad_writes [OF that] unfolding stored_def a_def by simp
  qed
  then have "READ_VEC_U8 (regs (cp2 s') rt') (2 * i) = READ_VEC_U8 (regs (cp2 rsp) rt) (2 * i)"
    "READ_VEC_U8 (regs (cp2 s') rt') (2 * i + 1) = READ_VEC_U8 (regs (cp2 rsp) rt) (2 * i + 1)"
    using assms(4) by simp_all
  then show ?thesis unfolding READ_VEC_halves s_def [symmetric] s'_def [symmetric]
    by (intro lane16_eqI) (simp_all add: lane_def)
qed

section \<open>Packed bytes\<close>

text \<open>The two fast and slow bodies of LPV agree, so that the target does not matter; SPV and SUV are runs of byte stores.\<close>

lemma split_mask: "(a AND NOT m) + (a AND m) = a" for a :: u32
proof -
  have "(a AND NOT m) + (a AND m) = (a AND NOT m) OR (a AND m)"
    by (rule disjunctive_add_eq_or) (simp add: bit_eq_iff bit_simps)
  also have "\<dots> = a" by (rule bit_word_eqI) (auto simp: bit_simps)
  finally show ?thesis .
qed

lemmas row8_start = split_mask [of _ 7]

lemma small_and: "unat w < 16 \<Longrightarrow> w AND 0xf = w" for w :: u32
  by (simp add: word_unat_eq_iff unat_masks)

definition packed_byte :: "(nat \<Rightarrow> u8) \<Rightarrow> u32 \<Rightarrow> nat \<Rightarrow> nat \<Rightarrow> u8" where
  "packed_byte m a e i = READ_MEM_U8 m (((a AND NOT 7) + ((word_of_nat i + ((a AND 7) - word_of_nat e)) AND 0xf)) AND 0xfff)"

lemma packed_byte_zero:
  assumes "i < 8"
  shows "packed_byte m a 0 i = READ_MEM_U8 m ((a + word_of_nat i) AND 0xfff)"
proof -
  have z: "word_of_nat i + ((a AND 7) - word_of_nat 0) = word_of_nat i + (a AND 7)" by simp
  have u: "unat (word_of_nat i + (a AND 7)) < 16"
    using assms mod_less_divisor [of 8 "unat a"] by (simp add: unat_word_ariths unat_of_nat unat_masks)
  have r: "(a AND NOT 7) + (word_of_nat i + (a AND 7)) = a + word_of_nat i"
    using row8_start [of a] by (simp add: algebra_simps)
  show ?thesis unfolding packed_byte_def z small_and [OF u] r ..
qed

lemma fold_elements: "fold (\<lambda>i r. r(i := f i)) [0..<n] r = (\<lambda>i. if i < n then f i else r i)"
  by (induction n) auto

lemma packed_loads:
  fixes rsp :: CPUState and base :: nat and offset :: int
  defines "a \<equiv> (sr rsp base + word_of_int (offset * 8)) AND 0xfff"
  shows "RSP_LPV t e rsp rt offset base =
      set_reg rt (\<lambda>r i. if i < 8 then push_bit 8 (ucast (packed_byte (dmem rsp) a e i)) else r i) rsp"
    "RSP_LUV t e rsp rt offset base =
      set_reg rt (\<lambda>r i. if i < 8 then push_bit 7 (ucast (packed_byte (dmem rsp) a e i)) else r i) rsp"
proof -
  have slow: "fold (\<lambda>i rsp. set_reg rt (\<lambda>r. r(i := push_bit s (ucast
        (READ_MEM_U8 (dmem rsp) (((a AND NOT 7) + ((word_of_nat i + ((a AND 7) - word_of_nat e)) AND 0xf)) AND 0xfff))))) rsp) [0..<8] rsp
    = set_reg rt (\<lambda>r i. if i < 8 then push_bit s (ucast (packed_byte (dmem rsp) a e i)) else r i) rsp" for s
    by (simp only: state_updates fold_set_reg flip: packed_byte_def) (rule set_reg_eqI, simp only: fold_elements)
  have a: "a AND 0xfff = a" by (simp add: a_def and.assoc)
  have fast: "push_bit 8 (ucast (dmem rsp (unat a div 4 * 4 + [3, 2, 1, 0, 7, 6, 5, 4] ! i))) = push_bit 8 (ucast (packed_byte (dmem rsp) a 0 i))"
    if i: "i < 8" and al: "unat a mod 8 = 0" for i
  proof -
    have 4: "4 dvd unat a" using al by presburger
    have "\<forall>i \<in> set [0..<8]. [3, 2, 1, 0, 7, 6, 5, 4] ! i = BES i" by code_simp
    then have "[3, 2, 1, 0, 7, 6, 5, 4] ! i = BES i" using i by simp
    then show ?thesis using 4 aligned_run [OF al _ i]
      by (simp add: packed_byte_zero [OF i] READ_MEM_U8_def a BES_offset)
  qed
  show "RSP_LPV t e rsp rt offset base =
      set_reg rt (\<lambda>r i. if i < 8 then push_bit 8 (ucast (packed_byte (dmem rsp) a e i)) else r i) rsp"
    unfolding RSP_LPV_def Let_def a_def [symmetric] slow
    using fast by (auto simp: word_and_zero fun_eq_iff simp del: One_nat_def intro!: set_reg_eqI)
  show "RSP_LUV t e rsp rt offset base =
      set_reg rt (\<lambda>r i. if i < 8 then push_bit 7 (ucast (packed_byte (dmem rsp) a e i)) else r i) rsp"
    unfolding RSP_LUV_def Let_def a_def [symmetric] slow ..
qed

lemma packed_stores:
  fixes rsp :: CPUState and base rt e :: nat and offset :: int
  defines "A \<equiv> \<lambda>i. (sr rsp base + word_of_int (offset * 8) + word_of_nat i) AND 0xfff :: u32"
    and "g \<equiv> \<lambda>s s' i. ucast (signed_drop_bit (if (e + i) mod 16 < 8 then s else s') (regs (cp2 rsp) rt ((e + i) mod 8))) :: u8"
  shows "writes_bytes 8 A (g 8 7) rsp (RSP_SPV t e rsp rt offset base)"
    "writes_bytes 8 A (g 7 8) rsp (RSP_SUV t e rsp rt offset base)"
proof -
  define a where "a = sr rsp base + word_of_int (offset * 8)"
  have m: "((a AND 0xfff) + word_of_nat i) AND 0xfff = A i" for i
    unfolding A_def a_def word_unat_eq_iff unat_offset by (simp add: unat_masks mod_simps)
  have "fst (fold (\<lambda>i (rsp, addr). (set_dmem (\<lambda>m. WRITE_MEM_U8 m (addr AND 0xfff)
      (ucast (signed_drop_bit (if i mod 16 < 8 then p else q) (regs (cp2 rsp) rt (i mod 8))))) rsp, addr + 1)) [e..<e + 8] (rsp, a AND 0xfff))
    = set_dmem (fold (\<lambda>i m. WRITE_MEM_U8 m (A i) (g p q i)) [0..<8]) rsp" for p q
  proof -
    have "[e..<e + 8] = map (\<lambda>i. i + e) [0..<8]" by (simp add: map_add_upt add.commute)
    then show ?thesis
      using fold_running [of "\<lambda>i addr rsp. set_dmem (\<lambda>m. WRITE_MEM_U8 m (addr AND 0xfff)
        (ucast (signed_drop_bit (if i mod 16 < 8 then p else q) (regs (cp2 rsp) rt (i mod 8))))) rsp" 1 e "e + 8" rsp "a AND 0xfff"]
      by (simp add: fold_set_dmem fold_map comp_def m g_def add.commute [of e])
  qed
  then have "RSP_SPV t e rsp rt offset base = set_dmem (fold (\<lambda>i m. WRITE_MEM_U8 m (A i) (g 8 7 i)) [0..<8]) rsp"
    "RSP_SUV t e rsp rt offset base = set_dmem (fold (\<lambda>i m. WRITE_MEM_U8 m (A i) (g 7 8 i)) [0..<8]) rsp"
    unfolding RSP_SPV_def RSP_SUV_def Let_def a_def [symmetric] by blast+
  moreover have "inj_on A {..<8}" unfolding A_def by (rule masked_inj) simp
  ultimately show "writes_bytes 8 A (g 8 7) rsp (RSP_SPV t e rsp rt offset base)"
    "writes_bytes 8 A (g 7 8) rsp (RSP_SUV t e rsp rt offset base)"
    by (auto intro!: writes_bytes_run)
qed

lemma packed_bits:
  fixes x :: u16
  shows "push_bit 8 (ucast (ucast (signed_drop_bit 8 x) :: u8)) = x AND 0xff00"
    "push_bit 7 (ucast (ucast (signed_drop_bit 7 x) :: u8)) = x AND 0x7f80"
proof -
  have b: "bit (0x7f80 :: u16) n \<longleftrightarrow> 7 \<le> n \<and> n < 15" if "n < 16" for n
  proof -
    have "\<forall>n \<in> set [0..<16]. bit (0x7f80 :: u16) n \<longleftrightarrow> 7 \<le> n \<and> n < 15" by code_simp
    then show ?thesis using that by simp
  qed
  show "push_bit 8 (ucast (ucast (signed_drop_bit 8 x) :: u8)) = x AND 0xff00"
    by (rule bit_word_eqI, unfold bit_and_iff bit_ff00) (auto simp: bit_simps)
  show "push_bit 7 (ucast (ucast (signed_drop_bit 7 x) :: u8)) = x AND 0x7f80"
  proof (rule bit_word_eqI)
    fix n assume n: "n < LENGTH(16)"
    then have "bit (0x7f80 :: u16) n \<longleftrightarrow> 7 \<le> n \<and> n < 15" by (intro b) simp
    then show "bit (push_bit 7 (ucast (ucast (signed_drop_bit 7 x) :: u8)) :: u16) n = bit (x AND 0x7f80) n"
      unfolding bit_and_iff using n by (auto simp: bit_simps)
  qed
qed

text \<open>C18: packed bytes round trip. SPV keeps the upper byte of every element and SUV the eight bits below the sign; LPV and LUV
  put them back in place with the other bits zero, at every alignment and whichever body LPV takes on the loading target.\<close>

theorem packed_round_trip:
  fixes t t' :: target and rsp rsp' :: CPUState and rt rt' base i :: nat and offset :: int
  assumes "sr rsp' base = sr rsp base" "i < 8"
  shows "(dmem rsp' = dmem (RSP_SPV t 0 rsp rt offset base) \<longrightarrow>
      regs (cp2 (RSP_LPV t' 0 rsp' rt' offset base)) rt' i = regs (cp2 rsp) rt i AND 0xff00)
    \<and> (dmem rsp' = dmem (RSP_SUV t 0 rsp rt offset base) \<longrightarrow>
      regs (cp2 (RSP_LUV t' 0 rsp' rt' offset base)) rt' i = regs (cp2 rsp) rt i AND 0x7f80)"
proof -
  define a where "a = sr rsp base + word_of_int (offset * 8)"
  have m: "((a AND 0xfff) + word_of_nat i) AND 0xfff = (a + word_of_nat i) AND 0xfff"
    unfolding a_def word_unat_eq_iff unat_offset by (simp add: unat_masks mod_simps)
  have p: "packed_byte d (a AND 0xfff) 0 i = READ_MEM_U8 d ((a + word_of_nat i) AND 0xfff)" for d
    unfolding packed_byte_zero [OF assms(2)] m ..
  have i: "i mod 16 < 8" "i mod 8 = i" using assms(2) by simp_all
  show ?thesis
    using writes_bytesD(1) [OF packed_stores(1), of i t 0 rsp rt offset base] writes_bytesD(1) [OF packed_stores(2), of i t 0 rsp rt offset base]
      assms(2) unfolding packed_loads assms(1) a_def [symmetric]
    by (simp add: i p packed_bits)
qed

section \<open>Where stores write\<close>

definition keeps_from :: "nat \<Rightarrow> CPUState \<Rightarrow> CPUState \<Rightarrow> bool" where
  "keeps_from n rsp s \<longleftrightarrow> (\<forall>x\<ge>n. dmem s x = dmem rsp x)"

lemma BES_less: "4 dvd n \<Longrightarrow> a < n \<Longrightarrow> BES a < n"
proof -
  assume "4 dvd n" "a < n"
  then obtain c where n: "n = 4 * c" and "a div 4 < c" by (auto elim!: dvdE)
  have "BES a = BES (4 * (a div 4) + a mod 4)" by simp
  also have "\<dots> = 4 * (a div 4) + BES (a mod 4)" by (rule BES_offset) simp
  also have "BES (a mod 4) < 4" using mod_less_divisor [of 4 a] unfolding BES_value by (simp add: less_diff_conv2)
  finally show "BES a < n" using n \<open>a div 4 < c\<close> by linarith
qed

lemma keeps_write:
  "4 dvd n \<Longrightarrow> unat A < n \<Longrightarrow> keeps_from n rsp s \<Longrightarrow> keeps_from n rsp (set_dmem (\<lambda>m. WRITE_MEM_U8 m A b) s)"
  using BES_less [of n "unat A"] by (auto simp: keeps_from_def WRITE_MEM_U8_def)

lemma keeps_fold:
  "(\<And>i s. i \<in> set xs \<Longrightarrow> keeps_from n rsp s \<Longrightarrow> keeps_from n rsp (f i s)) \<Longrightarrow> keeps_from n rsp s \<Longrightarrow> keeps_from n rsp (fold f xs s)"
  by (induction xs arbitrary: s) auto

lemma keeps_fold_pair:
  "(\<And>i p. i \<in> set xs \<Longrightarrow> keeps_from n rsp (fst p) \<Longrightarrow> keeps_from n rsp (fst (f i p))) \<Longrightarrow> keeps_from n rsp (fst p) \<Longrightarrow>
   keeps_from n rsp (fst (fold f xs p))"
  by (induction xs arbitrary: p) auto

lemma keeps_refl: "keeps_from n rsp rsp"
  by (simp add: keeps_from_def)

lemma writes_bytes_keep:
  assumes "writes_bytes k A g rsp s" "4 dvd n" "\<And>i. i < k \<Longrightarrow> unat (A i) < n"
  shows "keeps_from n rsp s"
  unfolding keeps_from_def
proof (intro allI impI)
  fix x assume "n \<le> x"
  then have "x \<noteq> BES (unat (A i))" if "i < k" for i using BES_less [OF assms(2) assms(3) [OF that]] by simp
  then have "x \<notin> (\<lambda>i. BES (unat (A i))) ` {..<k}" by blast
  then show "dmem s x = dmem rsp x" using assms(1) by (simp add: writes_bytes_def)
qed

lemma straight_in_row: "i + unat a mod 16 < 16 \<Longrightarrow> unat ((a AND 0xfff) + word_of_nat i) < 4096" for a :: u32
proof -
  assume "i + unat a mod 16 < 16"
  moreover have "(a AND NOT 0xf) + word_of_nat (unat a mod 16) = a" unfolding row_start by simp
  ultimately have "(a AND 0xfff) + word_of_nat i = ((a AND NOT 0xf) + word_of_nat (unat a mod 16 + i)) AND 0xfff"
    using row_address [OF row_aligned [of a], of "unat a mod 16" i] by (simp add: add.commute)
  then show ?thesis using unat_masks(5) by simp
qed

lemma row8_bound:
  fixes a w :: u32
  shows "unat (((a AND 0xfff) AND NOT 7) + (w AND 0xf)) < 4104"
    "unat (((a AND 0xfff) AND NOT 7) + (w AND 7)) < 4104" "unat (((a AND 0xfff) AND NOT 7) + 4 + (w AND 7)) < 4104"
proof -
  have "(a AND 0xfff) AND NOT 7 = a AND (0xfff AND NOT 7)" by (rule and.assoc)
  also have "\<dots> \<le> 0xfff AND NOT 7" by (rule word_and_le1)
  finally have r: "unat ((a AND 0xfff) AND NOT 7) \<le> 4088" by (simp add: word_le_nat_alt)
  have w: "unat (w AND 0xf) < 16" "unat (w AND 7) < 8" by (simp_all add: unat_masks)
  have "unat (x + y) \<le> unat x + unat y" for x y :: u32 by (simp add: unat_word_ariths)
  note this [of "(a AND 0xfff) AND NOT 7" "w AND 0xf"] this [of "(a AND 0xfff) AND NOT 7" "w AND 7"]
    this [of "((a AND 0xfff) AND NOT 7) + 4" "w AND 7"] this [of "(a AND 0xfff) AND NOT 7" 4]
  with r w show "unat (((a AND 0xfff) AND NOT 7) + (w AND 0xf)) < 4104"
    "unat (((a AND 0xfff) AND NOT 7) + (w AND 7)) < 4104" "unat (((a AND 0xfff) AND NOT 7) + 4 + (w AND 7)) < 4104"
    by (simp_all add: unat_numeral del: unat_plus_simple)
qed

text \<open>C19: the footprint of the stores. SBV, SSV, SDV, SPV, SUV, SQV and SRV never write outside the 4096 bytes of DMEM. SLV, SHV,
  SFV, SWV and STV mask the address before they add the offset of a byte, so they can write up to eight bytes past the end;
  they never write further.\<close>

theorem store_footprint:
  fixes t :: target and rsp :: CPUState and rt base e x :: nat and offset :: int
  assumes "e < 16"
  shows "(4096 \<le> x \<longrightarrow> list_all (\<lambda>h. dmem (h t e rsp rt offset base) x = dmem rsp x)
      [RSP_SBV, RSP_SSV, RSP_SDV, RSP_SPV, RSP_SUV, RSP_SQV, RSP_SRV])
    \<and> (4104 \<le> x \<longrightarrow> list_all (\<lambda>h. dmem (h t e rsp rt offset base) x = dmem rsp x)
      [RSP_SLV, RSP_SHV, RSP_SFV, RSP_SWV, RSP_STV])"
proof -
  have m: "unat (a AND 0xfff) < 4096" for a :: u32 by (simp add: unat_masks)
  have "keeps_from 4096 rsp (RSP_SBV t e rsp rt offset base)" "keeps_from 4096 rsp (RSP_SSV t e rsp rt offset base)"
    "keeps_from 4096 rsp (RSP_SDV t e rsp rt offset base)"
    by (rule writes_bytes_keep [OF SBV_writes [OF assms]] writes_bytes_keep [OF SSV_writes [OF assms]]
        writes_bytes_keep [OF SDV_writes [OF assms]]; simp add: m)+
  moreover have "keeps_from 4096 rsp (RSP_SPV t e rsp rt offset base)" "keeps_from 4096 rsp (RSP_SUV t e rsp rt offset base)"
    by (rule writes_bytes_keep [OF packed_stores(1)] writes_bytes_keep [OF packed_stores(2)]; simp add: m)+
  moreover have "keeps_from 4096 rsp (RSP_SQV t e rsp rt offset base)" "keeps_from 4096 rsp (RSP_SRV t e rsp rt offset base)"
  proof -
    show "keeps_from 4096 rsp (RSP_SQV t e rsp rt offset base)"
      by (rule writes_bytes_keep [OF SQV_writes [OF assms]]) (simp, rule straight_in_row, simp only: less_diff_conv)
    have "i + 0 < 16" if "i < unat a mod 16" for i and a :: u32
      using order.strict_trans [OF that mod_less_divisor] by simp
    then show "keeps_from 4096 rsp (RSP_SRV t e rsp rt offset base)"
      by (intro writes_bytes_keep [OF SRV_writes]) (simp, rule straight_in_row, simp only: row_aligned)
  qed
  moreover have "keeps_from 4104 rsp (RSP_SHV t e rsp rt offset base)"
    unfolding RSP_SHV_def Let_def by (intro keeps_fold keeps_write keeps_refl row8_bound) simp
  moreover have "keeps_from 4104 rsp (RSP_SFV t e rsp rt offset base)"
    unfolding RSP_SFV_def Let_def split_beta by (intro keeps_write keeps_refl row8_bound) simp_all
  moreover have "keeps_from 4104 rsp (RSP_SWV t e rsp rt offset base)"
    unfolding RSP_SWV_def Let_def split_beta
    by (rule keeps_fold_pair; simp only: fst_conv keeps_refl) (intro keeps_write row8_bound; simp)
  moreover have "keeps_from 4104 rsp (RSP_STV t e rsp rt offset base)"
    unfolding RSP_STV_def Let_def split_beta
    by (rule keeps_fold_pair; simp only: fst_conv keeps_refl) (intro keeps_write row8_bound; simp)
  moreover have "keeps_from 4104 rsp (RSP_SLV t e rsp rt offset base)"
  proof (rule writes_bytes_keep [OF SLV_writes])
    fix i :: nat assume i: "i < 4"
    define a where "a = (sr rsp base + word_of_int (offset * 4)) AND 0xfff"
    have "unat (a + word_of_nat i) = unat a + i"
      using m [of "sr rsp base + word_of_int (offset * 4)"] i unfolding a_def [symmetric] by (simp add: unat_word_ariths unat_of_nat)
    then show "unat (((sr rsp base + word_of_int (offset * 4)) AND 0xfff) + word_of_nat i) < 4104"
      using m [of "sr rsp base + word_of_int (offset * 4)"] i unfolding a_def [symmetric] by simp
  qed simp
  ultimately show ?thesis by (simp add: keeps_from_def)
qed

text \<open>C20: the five stores of the second group do leave DMEM: at the last addresses they write the byte that follows it
  (byte address 4096, host index 4099).\<close>

theorem store_overruns_dmem:
  fixes t :: target and rsp :: CPUState
  assumes "sr rsp base = 0xff8" "sr rsp base' = 0xffe" "rt mod 8 = 0"
  shows "dmem (RSP_SLV t 0 rsp rt 0 base') 4099 = READ_VEC_U8 (regs (cp2 rsp) rt) 2
    \<and> dmem (RSP_SHV t 0 rsp rt 0 base) 4099 =
        push_bit 1 (READ_VEC_U8 (regs (cp2 rsp) rt) 8) OR drop_bit 7 (READ_VEC_U8 (regs (cp2 rsp) rt) 9)
    \<and> dmem (RSP_SFV t 0 rsp rt 0 base) 4099 = ucast (signed_drop_bit 7 (regs (cp2 rsp) rt 2))
    \<and> dmem (RSP_SWV t 0 rsp rt 0 base) 4099 = READ_VEC_U8 (regs (cp2 rsp) rt) 8
    \<and> dmem (RSP_STV t 0 rsp rt 0 base) 4099 = READ_VEC_U8 (regs (cp2 rsp) (rt + 4)) 8"
proof -
  have u: "[0..<8] = [0, 1, 2, 3, 4, 5, 6, 7 :: nat]" "[0..<16] = [0, 1, 2, 3, 4, 5, 6, 7, 8, 9, 10, 11, 12, 13, 14, 15 :: nat]"
    by code_simp+
  have r: "[rt..<rt + 8] = [rt, rt + 1, rt + 2, rt + 3, rt + 4, rt + 5, rt + 6, rt + 7]"
    using map_add_upt [of rt 8] by (simp add: u add.commute)
  have B: "BES 4088 = 4091" "BES 4089 = 4090" "BES 4090 = 4089" "BES 4091 = 4088" "BES 4092 = 4095" "BES 4093 = 4094" "BES 4094 = 4093"
    "BES 4095 = 4092" "BES 4096 = 4099" "BES 4097 = 4098" "BES 4098 = 4097" "BES 4099 = 4096" "BES 4100 = 4103" "BES 4101 = 4102"
    "BES 4102 = 4101" "BES 4103 = 4100"
    by (simp_all add: BES_value)
  have "dmem (RSP_SLV t 0 rsp rt 0 base') 4099 = READ_VEC_U8 (regs (cp2 rsp) rt) 2"
    using writes_bytesD(1) [OF SLV_writes [of rsp base' 0 rt 0 t], of 2] assms by (simp add: READ_MEM_U8_def B) (simp add: numeral_2_eq_2)
  moreover have "dmem (RSP_SHV t 0 rsp rt 0 base) 4099 =
        push_bit 1 (READ_VEC_U8 (regs (cp2 rsp) rt) 8) OR drop_bit 7 (READ_VEC_U8 (regs (cp2 rsp) rt) 9)"
    by (simp add: RSP_SHV_def Let_def assms u WRITE_MEM_U8_def B)
  moreover have "dmem (RSP_SFV t 0 rsp rt 0 base) 4099 = ucast (signed_drop_bit 7 (regs (cp2 rsp) rt 2))"
    by (simp add: RSP_SFV_def Let_def assms sfv_elements_def WRITE_MEM_U8_def B)
  moreover have "dmem (RSP_SWV t 0 rsp rt 0 base) 4099 = READ_VEC_U8 (regs (cp2 rsp) rt) 8"
    by (simp add: RSP_SWV_def Let_def assms u WRITE_MEM_U8_def B)
  moreover have "dmem (RSP_STV t 0 rsp rt 0 base) 4099 = READ_VEC_U8 (regs (cp2 rsp) (rt + 4)) 8"
    by (simp add: RSP_STV_def Let_def assms r WRITE_MEM_U8_def B)
  ultimately show ?thesis by blast
qed

text \<open>A state with distinguishable bytes, for the instances below.\<close>

definition ls_state :: "u32 \<Rightarrow> CPUState" where
  "ls_state a = reset_state\<lparr>sr := \<lambda>_. a, dmem := \<lambda>k. word_of_nat k,
     cp2 := (cp2 reset_state)\<lparr>regs := \<lambda>r i. word_of_nat (512 * i + 2 * i + 1)\<rparr>\<rparr>"

definition ls_target :: target where
  "ls_target = \<lparr>has_ssse3 = True, has_sse41 = True, undef_xmm = 0\<rparr>"

theorem byte_loads_correct_witness:
  "READ_VEC_U8 (regs (cp2 (RSP_LQV ls_target 0 (ls_state 0xfff) 1 0 2)) 1) 0 = 0xfc"
  using byte_loads_correct [where e = 0 and k = 0 and t = ls_target and rsp = "ls_state 0xfff" and rt = 1 and offset = 0 and base = 2]
  by (simp add: ls_state_def READ_MEM_U8_def BES_value)

theorem byte_stores_correct_witness:
  "READ_MEM_U8 (dmem (RSP_SDV ls_target 3 (ls_state 0xfff) 1 0 2)) 1 = READ_VEC_U8 (regs (cp2 (ls_state 0xfff)) 1) 5"
proof -
  have "writes_bytes 8 (\<lambda>i. (0xfff + word_of_nat i) AND 0xfff) (\<lambda>i. READ_VEC_U8 (regs (cp2 (ls_state 0xfff)) 1) ((3 + 0 + i) mod 16))
      (ls_state 0xfff) (RSP_SDV ls_target 3 (ls_state 0xfff) 1 0 2)"
    using byte_stores_correct [where e = 3 and t = ls_target and rsp = "ls_state 0xfff" and rt = 1 and offset = 0 and base = 2] by (simp add: ls_state_def)
  then show ?thesis using writes_bytesD(1) [where i = 2] by fastforce
qed

theorem unaligned_quad_round_trip_witness:
  "regs (cp2 (RSP_LRV ls_target 0 (RSP_LQV ls_target 0 (RSP_SRV ls_target 0 (RSP_SQV ls_target 0 (ls_state 0xffb) 1 0 2) 1 1 2) 4 0 2) 4 1 2)) 4 3
     = 0x607"
  using unaligned_quad_round_trip [where rsp' = "RSP_SRV ls_target 0 (RSP_SQV ls_target 0 (ls_state 0xffb) 1 0 2) 1 1 2"
    and t = ls_target and rsp = "ls_state 0xffb" and rt = 1 and rt' = 4 and i = 3 and offset = 0 and base = 2]
  by (simp add: SQV_bytes SRV_bytes store_bytes_run Let_def) (simp add: ls_state_def)

theorem packed_round_trip_witness:
  "regs (cp2 (RSP_LPV ls_target 0 (RSP_SPV ls_target 0 (ls_state 0xffb) 1 0 2) 4 0 2)) 4 3 = 0x600
   \<and> regs (cp2 (RSP_LUV ls_target 0 (RSP_SUV ls_target 0 (ls_state 0xffb) 1 0 2) 4 0 2)) 4 3 = 0x600"
  using packed_round_trip [where t = ls_target and t' = ls_target and rsp = "ls_state 0xffb" and rt = 1 and rt' = 4 and i = 3
      and offset = 0 and base = 2]
    writes_bytesD(4) [OF packed_stores(1) [where rsp = "ls_state 0xffb" and base = 2 and offset = 0 and e = 0 and rt = 1 and t = ls_target]]
    writes_bytesD(4) [OF packed_stores(2) [where rsp = "ls_state 0xffb" and base = 2 and offset = 0 and e = 0 and rt = 1 and t = ls_target]]
  by (simp add: ls_state_def)

theorem store_footprint_witness:
  "dmem (RSP_SDV ls_target 3 (ls_state 0xfff) 1 0 2) 4096 = 0 \<and> dmem (RSP_SHV ls_target 3 (ls_state 0xfff) 1 0 2) 4104 = 8"
  using store_footprint [where e = 3 and x = 4096 and t = ls_target and rsp = "ls_state 0xfff" and rt = 1 and offset = 0 and base = 2]
    store_footprint [where e = 3 and x = 4104 and t = ls_target and rsp = "ls_state 0xfff" and rt = 1 and offset = 0 and base = 2]
  by (simp add: ls_state_def)

theorem store_overruns_dmem_witness:
  "dmem (RSP_SWV ls_target 0 ((ls_state 0)\<lparr>sr := \<lambda>i. if i = 3 then 0xffe else 0xff8\<rparr>) 8 0 2) 4099 = 8"
  using store_overruns_dmem [where rsp = "(ls_state 0)\<lparr>sr := \<lambda>i. if i = 3 then 0xffe else 0xff8\<rparr>" and base = 2 and base' = 3 and rt = 8
    and t = ls_target]
  by (simp add: ls_state_def READ_VEC_U8_def MES_def vec_u8_def)

end
