(* ===== verification/Cp2.thy ===== *)
theory Cp2
  imports Ls
begin

unbundle bit_operations_syntax

text \<open>
  The moves between the scalar and the vector unit, \<open>rsp/cp2.cpp\<close>: CFC2 and CTC2 for the flag words, MTC2 and MFC2 for
  two bytes of a vector register at any byte element.
\<close>

section \<open>Operations\<close>

definition unpack_cp :: "u32 \<Rightarrow> nat \<times> nat \<times> nat" where
  "unpack_cp v = (unat (take_bit 8 v), unat (take_bit 8 (drop_bit 8 v)), unat (drop_bit 16 v))"

definition set_sr :: "nat \<Rightarrow> u32 \<Rightarrow> CPUState \<Rightarrow> CPUState" where
  "set_sr r v rsp = rsp\<lparr>sr := (sr rsp)(r := v)\<rparr>"

definition RSP_CFC2 :: "CPUState \<Rightarrow> nat \<Rightarrow> nat \<Rightarrow> CPUState" where
  "RSP_CFC2 rsp rt rd =
     (let src = rd mod 4;
          src = (if src = 3 then 2 else src);
          res = rsp_get_flags (flags (cp2 rsp) src)
      in if rt \<noteq> 0 then set_sr rt (scast res) rsp else rsp)"

definition RSP_CTC2 :: "CPUState \<Rightarrow> nat \<Rightarrow> nat \<Rightarrow> CPUState" where
  "RSP_CTC2 rsp rt rd =
     (let rt = sr rsp rt AND 0xffff;
          dst = rd mod 4;
          (rt, dst) = (if dst \<ge> 2 then (rt AND 0xff, 2) else (rt, dst))
      in rsp\<lparr>cp2 := (cp2 rsp)\<lparr>flags := (flags (cp2 rsp))(dst := rsp_set_flags (flags (cp2 rsp) dst) (ucast rt))\<rparr>\<rparr>)"

definition RSP_MTC2 :: "CPUState \<Rightarrow> nat \<Rightarrow> nat \<Rightarrow> nat \<Rightarrow> CPUState" where
  "RSP_MTC2 rsp rt rd element =
     (let v = ucast (sr rsp rt) :: u16
      in if odd element then
           let i = element div 2;
               rsp = set_reg rd (\<lambda>e. e(i := (e i AND 0xff00) OR drop_bit 8 v)) rsp
           in if element \<noteq> 0xf then set_reg rd (\<lambda>e. e(i + 1 := (e (i + 1) AND 0xff) OR push_bit 8 v)) rsp else rsp
         else set_reg rd (\<lambda>e. e(element div 2 := v)) rsp)"

definition RSP_MFC2 :: "CPUState \<Rightarrow> nat \<Rightarrow> nat \<Rightarrow> nat \<Rightarrow> CPUState" where
  "RSP_MFC2 rsp rt rd element =
     (if rt = 0 then rsp else
      let e = regs (cp2 rsp) rd; lo = element div 2
      in if odd element then
           let hi = ((element + 1) div 2) mod 8;
               high = push_bit 8 (e lo); low = ucast (drop_bit 8 (e hi)) :: u8
           in set_sr rt (scast (high OR ucast low)) rsp
         else set_sr rt (scast (e lo)) rsp)"

definition run_packed_cp2 :: "(CPUState \<Rightarrow> nat \<Rightarrow> nat \<Rightarrow> nat \<Rightarrow> CPUState) \<Rightarrow> CPUState \<Rightarrow> u32 \<Rightarrow> CPUState" where
  "run_packed_cp2 h rsp v = (case unpack_cp v of (rt, rd, e) \<Rightarrow> h rsp rt rd e)"

section \<open>Flag words\<close>

lemma scast_ucast16: "scast (ucast (w :: u32) :: u16) = signed_take_bit 15 w"
  by (rule bit_word_eqI) (auto simp: bit_simps min_def not_less)

lemma set_get_low_flags:
  assumes "\<forall>k<16. is_mask (f k)"
  shows "rsp_set_flags f (rsp_get_flags f AND 0xff) i = (if i < 8 then 0 else f i)"
  using is_mask_eq [of "f i"] assms
  by (cases "i < 16") (auto simp: set_flags_element set_flags_out and_ones_take_bit bit_take_bit_iff bit_get_flags [OF assms])

text \<open>C26: a flag word written with CTC2 makes its flag vector a vector of masks, whatever it was, keeps the other flags and is read
  back by CFC2, sign extended from 16 bits; VCE holds the low eight bits, and the control register numbers 2 and 3 both name
  it. CFC2 never changes register 0. While the flags are masks, writing back what CFC2 read of VCO or VCC changes nothing in the vector
  unit; of VCE it keeps the low eight flags and clears the others, of which CTC2 writes none.\<close>

theorem flag_word_round_trip:
  fixes rsp :: CPUState and rt rt' rd k :: nat
  assumes "rt' \<noteq> 0" "k < 16"
  defines "s \<equiv> RSP_CTC2 rsp rt rd" and "dst \<equiv> min 2 (rd mod 4)"
  shows "sr (RSP_CFC2 s rt' rd) rt' =
      (if dst = 2 then sr rsp rt AND 0xff else signed_take_bit 15 (sr rsp rt))
    \<and> is_mask (flags (cp2 s) dst k) \<and> (\<forall>r. r \<noteq> dst \<longrightarrow> flags (cp2 s) r = flags (cp2 rsp) r)
    \<and> RSP_CFC2 rsp 0 rd = rsp
    \<and> (flags_ok rsp \<and> dst < 2 \<longrightarrow> cp2 (RSP_CTC2 (RSP_CFC2 rsp rt' rd) rt' rd) = cp2 rsp)
    \<and> (flags_ok rsp \<and> dst = 2 \<longrightarrow> cp2 (RSP_CTC2 (RSP_CFC2 rsp rt' rd) rt' rd) =
         (cp2 rsp)\<lparr>flags := (flags (cp2 rsp))(2 := \<lambda>i. if i < 8 then 0 else flags (cp2 rsp) 2 i)\<rparr>)"
proof -
  have m: "rd mod 4 < 4" by simp
  then have d: "dst < 3" "(if rd mod 4 = 3 then 2 else rd mod 4) = dst" by (auto simp: dst_def)
  define w where "w = (if dst = 2 then sr rsp rt AND 0xff else sr rsp rt AND 0xffff)"
  have s: "s = rsp\<lparr>cp2 := (cp2 rsp)\<lparr>flags := (flags (cp2 rsp))(dst := rsp_set_flags (flags (cp2 rsp) dst) (ucast w))\<rparr>\<rparr>"
    using m unfolding s_def RSP_CTC2_def Let_def w_def dst_def by (auto simp: and.assoc)
  have "scast (ucast w :: u16) = (if dst = 2 then sr rsp rt AND 0xff else signed_take_bit 15 (sr rsp rt))"
    unfolding scast_ucast16 w_def
    by (rule bit_word_eqI) (auto simp: bit_simps and_ones_take_bit min_def)
  then have "sr (RSP_CFC2 s rt' rd) rt' = (if dst = 2 then sr rsp rt AND 0xff else signed_take_bit 15 (sr rsp rt))"
    unfolding RSP_CFC2_def Let_def d(2) using assms(1) by (simp add: s get_set_flags set_sr_def)
  moreover have "is_mask (flags (cp2 s) dst k)" using assms(2) by (simp add: s set_flags_element)
  moreover have "\<forall>r. r \<noteq> dst \<longrightarrow> flags (cp2 s) r = flags (cp2 rsp) r" by (simp add: s)
  moreover have "RSP_CFC2 rsp 0 rd = rsp" by (simp add: RSP_CFC2_def)
  moreover have "cp2 (RSP_CTC2 (RSP_CFC2 rsp rt' rd) rt' rd) = cp2 rsp" if f: "flags_ok rsp" and lt: "dst < 2"
  proof -
    have rd: "rd mod 4 = dst" using lt by (auto simp: dst_def)
    have mk: "\<forall>k<16. is_mask (flags (cp2 rsp) dst k)" using f d(1) by (simp add: flags_ok_iff)
    have u: "ucast ((scast x :: u32) AND 0xffff) = (x :: u16)" for x
      by (rule bit_word_eqI) (auto simp: bit_simps and_ones_take_bit)
    show ?thesis unfolding RSP_CTC2_def RSP_CFC2_def Let_def rd using lt assms(1)
      by (simp add: u set_sr_def set_get_flags [OF mk])
  qed
  moreover have "cp2 (RSP_CTC2 (RSP_CFC2 rsp rt' rd) rt' rd) =
      (cp2 rsp)\<lparr>flags := (flags (cp2 rsp))(2 := \<lambda>i. if i < 8 then 0 else flags (cp2 rsp) 2 i)\<rparr>" if f: "flags_ok rsp" and eq: "dst = 2"
  proof -
    have rd: "rd mod 4 \<ge> 2" "(if rd mod 4 = 3 then 2 else rd mod 4) = 2" using eq d(2) by (auto simp: dst_def)
    have mk: "\<forall>k<16. is_mask (flags (cp2 rsp) 2 k)" using f by (simp add: flags_ok_iff)
    have u: "ucast (((scast x :: u32) AND 0xffff) AND 0xff) = (x AND 0xff :: u16)" for x
      by (rule bit_word_eqI) (auto simp: bit_simps and_ones_take_bit)
    have "rsp_set_flags (flags (cp2 rsp) 2) (rsp_get_flags (flags (cp2 rsp) 2) AND 0xff) = (\<lambda>i. if i < 8 then 0 else flags (cp2 rsp) 2 i)"
      by (rule ext) (rule set_get_low_flags [OF mk])
    then show ?thesis unfolding RSP_CTC2_def RSP_CFC2_def Let_def rd(2) using rd(1) assms(1) by (simp add: u set_sr_def)
  qed
  ultimately show ?thesis by blast
qed

theorem flag_word_round_trip_witness:
  "sr (RSP_CFC2 (RSP_CTC2 (set_sr 1 0x18001 reset_state) 1 1) 2 1) 2 = 0xffff8001"
  using flag_word_round_trip [where rt' = 2 and k = 0 and rsp = "set_sr 1 0x18001 reset_state" and rt = 1 and rd = 1]
  by (simp add: set_sr_def)

section \<open>Register bytes\<close>

lemma write_halves:
  "WRITE_VEC_U8 p (2 * i) b = p(i := (p i AND 0x00ff) OR push_bit 8 (ucast b))"
  "WRITE_VEC_U8 p (2 * i + 1) b = p(i := (p i AND 0xff00) OR ucast b)"
  unfolding WRITE_VEC_U8_def MES_value set_vec_u8_def by simp_all

lemma half_word_bytes:
  fixes v :: u16
  shows "ucast (ucast (drop_bit 8 v) :: u8) = drop_bit 8 v" "push_bit 8 (ucast (ucast v :: u8)) = push_bit 8 v"
    "push_bit 8 (ucast (ucast (drop_bit 8 v) :: u8)) OR ucast (ucast v :: u8) = v"
  by (rule bit_word_eqI; auto simp: bit_simps dest: bit_imp_le_length)+

text \<open>MTC2 writes two consecutive bytes (one at the last element), MFC2 reads two consecutive bytes, wrapping at 16.\<close>

lemma MTC2_bytes:
  assumes "e < 16"
  shows "RSP_MTC2 rsp rt rd e = set_reg rd (\<lambda>r.
    let r = WRITE_VEC_U8 r e (ucast (drop_bit 8 (ucast (sr rsp rt) :: u16)))
    in if e \<noteq> 15 then WRITE_VEC_U8 r (e + 1) (ucast (ucast (sr rsp rt) :: u16)) else r) rsp"
proof -
  define v where "v = (ucast (sr rsp rt) :: u16)"
  obtain i where e: "e = 2 * i \<or> e = 2 * i + 1" by (metis oddE evenE)
  have s: "2 * i + 1 + 1 = 2 * (i + 1)" by simp
  have c: "(((x AND 0x00ff) OR push_bit 8 (ucast (ucast (drop_bit 8 v) :: u8))) AND 0xff00) OR ucast (ucast v :: u8) = v" for x :: u16
    by (rule bit_word_eqI, unfold bit_and_iff bit_or_iff bit_ff00) (auto simp: bit_simps dest: bit_imp_le_length)
  from e show ?thesis
  proof
    assume e: "e = 2 * i"
    have "2 * i \<noteq> 15" by presburger
    then show ?thesis unfolding RSP_MTC2_def Let_def v_def [symmetric] e write_halves fun_upd_same c fun_upd_upd by simp
  next
    assume e: "e = 2 * i + 1"
    show ?thesis unfolding RSP_MTC2_def Let_def v_def [symmetric] e s write_halves half_word_bytes
      by (auto simp: set_reg_comp)
  qed
qed

lemma MFC2_bytes:
  assumes "e < 16" "rt \<noteq> 0"
  shows "RSP_MFC2 rsp rt rd e = set_sr rt (scast (push_bit 8 (ucast (READ_VEC_U8 (regs (cp2 rsp) rd) e))
    OR ucast (READ_VEC_U8 (regs (cp2 rsp) rd) ((e + 1) mod 16)) :: u16)) rsp"
proof -
  obtain i where e: "e = 2 * i \<or> e = 2 * i + 1" by (metis oddE evenE)
  then have i: "i < 8" using assms(1) by auto
  from e show ?thesis
  proof
    assume e: "e = 2 * i"
    moreover have "(e + 1) mod 16 = 2 * i + 1" using e i by simp
    ultimately show ?thesis unfolding RSP_MFC2_def Let_def using assms(2) by (simp only: READ_VEC_halves half_word_bytes(3)) simp
  next
    assume e: "e = 2 * i + 1"
    have "(e + 1) mod 16 = 2 * ((i + 1) mod 8)" unfolding e by (simp add: mult_mod_right)
    moreover have "(e + 1) div 2 = i + 1" "e div 2 = i" "odd e" using e by simp_all
    ultimately show ?thesis unfolding RSP_MFC2_def Let_def using assms(2)
      by (simp only: READ_VEC_halves half_word_bytes e) simp
  qed
qed

text \<open>C27: a half word written into a vector register with MTC2 is read back by MFC2 sign extended, at every byte element but
  the last; there MTC2 stores the upper byte only and MFC2 takes the lower one from byte 0. MTC2 changes no other byte.\<close>

theorem element_move_round_trip:
  fixes rsp :: CPUState and rt rt' rd e k :: nat
  assumes "e < 16" "rt' \<noteq> 0"
  defines "s \<equiv> RSP_MTC2 rsp rt rd e" and "byte \<equiv> \<lambda>s. READ_VEC_U8 (regs (cp2 s) rd)"
  shows "sr (RSP_MFC2 s rt' rd e) rt' = (if e < 15 then signed_take_bit 15 (sr rsp rt)
      else scast ((ucast (sr rsp rt) AND 0xff00) OR ucast (byte rsp 0) :: u16))
    \<and> (k \<noteq> e \<and> k \<noteq> e + 1 \<longrightarrow> byte s k = byte rsp k)
    \<and> cp2 (RSP_MFC2 s rt' rd e) = cp2 s \<and> (\<forall>r. r \<noteq> rd \<longrightarrow> regs (cp2 s) r = regs (cp2 rsp) r)"
proof -
  define v where "v = (ucast (sr rsp rt) :: u16)"
  have b: "byte s k = (if k = e then ucast (drop_bit 8 v) else if k = e + 1 \<and> e \<noteq> 15 then ucast v else byte rsp k)" for k
    unfolding s_def byte_def v_def MTC2_bytes [OF assms(1)] by (simp add: Let_def vreg.rd_wr)
  have "push_bit 8 (ucast (ucast (drop_bit 8 v) :: u8)) = v AND 0xff00"
    by (rule bit_word_eqI, unfold bit_and_iff bit_ff00) (auto simp: bit_simps dest: bit_imp_le_length)
  then have "sr (RSP_MFC2 s rt' rd e) rt' = (if e < 15 then scast v else scast ((v AND 0xff00) OR ucast (byte rsp 0) :: u16))"
    unfolding MFC2_bytes [OF assms(1,2)] using assms(1) half_word_bytes(3) [of v] b [unfolded byte_def]
    by (cases "e = 15") (auto simp: set_sr_def byte_def)
  moreover have "cp2 (RSP_MFC2 s rt' rd e) = cp2 s" by (simp add: RSP_MFC2_def Let_def set_sr_def)
  moreover have "\<forall>r. r \<noteq> rd \<longrightarrow> regs (cp2 s) r = regs (cp2 rsp) r" unfolding s_def MTC2_bytes [OF assms(1)] by simp
  ultimately show ?thesis using b unfolding v_def scast_ucast16 by simp
qed

theorem element_move_round_trip_witness:
  "sr (RSP_MFC2 (RSP_MTC2 (set_sr 1 0x1234ffee reset_state) 1 7 5) 2 7 5) 2 = 0xffffffee"
  using element_move_round_trip [where e = 5 and rt' = 2 and rsp = "set_sr 1 0x1234ffee reset_state" and rt = 1 and rd = 7 and k = 0]
  by (simp add: set_sr_def)

end
