(* ===== verification/Cp0.thy ===== *)
theory Cp0
  imports Cp2
begin

unbundle bit_operations_syntax

text \<open>
  The system control registers, \<open>rsp/cp0.cpp\<close>: reading a control register with the status time-out, the status register
  commands, and the DMA engine between RDRAM and the two local memories. \<open>PARALLEL_INTEGRATION\<close> is a build option and a
  field of \<open>cp0_host\<close>; the plugin's globals that the functions use are its other fields. \<open>ProcessRdpList\<close> is a callback of
  the host and a parameter. A pointer \<open>cr[i]\<close> is modelled by the value it points to; \<open>SP_STATUS_REG\<close> of the plugin
  interface is the register \<open>cr[CP0_REGISTER_SP_STATUS]\<close> points to. The loops of a DMA are \<open>do\<close> loops; their indices are below
  4096 and 256, so they are counted in \<open>nat\<close>, while addresses wrap at 32 bits.
\<close>

section \<open>Registers\<close>

datatype ReturnMode = MODE_ENTER | MODE_CONTINUE | MODE_BREAK | MODE_DMA_READ | MODE_CHECK_FLAGS

record cp0_host =
  parallel_integration :: bool
  graphics_hle :: bool
  SP_STATUS_TIMEOUT :: int
  MFC0_count :: "nat \<Rightarrow> u16"

abbreviation (input) "CP0_REGISTER_DMA_CACHE \<equiv> 0 :: nat"
abbreviation (input) "CP0_REGISTER_DMA_DRAM \<equiv> 1 :: nat"
abbreviation (input) "CP0_REGISTER_DMA_READ_LENGTH \<equiv> 2 :: nat"
abbreviation (input) "CP0_REGISTER_DMA_WRITE_LENGTH \<equiv> 3 :: nat"
abbreviation (input) "CP0_REGISTER_SP_STATUS \<equiv> 4 :: nat"
abbreviation (input) "CP0_REGISTER_SP_SEMAPHORE \<equiv> 7 :: nat"
abbreviation (input) "CP0_REGISTER_CMD_START \<equiv> 8 :: nat"
abbreviation (input) "CP0_REGISTER_CMD_END \<equiv> 9 :: nat"
abbreviation (input) "CP0_REGISTER_CMD_CURRENT \<equiv> 10 :: nat"
abbreviation (input) "CP0_REGISTER_CMD_STATUS \<equiv> 11 :: nat"
abbreviation (input) "CP0_REGISTER_CMD_CLOCK \<equiv> 12 :: nat"
abbreviation (input) "CP0_REGISTER_CMD_TMEM_BUSY \<equiv> 15 :: nat"

definition set_cr :: "nat \<Rightarrow> u32 \<Rightarrow> CPUState \<Rightarrow> CPUState" where
  "set_cr r v rsp = rsp\<lparr>cp0 := (cp0 rsp)\<lparr>cr := (cr (cp0 rsp))(r := v)\<rparr>\<rparr>"

definition SP_STATUS_HALT :: u32 where "SP_STATUS_HALT = 0x0001"
definition SP_STATUS_BROKE :: u32 where "SP_STATUS_BROKE = 0x0002"

definition RSP_MFC0 :: "cp0_host \<Rightarrow> CPUState \<Rightarrow> nat \<Rightarrow> nat \<Rightarrow> cp0_host \<times> CPUState \<times> ReturnMode" where
  "RSP_MFC0 h rsp rt rd =
     (let rd = rd mod 16;
          res = cr (cp0 rsp) rd;
          rsp = (if rt \<noteq> 0 then set_sr rt res rsp else rsp);
          poll = parallel_integration h \<and> rd = CP0_REGISTER_SP_STATUS;
          h = (if poll then h\<lparr>MFC0_count := (MFC0_count h)(rt := MFC0_count h rt + 1)\<rparr> else h)
      in if poll \<and> sint (MFC0_count h rt) \<ge> SP_STATUS_TIMEOUT h then
           (h, set_cr CP0_REGISTER_SP_STATUS (cr (cp0 rsp) CP0_REGISTER_SP_STATUS OR SP_STATUS_HALT) rsp, MODE_CHECK_FLAGS)
         else
           let rsp = (if rd = CP0_REGISTER_SP_SEMAPHORE \<and> parallel_integration h \<and> graphics_hle h then set_sr rt 0 rsp else rsp)
           in (h, rsp, MODE_CONTINUE))"

section \<open>Status commands\<close>

text \<open>\<open>RSP_HANDLE_STATUS_WRITE\<close>: a flag has a set and a clear command; both or none leave it.\<close>

definition handle_status_write :: "u32 \<Rightarrow> u32 \<Rightarrow> u32 \<Rightarrow> u32 \<Rightarrow> u32 \<Rightarrow> u32" where
  "handle_status_write rt sp_set sp_clr flag status =
     (if rt AND (sp_set OR sp_clr) = sp_set then status OR flag
      else if rt AND (sp_set OR sp_clr) = sp_clr then status AND NOT flag
      else status)"

definition rsp_status_write :: "CPUState \<Rightarrow> u32 \<Rightarrow> CPUState \<times> ReturnMode" where
  "rsp_status_write rsp rt =
     (let status = cr (cp0 rsp) CP0_REGISTER_SP_STATUS;
          status = handle_status_write rt 0x2 0x1 SP_STATUS_HALT status;
          status = handle_status_write rt 0x40 0x20 0x20 status;
          status = handle_status_write rt 0x100 0x80 0x40 status;
          status = handle_status_write rt 0x400 0x200 0x80 status;
          status = handle_status_write rt 0x1000 0x800 0x100 status;
          status = handle_status_write rt 0x4000 0x2000 0x200 status;
          status = handle_status_write rt 0x10000 0x8000 0x400 status;
          status = handle_status_write rt 0x40000 0x20000 0x800 status;
          status = handle_status_write rt 0x100000 0x80000 0x1000 status;
          status = handle_status_write rt 0x400000 0x200000 0x2000 status;
          status = handle_status_write rt 0x1000000 0x800000 0x4000 status;
          i = irq (cp0 rsp);
          i = (if rt AND (0x10 OR 0x8) = 0x10 then i OR 1 else if rt AND (0x10 OR 0x8) = 0x8 then i AND NOT 1 else i);
          status = (if rt AND 0x4 \<noteq> 0 then status AND NOT SP_STATUS_BROKE else status);
          rsp = rsp\<lparr>cp0 := (cp0 rsp)\<lparr>irq := i\<rparr>\<rparr>;
          rsp = set_cr CP0_REGISTER_SP_STATUS status rsp
      in (rsp, if i AND 1 \<noteq> 0 \<or> status AND SP_STATUS_HALT \<noteq> 0 then MODE_CHECK_FLAGS else MODE_CONTINUE))"

section \<open>DMA\<close>

definition host_u32 :: "(nat \<Rightarrow> u8) \<Rightarrow> nat \<Rightarrow> u32" where
  "host_u32 m k = vec (\<lambda>i. m (4 * k + i))"

definition set_host_u32 :: "(nat \<Rightarrow> u8) \<Rightarrow> nat \<Rightarrow> u32 \<Rightarrow> nat \<Rightarrow> u8" where
  "set_host_u32 m k x = (\<lambda>a. if a div 4 = k then lane x (a mod 4) else m a)"

definition dma_read_word :: "u32 \<Rightarrow> u32 \<Rightarrow> nat \<Rightarrow> CPUState \<Rightarrow> CPUState" where
  "dma_read_word source dest j rsp =
     (let source_addr = (source + word_of_nat j) AND 0x7FFFFC;
          dest_addr = (dest + word_of_nat j) AND 0x1FFC;
          word = rdram rsp (unat (drop_bit 2 source_addr))
      in if dest_addr AND 0x1000 \<noteq> 0 then
           let block = unat (dest_addr AND 0xfff) div 256;
               rsp = rsp\<lparr>dirty_blocks := dirty_blocks rsp OR drop_bit 1 (push_bit block 0x3)\<rparr>
           in rsp\<lparr>imem := (imem rsp)(unat (drop_bit 2 (dest_addr AND 0xfff)) := word)\<rparr>
         else set_dmem (\<lambda>m. set_host_u32 m (unat (drop_bit 2 dest_addr)) word) rsp)"

function dma_read_row :: "u32 \<Rightarrow> u32 \<Rightarrow> nat \<Rightarrow> nat \<Rightarrow> CPUState \<Rightarrow> CPUState" where
  "dma_read_row source dest len j rsp =
     (let rsp = dma_read_word source dest j rsp
      in if j + 4 < len then dma_read_row source dest len (j + 4) rsp else rsp)"
  by auto
termination by (relation "measure (\<lambda>(source, dest, len, j, rsp). len - j)") auto

function dma_read_rows :: "u32 \<Rightarrow> u32 \<Rightarrow> nat \<Rightarrow> nat \<Rightarrow> u32 \<Rightarrow> u32 \<Rightarrow> CPUState \<Rightarrow> u32 \<times> u32 \<times> CPUState" where
  "dma_read_rows len skip count i source dest rsp =
     (let rsp = dma_read_row source dest (unat len) 0 rsp;
          source = source + (len + skip);
          dest = dest + len
      in if i + 1 \<le> count then dma_read_rows len skip count (i + 1) source dest rsp else (source, dest, rsp))"
  by auto
termination by (relation "measure (\<lambda>(len, skip, count, i, source, dest, rsp). count - i)") auto

definition dma_length :: "u32 \<Rightarrow> u32 \<Rightarrow> u32" where
  "dma_length length_reg cache =
     (let len = (length_reg AND 0xFFF) + 1;
          len = (len + 0x7) AND NOT 0x7
      in if (cache AND 0xFFF) + len > 0x1000 then 0x1000 - (cache AND 0xFFF) else len)"

definition rsp_dma_read :: "CPUState \<Rightarrow> CPUState \<times> ReturnMode" where
  "rsp_dma_read rsp =
     (let length_reg = cr (cp0 rsp) CP0_REGISTER_DMA_READ_LENGTH;
          skip = drop_bit 20 length_reg AND 0xFFF;
          count = unat (drop_bit 12 length_reg AND 0xFF);
          rsp = set_cr CP0_REGISTER_DMA_CACHE (cr (cp0 rsp) CP0_REGISTER_DMA_CACHE AND NOT 0x7) rsp;
          rsp = set_cr CP0_REGISTER_DMA_DRAM (cr (cp0 rsp) CP0_REGISTER_DMA_DRAM AND NOT 0x7) rsp;
          len = dma_length length_reg (cr (cp0 rsp) CP0_REGISTER_DMA_CACHE);
          source = cr (cp0 rsp) CP0_REGISTER_DMA_DRAM;
          dest = cr (cp0 rsp) CP0_REGISTER_DMA_CACHE;
          (source, dest, rsp) = dma_read_rows len skip count 0 source dest rsp;
          rsp = set_cr CP0_REGISTER_DMA_DRAM source rsp;
          rsp = set_cr CP0_REGISTER_DMA_CACHE dest rsp;
          rsp = set_cr CP0_REGISTER_DMA_READ_LENGTH 0xff8 rsp
      in (rsp, if dirty_blocks rsp \<noteq> 0 then MODE_CHECK_FLAGS else MODE_CONTINUE))"

definition dma_write_word :: "u32 \<Rightarrow> u32 \<Rightarrow> nat \<Rightarrow> CPUState \<Rightarrow> CPUState" where
  "dma_write_word source dest j rsp =
     (let source_addr = (source + word_of_nat j) AND 0x1FFC;
          dest_addr = (dest + word_of_nat j) AND 0x7FFFFC
      in rsp\<lparr>rdram := (rdram rsp)(unat (drop_bit 2 dest_addr) :=
           (if source_addr AND 0x1000 \<noteq> 0 then imem rsp (unat (drop_bit 2 (source_addr AND 0xfff)))
            else host_u32 (dmem rsp) (unat (drop_bit 2 source_addr))))\<rparr>)"

function dma_write_row :: "u32 \<Rightarrow> u32 \<Rightarrow> nat \<Rightarrow> nat \<Rightarrow> CPUState \<Rightarrow> CPUState" where
  "dma_write_row source dest len j rsp =
     (let rsp = dma_write_word source dest j rsp
      in if j + 4 < len then dma_write_row source dest len (j + 4) rsp else rsp)"
  by auto
termination by (relation "measure (\<lambda>(source, dest, len, j, rsp). len - j)") auto

function dma_write_rows :: "u32 \<Rightarrow> u32 \<Rightarrow> nat \<Rightarrow> nat \<Rightarrow> u32 \<Rightarrow> u32 \<Rightarrow> CPUState \<Rightarrow> u32 \<times> u32 \<times> CPUState" where
  "dma_write_rows len skip count i source dest rsp =
     (let rsp = dma_write_row source dest (unat len) 0 rsp;
          source = source + len;
          dest = dest + (len + skip)
      in if i + 1 \<le> count then dma_write_rows len skip count (i + 1) source dest rsp else (source, dest, rsp))"
  by auto
termination by (relation "measure (\<lambda>(len, skip, count, i, source, dest, rsp). count - i)") auto

definition rsp_dma_write :: "CPUState \<Rightarrow> CPUState" where
  "rsp_dma_write rsp =
     (let length_reg = cr (cp0 rsp) CP0_REGISTER_DMA_WRITE_LENGTH;
          skip = drop_bit 20 length_reg AND 0xFFF;
          count = unat (drop_bit 12 length_reg AND 0xFF);
          rsp = set_cr CP0_REGISTER_DMA_CACHE (cr (cp0 rsp) CP0_REGISTER_DMA_CACHE AND NOT 0x3) rsp;
          rsp = set_cr CP0_REGISTER_DMA_DRAM (cr (cp0 rsp) CP0_REGISTER_DMA_DRAM AND NOT 0x7) rsp;
          len = dma_length length_reg (cr (cp0 rsp) CP0_REGISTER_DMA_CACHE);
          dest = cr (cp0 rsp) CP0_REGISTER_DMA_DRAM;
          source = cr (cp0 rsp) CP0_REGISTER_DMA_CACHE;
          (source, dest, rsp) = dma_write_rows len skip count 0 source dest rsp;
          rsp = set_cr CP0_REGISTER_DMA_CACHE source rsp;
          rsp = set_cr CP0_REGISTER_DMA_DRAM dest rsp
      in set_cr CP0_REGISTER_DMA_WRITE_LENGTH 0xff8 rsp)"

section \<open>Register writes\<close>

definition RSP_MTC0 :: "(CPUState \<Rightarrow> CPUState) \<Rightarrow> cp0_host \<Rightarrow> CPUState \<Rightarrow> nat \<Rightarrow> nat \<Rightarrow> CPUState \<times> ReturnMode" where
  "RSP_MTC0 ProcessRdpList h rsp rd rt =
     (let val = sr rsp rt; r = rd mod 16; reg = (\<lambda>r. cr (cp0 rsp) r); bool = (\<lambda>b. of_bool (val AND b \<noteq> 0) :: u32)
      in if r = CP0_REGISTER_DMA_CACHE then (set_cr r (val AND 0x1fff) rsp, MODE_CONTINUE)
         else if r = CP0_REGISTER_DMA_DRAM then (set_cr r (val AND 0xffffff) rsp, MODE_CONTINUE)
         else if r = CP0_REGISTER_DMA_READ_LENGTH then
           (if parallel_integration h then rsp_dma_read (set_cr r val rsp) else (set_cr r val rsp, MODE_DMA_READ))
         else if r = CP0_REGISTER_DMA_WRITE_LENGTH then
           (if parallel_integration h then rsp_dma_write (set_cr r val rsp) else set_cr r val rsp, MODE_CONTINUE)
         else if r = CP0_REGISTER_SP_STATUS then rsp_status_write rsp val
         else if r = CP0_REGISTER_SP_SEMAPHORE then (set_cr r 0 rsp, MODE_CONTINUE)
         else if r = CP0_REGISTER_CMD_START then
           (let v = val AND 0xfffffff8
            in (set_cr CP0_REGISTER_CMD_START v (set_cr CP0_REGISTER_CMD_CURRENT v (set_cr CP0_REGISTER_CMD_END v rsp)), MODE_CONTINUE))
         else if r = CP0_REGISTER_CMD_END then
           (let rsp = set_cr r (val AND 0xfffffff8) rsp
            in (if parallel_integration h then ProcessRdpList rsp else rsp, MODE_CONTINUE))
         else if r = CP0_REGISTER_CMD_CLOCK then (set_cr r val rsp, MODE_CONTINUE)
         else if r = CP0_REGISTER_CMD_STATUS then
           (let s = reg CP0_REGISTER_CMD_STATUS;
                s = s AND NOT (push_bit 0 (bool 0x1)); s = s OR push_bit 0 (bool 0x2);
                s = s AND NOT (push_bit 1 (bool 0x4)); s = s OR push_bit 1 (bool 0x8);
                s = s AND NOT (push_bit 2 (bool 0x10)); s = s OR push_bit 2 (bool 0x20);
                rsp = set_cr CP0_REGISTER_CMD_STATUS s rsp;
                rsp = set_cr CP0_REGISTER_CMD_TMEM_BUSY (reg CP0_REGISTER_CMD_TMEM_BUSY AND (of_bool (val AND 0x40 = 0) * - 1)) rsp;
                rsp = set_cr CP0_REGISTER_CMD_CLOCK (reg CP0_REGISTER_CMD_CLOCK AND (of_bool (val AND 0x200 = 0) * - 1)) rsp
            in (rsp, MODE_CONTINUE))
         else if r \<in> {10, 13, 14, 15} then (rsp, MODE_CONTINUE)
         else (set_cr r val rsp, MODE_CONTINUE))"

definition run_packed_mfc0 :: "cp0_host \<Rightarrow> CPUState \<Rightarrow> u32 \<Rightarrow> cp0_host \<times> CPUState \<times> ReturnMode" where
  "run_packed_mfc0 h rsp v = (case unpack_cp v of (rt, rd, _) \<Rightarrow> RSP_MFC0 h rsp rt rd)"

definition run_packed_mtc0 :: "(CPUState \<Rightarrow> CPUState) \<Rightarrow> cp0_host \<Rightarrow> CPUState \<Rightarrow> u32 \<Rightarrow> CPUState \<times> ReturnMode" where
  "run_packed_mtc0 rdp h rsp v = (case unpack_cp v of (rt, rd, _) \<Rightarrow> RSP_MTC0 rdp h rsp rd rt)"

declare dma_read_row.simps [simp del] dma_read_rows.simps [simp del] dma_write_row.simps [simp del] dma_write_rows.simps [simp del]

lemma set_cr_simps [simp]:
  "cr (cp0 (set_cr r v rsp)) = (cr (cp0 rsp))(r := v)" "irq (cp0 (set_cr r v rsp)) = irq (cp0 rsp)"
  "sr (set_cr r v rsp) = sr rsp" "dmem (set_cr r v rsp) = dmem rsp" "imem (set_cr r v rsp) = imem rsp"
  "rdram (set_cr r v rsp) = rdram rsp" "cp2 (set_cr r v rsp) = cp2 rsp" "dirty_blocks (set_cr r v rsp) = dirty_blocks rsp"
  "pc (set_cr r v rsp) = pc rsp"
  by (simp_all add: set_cr_def)

section \<open>Status\<close>

lemma two_bits:
  fixes rt :: u32
  assumes "s < 32" "c < 32" "s \<noteq> c"
  shows "rt AND (push_bit s 1 OR push_bit c 1) = push_bit s 1 \<longleftrightarrow> bit rt s \<and> \<not> bit rt c"
proof
  assume e: "rt AND (push_bit s 1 OR push_bit c 1) = push_bit s 1"
  then have "bit (rt AND (push_bit s 1 OR push_bit c 1)) n = bit (push_bit s 1 :: u32) n" for n by simp
  from this [of s] this [of c] show "bit rt s \<and> \<not> bit rt c" using assms by (auto simp: bit_simps)
next
  assume "bit rt s \<and> \<not> bit rt c"
  then show "rt AND (push_bit s 1 OR push_bit c 1) = push_bit s 1"
    by (intro bit_word_eqI) (auto simp: bit_simps bit_1_iff)
qed

definition commanded :: "bool \<Rightarrow> bool \<Rightarrow> bool \<Rightarrow> bool" where
  "commanded set_cmd clr_cmd old = (if set_cmd \<and> \<not> clr_cmd then True else if clr_cmd \<and> \<not> set_cmd then False else old)"

lemma bit_handle_status_write:
  assumes "s < 32" "c < 32" "s \<noteq> c" "f < 32"
  shows "bit (handle_status_write rt (push_bit s 1) (push_bit c 1) (push_bit f 1) st) n =
    (if n = f then commanded (bit rt s) (bit rt c) (bit st n) else bit st n)"
proof -
  have "rt AND (push_bit s 1 OR push_bit c 1) = push_bit c 1 \<longleftrightarrow> bit rt c \<and> \<not> bit rt s"
    using two_bits [of c s rt] assms by (simp add: or.commute)
  then show ?thesis using two_bits [of s c rt] assms
    by (auto simp: handle_status_write_def commanded_def bit_simps bit_1_iff dest: bit_imp_le_length)
qed

lemmas status_flag = bit_handle_status_write [where s = 1 and c = 0 and f = 0, simplified] bit_handle_status_write [where s = 6 and c = 5 and f = 5, simplified]
  bit_handle_status_write [where s = 8 and c = 7 and f = 6, simplified] bit_handle_status_write [where s = 10 and c = 9 and f = 7, simplified]
  bit_handle_status_write [where s = 12 and c = 11 and f = 8, simplified] bit_handle_status_write [where s = 14 and c = 13 and f = 9, simplified]
  bit_handle_status_write [where s = 16 and c = 15 and f = 10, simplified] bit_handle_status_write [where s = 18 and c = 17 and f = 11, simplified]
  bit_handle_status_write [where s = 20 and c = 19 and f = 12, simplified] bit_handle_status_write [where s = 22 and c = 21 and f = 13, simplified]
  bit_handle_status_write [where s = 24 and c = 23 and f = 14, simplified]

text \<open>The flags of the status register: bit, clear command, set command.\<close>

definition status_flags :: "(nat \<times> nat \<times> nat) list" where
  "status_flags = (0, 0, 1) # (5, 5, 6) # (6, 7, 8) # map (\<lambda>k. (7 + k, 9 + 2 * k, 10 + 2 * k)) [0..<8]"

lemma low_bit: "(w AND 1 \<noteq> 0) = bit w 0" for w :: u32
  by (simp add: bit_0 and_one_eq odd_iff_mod_2_eq_one)

lemma bit2_test: "(w AND 4 \<noteq> 0) = bit w 2" for w :: u32
  using bit_iff_and_push_bit_not_eq_0 [of w 2] by simp

text \<open>C24: a write to the status register. Every flag follows its own pair of commands (set, clear; both or none keep it), BROKE
  can only be cleared, no other bit of the status changes, the interrupt line follows its commands, and the processor is made
  to check its flags exactly when it is then interrupted or halted. Nothing else of the state changes.\<close>

theorem status_write_correct:
  fixes rsp :: CPUState and val :: u32
  defines "s \<equiv> fst (rsp_status_write rsp val)"
    and "status \<equiv> \<lambda>s. cr (cp0 s) 4" and "line \<equiv> \<lambda>s. irq (cp0 s)"
  shows "list_all (\<lambda>(f, c, st). bit (status s) f = commanded (bit val st) (bit val c) (bit (status rsp) f)) status_flags
    \<and> bit (status s) 1 = (bit (status rsp) 1 \<and> \<not> bit val 2)
    \<and> list_all (\<lambda>n. bit (status s) n = bit (status rsp) n) ([2, 3, 4] @ [15..<32])
    \<and> bit (line s) 0 = commanded (bit val 4) (bit val 3) (bit (line rsp) 0) \<and> drop_bit 1 (line s) = drop_bit 1 (line rsp)
    \<and> snd (rsp_status_write rsp val) = (if bit (line s) 0 \<or> bit (status s) 0 then MODE_CHECK_FLAGS else MODE_CONTINUE)
    \<and> s = rsp\<lparr>cp0 := (cp0 rsp)\<lparr>irq := line s, cr := (cr (cp0 rsp))(4 := status s)\<rparr>\<rparr>"
proof -
  have broke: "bit (if val AND 4 \<noteq> 0 then st AND NOT SP_STATUS_BROKE else st) n = (bit st n \<and> (n = 1 \<longrightarrow> \<not> bit val 2))" for st n
    unfolding bit2_test by (auto simp: SP_STATUS_BROKE_def bit_simps dest: bit_imp_le_length)
  have bits: "bit (status s) n = (if n = 1 then bit (status rsp) 1 \<and> \<not> bit val 2
      else case map_of status_flags n of Some (c, st) \<Rightarrow> commanded (bit val st) (bit val c) (bit (status rsp) n) | None \<Rightarrow> bit (status rsp) n)" for n
  proof -
    have sf: "status_flags = [(0, 0, 1), (5, 5, 6), (6, 7, 8), (7, 9, 10), (8, 11, 12), (9, 13, 14), (10, 15, 16), (11, 17, 18), (12, 19, 20),
        (13, 21, 22), (14, 23, 24)]" by code_simp
    show ?thesis
      unfolding s_def status_def rsp_status_write_def Let_def fst_conv set_cr_simps fun_upd_same broke sf SP_STATUS_HALT_def
      by (auto simp: status_flag simp del: One_nat_def)
  qed
  have line: "line s = handle_status_write val 0x10 0x8 1 (line rsp)"
    by (simp add: s_def line_def rsp_status_write_def Let_def handle_status_write_def set_cr_def)
  note bit_line = bit_handle_status_write [where s = 4 and c = 3 and f = 0 and rt = val, simplified]
  have "list_all (\<lambda>(f, c, st). bit (status s) f = commanded (bit val st) (bit val c) (bit (status rsp) f)) status_flags"
    "list_all (\<lambda>n. bit (status s) n = bit (status rsp) n) ([2, 3, 4] @ [15..<32])"
    unfolding bits by (simp_all add: status_flags_def upt_rec)
  moreover have "bit (status s) 1 = (bit (status rsp) 1 \<and> \<not> bit val 2)" unfolding bits by simp
  moreover have "bit (line s) 0 = commanded (bit val 4) (bit val 3) (bit (line rsp) 0)" unfolding line bit_line by simp
  moreover have "drop_bit 1 (line s) = drop_bit 1 (line rsp)"
    by (rule bit_word_eqI) (simp add: bit_drop_bit_eq line bit_line)
  moreover have "snd (rsp_status_write rsp val) = (if bit (line s) 0 \<or> bit (status s) 0 then MODE_CHECK_FLAGS else MODE_CONTINUE)"
    by (simp add: rsp_status_write_def Let_def s_def line_def status_def low_bit SP_STATUS_HALT_def set_cr_def bit_0 and_one_eq odd_iff_mod_2_eq_one)
  moreover have "s = rsp\<lparr>cp0 := (cp0 rsp)\<lparr>irq := line s, cr := (cr (cp0 rsp))(4 := status s)\<rparr>\<rparr>"
    by (simp add: s_def line_def status_def rsp_status_write_def Let_def set_cr_def)
  ultimately show ?thesis by blast
qed

section \<open>DMA transfers\<close>

text \<open>The two local memories as one array of words: DMEM below 1024, IMEM above.\<close>

definition spmem :: "CPUState \<Rightarrow> nat \<Rightarrow> u32" where
  "spmem rsp a = (if a < 1024 then host_u32 (dmem rsp) a else imem rsp (a - 1024))"

definition sp_index :: "u32 \<Rightarrow> nat" where
  "sp_index a = unat a div 4 mod 2048"

definition dram_index :: "u32 \<Rightarrow> nat" where
  "dram_index a = unat a div 4 mod 2 ^ 21"

interpretation words: array_access "\<lambda>m a. m a" "\<lambda>m a v. m(a := v)"
  by unfold_locales auto

lemma address_fields:
  "unat (drop_bit 2 (a AND 0x7FFFFC)) = dram_index a" "unat (drop_bit 2 (a AND 0x1FFC)) = sp_index a"
  "unat (drop_bit 2 ((a AND 0x1FFC) AND 0xfff)) = sp_index a mod 1024"
  "unat ((a AND 0x1FFC) AND 0xfff) div 256 = sp_index a mod 1024 div 64"
  "((a AND 0x1FFC) AND 0x1000 \<noteq> 0) = (1024 \<le> sp_index a)"
proof -
  have d: "drop_bit 2 (a AND 0x7FFFFC) = take_bit 21 (drop_bit 2 a)" "drop_bit 2 (a AND 0x1FFC) = take_bit 11 (drop_bit 2 a)"
    "(a AND 0x1FFC) AND 0xfff = a AND 0xffc" "drop_bit 2 (a AND 0xffc) = take_bit 10 (drop_bit 2 a)"
    "drop_bit 8 (a AND 0xffc) = take_bit 4 (drop_bit 8 a)"
    by (simp_all add: take_bit_eq_mask mask_eq_exp_minus_1 and.assoc)
  have ud: "unat (drop_bit k w) = unat w div 2 ^ k" for k and w :: u32
    unfolding unat_drop_bit_eq by (rule drop_bit_eq_div)
  have u: "unat (drop_bit 2 a) = unat a div 4" "unat (drop_bit 8 a) = unat a div 256"
    unfolding ud by simp_all
  show "unat (drop_bit 2 (a AND 0x7FFFFC)) = dram_index a" "unat (drop_bit 2 (a AND 0x1FFC)) = sp_index a"
    unfolding d unsigned_take_bit_eq u by (simp_all add: dram_index_def sp_index_def take_bit_eq_mod)
  show "unat (drop_bit 2 ((a AND 0x1FFC) AND 0xfff)) = sp_index a mod 1024"
    unfolding d unsigned_take_bit_eq u by (simp add: sp_index_def take_bit_eq_mod mod_mod_cancel)
  show "unat ((a AND 0x1FFC) AND 0xfff) div 256 = sp_index a mod 1024 div 64"
  proof -
    have "unat (a AND 0xffc) div 256 = unat (drop_bit 8 (a AND 0xffc))" unfolding ud by simp
    also have "\<dots> = take_bit 4 (drop_bit 6 (unat a div 4))"
      unfolding d unsigned_take_bit_eq u by (simp add: drop_bit_eq_div div_mult2_eq [symmetric])
    also have "\<dots> = drop_bit 6 (take_bit 10 (unat a div 4))" by (simp add: drop_bit_take_bit)
    finally show ?thesis unfolding d by (simp add: sp_index_def take_bit_eq_mod drop_bit_eq_div mod_mod_cancel)
  qed
  show "((a AND 0x1FFC) AND 0x1000 \<noteq> 0) = (1024 \<le> sp_index a)"
  proof -
    have "(a AND 0x1FFC) AND 0x1000 = a AND push_bit 12 1" by (simp add: and.assoc)
    moreover have "bit (unat a div 4) 10 = bit a 12" unfolding u(1) [symmetric] by (simp add: bit_unsigned_iff bit_drop_bit_eq)
    ultimately have "((a AND 0x1FFC) AND 0x1000 \<noteq> 0) = bit (unat a div 4) 10"
      unfolding bit_iff_and_push_bit_not_eq_0 [of a 12] by simp
    moreover have "sp_index a = 1024 * of_bool (bit (unat a div 4) 10) + take_bit 10 (unat a div 4)"
      using take_bit_Suc_from_most [of 10 "unat a div 4"] by (simp add: sp_index_def take_bit_eq_mod)
    moreover have "take_bit 10 (unat a div 4) < 1024" using take_bit_nat_less_exp [of 10] by simp
    ultimately show ?thesis by simp
  qed
qed

lemma host_u32_set: "host_u32 (set_host_u32 m k x) a = (if a = k then x else host_u32 m a)"
proof (rule vec_eqI [where 'w = 8])
  fix i assume "i < lane_count TYPE(32) TYPE(8)"
  then have i: "i < 4" by simp
  then have "(4 * a + i) div 4 = a" "(4 * a + i) mod 4 = i" by simp_all
  then show "(lane (host_u32 (set_host_u32 m k x) a) i :: u8) = lane (if a = k then x else host_u32 m a) i"
    using i by (simp add: host_u32_def lane_vec set_host_u32_def)
qed simp

text \<open>A DMA read moves one word into the local memories and marks the code block it lands in.\<close>

lemma dma_read_word_effect:
  fixes source dest :: u32 and j :: nat
  defines "d \<equiv> sp_index (dest + word_of_nat j)" and "s \<equiv> dram_index (source + word_of_nat j)"
  shows "spmem (dma_read_word source dest j rsp) = (spmem rsp)(d := rdram rsp s)"
    "dirty_blocks (dma_read_word source dest j rsp) =
      (if d < 1024 then dirty_blocks rsp else dirty_blocks rsp OR drop_bit 1 (push_bit ((d - 1024) div 64) 3))"
    "rdram (dma_read_word source dest j rsp) = rdram rsp" "cp0 (dma_read_word source dest j rsp) = cp0 rsp"
    "cp2 (dma_read_word source dest j rsp) = cp2 rsp" "sr (dma_read_word source dest j rsp) = sr rsp"
proof -
  have d: "d < 2048" by (simp add: d_def sp_index_def)
  then have m: "1024 \<le> d \<Longrightarrow> d mod 1024 = d - 1024" by (simp add: mod_if)
  show "spmem (dma_read_word source dest j rsp) = (spmem rsp)(d := rdram rsp s)"
    using d m unfolding dma_read_word_def Let_def address_fields d_def [symmetric] s_def [symmetric]
    by (auto simp: fun_eq_iff spmem_def host_u32_set set_dmem_def)
  show "dirty_blocks (dma_read_word source dest j rsp) =
      (if d < 1024 then dirty_blocks rsp else dirty_blocks rsp OR drop_bit 1 (push_bit ((d - 1024) div 64) 3))"
    using m unfolding dma_read_word_def Let_def address_fields d_def [symmetric] s_def [symmetric] by (simp add: set_dmem_def)
  show "rdram (dma_read_word source dest j rsp) = rdram rsp" "cp0 (dma_read_word source dest j rsp) = cp0 rsp"
    "cp2 (dma_read_word source dest j rsp) = cp2 rsp" "sr (dma_read_word source dest j rsp) = sr rsp"
    by (simp_all add: dma_read_word_def Let_def set_dmem_def)
qed

lemma dma_write_word_effect:
  fixes source dest :: u32
  shows "dma_write_word source dest j rsp =
    rsp\<lparr>rdram := (rdram rsp)(dram_index (dest + word_of_nat j) := spmem rsp (sp_index (source + word_of_nat j)))\<rparr>"
proof -
  define d where "d = sp_index (source + word_of_nat j)"
  have d: "d < 2048" by (simp add: d_def sp_index_def)
  then have m: "1024 \<le> d \<Longrightarrow> d mod 1024 = d - 1024" by (simp add: mod_if)
  then show ?thesis unfolding dma_write_word_def Let_def address_fields d_def [symmetric] by (simp add: spmem_def)
qed

text \<open>The nested loops of a transfer as one loop over its words. Both engines have the same loops and differ in the word they move
  and in how the addresses advance, so the loops are treated once.\<close>

definition row_words :: "nat \<Rightarrow> nat \<Rightarrow> nat" where
  "row_words len j = max 1 ((len - j + 3) div 4)"

lemma row_words_more: "j + 4 < len \<Longrightarrow> row_words len j = Suc (row_words len (j + 4))"
proof -
  assume "j + 4 < len"
  then obtain d where "len = Suc (j + 4 + d)" by (auto simp: less_iff_Suc_add)
  then have "len - j + 3 = d + 2 * 4" "len - (j + 4) + 3 = d + 1 * 4" by simp_all
  then show ?thesis unfolding row_words_def by simp
qed

lemma row_words_last: "\<not> j + 4 < len \<Longrightarrow> row_words len j = 1"
proof -
  assume "\<not> j + 4 < len"
  then have "len - j + 3 < 2 * 4" by simp
  then have "(len - j + 3) div 4 < 2" by (rule less_mult_imp_div_less)
  then show "row_words len j = 1" by (simp add: row_words_def)
qed

lemma fold_shift: "fold f [0..<Suc n] s = fold (\<lambda>k. f (Suc k)) [0..<n] (f 0 s)"
  by (induction n) simp_all

lemma fold_add: "fold f [0..<m + n] s = fold (\<lambda>k. f (m + k)) [0..<n] (fold f [0..<m] s)"
  by (induction n) simp_all

locale dma_engine =
  fixes move :: "u32 \<Rightarrow> u32 \<Rightarrow> nat \<Rightarrow> CPUState \<Rightarrow> CPUState"
    and row :: "u32 \<Rightarrow> u32 \<Rightarrow> nat \<Rightarrow> nat \<Rightarrow> CPUState \<Rightarrow> CPUState"
    and rows :: "u32 \<Rightarrow> u32 \<Rightarrow> nat \<Rightarrow> nat \<Rightarrow> u32 \<Rightarrow> u32 \<Rightarrow> CPUState \<Rightarrow> u32 \<times> u32 \<times> CPUState"
    and source_step dest_step :: "u32 \<Rightarrow> u32 \<Rightarrow> u32"
  assumes row_loop: "row source dest len j rsp = (let rsp = move source dest j rsp in if j + 4 < len then row source dest len (j + 4) rsp else rsp)"
    and rows_loop: "rows l skip count i source dest rsp = (let rsp = row source dest (unat l) 0 rsp;
      source = source + source_step l skip; dest = dest + dest_step l skip
      in if i + 1 \<le> count then rows l skip count (i + 1) source dest rsp else (source, dest, rsp))"
    and move_offset: "move source dest j rsp = move (source + word_of_nat j) (dest + word_of_nat j) 0 rsp"
begin

lemma row_fold: "row source dest len j rsp = fold (\<lambda>k. move source dest (j + 4 * k)) [0..<row_words len j] rsp"
proof (induction "len - j" arbitrary: j rsp rule: less_induct)
  case less
  show ?case
  proof (cases "j + 4 < len")
    case True
    then have "row source dest len (j + 4) (move source dest j rsp) =
        fold (\<lambda>k. move source dest (j + 4 + 4 * k)) [0..<row_words len (j + 4)] (move source dest j rsp)"
      by (intro less) simp
    then show ?thesis using True
      by (subst row_loop) (simp add: row_words_more fold_shift add.assoc del: upt_Suc)
  next
    case False
    then show ?thesis by (subst row_loop) (simp add: row_words_last)
  qed
qed

definition word_at :: "nat \<Rightarrow> u32 \<Rightarrow> u32 \<Rightarrow> u32 \<Rightarrow> u32 \<Rightarrow> nat \<Rightarrow> CPUState \<Rightarrow> CPUState" where
  "word_at n l skip source dest k = move (source + word_of_nat (k div n) * source_step l skip) (dest + word_of_nat (k div n) * dest_step l skip) (4 * (k mod n))"

lemma row_words_at:
  assumes "row_words (unat l) 0 = n"
  shows "fold (word_at n l skip source dest) [0..<n] rsp = row source dest (unat l) 0 rsp"
  unfolding row_fold assms word_at_def by (rule fold_cong) simp_all

lemma word_at_next:
  "n > 0 \<Longrightarrow> word_at n l skip source dest (n + k) = word_at n l skip (source + source_step l skip) (dest + dest_step l skip) k"
  by (simp add: word_at_def algebra_simps)

lemma rows_fold:
  assumes "row_words (unat l) 0 = n" "n > 0" "i \<le> count"
  shows "rows l skip count i source dest rsp =
    (source + word_of_nat (count + 1 - i) * source_step l skip, dest + word_of_nat (count + 1 - i) * dest_step l skip,
     fold (word_at n l skip source dest) [0..<(count + 1 - i) * n] rsp)"
  using assms(3)
proof (induction "count - i" arbitrary: i source dest rsp)
  case 0
  then have i: "i = count" by simp
  show ?case unfolding i by (subst rows_loop) (simp add: Let_def row_words_at assms)
next
  case (Suc x)
  define R where "R = count - i"
  have R: "count + 1 - i = R + 1" "count + 1 - (i + 1) = R" "(R + 1) * n = n + R * n" using Suc by (simp_all add: R_def)
  have "rows l skip count (i + 1) (source + source_step l skip) (dest + dest_step l skip) (row source dest (unat l) 0 rsp) =
    (source + source_step l skip + word_of_nat R * source_step l skip, dest + dest_step l skip + word_of_nat R * dest_step l skip,
     fold (word_at n l skip (source + source_step l skip) (dest + dest_step l skip)) [0..<R * n] (row source dest (unat l) 0 rsp))"
    unfolding R(2) [symmetric] by (rule Suc.hyps(1)) (use Suc in auto)
  moreover have "i + 1 \<le> count" using Suc by simp
  ultimately show ?case
    by (subst rows_loop) (simp only: Let_def R fold_add row_words_at word_at_next assms if_True, simp add: algebra_simps)
qed

end

interpretation rd: dma_engine dma_read_word dma_read_row dma_read_rows "\<lambda>l skip. l + skip" "\<lambda>l skip. l"
  by (unfold_locales; (rule dma_read_row.simps | rule dma_read_rows.simps | simp add: dma_read_word_def))

interpretation wr: dma_engine dma_write_word dma_write_row dma_write_rows "\<lambda>l skip. l" "\<lambda>l skip. l + skip"
  by (unfold_locales; (rule dma_write_row.simps | rule dma_write_rows.simps | simp add: dma_write_word_def))

lemma word_index:
  "unat (a + word_of_nat (4 * k) :: u32) div 4 mod 2 ^ m = (unat a div 4 + k) mod 2 ^ m" if "m \<le> 30"
proof -
  have "unat (a + word_of_nat (4 * k)) = (unat a + 4 * k) mod 2 ^ 32"
    by (simp add: unat_word_ariths unat_of_nat mod_simps)
  also have "\<dots> div 4 = (unat a + 4 * k) div 4 mod 2 ^ 30"
    by (simp add: drop_bit_take_bit [of 2 32 "unat a + 4 * k", unfolded drop_bit_eq_div take_bit_eq_mod, simplified])
  also have "\<dots> = (unat a div 4 + k) mod 2 ^ 30" by (simp add: add.commute)
  finally show ?thesis using mod_mod_cancel [OF le_imp_power_dvd [OF that, of "2 :: nat"], of "unat a div 4 + k"] by simp
qed

lemma sp_index_step: "sp_index (a + word_of_nat (4 * k)) = (unat a div 4 + k) mod 2048"
  using word_index [of 11 a k] by (simp add: sp_index_def)

text \<open>What a DMA read does to the state, in one formula: \<open>sp k\<close> and \<open>dr k\<close> are the local and the RDRAM word of the \<open>k\<close>-th move.\<close>

lemma dma_read_fold:
  fixes l skip source dest :: u32 and n :: nat
  defines "sp \<equiv> \<lambda>k. sp_index (dest + word_of_nat (k div n) * l + word_of_nat (4 * (k mod n)))"
    and "dr \<equiv> \<lambda>k. dram_index (source + word_of_nat (k div n) * (l + skip) + word_of_nat (4 * (k mod n)))"
  shows "spmem (fold (rd.word_at n l skip source dest) ks rsp) = fold (\<lambda>k m. m(sp k := rdram rsp (dr k))) ks (spmem rsp)
    \<and> rdram (fold (rd.word_at n l skip source dest) ks rsp) = rdram rsp
    \<and> cp0 (fold (rd.word_at n l skip source dest) ks rsp) = cp0 rsp"
  by (induction ks arbitrary: rsp) (simp_all add: rd.word_at_def dma_read_word_effect sp_def dr_def)

lemma dma_write_fold:
  fixes l skip source dest :: u32 and n :: nat
  defines "sp \<equiv> \<lambda>k. sp_index (source + word_of_nat (k div n) * l + word_of_nat (4 * (k mod n)))"
    and "dr \<equiv> \<lambda>k. dram_index (dest + word_of_nat (k div n) * (l + skip) + word_of_nat (4 * (k mod n)))"
  shows "fold (wr.word_at n l skip source dest) ks rsp = rsp\<lparr>rdram := fold (\<lambda>k m. m(dr k := spmem rsp (sp k))) ks (rdram rsp)\<rparr>"
proof -
  have "spmem (rsp\<lparr>rdram := r\<rparr>) = spmem rsp" for rsp :: CPUState and r by (rule ext) (simp add: spmem_def)
  then show ?thesis
    by (induction ks arbitrary: rsp) (simp_all add: wr.word_at_def dma_write_word_effect sp_def dr_def)
qed

text \<open>Code that a DMA read changes is marked: for every IMEM word that differs, the dirty bits of its block and of the block before
  it are set, and no dirty bit is lost.\<close>

definition imem_tracked :: "CPUState \<Rightarrow> CPUState \<Rightarrow> bool" where
  "imem_tracked rsp s \<longleftrightarrow> (\<forall>w<1024. imem s w \<noteq> imem rsp w \<longrightarrow>
       bit (dirty_blocks s) (w div 64) \<and> bit (dirty_blocks s) (w div 64 - 1)) \<and>
     (\<forall>b. bit (dirty_blocks rsp) b \<longrightarrow> bit (dirty_blocks s) b)"

lemma block_bit: "b < 16 \<Longrightarrow> bit (drop_bit 1 (push_bit b 3) :: u32) b \<and> bit (drop_bit 1 (push_bit b 3) :: u32) (b - 1)"
proof -
  have "\<forall>b \<in> set [0..<16]. bit (drop_bit 1 (push_bit b 3) :: u32) b \<and> bit (drop_bit 1 (push_bit b 3) :: u32) (b - 1)" by code_simp
  then show "b < 16 \<Longrightarrow> bit (drop_bit 1 (push_bit b 3) :: u32) b \<and> bit (drop_bit 1 (push_bit b 3) :: u32) (b - 1)" by simp
qed

lemma imem_tracked_word: "imem_tracked rsp s \<Longrightarrow> imem_tracked rsp (dma_read_word source dest j s)"
proof -
  assume t: "imem_tracked rsp s"
  define d where "d = sp_index (dest + word_of_nat j)"
  have "d < 2048" by (simp add: d_def sp_index_def)
  have i: "imem (dma_read_word source dest j s) w = spmem (dma_read_word source dest j s) (w + 1024)" for w by (simp add: spmem_def)
  have "bit (drop_bit 1 (push_bit ((d - 1024) div 64) 3) :: u32) ((d - 1024) div 64)
      \<and> bit (drop_bit 1 (push_bit ((d - 1024) div 64) 3) :: u32) ((d - 1024) div 64 - 1)"
    using \<open>d < 2048\<close> by (intro block_bit) (simp add: less_mult_imp_div_less)
  then show ?thesis using t
    unfolding imem_tracked_def i dma_read_word_effect d_def [symmetric]
    by (auto simp: spmem_def bit_or_iff)
qed

lemma imem_tracked_fold: "imem_tracked rsp s \<Longrightarrow> imem_tracked rsp (fold (rd.word_at n l skip source dest) ks s)"
  by (induction ks arbitrary: s) (simp_all add: rd.word_at_def imem_tracked_word)

text \<open>What a DMA read leaves alone: all but the local memories and the dirty bits, and what follows DMEM in memory. It marks only the
  blocks it writes to and the ones before them.\<close>

definition rest_view :: "CPUState \<Rightarrow> CPUState \<times> (nat \<Rightarrow> u8)" where
  "rest_view s = (s\<lparr>dmem := \<lambda>_. 0, imem := \<lambda>_. 0, dirty_blocks := 0\<rparr>, \<lambda>x. dmem s (x + 4096))"

lemma rest_view_word: "rest_view (dma_read_word source dest j s) = rest_view s"
proof -
  define d where "d = sp_index (dest + word_of_nat j)"
  have "1024 \<le> d \<or> (\<forall>x. (x + 4096) div 4 \<noteq> d)" by auto
  then show ?thesis unfolding dma_read_word_def Let_def address_fields d_def [symmetric]
    by (auto simp: rest_view_def set_dmem_def set_host_u32_def fun_eq_iff)
qed

lemma rest_view_fold: "rest_view (fold (rd.word_at n l skip source dest) ks s) = rest_view s"
  by (induction ks arbitrary: s) (simp_all add: rd.word_at_def rest_view_word)

lemma rest_view_cp0: "rest_view s = rest_view t \<Longrightarrow> rest_view (s\<lparr>cp0 := z\<rparr>) = rest_view (t\<lparr>cp0 := z\<rparr>)"
  by (cases s, cases t) (simp add: rest_view_def)

lemma rest_viewD:
  assumes "rest_view s = rest_view t"
  shows "s = t\<lparr>dmem := dmem s, imem := imem s, dirty_blocks := dirty_blocks s\<rparr>" "4096 \<le> x \<Longrightarrow> dmem s x = dmem t x"
proof -
  show "s = t\<lparr>dmem := dmem s, imem := imem s, dirty_blocks := dirty_blocks s\<rparr>"
    using assms by (cases s, cases t) (simp add: rest_view_def)
  show "dmem s x = dmem t x" if "4096 \<le> x"
    using fun_cong [OF arg_cong [where f = snd, OF assms], of "x - 4096"] that by (simp add: rest_view_def)
qed

lemma marked_bit: "bit (drop_bit 1 (push_bit B 3) :: u32) b \<Longrightarrow> B = b \<or> B = b + 1"
proof -
  assume "bit (drop_bit 1 (push_bit B 3) :: u32) b"
  then have "B \<le> b + 1" "bit (3 :: u32) (b + 1 - B)" by (simp_all add: bit_drop_bit_eq bit_push_bit_iff)
  moreover have "b + 1 - B = 0 \<or> b + 1 - B = 1" using calculation(2) by (auto simp: bit_numeral_rec bit_1_iff split: nat.splits)
  ultimately show ?thesis by auto
qed

lemma marks_fold:
  fixes l skip source dest :: u32 and n :: nat
  defines "sp \<equiv> \<lambda>k. sp_index (dest + word_of_nat (k div n) * l + word_of_nat (4 * (k mod n)))"
  shows "bit (dirty_blocks (fold (rd.word_at n l skip source dest) ks s)) b \<Longrightarrow>
    bit (dirty_blocks s) b \<or> (\<exists>k\<in>set ks. 1024 \<le> sp k \<and> (sp k - 1024) div 64 \<in> {b, b + 1})"
proof (induction ks arbitrary: s)
  case (Cons k ks)
  have "bit (dirty_blocks (rd.word_at n l skip source dest k s)) b \<Longrightarrow> bit (dirty_blocks s) b \<or> 1024 \<le> sp k \<and> (sp k - 1024) div 64 \<in> {b, b + 1}"
    by (auto simp: rd.word_at_def dma_read_word_effect sp_def bit_or_iff dest: marked_bit [simplified] split: if_splits)
  then show ?case using Cons.IH [of "rd.word_at n l skip source dest k s"] Cons.prems by auto
qed simp

lemma unat_align8: "unat (w AND NOT 7) = 8 * (unat w div 8)" for w :: u32
proof -
  have "w AND NOT 7 = w - (w AND 7)" using row8_start [of w] by (simp add: eq_diff_eq)
  moreover have "w AND 7 \<le> w" by (simp add: word_and_le2)
  ultimately have "unat (w AND NOT 7) = unat w - unat w mod 8" by (simp add: unat_sub unat_masks)
  then show ?thesis by (simp add: minus_mod_eq_mult_div)
qed

lemma unat_dma_length:
  "unat (dma_length r c) = min (8 * ((unat r mod 4096 + 8) div 8)) (4096 - unat c mod 4096)"
proof -
  define x where "x = (r AND 0xFFF) + 1 + 7"
  define l where "l = x AND NOT 0x7"
  have r: "unat r mod 4096 < 4096" "unat c mod 4096 < 4096" by simp_all
  have "unat x = unat r mod 4096 + 8" using r unfolding x_def by (simp add: unat_word_ariths unat_masks)
  then have l: "unat l = 8 * ((unat r mod 4096 + 8) div 8)" unfolding l_def unat_align8 by simp
  moreover have "8 * ((unat r mod 4096 + 8) div 8) \<le> unat r mod 4096 + 8" by simp
  ultimately have "unat l \<le> 4103" using r by linarith
  then have "unat ((c AND 0xFFF) + l) = unat c mod 4096 + unat l" using r by (simp add: unat_word_ariths unat_masks)
  moreover have "unat (0x1000 - (c AND 0xFFF)) = 4096 - unat c mod 4096"
    using r by (simp add: unat_sub unat_masks word_le_nat_alt)
  ultimately show ?thesis unfolding dma_length_def Let_def x_def [symmetric] l_def [symmetric] l [symmetric]
    using r by (auto simp: word_less_nat_alt min_def)
qed

text \<open>A transfer has whole words, at least one per row.\<close>

lemma dma_rows_whole:
  fixes c r :: u32
  assumes "unat c mod 4 = 0"
  defines "L \<equiv> unat (dma_length r c)"
  shows "row_words L 0 = L div 4" "L = 4 * (L div 4)" "L div 4 > 0" "L \<le> 4096"
proof -
  have "unat c mod 4096 mod 4 = 0" using assms(1) by (simp add: mod_mod_cancel)
  then have "4 dvd 4096 - unat c mod 4096" by (simp add: dvd_diff_nat mod_0_imp_dvd)
  moreover have "4 dvd 8 * ((unat r mod 4096 + 8) div 8)" by (simp add: dvd_mult2)
  ultimately have "4 dvd L" unfolding L_def unat_dma_length by (simp add: min_def)
  moreover have "0 < L" unfolding L_def unat_dma_length by (simp add: min_def)
  ultimately obtain q where "L = 4 * q" "q > 0" by (auto elim!: dvdE)
  then show "row_words L 0 = L div 4" "L = 4 * (L div 4)" "L div 4 > 0" by (auto simp: row_words_def)
  show "L \<le> 4096" unfolding L_def unat_dma_length by (rule order.trans [OF min.cobounded2]) simp
qed

lemma cursor: "a + word_of_nat (k div n) * l + word_of_nat (4 * (k mod n)) = (a + word_of_nat (4 * k) :: u32)"
  if "l = word_of_nat (4 * n)"
proof -
  have "(word_of_nat (k div n) * word_of_nat (4 * n) + word_of_nat (4 * (k mod n)) :: u32) = word_of_nat (k div n * (4 * n) + 4 * (k mod n))"
    by simp
  also have "k div n * (4 * n) + 4 * (k mod n) = 4 * (k div n * n + k mod n)" by (simp only: distrib_left mult.left_commute [of _ 4])
  also have "\<dots> = 4 * k" by (simp only: div_mult_mod_eq)
  finally show ?thesis unfolding that by (simp add: add.assoc del: of_nat_mult of_nat_add)
qed

lemma window_inj: "T \<le> 2048 \<Longrightarrow> inj_on (\<lambda>k. (d + k) mod 2048) {..<T :: nat}"
proof (rule inj_onI)
  fix x y assume T: "T \<le> 2048" "x \<in> {..<T}" "y \<in> {..<T}" and h: "(d + x) mod 2048 = (d + y) mod 2048"
  from h have "x mod 2048 = y mod 2048" by (simp add: mod_add_cong nat_mod_eq_iff)
  then show "x = y" using T by (metis lessThan_iff mod_less order.strict_trans2)
qed

lemma dma_read_run:
  fixes rsp :: CPUState
  defines "s \<equiv> fst (rsp_dma_read rsp)" and "len_reg \<equiv> cr (cp0 rsp) 2"
    and "c \<equiv> cr (cp0 rsp) 0 AND NOT 7" and "a \<equiv> cr (cp0 rsp) 1 AND NOT 7"
  defines "L \<equiv> min (8 * ((unat len_reg mod 4096 + 8) div 8)) (4096 - unat c mod 4096)"
    and "R \<equiv> unat (drop_bit 12 len_reg AND 0xFF) + 1" and "skip \<equiv> unat (drop_bit 20 len_reg AND 0xFFF)"
  defines "n \<equiv> L div 4" and "window \<equiv> \<lambda>k. (unat c div 4 + k) mod 2048"
  shows "spmem s = fold (\<lambda>k m. m(window k := rdram rsp (dram_index (a + word_of_nat (k div n * (L + skip) + 4 * (k mod n))))))
      [0..<R * n] (spmem rsp)
    \<and> rdram s = rdram rsp
    \<and> imem_tracked rsp s \<and> (snd (rsp_dma_read rsp) = MODE_CHECK_FLAGS \<longleftrightarrow> dirty_blocks s \<noteq> 0)
    \<and> cr (cp0 s) = (cr (cp0 rsp))(0 := c + word_of_nat (R * L), 1 := a + word_of_nat (R * (L + skip)), 2 := 0xff8)
    \<and> rest_view s = rest_view (rsp\<lparr>cp0 := (cp0 rsp)\<lparr>cr := cr (cp0 s)\<rparr>\<rparr>)
    \<and> (\<forall>b. bit (dirty_blocks s) b \<longrightarrow> bit (dirty_blocks rsp) b \<or> (\<exists>k<R * n. 1024 \<le> window k \<and> (window k - 1024) div 64 \<in> {b, b + 1}))"
proof -
  define l where "l = dma_length len_reg c"
  define sk where "sk = drop_bit 20 len_reg AND 0xFFF"
  define p where "p = set_cr 1 a (set_cr 0 c rsp)"
  define s' where "s' = fold (rd.word_at n l sk a c) [0..<R * n] p"
  have c4: "unat c mod 4 = 0" unfolding c_def unat_align8 by simp
  have L: "L = unat l" by (simp add: L_def l_def unat_dma_length)
  have n: "row_words (unat l) 0 = n" "0 < n" "4 * n = L"
    using dma_rows_whole [OF c4, of len_reg] unfolding l_def [symmetric] L [symmetric] n_def by simp_all
  have l: "l = word_of_nat (4 * n)" unfolding n(3) L by simp
  have rows: "dma_read_rows l sk (R - 1) 0 a c p = (a + word_of_nat R * (l + sk), c + word_of_nat R * l, s')"
    using rd.rows_fold [OF n(1,2), of 0 "R - 1" sk a c p] by (simp add: R_def s'_def)
  have res: "rsp_dma_read rsp = (set_cr 2 0xff8 (set_cr 0 (c + word_of_nat R * l) (set_cr 1 (a + word_of_nat R * (l + sk)) s')),
      if dirty_blocks s' \<noteq> 0 then MODE_CHECK_FLAGS else MODE_CONTINUE)"
    using rows unfolding rsp_dma_read_def Let_def p_def sk_def l_def R_def len_reg_def
    by (simp add: c_def a_def)
  have sp: "spmem s = spmem s'" unfolding s_def res by (rule ext) (simp add: spmem_def)
  have pp: "spmem p = spmem rsp" "rdram p = rdram rsp" by (simp_all add: p_def spmem_def fun_eq_iff)
  define dr where "dr = (\<lambda>k. dram_index (a + word_of_nat (k div n) * (l + sk) + word_of_nat (4 * (k mod n))))"
  have eff: "spmem s' = fold (\<lambda>k m. m(window k := rdram rsp (dr k))) [0..<R * n] (spmem rsp)" "rdram s' = rdram rsp" "cp0 s' = cp0 p"
    using dma_read_fold [of n l sk a c "[0..<R * n]" p] unfolding s'_def [symmetric] cursor [OF l] sp_index_step pp dr_def window_def by auto
  have "word_of_nat (k div n) * (l + sk) + word_of_nat (4 * (k mod n)) = word_of_nat (k div n * (L + skip) + 4 * (k mod n))" for k
    by (simp add: L skip_def sk_def)
  then have dr: "dr k = dram_index (a + word_of_nat (k div n * (L + skip) + 4 * (k mod n)))" for k
    unfolding dr_def add.assoc by simp
  have "imem_tracked rsp s"
    using imem_tracked_fold [of rsp p n l sk a c "[0..<R * n]"] unfolding s_def res imem_tracked_def p_def s'_def by simp
  moreover have "cr (cp0 s) = (cr (cp0 rsp))(0 := c + word_of_nat (R * L), 1 := a + word_of_nat (R * (L + skip)), 2 := 0xff8)"
    unfolding s_def res by (simp add: eff p_def L skip_def sk_def fun_upd_twist)
  moreover have "rdram s = rdram rsp" "snd (rsp_dma_read rsp) = MODE_CHECK_FLAGS \<longleftrightarrow> dirty_blocks s \<noteq> 0"
    unfolding s_def res by (simp_all add: eff)
  moreover have "rest_view s = rest_view (rsp\<lparr>cp0 := (cp0 rsp)\<lparr>cr := cr (cp0 s)\<rparr>\<rparr>)"
  proof -
    have "rest_view (s'\<lparr>cp0 := cp0 s\<rparr>) = rest_view (p\<lparr>cp0 := cp0 s\<rparr>)"
      by (rule rest_view_cp0) (use rest_view_fold [of n l sk a c "[0..<R * n]" p] in \<open>simp only: s'_def\<close>)
    moreover have "s'\<lparr>cp0 := cp0 s\<rparr> = s" unfolding s_def res by (simp add: set_cr_def)
    moreover have "p\<lparr>cp0 := cp0 s\<rparr> = rsp\<lparr>cp0 := (cp0 rsp)\<lparr>cr := cr (cp0 s)\<rparr>\<rparr>" unfolding s_def res by (simp add: set_cr_def eff p_def)
    ultimately show ?thesis by simp
  qed
  moreover have "\<forall>b. bit (dirty_blocks s) b \<longrightarrow> bit (dirty_blocks rsp) b \<or> (\<exists>k<R * n. 1024 \<le> window k \<and> (window k - 1024) div 64 \<in> {b, b + 1})"
  proof (intro allI impI)
    fix b assume "bit (dirty_blocks s) b"
    then have "bit (dirty_blocks s') b" by (simp add: s_def res)
    from marks_fold [where n = n and l = l and skip = sk and source = a and dest = c and ks = "[0..<R * n]" and s = p and b = b, folded s'_def, unfolded cursor [OF l] sp_index_step, OF this]
    show "bit (dirty_blocks rsp) b \<or> (\<exists>k<R * n. 1024 \<le> window k \<and> (window k - 1024) div 64 \<in> {b, b + 1})"
      by (auto simp: p_def window_def Bex_def)
  qed
  ultimately show ?thesis unfolding sp eff dr by blast
qed


text \<open>C21: a DMA read. With a row length rounded up to eight bytes and cut at the end of the 4 KiB memory, the rows are copied
  word by word from RDRAM, one \<open>skip\<close> after the other, into consecutive words of the local memories (DMEM, then IMEM, wrapping).
  Unless the rows overlap each other, word \<open>k\<close> of the transfer arrives unchanged; no word outside the window changes, the registers end
  after the last row, and every IMEM word that changed is in a block marked dirty together with the block before it, which makes the
  processor check its flags; no other block is marked. Nothing else of the state changes (RDRAM, the scalar and vector registers, the
  interrupt line, the program counter, the pending branch), nor does the memory that follows DMEM.\<close>

theorem dma_read_correct:
  fixes rsp :: CPUState and k w x :: nat
  defines "s \<equiv> fst (rsp_dma_read rsp)" and "len_reg \<equiv> cr (cp0 rsp) 2"
    and "c \<equiv> cr (cp0 rsp) 0 AND NOT 7" and "a \<equiv> cr (cp0 rsp) 1 AND NOT 7"
  defines "L \<equiv> min (8 * ((unat len_reg mod 4096 + 8) div 8)) (4096 - unat c mod 4096)"
    and "R \<equiv> unat (drop_bit 12 len_reg AND 0xFF) + 1" and "skip \<equiv> unat (drop_bit 20 len_reg AND 0xFFF)"
  defines "n \<equiv> L div 4" and "window \<equiv> \<lambda>k. (unat c div 4 + k) mod 2048"
  shows "(R * n \<le> 2048 \<and> k < R * n \<longrightarrow> spmem s (window k) =
        rdram rsp (dram_index (a + word_of_nat (k div n * (L + skip) + 4 * (k mod n)))))
    \<and> (w \<notin> window ` {..<R * n} \<longrightarrow> spmem s w = spmem rsp w) \<and> rdram s = rdram rsp
    \<and> imem_tracked rsp s \<and> (snd (rsp_dma_read rsp) = MODE_CHECK_FLAGS \<longleftrightarrow> dirty_blocks s \<noteq> 0)
    \<and> (\<forall>b. bit (dirty_blocks s) b \<longrightarrow> bit (dirty_blocks rsp) b \<or> (\<exists>j<R * n. 1024 \<le> window j \<and> (window j - 1024) div 64 \<in> {b, b + 1}))
    \<and> s = rsp\<lparr>cp0 := (cp0 rsp)\<lparr>cr := (cr (cp0 rsp))(0 := c + word_of_nat (R * L), 1 := a + word_of_nat (R * (L + skip)), 2 := 0xff8)\<rparr>,
        dmem := dmem s, imem := imem s, dirty_blocks := dirty_blocks s\<rparr>
    \<and> (4096 \<le> x \<longrightarrow> dmem s x = dmem rsp x)"
proof -
  have run: "spmem s = fold (\<lambda>k m. m(window k := rdram rsp (dram_index (a + word_of_nat (k div n * (L + skip) + 4 * (k mod n))))))
      [0..<R * n] (spmem rsp)"
    using dma_read_run [of rsp] unfolding s_def len_reg_def c_def a_def L_def R_def skip_def n_def window_def by blast
  have moved: "R * n \<le> 2048 \<and> k < R * n \<longrightarrow> spmem s (window k) = rdram rsp (dram_index (a + word_of_nat (k div n * (L + skip) + 4 * (k mod n))))"
  proof (intro impI, elim conjE)
    assume "R * n \<le> 2048" "k < R * n"
    then show "spmem s (window k) = rdram rsp (dram_index (a + word_of_nat (k div n * (L + skip) + 4 * (k mod n))))"
      using words.rd_run_at [of window "[0..<R * n]" k] window_inj [of "R * n"] unfolding run window_def by (simp add: atLeast0LessThan)
  qed
  have other: "w \<notin> window ` {..<R * n} \<longrightarrow> spmem s w = spmem rsp w"
    unfolding run by (intro impI words.rd_run_other) (simp add: atLeast0LessThan)
  have rest: "rdram s = rdram rsp" "imem_tracked rsp s" "snd (rsp_dma_read rsp) = MODE_CHECK_FLAGS \<longleftrightarrow> dirty_blocks s \<noteq> 0"
    "cr (cp0 s) = (cr (cp0 rsp))(0 := c + word_of_nat (R * L), 1 := a + word_of_nat (R * (L + skip)), 2 := 0xff8)"
    "rest_view s = rest_view (rsp\<lparr>cp0 := (cp0 rsp)\<lparr>cr := cr (cp0 s)\<rparr>\<rparr>)"
    "\<forall>b. bit (dirty_blocks s) b \<longrightarrow> bit (dirty_blocks rsp) b \<or> (\<exists>j<R * n. 1024 \<le> window j \<and> (window j - 1024) div 64 \<in> {b, b + 1})"
    using dma_read_run [of rsp] unfolding s_def len_reg_def c_def a_def L_def R_def skip_def n_def window_def by blast+
  note frame = rest_viewD [OF rest(5)]
  have eq: "s = rsp\<lparr>cp0 := (cp0 rsp)\<lparr>cr := (cr (cp0 rsp))(0 := c + word_of_nat (R * L), 1 := a + word_of_nat (R * (L + skip)), 2 := 0xff8)\<rparr>,
        dmem := dmem s, imem := imem s, dirty_blocks := dirty_blocks s\<rparr>"
    using frame(1) unfolding rest(4) .
  have beyond: "4096 \<le> x \<longrightarrow> dmem s x = dmem rsp x" using frame(2) by simp
  show ?thesis by (intro conjI; fact moved other rest(1,2,3,6) eq beyond)
qed

text \<open>The RDRAM words of a transfer: rows never overlap, whatever the skip.\<close>

definition row_offset :: "nat \<Rightarrow> nat \<Rightarrow> nat \<Rightarrow> nat \<Rightarrow> nat" where
  "row_offset n L skip k = k div n * (L + skip) + 4 * (k mod n)"

lemma row_offset_step: "n > 0 \<Longrightarrow> 4 * n \<le> L \<Longrightarrow> row_offset n L skip k + 4 \<le> row_offset n L skip (Suc k)"
proof -
  assume n: "n > 0" "4 * n \<le> L"
  show ?thesis
  proof (cases "Suc (k mod n) = n")
    case True
    then have "Suc k mod n = 0" "Suc k div n = Suc (k div n)" by (simp_all add: mod_Suc div_Suc)
    moreover have "4 * (k mod n) + 4 = 4 * n" using True by simp
    ultimately show ?thesis using n(2) by (simp add: row_offset_def)
  next
    case False
    then have "Suc k mod n = Suc (k mod n)" "Suc k div n = k div n" by (simp_all add: mod_Suc div_Suc)
    then show ?thesis by (simp add: row_offset_def)
  qed
qed

lemma row_offset_bound:
  assumes "n > 0" "4 * n = L" "L \<le> 4096" "skip < 4096" "R \<le> 256" "k < R * n"
  shows "row_offset n L skip k < 2 ^ 22"
proof -
  have "k div n \<le> 255" using less_mult_imp_div_less [OF assms(6)] assms(5) by simp
  then have "k div n * (L + skip) \<le> 255 * (4096 + 4095)" using assms by (intro mult_le_mono) simp_all
  moreover have "4 * (k mod n) < 4 * n" using assms(1) by simp
  ultimately show ?thesis using assms by (simp add: row_offset_def)
qed

lemma aligned_index:
  assumes "unat a mod 4 = 0" "m \<le> 30"
  shows "unat (a + word_of_nat off :: u32) div 4 mod 2 ^ m = (unat a div 4 + off div 4) mod 2 ^ m"
proof -
  obtain q where q: "unat a = 4 * q" using assms(1) by auto
  have "unat (a + word_of_nat off) = (unat a + off) mod 2 ^ 32"
    by (simp add: unat_word_ariths unat_of_nat mod_simps)
  also have "\<dots> div 4 = (unat a + off) div 4 mod 2 ^ 30"
    by (simp add: drop_bit_take_bit [of 2 32 "unat a + off", unfolded drop_bit_eq_div take_bit_eq_mod, simplified])
  also have "\<dots> = (unat a div 4 + off div 4) mod 2 ^ 30" by (simp add: q)
  finally show ?thesis using mod_mod_cancel [OF le_imp_power_dvd [OF assms(2), of "2 :: nat"], of "unat a div 4 + off div 4"] by simp
qed

lemma dram_rows_inj:
  assumes "unat a mod 4 = 0" "n > 0" "4 * n = L" "L \<le> 4096" "skip < 4096" "R \<le> 256"
  shows "inj_on (\<lambda>k. dram_index (a + word_of_nat (row_offset n L skip k))) {..<R * n}"
proof (rule inj_onI)
  fix x y
  let ?o = "\<lambda>k. row_offset n L skip k div 4"
  assume xy: "x \<in> {..<R * n}" "y \<in> {..<R * n}"
    and e: "dram_index (a + word_of_nat (row_offset n L skip x)) = dram_index (a + word_of_nat (row_offset n L skip y))"
  have o: "?o k < 2 ^ 21" if "k < R * n" for k using row_offset_bound [OF assms(2-6) that] by simp
  from e have "(unat a div 4 + ?o x) mod 2 ^ 21 = (unat a div 4 + ?o y) mod 2 ^ 21"
    unfolding dram_index_def using aligned_index [OF assms(1), of 21] by simp
  then have "?o x mod 2 ^ 21 = ?o y mod 2 ^ 21" by (simp add: mod_add_cong nat_mod_eq_iff)
  then have "?o x = ?o y" using o xy by simp
  moreover have "strict_mono ?o"
    unfolding strict_mono_Suc_iff
  proof
    fix k
    have "row_offset n L skip k + 4 \<le> row_offset n L skip (Suc k)" using assms by (intro row_offset_step) simp_all
    from div_le_mono [OF this, of 4] show "?o k < ?o (Suc k)" by simp
  qed
  ultimately show "x = y" using strict_mono_eq [of ?o x y] by simp
qed

lemma unat_align4: "unat (w AND NOT 3) mod 4 = 0" for w :: u32
proof -
  have "(w AND NOT 3) AND 3 = w AND (NOT 3 AND 3)" by (rule and.assoc)
  also have "\<dots> = 0" by simp
  finally show ?thesis unfolding unat_masks(2) [symmetric] by simp
qed

lemma dma_write_run:
  fixes rsp :: CPUState
  defines "len_reg \<equiv> cr (cp0 rsp) 3" and "c \<equiv> cr (cp0 rsp) 0 AND NOT 3" and "a \<equiv> cr (cp0 rsp) 1 AND NOT 7"
  defines "L \<equiv> min (8 * ((unat len_reg mod 4096 + 8) div 8)) (4096 - unat c mod 4096)"
    and "R \<equiv> unat (drop_bit 12 len_reg AND 0xFF) + 1" and "skip \<equiv> unat (drop_bit 20 len_reg AND 0xFFF)"
  defines "n \<equiv> L div 4"
  shows "rsp_dma_write rsp = rsp\<lparr>
      rdram := fold (\<lambda>k m. m(dram_index (a + word_of_nat (row_offset n L skip k)) := spmem rsp ((unat c div 4 + k) mod 2048))) [0..<R * n] (rdram rsp),
      cp0 := (cp0 rsp)\<lparr>cr := (cr (cp0 rsp))(0 := c + word_of_nat (R * L), 1 := a + word_of_nat (R * (L + skip)), 3 := 0xff8)\<rparr>\<rparr>"
    and "n > 0" "4 * n = L" "L \<le> 4096" "skip < 4096" "R \<le> 256"
proof -
  define l where "l = dma_length len_reg c"
  define sk where "sk = drop_bit 20 len_reg AND 0xFFF"
  define p where "p = set_cr 1 a (set_cr 0 c rsp)"
  define s' where "s' = fold (wr.word_at n l sk c a) [0..<R * n] p"
  have c4: "unat c mod 4 = 0" unfolding c_def by (rule unat_align4)
  have L: "L = unat l" by (simp add: L_def l_def unat_dma_length)
  have n: "row_words (unat l) 0 = n" "0 < n" "4 * n = L" "L \<le> 4096"
    using dma_rows_whole [OF c4, of len_reg] unfolding l_def [symmetric] L [symmetric] n_def by simp_all
  then show "n > 0" "4 * n = L" "L \<le> 4096" by simp_all
  show "skip < 4096" by (simp add: skip_def unat_masks)
  have "unat (drop_bit 12 len_reg AND 0xFF) < 256" using unat_take_bit_less [of 8 "drop_bit 12 len_reg"] by (simp only: and_ones_take_bit) simp
  then show "R \<le> 256" by (simp add: R_def)
  have l: "l = word_of_nat (4 * n)" unfolding n(3) L by simp
  have rows: "dma_write_rows l sk (R - 1) 0 c a p = (c + word_of_nat R * l, a + word_of_nat R * (l + sk), s')"
    using wr.rows_fold [OF n(1,2), of 0 "R - 1" sk c a p] by (simp add: R_def s'_def)
  have res: "rsp_dma_write rsp = set_cr 3 0xff8 (set_cr 1 (a + word_of_nat R * (l + sk)) (set_cr 0 (c + word_of_nat R * l) s'))"
    using rows unfolding rsp_dma_write_def Let_def p_def sk_def l_def R_def len_reg_def
    by (simp add: c_def a_def)
  have pp: "spmem p = spmem rsp" "rdram p = rdram rsp" by (simp_all add: p_def spmem_def fun_eq_iff)
  have "word_of_nat (k div n) * (l + sk) + word_of_nat (4 * (k mod n)) = word_of_nat (row_offset n L skip k)" for k
    by (simp add: L skip_def sk_def row_offset_def)
  then have s': "s' = p\<lparr>rdram := fold (\<lambda>k m. m(dram_index (a + word_of_nat (row_offset n L skip k)) :=
      spmem rsp ((unat c div 4 + k) mod 2048))) [0..<R * n] (rdram rsp)\<rparr>"
    using dma_write_fold [of n l sk c a "[0..<R * n]" p] unfolding s'_def [symmetric] cursor [OF l] sp_index_step pp
    unfolding add.assoc by simp
  show "rsp_dma_write rsp = rsp\<lparr>
      rdram := fold (\<lambda>k m. m(dram_index (a + word_of_nat (row_offset n L skip k)) := spmem rsp ((unat c div 4 + k) mod 2048))) [0..<R * n] (rdram rsp),
      cp0 := (cp0 rsp)\<lparr>cr := (cr (cp0 rsp))(0 := c + word_of_nat (R * L), 1 := a + word_of_nat (R * (L + skip)), 3 := 0xff8)\<rparr>\<rparr>"
    unfolding res s' p_def set_cr_def by (simp add: L skip_def sk_def fun_upd_twist)
qed

text \<open>C22: a DMA write copies the words of the local memories from the (word aligned) cache address on, wrapping, into the rows
  of RDRAM, which never overlap. No other word of RDRAM and nothing else of the state changes but the DMA registers.\<close>

theorem dma_write_correct:
  fixes rsp :: CPUState and k w :: nat
  defines "s \<equiv> rsp_dma_write rsp" and "len_reg \<equiv> cr (cp0 rsp) 3"
    and "c \<equiv> cr (cp0 rsp) 0 AND NOT 3" and "a \<equiv> cr (cp0 rsp) 1 AND NOT 7"
  defines "L \<equiv> min (8 * ((unat len_reg mod 4096 + 8) div 8)) (4096 - unat c mod 4096)"
    and "R \<equiv> unat (drop_bit 12 len_reg AND 0xFF) + 1" and "skip \<equiv> unat (drop_bit 20 len_reg AND 0xFFF)"
  defines "n \<equiv> L div 4"
  defines "target_word \<equiv> \<lambda>k. dram_index (a + word_of_nat (row_offset n L skip k))"
  shows "(k < R * n \<longrightarrow> rdram s (target_word k) = spmem rsp ((unat c div 4 + k) mod 2048))
    \<and> (w \<notin> target_word ` {..<R * n} \<longrightarrow> rdram s w = rdram rsp w)
    \<and> s = rsp\<lparr>rdram := rdram s, cp0 := (cp0 rsp)\<lparr>cr := (cr (cp0 rsp))
        (0 := c + word_of_nat (R * L), 1 := a + word_of_nat (R * (L + skip)), 3 := 0xff8)\<rparr>\<rparr>"
proof -
  note defs = len_reg_def c_def a_def L_def R_def skip_def n_def
  note run = dma_write_run [of rsp, folded len_reg_def, folded c_def a_def, folded L_def R_def skip_def, folded n_def]
  have rd: "rdram s = fold (\<lambda>k m. m(target_word k := spmem rsp ((unat c div 4 + k) mod 2048))) [0..<R * n] (rdram rsp)"
    unfolding s_def run(1) target_word_def by simp
  have "unat a mod 4 = 0" unfolding a_def unat_align8 by simp
  then have "inj_on target_word {..<R * n}" unfolding target_word_def by (rule dram_rows_inj) (use run(2-6) in auto)
  then have "k < R * n \<longrightarrow> rdram s (target_word k) = spmem rsp ((unat c div 4 + k) mod 2048)"
    using words.rd_run_at [of target_word "[0..<R * n]" k "\<lambda>k. spmem rsp ((unat c div 4 + k) mod 2048)"]
    unfolding rd by (simp add: atLeast0LessThan)
  moreover have "w \<notin> target_word ` {..<R * n} \<longrightarrow> rdram s w = rdram rsp w"
    using words.rd_run_other [of w target_word "[0..<R * n]" "\<lambda>k. spmem rsp ((unat c div 4 + k) mod 2048)"]
    unfolding rd by (simp add: atLeast0LessThan)
  moreover have "s = rsp\<lparr>rdram := rdram s, cp0 := (cp0 rsp)\<lparr>cr := (cr (cp0 rsp))
        (0 := c + word_of_nat (R * L), 1 := a + word_of_nat (R * (L + skip)), 3 := 0xff8)\<rparr>\<rparr>"
    unfolding s_def run(1) by simp
  ultimately show ?thesis by blast
qed

text \<open>C23: a block written to RDRAM by a DMA and read back by a DMA with the same registers is restored in the local memories, for
  every cache address on an eight byte boundary and every row count and skip, as long as it fits in the local memories.\<close>

theorem dma_round_trip:
  fixes rsp rsp' :: CPUState and len_reg c a :: u32 and k :: nat
  assumes "cr (cp0 rsp) 3 = len_reg" "cr (cp0 rsp) 0 = c" "cr (cp0 rsp) 1 = a" "c AND 7 = 0"
    and "cr (cp0 rsp') 2 = len_reg" "cr (cp0 rsp') 0 = c" "cr (cp0 rsp') 1 = a" "rdram rsp' = rdram (rsp_dma_write rsp)"
  defines "words \<equiv> (unat (drop_bit 12 len_reg AND 0xFF) + 1) *
      (min (8 * ((unat len_reg mod 4096 + 8) div 8)) (4096 - unat c mod 4096) div 4)"
    and "w \<equiv> (unat c div 4 + k) mod 2048"
  assumes "words \<le> 2048" "k < words"
  shows "spmem (fst (rsp_dma_read rsp')) w = spmem rsp w"
proof -
  have "c AND 3 = (c AND 7) AND 3" by (simp add: and.assoc)
  then have "c AND 3 = 0" using assms(4) by simp
  then have c: "c AND NOT 7 = c" "c AND NOT 3 = c" using split_mask [of c 7] split_mask [of c 3] assms(4) by simp_all
  define L where "L = min (8 * ((unat len_reg mod 4096 + 8) div 8)) (4096 - unat c mod 4096)"
  define R where "R = unat (drop_bit 12 len_reg AND 0xFF) + 1"
  define skip where "skip = unat (drop_bit 20 len_reg AND 0xFFF)"
  define d where "d = (\<lambda>k. dram_index ((a AND NOT 7) + word_of_nat (row_offset (L div 4) L skip k)))"
  define win where "win = (\<lambda>k. (unat c div 4 + k) mod 2048)"
  note fold_defs = L_def [symmetric] R_def [symmetric] skip_def [symmetric] win_def [symmetric] d_def [symmetric]
  note run = dma_write_run [of rsp, unfolded assms(1-3) c, unfolded fold_defs]
  have t: "words = R * (L div 4)" by (simp add: words_def L_def R_def)
  have rd: "rdram rsp' = fold (\<lambda>k m. m(d k := spmem rsp (win k))) [0..<words] (rdram rsp)"
    unfolding assms(8) run(1) t d_def win_def by simp
  have "unat (a AND NOT 7) mod 4 = 0" unfolding unat_align8 by simp
  then have "inj_on d {..<words}" unfolding d_def t by (rule dram_rows_inj) (use run(2-6) in auto)
  then have "rdram rsp' (d k) = spmem rsp (win k)"
    using words.rd_run_at [of d "[0..<words]" k "\<lambda>k. spmem rsp (win k)"] assms(12) unfolding rd by (simp add: atLeast0LessThan)
  moreover have "spmem (fst (rsp_dma_read rsp')) = fold (\<lambda>k m. m(win k := rdram rsp' (d k))) [0..<words] (spmem rsp')"
    using dma_read_run [of rsp'] unfolding assms(5-7) c t L_def R_def skip_def d_def win_def row_offset_def by blast
  then have "spmem (fst (rsp_dma_read rsp')) (win k) = rdram rsp' (d k)"
    using words.rd_run_at [of win "[0..<words]" k "\<lambda>k. rdram rsp' (d k)"] window_inj [OF assms(11)] assms(12)
    by (simp add: atLeast0LessThan win_def)
  ultimately show ?thesis unfolding w_def win_def by simp
qed

text \<open>A state for the instances: two rows of two words, from DMEM word 1022 on.\<close>

definition dma_state :: CPUState where
  "dma_state = reset_state\<lparr>rdram := \<lambda>k. word_of_nat k, cp0 := \<lparr>cr = (\<lambda>_. 0)(0 := 0xff8, 1 := 0x100, 2 := 0x00801007, 3 := 0x00801007), irq = 0\<rparr>\<rparr>"

theorem dma_read_correct_witness:
  "spmem (fst (rsp_dma_read dma_state)) 1025 = 0x45"
  using dma_read_correct [where rsp = dma_state and k = 3, THEN conjunct1]
  by (simp add: dma_state_def reset_state_def dram_index_def)

theorem dma_write_correct_witness:
  "rdram (rsp_dma_write dma_state) 0x45 = 0"
  using dma_write_correct [where rsp = dma_state and k = 3, THEN conjunct1]
  by (simp add: dma_state_def reset_state_def dram_index_def row_offset_def spmem_def host_u32_def vec_def)

theorem dma_round_trip_witness:
  "spmem (fst (rsp_dma_read ((rsp_dma_write dma_state)\<lparr>cp0 := cp0 dma_state\<rparr>))) 1025 = 0"
  using dma_round_trip [where rsp = dma_state and len_reg = "0x00801007" and c = "0xff8" and a = "0x100" and
      rsp' = "(rsp_dma_write dma_state)\<lparr>cp0 := cp0 dma_state\<rparr>" and k = 3]
  by (simp add: dma_state_def reset_state_def spmem_def)

section \<open>Polling\<close>

text \<open>A program that polls the status register: the reads of one register, with the host's counters passed on.\<close>

fun poll_status :: "nat \<Rightarrow> cp0_host \<Rightarrow> CPUState \<Rightarrow> nat \<Rightarrow> cp0_host \<times> CPUState \<times> ReturnMode" where
  "poll_status 0 h rsp rt = (h, rsp, MODE_CONTINUE)"
| "poll_status (Suc k) h rsp rt =
     (case RSP_MFC0 h rsp rt 4 of (h, rsp, m) \<Rightarrow> if m = MODE_CONTINUE then poll_status k h rsp rt else (h, rsp, m))"

lemma MFC0_status:
  assumes "parallel_integration h"
  shows "RSP_MFC0 h rsp rt 4 =
    (let h' = h\<lparr>MFC0_count := (MFC0_count h)(rt := MFC0_count h rt + 1)\<rparr>; rsp' = (if rt \<noteq> 0 then set_sr rt (cr (cp0 rsp) 4) rsp else rsp)
     in if sint (MFC0_count h rt + 1) \<ge> SP_STATUS_TIMEOUT h
        then (h', set_cr 4 (cr (cp0 rsp) 4 OR 1) rsp', MODE_CHECK_FLAGS) else (h', rsp', MODE_CONTINUE))"
  using assms by (simp add: RSP_MFC0_def Let_def SP_STATUS_HALT_def set_sr_def)

text \<open>The counter of a poll advances by one while it stays below the time-out, so the poll that reaches it halts the processor.\<close>

lemma count_step: "sint (c :: u16) + 1 < 2 ^ 15 \<Longrightarrow> sint (c + 1) = sint c + 1"
  using sint_of_int16 [of "sint c + 1"] sint_ge [of c] by simp

lemma poll_step:
  assumes "parallel_integration h" "sint (MFC0_count h rt) < SP_STATUS_TIMEOUT h" "SP_STATUS_TIMEOUT h < 2 ^ 15"
  defines "h' \<equiv> h\<lparr>MFC0_count := (MFC0_count h)(rt := MFC0_count h rt + 1)\<rparr>"
  shows "sint (MFC0_count h' rt) = sint (MFC0_count h rt) + 1"
    "sint (MFC0_count h' rt) = SP_STATUS_TIMEOUT h \<Longrightarrow>
      \<exists>s. RSP_MFC0 h rsp rt 4 = (h', s, MODE_CHECK_FLAGS) \<and> cr (cp0 s) = (cr (cp0 rsp))(4 := cr (cp0 rsp) 4 OR 1)"
    "sint (MFC0_count h' rt) < SP_STATUS_TIMEOUT h \<Longrightarrow> \<exists>s. RSP_MFC0 h rsp rt 4 = (h', s, MODE_CONTINUE) \<and> cp0 s = cp0 rsp"
proof -
  show c: "sint (MFC0_count h' rt) = sint (MFC0_count h rt) + 1" using assms by (simp add: count_step)
  have cp0: "cp0 (set_sr r v rsp) = cp0 rsp" for r v by (simp add: set_sr_def)
  show "sint (MFC0_count h' rt) = SP_STATUS_TIMEOUT h \<Longrightarrow>
      \<exists>s. RSP_MFC0 h rsp rt 4 = (h', s, MODE_CHECK_FLAGS) \<and> cr (cp0 s) = (cr (cp0 rsp))(4 := cr (cp0 rsp) 4 OR 1)"
    "sint (MFC0_count h' rt) < SP_STATUS_TIMEOUT h \<Longrightarrow> \<exists>s. RSP_MFC0 h rsp rt 4 = (h', s, MODE_CONTINUE) \<and> cp0 s = cp0 rsp"
    using assms(1) unfolding MFC0_status [OF assms(1)] Let_def by (auto simp: h'_def cp0)
qed

text \<open>C25: polling the status register ends. While the count of a destination register is below the time-out, exactly the poll that
  reaches the time-out halts the processor and returns to the host, however long the program would go on; every earlier poll
  continues and leaves the control registers alone.\<close>

theorem poll_times_out:
  fixes h :: cp0_host and rsp :: CPUState and rt k :: nat
  assumes "parallel_integration h" "sint (MFC0_count h rt) < SP_STATUS_TIMEOUT h" "SP_STATUS_TIMEOUT h < 2 ^ 15"
  shows "\<exists>h' s. poll_status k h rsp rt =
      (h', s, if int k < SP_STATUS_TIMEOUT h - sint (MFC0_count h rt) then MODE_CONTINUE else MODE_CHECK_FLAGS)
    \<and> cr (cp0 s) = (if int k < SP_STATUS_TIMEOUT h - sint (MFC0_count h rt) then cr (cp0 rsp)
        else (cr (cp0 rsp))(4 := cr (cp0 rsp) 4 OR 1))"
  using assms
proof (induction k arbitrary: h rsp)
  case (Suc k)
  define h' where "h' = h\<lparr>MFC0_count := (MFC0_count h)(rt := MFC0_count h rt + 1)\<rparr>"
  note step = poll_step [OF Suc.prems, folded h'_def]
  show ?case
  proof (cases "sint (MFC0_count h' rt) = SP_STATUS_TIMEOUT h")
    case True
    then obtain s where "RSP_MFC0 h rsp rt 4 = (h', s, MODE_CHECK_FLAGS)" "cr (cp0 s) = (cr (cp0 rsp))(4 := cr (cp0 rsp) 4 OR 1)"
      using step(2) by blast
    then show ?thesis using True step(1) by auto
  next
    case False
    then have lt: "sint (MFC0_count h' rt) < SP_STATUS_TIMEOUT h" using step(1) Suc.prems(2) by simp
    then obtain s where s: "RSP_MFC0 h rsp rt 4 = (h', s, MODE_CONTINUE)" "cp0 s = cp0 rsp" using step(3) by blast
    have "parallel_integration h'" "SP_STATUS_TIMEOUT h' = SP_STATUS_TIMEOUT h" using Suc.prems(1) by (simp_all add: h'_def)
    then show ?thesis using Suc.IH [of h' s] lt Suc.prems(3) step(1) s by (auto simp: algebra_simps fun_upd_def)
  qed
qed auto

theorem poll_times_out_witness:
  "\<exists>h' s. poll_status 20 \<lparr>parallel_integration = True, graphics_hle = False, SP_STATUS_TIMEOUT = 16, MFC0_count = \<lambda>_. 0\<rparr> dma_state 3
     = (h', s, MODE_CHECK_FLAGS) \<and> bit (cr (cp0 s) 4) 0"
  using poll_times_out [where h = "\<lparr>parallel_integration = True, graphics_hle = False, SP_STATUS_TIMEOUT = 16, MFC0_count = \<lambda>_. 0\<rparr>"
      and rsp = dma_state and rt = 3 and k = 20]
  by (auto simp: dma_state_def reset_state_def bit_0)

end
