(* ===== verification/Jit_Blocks.thy ===== *)
theory Jit_Blocks
  imports Cp0
begin

unbundle bit_operations_syntax

text \<open>
  The code cache of \<open>rsp_jit.cpp\<close>: which part of IMEM a block is compiled from, how compiled blocks are found again, and how
  writes to IMEM invalidate them. A block pointer is a value of any type, a null pointer is \<open>None\<close>; the compiler
  \<open>CPU::jit_region\<close> is an argument, a function of the hash, the start and the instructions of the region.
\<close>

section \<open>State and operations\<close>

record 'f jit_cpu =
  cpu_state :: CPUState
  blocks :: "nat \<Rightarrow> 'f option"
  cached_imem :: "nat \<Rightarrow> u32"
  cached_blocks :: "nat \<Rightarrow> u64 \<Rightarrow> 'f option"

type_synonym 'f compiler = "u64 \<Rightarrow> nat \<Rightarrow> u32 list \<Rightarrow> 'f"

definition slice :: "(nat \<Rightarrow> u32) \<Rightarrow> nat \<Rightarrow> nat \<Rightarrow> u32 list" where
  "slice m pc' count = map (\<lambda>i. m (pc' + i)) [0..<count]"

definition invalidate_imem :: "'f jit_cpu \<Rightarrow> 'f jit_cpu" where
  "invalidate_imem cpu = fold (\<lambda>i cpu.
     if slice (cached_imem cpu) (i * 64) 64 \<noteq> slice (imem (cpu_state cpu)) (i * 64) 64
     then cpu\<lparr>cpu_state := (cpu_state cpu)\<lparr>dirty_blocks := dirty_blocks (cpu_state cpu) OR drop_bit 1 (push_bit i 3)\<rparr>\<rparr>
     else cpu) [0..<16] cpu"

definition invalidate_code :: "'f jit_cpu \<Rightarrow> 'f jit_cpu" where
  "invalidate_code cpu =
     (if dirty_blocks (cpu_state cpu) = 0 then cpu else
      let cpu = fold (\<lambda>i cpu.
            if dirty_blocks (cpu_state cpu) AND push_bit i 1 \<noteq> 0
            then cpu\<lparr>blocks := \<lambda>w. if i * 64 \<le> w \<and> w < i * 64 + 64 then None else blocks cpu w,
                     cached_imem := \<lambda>w. if i * 64 \<le> w \<and> w < i * 64 + 64 then imem (cpu_state cpu) w else cached_imem cpu w\<rparr>
            else cpu) [0..<16] cpu
      in cpu\<lparr>cpu_state := (cpu_state cpu)\<lparr>dirty_blocks := 0\<rparr>\<rparr>)"

definition hash_imem :: "nat \<Rightarrow> u32 list \<Rightarrow> u64" where
  "hash_imem pc' words =
     (let h = 0xcbf29ce484222325;
          h = (h * 0x100000001b3) XOR word_of_nat pc';
          h = (h * 0x100000001b3) XOR word_of_nat (length words)
      in fold (\<lambda>x h. (h * 0x100000001b3) XOR ucast x) words h)"

text \<open>One instruction of the scan of \<open>analyze_static_end\<close>: the new \<open>max_static_pc\<close>, and whether the scan goes to \<open>end\<close>.\<close>

definition static_step :: "u32 \<Rightarrow> nat \<Rightarrow> nat \<Rightarrow> nat \<Rightarrow> nat \<Rightarrow> nat \<times> bool" where
  "static_step instr pc' end' i max_static_pc =
     (let type = unat (drop_bit 26 instr);
          forward_goto = \<not> (pc' + i + 1 \<ge> max_static_pc);
          max_static_pc = (if forward_goto then max_static_pc else pc' + i + 1);
          branch = (\<lambda>target. (if target \<ge> pc' \<and> target < end' then max max_static_pc (target + 1) else max_static_pc, False));
          relative = unat ((word_of_nat (pc' + i + 1) + instr) AND 0x3ff)
      in if drop_bit 25 instr = 0x25 then (max_static_pc, False)
         else if type = 0 then
           (let funct = unat (instr AND 63)
            in if funct = 8 \<or> funct = 9 then
                 (if \<not> forward_goto then (max (pc' + i + 2) max_static_pc, True) else (max_static_pc, False))
               else if funct = 13 then (max_static_pc, \<not> forward_goto)
               else (max_static_pc, False))
         else if type = 1 then
           (let rt = unat (drop_bit 16 instr AND 31)
            in if rt = 0 \<or> rt = 1 \<or> rt = 17 \<or> rt = 16 then branch relative else (max_static_pc, False))
         else if type = 2 \<or> type = 3 then
           (let target = unat (instr AND 0x3ff)
            in if target \<ge> pc' \<and> target < end' then
                 (if \<not> forward_goto then (max (pc' + i + 2) max_static_pc, True) else (max max_static_pc (target + 1), False))
               else if \<not> forward_goto then (max (pc' + i + 2) max_static_pc, True)
               else (max_static_pc, False))
         else if 4 \<le> type \<and> type \<le> 7 then branch relative
         else (max_static_pc, False))"

function static_scan :: "(nat \<Rightarrow> u32) \<Rightarrow> nat \<Rightarrow> nat \<Rightarrow> nat \<Rightarrow> nat \<Rightarrow> nat" where
  "static_scan m pc' end' i max_static_pc =
     (if i < end' - pc' then
        case static_step (m (pc' + i)) pc' end' i max_static_pc of (mx, stop) \<Rightarrow>
          if stop then mx else static_scan m pc' end' (i + 1) mx
      else max_static_pc)"
  by auto
termination by (relation "measure (\<lambda>(m, pc', end', i, mx). end' - pc' - i)") auto

definition analyze_static_end :: "(nat \<Rightarrow> u32) \<Rightarrow> nat \<Rightarrow> nat \<Rightarrow> nat" where
  "analyze_static_end m pc' end' = min (static_scan m pc' end' 0 pc') end'"

definition block_end :: "nat \<Rightarrow> nat" where
  "block_end pc' = min ((pc' + 256 * 2) div 256 * 64) 1024"

definition get_jit_block :: "'f compiler \<Rightarrow> u32 \<Rightarrow> 'f jit_cpu \<Rightarrow> 'f \<times> 'f jit_cpu" where
  "get_jit_block jit_region pc' cpu =
     (let pc' = unat (pc' AND 0xfff);
          word_pc = pc' div 4
      in case blocks cpu word_pc of
           Some block \<Rightarrow> (block, cpu)
         | None \<Rightarrow>
             let end' = block_end pc';
                 end' = analyze_static_end (imem (cpu_state cpu)) word_pc end';
                 words = slice (imem (cpu_state cpu)) word_pc (end' - word_pc);
                 hash = hash_imem word_pc words
             in case cached_blocks cpu word_pc hash of
                  Some ptr \<Rightarrow> (ptr, cpu\<lparr>blocks := (blocks cpu)(word_pc := Some ptr)\<rparr>)
                | None \<Rightarrow>
                    let ptr = jit_region hash word_pc words
                    in (ptr, cpu\<lparr>cached_blocks := (cached_blocks cpu)(word_pc := (cached_blocks cpu word_pc)(hash := Some ptr)),
                                  blocks := (blocks cpu)(word_pc := Some ptr)\<rparr>))"

declare static_scan.simps [simp del]

section \<open>Regions\<close>

lemma block_end_value:
  assumes "pc' < 4096"
  shows "block_end pc' = min (64 * (pc' div 4 div 64 + 2)) 1024"
proof -
  have "(pc' + 256 * 2) div 256 = pc' div 256 + 2" by simp
  moreover have "pc' div 4 div 64 = pc' div 256" by (simp add: div_mult2_eq [symmetric])
  ultimately show ?thesis by (simp add: block_end_def mult.commute)
qed

lemma fst_ifI: "(b \<Longrightarrow> (k :: nat) \<le> fst x) \<Longrightarrow> (\<not> b \<Longrightarrow> k \<le> fst y) \<Longrightarrow> k \<le> fst (if b then x else y)"
  by simp

lemma static_step_ge:
  "max_static \<le> fst (static_step instr pc' end' i max_static)" "pc' + i + 1 \<le> fst (static_step instr pc' end' i max_static)"
  unfolding static_step_def Let_def
  by (rule fst_ifI | simp add: le_max_iff_disj del: max_Suc_Suc; fail)+

lemma static_scan_ge: "mx \<le> static_scan m pc' end' i mx" "i < end' - pc' \<Longrightarrow> pc' + i + 1 \<le> static_scan m pc' end' i mx"
proof (induction m pc' end' i mx rule: static_scan.induct)
  case (1 m pc' end' i mx)
  {
    case 1
    show ?case
    proof (cases "i < end' - pc'")
      case True
      obtain mx' stop where st: "static_step (m (pc' + i)) pc' end' i mx = (mx', stop)" by fastforce
      then have "mx \<le> mx'" using static_step_ge(1) [of mx "m (pc' + i)" pc' end' i] by simp
      then show ?thesis using "1.IH"(1) [OF True st [symmetric]] True st
        by (cases stop; subst static_scan.simps) (auto dest: order.trans)
    qed (subst static_scan.simps, simp)
  next
    case 2
    obtain mx' stop where st: "static_step (m (pc' + i)) pc' end' i mx = (mx', stop)" by fastforce
    then have "pc' + i + 1 \<le> mx'" using static_step_ge(2) [of pc' i "m (pc' + i)" end' mx] by simp
    then show ?case using "1.IH"(1) [OF 2 st [symmetric]] 2 st
      by (cases stop; subst static_scan.simps) (auto dest: order.trans)
  }
qed

lemma static_scan_cong:
  "(\<And>x. pc' \<le> x \<Longrightarrow> x < end' \<Longrightarrow> m x = m' x) \<Longrightarrow> static_scan m pc' end' i mx = static_scan m' pc' end' i mx"
proof (induction m pc' end' i mx rule: static_scan.induct)
  case (1 m pc' end' i mx)
  show ?case
  proof (cases "i < end' - pc'")
    case True
    then have "m (pc' + i) = m' (pc' + i)" by (intro "1.prems") auto
    with True show ?thesis using "1.IH" [OF True] "1.prems"
      by (subst (1 2) static_scan.simps) (auto split: prod.split)
  next
    case False
    then show ?thesis by (subst (1 2) static_scan.simps) simp
  qed
qed

text \<open>What a block would be if it were compiled now: a function of the part of IMEM that the scan may reach.\<close>

definition region :: "(nat \<Rightarrow> u32) \<Rightarrow> nat \<Rightarrow> u32 list" where
  "region m w = slice m w (analyze_static_end m w (block_end (4 * w)) - w)"

definition fresh :: "'f compiler \<Rightarrow> (nat \<Rightarrow> u32) \<Rightarrow> nat \<Rightarrow> 'f" where
  "fresh jit_region m w = jit_region (hash_imem w (region m w)) w (region m w)"

lemma region_cong:
  assumes "\<And>x. w \<le> x \<Longrightarrow> x < block_end (4 * w) \<Longrightarrow> m x = m' x"
  shows "region m w = region m' w"
proof -
  have "analyze_static_end m w (block_end (4 * w)) = analyze_static_end m' w (block_end (4 * w))"
    unfolding analyze_static_end_def using static_scan_cong [OF assms] by simp
  moreover have "analyze_static_end m' w (block_end (4 * w)) \<le> block_end (4 * w)" by (simp add: analyze_static_end_def)
  ultimately show ?thesis using assms by (auto simp: region_def slice_def)
qed


lemma region_window:
  fixes m :: "nat \<Rightarrow> u32" and w :: nat
  assumes "w < 1024"
  defines "e \<equiv> analyze_static_end m w (block_end (4 * w))"
  shows "w < e" "e \<le> 1024" "e \<le> 64 * (w div 64 + 2)" "e - w \<le> 128"
proof -
  have be: "block_end (4 * w) = min (64 * (w div 64 + 2)) 1024" using assms by (simp add: block_end_value)
  then show "e \<le> 1024" "e \<le> 64 * (w div 64 + 2)" by (simp_all add: e_def analyze_static_end_def)
  moreover have "64 * (w div 64) \<le> w" by simp
  ultimately show "e - w \<le> 128" by simp
  have "w < 64 * (w div 64 + 2)" using dividend_less_times_div [of 64 w] by simp
  then have "w < block_end (4 * w)" using assms by (simp add: be)
  then show "w < e" using static_scan_ge(2) [of 0 "block_end (4 * w)" w m w] by (simp add: e_def analyze_static_end_def)
qed

section \<open>Coherence of the code cache\<close>

text \<open>A state of the code cache is coherent when every block found by address was compiled from the snapshot \<open>cached_imem\<close>, every
  block found by hash was compiled from a region of \<open>R\<close>, and IMEM differs from the snapshot only where the dirty bits say so.\<close>

definition coherent :: "'f compiler \<Rightarrow> (nat \<times> u32 list) set \<Rightarrow> 'f jit_cpu \<Rightarrow> bool" where
  "coherent jit_region R c \<longleftrightarrow>
     (\<forall>w<1024. \<forall>f. blocks c w = Some f \<longrightarrow> f = fresh jit_region (cached_imem c) w) \<and>
     (\<forall>w h f. cached_blocks c w h = Some f \<longrightarrow> (\<exists>ws. (w, ws) \<in> R \<and> h = hash_imem w ws \<and> f = jit_region h w ws)) \<and>
     imem_tracked ((cpu_state c)\<lparr>imem := cached_imem c, dirty_blocks := 0\<rparr>) (cpu_state c)"

definition collision_free :: "(nat \<times> u32 list) set \<Rightarrow> bool" where
  "collision_free R \<longleftrightarrow> (\<forall>(w, ws) \<in> R. \<forall>(w', ws') \<in> R. w = w' \<longrightarrow> hash_imem w ws = hash_imem w' ws' \<longrightarrow> ws = ws')"

text \<open>What happens to the code cache: the host writes the memories and the plugin compares IMEM with the snapshot; the processor runs
  (anything that marks the IMEM words it changes); \<open>run\<close> drops the dirty blocks; a block is looked up while none is dirty.\<close>

inductive jit_step :: "'f compiler \<Rightarrow> (nat \<times> u32 list) set \<Rightarrow> 'f jit_cpu \<Rightarrow> 'f jit_cpu \<Rightarrow> bool"
  for jit_region R where
  host: "dirty_blocks s = dirty_blocks (cpu_state c) \<Longrightarrow> jit_step jit_region R c (invalidate_imem (c\<lparr>cpu_state := s\<rparr>))"
| execute: "imem_tracked (cpu_state c) s \<Longrightarrow> jit_step jit_region R c (c\<lparr>cpu_state := s\<rparr>)"
| drop_dirty: "jit_step jit_region R c (invalidate_code c)"
| lookup: "dirty_blocks (cpu_state c) = 0 \<Longrightarrow>
    (unat (pc' AND 0xfff) div 4, region (imem (cpu_state c)) (unat (pc' AND 0xfff) div 4)) \<in> R \<Longrightarrow>
    jit_step jit_region R c (snd (get_jit_block jit_region pc' c))"

inductive jit_reachable :: "'f compiler \<Rightarrow> (nat \<times> u32 list) set \<Rightarrow> 'f jit_cpu \<Rightarrow> bool"
  for jit_region R where
  start: "dirty_blocks s = 0 \<Longrightarrow> jit_reachable jit_region R
    (invalidate_imem \<lparr>cpu_state = s, blocks = \<lambda>_. None, cached_imem = \<lambda>_. 0, cached_blocks = \<lambda>_ _. None\<rparr>)"
| step: "jit_reachable jit_region R c \<Longrightarrow> jit_step jit_region R c c' \<Longrightarrow> jit_reachable jit_region R c'"

lemma slice_eq: "slice m a n = slice m' a n \<longleftrightarrow> (\<forall>w. a \<le> w \<and> w < a + n \<longrightarrow> m w = m' w)"
proof -
  have "slice m a n = slice m' a n \<longleftrightarrow> (\<forall>i<n. m (a + i) = m' (a + i))" by (auto simp: slice_def)
  also have "\<dots> \<longleftrightarrow> (\<forall>w. a \<le> w \<and> w < a + n \<longrightarrow> m w = m' w)"
    by (metis add_diff_inverse_nat le_add1 nat_add_left_cancel_less not_less)
  finally show ?thesis .
qed

text \<open>The comparison with the snapshot keeps everything but the dirty bits, which then cover every difference.\<close>

lemma invalidate_imem_fold:
  fixes c :: "'f jit_cpu"
  defines "go \<equiv> \<lambda>n. fold (\<lambda>i cpu.
     if slice (cached_imem cpu) (i * 64) 64 \<noteq> slice (imem (cpu_state cpu)) (i * 64) 64
     then cpu\<lparr>cpu_state := (cpu_state cpu)\<lparr>dirty_blocks := dirty_blocks (cpu_state cpu) OR drop_bit 1 (push_bit i 3)\<rparr>\<rparr>
     else cpu) [0..<n] c"
  assumes "n \<le> 16"
  shows "blocks (go n) = blocks c" "cached_imem (go n) = cached_imem c" "cached_blocks (go n) = cached_blocks c"
    "imem (cpu_state (go n)) = imem (cpu_state c)"
    "bit (dirty_blocks (cpu_state c)) b \<Longrightarrow> bit (dirty_blocks (cpu_state (go n))) b"
    "w < 64 * n \<Longrightarrow> imem (cpu_state c) w \<noteq> cached_imem c w \<Longrightarrow>
       bit (dirty_blocks (cpu_state (go n))) (w div 64) \<and> bit (dirty_blocks (cpu_state (go n))) (w div 64 - 1)"
  using assms(2)
proof (induction n)
  case (Suc n)
  {
    case 6
    show ?case
    proof (cases "w < 64 * n")
      case True
      then show ?thesis using Suc.IH(6) 6 by (simp add: go_def bit_or_iff)
    next
      case False
      then have w: "n * 64 \<le> w" "w < n * 64 + 64" "w div 64 = n" using 6 by simp_all
      then have "slice (cached_imem c) (n * 64) 64 \<noteq> slice (imem (cpu_state c)) (n * 64) 64"
        unfolding slice_eq using 6 by metis
      then show ?thesis using Suc.IH(2,4) block_bit [of n] 6 w by (simp add: go_def bit_or_iff)
    qed
  }
qed (simp_all add: go_def bit_or_iff)

lemma invalidate_imem_effect:
  "blocks (invalidate_imem c) = blocks c" "cached_imem (invalidate_imem c) = cached_imem c"
  "cached_blocks (invalidate_imem c) = cached_blocks c" "imem (cpu_state (invalidate_imem c)) = imem (cpu_state c)"
  "imem_tracked ((cpu_state c)\<lparr>imem := cached_imem c\<rparr>) (cpu_state (invalidate_imem c))"
  using invalidate_imem_fold [where n = 16 and c = c, OF order.refl, folded invalidate_imem_def] by (simp_all add: imem_tracked_def)

text \<open>Dropping the dirty blocks takes the snapshot of exactly those blocks.\<close>

lemma invalidate_code_fold:
  fixes c :: "'f jit_cpu"
  defines "go \<equiv> \<lambda>n. fold (\<lambda>i cpu.
     if dirty_blocks (cpu_state cpu) AND push_bit i 1 \<noteq> 0
     then cpu\<lparr>blocks := \<lambda>w. if i * 64 \<le> w \<and> w < i * 64 + 64 then None else blocks cpu w,
              cached_imem := \<lambda>w. if i * 64 \<le> w \<and> w < i * 64 + 64 then imem (cpu_state cpu) w else cached_imem cpu w\<rparr>
     else cpu) [0..<n] c"
  shows "cpu_state (go n) = cpu_state c" "cached_blocks (go n) = cached_blocks c"
    "blocks (go n) w = (if w div 64 < n \<and> bit (dirty_blocks (cpu_state c)) (w div 64) then None else blocks c w)"
    "cached_imem (go n) w = (if w div 64 < n \<and> bit (dirty_blocks (cpu_state c)) (w div 64) then imem (cpu_state c) w else cached_imem c w)"
proof (induction n)
  case (Suc n)
  have hit: "n * 64 \<le> w \<and> w < n * 64 + 64 \<longleftrightarrow> w div 64 = n" by (auto simp: div_nat_eqI)
  {
    case 3
    show ?case using Suc.IH hit by (auto simp: go_def less_Suc_eq and_exp_eq_0_iff_not_bit)
  next
    case 4
    show ?case using Suc.IH hit by (auto simp: go_def less_Suc_eq and_exp_eq_0_iff_not_bit)
  }
qed (simp_all add: go_def)

lemma invalidate_code_effect:
  "cached_blocks (invalidate_code c) = cached_blocks c"
  "cpu_state (invalidate_code c) = (cpu_state c)\<lparr>dirty_blocks := 0\<rparr>"
  "w < 1024 \<Longrightarrow> blocks (invalidate_code c) w = (if bit (dirty_blocks (cpu_state c)) (w div 64) then None else blocks c w)"
  "w < 1024 \<Longrightarrow> cached_imem (invalidate_code c) w =
     (if bit (dirty_blocks (cpu_state c)) (w div 64) then imem (cpu_state c) w else cached_imem c w)"
  using invalidate_code_fold [where n = 16 and c = c]
  by (cases "dirty_blocks (cpu_state c) = 0"; simp add: invalidate_code_def Let_def div_less_iff_less_mult del: upt_rec_numeral upt_conv_Cons)+

lemma tracked_unchanged:
  assumes "imem_tracked a s" "w < 1024" "\<not> bit (dirty_blocks s) b" "b = w div 64 \<or> b = w div 64 - 1"
  shows "imem s w = imem a w"
  using assms by (auto simp: imem_tracked_def)

lemma fresh_cong:
  assumes "w < 1024" "\<And>x. w \<le> x \<Longrightarrow> x < 1024 \<Longrightarrow> x div 64 \<le> w div 64 + 1 \<Longrightarrow> m x = m' x"
  shows "fresh jit_region m w = fresh jit_region m' w"
proof -
  have "region m w = region m' w"
  proof (rule region_cong)
    fix x assume x: "w \<le> x" "x < block_end (4 * w)"
    then have "x < 1024" "x < 64 * (w div 64 + 2)" using assms(1) by (simp_all add: block_end_value)
    then show "m x = m' x" using assms(2) [OF x(1)] by (simp add: less_mult_imp_div_less div_le_mono mult.commute less_Suc_eq_le [symmetric])
  qed
  then show ?thesis by (simp add: fresh_def)
qed

lemma coherent_invalidate_code:
  assumes "coherent jit_region R c"
  shows "coherent jit_region R (invalidate_code c)"
proof -
  let ?d = "dirty_blocks (cpu_state c)" and ?m = "cached_imem (invalidate_code c)"
  have t: "imem_tracked ((cpu_state c)\<lparr>imem := cached_imem c, dirty_blocks := 0\<rparr>) (cpu_state c)" using assms by (simp add: coherent_def)
  have same: "imem (cpu_state c) w = cached_imem c w" if "w < 1024" "\<not> bit ?d b" "b = w div 64 \<or> b = w div 64 - 1" for w b
    using tracked_unchanged [OF t that] by simp
  have snap: "?m w = imem (cpu_state c) w" if "w < 1024" for w
    using same [OF that, of "w div 64"] that by (simp add: invalidate_code_effect)
  have "f = fresh jit_region ?m w" if w: "w < 1024" and f: "blocks (invalidate_code c) w = Some f" for w f
  proof -
    have clean: "\<not> bit ?d (w div 64)" "blocks c w = Some f" using w f by (simp_all add: invalidate_code_effect split: if_splits)
    have "fresh jit_region (cached_imem c) w = fresh jit_region ?m w"
    proof (rule fresh_cong [OF w])
      fix x assume x: "w \<le> x" "x < 1024" "x div 64 \<le> w div 64 + 1"
      then have "w div 64 = x div 64 \<or> w div 64 = x div 64 - 1" using div_le_mono [OF x(1), of 64] by linarith
      then show "cached_imem c x = ?m x" using same [OF x(2) clean(1)] x(2) by (simp add: snap)
    qed
    then show ?thesis using assms w clean(2) by (simp add: coherent_def)
  qed
  moreover have "imem_tracked ((cpu_state (invalidate_code c))\<lparr>imem := ?m, dirty_blocks := 0\<rparr>) (cpu_state (invalidate_code c))"
    using snap by (simp add: imem_tracked_def invalidate_code_effect)
  ultimately show ?thesis using assms unfolding coherent_def invalidate_code_effect(1) by blast
qed


lemma block_of_pc: "unat (pc' AND 0xfff :: u32) div 4 < 1024" "block_end (unat (pc' AND 0xfff)) = block_end (4 * (unat (pc' AND 0xfff) div 4))"
proof -
  have "unat (pc' AND 0xfff) < 4096" by (simp add: unat_masks)
  then show "unat (pc' AND 0xfff :: u32) div 4 < 1024" "block_end (unat (pc' AND 0xfff)) = block_end (4 * (unat (pc' AND 0xfff) div 4))"
    by (simp_all add: block_end_value less_mult_imp_div_less)
qed

text \<open>A lookup while no block is dirty: the result is what compiling IMEM now gives, and the cache stays coherent.\<close>

lemma get_jit_block_coherent:
  assumes c: "coherent jit_region R c" and R: "collision_free R" and clean: "dirty_blocks (cpu_state c) = 0"
    and w: "w = unat (pc' AND 0xfff) div 4" and reg: "(w, region (imem (cpu_state c)) w) \<in> R"
  shows "fst (get_jit_block jit_region pc' c) = fresh jit_region (imem (cpu_state c)) w
    \<and> coherent jit_region R (snd (get_jit_block jit_region pc' c))"
proof -
  let ?m = "imem (cpu_state c)"
  have w1: "w < 1024" using block_of_pc by (simp add: w)
  have "?m x = cached_imem c x" if "x < 1024" for x
    using c that clean by (auto simp: coherent_def imem_tracked_def)
  then have snap: "fresh jit_region ?m x = fresh jit_region (cached_imem c) x" if "x < 1024" for x
    using that by (intro fresh_cong) simp_all
  show ?thesis
  proof (cases "blocks c w")
    case (Some f)
    then show ?thesis using c w1 snap [OF w1] by (simp add: get_jit_block_def Let_def w [symmetric] coherent_def)
  next
    case None
    define h where "h = hash_imem w (region ?m w)"
    have res: "get_jit_block jit_region pc' c = (case cached_blocks c w h of
         Some ptr \<Rightarrow> (ptr, c\<lparr>blocks := (blocks c)(w := Some ptr)\<rparr>)
       | None \<Rightarrow> (jit_region h w (region ?m w),
           c\<lparr>cached_blocks := (cached_blocks c)(w := (cached_blocks c w)(h := Some (jit_region h w (region ?m w)))),
             blocks := (blocks c)(w := Some (jit_region h w (region ?m w)))\<rparr>))"
      using None unfolding get_jit_block_def Let_def block_of_pc(2) w [symmetric] region_def [symmetric] h_def [symmetric] by simp
    have new: "fresh jit_region ?m w = jit_region h w (region ?m w)" by (simp add: fresh_def h_def)
    have "ptr = fresh jit_region ?m w" if ptr: "cached_blocks c w h = Some ptr" for ptr
    proof -
      obtain ws where "(w, ws) \<in> R" "h = hash_imem w ws" "ptr = jit_region h w ws" using c ptr unfolding coherent_def by blast
      moreover from this have "ws = region ?m w" using R reg unfolding collision_free_def h_def by fastforce
      ultimately show ?thesis by (simp add: new)
    qed
    then show ?thesis
      using c reg snap [OF w1] new unfolding res coherent_def by (auto simp: h_def split: option.split if_splits)
  qed
qed

lemma jit_reachable_coherent:
  assumes "collision_free R"
  shows "jit_reachable jit_region R c \<Longrightarrow> coherent jit_region R c"
proof (induction rule: jit_reachable.induct)
  case (start s)
  then show ?case
    using invalidate_imem_effect [of "\<lparr>cpu_state = s, blocks = \<lambda>_. None, cached_imem = \<lambda>_. 0, cached_blocks = \<lambda>_ _. None\<rparr> :: 'a jit_cpu"]
    by (simp add: coherent_def imem_tracked_def)
next
  case (step c c')
  from step.hyps(2) show ?case
  proof cases
    case (host s)
    then show ?thesis using step.IH invalidate_imem_effect [of "c\<lparr>cpu_state := s\<rparr>"]
      by (simp add: coherent_def imem_tracked_def)
  next
    case (execute s)
    then show ?thesis using step.IH unfolding coherent_def imem_tracked_def by simp metis
  next
    case drop_dirty
    then show ?thesis using coherent_invalidate_code [OF step.IH] by simp
  next
    case (lookup pc')
    then show ?thesis using get_jit_block_coherent [OF step.IH assms] by simp
  qed
qed


section \<open>Properties\<close>

text \<open>C29: the region a block is compiled from. For every entry point it is not empty, ends inside IMEM, never reaches past the code
  block after the one it starts in (the only two blocks whose changes drop it), and has at most the 128 instructions that
  \<open>jit_region\<close> asserts.\<close>

theorem region_bounds:
  fixes m :: "nat \<Rightarrow> u32" and pc' :: u32
  defines "w \<equiv> unat (pc' AND 0xfff) div 4"
  defines "e \<equiv> analyze_static_end m w (block_end (unat (pc' AND 0xfff)))"
  shows "w < e \<and> e \<le> 1024 \<and> (e - 1) div 64 \<le> w div 64 + 1 \<and> e - w \<le> 128"
proof -
  have "w < 1024" and e: "e = analyze_static_end m w (block_end (4 * w))" using block_of_pc [of pc'] by (simp_all add: w_def e_def)
  then show ?thesis using region_window [of w m] unfolding e [symmetric] by (auto simp: less_mult_imp_div_less less_Suc_eq_le [symmetric])
qed

text \<open>C28: the code cache is transparent. In every state that the host's writes, the processor's DMA, the dropping of dirty
  blocks and earlier lookups can lead to, a lookup made while no block is dirty gives exactly the code that compiling the present IMEM
  at that address gives, whether it comes from the address table, from the hash table or from the compiler. The hash table is only as
  good as its hash: no two different regions of one address that the run compiles may have the same hash.\<close>

theorem block_cache_transparent:
  assumes "collision_free R" and "jit_reachable jit_region R c" and "dirty_blocks (cpu_state c) = 0"
    and "w = unat (pc' AND 0xfff) div 4" and "(w, region (imem (cpu_state c)) w) \<in> R"
  shows "fst (get_jit_block jit_region pc' c)
      = jit_region (hash_imem w (region (imem (cpu_state c)) w)) w (region (imem (cpu_state c)) w)"
  using get_jit_block_coherent [OF jit_reachable_coherent [OF assms(1,2)] assms(1,3,4,5)] by (simp add: fresh_def)

definition break_imem :: "nat \<Rightarrow> u32" where
  "break_imem = (\<lambda>_. 13)"

definition break_cpu :: "u32 list jit_cpu" where
  "break_cpu = invalidate_code (invalidate_imem
     \<lparr>cpu_state = reset_state\<lparr>imem := break_imem\<rparr>, blocks = \<lambda>_. None, cached_imem = \<lambda>_. 0, cached_blocks = \<lambda>_ _. None\<rparr>)"

definition patched_cpu :: "u32 list jit_cpu" where
  "patched_cpu = (let c = snd (get_jit_block (\<lambda>h w ws. ws) 0 break_cpu)
     in invalidate_code (invalidate_imem (c\<lparr>cpu_state := (cpu_state c)\<lparr>imem := break_imem(0 := 0)\<rparr>\<rparr>)))"

lemma patched_region: "region (break_imem(0 := 0)) 0 = [0, 13]" "region break_imem 0 = [13]"
  by code_simp+


lemma break_cpu_state: "dirty_blocks (cpu_state break_cpu) = 0" "imem (cpu_state break_cpu) = break_imem"
  "dirty_blocks (cpu_state patched_cpu) = 0" "imem (cpu_state patched_cpu) = break_imem(0 := 0)"
  by (simp_all add: break_cpu_def patched_cpu_def Let_def invalidate_code_effect invalidate_imem_effect)

lemma patched_reachable: "jit_reachable (\<lambda>h w ws. ws) {(0, [13]), (0, [0, 13])} patched_cpu"
proof -
  let ?reach = "jit_reachable (\<lambda>h w ws. ws) {(0 :: nat, [13 :: u32]), (0, [0, 13])}"
  have "?reach break_cpu" unfolding break_cpu_def
    by (intro jit_reachable.step [OF _ drop_dirty] jit_reachable.start) (simp add: reset_state_def)
  then have "?reach (snd (get_jit_block (\<lambda>h w ws. ws) 0 break_cpu))"
    by (rule jit_reachable.step) (rule lookup, simp_all add: break_cpu_state patched_region)
  then show ?thesis unfolding patched_cpu_def Let_def
    by (intro jit_reachable.step [OF _ drop_dirty]) (erule jit_reachable.step, rule host, simp)
qed

theorem block_cache_transparent_witness:
  "fst (get_jit_block (\<lambda>h w ws. ws) 0 patched_cpu) = [0, 13]"
  using block_cache_transparent [OF _ patched_reachable, of 0 0]
  by (simp add: break_cpu_state patched_region) (simp add: collision_free_def hash_imem_def)

section \<open>Running\<close>

text \<open>\<open>CPU::run\<close>: the entry frame that the thunks generate is an argument; a run that keeps being re-entered does not return.\<close>

definition SP_STATUS_INTR_BREAK :: u32 where "SP_STATUS_INTR_BREAK = 0x0040"

definition enter :: "('f jit_cpu \<Rightarrow> 'f jit_cpu \<times> ReturnMode) \<Rightarrow> u32 \<Rightarrow> 'f jit_cpu \<Rightarrow> 'f jit_cpu \<times> ReturnMode" where
  "enter enter_frame pc' cpu = enter_frame (cpu\<lparr>cpu_state := (cpu_state cpu)\<lparr>pc := pc'\<rparr>\<rparr>)"

definition on_break :: "'f jit_cpu \<Rightarrow> 'f jit_cpu" where
  "on_break cpu =
     (let s = cpu_state cpu;
          s = set_cr 4 (cr (cp0 s) 4 OR (SP_STATUS_BROKE OR SP_STATUS_HALT)) s;
          s = (if cr (cp0 s) 4 AND SP_STATUS_INTR_BREAK \<noteq> 0 then s\<lparr>cp0 := (cp0 s)\<lparr>irq := irq (cp0 s) OR 1\<rparr>\<rparr> else s)
      in cpu\<lparr>cpu_state := s\<rparr>)"

partial_function (option) run_loop :: "('f jit_cpu \<Rightarrow> 'f jit_cpu \<times> ReturnMode) \<Rightarrow> 'f jit_cpu \<Rightarrow> ('f jit_cpu \<times> ReturnMode) option" where
  "run_loop enter_frame cpu =
     (case enter enter_frame (pc (cpu_state cpu)) cpu of (cpu, ret) \<Rightarrow>
        if ret = MODE_BREAK then Some (on_break cpu, MODE_BREAK)
        else if ret = MODE_CHECK_FLAGS \<or> ret = MODE_DMA_READ then Some (cpu, ret)
        else run_loop enter_frame cpu)"

definition run :: "('f jit_cpu \<Rightarrow> 'f jit_cpu \<times> ReturnMode) \<Rightarrow> 'f jit_cpu \<Rightarrow> ('f jit_cpu \<times> ReturnMode) option" where
  "run enter_frame cpu = run_loop enter_frame (invalidate_code cpu)"

lemma break_bit: "x AND 0x40 \<noteq> 0 \<longleftrightarrow> bit x 6" for x :: u32
  using and_exp_eq_0_iff_not_bit [of x 6] by simp

definition leaves :: "ReturnMode \<Rightarrow> bool" where
  "leaves ret \<longleftrightarrow> ret \<in> {MODE_BREAK, MODE_CHECK_FLAGS, MODE_DMA_READ}"

lemma enter_here [simp]: "enter enter_frame (pc (cpu_state cpu)) cpu = enter_frame cpu"
  by (simp add: enter_def)

lemma run_loop_step: "run_loop ef cpu = (if leaves (snd (ef cpu))
    then Some (if snd (ef cpu) = MODE_BREAK then on_break (fst (ef cpu)) else fst (ef cpu), snd (ef cpu))
    else run_loop ef (fst (ef cpu)))"
  by (subst run_loop.simps) (auto simp: leaves_def split: prod.split)

lemma run_loop_enough:
  "(\<And>j. j < k \<Longrightarrow> \<not> leaves (snd (ef (((\<lambda>c. fst (ef c)) ^^ j) cpu)))) \<Longrightarrow>
   run_loop ef cpu = run_loop ef (((\<lambda>c. fst (ef c)) ^^ k) cpu)"
proof (induction k)
  case (Suc k)
  then show ?case using run_loop_step [of ef "((\<lambda>c. fst (ef c)) ^^ k) cpu"] by simp
qed simp

lemma run_loop_returns:
  "run_loop ef cpu = Some r \<Longrightarrow> \<exists>k. (\<forall>j<k. \<not> leaves (snd (ef (((\<lambda>c. fst (ef c)) ^^ j) cpu)))) \<and> leaves (snd (ef (((\<lambda>c. fst (ef c)) ^^ k) cpu)))"
proof (induction ef cpu r rule: run_loop.raw_induct [rotated 1, consumes 1, case_names step])
  case (step run_loop' ef cpu r)
  obtain c' ret where e: "ef cpu = (c', ret)" by fastforce
  show ?case
  proof (cases "leaves ret")
    case True
    then show ?thesis by (intro exI [of _ 0]) (simp add: e)
  next
    case False
    then have "run_loop' ef c' = Some r" using step(2) e by (simp add: leaves_def)
    from step(1) [OF this] obtain k where "\<forall>j<k. \<not> leaves (snd (ef (((\<lambda>c. fst (ef c)) ^^ j) c')))" "leaves (snd (ef (((\<lambda>c. fst (ef c)) ^^ k) c')))"
      by blast
    then show ?thesis using False e
      by (intro exI [of _ "Suc k"]) (auto simp: funpow_Suc_right less_Suc_eq_0_disj simp del: funpow.simps)
  qed
qed


text \<open>C30: \<open>run\<close> returns exactly when generated code ever leaves with a break, a flag check or a DMA. It drops the dirty blocks,
  enters until the first such exit and reports its mode; after a break the status register has BROKE and HALT set and the interrupt
  line is raised when the break interrupt is enabled, and no other state changes. When generated code never leaves, \<open>run\<close> does not
  return.\<close>

theorem run_returns:
  fixes enter_frame :: "'f jit_cpu \<Rightarrow> 'f jit_cpu \<times> ReturnMode" and cpu :: "'f jit_cpu"
  defines "before \<equiv> \<lambda>k. ((\<lambda>c. fst (enter_frame c)) ^^ k) (invalidate_code cpu)"
  defines "mode \<equiv> \<lambda>k. snd (enter_frame (before k))" and "after \<equiv> \<lambda>k. fst (enter_frame (before k))"
  shows "run enter_frame cpu = (if \<exists>k. mode k \<in> {MODE_BREAK, MODE_CHECK_FLAGS, MODE_DMA_READ}
      then let k = (LEAST k. mode k \<in> {MODE_BREAK, MODE_CHECK_FLAGS, MODE_DMA_READ});
               s = cpu_state (after k); st = cr (cp0 s) 4 OR 3
           in Some (if mode k = MODE_BREAK
                    then (after k)\<lparr>cpu_state := s\<lparr>cp0 := \<lparr>cr = (cr (cp0 s))(4 := st),
                           irq = (if bit st 6 then irq (cp0 s) OR 1 else irq (cp0 s))\<rparr>\<rparr>\<rparr>
                    else after k, mode k)
      else None)"
proof (cases "\<exists>k. leaves (mode k)")
  case True
  define k where "k = (LEAST k. leaves (mode k))"
  have k: "leaves (mode k)" "\<And>j. j < k \<Longrightarrow> \<not> leaves (mode j)"
    using True LeastI_ex [of "\<lambda>k. leaves (mode k)"] not_less_Least unfolding k_def by auto
  have "run enter_frame cpu = run_loop enter_frame (before k)"
    unfolding run_def before_def using k(2) by (intro run_loop_enough) (simp add: mode_def before_def)
  also have "\<dots> = Some (if mode k = MODE_BREAK then on_break (after k) else after k, mode k)"
    using k(1) by (subst run_loop_step) (simp add: mode_def after_def)
  also have "on_break (after k) = (let s = cpu_state (after k); st = cr (cp0 s) 4 OR 3 in (after k)\<lparr>cpu_state := s\<lparr>cp0 :=
      \<lparr>cr = (cr (cp0 s))(4 := st), irq = (if bit st 6 then irq (cp0 s) OR 1 else irq (cp0 s))\<rparr>\<rparr>\<rparr>)"
    by (simp add: on_break_def Let_def set_cr_def SP_STATUS_BROKE_def SP_STATUS_HALT_def SP_STATUS_INTR_BREAK_def break_bit)
  finally show ?thesis using True unfolding leaves_def k_def [unfolded leaves_def] by (simp add: Let_def)
next
  case False
  have "run enter_frame cpu = None"
  proof (rule ccontr)
    assume "run enter_frame cpu \<noteq> None"
    then obtain r where "run_loop enter_frame (invalidate_code cpu) = Some r" by (auto simp: run_def)
    then show False using run_loop_returns False by (fastforce simp: mode_def before_def)
  qed
  then show ?thesis using False by (simp add: leaves_def)
qed

end
