(* ===== verification/Jit_Ops.thy ===== *)
theory Jit_Ops
  imports Jit_Blocks "HOL-Library.Monad_Syntax"
begin

unbundle bit_operations_syntax

text \<open>
  The code that the recompiler emits: the subset of GNU lightning's instruction set that \<open>rsp_jit.cpp\<close> uses, on a host with 64 bit
  registers, as its documentation describes it. Instructions that address the processor state or the stack frame name the field instead of
  its offset. A function that generated code calls may leave anything in the caller-saved registers \<open>JIT_R\<close>: what it leaves is an
  argument \<open>clobber\<close> of the execution. Branches inside a block of code go forward to the place where they are patched.
\<close>

section \<open>Instructions\<close>

datatype jit_register = JIT_R nat | JIT_V nat

datatype state_field = F_sr nat | F_pc | F_has_delay_slot | F_branch_target

datatype thunk = enter_thunk | return_thunk

text \<open>The functions that generated code calls: the unaligned accesses with an address and a value, handlers with a packed operand, and
  the two of coprocessor 0, which also return a mode.\<close>

datatype callee =
    rsp_unaligned_lh | rsp_unaligned_lw | rsp_unaligned_lhu | rsp_unaligned_sh | rsp_unaligned_sw
  | Handler "CPUState \<Rightarrow> u32 \<Rightarrow> CPUState" u32
  | Cp0_handler "cp0_host \<Rightarrow> CPUState \<Rightarrow> u32 \<Rightarrow> cp0_host \<times> CPUState \<times> ReturnMode" u32

text \<open>Lightning names an instruction by its operation and a suffix: \<open>r\<close> for a register as second operand, \<open>i\<close> for an immediate;
  \<open>jit_addr\<close> is \<open>jit_r Add\<close>, \<open>jit_addi\<close> is \<open>jit_i Add\<close>. Loads and stores have the width as suffix.\<close>

datatype alu = Add | Sub | And | Or | Xor | Lsh | Rsh | Rsh_u | Lt | Lt_u | Le | Ge | Gt | Eq | Ne

datatype width = w_c | w_uc | w_s | w_us | w_i

datatype jit_op =
    jit_r alu jit_register jit_register jit_register | jit_i alu jit_register jit_register u64
  | jit_movr jit_register jit_register | jit_movi jit_register u64
  | jit_extr_i jit_register jit_register | jit_extr_ui jit_register jit_register
  | jit_ldxi_i jit_register state_field | jit_ldxi_ui jit_register state_field | jit_stxi_i state_field jit_register
  | jit_ldxi_frame jit_register nat | jit_stxi_frame nat jit_register
  | jit_ldxr width jit_register jit_register | jit_stxr width jit_register jit_register
  | jit_finishi callee "jit_register list" | jit_retval jit_register
  | jit_beqi jit_register u64 nat | jit_bnei jit_register u64 nat | jit_bmsi jit_register u64 nat | jit_jmpi nat
  | jit_patch nat | jit_label nat | jit_patch_abs thunk

record host =
  jit_regs :: "jit_register \<Rightarrow> u64"
  cpu :: CPUState
  frame :: "nat \<Rightarrow> u64"
  ret_value :: u64
  globals :: cp0_host

type_synonym clobber = "host \<Rightarrow> nat \<Rightarrow> u64"

section \<open>Memory access and called functions\<close>

definition BYTE_ENDIAN_FIXUP :: "u64 \<Rightarrow> nat \<Rightarrow> nat" where
  "BYTE_ENDIAN_FIXUP x off = unat (((x + word_of_nat off) XOR 3) AND 0xfff)"

definition unaligned_lh :: "(nat \<Rightarrow> u8) \<Rightarrow> u64 \<Rightarrow> u64" where
  "unaligned_lh dram addr =
     (let off0 = BYTE_ENDIAN_FIXUP addr 0; off1 = BYTE_ENDIAN_FIXUP addr 1
      in scast (ucast (push_bit 8 (ucast (dram off0)) OR ucast (dram off1) :: u32) :: u16))"

definition unaligned_lw :: "(nat \<Rightarrow> u8) \<Rightarrow> u64 \<Rightarrow> u64" where
  "unaligned_lw dram addr =
     (let off0 = BYTE_ENDIAN_FIXUP addr 0; off1 = BYTE_ENDIAN_FIXUP addr 1;
          off2 = BYTE_ENDIAN_FIXUP addr 2; off3 = BYTE_ENDIAN_FIXUP addr 3
      in scast (push_bit 24 (ucast (dram off0)) OR push_bit 16 (ucast (dram off1)) OR push_bit 8 (ucast (dram off2)) OR
           ucast (dram off3) :: u32))"

definition unaligned_lhu :: "(nat \<Rightarrow> u8) \<Rightarrow> u64 \<Rightarrow> u64" where
  "unaligned_lhu dram addr =
     (let off0 = BYTE_ENDIAN_FIXUP addr 0; off1 = BYTE_ENDIAN_FIXUP addr 1
      in ucast (ucast (push_bit 8 (ucast (dram off0)) OR ucast (dram off1) :: u32) :: u16))"

definition unaligned_sh :: "(nat \<Rightarrow> u8) \<Rightarrow> u64 \<Rightarrow> u64 \<Rightarrow> nat \<Rightarrow> u8" where
  "unaligned_sh dram addr data =
     (let off0 = BYTE_ENDIAN_FIXUP addr 0; off1 = BYTE_ENDIAN_FIXUP addr 1
      in dram(off0 := ucast (drop_bit 8 data), off1 := ucast data))"

definition unaligned_sw :: "(nat \<Rightarrow> u8) \<Rightarrow> u64 \<Rightarrow> u64 \<Rightarrow> nat \<Rightarrow> u8" where
  "unaligned_sw dram addr data =
     (let off0 = BYTE_ENDIAN_FIXUP addr 0; off1 = BYTE_ENDIAN_FIXUP addr 1;
          off2 = BYTE_ENDIAN_FIXUP addr 2; off3 = BYTE_ENDIAN_FIXUP addr 3
      in dram(off0 := ucast (drop_bit 24 data), off1 := ucast (drop_bit 16 data), off2 := ucast (drop_bit 8 data), off3 := ucast data))"

text \<open>Half words and words at an address of host memory, which is little endian.\<close>

definition mem_u16 :: "(nat \<Rightarrow> u8) \<Rightarrow> nat \<Rightarrow> u16" where
  "mem_u16 p a = ucast (p a) OR push_bit 8 (ucast (p (a + 1)))"

definition mem_u32 :: "(nat \<Rightarrow> u8) \<Rightarrow> nat \<Rightarrow> u32" where
  "mem_u32 p a = ucast (p a) OR push_bit 8 (ucast (p (a + 1))) OR push_bit 16 (ucast (p (a + 2))) OR push_bit 24 (ucast (p (a + 3)))"

fun mode_word :: "ReturnMode \<Rightarrow> u64" where
  "mode_word MODE_ENTER = 0"
| "mode_word MODE_CONTINUE = 1"
| "mode_word MODE_BREAK = 2"
| "mode_word MODE_DMA_READ = 3"
| "mode_word MODE_CHECK_FLAGS = 4"

definition clobbered :: "clobber \<Rightarrow> host \<Rightarrow> host" where
  "clobbered clobber h = h\<lparr>jit_regs := \<lambda>r. case r of JIT_R i \<Rightarrow> clobber h i | JIT_V i \<Rightarrow> jit_regs h r\<rparr>"

fun run_callee :: "callee \<Rightarrow> u64 list \<Rightarrow> host \<Rightarrow> host" where
  "run_callee rsp_unaligned_lh args h = h\<lparr>ret_value := unaligned_lh (dmem (cpu h)) (args ! 0)\<rparr>"
| "run_callee rsp_unaligned_lw args h = h\<lparr>ret_value := unaligned_lw (dmem (cpu h)) (args ! 0)\<rparr>"
| "run_callee rsp_unaligned_lhu args h = h\<lparr>ret_value := unaligned_lhu (dmem (cpu h)) (args ! 0)\<rparr>"
| "run_callee rsp_unaligned_sh args h = h\<lparr>cpu := (cpu h)\<lparr>dmem := unaligned_sh (dmem (cpu h)) (args ! 0) (args ! 1)\<rparr>\<rparr>"
| "run_callee rsp_unaligned_sw args h = h\<lparr>cpu := (cpu h)\<lparr>dmem := unaligned_sw (dmem (cpu h)) (args ! 0) (args ! 1)\<rparr>\<rparr>"
| "run_callee (Handler g packed) args h = h\<lparr>cpu := g (cpu h) packed\<rparr>"
| "run_callee (Cp0_handler g packed) args h =
     (case g (globals h) (cpu h) packed of (gl, s, mode) \<Rightarrow> h\<lparr>cpu := s, ret_value := mode_word mode, globals := gl\<rparr>)"

definition call :: "clobber \<Rightarrow> callee \<Rightarrow> u64 list \<Rightarrow> host \<Rightarrow> host" where
  "call clobber f args h = clobbered clobber (run_callee f args h)"

lemma clobbered_simps [simp]: "cpu (clobbered cl h) = cpu h" "frame (clobbered cl h) = frame h" "ret_value (clobbered cl h) = ret_value h"
  "globals (clobbered cl h) = globals h" "jit_regs (clobbered cl h) (JIT_V k) = jit_regs h (JIT_V k)"
  by (simp_all add: clobbered_def)

section \<open>Execution\<close>

definition get_field :: "CPUState \<Rightarrow> state_field \<Rightarrow> u32" where
  "get_field s f = (case f of F_sr r \<Rightarrow> sr s r | F_pc \<Rightarrow> pc s | F_has_delay_slot \<Rightarrow> has_delay_slot s | F_branch_target \<Rightarrow> branch_target s)"

definition put_field :: "state_field \<Rightarrow> u32 \<Rightarrow> CPUState \<Rightarrow> CPUState" where
  "put_field f v s = (case f of F_sr r \<Rightarrow> s\<lparr>sr := (sr s)(r := v)\<rparr> | F_pc \<Rightarrow> s\<lparr>pc := v\<rparr>
     | F_has_delay_slot \<Rightarrow> s\<lparr>has_delay_slot := v\<rparr> | F_branch_target \<Rightarrow> s\<lparr>branch_target := v\<rparr>)"

definition put_reg :: "jit_register \<Rightarrow> u64 \<Rightarrow> host \<Rightarrow> host" where
  "put_reg r v h = h\<lparr>jit_regs := (jit_regs h)(r := v)\<rparr>"

definition truth :: "bool \<Rightarrow> u64" where
  "truth b = (if b then 1 else 0)"

fun alu_result :: "alu \<Rightarrow> u64 \<Rightarrow> u64 \<Rightarrow> u64" where
  "alu_result Add a b = a + b"
| "alu_result Sub a b = a - b"
| "alu_result And a b = a AND b"
| "alu_result Or a b = a OR b"
| "alu_result Xor a b = a XOR b"
| "alu_result Lsh a b = push_bit (unat b) a"
| "alu_result Rsh a b = signed_drop_bit (unat b) a"
| "alu_result Rsh_u a b = drop_bit (unat b) a"
| "alu_result Lt a b = truth (a <s b)"
| "alu_result Lt_u a b = truth (a < b)"
| "alu_result Le a b = truth (a \<le>s b)"
| "alu_result Ge a b = truth (b \<le>s a)"
| "alu_result Gt a b = truth (b <s a)"
| "alu_result Eq a b = truth (a = b)"
| "alu_result Ne a b = truth (a \<noteq> b)"

fun load_value :: "width \<Rightarrow> (nat \<Rightarrow> u8) \<Rightarrow> nat \<Rightarrow> u64" where
  "load_value w_c p a = scast (p a)"
| "load_value w_uc p a = ucast (p a)"
| "load_value w_s p a = scast (mem_u16 p a)"
| "load_value w_us p a = ucast (mem_u16 p a)"
| "load_value w_i p a = scast (mem_u32 p a)"

fun store_value :: "width \<Rightarrow> (nat \<Rightarrow> u8) \<Rightarrow> nat \<Rightarrow> u64 \<Rightarrow> nat \<Rightarrow> u8" where
  "store_value w_c p a v = p(a := ucast v)"
| "store_value w_uc p a v = p(a := ucast v)"
| "store_value w_s p a v = p(a := ucast v, a + 1 := ucast (drop_bit 8 v))"
| "store_value w_us p a v = p(a := ucast v, a + 1 := ucast (drop_bit 8 v))"
| "store_value w_i p a v =
     p(a := ucast v, a + 1 := ucast (drop_bit 8 v), a + 2 := ucast (drop_bit 16 v), a + 3 := ucast (drop_bit 24 v))"

definition exec_op :: "clobber \<Rightarrow> jit_op \<Rightarrow> host \<Rightarrow> host" where
  "exec_op cl oper h = (case oper of
     jit_r f d a b \<Rightarrow> put_reg d (alu_result f (jit_regs h a) (jit_regs h b)) h
   | jit_i f d a i \<Rightarrow> put_reg d (alu_result f (jit_regs h a) i) h
   | jit_movr d a \<Rightarrow> put_reg d (jit_regs h a) h
   | jit_movi d i \<Rightarrow> put_reg d i h
   | jit_extr_i d a \<Rightarrow> put_reg d (scast (ucast (jit_regs h a) :: u32)) h
   | jit_extr_ui d a \<Rightarrow> put_reg d (ucast (ucast (jit_regs h a) :: u32)) h
   | jit_ldxi_i d f \<Rightarrow> put_reg d (scast (get_field (cpu h) f)) h
   | jit_ldxi_ui d f \<Rightarrow> put_reg d (ucast (get_field (cpu h) f)) h
   | jit_stxi_i f a \<Rightarrow> h\<lparr>cpu := put_field f (ucast (jit_regs h a)) (cpu h)\<rparr>
   | jit_ldxi_frame d n \<Rightarrow> put_reg d (frame h n) h
   | jit_stxi_frame n a \<Rightarrow> h\<lparr>frame := (frame h)(n := jit_regs h a)\<rparr>
   | jit_ldxr w d a \<Rightarrow> put_reg d (load_value w (dmem (cpu h)) (unat (jit_regs h a))) h
   | jit_stxr w a v \<Rightarrow> h\<lparr>cpu := (cpu h)\<lparr>dmem := store_value w (dmem (cpu h)) (unat (jit_regs h a)) (jit_regs h v)\<rparr>\<rparr>
   | jit_finishi f as \<Rightarrow> call cl f (map (jit_regs h) as) h
   | jit_retval d \<Rightarrow> put_reg d (ret_value h) h
   | _ \<Rightarrow> h)"

lemma exec_op_simps [simp]:
  "exec_op cl (jit_r f d a b) h = put_reg d (alu_result f (jit_regs h a) (jit_regs h b)) h"
  "exec_op cl (jit_i f d a k) h = put_reg d (alu_result f (jit_regs h a) k) h"
  "exec_op cl (jit_movr d a) h = put_reg d (jit_regs h a) h" "exec_op cl (jit_movi d k) h = put_reg d k h"
  "exec_op cl (jit_extr_i d a) h = put_reg d (scast (ucast (jit_regs h a) :: u32)) h"
  "exec_op cl (jit_extr_ui d a) h = put_reg d (ucast (ucast (jit_regs h a) :: u32)) h"
  "exec_op cl (jit_ldxi_i d fl) h = put_reg d (scast (get_field (cpu h) fl)) h"
  "exec_op cl (jit_ldxi_ui d fl) h = put_reg d (ucast (get_field (cpu h) fl)) h"
  "exec_op cl (jit_stxi_i fl a) h = h\<lparr>cpu := put_field fl (ucast (jit_regs h a)) (cpu h)\<rparr>"
  "exec_op cl (jit_ldxi_frame d n) h = put_reg d (frame h n) h"
  "exec_op cl (jit_stxi_frame n a) h = h\<lparr>frame := (frame h)(n := jit_regs h a)\<rparr>"
  "exec_op cl (jit_ldxr w d a) h = put_reg d (load_value w (dmem (cpu h)) (unat (jit_regs h a))) h"
  "exec_op cl (jit_stxr w a v) h =
     h\<lparr>cpu := (cpu h)\<lparr>dmem := store_value w (dmem (cpu h)) (unat (jit_regs h a)) (jit_regs h v)\<rparr>\<rparr>"
  "exec_op cl (jit_finishi c as) h = call cl c (map (jit_regs h) as) h"
  "exec_op cl (jit_retval d) h = put_reg d (ret_value h) h" "exec_op cl (jit_patch n) h = h"
  "exec_op cl (jit_label n) h = h"
  "exec_op cl (jit_beqi r k n) h = h" "exec_op cl (jit_bnei r k n) h = h" "exec_op cl (jit_bmsi r k n) h = h"
  by (simp_all add: exec_op_def)

text \<open>Where a run of code ends: after its last instruction, at one of the two thunks, or at a branch whose target is not in the code.\<close>

datatype outcome = Falls host | Jumps thunk host | Branches nat host

definition is_patch :: "nat \<Rightarrow> jit_op \<Rightarrow> bool" where
  "is_patch n oper = (case oper of jit_patch k \<Rightarrow> k = n | _ \<Rightarrow> False)"

text \<open>The branch or the jump that an instruction makes in a state, if any.\<close>

definition branch_of :: "jit_op \<Rightarrow> host \<Rightarrow> nat option" where
  "branch_of oper h = (case oper of
     jit_beqi r i n \<Rightarrow> if jit_regs h r = i then Some n else None
   | jit_bnei r i n \<Rightarrow> if jit_regs h r \<noteq> i then Some n else None
   | jit_bmsi r i n \<Rightarrow> if jit_regs h r AND i \<noteq> 0 then Some n else None
   | jit_jmpi n \<Rightarrow> Some n
   | _ \<Rightarrow> None)"

definition jump_of :: "jit_op \<Rightarrow> thunk option" where
  "jump_of oper = (case oper of jit_patch_abs t \<Rightarrow> Some t | _ \<Rightarrow> None)"

lemma dropWhile_shorter [termination_simp]: "dropWhile P xs = y # ys \<Longrightarrow> length ys < Suc (length xs)"
  using length_dropWhile_le [of P xs] by simp

fun exec :: "clobber \<Rightarrow> jit_op list \<Rightarrow> host \<Rightarrow> outcome" where
  "exec cl [] h = Falls h"
| "exec cl (oper # ops) h =
     (case jump_of oper of Some t \<Rightarrow> Jumps t h | None \<Rightarrow>
        case branch_of oper h of
          None \<Rightarrow> exec cl ops (exec_op cl oper h)
        | Some n \<Rightarrow> (case dropWhile (\<lambda>x. \<not> is_patch n x) ops of [] \<Rightarrow> Branches n h | _ # rest \<Rightarrow> exec cl rest h))"

lemma exec_append_Falls: "exec cl xs h = Falls h' \<Longrightarrow> exec cl (xs @ ys) h = exec cl ys h'"
proof (induction cl xs h rule: exec.induct)
  case (2 cl oper ops h)
  show ?case
  proof (cases "branch_of oper h")
    case (Some n)
    then obtain x rest where d: "dropWhile (\<lambda>x. \<not> is_patch n x) ops = x # rest" "exec cl rest h = Falls h'" "jump_of oper = None"
      using "2.prems" by (auto split: option.splits list.splits)
    then have "dropWhile (\<lambda>x. \<not> is_patch n x) (ops @ ys) = x # rest @ ys"
      by (metis append_Cons dropWhile_append dropWhile_eq_Nil_conv list.distinct(1))
    then show ?thesis using "2.IH"(2) [OF d(3) Some d(1)] d Some by simp
  qed (use 2 in \<open>auto split: option.splits\<close>)
qed simp

lemma exec_append_Jumps: "exec cl xs h = Jumps t h' \<Longrightarrow> exec cl (xs @ ys) h = Jumps t h'"
proof (induction cl xs h rule: exec.induct)
  case (2 cl oper ops h)
  show ?case
  proof (cases "branch_of oper h")
    case (Some n)
    then show ?thesis
    proof (cases "jump_of oper")
      case None
      then obtain x rest where d: "dropWhile (\<lambda>x. \<not> is_patch n x) ops = x # rest" "exec cl rest h = Jumps t h'"
        using "2.prems" Some by (auto split: list.splits)
      then have "dropWhile (\<lambda>x. \<not> is_patch n x) (ops @ ys) = x # rest @ ys"
        by (metis append_Cons dropWhile_append dropWhile_eq_Nil_conv list.distinct(1))
      then show ?thesis using "2.IH"(2) [OF None Some d(1)] d Some None by simp
    qed (use 2 in simp)
  qed (use 2 in \<open>auto split: option.splits\<close>)
qed simp

end
