(* ===== verification/Register_Cache.thy ===== *)
theory Register_Cache
  imports Jit_Ops
begin

unbundle bit_operations_syntax

text \<open>
  The register cache of the recompiler (class \<open>RegisterCache\<close> of \<open>rsp_jit.hpp\<close> and \<open>rsp_jit.cpp\<close>): host registers hold MIPS
  registers while a block is compiled; they are loaded on demand, locked while an instruction uses them, evicted oldest first and written
  back when they were modified. Operations thread the state of the code emitter and give \<open>None\<close> where an \<open>assert\<close> of the source
  fails. The number \<open>R\<close> of caller-saved host registers is an argument, as is the number of entries through the length of the entry list.
  The locks are counted without wrap-around.
\<close>

section \<open>State and operations\<close>

datatype SignState = SExt | ZExt | Unknown

record CacheEntry =
  mips_register :: nat
  timestamp :: u32
  num_locks :: nat
  sign :: SignState
  is_live :: bool
  modified :: bool

record emitter =
  entries :: "CacheEntry list"
  cache_timestamp :: u32
  code :: "jit_op list"
  nodes :: nat
  local_branches :: "(nat \<times> nat) list"

definition empty_entry :: CacheEntry where
  "empty_entry = \<lparr>mips_register = 0, timestamp = 0, num_locks = 0, sign = SExt, is_live = False, modified = False\<rparr>"

abbreviation "COND_BRANCH_TAKEN \<equiv> 32 :: nat"
abbreviation "SCRATCH_REGISTER0 \<equiv> 33 :: nat"
abbreviation "SCRATCH_REGISTER1 \<equiv> 34 :: nat"

definition assert_that :: "bool \<Rightarrow> unit option" where
  "assert_that b = (if b then Some () else None)"

definition emit :: "jit_op \<Rightarrow> emitter \<Rightarrow> emitter" where
  "emit oper em = em\<lparr>code := code em @ [oper]\<rparr>"

definition set_entry :: "nat \<Rightarrow> (CacheEntry \<Rightarrow> CacheEntry) \<Rightarrow> emitter \<Rightarrow> emitter" where
  "set_entry i f em = em\<lparr>entries := (entries em)[i := f (entries em ! i)]\<rparr>"

definition entry_to_jit_register :: "nat \<Rightarrow> nat \<Rightarrow> jit_register" where
  "entry_to_jit_register R index = (if index < R then JIT_R index else JIT_V (3 + (index - R)))"

fun jit_register_to_index :: "nat \<Rightarrow> jit_register \<Rightarrow> nat" where
  "jit_register_to_index R (JIT_R i) = i"
| "jit_register_to_index R (JIT_V i) = R + (i - 3)"

definition find_live_mips_register :: "emitter \<Rightarrow> nat \<Rightarrow> nat option" where
  "find_live_mips_register em mips_reg =
     find (\<lambda>i. is_live (entries em ! i) \<and> mips_register (entries em ! i) = mips_reg) [0..<length (entries em)]"

definition find_free_register :: "emitter \<Rightarrow> nat option" where
  "find_free_register em = find (\<lambda>i. \<not> is_live (entries em ! i)) [0..<length (entries em)]"

definition find_oldest_unlocked_register :: "emitter \<Rightarrow> nat option" where
  "find_oldest_unlocked_register em =
     fold (\<lambda>i best. if is_live (entries em ! i) \<and> num_locks (entries em ! i) = 0 \<and>
             (case best of None \<Rightarrow> True | Some b \<Rightarrow> timestamp (entries em ! i) < timestamp (entries em ! b))
           then Some i else best) [0..<length (entries em)] None"

definition find_register :: "emitter \<Rightarrow> nat \<Rightarrow> nat option" where
  "find_register em mips_reg =
     (case find_live_mips_register em mips_reg of Some i \<Rightarrow> Some i | None \<Rightarrow>
        (case find_free_register em of Some i \<Rightarrow> Some i | None \<Rightarrow> find_oldest_unlocked_register em))"

definition writeback_register :: "nat \<Rightarrow> nat \<Rightarrow> emitter \<Rightarrow> emitter option" where
  "writeback_register R i em =
     (if mips_register (entries em ! i) = 0 then None else
      let em = (if mips_register (entries em ! i) \<le> COND_BRANCH_TAKEN
                then emit (jit_stxi_i (F_sr (mips_register (entries em ! i))) (entry_to_jit_register R i)) em else em)
      in Some (set_entry i (\<lambda>e. e\<lparr>modified := False\<rparr>) em))"

definition writeback_if_modified :: "nat \<Rightarrow> nat \<Rightarrow> emitter \<Rightarrow> emitter option" where
  "writeback_if_modified R i em = (if modified (entries em ! i) then writeback_register R i em else Some em)"

definition touch_and_lock :: "nat \<Rightarrow> emitter \<Rightarrow> emitter" where
  "touch_and_lock i em = (let t = cache_timestamp em + 1
     in (set_entry i (\<lambda>e. e\<lparr>timestamp := t, num_locks := num_locks e + 1\<rparr>) em)\<lparr>cache_timestamp := t\<rparr>)"

text \<open>The three loads differ in the load instruction, the extension they leave, and whether they extend a live register.\<close>

definition load_mips_register ::
  "(jit_register \<Rightarrow> state_field \<Rightarrow> jit_op) \<Rightarrow> SignState \<Rightarrow> (jit_register \<Rightarrow> jit_register \<Rightarrow> jit_op) option \<Rightarrow>
   nat \<Rightarrow> nat \<Rightarrow> emitter \<Rightarrow> (jit_register \<times> emitter) option" where
  "load_mips_register ldxi ext extr R mips_reg em = do {
     i \<leftarrow> find_register em mips_reg;
     let jit_reg = entry_to_jit_register R i;
     assert_that (mips_reg \<le> COND_BRANCH_TAKEN);
     let load = (if mips_reg \<noteq> 0 then ldxi jit_reg (F_sr mips_reg) else jit_movi jit_reg 0);
     em \<leftarrow>
       (if is_live (entries em ! i) \<and> mips_register (entries em ! i) \<noteq> mips_reg then do {
          em \<leftarrow> writeback_if_modified R i em;
          Some (set_entry i (\<lambda>e. e\<lparr>mips_register := mips_reg, modified := False, sign := ext\<rparr>) (emit load em))
        }
        else if \<not> is_live (entries em ! i) then
          Some (set_entry i (\<lambda>e. e\<lparr>mips_register := mips_reg, sign := ext, is_live := True, modified := False\<rparr>) (emit load em))
        else (case extr of
            None \<Rightarrow> Some em
          | Some widen \<Rightarrow>
              if sign (entries em ! i) \<noteq> ext
              then Some (set_entry i (\<lambda>e. e\<lparr>sign := ext\<rparr>) (if mips_reg \<noteq> 0 then emit (widen jit_reg jit_reg) em else em))
              else Some em));
     Some (jit_reg, touch_and_lock i em)
   }"

definition load_mips_register_noext :: "nat \<Rightarrow> nat \<Rightarrow> emitter \<Rightarrow> (jit_register \<times> emitter) option" where
  "load_mips_register_noext = load_mips_register jit_ldxi_i SExt None"

definition load_mips_register_sext :: "nat \<Rightarrow> nat \<Rightarrow> emitter \<Rightarrow> (jit_register \<times> emitter) option" where
  "load_mips_register_sext = load_mips_register jit_ldxi_i SExt (Some jit_extr_i)"

definition load_mips_register_zext :: "nat \<Rightarrow> nat \<Rightarrow> emitter \<Rightarrow> (jit_register \<times> emitter) option" where
  "load_mips_register_zext = load_mips_register jit_ldxi_ui ZExt (Some jit_extr_ui)"

definition modify_mips_register :: "nat \<Rightarrow> nat \<Rightarrow> emitter \<Rightarrow> (jit_register \<times> emitter) option" where
  "modify_mips_register R mips_reg em = do {
     i \<leftarrow> find_register em mips_reg;
     em \<leftarrow>
       (if is_live (entries em ! i) \<and> mips_register (entries em ! i) \<noteq> mips_reg then do {
          em \<leftarrow> writeback_if_modified R i em;
          Some (set_entry i (\<lambda>e. e\<lparr>mips_register := mips_reg\<rparr>) em)
        }
        else if \<not> is_live (entries em ! i) then Some (set_entry i (\<lambda>e. e\<lparr>mips_register := mips_reg, is_live := True\<rparr>) em)
        else Some em);
     Some (entry_to_jit_register R i, set_entry i (\<lambda>e. e\<lparr>sign := Unknown, modified := True\<rparr>) (touch_and_lock i em))
   }"

definition immediate_mips_register :: "nat \<Rightarrow> nat \<Rightarrow> u64 \<Rightarrow> emitter \<Rightarrow> (jit_register \<times> emitter) option" where
  "immediate_mips_register R mips_reg v em = do {
     (jit_reg, em) \<leftarrow> modify_mips_register R mips_reg em;
     Some (jit_reg, set_entry (jit_register_to_index R jit_reg) (\<lambda>e. e\<lparr>sign := SExt\<rparr>) (emit (jit_movi jit_reg v) em))
   }"

definition unlock_mips_register :: "nat \<Rightarrow> emitter \<Rightarrow> emitter option" where
  "unlock_mips_register mips_reg em = do {
     i \<leftarrow> find_live_mips_register em mips_reg;
     assert_that (num_locks (entries em ! i) > 0);
     Some (set_entry i (\<lambda>e. e\<lparr>num_locks := num_locks e - 1\<rparr>) em)
   }"

definition flush_entry :: "nat \<Rightarrow> nat \<Rightarrow> emitter \<Rightarrow> emitter option" where
  "flush_entry R i em =
     (if is_live (entries em ! i) then do {
        em \<leftarrow> writeback_if_modified R i em;
        assert_that (num_locks (entries em ! i) = 0);
        Some (set_entry i (\<lambda>e. empty_entry) em)
      }
      else Some em)"

fun flush_entries :: "nat \<Rightarrow> nat list \<Rightarrow> emitter \<Rightarrow> emitter option" where
  "flush_entries R [] em = Some em"
| "flush_entries R (i # is) em = flush_entry R i em \<bind> flush_entries R is"

definition flush_register_window :: "nat \<Rightarrow> emitter \<Rightarrow> emitter option" where
  "flush_register_window R em = do {
     em \<leftarrow> flush_entries R [0..<length (entries em)] em;
     Some (em\<lparr>cache_timestamp := 0\<rparr>)
   }"

definition flush_caller_save_registers :: "nat \<Rightarrow> emitter \<Rightarrow> emitter option" where
  "flush_caller_save_registers R em = flush_entries R (map (\<lambda>i. jit_register_to_index R (JIT_R i)) [0..<R]) em"

definition reset :: "emitter \<Rightarrow> emitter" where
  "reset em = em\<lparr>entries := map (\<lambda>_. empty_entry) (entries em)\<rparr>"

definition flush_mips_register :: "nat \<Rightarrow> nat \<Rightarrow> emitter \<Rightarrow> emitter option" where
  "flush_mips_register R mips_reg em =
     (case find_live_mips_register em mips_reg of None \<Rightarrow> Some em | Some i \<Rightarrow> flush_entry R i em)"


section \<open>What the cache represents\<close>

definition holds :: "emitter \<Rightarrow> nat \<Rightarrow> nat \<Rightarrow> bool" where
  "holds em i r \<longleftrightarrow> i < length (entries em) \<and> is_live (entries em ! i) \<and> mips_register (entries em ! i) = r"

fun extended :: "SignState \<Rightarrow> u64 \<Rightarrow> bool" where
  "extended SExt v \<longleftrightarrow> v = scast (ucast v :: u32)"
| "extended ZExt v \<longleftrightarrow> v = ucast (ucast v :: u32)"
| "extended Unknown v \<longleftrightarrow> True"

text \<open>A live entry has the value of its MIPS register in its low half, extended as its sign state says, and one lock for each time
  the register is in \<open>ls\<close>, the list of locked registers. The branch condition, when it is not locked, can be tested against zero
  in its 64 bit host register.\<close>

definition clean :: "u64 \<Rightarrow> bool" where
  "clean v \<longleftrightarrow> (ucast v = (0 :: u32) \<longrightarrow> v = 0)"

lemma extended_clean: "extended ext v \<Longrightarrow> ext \<noteq> Unknown \<Longrightarrow> clean v"
  by (cases ext) (auto simp: clean_def)

lemma clean_simps [simp]: "clean 0" "clean 1"
  by (simp_all add: clean_def)

definition entry_ok :: "nat list \<Rightarrow> CPUState \<Rightarrow> CacheEntry \<Rightarrow> u64 \<Rightarrow> bool" where
  "entry_ok ls s e v \<longleftrightarrow>
     (if is_live e then mips_register e \<le> 34 \<and> ucast v = sr s (mips_register e) \<and> extended (sign e) v \<and>
        (mips_register e = 0 \<longrightarrow> \<not> modified e \<and> sign e \<noteq> Unknown) \<and> num_locks e = count_list ls (mips_register e) \<and>
        (mips_register e = COND_BRANCH_TAKEN \<and> num_locks e = 0 \<longrightarrow> clean v)
      else num_locks e = 0)"

text \<open>The cache and the host state \<open>h\<close> represent the processor state \<open>s\<close>: a register is where its entry says, or else in
  memory.\<close>

definition represents :: "nat \<Rightarrow> emitter \<Rightarrow> nat list \<Rightarrow> host \<Rightarrow> CPUState \<Rightarrow> bool" where
  "represents R em ls h s \<longleftrightarrow>
     (cpu h)\<lparr>sr := sr s\<rparr> = s \<and> sr s 0 = 0 \<and> sr (cpu h) 0 = 0 \<and>
     (\<forall>i<length (entries em). entry_ok ls s (entries em ! i) (jit_regs h (entry_to_jit_register R i))) \<and>
     (\<forall>i j r. holds em i r \<longrightarrow> holds em j r \<longrightarrow> i = j) \<and>
     (\<forall>r \<in> set ls. \<exists>i. holds em i r) \<and>
     (\<forall>r. 1 \<le> r \<and> r \<le> 32 \<longrightarrow> (\<exists>i. holds em i r \<and> modified (entries em ! i)) \<or> sr (cpu h) r = sr s r)"

lemma entry_to_jit_register_inj [simp]: "entry_to_jit_register R i = entry_to_jit_register R j \<longleftrightarrow> i = j"
  by (auto simp: entry_to_jit_register_def)

lemma entry_to_jit_register_fixed [simp]: "k < 3 \<Longrightarrow> entry_to_jit_register R i \<noteq> JIT_V k" "k < 3 \<Longrightarrow> JIT_V k \<noteq> entry_to_jit_register R i"
  by (auto simp: entry_to_jit_register_def)

lemma index_of_entry [simp]: "jit_register_to_index R (entry_to_jit_register R i) = i"
  by (simp add: entry_to_jit_register_def)

lemma emit_simps [simp]: "entries (emit oper em) = entries em" "code (emit oper em) = code em @ [oper]"
  "cache_timestamp (emit oper em) = cache_timestamp em" "nodes (emit oper em) = nodes em" "local_branches (emit oper em) = local_branches em"
  by (simp_all add: emit_def)

lemma set_entry_simps [simp]: "entries (set_entry i f em) = (entries em)[i := f (entries em ! i)]" "code (set_entry i f em) = code em"
  "cache_timestamp (set_entry i f em) = cache_timestamp em" "nodes (set_entry i f em) = nodes em"
  "local_branches (set_entry i f em) = local_branches em"
  by (simp_all add: set_entry_def)

lemma put_reg_simps [simp]: "jit_regs (put_reg r v h) = (jit_regs h)(r := v)" "cpu (put_reg r v h) = cpu h" "frame (put_reg r v h) = frame h"
  "ret_value (put_reg r v h) = ret_value h" "globals (put_reg r v h) = globals h"
  by (simp_all add: put_reg_def)

lemma put_reg_same: "put_reg r (jit_regs h r) h = h"
  by (simp add: put_reg_def)

text \<open>A locked register stays where it is.\<close>

definition keeps_locked :: "nat list \<Rightarrow> emitter \<Rightarrow> emitter \<Rightarrow> bool" where
  "keeps_locked ls em em' \<longleftrightarrow> (\<forall>q j. q \<in> set ls \<longrightarrow> holds em j q \<longrightarrow> holds em' j q)"

text \<open>The step behind every operation: entry \<open>i\<close> comes to hold \<open>r\<close>, with value \<open>v\<close>.\<close>

lemma represents_hold:
  assumes sim: "represents R em ls h s" and i: "i < length (entries em)"
    and others: "\<And>j. j \<noteq> i \<Longrightarrow> \<not> holds em j r"
    and evict: "\<And>q. is_live (entries em ! i) \<Longrightarrow> q = mips_register (entries em ! i) \<Longrightarrow> q \<noteq> r \<Longrightarrow>
      q \<notin> set ls \<and> (1 \<le> q \<and> q \<le> 32 \<longrightarrow> sr (cpu h) q = sr s q)"
    and new: "is_live e" "mips_register e = r" "num_locks e = count_list ls' r" "r \<le> 34" "extended (sign e) v"
      "r = 0 \<Longrightarrow> \<not> modified e \<and> sign e \<noteq> Unknown \<and> ucast v = (0 :: u32)" "r = COND_BRANCH_TAKEN \<Longrightarrow> num_locks e = 0 \<Longrightarrow> clean v"
    and mem: "modified e \<or> r = 0 \<or> r > 32 \<or> sr (cpu h) r = ucast v"
    and ls': "\<And>q. q \<noteq> r \<Longrightarrow> count_list ls' q = count_list ls q"
    and em': "entries em' = (entries em)[i := e]"
  shows "represents R em' ls' (put_reg (entry_to_jit_register R i) v h) (s\<lparr>sr := (sr s)(r := ucast v)\<rparr>) \<and>
    holds em' i r \<and> keeps_locked ls em em'"
proof -
  let ?h = "put_reg (entry_to_jit_register R i) v h" and ?s = "s\<lparr>sr := (sr s)(r := ucast v)\<rparr>"
  have len [simp]: "length (entries em') = length (entries em)" by (simp add: em')
  have at: "entries em' ! j = (if j = i then e else entries em ! j)" if "j < length (entries em)" for j using that i by (simp add: em')
  have held: "holds em' i r" using i new by (simp add: holds_def at)
  have holds': "holds em' j q \<longleftrightarrow> (if j = i then q = r else q \<noteq> r \<and> holds em j q)" for j q
    using i new others [of j] by (auto simp: holds_def at)
  have in_ls: "q \<in> set ls' \<longleftrightarrow> q \<in> set ls" if "q \<noteq> r" for q using ls' [OF that] by (metis count_list_0_iff)
  have keep: "\<forall>q j. q \<in> set ls \<longrightarrow> holds em j q \<longrightarrow> holds em' j q"
    using evict others unfolding holds' by (auto simp: holds_def)
  have "entry_ok ls' ?s (entries em' ! j) (jit_regs ?h (entry_to_jit_register R j))" if j: "j < length (entries em)" for j
  proof (cases "j = i")
    case True
    then show ?thesis using new i by (auto simp: entry_ok_def at)
  next
    case False
    then have "mips_register (entries em ! j) \<noteq> r" if "is_live (entries em ! j)" using others [OF False] j that by (simp add: holds_def)
    then show ?thesis using sim j False ls' by (auto simp: represents_def entry_ok_def at)
  qed
  moreover have "holds em' a q \<Longrightarrow> holds em' b q \<Longrightarrow> a = b" for a b q
    using sim unfolding holds' represents_def by (metis (no_types, lifting))
  moreover have "\<exists>j. holds em' j q" if "q \<in> set ls'" for q
  proof (cases "q = r")
    case False
    then have "q \<in> set ls" using that in_ls by simp
    then show ?thesis using keep sim unfolding represents_def by blast
  qed (use held in blast)
  moreover have "(\<exists>j. holds em' j q \<and> modified (entries em' ! j)) \<or> sr (cpu ?h) q = sr ?s q" if q: "1 \<le> q" "q \<le> 32" for q
  proof (cases "q = r")
    case True
    then show ?thesis using mem held q at [OF i] by auto
  next
    case False
    consider j where "holds em j q" "modified (entries em ! j)" | "sr (cpu h) q = sr s q" using sim q by (auto simp: represents_def)
    then show ?thesis
    proof cases
      case 1
      show ?thesis
      proof (cases "j = i")
        case True
        then show ?thesis using evict [of q] 1 False q by (simp add: holds_def)
      next
        case j: False
        then have "holds em' j q" "entries em' ! j = entries em ! j" using 1 False at by (auto simp: holds' holds_def)
        then show ?thesis using 1 by auto
      qed
    qed (use False in simp)
  qed
  moreover have "(cpu ?h)\<lparr>sr := sr ?s\<rparr> = ?s" using sim by (cases s; cases "cpu h") (simp add: represents_def)
  moreover have "sr ?s 0 = 0" "sr (cpu ?h) 0 = 0" using sim new by (auto simp: represents_def)
  ultimately show ?thesis unfolding represents_def len keeps_locked_def using held keep by blast
qed


section \<open>Finding a register\<close>

lemma find_live_iff: "find_live_mips_register em r = None \<longleftrightarrow> (\<forall>i. \<not> holds em i r)"
  unfolding find_live_mips_register_def find_None_iff holds_def by simp

lemma find_live_holds: "find_live_mips_register em r = Some i \<Longrightarrow> holds em i r"
  unfolding find_live_mips_register_def find_Some_iff holds_def by force

lemma represents_unique: "represents R em ls h s \<Longrightarrow> holds em i r \<Longrightarrow> holds em j r \<Longrightarrow> i = j"
  unfolding represents_def by (elim conjE) metis

lemma find_live_eq:
  assumes "represents R em ls h s" "holds em i r"
  shows "find_live_mips_register em r = Some i"
proof (cases "find_live_mips_register em r")
  case None
  then show ?thesis using assms(2) by (simp add: find_live_iff)
next
  case (Some j)
  then show ?thesis using represents_unique [OF assms(1) find_live_holds assms(2)] by simp
qed

lemma find_oldest_fold:
  fixes cand :: "nat \<Rightarrow> bool" and older :: "nat \<Rightarrow> nat \<Rightarrow> bool"
  defines "f \<equiv> \<lambda>i best. if cand i \<and> (case best of None \<Rightarrow> True | Some b \<Rightarrow> older i b) then Some i else best"
  shows "fold f xs b = None \<longleftrightarrow> b = None \<and> (\<forall>i \<in> set xs. \<not> cand i)"
    "fold f xs b = Some i \<Longrightarrow> b = Some i \<or> (i \<in> set xs \<and> cand i)"
proof -
  have none: "f i b = None \<longleftrightarrow> b = None \<and> \<not> cand i" for i b by (cases b) (simp_all add: f_def)
  have some: "f i b = Some j \<Longrightarrow> b = Some j \<or> (j = i \<and> cand i)" for i j b by (cases b) (auto simp: f_def split: if_splits)
  show "fold f xs b = None \<longleftrightarrow> b = None \<and> (\<forall>i \<in> set xs. \<not> cand i)" by (induction xs arbitrary: b) (auto simp: none)
  show "fold f xs b = Some i \<Longrightarrow> b = Some i \<or> (i \<in> set xs \<and> cand i)"
  proof (induction xs arbitrary: b)
    case (Cons x xs)
    from Cons.IH [of "f x b"] Cons.prems show ?case using some [of x b i] by auto
  qed simp
qed

lemma find_oldest:
  "find_oldest_unlocked_register em = None \<longleftrightarrow> (\<forall>i<length (entries em). is_live (entries em ! i) \<longrightarrow> num_locks (entries em ! i) > 0)"
  "find_oldest_unlocked_register em = Some i \<Longrightarrow> i < length (entries em) \<and> is_live (entries em ! i) \<and> num_locks (entries em ! i) = 0"
proof -
  have eq: "find_oldest_unlocked_register em = fold (\<lambda>i best.
      if (is_live (entries em ! i) \<and> num_locks (entries em ! i) = 0) \<and>
         (case best of None \<Rightarrow> True | Some b \<Rightarrow> timestamp (entries em ! i) < timestamp (entries em ! b))
      then Some i else best) [0..<length (entries em)] None"
    by (simp only: find_oldest_unlocked_register_def conj_assoc)
  show "find_oldest_unlocked_register em = None \<longleftrightarrow> (\<forall>i<length (entries em). is_live (entries em ! i) \<longrightarrow> num_locks (entries em ! i) > 0)"
    unfolding eq find_oldest_fold(1) by auto
  show "find_oldest_unlocked_register em = Some i \<Longrightarrow> i < length (entries em) \<and> is_live (entries em ! i) \<and> num_locks (entries em ! i) = 0"
    unfolding eq by (drule find_oldest_fold(2)) simp
qed

text \<open>With fewer registers locked than there are entries, a register is always found: the one that holds \<open>r\<close>, or one that can be
  given up.\<close>

lemma find_register_found:
  assumes sim: "represents R em ls h s" and room: "card (set ls) < length (entries em)"
  obtains i where "find_register em r = Some i" "i < length (entries em)" "\<And>j. j \<noteq> i \<Longrightarrow> \<not> holds em j r"
    "is_live (entries em ! i) \<Longrightarrow> mips_register (entries em ! i) \<noteq> r \<Longrightarrow> mips_register (entries em ! i) \<notin> set ls"
    "\<not> is_live (entries em ! i) \<or> mips_register (entries em ! i) \<noteq> r \<Longrightarrow> r \<notin> set ls"
proof -
  have ok: "entry_ok ls s (entries em ! i) (jit_regs h (entry_to_jit_register R i))" if "i < length (entries em)" for i
    using sim that by (simp add: represents_def)
  have uniq: "\<And>i j r. holds em i r \<Longrightarrow> holds em j r \<Longrightarrow> i = j" and held: "\<And>r. r \<in> set ls \<Longrightarrow> \<exists>i. holds em i r"
    using sim unfolding represents_def by blast+
  note found = that
  show thesis
  proof (cases "find_live_mips_register em r")
    case (Some i)
    then have "holds em i r" by (rule find_live_holds)
    then show thesis using that [of i] uniq Some by (auto simp: find_register_def holds_def)
  next
    case None
    then have free: "\<not> holds em j r" for j by (simp add: find_live_iff)
    have fnd: thesis if "find_register em r = Some i" "i < length (entries em)"
        "is_live (entries em ! i) \<longrightarrow> num_locks (entries em ! i) = 0" for i
      using that found [OF that(1,2)] ok [OF that(2)] free held
      by (auto simp: entry_ok_def count_list_0_iff)
    show thesis
    proof (cases "find_free_register em")
      case (Some i)
      then have "i < length (entries em)" "\<not> is_live (entries em ! i)" by (auto simp: find_free_register_def find_Some_iff)
      then show thesis using fnd [of i] None Some by (simp add: find_register_def)
    next
      case all: None
      then have live: "is_live (entries em ! i)" if "i < length (entries em)" for i
        using that by (auto simp: find_free_register_def find_None_iff)
      have locked: "mips_register (entries em ! i) \<in> set ls" if "i < length (entries em)" "num_locks (entries em ! i) > 0" for i
        using ok [OF that(1)] live [OF that(1)] that(2) unfolding entry_ok_def by (metis count_list_0_iff less_not_refl)
      have "find_oldest_unlocked_register em \<noteq> None"
      proof
        assume "find_oldest_unlocked_register em = None"
        then have "(\<lambda>i. mips_register (entries em ! i)) ` {..<length (entries em)} \<subseteq> set ls"
          using locked by (auto simp: find_oldest(1) live)
        moreover have "inj_on (\<lambda>i. mips_register (entries em ! i)) {..<length (entries em)}"
          using uniq live by (auto simp: inj_on_def holds_def)
        ultimately have "length (entries em) \<le> card (set ls)" by (metis card_inj_on_le card_lessThan finite_set)
        then show False using room by simp
      qed
      then obtain i where "find_oldest_unlocked_register em = Some i" by blast
      then show thesis using fnd [of i] find_oldest(2) None all by (simp add: find_register_def)
    qed
  qed
qed


section \<open>Emitting code\<close>

text \<open>Compiling and running in step: the code emitted since the base \<open>h0\<close>, a code prefix and a host state, takes the host to \<open>h\<close>,
  which represents \<open>s\<close>.\<close>

definition emitted :: "clobber \<Rightarrow> jit_op list \<times> host \<Rightarrow> jit_op list \<Rightarrow> host \<Rightarrow> bool" where
  "emitted cl b ops h \<longleftrightarrow> (\<exists>new. ops = fst b @ new \<and> exec cl new (snd b) = Falls h)"

definition tracks :: "nat \<Rightarrow> clobber \<Rightarrow> jit_op list \<times> host \<Rightarrow> emitter \<Rightarrow> nat list \<Rightarrow> host \<Rightarrow> CPUState \<Rightarrow> bool" where
  "tracks R cl h0 em ls h s \<longleftrightarrow> emitted cl h0 (code em) h \<and> represents R em ls h s"

text \<open>What cache operations leave alone: the other parts of the emitter, and of the host everything but the cached registers and
  their memory.\<close>

definition same_shape :: "emitter \<Rightarrow> emitter \<Rightarrow> bool" where
  "same_shape em em' \<longleftrightarrow> length (entries em') = length (entries em) \<and> nodes em \<le> nodes em' \<and> local_branches em' = local_branches em"

definition same_env :: "host \<Rightarrow> host \<Rightarrow> bool" where
  "same_env h h' \<longleftrightarrow> frame h' = frame h \<and> globals h' = globals h \<and>
     (\<forall>k<3. jit_regs h' (JIT_V k) = jit_regs h (JIT_V k))"

lemma same_shape_refl [simp]: "same_shape em em" and same_shape_trans [trans]: "same_shape a b \<Longrightarrow> same_shape b c \<Longrightarrow> same_shape a c"
  by (simp_all add: same_shape_def)

lemma same_env_refl [simp]: "same_env h h" and same_env_trans [trans]: "same_env a b \<Longrightarrow> same_env b c \<Longrightarrow> same_env a c"
  by (simp_all add: same_env_def)

lemma same_env_put_reg [simp]: "same_env h (put_reg (entry_to_jit_register R i) v h)"
  by (simp add: same_env_def)

definition plain :: "jit_op \<Rightarrow> bool" where
  "plain oper \<longleftrightarrow> jump_of oper = None \<and> (\<forall>h. branch_of oper h = None)"

lemma plain_simps [simp]: "plain (jit_r f d a b)" "plain (jit_i f d a k)" "plain (jit_movr d a)" "plain (jit_movi d k)"
  "plain (jit_extr_i d a)" "plain (jit_extr_ui d a)" "plain (jit_ldxi_i d fl)" "plain (jit_ldxi_ui d fl)" "plain (jit_stxi_i fl a)"
  "plain (jit_ldxi_frame d n)" "plain (jit_stxi_frame n a)" "plain (jit_ldxr w d a)" "plain (jit_stxr w d a)" "plain (jit_finishi c as)"
  "plain (jit_retval d)" "plain (jit_patch n)" "plain (jit_label n)"
  by (simp_all add: plain_def jump_of_def branch_of_def)

lemma exec_emit: "emitted cl b (code em) h \<Longrightarrow> plain oper \<Longrightarrow> emitted cl b (code (emit oper em)) (exec_op cl oper h)"
  using exec_append_Falls [of cl _ "snd b" h "[oper]"] by (fastforce simp: plain_def emitted_def)

lemma tracks_rebase: "tracks R cl b em ls h s \<Longrightarrow> tracks R cl (code em, h) em ls h s"
  by (simp add: tracks_def emitted_def)

lemma tracks_represents: "tracks R cl h0 em ls h s \<Longrightarrow> represents R em ls h s"
  by (simp add: tracks_def)

lemma holds_value: "represents R em ls h s \<Longrightarrow> holds em i r \<Longrightarrow> ucast (jit_regs h (entry_to_jit_register R i)) = sr s r"
  by (auto simp: represents_def holds_def entry_ok_def)

lemma represents_mem: "represents R em ls h s \<Longrightarrow> 1 \<le> r \<Longrightarrow> r \<le> 32 \<Longrightarrow>
    (\<And>j. holds em j r \<Longrightarrow> \<not> modified (entries em ! j)) \<Longrightarrow> sr (cpu h) r = sr s r"
  unfolding represents_def by blast

lemma put_field_sr [simp]: "put_field (F_sr r) v s = s\<lparr>sr := (sr s)(r := v)\<rparr>" "get_field s (F_sr r) = sr s r"
  by (simp_all add: put_field_def get_field_def)

text \<open>Writing a modified register back.\<close>

lemma writeback_tracks:
  assumes t: "tracks R cl h0 em ls h s" and i: "i < length (entries em)" and live: "is_live (entries em ! i)"
  obtains em' h' where "writeback_if_modified R i em = Some em'" "tracks R cl h0 em' ls h' s" "same_shape em em'" "same_env h h'"
    "jit_regs h' = jit_regs h" "entries em' = (entries em)[i := (entries em ! i)\<lparr>modified := False\<rparr>]"
    "\<And>q. q = mips_register (entries em ! i) \<Longrightarrow> 1 \<le> q \<Longrightarrow> q \<le> 32 \<Longrightarrow> sr (cpu h') q = sr s q"
    "cache_timestamp em' = cache_timestamp em" "holds em' = holds em"
proof (cases "modified (entries em ! i)")
  case False
  let ?e = "entries em ! i"
  have "?e\<lparr>modified := False\<rparr> = ?e" using False by (cases ?e) simp
  then have eq: "entries em = (entries em)[i := ?e\<lparr>modified := False\<rparr>]" by simp
  have mem: "sr (cpu h) q = sr s q" if q: "q = mips_register ?e" "1 \<le> q" "q \<le> 32" for q
  proof -
    have "j = i" if "holds em j q" for j using t that q i live unfolding tracks_def represents_def holds_def by blast
    then show ?thesis using t q False unfolding tracks_def represents_def by blast
  qed
  show thesis by (rule that [of em h]) (use t False eq mem in \<open>simp_all add: writeback_if_modified_def\<close>)
next
  case True
  let ?e = "entries em ! i" and ?r = "entry_to_jit_register R i"
  let ?q = "mips_register ?e"
  have rep: "represents R em ls h s" using t by (simp add: tracks_def)
  have ok: "entry_ok ls s ?e (jit_regs h ?r)" using rep i by (simp add: represents_def)
  then have q: "?q \<noteq> 0" "?q \<le> 34" and val: "ucast (jit_regs h ?r) = sr s ?q" using live True by (auto simp: entry_ok_def)
  define em1 where "em1 = (if ?q \<le> 32 then emit (jit_stxi_i (F_sr ?q) ?r) em else em)"
  define h1 where "h1 = (if ?q \<le> 32 then h\<lparr>cpu := (cpu h)\<lparr>sr := (sr (cpu h))(?q := sr s ?q)\<rparr>\<rparr> else h)"
  define em' where "em' = set_entry i (\<lambda>e. e\<lparr>modified := False\<rparr>) em1"
  have wb: "writeback_if_modified R i em = Some em'" using True q by (simp add: writeback_if_modified_def writeback_register_def em1_def em'_def Let_def)
  have ex: "emitted cl h0 (code em') h1"
    using t exec_emit [of cl h0 em h "jit_stxi_i (F_sr ?q) ?r"] val
    by (simp add: tracks_def em'_def em1_def h1_def)
  have h1: "jit_regs h1 = jit_regs h" "same_env h h1" "sr (cpu h1) = (if ?q \<le> 32 then (sr (cpu h))(?q := sr s ?q) else sr (cpu h))"
    by (simp_all add: h1_def same_env_def)
  have ent: "entries em' = (entries em)[i := ?e\<lparr>modified := False\<rparr>]" by (simp add: em'_def em1_def)
  then have holds': "holds em' j r \<longleftrightarrow> holds em j r" for j r using i by (cases "j = i") (auto simp: holds_def)
  have "entry_ok ls s (entries em' ! j) (jit_regs h1 (entry_to_jit_register R j))" if "j < length (entries em)" for j
    using rep that i ok by (cases "j = i") (auto simp: represents_def ent h1 entry_ok_def)
  moreover have "(\<exists>j. holds em' j r \<and> modified (entries em' ! j)) \<or> sr (cpu h1) r = sr s r" if r: "1 \<le> r" "r \<le> 32" for r
  proof (cases "r = ?q")
    case False
    have "j \<noteq> i" if "holds em j r" for j using that False by (auto simp: holds_def)
    then have "modified (entries em' ! j) \<longleftrightarrow> modified (entries em ! j)" if "holds em j r" for j
      using that unfolding ent by (metis nth_list_update_neq)
    moreover have "(\<exists>j. holds em j r \<and> modified (entries em ! j)) \<or> sr (cpu h) r = sr s r" using rep r by (simp add: represents_def)
    ultimately show ?thesis using False unfolding holds' h1(3) by auto
  qed (use r h1 in simp)
  moreover have "(cpu h1)\<lparr>sr := sr s\<rparr> = s" using rep by (simp add: represents_def h1_def)
  moreover have "sr (cpu h1) 0 = 0" using rep q by (simp add: represents_def h1(3))
  ultimately have "represents R em' ls h1 s" using rep unfolding represents_def holds' by (simp add: ent)
  moreover have "holds em' = holds em" by (intro ext) (simp add: holds')
  ultimately show thesis using that [of em' h1] wb ex h1 ent by (simp add: tracks_def same_shape_def em'_def em1_def)
qed


section \<open>The contract of the loads\<close>

text \<open>A load is given by its instruction, the value it loads, and the instruction that extends a register in place.\<close>

lemma scast_ucast32 [simp]: "ucast (scast (x :: u32) :: u64) = x"
  by (rule bit_word_eqI) (simp add: bit_simps)

lemma clean_scast [simp]: "clean (scast (x :: u32))"
  by (simp add: clean_def)

lemma ucast_ucast32 [simp]: "ucast (ucast (x :: u32) :: u64) = x"
  by (rule bit_word_eqI) (simp add: bit_simps)

locale register_load =
  fixes ldxi :: "jit_register \<Rightarrow> state_field \<Rightarrow> jit_op" and ext :: SignState
    and extr :: "(jit_register \<Rightarrow> jit_register \<Rightarrow> jit_op) option" and widened :: "u32 \<Rightarrow> u64"
  assumes ext: "ext \<noteq> Unknown" and widened: "extended ext (widened x)" "ucast (widened x) = x"
    and ldxi: "plain (ldxi d f)" "exec_op cl (ldxi d f) h = put_reg d (widened (get_field (cpu h) f)) h"
    and extr: "extr = Some w \<Longrightarrow> plain (w d a)" "extr = Some w \<Longrightarrow> exec_op cl (w d a) h = put_reg d (widened (ucast (jit_regs h a))) h"
begin

lemma widened_zero: "widened 0 = 0"
  using widened [of 0] ext by (cases ext) auto

lemma load_fresh:
  assumes t: "tracks R cl h0 em ls h s" and i: "i < length (entries em)" and others: "\<And>j. j \<noteq> i \<Longrightarrow> \<not> holds em j r"
    and evict: "\<And>q. is_live (entries em ! i) \<Longrightarrow> q = mips_register (entries em ! i) \<Longrightarrow>
      q \<noteq> r \<and> q \<notin> set ls \<and> (1 \<le> q \<and> q \<le> 32 \<longrightarrow> sr (cpu h) q = sr s q)"
    and r: "r \<le> 32" "r \<notin> set ls" and e: "is_live e" "mips_register e = r" "num_locks e = 1" "sign e = ext" "\<not> modified e"
    and em': "entries em' = (entries em)[i := e]"
      "code em' = code em @ [if r \<noteq> 0 then ldxi (entry_to_jit_register R i) (F_sr r) else jit_movi (entry_to_jit_register R i) 0]"
  shows "\<exists>h'. tracks R cl h0 em' (r # ls) h' s \<and> holds em' i r \<and> keeps_locked ls em em' \<and> same_env h h' \<and>
    (\<forall>j. j \<noteq> i \<longrightarrow> jit_regs h' (entry_to_jit_register R j) = jit_regs h (entry_to_jit_register R j)) \<and>
    extended ext (jit_regs h' (entry_to_jit_register R i))"
proof -
  let ?v = "widened (if r = 0 then 0 else sr (cpu h) r)"
  let ?h = "put_reg (entry_to_jit_register R i) ?v h"
  have rep: "represents R em ls h s" using t by (simp add: tracks_def)
  have none: "\<not> holds em j r" for j using others evict by (cases "j = i") (auto simp: holds_def)
  have mem: "(if r = 0 then 0 else sr (cpu h) r) = sr s r"
  proof (cases "r = 0")
    case False
    then show ?thesis using represents_mem [OF rep _ r(1)] none by simp
  qed (use rep in \<open>simp add: represents_def\<close>)
  have "emitted cl h0 (code em') ?h"
    using exec_emit [of cl h0 em h "if r \<noteq> 0 then ldxi (entry_to_jit_register R i) (F_sr r) else jit_movi (entry_to_jit_register R i) 0"] t
    by (cases "r = 0") (simp_all add: em'(2) ldxi tracks_def widened_zero)
  moreover have "represents R em' (r # ls) ?h (s\<lparr>sr := (sr s)(r := ucast ?v)\<rparr>) \<and> holds em' i r \<and> keeps_locked ls em em'"
  proof (rule represents_hold [OF rep i others _ e(1,2)])
    show "num_locks e = count_list (r # ls) r" using e r by (simp add: count_list_0_iff)
    show "q \<notin> set ls \<and> (1 \<le> q \<and> q \<le> 32 \<longrightarrow> sr (cpu h) q = sr s q)"
      if "is_live (entries em ! i)" "q = mips_register (entries em ! i)" for q using evict [OF that] by blast
  qed (use e r widened ext em'(1) in auto)
  moreover have "s\<lparr>sr := (sr s)(r := ucast ?v)\<rparr> = s" using mem by (simp add: widened)
  ultimately show ?thesis using widened by (intro exI [of _ ?h]) (simp add: tracks_def)
qed

lemma load_hit:
  assumes t: "tracks R cl h0 em ls h s" and hit: "holds em i r" and r: "r \<le> 32"
    and e: "is_live e" "mips_register e = r" "num_locks e = num_locks (entries em ! i) + 1" "modified e = modified (entries em ! i)"
    and sign: "sign e = sign (entries em ! i) \<and> code em' = code em \<and> v = jit_regs h (entry_to_jit_register R i) \<or>
      sign e = ext \<and> v = widened (ucast (jit_regs h (entry_to_jit_register R i))) \<and>
      (if r = 0 then code em' = code em else extr = Some w \<and>
        code em' = code em @ [w (entry_to_jit_register R i) (entry_to_jit_register R i)])"
    and em': "entries em' = (entries em)[i := e]"
  shows "tracks R cl h0 em' (r # ls) (put_reg (entry_to_jit_register R i) v h) s \<and> holds em' i r \<and> keeps_locked ls em em'"
proof -
  let ?e = "entries em ! i" and ?x = "jit_regs h (entry_to_jit_register R i)"
  have rep: "represents R em ls h s" using t by (simp add: tracks_def)
  have i: "i < length (entries em)" "is_live ?e" "mips_register ?e = r" using hit by (simp_all add: holds_def)
  then have ok: "entry_ok ls s ?e ?x" using rep by (simp add: represents_def)
  then have x: "ucast ?x = sr s r" "extended (sign ?e) ?x" "num_locks ?e = count_list ls r" "r = 0 \<Longrightarrow> \<not> modified ?e \<and> sign ?e \<noteq> Unknown"
    using i by (auto simp: entry_ok_def)
  have zero: "sr s 0 = 0" using rep by (simp add: represents_def)
  have "?x = 0" if "r = 0" using x zero that by (cases "sign ?e") auto
  then have code: "emitted cl h0 (code em') (put_reg (entry_to_jit_register R i) v h)" and v: "ucast v = sr s r" "extended (sign e) v"
    using sign t x exec_emit [of cl h0 em h "w (entry_to_jit_register R i) (entry_to_jit_register R i)"] extr [of w] widened widened_zero
    by (auto simp: tracks_def put_reg_same split: if_splits) (metis put_reg_same)+
  have "represents R em' (r # ls) (put_reg (entry_to_jit_register R i) v h) (s\<lparr>sr := (sr s)(r := ucast v)\<rparr>) \<and> holds em' i r \<and> keeps_locked ls em em'"
  proof (rule represents_hold [OF rep i(1) _ _ e(1,2)])
    show "\<not> holds em j r" if "j \<noteq> i" for j using represents_unique [OF rep hit] that by blast
    show "modified e \<or> r = 0 \<or> 32 < r \<or> sr (cpu h) r = ucast v"
      using represents_mem [OF rep _ r] represents_unique [OF rep hit] e(4) v by (metis less_one not_less)
  qed (use e x v ext sign r i em' zero in auto)
  moreover have "s\<lparr>sr := (sr s)(r := ucast v)\<rparr> = s" using v by simp
  ultimately show ?thesis using code by (simp add: tracks_def)
qed

text \<open>A load succeeds while a register is unlocked: the code it emits brings the register into a host register, where it stays
  while it is locked, and changes nothing the cache represents.\<close>

lemma load_tracks:
  assumes t: "tracks R cl h0 em ls h s" and r: "r \<le> 32" and room: "card (set ls) < length (entries em)"
  obtains i em' h' where "load_mips_register ldxi ext extr R r em = Some (entry_to_jit_register R i, em')"
    "tracks R cl h0 em' (r # ls) h' s" "holds em' i r" "keeps_locked ls em em'" "same_shape em em'" "same_env h h'"
    "\<And>j. j \<noteq> i \<Longrightarrow> jit_regs h' (entry_to_jit_register R j) = jit_regs h (entry_to_jit_register R j)"
    "extr \<noteq> None \<Longrightarrow> extended ext (jit_regs h' (entry_to_jit_register R i))"
    "extr = None \<Longrightarrow> holds em i r \<Longrightarrow> jit_regs h' (entry_to_jit_register R i) = jit_regs h (entry_to_jit_register R i)"
    "\<not> holds em i r \<Longrightarrow> extended ext (jit_regs h' (entry_to_jit_register R i))"
proof -
  note found = that
  have rep: "represents R em ls h s" using t by (simp add: tracks_def)
  obtain i where i: "find_register em r = Some i" "i < length (entries em)" "\<And>j. j \<noteq> i \<Longrightarrow> \<not> holds em j r"
    and evict: "is_live (entries em ! i) \<Longrightarrow> mips_register (entries em ! i) \<noteq> r \<Longrightarrow> mips_register (entries em ! i) \<notin> set ls"
    and unlocked: "\<not> is_live (entries em ! i) \<or> mips_register (entries em ! i) \<noteq> r \<Longrightarrow> r \<notin> set ls"
    using find_register_found [OF rep room, of r] by blast
  let ?e = "entries em ! i" and ?r = "entry_to_jit_register R i"
  let ?load = "if r \<noteq> 0 then ldxi ?r (F_sr r) else jit_movi ?r 0"
  consider (evicted) "is_live ?e" "mips_register ?e \<noteq> r" | (free) "\<not> is_live ?e" | (hit) "is_live ?e" "mips_register ?e = r" by blast
  then show thesis
  proof cases
    case evicted
    then have none: "\<not> holds em j r" for j using i(3) by (cases "j = i") (auto simp: holds_def)
    obtain em1 h1 where wb: "writeback_if_modified R i em = Some em1" and t1: "tracks R cl h0 em1 ls h1 s" and em1: "same_shape em em1"
      and h1: "same_env h h1" "jit_regs h1 = jit_regs h" and ent: "entries em1 = (entries em)[i := ?e\<lparr>modified := False\<rparr>]"
      and mem: "\<And>q. q = mips_register ?e \<Longrightarrow> 1 \<le> q \<Longrightarrow> q \<le> 32 \<Longrightarrow> sr (cpu h1) q = sr s q"
      and ts: "cache_timestamp em1 = cache_timestamp em" and hold: "holds em1 = holds em"
      using writeback_tracks [OF t i(2) evicted(1)] by blast
    define em' where "em' = touch_and_lock i (set_entry i (\<lambda>e. e\<lparr>mips_register := r, modified := False, sign := ext\<rparr>) (emit ?load em1))"
    define e where "e = ?e\<lparr>mips_register := r, modified := False, sign := ext, timestamp := cache_timestamp em + 1, num_locks := num_locks ?e + 1\<rparr>"
    have "num_locks ?e = 0" using rep i(2) evicted evict by (auto simp: represents_def entry_ok_def count_list_0_iff)
    then have e: "is_live e" "mips_register e = r" "num_locks e = 1" "sign e = ext" "\<not> modified e" using evicted by (simp_all add: e_def)
    have em': "entries em' = (entries em1)[i := e]" "code em' = code em1 @ [?load]"
      using i(2) by (simp_all add: em'_def e_def touch_and_lock_def Let_def ent ts)
    have "\<exists>h'. tracks R cl h0 em' (r # ls) h' s \<and> holds em' i r \<and> keeps_locked ls em1 em' \<and> same_env h1 h' \<and>
      (\<forall>j. j \<noteq> i \<longrightarrow> jit_regs h' (entry_to_jit_register R j) = jit_regs h1 (entry_to_jit_register R j)) \<and> extended ext (jit_regs h' ?r)"
    proof (rule load_fresh [OF t1 _ _ _ r _ e em'])
      show "q \<noteq> r \<and> q \<notin> set ls \<and> (1 \<le> q \<and> q \<le> 32 \<longrightarrow> sr (cpu h1) q = sr s q)" if "q = mips_register (entries em1 ! i)" for q
        using that mem evict evicted i(2) by (simp add: ent)
    qed (use i unlocked evicted none in \<open>simp_all add: ent hold\<close>)
    then obtain h' where h': "tracks R cl h0 em' (r # ls) h' s" "holds em' i r" "keeps_locked ls em em'" "same_env h1 h'"
      "\<And>j. j \<noteq> i \<Longrightarrow> jit_regs h' (entry_to_jit_register R j) = jit_regs h1 (entry_to_jit_register R j)" "extended ext (jit_regs h' ?r)"
      unfolding keeps_locked_def hold by blast
    have ld: "load_mips_register ldxi ext extr R r em = Some (?r, em')"
      using evicted r i(1) wb by (simp add: load_mips_register_def assert_that_def em'_def Let_def)
    have shape: "same_shape em em'" using em1 by (simp add: em'_def touch_and_lock_def Let_def same_shape_def)
    show thesis using h'(5) h1(2) none
      by (intro found [OF ld h'(1-3) shape same_env_trans [OF h1(1) h'(4)] _ h'(6)]) (simp_all add: h'(6))
  next
    case free
    then have none: "\<not> holds em j r" for j using i(3) by (cases "j = i") (auto simp: holds_def)
    define em' where "em' = touch_and_lock i
      (set_entry i (\<lambda>e. e\<lparr>mips_register := r, sign := ext, is_live := True, modified := False\<rparr>) (emit ?load em))"
    define e where "e = ?e\<lparr>mips_register := r, sign := ext, is_live := True, modified := False, timestamp := cache_timestamp em + 1,
      num_locks := num_locks ?e + 1\<rparr>"
    have "num_locks ?e = 0" using rep i(2) free by (auto simp: represents_def entry_ok_def)
    then have e: "is_live e" "mips_register e = r" "num_locks e = 1" "sign e = ext" "\<not> modified e" by (simp_all add: e_def)
    have em': "entries em' = (entries em)[i := e]" "code em' = code em @ [?load]"
      using i(2) by (simp_all add: em'_def e_def touch_and_lock_def Let_def)
    have "\<exists>h'. tracks R cl h0 em' (r # ls) h' s \<and> holds em' i r \<and> keeps_locked ls em em' \<and> same_env h h' \<and>
      (\<forall>j. j \<noteq> i \<longrightarrow> jit_regs h' (entry_to_jit_register R j) = jit_regs h (entry_to_jit_register R j)) \<and> extended ext (jit_regs h' ?r)"
      using free by (intro load_fresh [OF t i(2,3) _ r unlocked e em']) simp_all
    then obtain h' where h': "tracks R cl h0 em' (r # ls) h' s" "holds em' i r" "keeps_locked ls em em'" "same_env h h'"
      "\<And>j. j \<noteq> i \<Longrightarrow> jit_regs h' (entry_to_jit_register R j) = jit_regs h (entry_to_jit_register R j)" "extended ext (jit_regs h' ?r)"
      by blast
    have "load_mips_register ldxi ext extr R r em = Some (?r, em')"
      using free r i(1) by (simp add: load_mips_register_def assert_that_def em'_def Let_def)
    moreover have "same_shape em em'" by (simp add: em'_def touch_and_lock_def Let_def same_shape_def)
    ultimately show thesis using found [OF _ h'(1-3) _ h'(4,5)] h'(6) none by blast
  next
    case hit
    then have held: "holds em i r" using i(2) by (simp add: holds_def)
    let ?x = "jit_regs h ?r"
    let ?widen = "extr \<noteq> None \<and> sign ?e \<noteq> ext"
    define em1 where "em1 = (if ?widen then set_entry i (\<lambda>e. e\<lparr>sign := ext\<rparr>) (if r \<noteq> 0 then emit ((the extr) ?r ?r) em else em) else em)"
    define em' where "em' = touch_and_lock i em1"
    define v where "v = (if ?widen then widened (ucast ?x) else ?x)"
    define e where "e = (if ?widen then ?e\<lparr>sign := ext\<rparr> else ?e)\<lparr>timestamp := cache_timestamp em + 1, num_locks := num_locks ?e + 1\<rparr>"
    have e: "is_live e" "mips_register e = r" "num_locks e = num_locks ?e + 1" "modified e = modified ?e"
      using hit by (simp_all add: e_def)
    have em': "entries em' = (entries em)[i := e]" using i(2) by (simp add: em'_def em1_def e_def touch_and_lock_def Let_def)
    have sign: "sign e = sign ?e \<and> code em' = code em \<and> v = ?x \<or> sign e = ext \<and> v = widened (ucast ?x) \<and>
      (if r = 0 then code em' = code em else extr = Some (the extr) \<and> code em' = code em @ [(the extr) ?r ?r])"
      by (auto simp: e_def em'_def em1_def v_def touch_and_lock_def Let_def)
    have h': "tracks R cl h0 em' (r # ls) (put_reg ?r v h) s" "holds em' i r" "keeps_locked ls em em'"
      using load_hit [OF t held r e sign em'] by blast+
    have "load_mips_register ldxi ext extr R r em = Some (?r, em')"
      using hit r i(1) by (cases extr) (simp_all add: load_mips_register_def assert_that_def em'_def em1_def Let_def)
    moreover have "same_shape em em'" by (simp add: em'_def em1_def touch_and_lock_def Let_def same_shape_def)
    moreover have "extended ext v" if "extr \<noteq> None"
      using that widened rep i(2) hit by (auto simp: v_def represents_def entry_ok_def)
    ultimately show thesis using found [OF _ h'] held by (simp add: v_def)
  qed
qed

end

interpretation noext: register_load jit_ldxi_i SExt None scast
  by unfold_locales (simp_all add: scast_ucast32)

interpretation sext: register_load jit_ldxi_i SExt "Some jit_extr_i" scast
  by unfold_locales (auto simp: scast_ucast32)

interpretation zext: register_load jit_ldxi_ui ZExt "Some jit_extr_ui" ucast
  by unfold_locales (auto simp: ucast_ucast32)

lemmas load_noext_tracks = noext.load_tracks [folded load_mips_register_noext_def]
lemmas load_sext_tracks = sext.load_tracks [folded load_mips_register_sext_def]
lemmas load_zext_tracks = zext.load_tracks [folded load_mips_register_zext_def]

section \<open>Modifying, writing, unlocking, flushing\<close>

definition writable :: "emitter \<Rightarrow> nat \<Rightarrow> nat \<Rightarrow> bool" where
  "writable em i r \<longleftrightarrow> holds em i r \<and> modified (entries em ! i) \<and> sign (entries em ! i) = Unknown \<and> r \<noteq> 0"

lemma modify_entry:
  assumes t: "tracks R cl h0 em ls h s" and i: "i < length (entries em)" and others: "\<And>j. j \<noteq> i \<Longrightarrow> \<not> holds em j r"
    and evict: "\<And>q. is_live (entries em ! i) \<Longrightarrow> q = mips_register (entries em ! i) \<Longrightarrow> q \<noteq> r \<Longrightarrow>
      q \<notin> set ls \<and> (1 \<le> q \<and> q \<le> 32 \<longrightarrow> sr (cpu h) q = sr s q)"
    and locks: "num_locks (entries em ! i) = count_list ls r" and r: "1 \<le> r" "r \<le> 34"
    and e: "e = (entries em ! i)\<lparr>mips_register := r, is_live := True\<rparr>"
    and em': "entries em' = (entries em)[i := e\<lparr>timestamp := ts, num_locks := num_locks e + 1, sign := Unknown, modified := True\<rparr>]"
      "code em' = code em"
  shows "tracks R cl h0 em' (r # ls) h (s\<lparr>sr := (sr s)(r := ucast (jit_regs h (entry_to_jit_register R i)))\<rparr>) \<and> holds em' i r \<and>
    keeps_locked ls em em' \<and> writable em' i r \<and> (\<forall>j q. q \<in> set ls \<longrightarrow> writable em j q \<longrightarrow> writable em' j q)"
proof -
  let ?v = "jit_regs h (entry_to_jit_register R i)"
  have rep: "represents R em ls h s" using t by (simp add: tracks_def)
  have "represents R em' (r # ls) (put_reg (entry_to_jit_register R i) ?v h) (s\<lparr>sr := (sr s)(r := ucast ?v)\<rparr>) \<and> holds em' i r \<and> keeps_locked ls em em'"
    by (rule represents_hold [OF rep i others]) (use evict locks r e em'(1) in simp_all)
  moreover from this have w: "writable em' i r" using em' i r by (simp add: writable_def)
  moreover have "writable em' j q" if q: "q \<in> set ls" "writable em j q" for j q
  proof (cases "j = i")
    case True
    have "holds em' j q" using calculation q by (simp add: keeps_locked_def writable_def)
    then show ?thesis using w True by (simp add: holds_def writable_def)
  next
    case False
    have "holds em' j q" using calculation q by (simp add: keeps_locked_def writable_def)
    then show ?thesis using q False em'(1) by (simp add: writable_def)
  qed
  ultimately show ?thesis using t em'(2) by (simp add: tracks_def put_reg_same)
qed

lemma modify_tracks:
  assumes t: "tracks R cl h0 em ls h s" and r: "1 \<le> r" "r \<le> 34" and room: "card (set ls) < length (entries em)"
  obtains i em' h' where "modify_mips_register R r em = Some (entry_to_jit_register R i, em')"
    "tracks R cl h0 em' (r # ls) h' (s\<lparr>sr := (sr s)(r := ucast (jit_regs h' (entry_to_jit_register R i)))\<rparr>)"
    "writable em' i r" "keeps_locked ls em em'" "same_shape em em'" "same_env h h'" "jit_regs h' = jit_regs h"
    "\<And>j q. q \<in> set ls \<Longrightarrow> writable em j q \<Longrightarrow> writable em' j q"
proof -
  note found = that
  have rep: "represents R em ls h s" using t by (simp add: tracks_def)
  obtain i where i: "find_register em r = Some i" "i < length (entries em)" "\<And>j. j \<noteq> i \<Longrightarrow> \<not> holds em j r"
    and evict: "is_live (entries em ! i) \<Longrightarrow> mips_register (entries em ! i) \<noteq> r \<Longrightarrow> mips_register (entries em ! i) \<notin> set ls"
    and unlocked: "\<not> is_live (entries em ! i) \<or> mips_register (entries em ! i) \<noteq> r \<Longrightarrow> r \<notin> set ls"
    using find_register_found [OF rep room, of r] by blast
  let ?e = "entries em ! i" and ?r = "entry_to_jit_register R i"
  have ok: "entry_ok ls s ?e (jit_regs h ?r)" using rep i(2) by (simp add: represents_def)
  have locks: "num_locks ?e = count_list ls r"
    using ok evict unlocked by (cases "is_live ?e \<and> mips_register ?e = r") (auto simp: entry_ok_def count_list_0_iff split: if_splits)
  show thesis
  proof (cases "is_live ?e \<and> mips_register ?e \<noteq> r")
    case True
    then obtain em1 h1 where wb: "writeback_if_modified R i em = Some em1" and t1: "tracks R cl h0 em1 ls h1 s" and em1: "same_shape em em1"
      and h1: "same_env h h1" "jit_regs h1 = jit_regs h" and ent: "entries em1 = (entries em)[i := ?e\<lparr>modified := False\<rparr>]"
      and mem: "\<And>q. q = mips_register ?e \<Longrightarrow> 1 \<le> q \<Longrightarrow> q \<le> 32 \<Longrightarrow> sr (cpu h1) q = sr s q"
      and hold: "holds em1 = holds em"
      using writeback_tracks [OF t i(2)] by blast
    define em' where "em' = set_entry i (\<lambda>e. e\<lparr>sign := Unknown, modified := True\<rparr>)
      (touch_and_lock i (set_entry i (\<lambda>e. e\<lparr>mips_register := r\<rparr>) em1))"
    have at: "entries em1 ! i = ?e\<lparr>modified := False\<rparr>" "i < length (entries em1)" using i(2) by (simp_all add: ent)
    have ent': "entries em' = (entries em1)[i := (entries em1 ! i)\<lparr>mips_register := r, is_live := True,
        timestamp := cache_timestamp em1 + 1, num_locks := num_locks (entries em1 ! i) + 1, sign := Unknown, modified := True\<rparr>]"
      using at True by (cases "entries em ! i") (simp add: em'_def touch_and_lock_def Let_def)
    have "tracks R cl h0 em' (r # ls) h1 (s\<lparr>sr := (sr s)(r := ucast (jit_regs h1 ?r))\<rparr>) \<and> holds em' i r \<and>
      keeps_locked ls em1 em' \<and> writable em' i r \<and> (\<forall>j q. q \<in> set ls \<longrightarrow> writable em1 j q \<longrightarrow> writable em' j q)"
      by (rule modify_entry [OF t1 at(2) _ _ _ r refl, where ts = "cache_timestamp em1 + 1"])
        (use i(3) evict mem locks True ent' in \<open>simp_all add: hold at em'_def touch_and_lock_def Let_def\<close>)
    moreover have "modify_mips_register R r em = Some (?r, em')" using True i(1) wb by (simp add: modify_mips_register_def em'_def)
    moreover have "same_shape em em'" using em1 by (simp add: em'_def touch_and_lock_def Let_def same_shape_def)
    moreover have "writable em1 j q" if q: "q \<in> set ls" "writable em j q" for j q
    proof -
      have "j \<noteq> i" using q evict True by (auto simp: writable_def holds_def)
      then show ?thesis using q by (simp add: writable_def hold ent)
    qed
    ultimately show thesis using found [of i em' h1] h1 by (simp add: keeps_locked_def hold)
  next
    case False
    define em' where "em' = set_entry i (\<lambda>e. e\<lparr>sign := Unknown, modified := True\<rparr>) (touch_and_lock i
      (if \<not> is_live ?e then set_entry i (\<lambda>e. e\<lparr>mips_register := r, is_live := True\<rparr>) em else em))"
    have "?e\<lparr>mips_register := r, is_live := True\<rparr> = ?e" if "is_live ?e" using False that by (cases ?e) simp
    then have ent': "entries em' = (entries em)[i := (?e\<lparr>mips_register := r, is_live := True\<rparr>)
        \<lparr>timestamp := cache_timestamp em + 1, num_locks := num_locks ?e + 1, sign := Unknown, modified := True\<rparr>]" "code em' = code em"
      using i(2) by (cases "is_live ?e"; simp add: em'_def touch_and_lock_def Let_def)+
    have "tracks R cl h0 em' (r # ls) h (s\<lparr>sr := (sr s)(r := ucast (jit_regs h ?r))\<rparr>) \<and> holds em' i r \<and>
      keeps_locked ls em em' \<and> writable em' i r \<and> (\<forall>j q. q \<in> set ls \<longrightarrow> writable em j q \<longrightarrow> writable em' j q)"
      by (rule modify_entry [OF t i(2,3) _ locks r refl]) (use False ent' in simp_all)
    moreover have "modify_mips_register R r em = Some (?r, em')" using False i(1) by (simp add: modify_mips_register_def em'_def)
    moreover have "same_shape em em'" by (simp add: em'_def touch_and_lock_def Let_def same_shape_def)
    ultimately show thesis using found [of i em' h] by simp
  qed
qed

text \<open>Computing a new value into a modified register.\<close>

lemma holds_emit [simp]: "holds (emit oper em) = holds em" "writable (emit oper em) = writable em" "same_shape em (emit oper em)"
  by (simp_all add: fun_eq_iff holds_def writable_def same_shape_def)

lemma write_tracks:
  assumes t: "tracks R cl h0 em ls h s" and w: "writable em i r" and oper: "plain oper"
    "exec_op cl oper h = put_reg (entry_to_jit_register R i) v h" and cond: "r = COND_BRANCH_TAKEN \<Longrightarrow> r \<in> set ls"
  shows "tracks R cl h0 (emit oper em) ls (put_reg (entry_to_jit_register R i) v h) (s\<lparr>sr := (sr s)(r := ucast v)\<rparr>)"
proof -
  have rep: "represents R em ls h s" using t by (simp add: tracks_def)
  have i: "i < length (entries em)" "is_live (entries em ! i)" "mips_register (entries em ! i) = r" "holds em i r"
    using w by (auto simp: writable_def holds_def)
  then have ok: "entry_ok ls s (entries em ! i) (jit_regs h (entry_to_jit_register R i))" using rep by (simp add: represents_def)
  have "represents R (emit oper em) ls (put_reg (entry_to_jit_register R i) v h) (s\<lparr>sr := (sr s)(r := ucast v)\<rparr>) \<and>
      holds (emit oper em) i r \<and> keeps_locked ls em (emit oper em)"
  proof (rule represents_hold [OF rep i(1) _ _ i(2,3)])
    show "\<not> holds em j r" if "j \<noteq> i" for j using represents_unique [OF rep i(4)] that by blast
  qed (use ok i w cond in \<open>auto simp: entry_ok_def writable_def count_list_0_iff\<close>)
  then show ?thesis using t oper exec_emit [of cl h0 em h oper] by (simp add: tracks_def)
qed

text \<open>Unlocking a register.\<close>

lemma unlock_tracks:
  assumes t: "tracks R cl h0 em ls h s" and r: "r \<in> set ls"
    and cond: "\<And>i. r = COND_BRANCH_TAKEN \<Longrightarrow> holds em i r \<Longrightarrow> clean (jit_regs h (entry_to_jit_register R i))"
  obtains em' where "unlock_mips_register r em = Some em'" "tracks R cl h0 em' (remove1 r ls) h s" "holds em' = holds em"
    "writable em' = writable em" "same_shape em em'"
proof -
  have rep: "represents R em ls h s" using t by (simp add: tracks_def)
  then obtain i where held: "holds em i r" using r by (auto simp: represents_def)
  let ?e = "entries em ! i" and ?v = "jit_regs h (entry_to_jit_register R i)"
  have i: "i < length (entries em)" "is_live ?e" "mips_register ?e = r" using held by (simp_all add: holds_def)
  then have ok: "entry_ok ls s ?e ?v" using rep by (simp add: represents_def)
  then have locked: "num_locks ?e > 0" using i r by (auto simp: entry_ok_def count_list_0_iff intro: Nat.gr0I)
  define em' where "em' = set_entry i (\<lambda>e. e\<lparr>num_locks := num_locks e - 1\<rparr>) em"
  have at: "entries em' ! j = (if j = i then ?e\<lparr>num_locks := num_locks ?e - 1\<rparr> else entries em ! j)" if "j < length (entries em)" for j
    using that by (simp add: em'_def)
  have len: "length (entries em') = length (entries em)" by (simp add: em'_def)
  have hold: "holds em' = holds em" by (intro ext) (auto simp: holds_def len at split: if_splits)
  have "writable em' = writable em" unfolding writable_def hold by (intro ext) (auto simp: holds_def at split: if_splits)
  note same = hold this
  have count: "count_list (remove1 r ls) q = (if q = r then count_list ls q - 1 else count_list ls q)" for q
    by (induction ls) auto
  have "represents R em' (remove1 r ls) (put_reg (entry_to_jit_register R i) ?v h) (s\<lparr>sr := (sr s)(r := ucast ?v)\<rparr>) \<and>
      holds em' i r \<and> keeps_locked ls em em'"
  proof (rule represents_hold [OF rep i(1), where e = "?e\<lparr>num_locks := num_locks ?e - 1\<rparr>"])
    show "\<not> holds em j r" if "j \<noteq> i" for j using represents_unique [OF rep held] that by blast
    show "modified (?e\<lparr>num_locks := num_locks ?e - 1\<rparr>) \<or> r = 0 \<or> 32 < r \<or> sr (cpu h) r = ucast ?v"
      using represents_mem [OF rep] represents_unique [OF rep held] holds_value [OF rep held] by (simp, metis One_nat_def less_one not_less not_less_eq_eq)
    show "r = 0 \<Longrightarrow> \<not> modified (?e\<lparr>num_locks := num_locks ?e - 1\<rparr>) \<and> sign (?e\<lparr>num_locks := num_locks ?e - 1\<rparr>) \<noteq> Unknown \<and> ucast ?v = (0 :: u32)"
      using ok i rep by (auto simp: entry_ok_def represents_def)
  qed (use ok i count cond [OF _ held] in \<open>auto simp: entry_ok_def em'_def\<close>)
  moreover have "s\<lparr>sr := (sr s)(r := ucast ?v)\<rparr> = s" using holds_value [OF rep held] by simp
  ultimately have "tracks R cl h0 em' (remove1 r ls) h s" using t by (simp add: tracks_def put_reg_same em'_def)
  moreover have "unlock_mips_register r em = Some em'"
    using find_live_eq [OF rep held] locked by (simp add: unlock_mips_register_def assert_that_def em'_def)
  ultimately show thesis using that same by (simp add: same_shape_def em'_def)
qed

text \<open>A constant in a register.\<close>

lemma immediate_tracks:
  assumes t: "tracks R cl h0 em ls h s" and r: "1 \<le> r" "r \<le> 34" and room: "card (set ls) < length (entries em)"
    and v: "v = scast (ucast v :: u32)"
  obtains i em' h' where "immediate_mips_register R r v em = Some (entry_to_jit_register R i, em')"
    "tracks R cl h0 em' (r # ls) h' (s\<lparr>sr := (sr s)(r := ucast v)\<rparr>)"
    "holds em' i r" "keeps_locked ls em em'" "same_shape em em'" "same_env h h'"
    "\<And>j. j \<noteq> i \<Longrightarrow> jit_regs h' (entry_to_jit_register R j) = jit_regs h (entry_to_jit_register R j)"
    "jit_regs h' (entry_to_jit_register R i) = v"
proof -
  obtain i em1 h1 where m: "modify_mips_register R r em = Some (entry_to_jit_register R i, em1)"
    and t1: "tracks R cl h0 em1 (r # ls) h1 (s\<lparr>sr := (sr s)(r := ucast (jit_regs h1 (entry_to_jit_register R i)))\<rparr>)"
    and w: "writable em1 i r" and k: "keeps_locked ls em em1" "same_shape em em1" "same_env h h1" "jit_regs h1 = jit_regs h"
    by (rule modify_tracks [OF t r room])
  let ?r = "entry_to_jit_register R i" and ?s = "s\<lparr>sr := (sr s)(r := ucast v)\<rparr>"
  define em2 where "em2 = emit (jit_movi ?r v) em1"
  define em' where "em' = set_entry i (\<lambda>e. e\<lparr>sign := SExt\<rparr>) em2"
  have t2: "tracks R cl h0 em2 (r # ls) (put_reg ?r v h1) ?s" and held: "holds em2 i r"
    using write_tracks [OF t1 w, of "jit_movi ?r v" v] w by (simp_all add: em2_def writable_def)
  then have rep: "represents R em2 (r # ls) (put_reg ?r v h1) ?s" and i: "i < length (entries em2)" "is_live (entries em2 ! i)"
      "mips_register (entries em2 ! i) = r" "modified (entries em2 ! i)"
    using w by (simp_all add: tracks_def holds_def writable_def em2_def)
  then have ok: "entry_ok (r # ls) ?s (entries em2 ! i) (jit_regs (put_reg ?r v h1) ?r)"
    unfolding represents_def by blast
  have "represents R em' (r # ls) (put_reg ?r v (put_reg ?r v h1)) (?s\<lparr>sr := (sr ?s)(r := ucast v)\<rparr>) \<and> holds em' i r \<and> keeps_locked (r # ls) em2 em'"
  proof (rule represents_hold [OF rep i(1), where e = "(entries em2 ! i)\<lparr>sign := SExt\<rparr>"])
    show "\<not> holds em2 j r" if "j \<noteq> i" for j using represents_unique [OF rep held] that by blast
  qed (use i ok r v in \<open>auto simp: em'_def entry_ok_def\<close>)
  moreover have "put_reg ?r v (put_reg ?r v h1) = put_reg ?r v h1" by (simp add: put_reg_def)
  ultimately have "tracks R cl h0 em' (r # ls) (put_reg ?r v h1) ?s" "holds em' i r" "keeps_locked (r # ls) em2 em'"
    using t2 by (simp_all add: tracks_def em'_def)
  moreover have "immediate_mips_register R r v em = Some (?r, em')" by (simp add: immediate_mips_register_def m em'_def em2_def)
  ultimately show thesis using that [of i em' "put_reg ?r v h1"] k same_env_trans [OF k(3) same_env_put_reg]
    by (simp add: keeps_locked_def em2_def em'_def same_shape_def)
qed

text \<open>An unlocked branch condition is loaded into a register that can be tested against zero.\<close>

lemma load_cond_tracks:
  assumes t: "tracks R cl h0 em ls h s" and ls: "COND_BRANCH_TAKEN \<notin> set ls" and room: "card (set ls) < length (entries em)"
  obtains i em' h' where "load_mips_register_noext R COND_BRANCH_TAKEN em = Some (entry_to_jit_register R i, em')"
    "tracks R cl h0 em' (COND_BRANCH_TAKEN # ls) h' s" "holds em' i COND_BRANCH_TAKEN" "keeps_locked ls em em'" "same_shape em em'" "same_env h h'"
    "clean (jit_regs h' (entry_to_jit_register R i))" "i < length (entries em')"
    "ucast (jit_regs h' (entry_to_jit_register R i)) = sr s COND_BRANCH_TAKEN"
proof (rule load_noext_tracks [OF t _ room, of COND_BRANCH_TAKEN])
  fix i em' and h' :: host
  assume l: "load_mips_register_noext R COND_BRANCH_TAKEN em = Some (entry_to_jit_register R i, em')"
    "tracks R cl h0 em' (COND_BRANCH_TAKEN # ls) h' s" "holds em' i COND_BRANCH_TAKEN" "keeps_locked ls em em'" "same_shape em em'" "same_env h h'"
    "None = None \<Longrightarrow> holds em i COND_BRANCH_TAKEN \<Longrightarrow> jit_regs h' (entry_to_jit_register R i) = jit_regs h (entry_to_jit_register R i)"
    "\<not> holds em i COND_BRANCH_TAKEN \<Longrightarrow> extended SExt (jit_regs h' (entry_to_jit_register R i))"
  have "clean (jit_regs h' (entry_to_jit_register R i))"
  proof (cases "holds em i COND_BRANCH_TAKEN")
    case True
    then have i: "i < length (entries em)" "is_live (entries em ! i)" "mips_register (entries em ! i) = COND_BRANCH_TAKEN" by (simp_all add: holds_def)
    then have "entry_ok ls s (entries em ! i) (jit_regs h (entry_to_jit_register R i))" using t by (simp add: tracks_def represents_def)
    then have "clean (jit_regs h (entry_to_jit_register R i))" using i ls by (simp add: entry_ok_def count_list_0_iff)
    then show ?thesis using l(7) True by simp
  qed (use l(8) extended_clean in blast)
  moreover have "i < length (entries em')" using l(3) by (simp add: holds_def)
  ultimately show thesis using that [OF l(1-6)] holds_value [OF tracks_represents [OF l(2)] l(3)] by blast
qed simp

text \<open>Flushing entries: what they held is then in memory.\<close>

lemma flush_entry_tracks:
  assumes t: "tracks R cl h0 em ls h s" and i: "i < length (entries em)" and free: "\<And>r. holds em i r \<Longrightarrow> r \<notin> set ls"
  obtains em' h' where "flush_entry R i em = Some em'" "tracks R cl h0 em' ls h' s" "\<And>j r. holds em' j r \<longleftrightarrow> j \<noteq> i \<and> holds em j r"
    "\<And>j r. j \<noteq> i \<Longrightarrow> writable em' j r \<longleftrightarrow> writable em j r"
    "same_shape em em'" "same_env h h'" "jit_regs h' = jit_regs h"
proof (cases "is_live (entries em ! i)")
  case False
  then show thesis using that [of em h] t by (auto simp: flush_entry_def holds_def)
next
  case True
  let ?e = "entries em ! i"
  obtain em1 h1 where wb: "writeback_if_modified R i em = Some em1" and t1: "tracks R cl h0 em1 ls h1 s" and em1: "same_shape em em1"
    and h1: "same_env h h1" "jit_regs h1 = jit_regs h" and ent: "entries em1 = (entries em)[i := ?e\<lparr>modified := False\<rparr>]"
    and mem: "\<And>q. q = mips_register ?e \<Longrightarrow> 1 \<le> q \<Longrightarrow> q \<le> 32 \<Longrightarrow> sr (cpu h1) q = sr s q"
    and hold: "holds em1 = holds em"
    using writeback_tracks [OF t i True] by blast
  have rep: "represents R em1 ls h1 s" using t1 by (simp add: tracks_def)
  define em' where "em' = set_entry i (\<lambda>e. empty_entry) em1"
  have at: "entries em' ! j = (if j = i then empty_entry else entries em1 ! j)" if "j < length (entries em)" for j
    using that i by (simp add: em'_def ent)
  have len: "length (entries em') = length (entries em)" "length (entries em1) = length (entries em)" by (simp_all add: em'_def ent)
  have hold': "holds em' j r \<longleftrightarrow> j \<noteq> i \<and> holds em j r" for j r
    using i unfolding hold [symmetric] by (auto simp: holds_def len at empty_entry_def split: if_splits)
  have ok: "entry_ok ls s (entries em1 ! j) (jit_regs h1 (entry_to_jit_register R j))" if "j < length (entries em)" for j
    using rep that by (simp add: represents_def len)
  have held: "holds em i (mips_register ?e)" using True i by (simp add: holds_def)
  have "num_locks (entries em1 ! i) = 0"
    using ok [OF i] free [OF held] True i by (auto simp: ent entry_ok_def count_list_0_iff)
  then have fl: "flush_entry R i em = Some em'" using True wb by (simp add: flush_entry_def assert_that_def em'_def)
  have "entry_ok ls s (entries em' ! j) (jit_regs h1 (entry_to_jit_register R j))" if "j < length (entries em)" for j
  proof (cases "j = i")
    case True
    then show ?thesis using at [OF that] by (simp add: entry_ok_def empty_entry_def)
  qed (use ok [OF that] at [OF that] in simp)
  moreover have "\<exists>j. holds em' j r" if "r \<in> set ls" for r
  proof -
    obtain j where "holds em1 j r" using rep \<open>r \<in> set ls\<close> by (auto simp: represents_def)
    then show ?thesis using free that unfolding hold' hold by metis
  qed
  moreover have "(\<exists>j. holds em' j r \<and> modified (entries em' ! j)) \<or> sr (cpu h1) r = sr s r" if r: "1 \<le> r" "r \<le> 32" for r
  proof (cases "\<exists>j. holds em j r \<and> modified (entries em1 ! j)")
    case True
    then obtain j where j: "holds em j r" "modified (entries em1 ! j)" by blast
    then have "j \<noteq> i" "j < length (entries em)" using i by (auto simp: ent holds_def)
    then show ?thesis using j at [of j] unfolding hold' by auto
  qed (use rep r in \<open>auto simp: represents_def hold\<close>)
  ultimately have "represents R em' ls h1 s"
    using rep represents_unique [OF rep] unfolding represents_def len hold' hold by auto
  then have "tracks R cl h0 em' ls h1 s" using t1 by (simp add: tracks_def em'_def)
  moreover have "writable em' j r \<longleftrightarrow> writable em j r" if "j \<noteq> i" for j r
  proof -
    have "entries em' ! j = entries em ! j" if "j < length (entries em)" using at [OF that] \<open>j \<noteq> i\<close> by (simp add: ent)
    then show ?thesis using that unfolding writable_def hold' by (auto simp: holds_def)
  qed
  moreover have "same_shape em em'" using em1 by (simp add: same_shape_def em'_def)
  ultimately show thesis using that [OF fl] hold' h1 by blast
qed

lemma flush_entries_tracks:
  assumes "tracks R cl h0 em ls h s" "\<forall>i \<in> set is. i < length (entries em)" "\<forall>i \<in> set is. \<forall>r. holds em i r \<longrightarrow> r \<notin> set ls"
  shows "\<exists>em' h'. flush_entries R is em = Some em' \<and> tracks R cl h0 em' ls h' s \<and>
    (\<forall>j r. holds em' j r \<longleftrightarrow> j \<notin> set is \<and> holds em j r) \<and> (\<forall>j r. j \<notin> set is \<longrightarrow> (writable em' j r \<longleftrightarrow> writable em j r)) \<and>
    same_shape em em' \<and> same_env h h' \<and> jit_regs h' = jit_regs h"
  using assms
proof (induction "is" arbitrary: em h)
  case (Cons i "is")
  obtain em1 h1 where f: "flush_entry R i em = Some em1" "tracks R cl h0 em1 ls h1 s" and hold: "\<And>j r. holds em1 j r \<longleftrightarrow> j \<noteq> i \<and> holds em j r"
    and w: "\<And>j r. j \<noteq> i \<Longrightarrow> writable em1 j r \<longleftrightarrow> writable em j r"
    and e: "same_shape em em1" "same_env h h1" "jit_regs h1 = jit_regs h"
    using flush_entry_tracks [OF Cons.prems(1), of i] Cons.prems(2,3) by (metis list.set_intros(1))
  have "\<forall>k \<in> set is. k < length (entries em1)" "\<forall>k \<in> set is. \<forall>r. holds em1 k r \<longrightarrow> r \<notin> set ls"
    using Cons.prems(2,3) e(1) hold by (auto simp: same_shape_def)
  from Cons.IH [OF f(2) this] obtain em' h' where
    "flush_entries R is em1 = Some em'" "tracks R cl h0 em' ls h' s" "\<forall>j r. holds em' j r \<longleftrightarrow> j \<notin> set is \<and> holds em1 j r"
    "\<forall>j r. j \<notin> set is \<longrightarrow> (writable em' j r \<longleftrightarrow> writable em1 j r)"
    "same_shape em1 em'" "same_env h1 h'" "jit_regs h' = jit_regs h1"
    by blast
  then show ?case using f(1) e hold w
    by (intro exI [of _ em'] exI [of _ h']) (auto intro: same_shape_trans same_env_trans)
next
  case Nil
  then show ?case by (intro exI [of _ em] exI [of _ h]) simp
qed

lemma flush_register_window_tracks:
  assumes t: "tracks R cl h0 em [] h s"
  obtains em' h' where "flush_register_window R em = Some em'" "tracks R cl h0 em' [] h' s" "\<And>j r. \<not> holds em' j r"
    "\<And>r. r \<le> 32 \<Longrightarrow> sr (cpu h') r = sr s r" "same_shape em em'" "same_env h h'" "jit_regs h' = jit_regs h"
proof -
  obtain em1 h1 where f: "flush_entries R [0..<length (entries em)] em = Some em1" "tracks R cl h0 em1 [] h1 s"
    "\<And>j r. holds em1 j r \<longleftrightarrow> j \<notin> set [0..<length (entries em)] \<and> holds em j r" "same_shape em em1" "same_env h h1" "jit_regs h1 = jit_regs h"
    using flush_entries_tracks [OF t, of "[0..<length (entries em)]"] by auto
  then have none: "\<not> holds em1 j r" for j r by (auto simp: holds_def)
  define em' where "em' = em1\<lparr>cache_timestamp := 0\<rparr>"
  have hold: "holds em' = holds em1" by (simp add: fun_eq_iff holds_def em'_def)
  have t': "tracks R cl h0 em' [] h1 s" using f(2) unfolding tracks_def represents_def hold by (simp add: em'_def)
  have rep: "represents R em' [] h1 s" using t' by (simp add: tracks_def)
  have "sr (cpu h1) r = sr s r" if "r \<le> 32" for r
  proof (cases "r = 0")
    case False
    then show ?thesis using represents_mem [OF rep, of r] that none hold by simp
  qed (use rep in \<open>simp add: represents_def\<close>)
  then show thesis using that [of em' h1] f t' none hold by (simp add: flush_register_window_def em'_def same_shape_def)
qed

lemma flush_caller_save_tracks:
  assumes t: "tracks R cl b em [] h s" and R: "R \<le> length (entries em)"
  obtains em' h' where "flush_caller_save_registers R em = Some em'" "tracks R cl b em' [] h' s" "\<And>j r. holds em' j r \<longleftrightarrow> R \<le> j \<and> holds em j r"
    "\<And>j r. R \<le> j \<Longrightarrow> writable em' j r \<longleftrightarrow> writable em j r" "same_shape em em'" "same_env h h'" "jit_regs h' = jit_regs h"
proof -
  have "map (\<lambda>i. jit_register_to_index R (JIT_R i)) [0..<R] = [0..<R]" by (simp add: map_idI)
  then show thesis
    using flush_entries_tracks [OF t, of "[0..<R]"] R that unfolding flush_caller_save_registers_def by (auto simp: not_less)
qed

lemma flush_mips_register_tracks:
  assumes t: "tracks R cl b em [] h s"
  obtains em' h' where "flush_mips_register R r em = Some em'" "tracks R cl b em' [] h' s" "\<And>j q. holds em' j q \<longleftrightarrow> q \<noteq> r \<and> holds em j q"
    "same_shape em em'" "same_env h h'" "jit_regs h' = jit_regs h"
proof (cases "find_live_mips_register em r")
  case None
  then have "\<not> holds em j r" for j by (simp add: find_live_iff)
  then have "holds em j q \<longleftrightarrow> q \<noteq> r \<and> holds em j q" for j q by metis
  then show thesis using that [of em h] t None by (simp add: flush_mips_register_def)
next
  case (Some i)
  have rep: "represents R em [] h s" using t by (simp add: tracks_def)
  have i: "holds em i r" "i < length (entries em)" using find_live_holds [OF Some] by (simp_all add: holds_def)
  have only: "j \<noteq> i \<longleftrightarrow> q \<noteq> r" if "holds em j q" for j q
    using represents_unique [OF rep i(1), of j] that i(1) unfolding holds_def by fast
  show thesis
  proof (rule flush_entry_tracks [OF t i(2)])
    fix em' h' assume f: "flush_entry R i em = Some em'" "tracks R cl b em' [] h' s" "\<And>j q. holds em' j q \<longleftrightarrow> j \<noteq> i \<and> holds em j q"
      "same_shape em em'" "same_env h h'" "jit_regs h' = jit_regs h"
    have "holds em' j q \<longleftrightarrow> q \<noteq> r \<and> holds em j q" for j q using f(3) only by metis
    then show thesis using that [of em' h'] f Some by (simp add: flush_mips_register_def)
  qed simp
qed

text \<open>A call leaves anything in the caller-saved registers; flushing them first makes that harmless.\<close>

lemma represents_clobber:
  assumes rep: "represents R em ls h s" and none: "\<And>i r. i < R \<Longrightarrow> \<not> holds em i r"
    and h': "cpu h' = cpu h" "\<And>k. jit_regs h' (JIT_V k) = jit_regs h (JIT_V k)"
  shows "represents R em ls h' s"
proof -
  have "entry_ok ls s (entries em ! i) (jit_regs h' (entry_to_jit_register R i))" if i: "i < length (entries em)" for i
  proof (cases "i < R")
    case True
    then have "\<not> is_live (entries em ! i)" using none [of i "mips_register (entries em ! i)"] i by (simp add: holds_def)
    moreover have "entry_ok ls s (entries em ! i) (jit_regs h (entry_to_jit_register R i))" using rep i by (simp add: represents_def)
    ultimately show ?thesis by (simp add: entry_ok_def)
  next
    case False
    then have "jit_regs h' (entry_to_jit_register R i) = jit_regs h (entry_to_jit_register R i)" using h'(2) by (simp add: entry_to_jit_register_def)
    then show ?thesis using rep i by (simp add: represents_def)
  qed
  then show ?thesis using rep unfolding represents_def h'(1) by blast
qed

section \<open>The cache as a whole\<close>

text \<open>The operations that the emitters of instructions perform, the locking discipline they follow, and what they mean for the register
  file: only a constant changes it.\<close>

datatype cache_op = Load_noext nat | Load_sext nat | Load_zext nat | Immediate nat u64 | Unlock nat
  | Flush_caller_save | Flush_register nat | Flush_window

fun perform :: "nat \<Rightarrow> cache_op \<Rightarrow> emitter \<Rightarrow> emitter option" where
  "perform R (Load_noext r) em = map_option snd (load_mips_register_noext R r em)"
| "perform R (Load_sext r) em = map_option snd (load_mips_register_sext R r em)"
| "perform R (Load_zext r) em = map_option snd (load_mips_register_zext R r em)"
| "perform R (Immediate r v) em = map_option snd (immediate_mips_register R r v em)"
| "perform R (Unlock r) em = unlock_mips_register r em"
| "perform R Flush_caller_save em = flush_caller_save_registers R em"
| "perform R (Flush_register r) em = flush_mips_register R r em"
| "perform R Flush_window em = flush_register_window R em"

fun perform_all :: "nat \<Rightarrow> cache_op list \<Rightarrow> emitter \<Rightarrow> emitter option" where
  "perform_all R [] em = Some em"
| "perform_all R (x # xs) em = perform R x em \<bind> perform_all R xs"

fun disciplined :: "nat \<Rightarrow> nat list \<Rightarrow> cache_op list \<Rightarrow> bool" where
  "disciplined n ls [] \<longleftrightarrow> ls = []"
| "disciplined n ls (Load_noext r # xs) \<longleftrightarrow> r \<le> 32 \<and> card (set ls) < n \<and> disciplined n (r # ls) xs"
| "disciplined n ls (Load_sext r # xs) \<longleftrightarrow> r \<le> 32 \<and> card (set ls) < n \<and> disciplined n (r # ls) xs"
| "disciplined n ls (Load_zext r # xs) \<longleftrightarrow> r \<le> 32 \<and> card (set ls) < n \<and> disciplined n (r # ls) xs"
| "disciplined n ls (Immediate r v # xs) \<longleftrightarrow> 1 \<le> r \<and> r \<le> 32 \<and> v = scast (ucast v :: u32) \<and> card (set ls) < n \<and> disciplined n (r # ls) xs"
| "disciplined n ls (Unlock r # xs) \<longleftrightarrow> r \<in> set ls \<and> disciplined n (remove1 r ls) xs"
| "disciplined n ls (Flush_caller_save # xs) \<longleftrightarrow> ls = [] \<and> disciplined n ls xs"
| "disciplined n ls (Flush_register r # xs) \<longleftrightarrow> ls = [] \<and> disciplined n ls xs"
| "disciplined n ls (Flush_window # xs) \<longleftrightarrow> ls = [] \<and> disciplined n ls xs"

fun meaning :: "cache_op \<Rightarrow> CPUState \<Rightarrow> CPUState" where
  "meaning (Immediate r v) s = s\<lparr>sr := (sr s)(r := ucast v)\<rparr>"
| "meaning _ s = s"

lemma map_option_snd: "x = Some (a, b) \<Longrightarrow> map_option snd x = Some b"
  by simp

text \<open>Without \<open>modify_mips_register\<close>, whose users compute a value of no known extension, every live register is extended.\<close>

definition tidy :: "emitter \<Rightarrow> bool" where
  "tidy em \<longleftrightarrow> (\<forall>e \<in> set (entries em). is_live e \<longrightarrow> sign e \<noteq> Unknown)"

lemma tidy_emit [simp]: "tidy (emit oper em) = tidy em" "tidy (em\<lparr>cache_timestamp := ts\<rparr>) = tidy em"
  by (simp_all add: tidy_def)

lemma tidy_set_entry: "tidy em \<Longrightarrow> (\<And>e. (is_live e \<longrightarrow> sign e \<noteq> Unknown) \<Longrightarrow> is_live (f e) \<longrightarrow> sign (f e) \<noteq> Unknown) \<Longrightarrow> tidy (set_entry i f em)"
  by (cases "i < length (entries em)") (auto simp: tidy_def list_update_beyond dest!: subsetD [OF set_update_subset_insert])

lemma tidy_touch [simp]: "tidy em \<Longrightarrow> tidy (touch_and_lock i em)"
  by (simp add: touch_and_lock_def Let_def tidy_set_entry)

lemma tidy_writeback: "writeback_if_modified R i em = Some em' \<Longrightarrow> tidy em \<Longrightarrow> tidy em'"
  by (auto simp: writeback_if_modified_def writeback_register_def Let_def tidy_set_entry split: if_splits)

lemma tidy_load: "load_mips_register ldxi ext extr R r em = Some (x, em') \<Longrightarrow> ext \<noteq> Unknown \<Longrightarrow> tidy em \<Longrightarrow> tidy em'"
  by (auto simp: load_mips_register_def assert_that_def Let_def tidy_set_entry tidy_writeback split: bind_splits if_splits option.splits)

lemma tidy_immediate: "immediate_mips_register R r v em = Some (x, em') \<Longrightarrow> tidy em \<Longrightarrow> tidy em'"
proof -
  have fuse: "set_entry i f (emit oper (set_entry i g em)) = emit oper (set_entry i (\<lambda>e. f (g e)) em)" for i f oper g and em :: emitter
    by (cases "i < length (entries em)") (simp_all add: set_entry_def emit_def list_update_beyond)
  have free: "tidy (set_entry i (\<lambda>e. e\<lparr>modified := True, sign := SExt\<rparr>) (touch_and_lock i (set_entry i f em)))" if "tidy em" for i f em
    using that set_update_subset_insert by (cases "i < length (entries em)")
      (fastforce simp: tidy_def touch_and_lock_def Let_def list_update_beyond dest!: subsetD [OF set_update_subset_insert])+
  show "immediate_mips_register R r v em = Some (x, em') \<Longrightarrow> tidy em \<Longrightarrow> tidy em'"
    by (auto simp: immediate_mips_register_def modify_mips_register_def fuse free tidy_set_entry tidy_writeback split: bind_splits if_splits)
qed

lemma tidy_flush: "flush_entry R i em = Some em' \<Longrightarrow> tidy em \<Longrightarrow> tidy em'"
  by (auto simp: flush_entry_def assert_that_def tidy_set_entry tidy_writeback empty_entry_def split: bind_splits if_splits)

lemma tidy_flush_entries: "flush_entries R is em = Some em' \<Longrightarrow> tidy em \<Longrightarrow> tidy em'"
  by (induction "is" arbitrary: em) (auto simp: tidy_flush split: bind_splits)

lemma tidy_perform: "perform R x em = Some em' \<Longrightarrow> tidy em \<Longrightarrow> tidy em'"
  by (cases x) (auto simp: load_mips_register_noext_def load_mips_register_sext_def load_mips_register_zext_def flush_register_window_def
      flush_caller_save_registers_def flush_mips_register_def unlock_mips_register_def assert_that_def
      dest: tidy_load tidy_immediate tidy_flush tidy_flush_entries intro: tidy_set_entry split: bind_splits if_splits option.splits)

lemma tidy_clean:
  assumes "tidy em" "represents R em ls h s" "holds em i r"
  shows "clean (jit_regs h (entry_to_jit_register R i))"
proof -
  have i: "i < length (entries em)" "is_live (entries em ! i)" using assms(3) by (simp_all add: holds_def)
  then have "entry_ok ls s (entries em ! i) (jit_regs h (entry_to_jit_register R i))" using assms(2) by (simp add: represents_def)
  moreover have "sign (entries em ! i) \<noteq> Unknown" using i assms(1) by (simp add: tidy_def)
  ultimately show ?thesis using i extended_clean [of "sign (entries em ! i)"] by (simp add: entry_ok_def)
qed

lemma perform_tracks:
  assumes t: "tracks R cl b em ls h s" and tidy: "tidy em" and d: "disciplined (length (entries em)) ls (x # xs)" and R: "R \<le> length (entries em)"
  shows "\<exists>em' ls' h'. perform R x em = Some em' \<and> tracks R cl b em' ls' h' (meaning x s) \<and> length (entries em') = length (entries em) \<and>
    disciplined (length (entries em)) ls' xs"
proof (cases x)
  case (Load_noext r)
  then have a: "r \<le> 32" "card (set ls) < length (entries em)" "disciplined (length (entries em)) (r # ls) xs" using d by simp_all
  show ?thesis
    by (rule load_noext_tracks [OF t a(1,2)]) (use a(3) Load_noext in \<open>auto simp: same_shape_def\<close>)
next
  case (Load_sext r)
  then have a: "r \<le> 32" "card (set ls) < length (entries em)" "disciplined (length (entries em)) (r # ls) xs" using d by simp_all
  show ?thesis
    by (rule load_sext_tracks [OF t a(1,2)]) (use a(3) Load_sext in \<open>auto simp: same_shape_def\<close>)
next
  case (Load_zext r)
  then have a: "r \<le> 32" "card (set ls) < length (entries em)" "disciplined (length (entries em)) (r # ls) xs" using d by simp_all
  show ?thesis
    by (rule load_zext_tracks [OF t a(1,2)]) (use a(3) Load_zext in \<open>auto simp: same_shape_def\<close>)
next
  case (Immediate r v)
  then have a: "1 \<le> r" "r \<le> 34" "card (set ls) < length (entries em)" "v = scast (ucast v :: u32)"
    "disciplined (length (entries em)) (r # ls) xs" using d by simp_all
  show ?thesis
    by (rule immediate_tracks [OF t a(1-4)]) (use a(5) Immediate in \<open>auto simp: same_shape_def\<close>)
next
  case (Unlock r)
  then have a: "r \<in> set ls" "disciplined (length (entries em)) (remove1 r ls) xs" using d by simp_all
  show ?thesis
    by (rule unlock_tracks [OF t a(1)])
      (use a(2) Unlock tidy_clean [OF tidy tracks_represents [OF t]] in \<open>auto simp: same_shape_def\<close>)
next
  case Flush_caller_save
  then have a: "tracks R cl b em [] h s" "disciplined (length (entries em)) [] xs" using d t by auto
  show ?thesis
    by (rule flush_caller_save_tracks [OF a(1) R]) (use a(2) Flush_caller_save in \<open>auto simp: same_shape_def\<close>)
next
  case (Flush_register r)
  then have a: "tracks R cl b em [] h s" "disciplined (length (entries em)) [] xs" using d t by auto
  show ?thesis
    by (rule flush_mips_register_tracks [OF a(1), of r]) (use a(2) Flush_register in \<open>auto simp: same_shape_def\<close>)
next
  case Flush_window
  then have a: "tracks R cl b em [] h s" "disciplined (length (entries em)) [] xs" using d t by auto
  show ?thesis
    by (rule flush_register_window_tracks [OF a(1)]) (use a(2) Flush_window in \<open>auto simp: same_shape_def\<close>)
qed

lemma perform_all_tracks:
  "tracks R cl b em ls h s \<Longrightarrow> tidy em \<Longrightarrow> disciplined (length (entries em)) ls xs \<Longrightarrow> R \<le> length (entries em) \<Longrightarrow>
   \<exists>em' h'. perform_all R xs em = Some em' \<and> tracks R cl b em' [] h' (fold meaning xs s)"
proof (induction xs arbitrary: em ls h s)
  case (Cons x xs)
  from perform_tracks [OF Cons.prems] obtain em1 ls1 h1 where
    p: "perform R x em = Some em1" "tracks R cl b em1 ls1 h1 (meaning x s)" "length (entries em1) = length (entries em)"
      "disciplined (length (entries em)) ls1 xs" by blast
  from Cons.IH [OF p(2) tidy_perform [OF p(1) Cons.prems(2)]] p Cons.prems(4) show ?case by simp
qed auto

lemma empty_represents:
  assumes "\<And>i. i < length (entries em) \<Longrightarrow> entries em ! i = empty_entry" "sr (cpu h) 0 = 0"
  shows "represents R em [] h (cpu h)"
  using assms by (auto simp: represents_def holds_def entry_ok_def empty_entry_def)

text \<open>C31: the register cache refines the register file. Any sequence of cache operations that keeps the locking discipline (no more
  registers locked than there are host registers, unlocks and flushes only where allowed) compiles without failing an assertion; the code
  it emits and the final flush leave in memory exactly the register file that the constants written make, whatever was evicted when.\<close>

theorem register_cache_refines:
  assumes "disciplined n [] xs" and "R \<le> n" and "sr (cpu h) 0 = 0"
  shows "\<exists>em' h'. perform_all R (xs @ [Flush_window])
        \<lparr>entries = replicate n empty_entry, cache_timestamp = 0, code = [], nodes = 0, local_branches = []\<rparr> = Some em' \<and>
      exec cl (code em') h = Falls h' \<and> (\<forall>r\<le>32. sr (cpu h') r = sr (fold meaning xs (cpu h)) r) \<and>
      (cpu h')\<lparr>sr := sr (cpu h)\<rparr> = cpu h"
proof -
  let ?em = "\<lparr>entries = replicate n empty_entry, cache_timestamp = 0, code = [], nodes = 0, local_branches = []\<rparr>"
  have t: "tracks R cl ([], h) ?em [] h (cpu h)" using empty_represents [of ?em h R] assms(3) by (simp add: tracks_def emitted_def)
  then obtain em1 h1 where p: "perform_all R xs ?em = Some em1" "tracks R cl ([], h) em1 [] h1 (fold meaning xs (cpu h))"
    using perform_all_tracks [OF t, of xs] assms by (auto simp: tidy_def empty_entry_def)
  obtain em' h' where f: "flush_register_window R em1 = Some em'" "tracks R cl ([], h) em' [] h' (fold meaning xs (cpu h))"
    "\<And>r. r \<le> 32 \<Longrightarrow> sr (cpu h') r = sr (fold meaning xs (cpu h)) r"
    using flush_register_window_tracks [OF p(2)] by metis
  have app: "perform_all R (xs @ ys) em = perform_all R xs em \<bind> perform_all R ys" for ys em
    by (induction xs arbitrary: em) (auto split: bind_split)
  have "(fold meaning xs s)\<lparr>sr := sr s'\<rparr> = s\<lparr>sr := sr s'\<rparr>" for s s' :: CPUState
  proof (induction xs arbitrary: s)
    case (Cons x xs)
    then show ?case by (cases x) simp_all
  qed simp
  moreover have "(cpu h')\<lparr>sr := sr (fold meaning xs (cpu h))\<rparr> = fold meaning xs (cpu h)" using f(2) by (simp add: tracks_def represents_def)
  ultimately have "(cpu h')\<lparr>sr := sr (cpu h)\<rparr> = cpu h" by (metis CPUState.surjective CPUState.update_convs(5))
  moreover have "exec cl (code em') h = Falls h'" using f(2) by (simp add: tracks_def emitted_def)
  ultimately show ?thesis using p f by (simp add: app)
qed

definition example_host :: host where
  "example_host = \<lparr>jit_regs = \<lambda>_. 7, cpu = reset_state, frame = \<lambda>_. 0, ret_value = 0,
     globals = \<lparr>parallel_integration = True, graphics_hle = False, SP_STATUS_TIMEOUT = 16, MFC0_count = \<lambda>_. 0\<rparr>\<rparr>"

definition example_script :: "cache_op list" where
  "example_script = [Immediate 1 11, Load_zext 2, Unlock 1, Immediate 2 12, Unlock 2, Unlock 2, Immediate 3 13, Unlock 3, Immediate 4 14,
     Load_sext 1, Unlock 4, Unlock 1, Flush_caller_save, Immediate 1 15, Unlock 1]"

theorem register_cache_refines_witness:
  "\<exists>em' h'. perform_all 3 (example_script @ [Flush_window])
      \<lparr>entries = replicate 3 empty_entry, cache_timestamp = 0, code = [], nodes = 0, local_branches = []\<rparr> = Some em' \<and>
    exec (\<lambda>_ _. 0) (code em') example_host = Falls h' \<and> map (sr (cpu h')) [0, 1, 2, 3, 4] = [0, 15, 12, 13, 14]"
proof -
  have "fold meaning example_script (cpu example_host) = (cpu example_host)\<lparr>sr := (sr (cpu example_host))(1 := 15, 2 := 12, 3 := 13, 4 := 14)\<rparr>"
    by (simp add: example_script_def fun_eq_iff)
  moreover have "disciplined 3 [] example_script" by (simp add: example_script_def)
  moreover have "sr (cpu example_host) 0 = 0" by (simp add: example_host_def reset_state_def)
  ultimately show ?thesis using register_cache_refines [of 3 example_script 3 example_host "\<lambda>_ _. 0"] by auto
qed

end
