(* ===== verification/Jit_Emit.thy ===== *)
theory Jit_Emit
  imports Register_Cache
begin

unbundle bit_operations_syntax

text \<open>
  The code that the recompiler emits for one instruction (\<open>CPU::jit_instruction\<close> of \<open>rsp_jit.cpp\<close> with the emitters it calls) and for
  the ends of blocks and delay slots. Every emitter threads the register cache and the code, and gives \<open>None\<close> where an assertion of the
  cache fails. \<open>R\<close> is the number of caller-saved host registers, \<open>t\<close> what the compiler was told about the host.
\<close>

section \<open>Registers and fields\<close>

record InstructionInfo =
  info_branch_target :: u32
  indirect :: bool
  branch :: bool
  conditional :: bool
  handles_delay_slot :: bool

definition no_info :: InstructionInfo where
  "no_info = \<lparr>info_branch_target = 0, indirect = False, branch = False, conditional = False, handles_delay_slot = False\<rparr>"

abbreviation "JIT_REGISTER_INDIRECT_PC \<equiv> JIT_V 2"
abbreviation "JIT_REGISTER_MODE \<equiv> JIT_R 1"
abbreviation "JIT_REGISTER_NEXT_PC \<equiv> JIT_R 0"

definition fld :: "u32 \<Rightarrow> nat \<Rightarrow> nat" where
  "fld instr k = unat (drop_bit k instr AND 31)"

abbreviation "rs_of instr \<equiv> fld instr 21"
abbreviation "rt_of instr \<equiv> fld instr 16"
abbreviation "rd_of instr \<equiv> fld instr 11"
abbreviation "shift_of instr \<equiv> fld instr 6"

definition simm :: "u32 \<Rightarrow> u64" where
  "simm instr = scast (ucast instr :: u16)"

definition uimm :: "u32 \<Rightarrow> u64" where
  "uimm instr = ucast (ucast instr :: u16)"

text \<open>A forward branch: the node it returns is patched later.\<close>

definition emit_node :: "(nat \<Rightarrow> jit_op) \<Rightarrow> emitter \<Rightarrow> nat \<times> emitter" where
  "emit_node f em = (nodes em, emit (f (nodes em)) em\<lparr>nodes := nodes em + 1\<rparr>)"

fun unlock_all :: "nat list \<Rightarrow> emitter \<Rightarrow> emitter option" where
  "unlock_all [] em = Some em"
| "unlock_all (r # rs) em = unlock_mips_register r em \<bind> unlock_all rs"

type_synonym load_op = "nat \<Rightarrow> nat \<Rightarrow> emitter \<Rightarrow> (jit_register \<times> emitter) option"

section \<open>Arithmetic\<close>

definition shift_imm :: "load_op \<Rightarrow> alu \<Rightarrow> nat \<Rightarrow> u32 \<Rightarrow> emitter \<Rightarrow> emitter option" where
  "shift_imm load f R instr em =
     (let rd = rd_of instr; rt = rt_of instr; shift = shift_of instr
      in if rd = 0 then Some em else do {
        (rt_reg, em) \<leftarrow> load R rt em;
        (rd_reg, em) \<leftarrow> modify_mips_register R rd em;
        let em = emit (jit_i f rd_reg rt_reg (word_of_nat shift)) em;
        unlock_all [rt, rd] em
      })"

definition shift_var :: "load_op \<Rightarrow> alu \<Rightarrow> nat \<Rightarrow> u32 \<Rightarrow> emitter \<Rightarrow> emitter option" where
  "shift_var load f R instr em =
     (let rd = rd_of instr; rt = rt_of instr; rs = rs_of instr
      in if rd = 0 then Some em else do {
        (rt_reg, em) \<leftarrow> load R rt em;
        (rs_reg, em) \<leftarrow> load_mips_register_noext R rs em;
        (rs_tmp_reg, em) \<leftarrow> modify_mips_register R SCRATCH_REGISTER0 em;
        let em = emit (jit_i And rs_tmp_reg rs_reg 31) em;
        em \<leftarrow> unlock_mips_register rs em;
        (rd_reg, em) \<leftarrow> modify_mips_register R rd em;
        let em = emit (jit_r f rd_reg rt_reg rs_tmp_reg) em;
        unlock_all [rt, rd, SCRATCH_REGISTER0] em
      })"

definition three_reg_op :: "load_op \<Rightarrow> alu \<Rightarrow> nat \<Rightarrow> u32 \<Rightarrow> emitter \<Rightarrow> emitter option" where
  "three_reg_op load f R instr em =
     (let rd = rd_of instr; rt = rt_of instr; rs = rs_of instr
      in if rd = 0 then Some em else do {
        (rs_reg, em) \<leftarrow> load R rs em;
        (rt_reg, em) \<leftarrow> load R rt em;
        (rd_reg, em) \<leftarrow> modify_mips_register R rd em;
        let em = emit (jit_r f rd_reg rs_reg rt_reg) em;
        unlock_all [rs, rt, rd] em
      })"

definition nor_op :: "nat \<Rightarrow> u32 \<Rightarrow> emitter \<Rightarrow> emitter option" where
  "nor_op R instr em =
     (let rd = rd_of instr; rt = rt_of instr; rs = rs_of instr
      in if rd = 0 then Some em else do {
        (rt_reg, em) \<leftarrow> load_mips_register_noext R rt em;
        (rs_reg, em) \<leftarrow> load_mips_register_noext R rs em;
        (rd_reg, em) \<leftarrow> modify_mips_register R rd em;
        let em = emit (jit_r Or rd_reg rt_reg rs_reg) em;
        let em = emit (jit_i Xor rd_reg rd_reg (- 1)) em;
        unlock_all [rt, rs, rd] em
      })"

definition two_reg_imm_op :: "load_op \<Rightarrow> alu \<Rightarrow> u64 \<Rightarrow> nat \<Rightarrow> u32 \<Rightarrow> emitter \<Rightarrow> emitter option" where
  "two_reg_imm_op load f imm R instr em =
     (let rt = rt_of instr; rs = rs_of instr
      in if rt = 0 then Some em else do {
        (rs_reg, em) \<leftarrow> load R rs em;
        (rt_reg, em) \<leftarrow> modify_mips_register R rt em;
        let em = emit (jit_i f rt_reg rs_reg imm) em;
        unlock_all [rs, rt] em
      })"

definition immediate_op :: "u64 \<Rightarrow> nat \<Rightarrow> u32 \<Rightarrow> emitter \<Rightarrow> emitter option" where
  "immediate_op v R instr em =
     (let rt = rt_of instr
      in if rt = 0 then Some em else do {
        (_, em) \<leftarrow> immediate_mips_register R rt v em;
        unlock_mips_register rt em
      })"

text \<open>The instructions of \<open>jit_instruction\<close> that only compute: the function of an opcode, by \<open>SPECIAL\<close> function field or opcode.\<close>

definition special_alu :: "nat \<Rightarrow> (nat \<Rightarrow> u32 \<Rightarrow> emitter \<Rightarrow> emitter option) option" where
  "special_alu funct =
     (if funct = 0 then Some (shift_imm load_mips_register_noext Lsh)
      else if funct = 2 then Some (shift_imm load_mips_register_zext Rsh_u)
      else if funct = 3 then Some (shift_imm load_mips_register_sext Rsh)
      else if funct = 4 then Some (shift_var load_mips_register_noext Lsh)
      else if funct = 6 then Some (shift_var load_mips_register_zext Rsh_u)
      else if funct = 7 then Some (shift_var load_mips_register_sext Rsh)
      else if funct = 32 \<or> funct = 33 then Some (three_reg_op load_mips_register_noext Add)
      else if funct = 34 \<or> funct = 35 then Some (three_reg_op load_mips_register_noext Sub)
      else if funct = 36 then Some (three_reg_op load_mips_register_noext And)
      else if funct = 37 then Some (three_reg_op load_mips_register_noext Or)
      else if funct = 38 then Some (three_reg_op load_mips_register_noext Xor)
      else if funct = 39 then Some nor_op
      else if funct = 42 then Some (three_reg_op load_mips_register_sext Lt)
      else if funct = 43 then Some (three_reg_op load_mips_register_zext Lt_u)
      else None)"

definition immediate_alu :: "nat \<Rightarrow> u32 \<Rightarrow> (nat \<Rightarrow> u32 \<Rightarrow> emitter \<Rightarrow> emitter option) option" where
  "immediate_alu type instr =
     (if type = 8 \<or> type = 9 then
        Some (if rs_of instr = 0 then immediate_op (simm instr) else two_reg_imm_op load_mips_register_noext Add (simm instr))
      else if type = 10 then Some (two_reg_imm_op load_mips_register_sext Lt (simm instr))
      else if type = 11 then Some (two_reg_imm_op load_mips_register_sext Lt_u (simm instr))
      else if type = 12 then Some (two_reg_imm_op load_mips_register_noext And (uimm instr))
      else if type = 13 then
        Some (if rs_of instr = 0 then immediate_op (uimm instr) else two_reg_imm_op load_mips_register_noext Or (uimm instr))
      else if type = 14 then Some (two_reg_imm_op load_mips_register_noext Xor (uimm instr))
      else if type = 15 then Some (immediate_op (scast (push_bit 16 (scast (ucast instr :: u16)) :: u32)))
      else None)"

section \<open>Loads and stores\<close>

definition jit_emit_store_operation :: "width \<Rightarrow> callee option \<Rightarrow> u32 \<Rightarrow> nat \<Rightarrow> u32 \<Rightarrow> emitter \<Rightarrow> emitter option" where
  "jit_emit_store_operation w rsp_unaligned_op endian_flip R instr em =
     (let align_mask = 3 - endian_flip; rt = rt_of instr; rs = rs_of instr
      in do {
        (rt_reg, em) \<leftarrow> load_mips_register_noext R rt em;
        (rs_reg, em) \<leftarrow> load_mips_register_noext R rs em;
        (rs_tmp_reg, em) \<leftarrow> modify_mips_register R SCRATCH_REGISTER0 em;
        let em = emit (jit_i Add rs_tmp_reg rs_reg (simm instr)) em;
        let em = emit (jit_i And rs_tmp_reg rs_tmp_reg 0xfff) em;
        let flip = (\<lambda>em. if endian_flip \<noteq> 0 then emit (jit_i Xor rs_tmp_reg rs_tmp_reg (ucast endian_flip)) em else em);
        if align_mask \<noteq> 0 then do {
          em \<leftarrow> unlock_all [rt, rs, SCRATCH_REGISTER0] em;
          em \<leftarrow> flush_caller_save_registers R em;
          let (unaligned, em) = emit_node (jit_bmsi rs_tmp_reg (ucast align_mask)) em;
          let em = emit (jit_stxr w rs_tmp_reg rt_reg) (flip em);
          let (aligned, em) = emit_node jit_jmpi em;
          let em = emit (jit_patch unaligned) em;
          let em = emit (jit_finishi (the rsp_unaligned_op) [rs_tmp_reg, rt_reg]) em;
          Some (emit (jit_patch aligned) em)
        }
        else unlock_all [rt, rs, SCRATCH_REGISTER0] (emit (jit_stxr w rs_tmp_reg rt_reg) (flip em))
      })"

definition jit_emit_load_operation :: "width \<Rightarrow> callee option \<Rightarrow> u32 \<Rightarrow> nat \<Rightarrow> u32 \<Rightarrow> emitter \<Rightarrow> emitter option" where
  "jit_emit_load_operation w rsp_unaligned_op endian_flip R instr em =
     (let align_mask = endian_flip XOR 3; rt = rt_of instr; rs = rs_of instr
      in if rt = 0 then Some em else do {
        (rs_reg, em) \<leftarrow> load_mips_register_noext R rs em;
        (rs_tmp_reg, em) \<leftarrow> modify_mips_register R SCRATCH_REGISTER0 em;
        let em = emit (jit_i Add rs_tmp_reg rs_reg (simm instr)) em;
        let em = emit (jit_i And rs_tmp_reg rs_tmp_reg 0xfff) em;
        (ret_reg, em) \<leftarrow> modify_mips_register R SCRATCH_REGISTER1 em;
        let flip = (\<lambda>em. if endian_flip \<noteq> 0 then emit (jit_i Xor rs_tmp_reg rs_tmp_reg (ucast endian_flip)) em else em);
        em \<leftarrow>
          (if align_mask \<noteq> 0 then do {
             em \<leftarrow> unlock_all [rs, SCRATCH_REGISTER0, SCRATCH_REGISTER1] em;
             em \<leftarrow> flush_caller_save_registers R em;
             let (unaligned, em) = emit_node (jit_bmsi rs_tmp_reg (ucast align_mask)) em;
             let em = emit (jit_ldxr w ret_reg rs_tmp_reg) (flip em);
             let (aligned, em) = emit_node jit_jmpi em;
             let em = emit (jit_patch unaligned) em;
             let em = emit (jit_finishi (the rsp_unaligned_op) [rs_tmp_reg]) em;
             let em = emit (jit_retval ret_reg) em;
             Some (emit (jit_patch aligned) em)
           }
           else unlock_all [rs, SCRATCH_REGISTER0, SCRATCH_REGISTER1] (emit (jit_ldxr w ret_reg rs_tmp_reg) (flip em)));
        (rt_reg, em) \<leftarrow> modify_mips_register R rt em;
        unlock_mips_register rt (emit (jit_movr rt_reg ret_reg) em)
      })"

definition memory_op :: "nat \<Rightarrow> (nat \<Rightarrow> u32 \<Rightarrow> emitter \<Rightarrow> emitter option) option" where
  "memory_op type =
     (if type = 32 then Some (jit_emit_load_operation w_c None 3)
      else if type = 33 then Some (jit_emit_load_operation w_s (Some rsp_unaligned_lh) 2)
      else if type = 35 \<or> type = 39 then Some (jit_emit_load_operation w_i (Some rsp_unaligned_lw) 0)
      else if type = 36 then Some (jit_emit_load_operation w_uc None 3)
      else if type = 37 then Some (jit_emit_load_operation w_us (Some rsp_unaligned_lhu) 2)
      else if type = 40 then Some (jit_emit_store_operation w_c None 3)
      else if type = 41 then Some (jit_emit_store_operation w_s (Some rsp_unaligned_sh) 2)
      else if type = 43 then Some (jit_emit_store_operation w_i (Some rsp_unaligned_sw) 0)
      else None)"

section \<open>Leaving a block\<close>

definition exit_pc :: "u32 \<Rightarrow> u64" where
  "exit_pc pc' = ucast ((pc' + 4) AND 0xffc)"

definition jit_exit_dynamic :: "u32 \<Rightarrow> InstructionInfo \<Rightarrow> bool \<Rightarrow> emitter \<Rightarrow> emitter" where
  "jit_exit_dynamic pc' last_info first_instruction em =
     (let em =
        (if first_instruction then
           let em = emit (jit_ldxi_i JIT_REGISTER_NEXT_PC F_has_delay_slot) em;
               (latent_delay_slot, em) = emit_node (jit_bnei JIT_REGISTER_NEXT_PC 0) em;
               em = emit (jit_movi JIT_REGISTER_NEXT_PC (exit_pc pc')) em;
               em = emit (jit_patch_abs return_thunk) em;
               em = emit (jit_patch latent_delay_slot) em;
               em = emit (jit_movi JIT_REGISTER_NEXT_PC 0) em;
               em = emit (jit_stxi_i F_has_delay_slot JIT_REGISTER_NEXT_PC) em
           in emit (jit_ldxi_i JIT_REGISTER_NEXT_PC F_branch_target) em
         else if \<not> branch last_info then emit (jit_movi JIT_REGISTER_NEXT_PC (exit_pc pc')) em
         else if \<not> indirect last_info \<and> \<not> conditional last_info then
           emit (jit_movi JIT_REGISTER_NEXT_PC (ucast (info_branch_target last_info))) em
         else if \<not> conditional last_info then emit (jit_movr JIT_REGISTER_NEXT_PC JIT_REGISTER_INDIRECT_PC) em
         else
           let em = emit (jit_ldxi_i JIT_REGISTER_NEXT_PC (F_sr COND_BRANCH_TAKEN)) em;
               (node, em) = emit_node (jit_beqi JIT_REGISTER_NEXT_PC 0) em;
               em = (if indirect last_info then emit (jit_movr JIT_REGISTER_NEXT_PC JIT_REGISTER_INDIRECT_PC) em
                     else emit (jit_movi JIT_REGISTER_NEXT_PC (ucast (info_branch_target last_info))) em);
               (to_end, em) = emit_node jit_jmpi em;
               em = emit (jit_patch node) em;
               em = emit (jit_movi JIT_REGISTER_NEXT_PC (exit_pc pc')) em
           in emit (jit_patch to_end) em)
      in emit (jit_patch_abs return_thunk) em)"

definition jit_exit :: "nat \<Rightarrow> u32 \<Rightarrow> InstructionInfo \<Rightarrow> ReturnMode \<Rightarrow> bool \<Rightarrow> emitter \<Rightarrow> emitter option" where
  "jit_exit R pc' last_info mode first_instruction em = do {
     em \<leftarrow> flush_register_window R em;
     let em = emit (jit_movi JIT_REGISTER_MODE (mode_word mode)) em;
     Some (jit_exit_dynamic pc' last_info first_instruction em)
   }"

section \<open>Branches\<close>

definition jit_save_indirect_register :: "nat \<Rightarrow> nat \<Rightarrow> emitter \<Rightarrow> emitter option" where
  "jit_save_indirect_register R mips_reg em = do {
     (jit_reg, em) \<leftarrow> load_mips_register_noext R mips_reg em;
     unlock_mips_register mips_reg (emit (jit_movr JIT_REGISTER_INDIRECT_PC jit_reg) em)
   }"

definition jit_save_illegal_indirect_register :: "emitter \<Rightarrow> emitter" where
  "jit_save_illegal_indirect_register em = emit (jit_stxi_frame 3 JIT_REGISTER_INDIRECT_PC) em"

definition jit_save_illegal_cond_branch_taken :: "nat \<Rightarrow> emitter \<Rightarrow> emitter option" where
  "jit_save_illegal_cond_branch_taken R em = do {
     (cond_reg, em) \<leftarrow> load_mips_register_noext R COND_BRANCH_TAKEN em;
     unlock_mips_register COND_BRANCH_TAKEN (emit (jit_stxi_frame 1 cond_reg) em)
   }"

definition flush_impossible_delay_slot :: "nat \<Rightarrow> InstructionInfo \<Rightarrow> emitter \<Rightarrow> emitter option" where
  "flush_impossible_delay_slot R last_info em = do {
     em \<leftarrow> (if branch last_info \<and> conditional last_info then jit_save_illegal_cond_branch_taken R em else Some em);
     Some (if branch last_info \<and> indirect last_info then jit_save_illegal_indirect_register em else em)
   }"

text \<open>Somebody may branch to the delay slot of an unconditional branch: it becomes a conditional one.\<close>

definition static_branch :: "nat \<Rightarrow> bool \<Rightarrow> InstructionInfo \<Rightarrow> emitter \<Rightarrow> (InstructionInfo \<times> emitter) option" where
  "static_branch R next_instruction_is_branch_target info em = do {
     (_, em) \<leftarrow> immediate_mips_register R COND_BRANCH_TAKEN (if next_instruction_is_branch_target then 1 else 0) em;
     em \<leftarrow> unlock_mips_register COND_BRANCH_TAKEN em;
     Some (info\<lparr>conditional := next_instruction_is_branch_target\<rparr>, em)
   }"

definition link_register :: "nat \<Rightarrow> u32 \<Rightarrow> nat \<Rightarrow> emitter \<Rightarrow> emitter option" where
  "link_register R pc' r em = do {
     (_, em) \<leftarrow> immediate_mips_register R r (ucast ((pc' + 8) AND 0xffc)) em;
     unlock_mips_register r em
   }"

definition branch_zero :: "alu \<Rightarrow> nat \<Rightarrow> u32 \<Rightarrow> emitter \<Rightarrow> emitter option" where
  "branch_zero f R instr em = (let rs = rs_of instr in do {
     (rs_reg, em) \<leftarrow> load_mips_register_sext R rs em;
     (cond_reg, em) \<leftarrow> modify_mips_register R COND_BRANCH_TAKEN em;
     unlock_all [rs, COND_BRANCH_TAKEN] (emit (jit_i f cond_reg rs_reg 0) em)
   })"

definition branch_compare :: "alu \<Rightarrow> nat \<Rightarrow> u32 \<Rightarrow> emitter \<Rightarrow> emitter option" where
  "branch_compare f R instr em = (let rs = rs_of instr; rt = rt_of instr in do {
     (rs_reg, em) \<leftarrow> load_mips_register_sext R rs em;
     (rt_reg, em) \<leftarrow> load_mips_register_sext R rt em;
     (cond_reg, em) \<leftarrow> modify_mips_register R COND_BRANCH_TAKEN em;
     unlock_all [rs, rt, COND_BRANCH_TAKEN] (emit (jit_r f cond_reg rs_reg rt_reg) em)
   })"

definition relative_target :: "u32 \<Rightarrow> u32 \<Rightarrow> u32" where
  "relative_target pc' instr = (pc' + 4 + push_bit 2 instr) AND 0xffc"

definition absolute_target :: "u32 \<Rightarrow> u32" where
  "absolute_target instr = push_bit 2 (instr AND 0x3ff)"

definition taken_to :: "u32 \<Rightarrow> bool \<Rightarrow> InstructionInfo" where
  "taken_to target cond = no_info\<lparr>info_branch_target := target, branch := True, conditional := cond\<rparr>"

definition jit_branch :: "nat \<Rightarrow> u32 \<Rightarrow> u32 \<Rightarrow> InstructionInfo \<Rightarrow> bool \<Rightarrow> emitter \<Rightarrow> (InstructionInfo \<times> emitter) option" where
  "jit_branch R pc' instr last_info next_target em =
     (let type = unat (drop_bit 26 instr); funct = unat (instr AND 63); rs = rs_of instr; rt = rt_of instr; rd = rd_of instr;
          conditional_branch = (\<lambda>x. map_option (\<lambda>em. (taken_to (relative_target pc' instr) True, em)) x)
      in if type = 0 \<and> funct = 8 then do {
           em \<leftarrow> flush_impossible_delay_slot R last_info em;
           em \<leftarrow> jit_save_indirect_register R rs em;
           static_branch R next_target (no_info\<lparr>branch := True, indirect := True\<rparr>) em
         }
         else if type = 0 \<and> funct = 9 then do {
           em \<leftarrow> flush_impossible_delay_slot R last_info em;
           em \<leftarrow> jit_save_indirect_register R rs em;
           em \<leftarrow> (if rd \<noteq> 0 then link_register R pc' rd em else Some em);
           static_branch R next_target (no_info\<lparr>branch := True, indirect := True\<rparr>) em
         }
         else if type = 1 \<and> (rt = 16 \<or> rt = 0 \<or> rt = 17 \<or> rt = 1) then conditional_branch (do {
           em \<leftarrow> flush_impossible_delay_slot R last_info em;
           em \<leftarrow> branch_zero (if rt = 16 \<or> rt = 0 then Lt else Ge) R instr em;
           if rt = 16 \<or> rt = 17 then link_register R pc' 31 em else Some em
         })
         else if type = 3 then do {
           em \<leftarrow> flush_impossible_delay_slot R last_info em;
           (_, em) \<leftarrow> immediate_mips_register R 31 (ucast ((pc' + 8) AND 0xffc)) em;
           (_, em) \<leftarrow> immediate_mips_register R COND_BRANCH_TAKEN (if next_target then 1 else 0) em;
           em \<leftarrow> unlock_all [31, COND_BRANCH_TAKEN] em;
           Some (taken_to (absolute_target instr) next_target, em)
         }
         else if type = 2 then do {
           em \<leftarrow> flush_impossible_delay_slot R last_info em;
           static_branch R next_target (taken_to (absolute_target instr) False) em
         }
         else if type = 4 then conditional_branch (flush_impossible_delay_slot R last_info em \<bind> branch_compare Eq R instr)
         else if type = 5 then conditional_branch (flush_impossible_delay_slot R last_info em \<bind> branch_compare Ne R instr)
         else if type = 6 then do {
           em \<leftarrow> flush_impossible_delay_slot R last_info em;
           em \<leftarrow> (if rs \<noteq> 0 then branch_zero Le R instr em else Some em);
           Some (taken_to (relative_target pc' instr) (rs \<noteq> 0), em)
         }
         else if type = 7 then do {
           em \<leftarrow> flush_impossible_delay_slot R last_info em;
           if rs = 0 then Some (no_info, em)
           else conditional_branch (branch_zero Gt R instr em)
         }
         else Some (no_info, em))"

section \<open>Instructions that call a handler\<close>

definition pack_cp :: "nat \<Rightarrow> nat \<Rightarrow> nat \<Rightarrow> u32" where
  "pack_cp rt rd e = word_of_nat (rt mod 256) OR push_bit 8 (word_of_nat (rd mod 256)) OR push_bit 16 (word_of_nat (e mod 65536))"

definition pack_ls :: "u16 \<Rightarrow> nat \<Rightarrow> nat \<Rightarrow> u32" where
  "pack_ls offset rt base = ucast offset OR push_bit 16 (word_of_nat (rt mod 256)) OR push_bit 24 (word_of_nat (base mod 256))"

definition lwc2_ops :: "ls_handler option list" where
  "lwc2_ops = [Some RSP_LBV, Some RSP_LSV, Some RSP_LLV, Some RSP_LDV, Some RSP_LQV, Some RSP_LRV, Some RSP_LPV, Some RSP_LUV,
     Some RSP_LHV, Some RSP_LFV, None, Some RSP_LTV] @ replicate 20 None"

definition swc2_ops :: "ls_handler option list" where
  "swc2_ops = [Some RSP_SBV, Some RSP_SSV, Some RSP_SLV, Some RSP_SDV, Some RSP_SQV, Some RSP_SRV, Some RSP_SPV, Some RSP_SUV,
     Some RSP_SHV, Some RSP_SFV, Some RSP_SWV, Some RSP_STV] @ replicate 20 None"

definition ls_offset :: "u32 \<Rightarrow> u16" where
  "ls_offset instr = signed_drop_bit 9 (push_bit 9 (ucast instr))"

definition jit_vector_memory :: "ls_handler option list \<Rightarrow> target \<Rightarrow> nat \<Rightarrow> u32 \<Rightarrow> emitter \<Rightarrow> emitter option" where
  "jit_vector_memory ops t R instr em =
     (let rt = rt_of instr; rs = rs_of instr; rd = rd_of instr; imm = unat (drop_bit 7 instr AND 15);
          pack = pack_ls (ls_offset instr) rt rs
      in case ops ! rd of None \<Rightarrow> Some em | Some op' \<Rightarrow> do {
           em \<leftarrow> flush_caller_save_registers R em;
           em \<leftarrow> flush_mips_register R rs em;
           Some (emit (jit_finishi (Handler (run_packed_ls op' t imm) pack) []) em)
         })"

definition jit_vector_op :: "target \<Rightarrow> nat \<Rightarrow> u32 \<Rightarrow> emitter \<Rightarrow> emitter option" where
  "jit_vector_op t R instr em =
     (let packed = pack_vu (shift_of instr) (rd_of instr) (rt_of instr); e = unat (drop_bit 21 instr AND 15)
      in do {
        em \<leftarrow> flush_caller_save_registers R em;
        Some (emit (jit_finishi (Handler (run_packed_vu (vu_handler_of instr) t e) packed) []) em)
      })"

definition jit_cop2 :: "nat \<Rightarrow> u32 \<Rightarrow> emitter \<Rightarrow> emitter option" where
  "jit_cop2 R instr em =
     (let rt = rt_of instr; rd = rd_of instr; rs = rs_of instr; imm = unat (drop_bit 7 instr AND 15);
          packed = pack_cp rt rd imm;
          go = (\<lambda>g. do {
            em \<leftarrow> flush_caller_save_registers R em;
            em \<leftarrow> flush_mips_register R rt em;
            Some (emit (jit_finishi (Handler (run_packed_cp2 g) packed) []) em)
          })
      in if rs = 0 then go RSP_MFC2
         else if rs = 2 then go (\<lambda>s rt rd e. RSP_CFC2 s rt rd)
         else if rs = 4 then go RSP_MTC2
         else if rs = 6 then go (\<lambda>s rt rd e. RSP_CTC2 s rt rd)
         else Some em)"

definition jit_cop0 :: "(CPUState \<Rightarrow> CPUState) \<Rightarrow> nat \<Rightarrow> u32 \<Rightarrow> u32 \<Rightarrow> InstructionInfo \<Rightarrow> bool \<Rightarrow> emitter \<Rightarrow> emitter option" where
  "jit_cop0 rdp R pc' instr last_info first_instruction em =
     (let rt = rt_of instr; rd = rd_of instr; rs = rs_of instr; packed = pack_cp rt rd 0;
          go = (\<lambda>g. do {
            em \<leftarrow> flush_register_window R em;
            let em = emit (jit_finishi (Cp0_handler g packed) []) em;
            let em = emit (jit_retval JIT_REGISTER_MODE) em;
            let (noexit, em) = emit_node (jit_beqi JIT_REGISTER_MODE (mode_word MODE_CONTINUE)) em;
            let em = jit_exit_dynamic pc' last_info first_instruction em;
            Some (emit (jit_patch noexit) em)
          })
      in if rs = 0 then go run_packed_mfc0
         else if rs = 4 then go (\<lambda>gl s v. case run_packed_mtc0 rdp gl s v of (s, mode) \<Rightarrow> (gl, s, mode))
         else Some em)"

section \<open>One instruction\<close>

definition jit_instruction :: "target \<Rightarrow> (CPUState \<Rightarrow> CPUState) \<Rightarrow> nat \<Rightarrow> u32 \<Rightarrow> u32 \<Rightarrow> InstructionInfo \<Rightarrow> bool \<Rightarrow> bool \<Rightarrow> emitter \<Rightarrow>
    (InstructionInfo \<times> emitter) option" where
  "jit_instruction t rdp R pc' instr last_info first_instruction next_target em =
     (let type = unat (drop_bit 26 instr); funct = unat (instr AND 63); plain_op = map_option (\<lambda>em. (no_info, em))
      in if is_vu_instruction instr then plain_op (jit_vector_op t R instr em)
         else if type = 0 \<and> funct = 13 then
           map_option (\<lambda>em. (no_info\<lparr>handles_delay_slot := True\<rparr>, em)) (jit_exit R pc' last_info MODE_BREAK first_instruction em)
         else if type = 0 \<and> special_alu funct \<noteq> None then plain_op (the (special_alu funct) R instr em)
         else if immediate_alu type instr \<noteq> None then plain_op (the (immediate_alu type instr) R instr em)
         else if type = 16 then plain_op (jit_cop0 rdp R pc' instr last_info first_instruction em)
         else if type = 18 then plain_op (jit_cop2 R instr em)
         else if memory_op type \<noteq> None then plain_op (the (memory_op type) R instr em)
         else if type = 50 then plain_op (jit_vector_memory lwc2_ops t R instr em)
         else if type = 58 then plain_op (jit_vector_memory swc2_ops t R instr em)
         else jit_branch R pc' instr last_info next_target em)"

end
