(* ===== verification/Jit_Region.thy ===== *)
theory Jit_Region
  imports Jit_Emit
begin

unbundle bit_operations_syntax

text \<open>
  The compiler for a region of code (\<open>CPU::jit_region\<close> of \<open>rsp_jit.cpp\<close>): labels where branches of the region lead, the code that
  resolves branches after their delay slots, the end of the region, and a delay slot left over from the region before. Local branches are
  not patched in the code; the pairs of a branch and the instruction it leads to are kept, and running a region looks them up.
\<close>

section \<open>Ends of regions and delay slots\<close>

definition jit_load_cond :: "nat \<Rightarrow> emitter \<Rightarrow> (jit_register \<times> emitter) option" where
  "jit_load_cond R em = do {
     (cond_reg, em) \<leftarrow> load_mips_register_noext R COND_BRANCH_TAKEN em;
     em \<leftarrow> unlock_mips_register COND_BRANCH_TAKEN em;
     Some (cond_reg, em)
   }"

definition jit_clear_illegal_cond_branch_taken :: "jit_register \<Rightarrow> emitter \<Rightarrow> emitter" where
  "jit_clear_illegal_cond_branch_taken tmp_reg em = emit (jit_stxi_frame 1 tmp_reg) (emit (jit_movi tmp_reg 0) em)"

text \<open>Where a branch leads: the saved indirect target or a constant.\<close>

definition jit_move_target :: "InstructionInfo \<Rightarrow> jit_register \<Rightarrow> emitter \<Rightarrow> emitter" where
  "jit_move_target info r em =
     (if indirect info then emit (jit_movr r JIT_REGISTER_INDIRECT_PC) em else emit (jit_movi r (ucast (info_branch_target info))) em)"

definition jit_end_of_block :: "nat \<Rightarrow> u32 \<Rightarrow> InstructionInfo \<Rightarrow> emitter \<Rightarrow> emitter option" where
  "jit_end_of_block R pc' last_info em = do {
     (cond_branch_reg, em) \<leftarrow> (if branch last_info \<and> conditional last_info then jit_load_cond R em else Some (JIT_R 0, em));
     (scratch_reg, em) \<leftarrow> modify_mips_register R SCRATCH_REGISTER0 em;
     em \<leftarrow> unlock_mips_register SCRATCH_REGISTER0 em;
     em \<leftarrow> flush_register_window R em;
     let move = (\<lambda>em.
       let em = jit_move_target last_info scratch_reg em;
           em = emit (jit_stxi_i F_branch_target scratch_reg) em;
           em = emit (jit_movi scratch_reg 1) em
       in emit (jit_stxi_i F_has_delay_slot scratch_reg) em);
     let em = (if branch last_info then
         if conditional last_info then
           let (forward, em) = emit_node (jit_beqi cond_branch_reg 0) em
           in emit (jit_patch forward) (move em)
         else move em
       else em);
     let em = emit (jit_movi JIT_REGISTER_NEXT_PC (ucast pc')) em;
     Some (emit (jit_patch_abs enter_thunk) em)
   }"

definition jit_handle_impossible_delay_slot :: "nat \<Rightarrow> InstructionInfo \<Rightarrow> InstructionInfo \<Rightarrow> emitter \<Rightarrow> emitter option" where
  "jit_handle_impossible_delay_slot R info last_info em = do {
     (cond_branch_reg, em) \<leftarrow> load_mips_register_noext R COND_BRANCH_TAKEN em;
     (scratch_reg, em) \<leftarrow> modify_mips_register R SCRATCH_REGISTER0 em;
     (illegal_cond_reg, em) \<leftarrow> modify_mips_register R SCRATCH_REGISTER1 em;
     em \<leftarrow> unlock_all [COND_BRANCH_TAKEN, SCRATCH_REGISTER0, SCRATCH_REGISTER1] em;
     em \<leftarrow> flush_register_window R em;
     let (nobranch, em) =
       (if conditional last_info then
          let em = emit (jit_ldxi_frame illegal_cond_reg 1) em;
              em = jit_clear_illegal_cond_branch_taken scratch_reg em
          in emit_node (jit_beqi illegal_cond_reg 0) em
        else (0, jit_clear_illegal_cond_branch_taken cond_branch_reg em));
     let em = (if \<not> conditional info then emit (jit_movi cond_branch_reg 1) em else em);
     let em = emit (jit_stxi_i F_has_delay_slot cond_branch_reg) em;
     let em = jit_move_target info cond_branch_reg em;
     let em = emit (jit_stxi_i F_branch_target cond_branch_reg) em;
     let em = (if indirect last_info then emit (jit_ldxi_frame JIT_REGISTER_NEXT_PC 3) em
               else emit (jit_movi JIT_REGISTER_NEXT_PC (ucast (info_branch_target last_info))) em);
     let em = emit (jit_patch_abs enter_thunk) em;
     Some (if conditional last_info then emit (jit_patch nobranch) em else em)
   }"

text \<open>A branch to an instruction of the region, to be looked up when the code runs.\<close>

definition local_branch :: "(nat \<Rightarrow> jit_op) \<Rightarrow> nat \<Rightarrow> emitter \<Rightarrow> emitter" where
  "local_branch f local_index em =
     (let (node, em) = emit_node f em in em\<lparr>local_branches := local_branches em @ [(node, local_index)]\<rparr>)"

definition jit_handle_delay_slot :: "nat \<Rightarrow> InstructionInfo \<Rightarrow> u32 \<Rightarrow> u32 \<Rightarrow> emitter \<Rightarrow> emitter option" where
  "jit_handle_delay_slot R last_info base_pc end_pc em = do {
     (scratch_cond_reg, em) \<leftarrow>
       (if conditional last_info then do {
          (_, em) \<leftarrow> load_mips_register_noext R COND_BRANCH_TAKEN em;
          (cond_branch_reg, em) \<leftarrow> modify_mips_register R COND_BRANCH_TAKEN em;
          (scratch_cond_reg, em) \<leftarrow> modify_mips_register R SCRATCH_REGISTER0 em;
          let em = emit (jit_movr scratch_cond_reg cond_branch_reg) em;
          let em = emit (jit_movi cond_branch_reg 0) em;
          em \<leftarrow> unlock_all [COND_BRANCH_TAKEN, COND_BRANCH_TAKEN, SCRATCH_REGISTER0] em;
          Some (scratch_cond_reg, em)
        }
        else do {
          (cond_branch_reg, em) \<leftarrow> modify_mips_register R COND_BRANCH_TAKEN em;
          let em = emit (jit_movi cond_branch_reg 0) em;
          em \<leftarrow> unlock_mips_register COND_BRANCH_TAKEN em;
          Some (JIT_R 0, em)
        });
     em \<leftarrow> flush_register_window R em;
     let inside = (\<not> indirect last_info \<and> info_branch_target last_info \<ge> base_pc \<and> info_branch_target last_info < end_pc);
     let local_index = unat (drop_bit 2 (info_branch_target last_info - base_pc));
     let leave = (\<lambda>em. emit (jit_patch_abs enter_thunk) (jit_move_target last_info JIT_REGISTER_NEXT_PC em));
     Some (if conditional last_info then
         if inside then local_branch (jit_bnei scratch_cond_reg 0) local_index em
         else let (no_branch, em) = emit_node (jit_beqi scratch_cond_reg 0) em in emit (jit_patch no_branch) (leave em)
       else if inside then local_branch jit_jmpi local_index em else leave em)
   }"

definition jit_handle_latent_delay_slot :: "nat \<Rightarrow> InstructionInfo \<Rightarrow> emitter \<Rightarrow> emitter option" where
  "jit_handle_latent_delay_slot R last_info em = do {
     (cond_branch_reg, em) \<leftarrow>
       (if branch last_info \<and> conditional last_info then jit_load_cond R em else Some (JIT_REGISTER_NEXT_PC, em));
     em \<leftarrow> flush_register_window R em;
     Some (if branch last_info then
         let em = (if \<not> conditional last_info then emit (jit_movi cond_branch_reg 1) em else em);
             em = emit (jit_stxi_i F_has_delay_slot cond_branch_reg) em;
             em = emit (jit_ldxi_i JIT_REGISTER_NEXT_PC F_branch_target) em;
             em = jit_move_target last_info JIT_REGISTER_MODE em;
             em = emit (jit_stxi_i F_branch_target JIT_REGISTER_MODE) em
         in emit (jit_patch_abs enter_thunk) em
       else
         let em = emit (jit_movi JIT_REGISTER_NEXT_PC 0) em;
             em = emit (jit_stxi_i F_has_delay_slot JIT_REGISTER_NEXT_PC) em;
             em = emit (jit_ldxi_i JIT_REGISTER_NEXT_PC F_branch_target) em
         in emit (jit_patch_abs enter_thunk) em)
   }"

section \<open>Regions\<close>

text \<open>The instructions of the region \<open>[pc_word, end)\<close> that some direct branch of it leads to.\<close>

definition branch_word :: "u32 \<Rightarrow> nat \<Rightarrow> u32 option" where
  "branch_word instr index =
     (let type = unat (drop_bit 26 instr); rt = rt_of instr; relative = (word_of_nat index + 1 + instr) AND 0x3ff
      in if is_vu_instruction instr then None
         else if type = 1 then (if rt = 0 \<or> rt = 1 \<or> rt = 17 \<or> rt = 16 then Some relative else None)
         else if type = 2 \<or> type = 3 then Some (instr AND 0x3ff)
         else if type = 4 \<or> type = 5 \<or> type = 6 \<or> type = 7 then Some relative
         else None)"

definition jit_mark_block_entries :: "(nat \<Rightarrow> u32) \<Rightarrow> nat \<Rightarrow> nat \<Rightarrow> bool list" where
  "jit_mark_block_entries mem pc' end' =
     fold (\<lambda>i block_entries. case branch_word (mem (pc' + i)) (pc' + i) of None \<Rightarrow> block_entries
         | Some target \<Rightarrow> if pc' \<le> unat target \<and> unat target < end' then block_entries[unat target - pc' := True] else block_entries)
       [0..<end' - pc'] (replicate (end' - pc') False)"

record region_state =
  reg_em :: emitter
  last_info :: InstructionInfo
  first_info :: InstructionInfo
  latent_delay_slot :: "nat option"

definition enter_block :: "nat \<Rightarrow> bool \<Rightarrow> nat \<Rightarrow> emitter \<Rightarrow> emitter option" where
  "enter_block R entry i em =
     (if entry then do {
        em \<leftarrow> flush_register_window R em;
        Some (emit (jit_label i) (reset em))
      } else Some em)"

text \<open>Branches pending after instruction \<open>i\<close>: a latent one from outside, two in a row, or the normal case.\<close>

definition resolve_branches :: "nat \<Rightarrow> nat \<Rightarrow> nat \<Rightarrow> nat \<Rightarrow> InstructionInfo \<Rightarrow> region_state \<Rightarrow> region_state option" where
  "resolve_branches R pc_word instruction_count i inst_info st =
     (let em = reg_em st; base = word_of_nat (pc_word * 4); end' = word_of_nat ((pc_word + instruction_count) * 4)
      in if i = 0 \<and> \<not> handles_delay_slot inst_info then do {
           (scratch_reg, em) \<leftarrow> modify_mips_register R SCRATCH_REGISTER0 em;
           let em = emit (jit_ldxi_i scratch_reg F_has_delay_slot) em;
           em \<leftarrow> unlock_mips_register SCRATCH_REGISTER0 em;
           em \<leftarrow> flush_register_window R em;
           let (node, em) = emit_node (jit_bnei scratch_reg 0) em;
           Some (st\<lparr>reg_em := em, first_info := inst_info, latent_delay_slot := Some node\<rparr>)
         }
         else if branch inst_info \<and> branch (last_info st) then do {
           em \<leftarrow> jit_handle_impossible_delay_slot R inst_info (last_info st) em;
           Some (st\<lparr>reg_em := em\<rparr>)
         }
         else if \<not> handles_delay_slot inst_info \<and> branch (last_info st) then do {
           em \<leftarrow> jit_handle_delay_slot R (last_info st) base end' em;
           Some (st\<lparr>reg_em := em\<rparr>)
         }
         else Some st)"

definition region_step :: "target \<Rightarrow> (CPUState \<Rightarrow> CPUState) \<Rightarrow> nat \<Rightarrow> (nat \<Rightarrow> u32) \<Rightarrow> nat \<Rightarrow> nat \<Rightarrow> bool list \<Rightarrow> nat \<Rightarrow>
    region_state \<Rightarrow> region_state option" where
  "region_step t rdp R mem pc_word instruction_count block_entry i st = do {
     em \<leftarrow> enter_block R (block_entry ! i) i (reg_em st);
     (inst_info, em) \<leftarrow> jit_instruction t rdp R (word_of_nat ((pc_word + i) * 4)) (mem (pc_word + i)) (last_info st) (i = 0)
       (i + 1 < instruction_count \<and> block_entry ! (i + 1)) em;
     st \<leftarrow> resolve_branches R pc_word instruction_count i inst_info (st\<lparr>reg_em := em\<rparr>);
     Some (st\<lparr>last_info := inst_info\<rparr>)
   }"

fun region_steps :: "target \<Rightarrow> (CPUState \<Rightarrow> CPUState) \<Rightarrow> nat \<Rightarrow> (nat \<Rightarrow> u32) \<Rightarrow> nat \<Rightarrow> nat \<Rightarrow> bool list \<Rightarrow> nat list \<Rightarrow>
    region_state \<Rightarrow> region_state option" where
  "region_steps t rdp R mem pc_word n entry [] st = Some st"
| "region_steps t rdp R mem pc_word n entry (i # is) st =
     region_step t rdp R mem pc_word n entry i st \<bind> region_steps t rdp R mem pc_word n entry is"

definition jit_region :: "target \<Rightarrow> (CPUState \<Rightarrow> CPUState) \<Rightarrow> nat \<Rightarrow> (nat \<Rightarrow> u32) \<Rightarrow> nat \<Rightarrow> nat \<Rightarrow> emitter \<Rightarrow> emitter option" where
  "jit_region t rdp R mem pc_word instruction_count em = do {
     let em = (reset em)\<lparr>code := [], nodes := 0, local_branches := []\<rparr>;
     assert_that (instruction_count \<le> 128);
     let block_entry = jit_mark_block_entries mem pc_word (pc_word + instruction_count);
     st \<leftarrow> region_steps t rdp R mem pc_word instruction_count block_entry [0..<instruction_count]
       \<lparr>reg_em = em, last_info = no_info, first_info = no_info, latent_delay_slot = None\<rparr>;
     em \<leftarrow> flush_register_window R (reg_em st);
     em \<leftarrow> jit_end_of_block R (word_of_nat ((pc_word + instruction_count) * 4)) (last_info st) em;
     (case latent_delay_slot st of None \<Rightarrow> Some em
      | Some node \<Rightarrow> jit_handle_latent_delay_slot R (first_info st) (emit (jit_patch node) em))
   }"

section \<open>Running a region\<close>

text \<open>The code after a label.\<close>

definition from_label :: "nat \<Rightarrow> jit_op list \<Rightarrow> jit_op list" where
  "from_label i ops = tl (dropWhile (\<lambda>x. x \<noteq> jit_label i) ops)"

text \<open>A local branch continues at the label of the instruction it was recorded for. The loop may not end.\<close>

partial_function (option) run_code :: "clobber \<Rightarrow> emitter \<Rightarrow> jit_op list \<Rightarrow> host \<Rightarrow> (thunk \<times> host) option" where
  "run_code cl em ops h =
     (case exec cl ops h of
        Jumps t h' \<Rightarrow> Some (t, h')
      | Falls h' \<Rightarrow> None
      | Branches n h' \<Rightarrow> (case map_of (local_branches em) n of None \<Rightarrow> None | Some i \<Rightarrow> run_code cl em (from_label i (code em)) h'))"

definition run_region :: "clobber \<Rightarrow> emitter \<Rightarrow> host \<Rightarrow> (thunk \<times> host) option" where
  "run_region cl em h = run_code cl em (code em) h"

end
