(* ===== verification/Jit_Alu.thy ===== *)
theory Jit_Alu
  imports Jit_Emit "HOL-Library.Multiset"
begin

unbundle bit_operations_syntax

text \<open>
  Correctness of the code emitted for computing instructions: what running it does to the represented processor state is what the
  processor's manual says, for every content and eviction state of the register cache. The three loads of the cache share the contract
  \<open>emitter_load\<close>, in which the emitters are proved once for any load.
\<close>

section \<open>Emitting arithmetic\<close>

text \<open>Equal processor states but for the two scratch registers, which only exist in the cache.\<close>

definition agrees :: "CPUState \<Rightarrow> CPUState \<Rightarrow> bool" where
  "agrees s s' \<longleftrightarrow> (\<forall>r\<le>32. sr s' r = sr s r) \<and> s\<lparr>sr := sr s'\<rparr> = s'"

lemma agrees_refl [simp]: "agrees s s"
  by (simp add: agrees_def)

lemma agrees_trans [trans]: "agrees a b \<Longrightarrow> agrees b c \<Longrightarrow> agrees a c"
  unfolding agrees_def by (metis CPUState.surjective CPUState.update_convs(5))

lemma agrees_scratch [simp]: "r > 32 \<Longrightarrow> agrees s (s\<lparr>sr := (sr s)(r := v)\<rparr>)"
  by (simp add: agrees_def)

lemma agrees_put: "agrees s s' \<Longrightarrow> agrees (s\<lparr>sr := (sr s)(r := v)\<rparr>) (s'\<lparr>sr := (sr s')(r := v)\<rparr>)"
  unfolding agrees_def by (cases s; cases s') auto

lemma tracks_mset:
  assumes m: "mset ls = mset ls'" and t: "tracks R cl b em ls h s"
  shows "tracks R cl b em ls' h s"
proof -
  have c: "count_list ls = count_list ls'" using m by (intro ext) (metis count_mset)
  show ?thesis using t unfolding tracks_def represents_def entry_ok_def mset_eq_setD [OF m] c .
qed

lemma unlock_all_tracks:
  assumes "tracks R cl b em ls h s" "mset rs = mset ls"
    "\<And>i. COND_BRANCH_TAKEN \<in> set rs \<Longrightarrow> holds em i COND_BRANCH_TAKEN \<Longrightarrow> clean (jit_regs h (entry_to_jit_register R i))"
  shows "\<exists>em'. unlock_all rs em = Some em' \<and> tracks R cl b em' [] h s \<and> same_shape em em' \<and> holds em' = holds em \<and> writable em' = writable em"
  using assms
proof (induction rs arbitrary: em ls)
  case (Cons r rs)
  then have r: "r \<in> set ls" by (metis list.set_intros(1) mset_eq_setD)
  show ?case
  proof (rule unlock_tracks [OF Cons.prems(1) r])
    fix em1 assume e: "unlock_mips_register r em = Some em1" "tracks R cl b em1 (remove1 r ls) h s" "holds em1 = holds em"
      "writable em1 = writable em" "same_shape em em1"
    have "mset rs = mset (remove1 r ls)" using Cons.prems(2) by (metis add_mset_remove_trivial mset.simps(2) mset_remove1)
    from Cons.IH [OF e(2) this] e Cons.prems(3) show ?case by (auto intro: same_shape_trans)
  qed (use Cons.prems(3) in auto)
qed simp

text \<open>Emitting and running \<open>x\<close> in step takes the represented state to \<open>s\<close>, up to the scratch registers.\<close>

definition computes :: "nat \<Rightarrow> clobber \<Rightarrow> jit_op list \<times> host \<Rightarrow> emitter \<Rightarrow> host \<Rightarrow> emitter option \<Rightarrow> CPUState \<Rightarrow> bool" where
  "computes R cl b em h x s \<longleftrightarrow> (\<exists>em' h' s'. x = Some em' \<and> tracks R cl b em' [] h' s' \<and> same_shape em em' \<and> same_env h h' \<and> agrees s s')"

lemma computesI: "x = Some em' \<Longrightarrow> tracks R cl b em' [] h' s' \<Longrightarrow> same_shape em em' \<Longrightarrow> same_env h h' \<Longrightarrow> agrees s s' \<Longrightarrow>
    computes R cl b em h x s"
  by (auto simp: computes_def)

lemma computes_nothing: "tracks R cl b em [] h s \<Longrightarrow> computes R cl b em h (Some em) s"
  by (rule computesI [OF refl _ same_shape_refl same_env_refl agrees_refl])

lemma fld_less [simp]: "fld instr k < 32" "fld instr k \<le> 32" "fld instr k \<le> 34"
proof -
  have "drop_bit k instr AND 31 \<le> 31" by (rule word_and_le1)
  then show "fld instr k < 32" by (simp add: fld_def word_le_nat_alt)
  then show "fld instr k \<le> 32" "fld instr k \<le> 34" by simp_all
qed

lemma fld_neq [simp]: "fld instr k \<noteq> 32" "32 \<noteq> fld instr k"
  using fld_less(1) [of instr k] by (simp_all del: fld_less)

locale emitter_load =
  fixes load :: load_op and P :: "u64 \<Rightarrow> bool"
  assumes load: "tracks R cl b em ls h s \<Longrightarrow> r \<le> 32 \<Longrightarrow> length ls < length (entries em) \<Longrightarrow>
    \<exists>i em' h'. load R r em = Some (entry_to_jit_register R i, em') \<and> tracks R cl b em' (r # ls) h' s \<and> holds em' i r \<and>
      keeps_locked ls em em' \<and> same_shape em em' \<and> same_env h h' \<and> P (jit_regs h' (entry_to_jit_register R i)) \<and>
      (\<forall>q j. q \<in> set ls \<longrightarrow> holds em j q \<longrightarrow> P (jit_regs h (entry_to_jit_register R j)) \<longrightarrow> P (jit_regs h' (entry_to_jit_register R j)))"
begin

text \<open>Two loads, a computation, and the unlocks.\<close>

lemma binary_tracks:
  assumes t: "tracks R cl b em [] h s" and n: "3 \<le> length (entries em)" and src: "rs < 32" "rt < 32" and dst: "1 \<le> dst" "dst \<le> 34"
    and f: "\<And>x y. P x \<Longrightarrow> P y \<Longrightarrow> ucast (alu_result f x y) = g (ucast x :: u32) (ucast y)"
    and cond: "\<And>x y. dst = COND_BRANCH_TAKEN \<Longrightarrow> clean (alu_result f x y)"
  shows "computes R cl b em h (do { (x, em) \<leftarrow> load R rs em; (y, em) \<leftarrow> load R rt em; (d, em) \<leftarrow> modify_mips_register R dst em;
        unlock_all [rs, rt, dst] (emit (jit_r f d x y) em) }) (s\<lparr>sr := (sr s)(dst := g (sr s rs) (sr s rt))\<rparr>)"
proof -
  obtain i em1 h1 where l1: "load R rs em = Some (entry_to_jit_register R i, em1)" "tracks R cl b em1 [rs] h1 s" "holds em1 i rs"
    "same_shape em em1" "same_env h h1" "P (jit_regs h1 (entry_to_jit_register R i))"
    using load [OF t order.strict_implies_order [OF src(1)]] n by force
  have "length [rs] < length (entries em1)" using n l1(4) by (simp add: same_shape_def)
  then obtain j em2 h2 where l2: "load R rt em1 = Some (entry_to_jit_register R j, em2)" "tracks R cl b em2 [rt, rs] h2 s" "holds em2 j rt"
    "keeps_locked [rs] em1 em2" "same_shape em1 em2" "same_env h1 h2" "P (jit_regs h2 (entry_to_jit_register R j))"
    "P (jit_regs h2 (entry_to_jit_register R i))"
    using load [OF l1(2) order.strict_implies_order [OF src(2)]] l1(3,6) by force
  have room: "card (set [rt, rs]) < length (entries em2)" using n l1(4) l2(5) by (simp add: same_shape_def card_insert_if)
  show ?thesis
  proof (rule modify_tracks [OF l2(2) dst room])
    fix k em3 h3
    assume m: "modify_mips_register R dst em2 = Some (entry_to_jit_register R k, em3)"
      "tracks R cl b em3 [dst, rt, rs] h3 (s\<lparr>sr := (sr s)(dst := ucast (jit_regs h3 (entry_to_jit_register R k)))\<rparr>)"
      "writable em3 k dst" "same_shape em2 em3" "same_env h2 h3" "jit_regs h3 = jit_regs h2"
    let ?k = "entry_to_jit_register R k"
    let ?x = "jit_regs h2 (entry_to_jit_register R i)" and ?y = "jit_regs h2 (entry_to_jit_register R j)"
    let ?op = "jit_r f ?k (entry_to_jit_register R i) (entry_to_jit_register R j)" and ?v = "alu_result f (jit_regs h2 (entry_to_jit_register R i)) (jit_regs h2 (entry_to_jit_register R j))"
    have vals: "ucast ?x = sr s rs" "ucast ?y = sr s rt"
      using holds_value [OF tracks_represents [OF l2(2)]] l1(3) l2(3,4) by (simp_all add: keeps_locked_def)
    have t4: "tracks R cl b (emit ?op em3) [dst, rt, rs] (put_reg ?k ?v h3) (s\<lparr>sr := (sr s)(dst := g (sr s rs) (sr s rt))\<rparr>)"
      using write_tracks [OF m(2,3), of ?op ?v] m(6) f [OF l2(8,7)] vals by simp
    have "l = k" if "dst = COND_BRANCH_TAKEN" "holds (emit ?op em3) l COND_BRANCH_TAKEN" for l
      using represents_unique [OF tracks_represents [OF t4] that(2)] m(3) that(1) by (simp add: writable_def)
    then have "clean (jit_regs (put_reg ?k ?v h3) (entry_to_jit_register R l))"
      if "COND_BRANCH_TAKEN \<in> set [rs, rt, dst]" "holds (emit ?op em3) l COND_BRANCH_TAKEN" for l
      using that src cond by auto
    from unlock_all_tracks [where rs = "[rs, rt, dst]", OF t4 _ this] obtain em4 where
      u: "unlock_all [rs, rt, dst] (emit ?op em3) = Some em4" "same_shape (emit ?op em3) em4"
        "tracks R cl b em4 [] (put_reg ?k ?v h3) (s\<lparr>sr := (sr s)(dst := g (sr s rs) (sr s rt))\<rparr>)" by auto
    have "same_shape em em4" using l1(4) l2(5) m(4) u(2) by (simp add: same_shape_def)
    moreover have "same_env h (put_reg ?k ?v h3)"
      by (rule same_env_trans [OF same_env_trans [OF same_env_trans [OF l1(5) l2(6)] m(5)] same_env_put_reg])
    ultimately show ?thesis using l1(1) l2(1) m(1) u(1) by (intro computesI [OF _ u(3)]) simp_all
  qed
qed

lemma three_reg_op_tracks:
  assumes "tracks R cl b em [] h s" "3 \<le> length (entries em)"
    "\<And>x y. P x \<Longrightarrow> P y \<Longrightarrow> ucast (alu_result f x y) = g (ucast x :: u32) (ucast y)"
  shows "computes R cl b em h (three_reg_op load f R instr em)
    (if rd_of instr = 0 then s else s\<lparr>sr := (sr s)(rd_of instr := g (sr s (rs_of instr)) (sr s (rt_of instr)))\<rparr>)"
proof (cases "rd_of instr = 0")
  case False
  then have "three_reg_op load f R instr em = do { (x, em) \<leftarrow> load R (rs_of instr) em; (y, em) \<leftarrow> load R (rt_of instr) em;
      (d, em) \<leftarrow> modify_mips_register R (rd_of instr) em; unlock_all [rs_of instr, rt_of instr, rd_of instr] (emit (jit_r f d x y) em) }"
    by (simp add: three_reg_op_def Let_def)
  with False binary_tracks [where rs = "rs_of instr" and rt = "rt_of instr" and dst = "rd_of instr" and g = g, OF assms(1,2) _ _ _ _ assms(3)]
  show ?thesis by simp
qed (use assms in \<open>simp add: computes_nothing three_reg_op_def Let_def\<close>)

text \<open>A load, a computation with a constant, and the unlocks.\<close>

lemma unary_tracks:
  assumes t: "tracks R cl b em [] h s" and n: "3 \<le> length (entries em)" and src: "src < 32" and dst: "1 \<le> dst" "dst \<le> 34"
    and f: "\<And>x. P x \<Longrightarrow> ucast (alu_result f x imm) = g (ucast x :: u32)" and cond: "\<And>x. dst = COND_BRANCH_TAKEN \<Longrightarrow> clean (alu_result f x imm)"
  shows "computes R cl b em h (do { (x, em) \<leftarrow> load R src em; (d, em) \<leftarrow> modify_mips_register R dst em;
        unlock_all [src, dst] (emit (jit_i f d x imm) em) }) (s\<lparr>sr := (sr s)(dst := g (sr s src))\<rparr>)"
proof -
  obtain i em1 h1 where l1: "load R src em = Some (entry_to_jit_register R i, em1)" "tracks R cl b em1 [src] h1 s" "holds em1 i src"
    "same_shape em em1" "same_env h h1" "P (jit_regs h1 (entry_to_jit_register R i))"
    using load [OF t order.strict_implies_order [OF src]] n by force
  have room: "card (set [src]) < length (entries em1)" using n l1(4) by (simp add: same_shape_def)
  show ?thesis
  proof (rule modify_tracks [OF l1(2) dst room])
    fix k em3 h3
    assume m: "modify_mips_register R dst em1 = Some (entry_to_jit_register R k, em3)"
      "tracks R cl b em3 [dst, src] h3 (s\<lparr>sr := (sr s)(dst := ucast (jit_regs h3 (entry_to_jit_register R k)))\<rparr>)"
      "writable em3 k dst" "same_shape em1 em3" "same_env h1 h3" "jit_regs h3 = jit_regs h1"
    let ?k = "entry_to_jit_register R k" and ?x = "jit_regs h1 (entry_to_jit_register R i)"
    let ?op = "jit_i f ?k (entry_to_jit_register R i) imm"
    have "ucast ?x = sr s src" using holds_value [OF tracks_represents [OF l1(2)] l1(3)] .
    then have t4: "tracks R cl b (emit ?op em3) [dst, src] (put_reg ?k (alu_result f ?x imm) h3) (s\<lparr>sr := (sr s)(dst := g (sr s src))\<rparr>)"
      using write_tracks [OF m(2,3), of ?op "alu_result f ?x imm"] m(6) f [OF l1(6)] by simp
    have "l = k" if "dst = COND_BRANCH_TAKEN" "holds (emit ?op em3) l COND_BRANCH_TAKEN" for l
      using represents_unique [OF tracks_represents [OF t4] that(2)] m(3) that(1) by (simp add: writable_def)
    then have "clean (jit_regs (put_reg ?k (alu_result f ?x imm) h3) (entry_to_jit_register R l))"
      if "COND_BRANCH_TAKEN \<in> set [src, dst]" "holds (emit ?op em3) l COND_BRANCH_TAKEN" for l
      using that src cond [of ?x] by auto
    from unlock_all_tracks [where rs = "[src, dst]", OF t4 _ this] obtain em4 where
      u: "unlock_all [src, dst] (emit ?op em3) = Some em4" "same_shape (emit ?op em3) em4"
        "tracks R cl b em4 [] (put_reg ?k (alu_result f ?x imm) h3) (s\<lparr>sr := (sr s)(dst := g (sr s src))\<rparr>)" by auto
    have "same_shape em em4" using l1(4) m(4) u(2) by (simp add: same_shape_def)
    moreover have "same_env h (put_reg ?k (alu_result f ?x imm) h3)"
      by (rule same_env_trans [OF same_env_trans [OF l1(5) m(5)] same_env_put_reg])
    ultimately show ?thesis using l1(1) m(1) u(1) by (intro computesI [OF _ u(3)]) simp_all
  qed
qed

lemma two_reg_imm_op_tracks:
  assumes "tracks R cl b em [] h s" "3 \<le> length (entries em)" "\<And>x. P x \<Longrightarrow> ucast (alu_result f x imm) = g (ucast x :: u32)"
  shows "computes R cl b em h (two_reg_imm_op load f imm R instr em)
    (if rt_of instr = 0 then s else s\<lparr>sr := (sr s)(rt_of instr := g (sr s (rs_of instr)))\<rparr>)"
proof (cases "rt_of instr = 0")
  case False
  then have "two_reg_imm_op load f imm R instr em = do { (x, em) \<leftarrow> load R (rs_of instr) em;
      (d, em) \<leftarrow> modify_mips_register R (rt_of instr) em; unlock_all [rs_of instr, rt_of instr] (emit (jit_i f d x imm) em) }"
    by (simp add: two_reg_imm_op_def Let_def)
  with False unary_tracks [where src = "rs_of instr" and dst = "rt_of instr" and g = g, OF assms(1,2) _ _ _ assms(3)] show ?thesis by simp
qed (use assms in \<open>simp add: computes_nothing two_reg_imm_op_def Let_def\<close>)

lemma shift_imm_tracks:
  assumes "tracks R cl b em [] h s" "3 \<le> length (entries em)"
    "\<And>x. P x \<Longrightarrow> ucast (alu_result f x (word_of_nat (shift_of instr))) = g (ucast x :: u32)"
  shows "computes R cl b em h (shift_imm load f R instr em)
    (if rd_of instr = 0 then s else s\<lparr>sr := (sr s)(rd_of instr := g (sr s (rt_of instr)))\<rparr>)"
proof (cases "rd_of instr = 0")
  case False
  then have "shift_imm load f R instr em = do { (x, em) \<leftarrow> load R (rt_of instr) em;
      (d, em) \<leftarrow> modify_mips_register R (rd_of instr) em;
      unlock_all [rt_of instr, rd_of instr] (emit (jit_i f d x (word_of_nat (shift_of instr))) em) }"
    by (simp add: shift_imm_def Let_def)
  with False unary_tracks [where src = "rt_of instr" and dst = "rd_of instr" and g = g, OF assms(1,2) _ _ _ assms(3)] show ?thesis by simp
qed (use assms in \<open>simp add: computes_nothing shift_imm_def Let_def\<close>)

lemma shift_var_tracks:
  assumes t: "tracks R cl b em [] h s" and n: "3 \<le> length (entries em)"
    and f: "\<And>x y. P x \<Longrightarrow> ucast (alu_result f x (y AND 31)) = g (ucast x :: u32) (ucast y :: u32)"
  shows "computes R cl b em h (shift_var load f R instr em)
    (if rd_of instr = 0 then s else s\<lparr>sr := (sr s)(rd_of instr := g (sr s (rt_of instr)) (sr s (rs_of instr)))\<rparr>)"
proof (cases "rd_of instr = 0")
  case False
  let ?rt = "rt_of instr" and ?rs = "rs_of instr" and ?rd = "rd_of instr"
  obtain i em1 h1 where l1: "load R ?rt em = Some (entry_to_jit_register R i, em1)" "tracks R cl b em1 [?rt] h1 s" "holds em1 i ?rt"
    "same_shape em em1" "same_env h h1" "P (jit_regs h1 (entry_to_jit_register R i))"
    using load [OF t, of ?rt] n by force
  have room1: "card (set [?rt]) < length (entries em1)" using n l1(4) by (simp add: same_shape_def)
  show ?thesis
  proof (rule load_noext_tracks [OF l1(2) _ room1, of ?rs])
    fix j em2 h2
    assume l2: "load_mips_register_noext R ?rs em1 = Some (entry_to_jit_register R j, em2)" "tracks R cl b em2 [?rs, ?rt] h2 s" "holds em2 j ?rs"
      "keeps_locked [?rt] em1 em2" "same_shape em1 em2" "same_env h1 h2"
      "\<And>k. k \<noteq> j \<Longrightarrow> jit_regs h2 (entry_to_jit_register R k) = jit_regs h1 (entry_to_jit_register R k)"
      "None = None \<Longrightarrow> holds em1 j ?rs \<Longrightarrow> jit_regs h2 (entry_to_jit_register R j) = jit_regs h1 (entry_to_jit_register R j)"
    have held: "holds em2 i ?rt" using l2(4) l1(3) by (simp add: keeps_locked_def)
    have xi: "jit_regs h2 (entry_to_jit_register R i) = jit_regs h1 (entry_to_jit_register R i)"
      using l2(3,7,8) l1(3) held by (cases "i = j") (auto simp: holds_def)
    have room2: "card (set [?rs, ?rt]) < length (entries em2)" using n l1(4) l2(5) by (simp add: same_shape_def card_insert_if)
    show ?thesis
    proof (rule modify_tracks [OF l2(2) _ _ room2, of SCRATCH_REGISTER0])
      fix k em3 h3
      assume m: "modify_mips_register R SCRATCH_REGISTER0 em2 = Some (entry_to_jit_register R k, em3)"
        "tracks R cl b em3 [SCRATCH_REGISTER0, ?rs, ?rt] h3 (s\<lparr>sr := (sr s)(SCRATCH_REGISTER0 := ucast (jit_regs h3 (entry_to_jit_register R k)))\<rparr>)"
        "writable em3 k SCRATCH_REGISTER0" "keeps_locked [?rs, ?rt] em2 em3" "same_shape em2 em3" "same_env h2 h3" "jit_regs h3 = jit_regs h2"
      let ?x = "jit_regs h1 (entry_to_jit_register R i)" and ?y = "jit_regs h2 (entry_to_jit_register R j)"
      let ?n = "?y AND 31" and ?k = "entry_to_jit_register R k" and ?o1 = "jit_i And (entry_to_jit_register R k) (entry_to_jit_register R j) 31"
      have vals: "ucast ?x = sr s ?rt" "ucast ?y = sr s ?rs"
        using holds_value [OF tracks_represents [OF l2(2)] held] holds_value [OF tracks_represents [OF l2(2)] l2(3)] xi by simp_all
      define s3 where "s3 = s\<lparr>sr := (sr s)(SCRATCH_REGISTER0 := ucast ?n)\<rparr>"
      have t3: "tracks R cl b (emit ?o1 em3) [SCRATCH_REGISTER0, ?rs, ?rt] (put_reg ?k ?n h3) s3"
        using write_tracks [OF m(2,3), of ?o1 ?n] m(7) by (simp add: s3_def)
      have "holds (emit ?o1 em3) i ?rt" "holds (emit ?o1 em3) k SCRATCH_REGISTER0"
        using m(3,4) held by (simp_all add: keeps_locked_def writable_def)
      then have ik: "i \<noteq> k" using fld_less(1) [of instr 16] by (auto simp: holds_def simp del: fld_less)
      show ?thesis
      proof (rule unlock_tracks [OF t3, of ?rs])
        fix em4 assume u: "unlock_mips_register ?rs (emit ?o1 em3) = Some em4" "holds em4 = holds (emit ?o1 em3)" "same_shape (emit ?o1 em3) em4"
          "tracks R cl b em4 (remove1 ?rs [SCRATCH_REGISTER0, ?rs, ?rt]) (put_reg ?k ?n h3) s3"
        have t4: "tracks R cl b em4 [SCRATCH_REGISTER0, ?rt] (put_reg ?k ?n h3) s3" using u(4) fld_less(1) [of instr 21] by (auto split: if_splits)
        have room4: "card (set [SCRATCH_REGISTER0, ?rt]) < length (entries em4)"
          using n l1(4) l2(5) m(5) u(3) by (simp add: same_shape_def card_insert_if)
        show ?thesis
        proof (rule modify_tracks [OF t4 _ _ room4, of ?rd])
          fix d em5 h5
          assume e: "modify_mips_register R ?rd em4 = Some (entry_to_jit_register R d, em5)"
            "tracks R cl b em5 [?rd, SCRATCH_REGISTER0, ?rt] h5 (s3\<lparr>sr := (sr s3)(?rd := ucast (jit_regs h5 (entry_to_jit_register R d)))\<rparr>)"
            "writable em5 d ?rd" "same_shape em4 em5" "same_env (put_reg ?k ?n h3) h5" "jit_regs h5 = jit_regs (put_reg ?k ?n h3)"
          let ?o2 = "jit_r f (entry_to_jit_register R d) (entry_to_jit_register R i) ?k" and ?v = "alu_result f ?x ?n"
          let ?h = "put_reg (entry_to_jit_register R d) ?v h5"
          have t6: "tracks R cl b (emit ?o2 em5) [?rd, SCRATCH_REGISTER0, ?rt] ?h (s3\<lparr>sr := (sr s3)(?rd := g (sr s ?rt) (sr s ?rs))\<rparr>)"
            using write_tracks [OF e(2,3), of ?o2 ?v] e(6) m(7) xi ik f [OF l1(6)] vals by simp
          from unlock_all_tracks [OF t6, of "[?rt, ?rd, SCRATCH_REGISTER0]"] obtain em6 where
            v: "unlock_all [?rt, ?rd, SCRATCH_REGISTER0] (emit ?o2 em5) = Some em6" "same_shape (emit ?o2 em5) em6"
              "tracks R cl b em6 [] ?h (s3\<lparr>sr := (sr s3)(?rd := g (sr s ?rt) (sr s ?rs))\<rparr>)" by auto
          have "same_shape em em6" using l1(4) l2(5) m(5) u(3) e(4) v(2) by (simp add: same_shape_def)
          moreover have "same_env h ?h"
            by (rule same_env_trans [OF same_env_trans [OF same_env_trans [OF same_env_trans [OF same_env_trans
                  [OF l1(5) l2(6)] m(6)] same_env_put_reg] e(5)] same_env_put_reg])
          moreover have "agrees (s\<lparr>sr := (sr s)(?rd := g (sr s ?rt) (sr s ?rs))\<rparr>) (s3\<lparr>sr := (sr s3)(?rd := g (sr s ?rt) (sr s ?rs))\<rparr>)"
            unfolding s3_def by (intro agrees_put) simp
          ultimately show ?thesis using False l1(1) l2(1) m(1) u(1) e(1) v(1)
            by (intro computesI [OF _ v(3)]) (simp_all add: shift_var_def Let_def)
        qed (use False in simp_all)
      qed simp_all
    qed simp_all
  qed simp
qed (use t in \<open>simp add: computes_nothing shift_var_def Let_def\<close>)

end

interpretation ld: emitter_load load_mips_register_noext "\<lambda>_. True"
proof unfold_locales
  fix R cl b em ls h s and r :: nat assume t: "tracks R cl b em ls h s" "r \<le> 32" and n: "length ls < length (entries em)"
  have room: "card (set ls) < length (entries em)" using card_length [of ls] n by simp
  show "\<exists>i em' h'. load_mips_register_noext R r em = Some (entry_to_jit_register R i, em') \<and> tracks R cl b em' (r # ls) h' s \<and>
      holds em' i r \<and> keeps_locked ls em em' \<and> same_shape em em' \<and> same_env h h' \<and> True \<and> (\<forall>q j. q \<in> set ls \<longrightarrow> holds em j q \<longrightarrow> True \<longrightarrow> True)"
    by (rule load_noext_tracks [OF t room], intro exI conjI) (assumption | simp)+
qed

text \<open>An extending load extends the register it loads, and leaves other locked registers as they are.\<close>

lemma extending_load:
  assumes "holds em' i r" "keeps_locked ls em em'" "extended ext (jit_regs h' (entry_to_jit_register R i))"
    "\<And>j. j \<noteq> i \<Longrightarrow> jit_regs h' (entry_to_jit_register R j) = jit_regs h (entry_to_jit_register R j)"
  shows "\<forall>q j. q \<in> set ls \<longrightarrow> holds em j q \<longrightarrow> extended ext (jit_regs h (entry_to_jit_register R j)) \<longrightarrow>
    extended ext (jit_regs h' (entry_to_jit_register R j))"
  using assms by metis

interpretation ld_sext: emitter_load load_mips_register_sext "extended SExt"
proof unfold_locales
  fix R cl b em ls h s and r :: nat assume t: "tracks R cl b em ls h s" "r \<le> 32" and n: "length ls < length (entries em)"
  have room: "card (set ls) < length (entries em)" using card_length [of ls] n by simp
  show "\<exists>i em' h'. load_mips_register_sext R r em = Some (entry_to_jit_register R i, em') \<and> tracks R cl b em' (r # ls) h' s \<and>
      holds em' i r \<and> keeps_locked ls em em' \<and> same_shape em em' \<and> same_env h h' \<and> extended SExt (jit_regs h' (entry_to_jit_register R i)) \<and>
      (\<forall>q j. q \<in> set ls \<longrightarrow> holds em j q \<longrightarrow> extended SExt (jit_regs h (entry_to_jit_register R j)) \<longrightarrow>
        extended SExt (jit_regs h' (entry_to_jit_register R j)))"
    by (rule load_sext_tracks [OF t room], intro exI conjI extending_load) (assumption | simp)+
qed

interpretation ld_zext: emitter_load load_mips_register_zext "extended ZExt"
proof unfold_locales
  fix R cl b em ls h s and r :: nat assume t: "tracks R cl b em ls h s" "r \<le> 32" and n: "length ls < length (entries em)"
  have room: "card (set ls) < length (entries em)" using card_length [of ls] n by simp
  show "\<exists>i em' h'. load_mips_register_zext R r em = Some (entry_to_jit_register R i, em') \<and> tracks R cl b em' (r # ls) h' s \<and>
      holds em' i r \<and> keeps_locked ls em em' \<and> same_shape em em' \<and> same_env h h' \<and> extended ZExt (jit_regs h' (entry_to_jit_register R i)) \<and>
      (\<forall>q j. q \<in> set ls \<longrightarrow> holds em j q \<longrightarrow> extended ZExt (jit_regs h (entry_to_jit_register R j)) \<longrightarrow>
        extended ZExt (jit_regs h' (entry_to_jit_register R j)))"
    by (rule load_zext_tracks [OF t room], intro exI conjI extending_load) (assumption | simp)+
qed

lemma constant_tracks:
  assumes t: "tracks R cl b em [] h s" and n: "3 \<le> length (entries em)" and r: "1 \<le> r" "r \<le> 34" and v: "v = scast (ucast v :: u32)"
  shows "computes R cl b em h (do { (_, em) \<leftarrow> immediate_mips_register R r v em; unlock_mips_register r em }) (s\<lparr>sr := (sr s)(r := ucast v)\<rparr>)"
proof -
  have room: "card (set ([] :: nat list)) < length (entries em)" using n by (cases "entries em") auto
  have clean: "clean v" using v by (metis clean_scast)
  show ?thesis
  proof (rule immediate_tracks [OF t r room v])
    fix i em1 h1
    assume m: "immediate_mips_register R r v em = Some (entry_to_jit_register R i, em1)"
      "tracks R cl b em1 [r] h1 (s\<lparr>sr := (sr s)(r := ucast v)\<rparr>)" "same_shape em em1" "same_env h h1" "holds em1 i r"
      "jit_regs h1 (entry_to_jit_register R i) = v"
    have "clean (jit_regs h1 (entry_to_jit_register R k))" if "COND_BRANCH_TAKEN \<in> set [r]" "holds em1 k COND_BRANCH_TAKEN" for k
      using represents_unique [OF tracks_represents [OF m(2)] m(5), of k] that m(6) clean by auto
    from unlock_all_tracks [where rs = "[r]", OF m(2) refl this] obtain em2 where
      "unlock_mips_register r em1 = Some em2" "same_shape em1 em2"
      "tracks R cl b em2 [] h1 (s\<lparr>sr := (sr s)(r := ucast v)\<rparr>)" by (auto split: bind_splits)
    then show ?thesis using m by (intro computesI [of _ em2 R cl b h1]) (auto simp: same_shape_def)
  qed
qed

lemma immediate_op_tracks:
  assumes "tracks R cl b em [] h s" "3 \<le> length (entries em)" "v = scast (ucast v :: u32)"
  shows "computes R cl b em h (immediate_op v R instr em) (if rt_of instr = 0 then s else s\<lparr>sr := (sr s)(rt_of instr := ucast v)\<rparr>)"
  using constant_tracks [OF assms(1,2), of "rt_of instr" v] computes_nothing [OF assms(1)] assms(3)
  by (simp add: immediate_op_def Let_def)

lemma nor_op_tracks:
  assumes t: "tracks R cl b em [] h s" and n: "3 \<le> length (entries em)"
  shows "computes R cl b em h (nor_op R instr em)
    (if rd_of instr = 0 then s else s\<lparr>sr := (sr s)(rd_of instr := NOT (sr s (rs_of instr) OR sr s (rt_of instr)))\<rparr>)"
proof (cases "rd_of instr = 0")
  case False
  let ?rs = "rs_of instr" and ?rt = "rt_of instr" and ?rd = "rd_of instr"
  obtain i em1 h1 where l1: "load_mips_register_noext R ?rt em = Some (entry_to_jit_register R i, em1)" "tracks R cl b em1 [?rt] h1 s"
    "holds em1 i ?rt" "same_shape em em1" "same_env h h1"
    using ld.load [OF t, of ?rt] n by force
  have "length [?rt] < length (entries em1)" using n l1(4) by (simp add: same_shape_def)
  then obtain j em2 h2 where l2: "load_mips_register_noext R ?rs em1 = Some (entry_to_jit_register R j, em2)"
    "tracks R cl b em2 [?rs, ?rt] h2 s" "holds em2 j ?rs" "keeps_locked [?rt] em1 em2" "same_shape em1 em2" "same_env h1 h2"
    using ld.load [OF l1(2), of ?rs] by force
  have room: "card (set [?rs, ?rt]) < length (entries em2)" using n l1(4) l2(5) by (simp add: same_shape_def card_insert_if)
  show ?thesis
  proof (rule modify_tracks [OF l2(2) _ _ room, of ?rd])
    fix k em3 h3
    assume m: "modify_mips_register R ?rd em2 = Some (entry_to_jit_register R k, em3)"
      "tracks R cl b em3 [?rd, ?rs, ?rt] h3 (s\<lparr>sr := (sr s)(?rd := ucast (jit_regs h3 (entry_to_jit_register R k)))\<rparr>)"
      "writable em3 k ?rd" "same_shape em2 em3" "same_env h2 h3" "jit_regs h3 = jit_regs h2"
    let ?k = "entry_to_jit_register R k"
    let ?x = "jit_regs h2 (entry_to_jit_register R i)" and ?y = "jit_regs h2 (entry_to_jit_register R j)"
    let ?o1 = "jit_r Or ?k (entry_to_jit_register R i) (entry_to_jit_register R j)" and ?o2 = "jit_i Xor ?k ?k (- 1)"
    let ?v = "(?x OR ?y) XOR - 1"
    let ?h = "put_reg ?k ?v (put_reg ?k (?x OR ?y) h3)"
    have "holds em2 i ?rt" using l1(3) l2(4) by (simp add: keeps_locked_def)
    note vs = holds_value [OF tracks_represents [OF l2(2)] this] holds_value [OF tracks_represents [OF l2(2)] l2(3)]
    have "ucast ((x OR y) XOR - 1) = NOT (ucast y OR ucast x :: u32)" for x y :: u64
      by (rule bit_word_eqI) (auto simp: bit_simps)
    then have vals: "ucast ?v = NOT (sr s ?rs OR sr s ?rt)" unfolding vs [symmetric] .
    have t4: "tracks R cl b (emit ?o1 em3) [?rd, ?rs, ?rt] (put_reg ?k (?x OR ?y) h3) (s\<lparr>sr := (sr s)(?rd := ucast (?x OR ?y))\<rparr>)"
      using write_tracks [OF m(2,3), of ?o1 "?x OR ?y"] m(6) by simp
    have t5: "tracks R cl b (emit ?o2 (emit ?o1 em3)) [?rd, ?rs, ?rt] ?h (s\<lparr>sr := (sr s)(?rd := NOT (sr s ?rs OR sr s ?rt))\<rparr>)"
      using write_tracks [OF t4, of k ?rd ?o2 ?v] m(3) vals by (simp only: holds_emit) simp
    from unlock_all_tracks [OF t5, of "[?rt, ?rs, ?rd]"] obtain em4 where
      u: "unlock_all [?rt, ?rs, ?rd] (emit ?o2 (emit ?o1 em3)) = Some em4" "same_shape (emit ?o2 (emit ?o1 em3)) em4"
        "tracks R cl b em4 [] ?h (s\<lparr>sr := (sr s)(?rd := NOT (sr s ?rs OR sr s ?rt))\<rparr>)" by auto
    have "same_shape em em4" using l1(4) l2(5) m(4) u(2) by (simp add: same_shape_def)
    moreover have "same_env h ?h"
      by (rule same_env_trans [OF same_env_trans [OF same_env_trans [OF same_env_trans [OF l1(5) l2(6)] m(5)] same_env_put_reg] same_env_put_reg])
    ultimately show ?thesis using False l1(1) l2(1) m(1) u(1) by (intro computesI [OF _ u(3)]) (simp_all add: nor_op_def Let_def)
  qed (use False in simp_all)
qed (use t in \<open>simp add: computes_nothing nor_op_def Let_def\<close>)

section \<open>Arithmetic of the processor\<close>

text \<open>What the manual of the processor says the instructions compute, on 32 bit values.\<close>

definition mips_special :: "nat \<Rightarrow> nat \<Rightarrow> u32 \<Rightarrow> u32 \<Rightarrow> u32" where
  "mips_special funct shift rs rt =
     (if funct = 0 then rt * 2 ^ shift
      else if funct = 2 then word_of_nat (unat rt div 2 ^ shift)
      else if funct = 3 then word_of_int (sint rt div 2 ^ shift)
      else if funct = 4 then rt * 2 ^ (unat rs mod 32)
      else if funct = 6 then word_of_nat (unat rt div 2 ^ (unat rs mod 32))
      else if funct = 7 then word_of_int (sint rt div 2 ^ (unat rs mod 32))
      else if funct = 32 \<or> funct = 33 then rs + rt
      else if funct = 34 \<or> funct = 35 then rs - rt
      else if funct = 36 then rs AND rt
      else if funct = 37 then rs OR rt
      else if funct = 38 then rs XOR rt
      else if funct = 39 then NOT (rs OR rt)
      else if funct = 42 then of_bool (sint rs < sint rt)
      else of_bool (unat rs < unat rt))"

definition mips_immediate :: "nat \<Rightarrow> u16 \<Rightarrow> u32 \<Rightarrow> u32" where
  "mips_immediate type imm rs =
     (if type = 8 \<or> type = 9 then rs + word_of_int (sint imm)
      else if type = 10 then of_bool (sint rs < sint imm)
      else if type = 11 then of_bool (unat rs < unat (word_of_int (sint imm) :: u32))
      else if type = 12 then rs AND word_of_nat (unat imm)
      else if type = 13 then rs OR word_of_nat (unat imm)
      else if type = 14 then rs XOR word_of_nat (unat imm)
      else word_of_nat (unat imm * 2 ^ 16))"

lemma sext_sint: "extended SExt x \<Longrightarrow> sint x = sint (ucast x :: u32)" for x :: u64
proof -
  assume "extended SExt x"
  then have "sint x = sint (scast (ucast x :: u32) :: u64)" by simp
  also have "\<dots> = sint (ucast x :: u32)" by (rule sint_up_scast) (simp add: is_up)
  finally show ?thesis .
qed

lemma zext_unat: "extended ZExt x \<Longrightarrow> unat x = unat (ucast x :: u32)" for x :: u64
proof -
  assume "extended ZExt x"
  then have "unat x = unat (ucast (ucast x :: u32) :: u64)" by simp
  also have "\<dots> = unat (ucast x :: u32)" unfolding unat_eq_nat_uint by (simp add: uint_up_ucast is_up)
  finally show ?thesis .
qed

lemma truth32: "ucast (truth b) = (of_bool b :: u32)"
  by (simp add: truth_def)

lemma lsh32: "n < 32 \<Longrightarrow> ucast (push_bit n x) = (ucast x * 2 ^ n :: u32)" for x :: u64
  unfolding push_bit_eq_mult [symmetric] by (rule bit_word_eqI) (auto simp: bit_simps)

lemma rsh_u32: "extended ZExt x \<Longrightarrow> ucast (drop_bit n x) = (word_of_nat (unat (ucast x :: u32) div 2 ^ n) :: u32)" for x :: u64
proof -
  assume x: "extended ZExt x"
  have "ucast (drop_bit n x) = (word_of_nat (unat (drop_bit n x)) :: u32)" by simp
  also have "unat (drop_bit n x) = unat x div 2 ^ n" unfolding unat_drop_bit_eq by (rule drop_bit_eq_div)
  finally show ?thesis using zext_unat [OF x] by simp
qed

lemma rsh32: "extended SExt x \<Longrightarrow> ucast (signed_drop_bit n x) = (word_of_int (sint (ucast x :: u32) div 2 ^ n) :: u32)" for x :: u64
proof -
  assume x: "extended SExt x"
  have "ucast y = (scast y :: u32)" for y :: u64 by (rule bit_word_eqI) (auto simp: bit_simps)
  then have "ucast (signed_drop_bit n x) = (word_of_int (sint (signed_drop_bit n x)) :: u32)" unfolding scast_eq .
  also have "sint (signed_drop_bit n x) = sint x div 2 ^ n" unfolding sint_signed_drop_bit_eq by (rule drop_bit_eq_div)
  finally show ?thesis using sext_sint [OF x] by simp
qed

lemma vu_type: "is_vu_instruction instr \<Longrightarrow> unat (drop_bit 26 instr) = 18"
proof -
  assume "is_vu_instruction instr"
  then have "drop_bit 26 instr = drop_bit 1 (0x25 :: u32)" unfolding is_vu_instruction_def by (metis drop_bit_drop_bit numeral_One numeral_plus_numeral semiring_norm(3) semiring_norm(5) semiring_norm(8) add.commute add_One)
  then show ?thesis by simp
qed

definition mips_alu :: "u32 \<Rightarrow> CPUState \<Rightarrow> CPUState" where
  "mips_alu instr s =
     (let type = unat (drop_bit 26 instr); funct = unat (instr AND 63);
          dest = (if type = 0 then rd_of instr else rt_of instr);
          v = (if type = 0 then mips_special funct (shift_of instr) (sr s (rs_of instr)) (sr s (rt_of instr))
               else mips_immediate type (ucast instr) (sr s (rs_of instr)))
      in if dest = 0 then s else s\<lparr>sr := (sr s)(dest := v)\<rparr>)"

lemma unat_word32: "n < 32 \<Longrightarrow> unat (word_of_nat n :: u64) = n"
  by (simp add: unat_of_nat)

lemma and31: "unat ((y :: u64) AND 31) = unat (ucast y :: u32) mod 32"
proof -
  have "y AND 31 = take_bit 5 y" by (simp add: take_bit_eq_mask mask_eq_exp_minus_1)
  then have "unat (y AND 31) = take_bit 5 (unat y)" by (simp only: unsigned_take_bit_eq)
  then have "unat (y AND 31) = unat y mod 32" by (simp add: take_bit_eq_mod)
  then show ?thesis by (simp add: unsigned_ucast_eq take_bit_eq_mod mod_mod_cancel)
qed

lemma ucast_and32: "ucast (x AND y) = (ucast x AND ucast y :: u32)" and ucast_or32: "ucast (x OR y) = (ucast x OR ucast y :: u32)"
  and ucast_xor32: "ucast (x XOR y) = (ucast x XOR ucast y :: u32)" for x y :: u64
  by (rule bit_word_eqI; auto simp: bit_simps)+

lemma ucast_add32: "ucast (x + y) = (ucast x + ucast y :: u32)" and ucast_sub32: "ucast (x - y) = (ucast x - ucast y :: u32)" for x y :: u64
proof -
  have w: "word_of_int (take_bit 64 k) = (word_of_int k :: u32)" for k by (rule bit_word_eqI) (auto simp: bit_simps)
  show "ucast (x + y) = (ucast x + ucast y :: u32)" "ucast (x - y) = (ucast x - ucast y :: u32)"
    unfolding ucast_eq uint_word_arith_bintrs by (simp_all add: w)
qed

lemma special_alu_tracks:
  assumes t: "tracks R cl b em [] h s" and n: "3 \<le> length (entries em)" and ty: "drop_bit 26 instr = 0"
    and f: "special_alu (unat (instr AND 63)) = Some f"
  shows "computes R cl b em h (f R instr em) (mips_alu instr s)"
proof -
  let ?f = "unat (instr AND 63)" and ?g = "mips_special (unat (instr AND 63)) (shift_of instr)"
  have goal: "mips_alu instr s = (if rd_of instr = 0 then s else s\<lparr>sr := (sr s)(rd_of instr := ?g (sr s (rs_of instr)) (sr s (rt_of instr)))\<rparr>)"
    by (simp add: mips_alu_def ty Let_def)
  have three: "computes R cl b em h (three_reg_op load_mips_register_noext g R instr em) (mips_alu instr s)"
    if "\<And>x y. ucast (alu_result g x y) = ?g (ucast x) (ucast y)" for g
    using ld.three_reg_op_tracks [OF t n, of g ?g instr] that unfolding goal by blast
  have sextd: "computes R cl b em h (three_reg_op load_mips_register_sext g R instr em) (mips_alu instr s)"
    if "\<And>x y. extended SExt x \<Longrightarrow> extended SExt y \<Longrightarrow> ucast (alu_result g x y) = ?g (ucast x) (ucast y)" for g
    using ld_sext.three_reg_op_tracks [OF t n, of g ?g instr] that unfolding goal by blast
  have zextd: "computes R cl b em h (three_reg_op load_mips_register_zext g R instr em) (mips_alu instr s)"
    if "\<And>x y. extended ZExt x \<Longrightarrow> extended ZExt y \<Longrightarrow> ucast (alu_result g x y) = ?g (ucast x) (ucast y)" for g
    using ld_zext.three_reg_op_tracks [OF t n, of g ?g instr] that unfolding goal by blast
  have shl: "ucast (alu_result Lsh x (word_of_nat (shift_of instr))) = (ucast x * 2 ^ shift_of instr :: u32)" for x
    by (simp add: unat_word32 lsh32)
  have vn: "computes R cl b em h (shift_var load_mips_register_noext g R instr em) (mips_alu instr s)"
    if "\<And>x y. ucast (alu_result g x (y AND 31)) = ?g (ucast y) (ucast x)" for g
    using ld.shift_var_tracks [OF t n, of g "\<lambda>x y. ?g y x" instr] that unfolding goal by blast
  have vs: "computes R cl b em h (shift_var load_mips_register_sext g R instr em) (mips_alu instr s)"
    if "\<And>x y. extended SExt x \<Longrightarrow> ucast (alu_result g x (y AND 31)) = ?g (ucast y) (ucast x)" for g
    using ld_sext.shift_var_tracks [OF t n, of g "\<lambda>x y. ?g y x" instr] that unfolding goal by blast
  have vz: "computes R cl b em h (shift_var load_mips_register_zext g R instr em) (mips_alu instr s)"
    if "\<And>x y. extended ZExt x \<Longrightarrow> ucast (alu_result g x (y AND 31)) = ?g (ucast y) (ucast x)" for g
    using ld_zext.shift_var_tracks [OF t n, of g "\<lambda>x y. ?g y x" instr] that unfolding goal by blast
  have imm: "(if rd_of instr = 0 then s else s\<lparr>sr := (sr s)(rd_of instr := k (sr s (rt_of instr)))\<rparr>) = mips_alu instr s"
    if "\<And>x. k x = ?g (sr s (rs_of instr)) x" for k unfolding goal that ..
  consider "?f = 0" "f = shift_imm load_mips_register_noext Lsh" | "?f = 2" "f = shift_imm load_mips_register_zext Rsh_u"
    | "?f = 3" "f = shift_imm load_mips_register_sext Rsh" | "?f = 4" "f = shift_var load_mips_register_noext Lsh"
    | "?f = 6" "f = shift_var load_mips_register_zext Rsh_u" | "?f = 7" "f = shift_var load_mips_register_sext Rsh"
    | "?f = 32 \<or> ?f = 33" "f = three_reg_op load_mips_register_noext Add" | "?f = 34 \<or> ?f = 35" "f = three_reg_op load_mips_register_noext Sub"
    | "?f = 36" "f = three_reg_op load_mips_register_noext And" | "?f = 37" "f = three_reg_op load_mips_register_noext Or"
    | "?f = 38" "f = three_reg_op load_mips_register_noext Xor" | "?f = 39" "f = nor_op"
    | "?f = 42" "f = three_reg_op load_mips_register_sext Lt" | "?f = 43" "f = three_reg_op load_mips_register_zext Lt_u"
    using f unfolding special_alu_def by (simp split: if_splits)
  then show ?thesis
  proof cases
    case 1
    have "mips_special 0 (shift_of instr) y x = x * 2 ^ shift_of instr" for x y by (simp add: mips_special_def)
    with 1 show ?thesis using ld.shift_imm_tracks [OF t n, of Lsh instr "\<lambda>x. x * 2 ^ shift_of instr"] shl imm [of "\<lambda>x. x * 2 ^ shift_of instr"] by simp
  next
    case 2
    let ?k = "\<lambda>x. word_of_nat (unat x div 2 ^ shift_of instr)"
    have "mips_special 2 (shift_of instr) y x = ?k x" for x y by (simp add: mips_special_def)
    with 2 show ?thesis using ld_zext.shift_imm_tracks [OF t n, of Rsh_u instr ?k] rsh_u32 imm [of ?k] by (simp add: unat_word32)
  next
    case 3
    let ?k = "\<lambda>x. word_of_int (sint x div 2 ^ shift_of instr)"
    have "mips_special 3 (shift_of instr) y x = ?k x" for x y by (simp add: mips_special_def)
    with 3 show ?thesis using ld_sext.shift_imm_tracks [OF t n, of Rsh instr ?k] rsh32 imm [of ?k] by (simp add: unat_word32)
  next
    case 4
    then show ?thesis using vn [of Lsh] by (simp add: mips_special_def and31 lsh32)
  next
    case 5
    then show ?thesis using vz [of Rsh_u] rsh_u32 by (simp add: mips_special_def and31)
  next
    case 6
    then show ?thesis using vs [of Rsh] rsh32 by (simp add: mips_special_def and31)
  next
    case 7
    have "ucast (x + y) = (ucast x + ucast y :: u32)" for x y :: u64 by (simp add: ucast_add32)
    then show ?thesis using 7 three [of Add] by (auto simp: mips_special_def)
  next
    case 8
    have "ucast (x - y) = (ucast x - ucast y :: u32)" for x y :: u64 by (simp add: ucast_sub32)
    then show ?thesis using 8 three [of Sub] by (auto simp: mips_special_def)
  next
    case 9
    then show ?thesis using three [of And] by (simp add: mips_special_def ucast_and32)
  next
    case 10
    then show ?thesis using three [of Or] by (simp add: mips_special_def ucast_or32)
  next
    case 11
    then show ?thesis using three [of Xor] by (simp add: mips_special_def ucast_xor32)
  next
    case 12
    then show ?thesis using nor_op_tracks [OF t n, of instr] unfolding goal by (cases "rd_of instr = 0") (simp_all add: mips_special_def)
  next
    case 13
    then show ?thesis using sextd [of Lt] sext_sint by (simp add: mips_special_def truth32 word_sless_alt)
  next
    case 14
    then show ?thesis using zextd [of Lt_u] zext_unat by (simp add: mips_special_def truth32 word_less_nat_alt)
  qed
qed

lemma simm32: "ucast (simm instr) = (word_of_int (sint (ucast instr :: u16)) :: u32)" "sint (simm instr) = sint (ucast instr :: u16)"
  "simm instr = scast (ucast (simm instr) :: u32)"
proof -
  have "ucast (scast x :: u64) = (scast x :: u32)" for x :: u16 by (rule bit_word_eqI) (auto simp: bit_simps min_def)
  then show "ucast (simm instr) = (word_of_int (sint (ucast instr :: u16)) :: u32)" unfolding simm_def by (simp only: scast_eq)
  show "sint (simm instr) = sint (ucast instr :: u16)" unfolding simm_def by (rule sint_up_scast) (simp add: is_up)
  show "simm instr = scast (ucast (simm instr) :: u32)" unfolding simm_def by (rule bit_word_eqI) (auto simp: bit_simps min_def)
qed

lemma uimm32: "ucast (uimm instr) = (word_of_nat (unat (ucast instr :: u16)) :: u32)" "uimm instr = scast (ucast (uimm instr) :: u32)"
proof -
  have "ucast (ucast x :: u64) = (ucast x :: u32)" for x :: u16 by (rule bit_word_eqI) (auto simp: bit_simps)
  then show "ucast (uimm instr) = (word_of_nat (unat (ucast instr :: u16)) :: u32)" unfolding uimm_def by (simp add: of_nat_unat)
  show "uimm instr = scast (ucast (uimm instr) :: u32)" unfolding uimm_def by (rule bit_word_eqI) (auto simp: bit_simps)
qed

lemma mod_signed: "- m \<le> k \<Longrightarrow> k < m \<Longrightarrow> k mod m = (if k < 0 then k + m else k)" for k m :: int
  using mod_pos_pos_trivial [of "k + m" m] by simp

lemma uint_sint_if: "uint x = (if sint x < 0 then sint x + 2 ^ LENGTH('a) else sint x)" for x :: "'a :: len word"
proof -
  have "- (2 ^ LENGTH('a)) \<le> sint x" "sint x < 2 ^ LENGTH('a)"
  proof -
    show "- (2 ^ LENGTH('a)) \<le> sint x" by (rule order.trans [OF _ sint_greater_eq]) simp
    show "sint x < 2 ^ LENGTH('a)" by (rule order.strict_trans2 [OF sint_less]) simp
  qed
  then show ?thesis unfolding uint_sint take_bit_eq_mod by (rule mod_signed)
qed

text \<open>Sign extension keeps the unsigned order of 32 bit values.\<close>

lemma sext_unsigned_less: "extended SExt x \<Longrightarrow> extended SExt y \<Longrightarrow> x < y \<longleftrightarrow> unat (ucast x :: u32) < unat (ucast y :: u32)" for x y :: u64
proof -
  have u: "uint x = (if sint a < 0 then sint a + 2 ^ 64 else sint a)" "uint a = (if sint a < 0 then sint a + 2 ^ 32 else sint a)"
    "- (2 ^ 31) \<le> sint a \<and> sint a < 2 ^ 31"
    if "extended SExt x" "a = ucast x" for x :: u64 and a :: u32
    using sext_sint [OF that(1)] that(2) uint_sint_if [of x] uint_sint_if [of a] sint_greater_eq [of a] sint_less [of a] by simp_all
  assume "extended SExt x" "extended SExt y"
  then show ?thesis using u [of x "ucast x"] u [of y "ucast y"] unfolding word_less_alt unat_eq_nat_uint by (auto split: if_splits)
qed

lemma immediate_alu_tracks:
  assumes t: "tracks R cl b em [] h s" and n: "3 \<le> length (entries em)" and f: "immediate_alu (unat (drop_bit 26 instr)) instr = Some f"
  shows "computes R cl b em h (f R instr em) (mips_alu instr s)"
proof -
  let ?ty = "unat (drop_bit 26 instr)" and ?g = "mips_immediate (unat (drop_bit 26 instr)) (ucast instr)"
  have zero: "sr s 0 = 0" using t by (simp add: tracks_def represents_def)
  have ty: "8 \<le> ?ty" using f by (auto simp: immediate_alu_def split: if_splits)
  then have goal: "mips_alu instr s = (if rt_of instr = 0 then s else s\<lparr>sr := (sr s)(rt_of instr := ?g (sr s (rs_of instr)))\<rparr>)"
    by (auto simp: mips_alu_def Let_def)
  have plain_load: "computes R cl b em h (two_reg_imm_op load_mips_register_noext g imm R instr em) (mips_alu instr s)"
    if "\<And>x. ucast (alu_result g x imm) = ?g (ucast x)" for g imm
    using ld.two_reg_imm_op_tracks [OF t n, of g imm ?g instr] that unfolding goal by blast
  have sextd: "computes R cl b em h (two_reg_imm_op load_mips_register_sext g imm R instr em) (mips_alu instr s)"
    if "\<And>x. extended SExt x \<Longrightarrow> ucast (alu_result g x imm) = ?g (ucast x)" for g imm
    using ld_sext.two_reg_imm_op_tracks [OF t n, of g imm ?g instr] that unfolding goal by blast
  have const: "computes R cl b em h (immediate_op v R instr em) (mips_alu instr s)"
    if "v = scast (ucast v :: u32)" "ucast v = ?g (sr s (rs_of instr))" for v
    using immediate_op_tracks [OF t n that(1), of instr] unfolding goal that(2) .
  have sx: "extended SExt (simm instr)" using simm32(3) [of instr] by simp
  consider "?ty = 8 \<or> ?ty = 9" "f = (if rs_of instr = 0 then immediate_op (simm instr) else two_reg_imm_op load_mips_register_noext Add (simm instr))"
    | "?ty = 10" "f = two_reg_imm_op load_mips_register_sext Lt (simm instr)"
    | "?ty = 11" "f = two_reg_imm_op load_mips_register_sext Lt_u (simm instr)"
    | "?ty = 12" "f = two_reg_imm_op load_mips_register_noext And (uimm instr)"
    | "?ty = 13" "f = (if rs_of instr = 0 then immediate_op (uimm instr) else two_reg_imm_op load_mips_register_noext Or (uimm instr))"
    | "?ty = 14" "f = two_reg_imm_op load_mips_register_noext Xor (uimm instr)"
    | "?ty = 15" "f = immediate_op (scast (push_bit 16 (scast (ucast instr :: u16)) :: u32))"
    using f unfolding immediate_alu_def by (simp split: if_splits)
  then show ?thesis
  proof cases
    case 1
    then have g: "?g = (\<lambda>x. x + word_of_int (sint (ucast instr :: u16)))" by (auto simp: mips_immediate_def fun_eq_iff)
    show ?thesis
    proof (cases "rs_of instr = 0")
      case True
      then show ?thesis using 1 const [of "simm instr"] simm32 [of instr] zero unfolding g by simp
    next
      case False
      then show ?thesis using 1 plain_load [of Add "simm instr"] unfolding g by (simp add: ucast_add32 simm32(1))
    qed
  next
    case 2
    then have g: "?g = (\<lambda>x. of_bool (sint x < sint (ucast instr :: u16)))" by (auto simp: mips_immediate_def fun_eq_iff)
    show ?thesis using 2 sextd [of Lt "simm instr"] unfolding g by (simp add: truth32 word_sless_alt sext_sint simm32(2))
  next
    case 3
    then have g: "?g = (\<lambda>x. of_bool (unat x < unat (word_of_int (sint (ucast instr :: u16)) :: u32)))" by (auto simp: mips_immediate_def fun_eq_iff)
    show ?thesis using 3 sextd [of Lt_u "simm instr"] sext_unsigned_less [OF _ sx] unfolding g by (simp add: truth32 simm32(1))
  next
    case 4
    then have g: "?g = (\<lambda>x. x AND word_of_nat (unat (ucast instr :: u16)))" by (auto simp: mips_immediate_def fun_eq_iff)
    show ?thesis using 4 plain_load [of And "uimm instr"] unfolding g by (simp add: ucast_and32 uimm32(1))
  next
    case 5
    then have g: "?g = (\<lambda>x. x OR word_of_nat (unat (ucast instr :: u16)))" by (auto simp: mips_immediate_def fun_eq_iff)
    show ?thesis
    proof (cases "rs_of instr = 0")
      case True
      then show ?thesis using 5 const [of "uimm instr"] uimm32 [of instr] zero unfolding g by simp
    next
      case False
      then show ?thesis using 5 plain_load [of Or "uimm instr"] unfolding g by (simp add: ucast_or32 uimm32(1))
    qed
  next
    case 6
    then have g: "?g = (\<lambda>x. x XOR word_of_nat (unat (ucast instr :: u16)))" by (auto simp: mips_immediate_def fun_eq_iff)
    show ?thesis using 6 plain_load [of Xor "uimm instr"] unfolding g by (simp add: ucast_xor32 uimm32(1))
  next
    case 7
    let ?v = "push_bit 16 (scast (ucast instr :: u16)) :: u32"
    have "?v = push_bit 16 (ucast (ucast instr :: u16))" by (rule bit_word_eqI) (auto simp: bit_simps)
    also have "\<dots> = word_of_nat (unat (ucast instr :: u16) * 2 ^ 16)" by (simp add: push_bit_eq_mult of_nat_unat)
    finally have "?v = ?g (sr s (rs_of instr))" using 7 by (simp add: mips_immediate_def)
    then show ?thesis using 7 const [of "scast ?v"] by simp
  qed
qed

end
