(* ===== verification/Handler_Footprint.thy ===== *)
theory Handler_Footprint
  imports Cp2
begin

text \<open>
  Which scalar registers the handlers that generated code calls read and write: vector instructions none, vector loads and stores read
  their base register, the moves of coprocessor 2 read or write one register. Generated code relies on this: before it calls a handler it
  only brings that register up to date in memory. None of them touches the pending branch of \<open>CPUState\<close>.
\<close>

section \<open>Changing scalar registers around a handler\<close>

text \<open>The scalar registers and the pending branch, changed together.\<close>

datatype scalars = Scalars (reg_file: "nat \<Rightarrow> u32") (pending: u32) (pending_target: u32)

definition with_sr :: "scalars \<Rightarrow> CPUState \<Rightarrow> CPUState" where
  "with_sr x s = s\<lparr>sr := reg_file x, has_delay_slot := pending x, branch_target := pending_target x\<rparr>"

lemma with_sr_simps [simp]:
  "sr (with_sr x s) = reg_file x" "has_delay_slot (with_sr x s) = pending x" "branch_target (with_sr x s) = pending_target x" "cp2 (with_sr x s) = cp2 s" "dmem (with_sr x s) = dmem s" "with_sr x (with_sr y s) = with_sr x s"
  by (simp_all add: with_sr_def)

lemma with_sr_vector [simp]:
  "STORE_RESULT vd v (with_sr x s) = with_sr x (STORE_RESULT vd v s)" "set_acc f (with_sr x s) = with_sr x (set_acc f s)"
  "set_flag r g (with_sr x s) = with_sr x (set_flag r g s)" "set_dp_flag b (with_sr x s) = with_sr x (set_dp_flag b s)"
  "write_element (with_sr x s) r i w = with_sr x (write_element s r i w)" "(with_sr x s)\<lparr>cp2 := c\<rparr> = with_sr x (s\<lparr>cp2 := c\<rparr>)"
  "LOAD_VS (with_sr x s) vs = LOAD_VS s vs" "LOAD_VT t e (with_sr x s) vt = LOAD_VT t e s vt"
  "set_reg rt h (with_sr x s) = with_sr x (set_reg rt h s)" "set_dmem m (with_sr x s) = with_sr x (set_dmem m s)"
  by (simp_all add: with_sr_def STORE_RESULT_def set_acc_def set_flag_def set_dp_flag_def write_element_def LOAD_VS_def LOAD_VT_def
      set_reg_def set_dmem_def)

text \<open>A loop commutes with the change if its body does.\<close>

lemma fold_commute: "(\<And>i s. f i (w s) = w (f i s)) \<Longrightarrow> fold f xs (w s) = w (fold f xs s)"
  by (induction xs arbitrary: s) simp_all

lemma fold_pair_commute:
  assumes "\<And>i s p. f i (w s, p) = (w (fst (f i (s, p))), snd (f i (s, p)))"
  shows "fold f xs (w s, p) = (w (fst (fold f xs (s, p))), snd (fold f xs (s, p)))"
proof (induction xs arbitrary: s p)
  case (Cons i xs)
  show ?case using Cons.IH [of "fst (f i (s, p))" "snd (f i (s, p))"] by (simp add: assms)
qed simp

section \<open>Vector instructions\<close>

definition scalar_free :: "(CPUState \<Rightarrow> CPUState) \<Rightarrow> bool" where
  "scalar_free g \<longleftrightarrow> (\<forall>s x. g (with_sr x s) = with_sr x (g s))"

lemma scalar_free_alu:
  "scalar_free (\<lambda>s. RSP_VABS t e s vd vs vt)" "scalar_free (\<lambda>s. RSP_VADD t e s vd vs vt)" "scalar_free (\<lambda>s. RSP_VSUB t e s vd vs vt)"
  "scalar_free (\<lambda>s. RSP_VADDC t e s vd vs vt)" "scalar_free (\<lambda>s. RSP_VSUBC t e s vd vs vt)" "scalar_free (\<lambda>s. RSP_VAND t e s vd vs vt)"
  "scalar_free (\<lambda>s. RSP_VNAND t e s vd vs vt)" "scalar_free (\<lambda>s. RSP_VOR t e s vd vs vt)" "scalar_free (\<lambda>s. RSP_VNOR t e s vd vs vt)"
  "scalar_free (\<lambda>s. RSP_VXOR t e s vd vs vt)" "scalar_free (\<lambda>s. RSP_VNXOR t e s vd vs vt)" "scalar_free (\<lambda>s. RSP_VCH t e s vd vs vt)"
  "scalar_free (\<lambda>s. RSP_VCL t e s vd vs vt)" "scalar_free (\<lambda>s. RSP_VCR t e s vd vs vt)" "scalar_free (\<lambda>s. RSP_VEQ t e s vd vs vt)"
  "scalar_free (\<lambda>s. RSP_VGE t e s vd vs vt)" "scalar_free (\<lambda>s. RSP_VLT t e s vd vs vt)" "scalar_free (\<lambda>s. RSP_VNE t e s vd vs vt)"
  "scalar_free (\<lambda>s. RSP_VMRG t e s vd vs vt)" "scalar_free (\<lambda>s. RSP_VSAR t e s vd vs vt)" "scalar_free (\<lambda>s. RSP_VNOP t e s vd vs vt)"
  "scalar_free (\<lambda>s. RSP_VINVALID t e s vd vs vt)" "scalar_free (\<lambda>s. RSP_RESERVED t e s vd vs vt)"
  by (simp_all add: scalar_free_def RSP_VABS_def RSP_VADD_def RSP_VSUB_def RSP_VADDC_def RSP_VSUBC_def RSP_VAND_def RSP_VNAND_def
      RSP_VOR_def RSP_VNOR_def RSP_VXOR_def RSP_VNXOR_def RSP_VCH_def RSP_VCL_def RSP_VCR_def RSP_VEQ_def RSP_VGE_def RSP_VLT_def
      RSP_VNE_def RSP_VMRG_def RSP_VSAR_def RSP_VNOP_def RSP_VINVALID_def RSP_RESERVED_def Let_def split_beta)

lemma scalar_free_mul:
  "scalar_free (\<lambda>s. RSP_VMACF t e s vd vs vt)" "scalar_free (\<lambda>s. RSP_VMACU t e s vd vs vt)" "scalar_free (\<lambda>s. RSP_VMADH t e s vd vs vt)"
  "scalar_free (\<lambda>s. RSP_VMUDH t e s vd vs vt)" "scalar_free (\<lambda>s. RSP_VMADL t e s vd vs vt)" "scalar_free (\<lambda>s. RSP_VMUDL t e s vd vs vt)"
  "scalar_free (\<lambda>s. RSP_VMADM t e s vd vs vt)" "scalar_free (\<lambda>s. RSP_VMUDM t e s vd vs vt)" "scalar_free (\<lambda>s. RSP_VMADN t e s vd vs vt)"
  "scalar_free (\<lambda>s. RSP_VMUDN t e s vd vs vt)" "scalar_free (\<lambda>s. RSP_VMULF t e s vd vs vt)" "scalar_free (\<lambda>s. RSP_VMULU t e s vd vs vt)"
  by (simp_all add: scalar_free_def RSP_VMACF_def RSP_VMACU_def RSP_VMADH_def RSP_VMUDH_def RSP_VMADL_def RSP_VMUDL_def RSP_VMADM_def
      RSP_VMUDM_def RSP_VMADN_def RSP_VMUDN_def RSP_VMULF_def RSP_VMULU_def Let_def split_beta)

lemma scalar_free_loops:
  "scalar_free (\<lambda>s. RSP_VMACQ t e s vd vs vt)" "scalar_free (\<lambda>s. RSP_VMULQ t e s vd vs vt)" "scalar_free (\<lambda>s. RSP_VRNDN t e s vd vs vt)"
  "scalar_free (\<lambda>s. RSP_VRNDP t e s vd vs vt)"
proof -
  have "vmacq_lane vd i (with_sr x s) = with_sr x (vmacq_lane vd i s)" "vmulq_lane vd vs v i (with_sr x s) = with_sr x (vmulq_lane vd vs v i s)"
    "vrnd_lane vd vs b v i (with_sr x s) = with_sr x (vrnd_lane vd vs b v i s)" for i x s v b
    by (simp_all add: vmacq_lane_def vmulq_lane_def vrnd_lane_def Let_def)
  then have "fold (vmacq_lane vd) xs (with_sr x s) = with_sr x (fold (vmacq_lane vd) xs s)"
    "fold (vmulq_lane vd vs v) xs (with_sr x s) = with_sr x (fold (vmulq_lane vd vs v) xs s)"
    "fold (vrnd_lane vd vs b v) xs (with_sr x s) = with_sr x (fold (vrnd_lane vd vs b v) xs s)" for x s v b xs
    by (intro fold_commute; simp)+
  then show "scalar_free (\<lambda>s. RSP_VMACQ t e s vd vs vt)" "scalar_free (\<lambda>s. RSP_VMULQ t e s vd vs vt)"
    "scalar_free (\<lambda>s. RSP_VRNDN t e s vd vs vt)" "scalar_free (\<lambda>s. RSP_VRNDP t e s vd vs vt)"
    by (simp_all add: scalar_free_def RSP_VMACQ_def RSP_VMULQ_def RSP_VRNDN_def RSP_VRNDP_def RSP_VRND_def Let_def)
qed

lemma scalar_free_divide:
  "scalar_free (\<lambda>s. RSP_VMOV t e s vd vs vt)" "scalar_free (\<lambda>s. RSP_VRCP t e s vd vs vt)" "scalar_free (\<lambda>s. RSP_VRCPL t e s vd vs vt)"
  "scalar_free (\<lambda>s. RSP_VRSQ t e s vd vs vt)" "scalar_free (\<lambda>s. RSP_VRSQL t e s vd vs vt)" "scalar_free (\<lambda>s. RSP_VRCPH t e s vd vs vt)"
  "scalar_free (\<lambda>s. RSP_VRSQH t e s vd vs vt)"
proof -
  have "rsp_vrcp_vrsq sq (with_sr x s) dp vt e vd de =
      (with_sr x (fst (rsp_vrcp_vrsq sq s dp vt e vd de)), snd (rsp_vrcp_vrsq sq s dp vt e vd de))"
    "rsp_vdivh (with_sr x s) vt e vd de = (with_sr x (fst (rsp_vdivh s vt e vd de)), snd (rsp_vdivh s vt e vd de))" for sq x s dp vt e vd de
    by (simp_all add: rsp_vrcp_vrsq_def rsp_vdivh_def Let_def split_beta)
  then show "scalar_free (\<lambda>s. RSP_VMOV t e s vd vs vt)" "scalar_free (\<lambda>s. RSP_VRCP t e s vd vs vt)" "scalar_free (\<lambda>s. RSP_VRCPL t e s vd vs vt)"
    "scalar_free (\<lambda>s. RSP_VRSQ t e s vd vs vt)" "scalar_free (\<lambda>s. RSP_VRSQL t e s vd vs vt)" "scalar_free (\<lambda>s. RSP_VRCPH t e s vd vs vt)"
    "scalar_free (\<lambda>s. RSP_VRSQH t e s vd vs vt)"
  by (simp_all add: scalar_free_def RSP_VMOV_def RSP_VRCP_def RSP_VRCPL_def RSP_VRSQ_def RSP_VRSQL_def RSP_VRCPH_def RSP_VRSQH_def
      Let_def split_beta)
qed

lemma vu_handler_cases:
  assumes "\<And>h. h \<in> {RSP_VMULF, RSP_VMULU, RSP_VRNDP, RSP_VMULQ, RSP_VMUDL, RSP_VMUDM, RSP_VMUDN, RSP_VMUDH, RSP_VMACF, RSP_VMACU, RSP_VRNDN,
     RSP_VMACQ, RSP_VMADL, RSP_VMADM, RSP_VMADN, RSP_VMADH, RSP_VADD, RSP_VSUB, RSP_VABS, RSP_VADDC, RSP_VSUBC, RSP_VSAR, RSP_VLT, RSP_VEQ, RSP_VNE,
     RSP_VGE, RSP_VCL, RSP_VCH, RSP_VCR, RSP_VMRG, RSP_VAND, RSP_VNAND, RSP_VOR, RSP_VNOR, RSP_VXOR, RSP_VNXOR, RSP_VRCP, RSP_VRCPL, RSP_VRCPH,
     RSP_VMOV, RSP_VRSQ, RSP_VRSQL, RSP_VRSQH, RSP_VNOP, RSP_RESERVED} \<Longrightarrow> P h"
  shows "P (vu_handler_of instr)"
proof -
  have len: "length vu_ops = 64" by (simp add: vu_ops_def)
  have "instr AND 63 \<le> 63" by (rule word_and_le1)
  then have "unat (instr AND 63) < 64" by (simp add: word_le_nat_alt)
  then have mem: "vu_ops ! unat (instr AND 63) \<in> set vu_ops" using len by (metis nth_mem)
  show ?thesis
  proof (cases "vu_ops ! unat (instr AND 63)")
    case None
    then show ?thesis unfolding vu_handler_of_def by (auto intro: assms)
  next
    case (Some h)
    have "P h" by (rule assms) (use mem Some in \<open>unfold vu_ops_def, auto\<close>)
    then show ?thesis unfolding vu_handler_of_def Some by simp
  qed
qed

lemma scalar_free_vu_instruction: "scalar_free (vu_instruction t instr)"
proof -
  have "scalar_free (\<lambda>s. vu_handler_of instr t e s vd vs vt)" for e vd vs vt
    by (rule vu_handler_cases [where P = "\<lambda>h. scalar_free (\<lambda>s. h t e s vd vs vt)"])
      (auto intro: scalar_free_alu scalar_free_mul scalar_free_loops scalar_free_divide)
  then show ?thesis unfolding scalar_free_def vu_instruction_def run_packed_vu_def Let_def by (simp add: split_beta)
qed

section \<open>Vector loads and stores\<close>

text \<open>Only the value of register \<open>r\<close> matters, and no scalar register changes.\<close>

definition reads_only :: "nat \<Rightarrow> (CPUState \<Rightarrow> CPUState) \<Rightarrow> bool" where
  "reads_only r g \<longleftrightarrow> (\<forall>s x. reg_file x r = sr s r \<longrightarrow> g (with_sr x s) = with_sr x (g s))"

lemma scalar_free_reads_only: "scalar_free g \<Longrightarrow> reads_only r g"
  by (simp add: scalar_free_def reads_only_def)

lemma with_sr_self: "with_sr (Scalars (sr s) (has_delay_slot s) (branch_target s)) s = s"
  by (simp add: with_sr_def)

lemma reads_only_keeps:
  assumes "reads_only r g"
  shows "sr (g s) = sr s" "has_delay_slot (g s) = has_delay_slot s" "branch_target (g s) = branch_target s"
proof -
  have "g (with_sr (Scalars (sr s) (has_delay_slot s) (branch_target s)) s) = with_sr (Scalars (sr s) (has_delay_slot s) (branch_target s)) (g s)"
    using assms by (simp add: reads_only_def)
  then have "g s = with_sr (Scalars (sr s) (has_delay_slot s) (branch_target s)) (g s)" unfolding with_sr_self .
  then show "sr (g s) = sr s" "has_delay_slot (g s) = has_delay_slot s" "branch_target (g s) = branch_target s"
    by (metis with_sr_simps(1-3) scalars.sel)+
qed

lemma reads_only_sr_update: "reads_only r g \<Longrightarrow> x r = sr s r \<Longrightarrow> g (s\<lparr>sr := x\<rparr>) = (g s)\<lparr>sr := x\<rparr>"
proof -
  assume g: "reads_only r g" and x: "x r = sr s r"
  let ?x = "Scalars x (has_delay_slot s) (branch_target s)"
  have "g (with_sr ?x s) = with_sr ?x (g s)" using g x by (simp add: reads_only_def)
  moreover have "with_sr ?x s = s\<lparr>sr := x\<rparr>" by (simp add: with_sr_def)
  moreover have "with_sr ?x (g s) = (g s)\<lparr>sr := x\<rparr>" by (rule CPUState.equality) (simp_all add: with_sr_def reads_only_keeps [OF g])
  ultimately show ?thesis by simp
qed

lemma scalar_free_sr_update: "scalar_free g \<Longrightarrow> g (s\<lparr>sr := x\<rparr>) = (g s)\<lparr>sr := x\<rparr>"
proof -
  assume g: "scalar_free g"
  let ?x = "Scalars x (has_delay_slot s) (branch_target s)"
  have "g (with_sr ?x s) = with_sr ?x (g s)" using g by (simp add: scalar_free_def)
  moreover have "with_sr ?x s = s\<lparr>sr := x\<rparr>" by (simp add: with_sr_def)
  moreover have "with_sr ?x (g s) = (g s)\<lparr>sr := x\<rparr>" 
    by (rule CPUState.equality) (simp_all add: with_sr_def reads_only_keeps [OF scalar_free_reads_only [OF g]])
  ultimately show ?thesis by simp
qed

lemma load_bytes_commute [simp]: "load_bytes rt i n a (with_sr x s) = with_sr x (load_bytes rt i n a s)"
  unfolding load_bytes_def by (subst fold_pair_commute [where w = "with_sr x"]) (simp_all add: split_beta)

lemma store_bytes_commute [simp]: "store_bytes rt k i n a (with_sr x s) = with_sr x (store_bytes rt k i n a s)"
  unfolding store_bytes_def by (subst fold_pair_commute [where w = "with_sr x"]) (simp_all add: split_beta)

lemma fold_with_sr: "(\<And>i s. f i (with_sr x s) = with_sr x (f i s)) \<Longrightarrow> fold f xs (with_sr x s) = with_sr x (fold f xs s)"
  by (rule fold_commute [where w = "with_sr x"])

lemma fold_pair_with_sr:
  "(\<And>i s p. f i (with_sr x s, p) = (with_sr x (fst (f i (s, p))), snd (f i (s, p)))) \<Longrightarrow>
    fst (fold f xs (with_sr x s, p)) = with_sr x (fst (fold f xs (s, p)))"
  using fold_pair_commute [where w = "with_sr x" and f = f and xs = xs and s = s and p = p] by simp

lemma reads_only_loads:
  "reads_only base (\<lambda>s. RSP_LBV t e s rt offset base)" "reads_only base (\<lambda>s. RSP_LSV t e s rt offset base)"
  "reads_only base (\<lambda>s. RSP_LLV t e s rt offset base)" "reads_only base (\<lambda>s. RSP_LDV t e s rt offset base)"
  "reads_only base (\<lambda>s. RSP_LQV t e s rt offset base)" "reads_only base (\<lambda>s. RSP_LRV t e s rt offset base)"
  "reads_only base (\<lambda>s. RSP_LPV t e s rt offset base)" "reads_only base (\<lambda>s. RSP_LUV t e s rt offset base)"
  "reads_only base (\<lambda>s. RSP_LHV t e s rt offset base)" "reads_only base (\<lambda>s. RSP_LFV t e s rt offset base)"
  by (simp_all add: reads_only_def RSP_LBV_def RSP_LSV_def RSP_LLV_def RSP_LDV_def RSP_LQV_def RSP_LRV_def RSP_LPV_def RSP_LUV_def
      RSP_LHV_def RSP_LFV_def Let_def split_beta fold_with_sr fold_pair_with_sr cong: if_cong)

lemma reads_only_stores:
  "reads_only base (\<lambda>s. RSP_SBV t e s rt offset base)" "reads_only base (\<lambda>s. RSP_SSV t e s rt offset base)"
  "reads_only base (\<lambda>s. RSP_SLV t e s rt offset base)" "reads_only base (\<lambda>s. RSP_SDV t e s rt offset base)"
  "reads_only base (\<lambda>s. RSP_SQV t e s rt offset base)" "reads_only base (\<lambda>s. RSP_SRV t e s rt offset base)"
  "reads_only base (\<lambda>s. RSP_SPV t e s rt offset base)" "reads_only base (\<lambda>s. RSP_SUV t e s rt offset base)"
  "reads_only base (\<lambda>s. RSP_SHV t e s rt offset base)" "reads_only base (\<lambda>s. RSP_SFV t e s rt offset base)"
  "reads_only base (\<lambda>s. RSP_SWV t e s rt offset base)" "reads_only base (\<lambda>s. RSP_STV t e s rt offset base)"
  by (simp_all add: reads_only_def RSP_SBV_def RSP_SSV_def RSP_SLV_def RSP_SDV_def RSP_SQV_def RSP_SRV_def RSP_SPV_def RSP_SUV_def
      RSP_SHV_def RSP_SFV_def RSP_SWV_def RSP_STV_def Let_def split_beta fold_with_sr fold_pair_with_sr split: option.split)

lemma reads_only_transposed: "reads_only base (\<lambda>s. RSP_LTV t e s rt offset base)"
  by (simp add: reads_only_def RSP_LTV_def Let_def split_beta fold_pair_with_sr cong: if_cong)

lemma reads_only_offset: "reads_only base (\<lambda>s. RSP_LWV t e s rt offset base)"
  by (simp add: reads_only_def RSP_LWV_def Let_def split_beta fold_pair_with_sr)

section \<open>Moves of coprocessor 2\<close>

lemma reads_only_moves: "reads_only rt (\<lambda>s. RSP_MTC2 s rt rd e)" "reads_only rt (\<lambda>s. RSP_CTC2 s rt rd)"
  by (simp_all add: reads_only_def RSP_MTC2_def RSP_CTC2_def Let_def split_beta)

text \<open>These two only write register \<open>rt\<close>.\<close>

definition writes_only :: "nat \<Rightarrow> (CPUState \<Rightarrow> CPUState) \<Rightarrow> bool" where
  "writes_only r g \<longleftrightarrow> (\<exists>f. \<forall>s. g s = s\<lparr>sr := (sr s)(r := f s)\<rparr> \<and> (\<forall>x. f (with_sr x s) = f s)) \<or> g = id"

lemma writes_only_moves: "writes_only rt (\<lambda>s. RSP_MFC2 s rt rd e)" "writes_only rt (\<lambda>s. RSP_CFC2 s rt rd)"
proof -
  have "writes_only rt (\<lambda>s. set_sr rt (f (cp2 s)) s)" for f
    unfolding writes_only_def set_sr_def by (intro disjI1 exI [of _ "\<lambda>s. f (cp2 s)"]) simp
  moreover have "writes_only rt (\<lambda>s. s)" by (simp add: writes_only_def fun_eq_iff)
  ultimately have w: "writes_only rt (\<lambda>s. if b then s else set_sr rt (f (cp2 s)) s)" for f b by (cases b) simp_all
  show "writes_only rt (\<lambda>s. RSP_CFC2 s rt rd)"
    using w [of "rt = 0" "\<lambda>c. scast (rsp_get_flags (flags c (if rd mod 4 = 3 then 2 else rd mod 4)))"]
    unfolding RSP_CFC2_def Let_def by (cases "rt = 0") simp_all
  show "writes_only rt (\<lambda>s. RSP_MFC2 s rt rd e)"
    using w [of "rt = 0" "\<lambda>c. scast (regs c rd (e div 2))"]
      w [of "rt = 0" "\<lambda>c. scast (push_bit 8 (regs c rd (e div 2)) OR ucast (ucast (drop_bit 8 (regs c rd ((e + 1) div 2 mod 8))) :: u8))"]
    unfolding RSP_MFC2_def Let_def by (cases "rt = 0"; cases "odd e"; simp)
qed

end
