(* ===== verification/Jit_Memory.thy ===== *)
theory Jit_Memory
  imports Jit_Alu Handler_Footprint
begin

unbundle bit_operations_syntax

text \<open>
  Correctness of the code emitted for loads, stores and for instructions that call a handler, and of straight-line code as a whole.
\<close>

section \<open>Code with a slow path\<close>

definition straight :: "jit_op \<Rightarrow> bool" where
  "straight oper \<longleftrightarrow> plain oper \<and> (\<forall>n. \<not> is_patch n oper)"

lemma straight_simps [simp]: "straight (jit_r f d a b)" "straight (jit_i f d a k)" "straight (jit_movr d a)" "straight (jit_movi d k)"
  "straight (jit_ldxr w d a)" "straight (jit_stxr w d a)" "straight (jit_finishi c as)" "straight (jit_retval d)"
  by (simp_all add: straight_def is_patch_def)

lemma exec_straight: "list_all straight ops \<Longrightarrow> exec cl (ops @ rest) h = exec cl rest (fold (exec_op cl) ops h)"
  by (induction ops arbitrary: h) (simp_all add: straight_def plain_def)

lemma skip_straight: "list_all straight ops \<Longrightarrow> dropWhile (\<lambda>x. \<not> is_patch n x) (ops @ rest) = dropWhile (\<lambda>x. \<not> is_patch n x) rest"
  by (induction ops) (simp_all add: straight_def)

text \<open>The shape of the unaligned accesses: a fast path unless some masked bits are set, then the slow path.\<close>

lemma exec_guarded:
  assumes "list_all straight fast" "list_all straight slow" "n \<noteq> k"
  shows "exec cl (jit_bmsi a m n # fast @ jit_jmpi k # jit_patch n # slow @ [jit_patch k]) h =
    Falls (fold (exec_op cl) (if jit_regs h a AND m = 0 then fast else slow) h)"
proof (cases "jit_regs h a AND m = 0")
  case True
  have "dropWhile (\<lambda>x. \<not> is_patch k x) (jit_patch n # slow @ [jit_patch k]) = [jit_patch k]"
    using assms skip_straight [of slow k "[jit_patch k]"] by (simp add: is_patch_def)
  then show ?thesis using True exec_straight [OF assms(1)] by (simp add: jump_of_def branch_of_def exec_op_def)
next
  case False
  have "dropWhile (\<lambda>x. \<not> is_patch n x) (fast @ jit_jmpi k # jit_patch n # slow @ [jit_patch k]) = jit_patch n # slow @ [jit_patch k]"
    using skip_straight [OF assms(1)] by (simp add: is_patch_def)
  then show ?thesis using False exec_straight [OF assms(2), of cl "[jit_patch k]"] by (simp add: jump_of_def branch_of_def exec_op_def)
qed

section \<open>Changes of the host that the cache tolerates\<close>

text \<open>A host register that holds nothing, or only a scratch register, may be overwritten.\<close>

lemma represents_scribble:
  assumes rep: "represents R em [] h s" and i: "i < length (entries em)" and scratch: "\<And>r. holds em i r \<Longrightarrow> writable em i r \<and> r > 32"
  shows "\<exists>s'. represents R em [] (put_reg (entry_to_jit_register R i) v h) s' \<and> agrees s s'"
proof (cases "is_live (entries em ! i)")
  case False
  have "entry_ok [] s (entries em ! j) (jit_regs (put_reg (entry_to_jit_register R i) v h) (entry_to_jit_register R j))"
    if "j < length (entries em)" for j
    using rep that False by (cases "j = i") (simp_all add: represents_def entry_ok_def)
  then have "represents R em [] (put_reg (entry_to_jit_register R i) v h) s" using rep by (simp add: represents_def)
  then show ?thesis using agrees_refl by blast
next
  case True
  let ?r = "mips_register (entries em ! i)"
  have held: "holds em i ?r" using True i by (simp add: holds_def)
  have r: "writable em i ?r" "?r > 32" using scratch [OF held] by simp_all
  have ok: "entry_ok [] s (entries em ! i) (jit_regs h (entry_to_jit_register R i))" using rep i by (simp add: represents_def)
  have "represents R em [] (put_reg (entry_to_jit_register R i) v h) (s\<lparr>sr := (sr s)(?r := ucast v)\<rparr>) \<and> holds em i ?r \<and> keeps_locked [] em em"
  proof (rule represents_hold [OF rep i _ _ True refl])
    show "\<not> holds em j ?r" if "j \<noteq> i" for j using represents_unique [OF rep held] that by blast
  qed (use ok r True in \<open>auto simp: entry_ok_def writable_def\<close>)
  then show ?thesis using agrees_scratch [OF r(2)] by blast
qed

section \<open>Memory of the processor\<close>

text \<open>The processor is big endian and its addresses wrap around at 4 KiB; a byte may be at any address.\<close>

definition mips_byte :: "(nat \<Rightarrow> u8) \<Rightarrow> u32 \<Rightarrow> u8" where
  "mips_byte m a = READ_MEM_U8 m (a AND 0xfff)"

definition mips_half :: "(nat \<Rightarrow> u8) \<Rightarrow> u32 \<Rightarrow> u16" where
  "mips_half m a = word_cat (mips_byte m a) (mips_byte m (a + 1))"

definition mips_word :: "(nat \<Rightarrow> u8) \<Rightarrow> u32 \<Rightarrow> u32" where
  "mips_word m a = word_cat (mips_half m a) (mips_half m (a + 2))"

definition mips_load :: "nat \<Rightarrow> (nat \<Rightarrow> u8) \<Rightarrow> u32 \<Rightarrow> u32" where
  "mips_load type m a =
     (if type = 32 then scast (mips_byte m a)
      else if type = 33 then scast (mips_half m a)
      else if type = 36 then ucast (mips_byte m a)
      else if type = 37 then ucast (mips_half m a)
      else mips_word m a)"

text \<open>The bytes that a store writes, the most significant one first.\<close>

definition mips_store :: "nat \<Rightarrow> u32 \<Rightarrow> u32 \<Rightarrow> (nat \<Rightarrow> u8) \<Rightarrow> nat \<Rightarrow> u8" where
  "mips_store type a v m =
     (let n = (if type = 40 then 1 else if type = 41 then 2 else 4)
      in fold (\<lambda>k m. WRITE_MEM_U8 m ((a + word_of_nat k) AND 0xfff) (ucast (drop_bit (8 * (n - 1 - k)) v))) [0..<n] m)"

definition mips_memory :: "u32 \<Rightarrow> CPUState \<Rightarrow> CPUState" where
  "mips_memory instr s =
     (let type = unat (drop_bit 26 instr); rt = rt_of instr; a = sr s (rs_of instr) + word_of_int (sint (ucast instr :: u16))
      in if type < 40 then (if rt = 0 then s else s\<lparr>sr := (sr s)(rt := mips_load type (dmem s) a)\<rparr>)
         else s\<lparr>dmem := mips_store type a (sr s rt) (dmem s)\<rparr>)"

lemma fff_mod: "unat (x AND 0xfff) = unat x mod 4096" for x :: u64
proof -
  have "x AND 0xfff = take_bit 12 x" by (simp add: take_bit_eq_mask mask_eq_exp_minus_1)
  then show ?thesis by (simp only: unsigned_take_bit_eq) (simp add: take_bit_eq_mod)
qed

lemma mips_byte_at: "mips_byte m (ucast y + word_of_nat k) = m (BES ((unat y + k) mod 4096))" for y :: u64
proof -
  have "unat (ucast y :: u32) mod 4096 = unat y mod 4096" by (simp add: unsigned_ucast_eq take_bit_eq_mod mod_mod_cancel)
  then have "(unat (ucast y :: u32) + k) mod 4096 = (unat y + k) mod 4096" by (rule mod_add_cong) simp
  then show ?thesis unfolding mips_byte_def READ_MEM_U8_def unat_offset by simp
qed

lemma fixup_at: "BYTE_ENDIAN_FIXUP (y AND 0xfff) k = BES ((unat y + k) mod 4096)"
proof -
  have "take_bit 12 (unat ((y AND 0xfff) + word_of_nat k)) = (unat y + k) mod 4096"
  proof -
    have "unat ((y AND 0xfff) + word_of_nat k) mod 4096 = (unat (y AND 0xfff) + k) mod 2 ^ 64 mod 4096"
      by (simp add: unat_word_ariths unat_of_nat mod_simps)
    also have "\<dots> = (unat (y AND 0xfff) + k) mod 4096" by (rule mod_mod_cancel) simp
    finally show ?thesis by (simp add: fff_mod take_bit_eq_mod mod_simps)
  qed
  moreover have "BYTE_ENDIAN_FIXUP (y AND 0xfff) k = take_bit 12 (unat (((y AND 0xfff) + word_of_nat k) XOR 3))"
    unfolding BYTE_ENDIAN_FIXUP_def fff_mod by (simp add: take_bit_eq_mod)
  moreover have "take_bit 12 (3 :: nat) = 3" by (simp add: take_bit_eq_mod)
  ultimately show ?thesis by (simp add: unsigned_xor_eq take_bit_xor BES_def)
qed

lemma HES_value: "HES a = (if a mod 4 < 2 then a + 2 else a - 2)"
proof -
  obtain q r where a: "a = 4 * q + r" "r < 4" by (metis mod_less_divisor mult_div_mod_eq zero_less_numeral)
  have s: "(4 * q + r) XOR 2 = of_bool (odd r) + 2 * ((2 * q + r div 2) XOR 1)" if "r < 4"
    by (subst xor_nat_rec) (use that in \<open>simp add: div_add1_eq\<close>)
  have "r \<in> {0, 1, 2, 3}" using a by auto
  then show ?thesis unfolding HES_def a(1) s [OF a(2)] by (auto simp: xor_Suc_0_eq)
qed

lemma flip_at: "unat ((y AND 0xfff) XOR 3 :: u64) = BES (unat y mod 4096)" "unat ((y AND 0xfff) XOR 2 :: u64) = HES (unat y mod 4096)"
  by (simp_all add: unsigned_xor_eq fff_mod BES_def HES_def)

lemma low_bits: "x AND 1 = 0 \<longleftrightarrow> unat x mod 2 = 0" "x AND 3 = 0 \<longleftrightarrow> unat x mod 4 = 0" for x :: u64
proof -
  have "x AND 1 = take_bit 1 x" "x AND 3 = take_bit 2 x" by (simp_all add: take_bit_eq_mask mask_eq_exp_minus_1)
  then have "unat (x AND 1) = unat x mod 2" "unat (x AND 3) = unat x mod 4"
    by (simp_all only: unsigned_take_bit_eq) (simp_all add: take_bit_eq_mod)
  then show "x AND 1 = 0 \<longleftrightarrow> unat x mod 2 = 0" "x AND 3 = 0 \<longleftrightarrow> unat x mod 4 = 0" by (metis unat_eq_zero)+
qed

lemma offset_at:
  assumes "unat y mod 4096 + k < 4096" shows "(unat y + k) mod 4096 = unat y mod 4096 + k"
  using assms by (metis mod_add_left_eq mod_less)

lemma half_at:
  assumes "(y AND 0xfff) AND 1 = (0 :: u64)"
  shows "HES (unat y mod 4096) = BES ((unat y + 1) mod 4096)" "HES (unat y mod 4096) + 1 = BES (unat y mod 4096)"
proof -
  obtain n where n: "unat y mod 4096 = n" "n < 4096" by simp
  have e: "n mod 2 = 0" using assms unfolding low_bits fff_mod n(1) .
  have "n + 1 < 4096" using e n(2) by presburger
  from offset_at [of y 1, unfolded n(1), OF this] have s: "(unat y + 1) mod 4096 = n + 1" .
  have c: "n mod 4 = 0 \<or> n mod 4 = 2" "(n + 1) mod 4 = n mod 4 + 1" "n mod 4 = 2 \<Longrightarrow> 2 \<le> n" using e by presburger+
  then show "HES (unat y mod 4096) = BES ((unat y + 1) mod 4096)" "HES (unat y mod 4096) + 1 = BES (unat y mod 4096)"
    unfolding s n(1) BES_value HES_value by auto
qed

lemma word_at:
  assumes "(y AND 0xfff) AND 3 = (0 :: u64)" "k < 4"
  shows "unat (y AND 0xfff) + k = BES ((unat y + (3 - k)) mod 4096)"
proof -
  obtain n where n: "unat y mod 4096 = n" "n < 4096" by simp
  have e: "n mod 4 = 0" using assms unfolding low_bits fff_mod n(1) by simp
  have "n + (3 - k) < 4096" using e n(2) by presburger
  from offset_at [of y "3 - k", unfolded n(1), OF this] have s: "(unat y + (3 - k)) mod 4096 = n + (3 - k)" .
  have "k \<in> {0, 1, 2, 3}" using assms(2) by auto
  then show ?thesis unfolding s fff_mod n(1) using e BES_offset [of n "3 - k"] by (auto simp: BES_value mod_eq_0_iff_dvd)
qed

lemma mips_bytes:
  "mips_byte m (ucast y) = m (BES (unat y mod 4096))"
  "mips_half m (ucast y) = word_cat (m (BES (unat y mod 4096))) (m (BES ((unat y + 1) mod 4096)))"
  "mips_word m (ucast y) = word_cat (word_cat (m (BES (unat y mod 4096))) (m (BES ((unat y + 1) mod 4096))) :: u16)
     (word_cat (m (BES ((unat y + 2) mod 4096))) (m (BES ((unat y + 3) mod 4096))) :: u16)"
  for y :: u64
proof -
  have b: "mips_byte m (ucast y) = m (BES (unat y mod 4096))" "mips_byte m (ucast y + 1) = m (BES ((unat y + 1) mod 4096))"
    "mips_byte m (ucast y + 2) = m (BES ((unat y + 2) mod 4096))" "mips_byte m (ucast y + 3) = m (BES ((unat y + 3) mod 4096))"
    using mips_byte_at [of m y 0] mips_byte_at [of m y 1] mips_byte_at [of m y 2] mips_byte_at [of m y 3] by simp_all
  have three: "ucast y + 2 + 1 = (ucast y + 3 :: u32)" by simp
  show "mips_byte m (ucast y) = m (BES (unat y mod 4096))"
    "mips_half m (ucast y) = word_cat (m (BES (unat y mod 4096))) (m (BES ((unat y + 1) mod 4096)))"
    "mips_word m (ucast y) = word_cat (word_cat (m (BES (unat y mod 4096))) (m (BES ((unat y + 1) mod 4096))) :: u16)
     (word_cat (m (BES ((unat y + 2) mod 4096))) (m (BES ((unat y + 3) mod 4096))) :: u16)"
    unfolding mips_word_def mips_half_def three b by (rule refl)+
qed

lemma u8_bit: "bit (b :: u8) n \<Longrightarrow> n < 8"
  using bit_imp_le_length [of b n] by simp

lemma half_values:
  "ucast (scast (ucast (push_bit 8 (ucast b0) OR ucast b1 :: u32) :: u16) :: u64) = (scast (word_cat b0 b1 :: u16) :: u32)"
  "ucast (ucast (ucast (push_bit 8 (ucast b0) OR ucast b1 :: u32) :: u16) :: u64) = (ucast (word_cat b0 b1 :: u16) :: u32)"
  "ucast b1 OR push_bit 8 (ucast b0) = (word_cat b0 b1 :: u16)" for b0 b1 :: u8
  by (rule bit_word_eqI; auto simp: bit_simps bit_word_cat_iff min_def dest: u8_bit)+

lemma word_values:
  "push_bit 24 (ucast b0) OR push_bit 16 (ucast b1) OR push_bit 8 (ucast b2) OR ucast b3 =
     (word_cat (word_cat b0 b1 :: u16) (word_cat b2 b3 :: u16) :: u32)"
  "ucast b3 OR push_bit 8 (ucast b2) OR push_bit 16 (ucast b1) OR push_bit 24 (ucast b0) =
     (word_cat (word_cat b0 b1 :: u16) (word_cat b2 b3 :: u16) :: u32)" for b0 b1 b2 b3 :: u8
  by (rule bit_word_eqI; auto simp: bit_simps bit_word_cat_iff min_def dest: u8_bit)+

section \<open>The address, and code with a slow path, in step with the cache\<close>

lemma represents_entries: "entries em' = entries em \<Longrightarrow> represents R em' ls h s \<longleftrightarrow> represents R em ls h s"
  by (simp add: represents_def holds_def)

lemma guarded_tracks:
  assumes t: "tracks R cl b em [] h s" and st: "list_all straight fast" "list_all straight slow" "n \<noteq> k"
    and h': "h' = fold (exec_op cl) (if jit_regs h a AND m = 0 then fast else slow) h" and rep: "represents R em [] h' s'"
    and em': "entries em' = entries em" "code em' = code em @ jit_bmsi a m n # fast @ jit_jmpi k # jit_patch n # slow @ [jit_patch k]"
  shows "tracks R cl b em' [] h' s'"
proof -
  obtain new where new: "code em = fst b @ new" "exec cl new (snd b) = Falls h" using t by (auto simp: tracks_def emitted_def)
  have "exec cl (new @ jit_bmsi a m n # fast @ jit_jmpi k # jit_patch n # slow @ [jit_patch k]) (snd b) = Falls h'"
    unfolding exec_append_Falls [OF new(2)] exec_guarded [OF st] h' ..
  then show ?thesis using rep new(1) unfolding tracks_def emitted_def represents_entries [OF em'(1)] em'(2) by simp
qed

text \<open>The effective address, in the first scratch register.\<close>

lemma address_tracks:
  assumes t: "tracks R cl b em ls h s" and room: "length ls + 2 \<le> length (entries em)"
  obtains ri em1 j em2 h2 s2 y where "load_mips_register_noext R (rs_of instr) em = Some (ri, em1)"
    "modify_mips_register R SCRATCH_REGISTER0 em1 = Some (entry_to_jit_register R j, em2)"
    "tracks R cl b (emit (jit_i And (entry_to_jit_register R j) (entry_to_jit_register R j) 0xfff)
       (emit (jit_i Add (entry_to_jit_register R j) ri (simm instr)) em2)) (SCRATCH_REGISTER0 # rs_of instr # ls) h2 s2"
    "agrees s s2" "writable em2 j SCRATCH_REGISTER0" "jit_regs h2 (entry_to_jit_register R j) = y AND 0xfff"
    "ucast y = sr s (rs_of instr) + word_of_int (sint (ucast instr :: u16))"
    "keeps_locked ls em em2" "same_shape em em2" "same_env h h2"
proof -
  let ?rs = "rs_of instr"
  obtain i em1 h1 where l1: "load_mips_register_noext R ?rs em = Some (entry_to_jit_register R i, em1)" "tracks R cl b em1 (?rs # ls) h1 s"
    "holds em1 i ?rs" "keeps_locked ls em em1" "same_shape em em1" "same_env h h1"
    using ld.load [OF t, of ?rs] room by force
  have "card (set (?rs # ls)) \<le> length (?rs # ls)" by (rule card_length)
  then have room1: "card (set (?rs # ls)) < length (entries em1)" using room l1(5) by (simp add: same_shape_def)
  show thesis
  proof (rule modify_tracks [OF l1(2) _ _ room1, of SCRATCH_REGISTER0])
    fix j em2 h2
    assume m: "modify_mips_register R SCRATCH_REGISTER0 em1 = Some (entry_to_jit_register R j, em2)"
      "tracks R cl b em2 (SCRATCH_REGISTER0 # ?rs # ls) h2 (s\<lparr>sr := (sr s)(SCRATCH_REGISTER0 := ucast (jit_regs h2 (entry_to_jit_register R j)))\<rparr>)"
      "writable em2 j SCRATCH_REGISTER0" "keeps_locked (?rs # ls) em1 em2" "same_shape em1 em2" "same_env h1 h2" "jit_regs h2 = jit_regs h1"
    let ?j = "entry_to_jit_register R j" and ?x = "jit_regs h1 (entry_to_jit_register R i)"
    let ?o1 = "jit_i Add ?j (entry_to_jit_register R i) (simm instr)" and ?o2 = "jit_i And ?j ?j 0xfff"
    let ?y = "?x + simm instr"
    have t1: "tracks R cl b (emit ?o1 em2) (SCRATCH_REGISTER0 # ?rs # ls) (put_reg ?j ?y h2) (s\<lparr>sr := (sr s)(SCRATCH_REGISTER0 := ucast ?y)\<rparr>)"
      using write_tracks [OF m(2,3), of ?o1 ?y] m(7) by simp
    have t2: "tracks R cl b (emit ?o2 (emit ?o1 em2)) (SCRATCH_REGISTER0 # ?rs # ls) (put_reg ?j (?y AND 0xfff) (put_reg ?j ?y h2))
        (s\<lparr>sr := (sr s)(SCRATCH_REGISTER0 := ucast (?y AND 0xfff))\<rparr>)"
      using write_tracks [OF t1, of j SCRATCH_REGISTER0 ?o2 "?y AND 0xfff"] m(3) by (simp only: holds_emit) simp
    have "ucast ?x = sr s ?rs" using holds_value [OF tracks_represents [OF l1(2)] l1(3)] .
    then have y: "ucast ?y = sr s ?rs + word_of_int (sint (ucast instr :: u16))" by (simp add: ucast_add32 simm32(1))
    have env: "same_env h (put_reg ?j (?y AND 0xfff) (put_reg ?j ?y h2))"
      by (rule same_env_trans [OF same_env_trans [OF same_env_trans [OF l1(6) m(6)] same_env_put_reg] same_env_put_reg])
    show thesis
      by (rule that [OF l1(1) m(1) t2 _ m(3) _ y]) (use l1(4,5) m(4,5) env in \<open>auto simp: keeps_locked_def same_shape_def\<close>)
  qed simp_all
qed

lemma represents_dmem: "represents R em ls h s \<Longrightarrow> dmem (cpu h) = dmem s"
  unfolding represents_def by (metis CPUState.select_convs(6) CPUState.surjective CPUState.update_convs(5))

lemma scribble_at:
  assumes rep: "represents R em [] h s" and i: "i < length (entries em)" and scratch: "\<And>q. holds em i q \<Longrightarrow> writable em i q \<and> q > 32"
  obtains s' where "represents R em [] (put_reg (entry_to_jit_register R i) v h) s'" "agrees s s'"
  using represents_scribble [OF rep i, of v] scratch by auto

lemma writable_holds: "writable em i r \<Longrightarrow> holds em i r"
  by (simp add: writable_def)

lemma only_scratch:
  assumes "writable em j r" "r > 32" "\<And>i q. holds em' i q \<longleftrightarrow> R \<le> i \<and> holds em i q" "\<And>i q. R \<le> i \<Longrightarrow> writable em' i q \<longleftrightarrow> writable em i q"
  shows "holds em' j q \<Longrightarrow> writable em' j q \<and> q > 32"
  using assms by (metis holds_def writable_holds)

section \<open>Loads\<close>

text \<open>The function called for an unaligned address reads what \<open>g\<close> says and changes only what a call may change.\<close>

definition reads :: "callee \<Rightarrow> ((nat \<Rightarrow> u8) \<Rightarrow> u32 \<Rightarrow> u32) \<Rightarrow> bool" where
  "reads c g \<longleftrightarrow> (\<forall>cl y h. cpu (call cl c [y AND 0xfff] h) = cpu h \<and> same_env h (call cl c [y AND 0xfff] h) \<and>
     (\<forall>k. jit_regs (call cl c [y AND 0xfff] h) (JIT_V k) = jit_regs h (JIT_V k)) \<and>
     ucast (ret_value (call cl c [y AND 0xfff] h)) = g (dmem (cpu h)) (ucast y))"

definition flipped :: "u32 \<Rightarrow> u64 \<Rightarrow> u64" where
  "flipped flip t = (if flip \<noteq> 0 then t XOR ucast flip else t)"

definition flip_ops :: "u32 \<Rightarrow> jit_register \<Rightarrow> jit_op list" where
  "flip_ops flip r = (if flip \<noteq> 0 then [jit_i Xor r r (ucast flip)] else [])"

locale memory_load =
  fixes w :: width and f :: "callee option" and flip :: u32 and g :: "(nat \<Rightarrow> u8) \<Rightarrow> u32 \<Rightarrow> u32"
  assumes fast: "(y AND 0xfff) AND ucast (flip XOR 3) = (0 :: u64) \<Longrightarrow>
      ucast (load_value w m (unat (flipped flip (y AND 0xfff)))) = g m (ucast y)"
    and slow: "flip \<noteq> 3 \<Longrightarrow> reads (the f) g"
begin

text \<open>The part of the emitted code that accesses memory, in both forms.\<close>

lemma guarded_access_tracks:
  assumes t: "tracks R cl b em ls h s" and ls: "mset ls = mset [rs, SCRATCH_REGISTER0, SCRATCH_REGISTER1]" and rs: "rs \<noteq> 32" and R: "R \<le> length (entries em)"
    and w: "writable em j SCRATCH_REGISTER0" "writable em k SCRATCH_REGISTER1"
    and y: "jit_regs h (entry_to_jit_register R j) = y AND 0xfff" and flip: "flip \<noteq> 3"
  defines "tmp \<equiv> entry_to_jit_register R j" and "ret \<equiv> entry_to_jit_register R k"
  obtains em1 em2 em' h' s' where "unlock_all [rs, SCRATCH_REGISTER0, SCRATCH_REGISTER1] em = Some em1" "flush_caller_save_registers R em1 = Some em2"
    "em' = em2\<lparr>code := code em2 @ jit_bmsi tmp (ucast (flip XOR 3)) (nodes em2) # (flip_ops flip tmp @ [jit_ldxr w ret tmp]) @
      jit_jmpi (nodes em2 + 1) # jit_patch (nodes em2) # [jit_finishi (the f) [tmp], jit_retval ret] @ [jit_patch (nodes em2 + 1)],
      nodes := nodes em2 + 2\<rparr>"
    "tracks R cl b em' [] h' s'" "agrees s s'" "ucast (jit_regs h' ret) = g (dmem s) (ucast y)" "same_shape em em'" "same_env h h'"
proof -
  obtain em1 where u: "unlock_all [rs, SCRATCH_REGISTER0, SCRATCH_REGISTER1] em = Some em1" "tracks R cl b em1 [] h s" "same_shape em em1"
    "holds em1 = holds em" "writable em1 = writable em"
    using unlock_all_tracks [OF t ls [symmetric]] rs by auto
  have R1: "R \<le> length (entries em1)" using R u(3) by (simp add: same_shape_def)
  show thesis
  proof (rule flush_caller_save_tracks [OF u(2) R1])
    fix em2 h2
    assume fl: "flush_caller_save_registers R em1 = Some em2" "tracks R cl b em2 [] h2 s" "\<And>i q. holds em2 i q \<longleftrightarrow> R \<le> i \<and> holds em1 i q"
      "\<And>i q. R \<le> i \<Longrightarrow> writable em2 i q \<longleftrightarrow> writable em1 i q" "same_shape em1 em2" "same_env h h2" "jit_regs h2 = jit_regs h"
    have rep: "represents R em2 [] h2 s" using fl(2) by (rule tracks_represents)
    have idx: "j < length (entries em2)" "k < length (entries em2)" using w u(3) fl(5) by (auto simp: writable_def holds_def same_shape_def)
    have jk: "j \<noteq> k" using w by (auto simp: writable_def holds_def)
    have scr: "holds em2 j q \<Longrightarrow> writable em2 j q \<and> q > 32" "holds em2 k q \<Longrightarrow> writable em2 k q \<and> q > 32" for q
      using only_scratch [where j = j and r = SCRATCH_REGISTER0, OF _ _ fl(3,4)] only_scratch [where j = k and r = SCRATCH_REGISTER1, OF _ _ fl(3,4)]
        w u(5) by simp_all
    let ?fast = "flip_ops flip tmp @ [jit_ldxr w ret tmp]" and ?slow = "[jit_finishi (the f) [tmp], jit_retval ret]"
    define h' where "h' = fold (exec_op cl) (if jit_regs h2 tmp AND ucast (flip XOR 3) = 0 then ?fast else ?slow) h2"
    have mem: "dmem (cpu h2) = dmem s" using represents_dmem [OF rep] .
    have "\<exists>s'. represents R em2 [] h' s' \<and> agrees s s' \<and> ucast (jit_regs h' ret) = g (dmem s) (ucast y) \<and> same_env h2 h'"
    proof (cases "jit_regs h2 tmp AND ucast (flip XOR 3) = 0")
      case True
      then have v: "ucast (load_value w (dmem s) (unat (flipped flip (y AND 0xfff)))) = g (dmem s) (ucast y)"
        using fast fl(7) y by (simp add: tmp_def)
      have h': "h' = put_reg ret (load_value w (dmem s) (unat (flipped flip (y AND 0xfff)))) (put_reg tmp (flipped flip (y AND 0xfff)) h2)"
        using True fl(7) y jk mem
        by (simp add: h'_def flip_ops_def flipped_def put_reg_same tmp_def ret_def) (simp add: put_reg_def fun_upd_idem)
      obtain s1 where r1: "represents R em2 [] (put_reg tmp (flipped flip (y AND 0xfff)) h2) s1" "agrees s s1"
        unfolding tmp_def by (rule scribble_at [OF rep idx(1) scr(1)])
      obtain s2 where r2: "represents R em2 [] h' s2" "agrees s1 s2"
        unfolding h' ret_def by (rule scribble_at [OF r1(1) idx(2) scr(2)])
      have "same_env h2 h'" unfolding h' ret_def tmp_def by (rule same_env_trans [OF same_env_put_reg same_env_put_reg])
      then show ?thesis using r2(1) agrees_trans [OF r1(2) r2(2)] v by (auto simp: h')
    next
      case False
      have rd: "reads (the f) g" using slow flip .
      let ?h = "call cl (the f) [y AND 0xfff] h2"
      have h': "h' = put_reg ret (ret_value ?h) ?h" using False fl(7) y by (simp add: h'_def tmp_def)
      have c: "cpu ?h = cpu h2" "same_env h2 ?h" "jit_regs ?h (JIT_V n) = jit_regs h2 (JIT_V n)"
        "ucast (ret_value ?h) = g (dmem (cpu h2)) (ucast y)" for n
        using rd unfolding reads_def by blast+
      have r1: "represents R em2 [] ?h s" by (rule represents_clobber [OF rep _ c(1,3)]) (simp add: fl(3))
      obtain s2 where r2: "represents R em2 [] h' s2" "agrees s s2"
        unfolding h' ret_def by (rule scribble_at [OF r1 idx(2) scr(2)])
      have "same_env h2 h'" unfolding h' ret_def by (rule same_env_trans [OF c(2) same_env_put_reg])
      then show ?thesis using r2 c(4) mem by (auto simp: h')
    qed
    then obtain s' where s': "represents R em2 [] h' s'" "agrees s s'" "ucast (jit_regs h' ret) = g (dmem s) (ucast y)" "same_env h2 h'" by blast
    let ?em = "em2\<lparr>code := code em2 @ jit_bmsi tmp (ucast (flip XOR 3)) (nodes em2) # ?fast @
      jit_jmpi (nodes em2 + 1) # jit_patch (nodes em2) # ?slow @ [jit_patch (nodes em2 + 1)], nodes := nodes em2 + 2\<rparr>"
    have "tracks R cl b ?em [] h' s'"
      by (rule guarded_tracks [OF fl(2) _ _ _ h'_def s'(1)]) (simp_all add: flip_ops_def)
    moreover have "same_shape em ?em" using u(3) fl(5) by (simp add: same_shape_def)
    ultimately show thesis by (rule that [OF u(1) fl(1) refl _ s'(2,3) _ same_env_trans [OF fl(6) s'(4)]])
  qed
qed

lemma byte_access_tracks:
  assumes t: "tracks R cl b em ls h s" and ls: "mset ls = mset [rs, SCRATCH_REGISTER0, SCRATCH_REGISTER1]" and rs: "rs \<noteq> 32"
    and w: "writable em j SCRATCH_REGISTER0" "writable em k SCRATCH_REGISTER1"
    and y: "jit_regs h (entry_to_jit_register R j) = y AND 0xfff" and flip: "flip = 3"
  defines "tmp \<equiv> entry_to_jit_register R j" and "ret \<equiv> entry_to_jit_register R k"
  shows "\<exists>em' h' s'. unlock_all [rs, SCRATCH_REGISTER0, SCRATCH_REGISTER1] (emit (jit_ldxr w ret tmp) (emit (jit_i Xor tmp tmp (ucast flip)) em)) = Some em' \<and>
    tracks R cl b em' [] h' s' \<and> agrees s s' \<and> ucast (jit_regs h' ret) = g (dmem s) (ucast y) \<and> same_shape em em' \<and> same_env h h'"
proof -
  let ?t = "flipped flip (y AND 0xfff)" and ?o1 = "jit_i Xor tmp tmp (ucast flip)" and ?o2 = "jit_ldxr w ret tmp"
  let ?v = "load_value w (dmem s) (unat ?t)" and ?s = "s\<lparr>sr := (sr s)(SCRATCH_REGISTER0 := ucast (flipped flip (y AND 0xfff)))\<rparr>"
  have mem: "dmem (cpu h) = dmem s" using represents_dmem [OF tracks_represents [OF t]] .
  have t1: "tracks R cl b (emit ?o1 em) ls (put_reg tmp ?t h) ?s"
    unfolding tmp_def by (rule write_tracks [OF t w(1)]) (use flip y in \<open>simp_all add: flipped_def tmp_def\<close>)
  have t2: "tracks R cl b (emit ?o2 (emit ?o1 em)) ls (put_reg ret ?v (put_reg tmp ?t h)) (?s\<lparr>sr := (sr ?s)(SCRATCH_REGISTER1 := ucast ?v)\<rparr>)"
    unfolding ret_def by (rule write_tracks [OF t1]) (use w mem in \<open>simp_all add: ret_def\<close>)
  obtain em' where u: "unlock_all [rs, SCRATCH_REGISTER0, SCRATCH_REGISTER1] (emit ?o2 (emit ?o1 em)) = Some em'" "same_shape em em'"
    "tracks R cl b em' [] (put_reg ret ?v (put_reg tmp ?t h)) (?s\<lparr>sr := (sr ?s)(SCRATCH_REGISTER1 := ucast ?v)\<rparr>)"
    using unlock_all_tracks [OF t2 ls [symmetric]] rs same_shape_trans [OF holds_emit(3) same_shape_trans [OF holds_emit(3)]] by force
  have "same_env h (put_reg ret ?v (put_reg tmp ?t h))"
    unfolding ret_def tmp_def by (rule same_env_trans [OF same_env_put_reg same_env_put_reg])
  moreover have "agrees s (?s\<lparr>sr := (sr ?s)(SCRATCH_REGISTER1 := ucast ?v)\<rparr>)"
    by (rule agrees_trans [OF agrees_scratch agrees_scratch]) simp_all
  moreover have "ucast ?v = g (dmem s) (ucast y)" using fast [of y "dmem s"] flip by simp
  ultimately show ?thesis using u by (intro exI [of _ em'] exI [of _ "put_reg ret ?v (put_reg tmp ?t h)"]
      exI [of _ "?s\<lparr>sr := (sr ?s)(SCRATCH_REGISTER1 := ucast ?v)\<rparr>"]) simp
qed

lemma load_tracks:
  assumes t: "tracks R cl b em [] h s" and n: "3 \<le> length (entries em)" and R: "R \<le> length (entries em)"
  shows "computes R cl b em h (jit_emit_load_operation w f flip R instr em)
    (if rt_of instr = 0 then s
     else s\<lparr>sr := (sr s)(rt_of instr := g (dmem s) (sr s (rs_of instr) + word_of_int (sint (ucast instr :: u16))))\<rparr>)"
proof (cases "rt_of instr = 0")
  case False
  let ?rs = "rs_of instr" and ?rt = "rt_of instr"
  have room: "length ([] :: nat list) + 2 \<le> length (entries em)" using n by simp
  show ?thesis
  proof (rule address_tracks [OF t room, of instr])
    fix ri em1 j em2 h2 s2 y
    let ?j = "entry_to_jit_register R j"
    let ?em3 = "emit (jit_i And ?j ?j 0xfff) (emit (jit_i Add ?j ri (simm instr)) em2)"
    assume a: "load_mips_register_noext R ?rs em = Some (ri, em1)" "modify_mips_register R SCRATCH_REGISTER0 em1 = Some (?j, em2)"
      "tracks R cl b ?em3 [SCRATCH_REGISTER0, ?rs] h2 s2" "agrees s s2" "writable em2 j SCRATCH_REGISTER0"
      "jit_regs h2 ?j = y AND 0xfff" "ucast y = sr s ?rs + word_of_int (sint (ucast instr :: u16))" "same_shape em em2" "same_env h h2"
    have room2: "card (set [SCRATCH_REGISTER0, ?rs]) < length (entries ?em3)" using n a(8) by (simp add: same_shape_def card_insert_if)
    show ?thesis
    proof (rule modify_tracks [OF a(3) _ _ room2, of SCRATCH_REGISTER1])
      fix k em5 and h5 :: host
      let ?k = "entry_to_jit_register R k"
      let ?s5 = "s2\<lparr>sr := (sr s2)(SCRATCH_REGISTER1 := ucast (jit_regs h5 ?k))\<rparr>"
      assume m: "modify_mips_register R SCRATCH_REGISTER1 ?em3 = Some (?k, em5)"
        "tracks R cl b em5 [SCRATCH_REGISTER1, SCRATCH_REGISTER0, ?rs] h5 ?s5"
        "writable em5 k SCRATCH_REGISTER1" "same_shape ?em3 em5" "same_env h2 h5" "jit_regs h5 = jit_regs h2"
        "\<And>i q. q \<in> set [SCRATCH_REGISTER0, ?rs] \<Longrightarrow> writable ?em3 i q \<Longrightarrow> writable em5 i q"
      have w: "writable em5 j SCRATCH_REGISTER0" using m(7) a(5) by simp
      have y5: "jit_regs h5 ?j = y AND 0xfff" using m(6) a(6) by simp
      have R5: "R \<le> length (entries em5)" using R a(8) m(4) by (simp add: same_shape_def)
      define access where "access =
        (if flip XOR 3 \<noteq> 0 then do {
             em \<leftarrow> unlock_all [?rs, SCRATCH_REGISTER0, SCRATCH_REGISTER1] em5;
             em \<leftarrow> flush_caller_save_registers R em;
             let (unaligned, em) = emit_node (jit_bmsi ?j (ucast (flip XOR 3))) em;
             let em = emit (jit_ldxr w ?k ?j) (if flip \<noteq> 0 then emit (jit_i Xor ?j ?j (ucast flip)) em else em);
             let (aligned, em) = emit_node jit_jmpi em;
             let em = emit (jit_patch unaligned) em;
             let em = emit (jit_finishi (the f) [?j]) em;
             let em = emit (jit_retval ?k) em;
             Some (emit (jit_patch aligned) em)
           }
           else unlock_all [?rs, SCRATCH_REGISTER0, SCRATCH_REGISTER1]
             (emit (jit_ldxr w ?k ?j) (if flip \<noteq> 0 then emit (jit_i Xor ?j ?j (ucast flip)) em5 else em5)))"
      have "\<exists>em6 h6 s6. access = Some em6 \<and> tracks R cl b em6 [] h6 s6 \<and> agrees ?s5 s6 \<and>
          ucast (jit_regs h6 ?k) = g (dmem ?s5) (ucast y) \<and> same_shape em5 em6 \<and> same_env h5 h6"
      proof (cases "flip = 3")
        case True
        have "access = unlock_all [?rs, SCRATCH_REGISTER0, SCRATCH_REGISTER1]
            (emit (jit_ldxr w ?k ?j) (emit (jit_i Xor ?j ?j (ucast flip)) em5))"
          using True unfolding access_def by simp
        then show ?thesis using byte_access_tracks [OF m(2) _ _ w m(3) y5 True, of ?rs] by simp
      next
        case False
        have twice: "flip = (flip XOR 3) XOR 3" by (simp add: xor.assoc)
        have flip: "flip XOR 3 \<noteq> 0"
        proof
          assume "flip XOR 3 = 0"
          from twice [unfolded this] have "flip = 0 XOR 3" .
          then show False using False by simp
        qed
        show ?thesis
        proof (rule guarded_access_tracks [OF m(2) _ _ R5 w m(3) y5 False, of ?rs])
          fix e1 e2 em6 h6 s6
          assume g: "unlock_all [?rs, SCRATCH_REGISTER0, SCRATCH_REGISTER1] em5 = Some e1" "flush_caller_save_registers R e1 = Some e2"
            "em6 = e2\<lparr>code := code e2 @ jit_bmsi ?j (ucast (flip XOR 3)) (nodes e2) # (flip_ops flip ?j @ [jit_ldxr w ?k ?j]) @
              jit_jmpi (nodes e2 + 1) # jit_patch (nodes e2) # [jit_finishi (the f) [?j], jit_retval ?k] @ [jit_patch (nodes e2 + 1)],
              nodes := nodes e2 + 2\<rparr>"
            "tracks R cl b em6 [] h6 s6" "agrees ?s5 s6" "ucast (jit_regs h6 ?k) = g (dmem ?s5) (ucast y)" "same_shape em5 em6" "same_env h5 h6"
          have "access = Some em6"
            unfolding access_def using flip g(1-3) by (cases e2) (simp add: emit_node_def emit_def flip_ops_def)
          then show ?thesis using g(4-8) by blast
        qed simp_all
      qed
      then obtain em6 h6 s6 where c: "access = Some em6" "tracks R cl b em6 [] h6 s6" "agrees ?s5 s6"
        "ucast (jit_regs h6 ?k) = g (dmem ?s5) (ucast y)" "same_shape em5 em6" "same_env h5 h6" by blast
      have "length (entries em6) = length (entries em)" using a(8) m(4) c(5) by (simp add: same_shape_def)
      then have room6: "card (set ([] :: nat list)) < length (entries em6)" using n by (simp del: length_greater_0_conv)
      show ?thesis
      proof (rule modify_tracks [OF c(2) _ _ room6, of ?rt])
        fix d em7 and h7 :: host
        let ?d = "entry_to_jit_register R d"
        assume e: "modify_mips_register R ?rt em6 = Some (?d, em7)" "tracks R cl b em7 [?rt] h7 (s6\<lparr>sr := (sr s6)(?rt := ucast (jit_regs h7 ?d))\<rparr>)"
          "writable em7 d ?rt" "same_shape em6 em7" "same_env h6 h7" "jit_regs h7 = jit_regs h6"
        let ?s7 = "s6\<lparr>sr := (sr s6)(?rt := ucast (jit_regs h7 ?k))\<rparr>" and ?h = "put_reg ?d (jit_regs h7 ?k) h7"
        have "tracks R cl b (emit (jit_movr ?d ?k) em7) [?rt] ?h ?s7"
          using write_tracks [OF e(2,3), of "jit_movr ?d ?k" "jit_regs h7 ?k"] by simp
        from unlock_all_tracks [OF this, of "[?rt]"] obtain em8 where
          v: "unlock_mips_register ?rt (emit (jit_movr ?d ?k) em7) = Some em8" "same_shape em7 em8" "tracks R cl b em8 [] ?h ?s7"
          by (auto split: bind_splits intro: same_shape_trans [OF holds_emit(3)])
        have ag: "agrees s s6" by (rule agrees_trans [OF agrees_trans [OF a(4) agrees_scratch] c(3)]) simp
        have "dmem ?s5 = dmem s" using a(4) by (metis agrees_def CPUState.select_convs(6) CPUState.surjective CPUState.update_convs(5))
        then have val: "ucast (jit_regs h7 ?k) = g (dmem s) (sr s ?rs + word_of_int (sint (ucast instr :: u16)))"
          using c(4) e(6) a(7) by simp
        have "jit_emit_load_operation w f flip R instr em = Some em8"
        proof -
          have "jit_emit_load_operation w f flip R instr em = access \<bind> (\<lambda>em. modify_mips_register R ?rt em \<bind>
              (\<lambda>(rt_reg, em). unlock_mips_register ?rt (emit (jit_movr rt_reg ?k) em)))"
            by (simp only: jit_emit_load_operation_def access_def Let_def False if_False a(1,2) m(1) bind.bind_lunit case_prod_conv)
          then show ?thesis using c(1) e(1) v(1) by simp
        qed
        moreover have "same_shape em em8" using a(8) m(4) c(5) e(4) v(2) by (simp add: same_shape_def)
        moreover have "same_env h ?h"
          by (rule same_env_trans [OF same_env_trans [OF same_env_trans [OF same_env_trans [OF a(9) m(5)] c(6)] e(5)] same_env_put_reg])
        moreover have "agrees (s\<lparr>sr := (sr s)(?rt := g (dmem s) (sr s ?rs + word_of_int (sint (ucast instr :: u16))))\<rparr>) ?s7"
          unfolding val by (rule agrees_put [OF ag])
        ultimately show ?thesis using False by (auto intro: computesI [OF _ v(3)])
      qed (use False in simp_all)
    qed simp_all
  qed
qed (use t in \<open>simp add: computes_nothing jit_emit_load_operation_def Let_def\<close>)

end

lemma readsI:
  assumes "\<And>y h. run_callee c [y] h = h\<lparr>ret_value := u (dmem (cpu h)) y\<rparr>" and "\<And>m y. ucast (u m (y AND 0xfff)) = g m (ucast y)"
  shows "reads c g"
  using assms by (simp add: reads_def same_env_def call_def)

lemma fixup_at': "BYTE_ENDIAN_FIXUP (y AND 0xfff) 0 = BES (unat y mod 4096)"
  using fixup_at [of y 0] by simp

lemma u16_u32: "ucast (ucast (x :: u16) :: u64) = (ucast x :: u32)" "ucast (scast x :: u64) = (scast x :: u32)"
    "ucast (ucast (b :: u8) :: u64) = (ucast b :: u32)" "ucast (scast b :: u64) = (scast b :: u32)" "ucast (scast (v :: u32) :: u64) = v"
  by (rule bit_word_eqI; auto simp: bit_simps min_def)+

lemma masks_flip: "ucast (2 XOR 3 :: u32) = (1 :: u64)" "ucast (0 XOR 3 :: u32) = (3 :: u64)" "ucast (3 XOR 3 :: u32) = (0 :: u64)"
    "ucast (3 :: u32) = (3 :: u64)" "ucast (2 :: u32) = (2 :: u64)"
  by simp_all

interpretation lb: memory_load w_c None 3 "\<lambda>m a. scast (mips_byte m a)"
  by unfold_locales (simp_all add: flipped_def flip_at mips_bytes u16_u32)

interpretation lbu: memory_load w_uc None 3 "\<lambda>m a. ucast (mips_byte m a)"
  by unfold_locales (simp_all add: flipped_def flip_at mips_bytes u16_u32)

interpretation lh: memory_load w_s "Some rsp_unaligned_lh" 2 "\<lambda>m a. scast (mips_half m a)"
proof unfold_locales
  show "ucast (load_value w_s m (unat (flipped 2 (y AND 0xfff)))) = (scast (mips_half m (ucast y)) :: u32)"
    if "(y AND 0xfff) AND ucast (2 XOR 3 :: u32) = 0" for y m
    using that half_at [of y] unfolding masks_flip by (simp add: flipped_def flip_at mem_u16_def half_values mips_bytes u16_u32)
  show "reads (the (Some rsp_unaligned_lh)) (\<lambda>m a. scast (mips_half m a))"
    unfolding option.sel
    by (rule readsI [where u = unaligned_lh]) (simp_all add: unaligned_lh_def Let_def fixup_at fixup_at' half_values mips_bytes)
qed

interpretation lhu: memory_load w_us "Some rsp_unaligned_lhu" 2 "\<lambda>m a. ucast (mips_half m a)"
proof unfold_locales
  show "ucast (load_value w_us m (unat (flipped 2 (y AND 0xfff)))) = (ucast (mips_half m (ucast y)) :: u32)"
    if "(y AND 0xfff) AND ucast (2 XOR 3 :: u32) = 0" for y m
    using that half_at [of y] unfolding masks_flip by (simp add: flipped_def flip_at mem_u16_def half_values mips_bytes u16_u32)
  show "reads (the (Some rsp_unaligned_lhu)) (\<lambda>m a. ucast (mips_half m a))"
    unfolding option.sel
    by (rule readsI [where u = unaligned_lhu]) (simp_all add: unaligned_lhu_def Let_def fixup_at fixup_at' half_values mips_bytes)
qed

interpretation lw: memory_load w_i "Some rsp_unaligned_lw" 0 mips_word
proof unfold_locales
  show "ucast (load_value w_i m (unat (flipped 0 (y AND 0xfff)))) = mips_word m (ucast y)"
    if "(y AND 0xfff) AND ucast (0 XOR 3 :: u32) = 0" for y m
    using that word_at [of y 0] word_at [of y 1] word_at [of y 2] word_at [of y 3] unfolding masks_flip
    by (simp add: flipped_def mem_u32_def word_values mips_bytes u16_u32)
  show "reads (the (Some rsp_unaligned_lw)) mips_word"
    unfolding option.sel
    by (rule readsI [where u = unaligned_lw]) (simp_all add: unaligned_lw_def Let_def fixup_at fixup_at' word_values mips_bytes)
qed

section \<open>Stores\<close>

lemma scalar_free_dmem [simp]: "scalar_free (\<lambda>s. s\<lparr>dmem := F (dmem s)\<rparr>)"
  by (simp add: scalar_free_def with_sr_def)

lemmas scalar_free_sr = reads_only_keeps(1) [OF scalar_free_reads_only]

lemma agrees_scalar_free: "scalar_free g \<Longrightarrow> agrees s s' \<Longrightarrow> agrees (g s) (g s')"
proof -
  assume g: "scalar_free g" and a: "agrees s s'"
  have s': "s\<lparr>sr := sr s'\<rparr> = s'" using a by (simp add: agrees_def)
  have "g (s\<lparr>sr := sr s'\<rparr>) = (g s)\<lparr>sr := sr s'\<rparr>" using g by (rule scalar_free_sr_update)
  then show ?thesis using a unfolding s' by (simp add: agrees_def scalar_free_sr [OF g])
qed

lemma represents_scalar_free:
  assumes rep: "represents R em ls h s" and g: "scalar_free g" and h': "cpu h' = g (cpu h)" "jit_regs h' = jit_regs h"
  shows "represents R em ls h' (g s)"
proof -
  have "(cpu h)\<lparr>sr := sr s\<rparr> = s" using rep by (simp add: represents_def)
  then have "(cpu h')\<lparr>sr := sr (g s)\<rparr> = g s"
    using scalar_free_sr_update [OF g, of _ "cpu h"] unfolding h' scalar_free_sr [OF g] by metis
  then show ?thesis using rep unfolding represents_def entry_ok_def h' scalar_free_sr [OF g] by blast
qed

definition writes :: "callee \<Rightarrow> (u32 \<Rightarrow> u32 \<Rightarrow> (nat \<Rightarrow> u8) \<Rightarrow> nat \<Rightarrow> u8) \<Rightarrow> bool" where
  "writes c g \<longleftrightarrow> (\<forall>y v h. run_callee c [y AND 0xfff, v] h = h\<lparr>cpu := (cpu h)\<lparr>dmem := g (ucast y) (ucast v) (dmem (cpu h))\<rparr>\<rparr>)"

locale memory_store =
  fixes w :: width and f :: "callee option" and flip :: u32 and g :: "u32 \<Rightarrow> u32 \<Rightarrow> (nat \<Rightarrow> u8) \<Rightarrow> nat \<Rightarrow> u8"
  assumes fast: "(y AND 0xfff) AND ucast (3 - flip) = (0 :: u64) \<Longrightarrow>
      store_value w m (unat (flipped flip (y AND 0xfff))) v = g (ucast y) (ucast v) m"
    and slow: "flip \<noteq> 3 \<Longrightarrow> writes (the f) g"
begin

lemma store_tracks:
  assumes t: "tracks R cl b em [] h s" and n: "3 \<le> length (entries em)" and R: "R \<le> length (entries em)"
  shows "computes R cl b em h (jit_emit_store_operation w f flip R instr em)
    (s\<lparr>dmem := g (sr s (rs_of instr) + word_of_int (sint (ucast instr :: u16))) (sr s (rt_of instr)) (dmem s)\<rparr>)"
proof -
  let ?rs = "rs_of instr" and ?rt = "rt_of instr"
  obtain i em0 h0 where l: "load_mips_register_noext R ?rt em = Some (entry_to_jit_register R i, em0)" "tracks R cl b em0 [?rt] h0 s"
    "holds em0 i ?rt" "same_shape em em0" "same_env h h0"
    using ld.load [OF t, of ?rt] n by force
  let ?i = "entry_to_jit_register R i"
  have room: "length [?rt] + 2 \<le> length (entries em0)" using n l(4) by (simp add: same_shape_def)
  show ?thesis
  proof (rule address_tracks [OF l(2) room, of instr])
    fix ri em1 j em2 h2 s2 y
    let ?j = "entry_to_jit_register R j"
    let ?em3 = "emit (jit_i And ?j ?j 0xfff) (emit (jit_i Add ?j ri (simm instr)) em2)"
    let ?a = "sr s ?rs + word_of_int (sint (ucast instr :: u16))"
    let ?g = "\<lambda>s. s\<lparr>dmem := g ?a (sr (s2 :: CPUState) ?rt) (dmem s)\<rparr>"
    assume a: "load_mips_register_noext R ?rs em0 = Some (ri, em1)" "modify_mips_register R SCRATCH_REGISTER0 em1 = Some (?j, em2)"
      "tracks R cl b ?em3 [SCRATCH_REGISTER0, ?rs, ?rt] h2 s2" "agrees s s2" "writable em2 j SCRATCH_REGISTER0"
      "jit_regs h2 ?j = y AND 0xfff" "ucast y = ?a" "keeps_locked [?rt] em0 em2" "same_shape em0 em2" "same_env h0 h2"
    have held: "holds ?em3 i ?rt" using a(8) l(3) by (simp add: keeps_locked_def)
    then have v: "ucast (jit_regs h2 ?i) = sr s2 ?rt" using holds_value [OF tracks_represents [OF a(3)]] by simp
    have ij: "i \<noteq> j" using held a(5) fld_less(1) [of instr 16] by (auto simp: writable_def holds_def simp del: fld_less)
    have gs: "sr s2 ?rt = sr s ?rt" using a(4) by (simp add: agrees_def)
    have env: "same_env h h2" using l(5) a(10) by (rule same_env_trans)
    have shape: "same_shape em ?em3" using l(4) a(9) by (simp add: same_shape_def)
    have un: "scalar_free ?g" by (rule scalar_free_dmem)
    have goal: "agrees (s\<lparr>dmem := g ?a (sr s ?rt) (dmem s)\<rparr>) (?g s')" if "agrees s2 s'" for s'
      using agrees_scalar_free [OF un agrees_trans [OF a(4) that]] unfolding gs .
    show ?thesis
    proof (cases "flip = 3")
      case True
      let ?t = "flipped flip (y AND 0xfff)" and ?o1 = "jit_i Xor ?j ?j (ucast flip)" and ?o2 = "jit_stxr w ?j ?i"
      let ?h4 = "put_reg ?j (flipped flip (y AND 0xfff)) h2" and ?s4 = "s2\<lparr>sr := (sr s2)(SCRATCH_REGISTER0 := ucast (flipped flip (y AND 0xfff)))\<rparr>"
      have t4: "tracks R cl b (emit ?o1 ?em3) [SCRATCH_REGISTER0, ?rs, ?rt] ?h4 ?s4"
        by (rule write_tracks [OF a(3)]) (use a(5,6) True in \<open>simp_all add: flipped_def\<close>)
      have "store_value w (dmem (cpu ?h4)) (unat ?t) (jit_regs h2 ?i) = g ?a (sr s2 ?rt) (dmem (cpu ?h4))"
        using fast [of y "dmem (cpu ?h4)" "jit_regs h2 ?i"] True v a(7) by simp
      then have op2: "exec_op cl ?o2 ?h4 = ?h4\<lparr>cpu := ?g (cpu ?h4)\<rparr>" using ij by simp
      have "represents R (emit ?o2 (emit ?o1 ?em3)) [SCRATCH_REGISTER0, ?rs, ?rt] (?h4\<lparr>cpu := ?g (cpu ?h4)\<rparr>) (?g ?s4)"
        using tracks_represents [OF t4] unfolding represents_entries [OF emit_simps(1)]
        by (rule represents_scalar_free [OF _ un]) simp_all
      then have t5: "tracks R cl b (emit ?o2 (emit ?o1 ?em3)) [SCRATCH_REGISTER0, ?rs, ?rt] (?h4\<lparr>cpu := ?g (cpu ?h4)\<rparr>) (?g ?s4)"
        using t4 exec_emit [of cl b "emit ?o1 ?em3" ?h4 ?o2] unfolding tracks_def op2 by simp
      from unlock_all_tracks [OF this, of "[?rt, ?rs, SCRATCH_REGISTER0]"] obtain em6 where
        u: "unlock_all [?rt, ?rs, SCRATCH_REGISTER0] (emit ?o2 (emit ?o1 ?em3)) = Some em6" "same_shape (emit ?o2 (emit ?o1 ?em3)) em6"
          "tracks R cl b em6 [] (?h4\<lparr>cpu := ?g (cpu ?h4)\<rparr>) (?g ?s4)" by auto
      have "jit_emit_store_operation w f flip R instr em = Some em6"
        unfolding jit_emit_store_operation_def using u(1) True by (simp add: l(1) a(1,2) del: unlock_all.simps)
      moreover have "same_env h (?h4\<lparr>cpu := ?g (cpu ?h4)\<rparr>)"
        using same_env_trans [OF env same_env_put_reg [of h2 R j ?t]] by (simp add: same_env_def)
      moreover have "same_shape em em6" using shape u(2) by (simp add: same_shape_def)
      ultimately show ?thesis using goal [of ?s4] by (intro computesI [OF _ u(3)]) simp_all
    next
      case False
      obtain em4 where u: "unlock_all [?rt, ?rs, SCRATCH_REGISTER0] ?em3 = Some em4" "tracks R cl b em4 [] h2 s2" "same_shape ?em3 em4"
        "holds em4 = holds ?em3" "writable em4 = writable ?em3"
        using unlock_all_tracks [OF a(3), of "[?rt, ?rs, SCRATCH_REGISTER0]"] by auto
      have R4: "R \<le> length (entries em4)" using R shape u(3) by (simp add: same_shape_def)
      show ?thesis
      proof (rule flush_caller_save_tracks [OF u(2) R4])
        fix em5 h5
        assume fl: "flush_caller_save_registers R em4 = Some em5" "tracks R cl b em5 [] h5 s2" "\<And>i q. holds em5 i q \<longleftrightarrow> R \<le> i \<and> holds em4 i q"
          "\<And>i q. R \<le> i \<Longrightarrow> writable em5 i q \<longleftrightarrow> writable em4 i q" "same_shape em4 em5" "same_env h2 h5" "jit_regs h5 = jit_regs h2"
        let ?fast = "flip_ops flip ?j @ [jit_stxr w ?j ?i]" and ?slow = "[jit_finishi (the f) [?j, ?i]]"
        define h' where "h' = fold (exec_op cl) (if jit_regs h5 ?j AND ucast (3 - flip) = 0 then ?fast else ?slow) h5"
        define em6 where "em6 = em5\<lparr>code := code em5 @ jit_bmsi ?j (ucast (3 - flip)) (nodes em5) # ?fast @
          jit_jmpi (nodes em5 + 1) # jit_patch (nodes em5) # ?slow @ [jit_patch (nodes em5 + 1)], nodes := nodes em5 + 2\<rparr>"
        have rep: "represents R em5 [] h5 s2" using fl(2) by (rule tracks_represents)
        have "\<exists>s'. represents R em5 [] h' s' \<and> agrees (s\<lparr>dmem := g ?a (sr s ?rt) (dmem s)\<rparr>) s' \<and> same_env h5 h'"
        proof (cases "jit_regs h5 ?j AND ucast (3 - flip) = 0")
          case True
          let ?t = "flipped flip (y AND 0xfff)" and ?h = "put_reg ?j (flipped flip (y AND 0xfff)) h5"
          have j: "j < length (entries em5)" using a(5) u(3) fl(5) by (auto simp: writable_def holds_def same_shape_def)
          have scr: "holds em5 j q \<Longrightarrow> writable em5 j q \<and> q > 32" for q
            using only_scratch [where j = j and r = SCRATCH_REGISTER0, OF _ _ fl(3,4)] a(5) u(5) by simp
          obtain s1 where r1: "represents R em5 [] ?h s1" "agrees s2 s1" by (rule scribble_at [OF rep j scr])
          have st: "store_value w (dmem (cpu h5)) (unat ?t) (jit_regs h2 ?i) = g ?a (sr s2 ?rt) (dmem (cpu h5))"
            using fast [of y "dmem (cpu h5)" "jit_regs h2 ?i"] True v a(6,7) fl(7) by simp
          have "put_reg ?j (y AND 0xfff) h5 = h5" using put_reg_same [of ?j h5] a(6) fl(7) by simp
          then have "fold (exec_op cl) ?fast h5 = exec_op cl (jit_stxr w ?j ?i) ?h"
            using a(6) fl(7) by (simp add: flip_ops_def flipped_def)
          also have "\<dots> = ?h\<lparr>cpu := ?g (cpu ?h)\<rparr>" using ij fl(7) st by simp
          finally have h': "h' = ?h\<lparr>cpu := ?g (cpu ?h)\<rparr>" using True by (simp add: h'_def)
          have "represents R em5 [] h' (?g s1)" unfolding h' by (rule represents_scalar_free [OF r1(1) un]) simp_all
          moreover have "same_env h5 h'" using same_env_put_reg [of h5 R j ?t] by (simp add: h' same_env_def)
          ultimately show ?thesis using goal [OF r1(2)] by blast
        next
          case slowly: False
          have "writes (the f) g" using slow False .
          then have h': "h' = clobbered cl (h5\<lparr>cpu := ?g (cpu h5)\<rparr>)"
            using slowly fl(7) a(6,7) v by (simp add: h'_def call_def writes_def)
          have "represents R em5 [] (h5\<lparr>cpu := ?g (cpu h5)\<rparr>) (?g s2)" by (rule represents_scalar_free [OF rep un]) simp_all
          then have "represents R em5 [] h' (?g s2)" unfolding h' by (rule represents_clobber) (simp_all add: fl(3))
          moreover have "same_env h5 h'" by (simp add: h' same_env_def)
          ultimately show ?thesis using goal [OF agrees_refl] by blast
        qed
        then obtain s' where s': "represents R em5 [] h' s'" "agrees (s\<lparr>dmem := g ?a (sr s ?rt) (dmem s)\<rparr>) s'" "same_env h5 h'" by blast
        have t6: "tracks R cl b em6 [] h' s'"
          by (rule guarded_tracks [OF fl(2) _ _ _ h'_def s'(1)]) (simp_all add: flip_ops_def em6_def)
        have "3 - flip \<noteq> 0" using False by simp
        moreover have "emit_node jit_jmpi e = (nodes e, emit (jit_jmpi (nodes e)) e\<lparr>nodes := nodes e + 1\<rparr>)" for e by (simp add: emit_node_def)
        ultimately have "jit_emit_store_operation w f flip R instr em = Some em6"
          unfolding jit_emit_store_operation_def Let_def l(1) a(1,2) bind.bind_lunit case_prod_conv
          using u(1) fl(1) by (cases em5) (simp add: emit_node_def emit_def flip_ops_def em6_def del: unlock_all.simps)
        moreover have "same_shape em em6" using shape u(3) fl(5) by (simp add: same_shape_def em6_def)
        ultimately show ?thesis
          using s'(2) same_env_trans [OF same_env_trans [OF env fl(6)] s'(3)] by (intro computesI [OF _ t6]) simp_all
      qed
    qed
  qed
qed

end

lemma write_at: "WRITE_MEM_U8 m ((ucast y + word_of_nat k) AND 0xfff) b = m(BES ((unat y + k) mod 4096) := b)" for y :: u64
  using mips_byte_at [of "\<lambda>x. of_bool (x = BES ((unat y + k) mod 4096))" y k] mips_byte_at [of _ y k]
  unfolding mips_byte_def READ_MEM_U8_def WRITE_MEM_U8_def by (simp split: if_splits)

lemma narrow_bytes: "ucast (drop_bit n (ucast v :: u32)) = (ucast (drop_bit n v) :: u8)" if "n \<le> 24" for v :: u64
  using that by (intro bit_word_eqI) (auto simp: bit_simps)

lemma mips_stores:
  "mips_store 40 (ucast y) (ucast v) m = m(BES (unat y mod 4096) := ucast v)"
  "mips_store 41 (ucast y) (ucast v) m = m(BES (unat y mod 4096) := ucast (drop_bit 8 v), BES ((unat y + 1) mod 4096) := ucast v)"
  "mips_store 43 (ucast y) (ucast v) m = m(BES (unat y mod 4096) := ucast (drop_bit 24 v), BES ((unat y + 1) mod 4096) := ucast (drop_bit 16 v),
     BES ((unat y + 2) mod 4096) := ucast (drop_bit 8 v), BES ((unat y + 3) mod 4096) := ucast v)" for y v :: u64
proof -
  have lists: "[0..<1] = [0]" "[0..<2] = [0, 1]" "[0..<4] = [0, 1, 2, 3::nat]" by (simp_all add: upt_rec)
  have v: "ucast (ucast v :: u32) = (ucast v :: u8)" using narrow_bytes [of 0 v] by simp
  have z: "unat y + 0 = unat y" by simp
  show "mips_store 40 (ucast y) (ucast v) m = m(BES (unat y mod 4096) := ucast v)"
    unfolding mips_store_def Let_def if_P [OF refl] lists using write_at [of m y 0] by (simp add: v)
  have "mips_store 41 (ucast y) (ucast v) m =
      fold (\<lambda>k m. WRITE_MEM_U8 m ((ucast y + word_of_nat k) AND 0xfff) (ucast (drop_bit (8 * (2 - 1 - k)) (ucast v :: u32)))) [0, 1] m"
    unfolding mips_store_def lists [symmetric] by (simp only: Let_def) simp
  also have "\<dots> = m(BES (unat y mod 4096) := ucast (drop_bit 8 v), BES ((unat y + 1) mod 4096) := ucast v)"
    unfolding write_at by (simp add: narrow_bytes v)
  finally show "mips_store 41 (ucast y) (ucast v) m = \<dots>" .
  have "mips_store 43 (ucast y) (ucast v) m =
      fold (\<lambda>k m. WRITE_MEM_U8 m ((ucast y + word_of_nat k) AND 0xfff) (ucast (drop_bit (8 * (4 - 1 - k)) (ucast v :: u32)))) [0, 1, 2, 3] m"
    unfolding mips_store_def lists [symmetric] by (simp only: Let_def) simp
  also have "\<dots> = m(BES (unat y mod 4096) := ucast (drop_bit 24 v), BES ((unat y + 1) mod 4096) := ucast (drop_bit 16 v),
     BES ((unat y + 2) mod 4096) := ucast (drop_bit 8 v), BES ((unat y + 3) mod 4096) := ucast v)"
    unfolding write_at by (simp add: narrow_bytes v)
  finally show "mips_store 43 (ucast y) (ucast v) m = \<dots>" .
qed

interpretation sb: memory_store w_c None 3 "mips_store 40"
  by unfold_locales (simp_all add: flipped_def flip_at mips_stores)

interpretation sh: memory_store w_s "Some rsp_unaligned_sh" 2 "mips_store 41"
proof unfold_locales
  show "store_value w_s m (unat (flipped 2 (y AND 0xfff))) v = mips_store 41 (ucast y) (ucast v) m"
    if "(y AND 0xfff) AND ucast (3 - 2 :: u32) = 0" for y v m
  proof -
    have "HES (unat y mod 4096) = BES ((unat y + 1) mod 4096)" "BES (unat y mod 4096) = HES (unat y mod 4096) + 1" using that half_at [of y] by simp_all
    then show ?thesis unfolding mips_stores by (simp add: flipped_def flip_at fun_upd_twist)
  qed
  show "writes (the (Some rsp_unaligned_sh)) (mips_store 41)"
    unfolding option.sel writes_def mips_stores by (simp add: unaligned_sh_def Let_def fixup_at fixup_at')
qed

interpretation sw: memory_store w_i "Some rsp_unaligned_sw" 0 "mips_store 43"
proof unfold_locales
  show "store_value w_i m (unat (flipped 0 (y AND 0xfff))) v = mips_store 43 (ucast y) (ucast v) m"
    if a: "(y AND 0xfff) AND ucast (3 - 0 :: u32) = 0" for y v m
  proof -
    have *: "unat (y AND 0xfff) + k = BES ((unat y + (3 - k)) mod 4096)" if "k < 4" for k
      by (rule word_at [OF _ that]) (use a in simp)
    show ?thesis unfolding mips_stores using *[of 0] *[of 1] *[of 2] *[of 3]
      by (simp add: flipped_def fun_upd_twist fun_eq_iff)
  qed
  show "writes (the (Some rsp_unaligned_sw)) (mips_store 43)"
    unfolding option.sel writes_def mips_stores by (simp add: unaligned_sw_def Let_def fixup_at fixup_at')
qed

section \<open>All of them\<close>

lemma memory_op_tracks:
  assumes t: "tracks R cl b em [] h s" and n: "3 \<le> length (entries em)" and R: "R \<le> length (entries em)"
    and f: "memory_op (unat (drop_bit 26 instr)) = Some f"
  shows "computes R cl b em h (f R instr em) (mips_memory instr s)"
proof -
  let ?ty = "unat (drop_bit 26 instr)" and ?a = "sr s (rs_of instr) + word_of_int (sint (ucast instr :: u16))"
  have loads: "mips_memory instr s = (if rt_of instr = 0 then s else s\<lparr>sr := (sr s)(rt_of instr := mips_load ?ty (dmem s) ?a)\<rparr>)" if "?ty < 40"
    using that by (simp add: mips_memory_def Let_def)
  have stores: "mips_memory instr s = s\<lparr>dmem := mips_store ?ty ?a (sr s (rt_of instr)) (dmem s)\<rparr>" if "\<not> ?ty < 40"
    using that by (simp add: mips_memory_def Let_def)
  consider "?ty = 32" "f = jit_emit_load_operation w_c None 3" | "?ty = 33" "f = jit_emit_load_operation w_s (Some rsp_unaligned_lh) 2"
    | "?ty = 35 \<or> ?ty = 39" "f = jit_emit_load_operation w_i (Some rsp_unaligned_lw) 0" | "?ty = 36" "f = jit_emit_load_operation w_uc None 3"
    | "?ty = 37" "f = jit_emit_load_operation w_us (Some rsp_unaligned_lhu) 2" | "?ty = 40" "f = jit_emit_store_operation w_c None 3"
    | "?ty = 41" "f = jit_emit_store_operation w_s (Some rsp_unaligned_sh) 2" | "?ty = 43" "f = jit_emit_store_operation w_i (Some rsp_unaligned_sw) 0"
    using f unfolding memory_op_def by (simp split: if_splits)
  then show ?thesis
  proof cases
    case 1
    have v: "mips_load ?ty m a = scast (mips_byte m a)" for m a using 1 by (auto simp: mips_load_def)
    have less: "?ty < 40" using 1 by auto
    show ?thesis unfolding loads [OF less] v 1(2) by (rule lb.load_tracks [OF t n R])
  next
    case 2
    have v: "mips_load ?ty m a = scast (mips_half m a)" for m a using 2 by (auto simp: mips_load_def)
    have less: "?ty < 40" using 2 by auto
    show ?thesis unfolding loads [OF less] v 2(2) by (rule lh.load_tracks [OF t n R])
  next
    case 3
    have v: "mips_load ?ty m a = mips_word m a" for m a using 3 by (auto simp: mips_load_def)
    have less: "?ty < 40" using 3 by auto
    show ?thesis unfolding loads [OF less] v 3(2) by (rule lw.load_tracks [OF t n R])
  next
    case 4
    have v: "mips_load ?ty m a = ucast (mips_byte m a)" for m a using 4 by (auto simp: mips_load_def)
    have less: "?ty < 40" using 4 by auto
    show ?thesis unfolding loads [OF less] v 4(2) by (rule lbu.load_tracks [OF t n R])
  next
    case 5
    have v: "mips_load ?ty m a = ucast (mips_half m a)" for m a using 5 by (auto simp: mips_load_def)
    have less: "?ty < 40" using 5 by auto
    show ?thesis unfolding loads [OF less] v 5(2) by (rule lhu.load_tracks [OF t n R])
  next
    case 6
    have less: "\<not> ?ty < 40" using 6 by simp
    show ?thesis unfolding stores [OF less] 6 by (rule sb.store_tracks [OF t n R])
  next
    case 7
    have less: "\<not> ?ty < 40" using 7 by simp
    show ?thesis unfolding stores [OF less] 7 by (rule sh.store_tracks [OF t n R])
  next
    case 8
    have less: "\<not> ?ty < 40" using 8 by simp
    show ?thesis unfolding stores [OF less] 8 by (rule sw.store_tracks [OF t n R])
  qed
qed

end
