(* ===== verification/Jit_Straight.thy ===== *)
theory Jit_Straight
  imports Jit_Memory
begin

unbundle bit_operations_syntax

text \<open>
  Correctness of the code emitted for instructions that call a handler, of every instruction that is not a branch, and of straight-line
  code: compiled from an empty register cache and flushed at the end, it does what the instructions do one after the other.
\<close>

section \<open>Calls of handlers\<close>

text \<open>A change of the processor state that reads and writes at most register \<open>r\<close> of the scalar registers.\<close>

definition local_to :: "nat \<Rightarrow> (CPUState \<Rightarrow> CPUState) \<Rightarrow> bool" where
  "local_to r g \<longleftrightarrow> (\<forall>s x. x r = sr s r \<longrightarrow> g (s\<lparr>sr := x\<rparr>) = (g s)\<lparr>sr := x(r := sr (g s) r)\<rparr>)"

lemma local_to_sr: "local_to r g \<Longrightarrow> sr (g s) = (sr s)(r := sr (g s) r)"
proof -
  assume "local_to r g"
  then have "g (s\<lparr>sr := sr s\<rparr>) = (g s)\<lparr>sr := (sr s)(r := sr (g s) r)\<rparr>" unfolding local_to_def by blast
  then show ?thesis by (metis CPUState.select_convs(5) CPUState.surjective CPUState.update_convs(5))
qed

lemma local_to_agrees:
  assumes "local_to r g" "r \<le> 32" "agrees s s'"
  shows "agrees (g s) (g s')"
proof -
  have "s' = s\<lparr>sr := sr s'\<rparr>" "sr s' r = sr s r" using assms by (simp_all add: agrees_def)
  then have "g s' = (g s)\<lparr>sr := (sr s')(r := sr (g s) r)\<rparr>" using assms(1) unfolding local_to_def by metis
  then show ?thesis using local_to_sr [OF assms(1), of s] assms(3) by (auto simp: agrees_def) (metis fun_upd_apply)+
qed

lemma represents_local:
  assumes rep: "represents R em [] h s" and none: "\<And>i. \<not> holds em i r" and g: "local_to r g" and r: "r \<le> 32" and zero: "sr (g s) 0 = 0"
    and h': "cpu h' = g (cpu h)" "\<And>i. i < length (entries em) \<Longrightarrow> is_live (entries em ! i) \<Longrightarrow>
      jit_regs h' (entry_to_jit_register R i) = jit_regs h (entry_to_jit_register R i)"
  shows "represents R em [] h' (g s)"
proof -
  have mem: "sr (cpu h) r = sr s r"
    using represents_mem [OF rep _ r] none rep by (cases "r = 0") (simp_all add: represents_def)
  have "cpu h = s\<lparr>sr := sr (cpu h)\<rparr>" using rep by (metis CPUState.surjective CPUState.update_convs(5) represents_def)
  then have c: "cpu h' = (g s)\<lparr>sr := (sr (cpu h))(r := sr (g s) r)\<rparr>" using g mem h'(1) unfolding local_to_def by metis
  have sr': "sr (g s) q = (if q = r then sr (g s) r else sr s q)" for q using local_to_sr [OF g, of s] by (metis fun_upd_apply)
  have "entry_ok [] (g s) (entries em ! i) (jit_regs h' (entry_to_jit_register R i))" if i: "i < length (entries em)" for i
  proof (cases "is_live (entries em ! i)")
    case True
    then have "mips_register (entries em ! i) \<noteq> r" using none [of i] i by (auto simp: holds_def)
    then show ?thesis using rep i h'(2) [OF i True] sr' by (simp add: represents_def entry_ok_def)
  next
    case False
    then show ?thesis using rep i by (simp add: represents_def entry_ok_def)
  qed
  moreover have "(\<exists>i. holds em i q \<and> modified (entries em ! i)) \<or> sr (cpu h') q = sr (g s) q" if "1 \<le> q" "q \<le> 32" for q
    using rep that sr' [of q] by (auto simp: c represents_def)
  moreover have "sr (cpu h') 0 = 0" using rep zero by (auto simp: c represents_def)
  ultimately show ?thesis using rep zero unfolding represents_def by (simp add: c)
qed

lemma reads_only_local: "reads_only r g \<Longrightarrow> local_to r g"
  unfolding local_to_def using reads_only_sr_update reads_only_keeps(1) by (metis fun_upd_triv)

lemma writes_only_local: "writes_only r g \<Longrightarrow> local_to r g"
  unfolding writes_only_def
proof (elim disjE exE)
  fix f assume f: "\<forall>s. g s = s\<lparr>sr := (sr s)(r := f s)\<rparr> \<and> (\<forall>x. f (with_sr x s) = f s)"
  then have "f (with_sr (Scalars x (has_delay_slot s) (branch_target s)) s) = f s" for s x by simp
  then have "f (s\<lparr>sr := x\<rparr>) = f s" for s x by (simp add: with_sr_def)
  then show "local_to r g" using f by (simp add: local_to_def)
next
  assume "g = id"
  then show "local_to r g" unfolding local_to_def by (metis fun_upd_triv id_apply)
qed

lemma handler_tracks:
  assumes t: "tracks R cl b em [] h s" and R: "R \<le> length (entries em)" and r: "r \<le> 32"
    and g: "local_to r (\<lambda>s. g s packed)" and zero: "sr (g s packed) 0 = 0"
  shows "computes R cl b em h (do { em \<leftarrow> flush_caller_save_registers R em; em \<leftarrow> flush_mips_register R r em;
      Some (emit (jit_finishi (Handler g packed) []) em) }) (g s packed)"
proof (rule flush_caller_save_tracks [OF t R])
  fix em1 h1
  assume f: "flush_caller_save_registers R em = Some em1" "tracks R cl b em1 [] h1 s" "\<And>i q. holds em1 i q \<longleftrightarrow> R \<le> i \<and> holds em i q"
    "same_shape em em1" "same_env h h1"
  show ?thesis
  proof (rule flush_mips_register_tracks [OF f(2), of r])
    fix em2 h2
    assume m: "flush_mips_register R r em1 = Some em2" "tracks R cl b em2 [] h2 s" "\<And>i q. holds em2 i q \<longleftrightarrow> q \<noteq> r \<and> holds em1 i q"
      "same_shape em1 em2" "same_env h1 h2"
    let ?op = "jit_finishi (Handler g packed) []" and ?h = "clobbered cl (h2\<lparr>cpu := g (cpu h2) packed\<rparr>)"
    have rep: "represents R em2 [] h2 s" using m(2) by (rule tracks_represents)
    have h': "exec_op cl ?op h2 = ?h" by (simp add: call_def)
    have "represents R em2 [] ?h (g s packed)"
    proof (rule represents_local [OF rep _ g r zero])
      fix i assume i: "i < length (entries em2)" "is_live (entries em2 ! i)"
      then have "R \<le> i" using m(3) [of i "mips_register (entries em2 ! i)"] f(3) by (simp add: holds_def)
      then show "jit_regs ?h (entry_to_jit_register R i) = jit_regs h2 (entry_to_jit_register R i)" by (simp add: entry_to_jit_register_def)
    qed (use m(3) in simp_all)
    then have e: "tracks R cl b (emit ?op em2) [] ?h (g s packed)"
      using m(2) exec_emit [of cl b em2 h2 ?op] unfolding tracks_def h' represents_entries [OF emit_simps(1)] by simp
    have env: "same_env h ?h" using same_env_trans [OF f(5) m(5)] by (simp add: same_env_def)
    have "same_shape em (emit ?op em2)" using f(4) m(4) by (simp add: same_shape_def)
    then show ?thesis using f(1) m(1) by (intro computesI [OF _ e _ env agrees_refl]) simp_all
  qed
qed

lemma vector_op_tracks:
  assumes t: "tracks R cl b em [] h s" and R: "R \<le> length (entries em)"
  shows "computes R cl b em h (jit_vector_op t' R instr em) (vu_instruction t' instr s)"
proof (rule flush_caller_save_tracks [OF t R])
  fix em1 h1
  assume f: "flush_caller_save_registers R em = Some em1" "tracks R cl b em1 [] h1 s" "\<And>i q. holds em1 i q \<longleftrightarrow> R \<le> i \<and> holds em i q"
    "same_shape em em1" "same_env h h1"
  let ?g = "run_packed_vu (vu_handler_of instr) t' (unat (drop_bit 21 instr AND 15))" and ?packed = "pack_vu (shift_of instr) (rd_of instr) (rt_of instr)"
  let ?op = "jit_finishi (Handler ?g ?packed) []" and ?h = "clobbered cl (h1\<lparr>cpu := vu_instruction t' instr (cpu h1)\<rparr>)"
  have rep: "represents R em1 [] h1 s" using f(2) by (rule tracks_represents)
  have g: "?g s ?packed = vu_instruction t' instr s" for s by (simp add: vu_instruction_def fld_def Let_def)
  then have h': "exec_op cl ?op h1 = ?h" by (simp add: call_def)
  have "represents R em1 [] (h1\<lparr>cpu := vu_instruction t' instr (cpu h1)\<rparr>) (vu_instruction t' instr s)"
    by (rule represents_scalar_free [OF rep scalar_free_vu_instruction]) simp_all
  then have "represents R em1 [] ?h (vu_instruction t' instr s)" by (rule represents_clobber) (simp_all add: f(3))
  then have e: "tracks R cl b (emit ?op em1) [] ?h (vu_instruction t' instr s)"
    using f(2) exec_emit [of cl b em1 h1 ?op] unfolding tracks_def h' represents_entries [OF emit_simps(1)] by simp
  have env: "same_env h ?h" using f(5) by (simp add: same_env_def)
  have "same_shape em (emit ?op em1)" using f(4) by (simp add: same_shape_def)
  then show ?thesis using f(1) by (intro computesI [OF _ e _ env agrees_refl]) (simp_all add: jit_vector_op_def Let_def)
qed

section \<open>Operands of handlers\<close>

lemma unpack_pack_ls: "rt < 256 \<Longrightarrow> base < 256 \<Longrightarrow> unpack_ls (pack_ls offset rt base) = (sint offset, rt, base)"
proof -
  assume b: "rt < 256" "base < 256"
  let ?v = "pack_ls offset rt base"
  note bits = byte_bits [OF b(1)] byte_bits [OF b(2)]
  have o16: "bit offset k \<Longrightarrow> k < 16" for k using bit_imp_le_length [of offset k] by simp
  have v: "?v = ucast offset OR push_bit 16 (word_of_nat rt) OR push_bit 24 (word_of_nat base)" using b by (simp add: pack_ls_def)
  have "ucast ?v = offset" unfolding v by (rule bit_word_eqI) (auto simp: bit_simps)
  moreover have "take_bit 8 (drop_bit 16 ?v) = word_of_nat rt"
    unfolding v by (rule bit_word_eqI) (auto simp: bit_simps dest: o16 bits)
  moreover have "drop_bit 24 ?v = word_of_nat base"
    unfolding v by (rule bit_word_eqI) (auto simp: bit_simps dest: o16 bits)
  ultimately show ?thesis using b by (simp add: unpack_ls_def unat_of_nat)
qed

lemma unpack_pack_cp: "rt < 256 \<Longrightarrow> rd < 256 \<Longrightarrow> e < 16 \<Longrightarrow> unpack_cp (pack_cp rt rd e) = (rt, rd, e)"
proof -
  assume b: "rt < 256" "rd < 256" "e < 16"
  let ?v = "pack_cp rt rd e"
  have e: "e < 256" using b by simp
  note bits = byte_bits [OF b(1)] byte_bits [OF b(2)] byte_bits [OF e]
  have v: "?v = word_of_nat rt OR push_bit 8 (word_of_nat rd) OR push_bit 16 (word_of_nat e)" using b by (simp add: pack_cp_def)
  have "take_bit 8 ?v = word_of_nat rt" unfolding v by (rule bit_word_eqI) (auto simp: bit_simps dest: bits)
  moreover have "take_bit 8 (drop_bit 8 ?v) = word_of_nat rd" unfolding v by (rule bit_word_eqI) (auto simp: bit_simps dest: bits)
  moreover have "drop_bit 16 ?v = word_of_nat e" unfolding v by (rule bit_word_eqI) (auto simp: bit_simps dest: bits)
  ultimately show ?thesis using b by (simp add: unpack_cp_def unat_of_nat)
qed

text \<open>The offset of a vector load or store is the low seven bits of the instruction, as a signed number.\<close>

lemma ls_offset_value: "sint (ls_offset instr) = sint (ucast instr :: 7 word)"
proof -
  have "ls_offset instr = scast (ucast instr :: 7 word)"
  proof (rule bit_word_eqI)
    fix n assume n: "n < LENGTH(16)"
    show "bit (ls_offset instr) n \<longleftrightarrow> bit (scast (ucast instr :: 7 word) :: u16) n"
      using n by (cases "n = 6"; cases "n < 6") (auto simp: ls_offset_def bit_simps min_def)
  qed
  moreover have "sint (scast (w :: 7 word) :: u16) = sint w" for w by (rule sint_up_scast) (simp add: is_up)
  ultimately show ?thesis by simp
qed

section \<open>Instructions of coprocessor 2\<close>

definition mips_vector_memory :: "ls_handler option list \<Rightarrow> target \<Rightarrow> u32 \<Rightarrow> CPUState \<Rightarrow> CPUState" where
  "mips_vector_memory ops t instr s =
     (case ops ! rd_of instr of None \<Rightarrow> s
      | Some f \<Rightarrow> f t (unat (drop_bit 7 instr AND 15)) s (rt_of instr) (sint (ucast instr :: 7 word)) (rs_of instr))"

definition mips_move :: "u32 \<Rightarrow> CPUState \<Rightarrow> CPUState" where
  "mips_move instr s =
     (let rt = rt_of instr; rd = rd_of instr; rs = rs_of instr; e = unat (drop_bit 7 instr AND 15)
      in if rs = 0 then RSP_MFC2 s rt rd e else if rs = 2 then RSP_CFC2 s rt rd
         else if rs = 4 then RSP_MTC2 s rt rd e else if rs = 6 then RSP_CTC2 s rt rd else s)"

lemma writes_only_zero:
  "sr s 0 = 0 \<Longrightarrow> sr (RSP_MFC2 s rt rd e) 0 = 0" "sr s 0 = 0 \<Longrightarrow> sr (RSP_CFC2 s rt rd) 0 = 0"
  by (simp_all add: RSP_MFC2_def RSP_CFC2_def set_sr_def Let_def)

lemma ls_ops_read_only:
  assumes "ops = lwc2_ops \<or> ops = swc2_ops" "k < 32" "ops ! k = Some f"
  shows "reads_only base (\<lambda>s. f t e s rt offset base)"
proof -
  have "length lwc2_ops = 32" "length swc2_ops = 32" by (simp_all add: lwc2_ops_def swc2_ops_def)
  then have "Some f \<in> set ops" using assms by (metis nth_mem)
  then have "Some f \<in> set lwc2_ops \<union> set swc2_ops" using assms(1) by auto
  then have "f \<in> {RSP_LBV, RSP_LSV, RSP_LLV, RSP_LDV, RSP_LQV, RSP_LRV, RSP_LPV, RSP_LUV, RSP_LHV, RSP_LFV, RSP_LTV, RSP_SBV, RSP_SSV, RSP_SLV,
      RSP_SDV, RSP_SQV, RSP_SRV, RSP_SPV, RSP_SUV, RSP_SHV, RSP_SFV, RSP_SWV, RSP_STV}"
    unfolding lwc2_ops_def swc2_ops_def by auto
  then show ?thesis by (auto intro: reads_only_loads reads_only_transposed reads_only_stores)
qed

lemma fld_byte [simp]: "fld instr k < 256"
  by (rule order.strict_trans [OF fld_less(1)]) simp

lemma elem16 [simp]: "unat (drop_bit 7 instr AND 15) < 16" for instr :: u32
  by (rule field_less(2))

lemma vector_memory_tracks:
  assumes t: "tracks R cl b em [] h s" and R: "R \<le> length (entries em)" and ops: "ops = lwc2_ops \<or> ops = swc2_ops"
  shows "computes R cl b em h (jit_vector_memory ops t' R instr em) (mips_vector_memory ops t' instr s)"
proof (cases "ops ! rd_of instr")
  case None
  then show ?thesis using computes_nothing [OF t] by (simp add: jit_vector_memory_def mips_vector_memory_def Let_def)
next
  case (Some f)
  let ?e = "unat (drop_bit 7 instr AND 15)"
  let ?g = "run_packed_ls f t' ?e" and ?packed = "pack_ls (ls_offset instr) (rt_of instr) (rs_of instr)"
  have g: "(\<lambda>s. ?g s ?packed) = (\<lambda>s. f t' ?e s (rt_of instr) (sint (ucast instr :: 7 word)) (rs_of instr))"
    by (simp add: run_packed_ls_def unpack_pack_ls ls_offset_value)
  have ro: "reads_only (rs_of instr) (\<lambda>s. ?g s ?packed)" unfolding g by (rule ls_ops_read_only [OF ops _ Some]) simp
  have zero: "sr (?g s ?packed) 0 = 0" using t reads_only_keeps(1) [OF ro, of s] by (simp add: tracks_def represents_def)
  have "computes R cl b em h (jit_vector_memory ops t' R instr em) (?g s ?packed)"
    using handler_tracks [where g = ?g and packed = ?packed, OF t R _ reads_only_local [OF ro] zero] Some by (simp add: jit_vector_memory_def Let_def)
  then show ?thesis using Some fun_cong [OF g, of s] by (simp add: mips_vector_memory_def)
qed

lemma cop2_tracks:
  assumes t: "tracks R cl b em [] h s" and R: "R \<le> length (entries em)"
  shows "computes R cl b em h (jit_cop2 R instr em) (mips_move instr s)"
proof -
  let ?rt = "rt_of instr" and ?rd = "rd_of instr" and ?e = "unat (drop_bit 7 instr AND 15)"
  let ?packed = "pack_cp ?rt ?rd ?e"
  have go: "computes R cl b em h (do { em \<leftarrow> flush_caller_save_registers R em; em \<leftarrow> flush_mips_register R ?rt em;
      Some (emit (jit_finishi (Handler (run_packed_cp2 g) ?packed) []) em) }) (g s ?rt ?rd ?e)"
    if "reads_only ?rt (\<lambda>s. g s ?rt ?rd ?e) \<or> writes_only ?rt (\<lambda>s. g s ?rt ?rd ?e)" "sr (g s ?rt ?rd ?e) 0 = 0" for g
    using handler_tracks [OF t R, of ?rt "run_packed_cp2 g" ?packed] that reads_only_local writes_only_local
    by (auto simp: run_packed_cp2_def unpack_pack_cp)
  have z: "sr s 0 = 0" using t by (simp add: tracks_def represents_def)
  note zeros = writes_only_zero [OF z] reads_only_keeps(1) [OF reads_only_moves(1), of s] reads_only_keeps(1) [OF reads_only_moves(2), of s]
  show ?thesis
    unfolding jit_cop2_def mips_move_def Let_def
    using go [of RSP_MFC2] go [of "\<lambda>s rt rd e. RSP_CFC2 s rt rd"] go [of RSP_MTC2] go [of "\<lambda>s rt rd e. RSP_CTC2 s rt rd"]
      computes_nothing [OF t] zeros z reads_only_moves writes_only_moves by simp
qed

section \<open>Instructions that do not branch\<close>

text \<open>The processor: one instruction that is neither a branch nor a break nor one of coprocessor 0. Other opcodes do nothing.\<close>

definition mips_step :: "target \<Rightarrow> u32 \<Rightarrow> CPUState \<Rightarrow> CPUState" where
  "mips_step t instr s =
     (let type = unat (drop_bit 26 instr); funct = unat (instr AND 63)
      in if is_vu_instruction instr then vu_instruction t instr s
         else if type = 0 then (if funct \<in> {0, 2, 3, 4, 6, 7, 32, 33, 34, 35, 36, 37, 38, 39, 42, 43} then mips_alu instr s else s)
         else if type \<in> {8, 9, 10, 11, 12, 13, 14, 15} then mips_alu instr s
         else if type = 18 then mips_move instr s
         else if type \<in> {32, 33, 35, 36, 37, 39, 40, 41, 43} then mips_memory instr s
         else if type = 50 then mips_vector_memory lwc2_ops t instr s
         else if type = 58 then mips_vector_memory swc2_ops t instr s
         else s)"

definition falls_through :: "u32 \<Rightarrow> bool" where
  "falls_through instr \<longleftrightarrow>
     (let type = unat (drop_bit 26 instr); funct = unat (instr AND 63)
      in type \<notin> {1, 2, 3, 4, 5, 6, 7, 16} \<and> \<not> (type = 0 \<and> funct \<in> {8, 9, 13}))"

lemma agrees_dmem: "agrees s s' \<Longrightarrow> dmem s' = dmem s"
  unfolding agrees_def by (metis CPUState.select_convs(6) CPUState.surjective CPUState.update_convs(5))

lemma agrees_reg: "agrees s s' \<Longrightarrow> sr s' (fld instr k) = sr s (fld instr k)"
  by (simp add: agrees_def)

lemma mips_step_agrees: "agrees s s' \<Longrightarrow> agrees (mips_step t instr s) (mips_step t instr s')"
proof -
  assume a: "agrees s s'"
  have "agrees (mips_alu instr s) (mips_alu instr s')"
    using a agrees_put [OF a] by (simp add: mips_alu_def Let_def agrees_reg [OF a])
  moreover have "agrees (mips_memory instr s) (mips_memory instr s')"
    using a agrees_put [OF a] agrees_scalar_free [OF scalar_free_dmem a]
    by (simp add: mips_memory_def Let_def agrees_reg [OF a] agrees_dmem [OF a])
  moreover have "agrees (mips_vector_memory ops t instr s) (mips_vector_memory ops t instr s')" if "ops = lwc2_ops \<or> ops = swc2_ops" for ops
  proof (cases "ops ! rd_of instr")
    case (Some f)
    have "local_to (rs_of instr) (\<lambda>s. f t (unat (drop_bit 7 instr AND 15)) s (rt_of instr) (sint (ucast instr :: 7 word)) (rs_of instr))"
      by (rule reads_only_local [OF ls_ops_read_only [OF that _ Some]]) simp
    from local_to_agrees [OF this _ a] show ?thesis by (simp add: mips_vector_memory_def Some)
  qed (use a in \<open>simp add: mips_vector_memory_def\<close>)
  moreover have "agrees (mips_move instr s) (mips_move instr s')"
    unfolding mips_move_def Let_def
    using a local_to_agrees [OF writes_only_local [OF writes_only_moves(1)] _ a] local_to_agrees [OF writes_only_local [OF writes_only_moves(2)] _ a]
      local_to_agrees [OF reads_only_local [OF reads_only_moves(1)] _ a] local_to_agrees [OF reads_only_local [OF reads_only_moves(2)] _ a]
    by simp
  ultimately show ?thesis using a agrees_scalar_free [OF scalar_free_vu_instruction a] unfolding mips_step_def Let_def by simp
qed

lemma special_alu_iff: "special_alu k \<noteq> None \<longleftrightarrow> k \<in> {0, 2, 3, 4, 6, 7, 32, 33, 34, 35, 36, 37, 38, 39, 42, 43}"
  by (simp add: special_alu_def)

lemma immediate_alu_iff: "immediate_alu k instr \<noteq> None \<longleftrightarrow> k \<in> {8, 9, 10, 11, 12, 13, 14, 15}"
  by (simp add: immediate_alu_def)

lemma memory_op_iff: "memory_op k \<noteq> None \<longleftrightarrow> k \<in> {32, 33, 35, 36, 37, 39, 40, 41, 43}"
  by (simp add: memory_op_def)

lemma instruction_tracks:
  assumes t: "tracks R cl b em [] h s" and n: "3 \<le> length (entries em)" and R: "R \<le> length (entries em)" and ft: "falls_through instr"
  shows "\<exists>em'. jit_instruction t' rdp R pc' instr last_info first next_target em = Some (no_info, em') \<and>
    computes R cl b em h (Some em') (mips_step t' instr s)"
proof -
  let ?ty = "unat (drop_bit 26 instr)" and ?f = "unat (instr AND 63)"
  let ?goal = "\<lambda>x. \<exists>em'. x = Some (no_info, em') \<and> computes R cl b em h (Some em') (mips_step t' instr s)"
  have plain: "?goal (map_option (\<lambda>em. (no_info, em)) x)" if "computes R cl b em h x (mips_step t' instr s)" for x
    using that by (auto simp: computes_def)
  have ty: "?ty \<notin> {1, 2, 3, 4, 5, 6, 7, 16}" "\<not> (?ty = 0 \<and> ?f \<in> {8, 9, 13})" using ft by (simp_all add: falls_through_def Let_def)
  consider (vu) "is_vu_instruction instr" | (special) "\<not> is_vu_instruction instr" "?ty = 0" "special_alu ?f \<noteq> None"
    | (imm) "\<not> is_vu_instruction instr" "immediate_alu ?ty instr \<noteq> None" | (move) "\<not> is_vu_instruction instr" "?ty = 18"
    | (mem) "\<not> is_vu_instruction instr" "memory_op ?ty \<noteq> None" | (lwc2) "\<not> is_vu_instruction instr" "?ty = 50"
    | (swc2) "\<not> is_vu_instruction instr" "?ty = 58"
    | (none) "\<not> is_vu_instruction instr" "?ty = 0 \<longrightarrow> special_alu ?f = None" "immediate_alu ?ty instr = None" "?ty \<noteq> 18" "memory_op ?ty = None"
      "?ty \<noteq> 50" "?ty \<noteq> 58"
    by argo
  then show ?thesis
  proof cases
    case vu
    have "jit_instruction t' rdp R pc' instr last_info first next_target em = map_option (\<lambda>em. (no_info, em)) (jit_vector_op t' R instr em)"
      using vu by (simp add: jit_instruction_def Let_def)
    moreover have "mips_step t' instr s = vu_instruction t' instr s" using vu by (simp add: mips_step_def Let_def)
    ultimately show ?thesis using plain vector_op_tracks [OF t R, of t' instr] by simp
  next
    case special
    then obtain f where f: "special_alu ?f = Some f" by blast
    have "jit_instruction t' rdp R pc' instr last_info first next_target em = map_option (\<lambda>em. (no_info, em)) (f R instr em)"
      using special ty f by (simp add: jit_instruction_def Let_def)
    moreover have "mips_step t' instr s = mips_alu instr s"
      using special unfolding special_alu_iff by (simp add: mips_step_def Let_def)
    moreover have "drop_bit 26 instr = 0" using special(2) by (simp only: unat_eq_zero)
    ultimately show ?thesis using plain special_alu_tracks [OF t n _ f] by simp
  next
    case imm
    then obtain f where f: "immediate_alu ?ty instr = Some f" by blast
    have k: "?ty \<in> {8, 9, 10, 11, 12, 13, 14, 15}" using imm(2) unfolding immediate_alu_iff .
    have "?ty \<noteq> 0" using k by auto
    then have "jit_instruction t' rdp R pc' instr last_info first next_target em = map_option (\<lambda>em. (no_info, em)) (f R instr em)"
      unfolding jit_instruction_def Let_def f using imm(1) by simp
    moreover have "mips_step t' instr s = mips_alu instr s"
      unfolding mips_step_def Let_def using imm(1) k \<open>?ty \<noteq> 0\<close> by (simp only: if_False if_True simp_thms)
    ultimately show ?thesis using plain immediate_alu_tracks [OF t n f] by simp
  next
    case move
    have "immediate_alu ?ty instr = None" using move immediate_alu_iff [of ?ty instr] by auto
    then have "jit_instruction t' rdp R pc' instr last_info first next_target em = map_option (\<lambda>em. (no_info, em)) (jit_cop2 R instr em)"
      unfolding jit_instruction_def Let_def using move by auto
    moreover have "mips_step t' instr s = mips_move instr s" unfolding mips_step_def Let_def using move by auto
    ultimately show ?thesis using plain cop2_tracks [OF t R, of instr] by simp
  next
    case mem
    then obtain f where f: "memory_op ?ty = Some f" by blast
    have k: "?ty \<in> {32, 33, 35, 36, 37, 39, 40, 41, 43}" using mem(2) unfolding memory_op_iff .
    have "immediate_alu ?ty instr = None" "?ty \<noteq> 0" "?ty \<noteq> 16" "?ty \<noteq> 18" using k immediate_alu_iff [of ?ty instr] by auto
    then have "jit_instruction t' rdp R pc' instr last_info first next_target em = map_option (\<lambda>em. (no_info, em)) (f R instr em)"
      unfolding jit_instruction_def Let_def f using mem(1) by simp
    moreover have "?ty \<notin> {8, 9, 10, 11, 12, 13, 14, 15}" using k by auto
    then have "mips_step t' instr s = mips_memory instr s"
      unfolding mips_step_def Let_def using mem(1) k \<open>?ty \<noteq> 0\<close> \<open>?ty \<noteq> 18\<close> by (simp only: if_False if_True simp_thms)
    ultimately show ?thesis using plain memory_op_tracks [OF t n R f] by simp
  next
    case lwc2
    have "immediate_alu ?ty instr = None" "memory_op ?ty = None" using lwc2 immediate_alu_iff [of ?ty instr] memory_op_iff [of ?ty] by auto
    then have "jit_instruction t' rdp R pc' instr last_info first next_target em =
        map_option (\<lambda>em. (no_info, em)) (jit_vector_memory lwc2_ops t' R instr em)"
      unfolding jit_instruction_def Let_def using lwc2 by auto
    moreover have "mips_step t' instr s = mips_vector_memory lwc2_ops t' instr s" unfolding mips_step_def Let_def using lwc2 by auto
    ultimately show ?thesis using plain vector_memory_tracks [OF t R, of lwc2_ops t' instr] by simp
  next
    case swc2
    have "immediate_alu ?ty instr = None" "memory_op ?ty = None" using swc2 immediate_alu_iff [of ?ty instr] memory_op_iff [of ?ty] by auto
    then have "jit_instruction t' rdp R pc' instr last_info first next_target em =
        map_option (\<lambda>em. (no_info, em)) (jit_vector_memory swc2_ops t' R instr em)"
      unfolding jit_instruction_def Let_def using swc2 by auto
    moreover have "mips_step t' instr s = mips_vector_memory swc2_ops t' instr s" unfolding mips_step_def Let_def using swc2 by auto
    ultimately show ?thesis using plain vector_memory_tracks [OF t R, of swc2_ops t' instr] by simp
  next
    case none
    have k: "?ty \<notin> {8, 9, 10, 11, 12, 13, 14, 15}" "?ty \<notin> {32, 33, 35, 36, 37, 39, 40, 41, 43}" "?ty = 0 \<Longrightarrow> ?f \<notin> {0, 2, 3, 4, 6, 7, 32, 33, 34, 35, 36, 37, 38, 39, 42, 43}"
      using none immediate_alu_iff [of ?ty instr] memory_op_iff [of ?ty] special_alu_iff [of ?f] by auto
    have bt: "?ty \<noteq> 1" "?ty \<noteq> 2" "?ty \<noteq> 3" "?ty \<noteq> 4" "?ty \<noteq> 5" "?ty \<noteq> 6" "?ty \<noteq> 7" "?ty \<noteq> 16" using ty(1) by auto
    have "jit_instruction t' rdp R pc' instr last_info first next_target em = Some (no_info, em)"
    proof (cases "?ty = 0")
      case True
      then have "?f \<noteq> 8" "?f \<noteq> 9" "?f \<noteq> 13" "special_alu ?f = None" using ty(2) none(2) by auto
      then show ?thesis unfolding jit_instruction_def Let_def jit_branch_def using none(1,3-7) True by simp
    next
      case False
      then show ?thesis unfolding jit_instruction_def Let_def jit_branch_def using none(1,3-7) bt by simp
    qed
    moreover have "mips_step t' instr s = s"
      unfolding mips_step_def Let_def using none(1,4,6,7) k by (cases "?ty = 0") (simp_all only: if_False if_True simp_thms)
    ultimately show ?thesis using computes_nothing [OF t] by simp
  qed
qed

section \<open>Straight-line code\<close>

text \<open>Instructions compiled one after the other, as \<open>CPU::jit_region\<close> does while none of them is a branch.\<close>

fun compile_straight :: "target \<Rightarrow> (CPUState \<Rightarrow> CPUState) \<Rightarrow> nat \<Rightarrow> u32 \<Rightarrow> u32 list \<Rightarrow> emitter \<Rightarrow> emitter option" where
  "compile_straight t rdp R pc' [] em = flush_register_window R em"
| "compile_straight t rdp R pc' (instr # rest) em =
     jit_instruction t rdp R pc' instr no_info False False em \<bind> (\<lambda>(_, em). compile_straight t rdp R (pc' + 4) rest em)"

lemma compile_straight_tracks:
  "tracks R cl b em [] h s \<Longrightarrow> 3 \<le> length (entries em) \<Longrightarrow> R \<le> length (entries em) \<Longrightarrow> list_all falls_through instrs \<Longrightarrow>
   \<exists>em' h' s'. compile_straight t rdp R pc' instrs em = Some em' \<and> tracks R cl b em' [] h' s' \<and> (\<forall>i r. \<not> holds em' i r) \<and>
     (\<forall>r\<le>32. sr (cpu h') r = sr s' r) \<and> agrees (fold (mips_step t) instrs s) s'"
proof (induction instrs arbitrary: em h s pc')
  case Nil
  show ?case
    by (rule flush_register_window_tracks [OF Nil(1)], intro exI conjI) (assumption | simp)+
next
  case (Cons instr instrs)
  have ft: "falls_through instr" "list_all falls_through instrs" using Cons.prems(4) by simp_all
  obtain em1 where i: "jit_instruction t rdp R pc' instr no_info False False em = Some (no_info, em1)"
    "computes R cl b em h (Some em1) (mips_step t instr s)"
    using instruction_tracks [OF Cons.prems(1-3) ft(1)] by blast
  then obtain h1 s1 where c: "tracks R cl b em1 [] h1 s1" "same_shape em em1" "agrees (mips_step t instr s) s1"
    by (auto simp: computes_def)
  have n: "3 \<le> length (entries em1)" "R \<le> length (entries em1)" using Cons.prems(2,3) c(2) by (simp_all add: same_shape_def)
  have "agrees (fold (mips_step t) instrs a) (fold (mips_step t) instrs a')" if "agrees a a'" for a a'
    using that by (induction instrs arbitrary: a a') (simp_all add: mips_step_agrees)
  from this [OF c(3)] Cons.IH [OF c(1) n ft(2), of "pc' + 4"] i(1) show ?case by (auto intro: agrees_trans)
qed

section \<open>Properties\<close>

text \<open>C32: compiled straight-line code is equivalent to executing its instructions. For every list of instructions that neither branch nor
  leave (scalar arithmetic, loads and stores at any alignment, vector instructions, vector loads and stores, moves of coprocessor 2, and
  opcodes that do nothing), \<open>jit_instruction\<close> never fails an assertion of the register cache; running the emitted code, whatever called
  functions leave in the caller-saved registers, changes the processor state exactly as the instructions do one after the other.\<close>

theorem straight_line_equivalent:
  assumes "list_all falls_through instrs" and "3 \<le> n" and "R \<le> n" and "sr (cpu h) 0 = 0"
  shows "\<exists>em' h'. compile_straight t rdp R pc' instrs
        \<lparr>entries = replicate n empty_entry, cache_timestamp = 0, code = [], nodes = 0, local_branches = []\<rparr> = Some em' \<and>
      exec cl (code em') h = Falls h' \<and> (\<forall>r\<le>32. sr (cpu h') r = sr (fold (mips_step t) instrs (cpu h)) r) \<and>
      (cpu h')\<lparr>sr := sr (cpu h)\<rparr> = (fold (mips_step t) instrs (cpu h))\<lparr>sr := sr (cpu h)\<rparr>"
proof -
  let ?em = "\<lparr>entries = replicate n empty_entry, cache_timestamp = 0, code = [], nodes = 0, local_branches = []\<rparr>"
  have t: "tracks R cl ([], h) ?em [] h (cpu h)" using empty_represents [of ?em h R] assms(4) by (simp add: tracks_def emitted_def)
  obtain em' h' s' where c: "compile_straight t rdp R pc' instrs ?em = Some em'" "tracks R cl ([], h) em' [] h' s'"
    "\<forall>r\<le>32. sr (cpu h') r = sr s' r" "agrees (fold (mips_step t) instrs (cpu h)) s'"
    using compile_straight_tracks [OF t _ _ assms(1), of t rdp pc'] assms(2,3) by auto
  have "exec cl (code em') h = Falls h'" using c(2) by (simp add: tracks_def emitted_def)
  moreover have "(cpu h')\<lparr>sr := sr s'\<rparr> = s'" using c(2) by (simp add: tracks_def represents_def)
  then have "(cpu h')\<lparr>sr := sr (cpu h)\<rparr> = (fold (mips_step t) instrs (cpu h))\<lparr>sr := sr (cpu h)\<rparr>"
    using c(4) unfolding agrees_def by (metis CPUState.surjective CPUState.update_convs(5))
  ultimately show ?thesis using c(1,3,4) by (auto simp: agrees_def)
qed

theorem straight_line_equivalent_witness:
  "\<exists>em' h'. compile_straight \<lparr>has_ssse3 = True, has_sse41 = True, undef_xmm = 0\<rparr> id 3 0 [0x24010005, 0x00211021, 0x2c430009]
      \<lparr>entries = replicate 4 empty_entry, cache_timestamp = 0, code = [], nodes = 0, local_branches = []\<rparr> = Some em' \<and>
    exec (\<lambda>_ _. 7) (code em') example_host = Falls h' \<and> map (sr (cpu h')) [0, 1, 2, 3] = [0, 5, 10, 0]"
proof -
  let ?t = "\<lparr>has_ssse3 = True, has_sse41 = True, undef_xmm = 0\<rparr>" and ?p = "[0x24010005, 0x00211021, 0x2c430009] :: u32 list"
  have "list_all falls_through ?p" by (simp add: falls_through_def)
  moreover have "map (sr (fold (mips_step ?t) ?p (cpu example_host))) [0, 1, 2, 3] = [0, 5, 10, 0]"
    by (simp add: mips_step_def is_vu_instruction_def mips_alu_def mips_special_def mips_immediate_def fld_def example_host_def reset_state_def)
  moreover have "sr (cpu example_host) 0 = 0" by (simp add: example_host_def reset_state_def)
  ultimately show ?thesis using straight_line_equivalent [of ?p 4 3 example_host ?t id 0 "\<lambda>_ _. 7"] by auto
qed

end
