(* ===== verification/Jit_Code.thy ===== *)
theory Jit_Code
  imports Jit_Region Jit_Straight
begin

text \<open>
  The shape of emitted code: an emitter only appends, every place it patches belongs to a branch it emitted itself, and it emits no label.
  A branch that leaves a piece of code therefore never stops inside the code of another instruction.
\<close>

section \<open>Growing code\<close>

definition grows :: "emitter \<Rightarrow> emitter \<Rightarrow> bool" where
  "grows em em' \<longleftrightarrow> (\<exists>new. code em' = code em @ new \<and> (\<forall>n. jit_patch n \<in> set new \<longrightarrow> nodes em \<le> n \<and> n < nodes em') \<and>
     (\<forall>k. jit_label k \<notin> set new)) \<and> nodes em \<le> nodes em' \<and> local_branches em' = local_branches em \<and> length (entries em') = length (entries em)"

definition unmarked :: "jit_op \<Rightarrow> bool" where
  "unmarked oper \<longleftrightarrow> (\<forall>n. oper \<noteq> jit_patch n \<and> oper \<noteq> jit_label n)"

lemma unmarked_simps [simp]: "unmarked (jit_r f d a b)" "unmarked (jit_i f d a i)" "unmarked (jit_movr d a)" "unmarked (jit_movi d i)"
  "unmarked (jit_extr_i d a)" "unmarked (jit_extr_ui d a)" "unmarked (jit_ldxi_i d fl)" "unmarked (jit_ldxi_ui d fl)" "unmarked (jit_stxi_i fl a)"
  "unmarked (jit_ldxi_frame d n)" "unmarked (jit_stxi_frame n a)" "unmarked (jit_ldxr w d a)" "unmarked (jit_stxr w d a)" "unmarked (jit_finishi c as)"
  "unmarked (jit_retval d)" "unmarked (jit_beqi r i n)" "unmarked (jit_bnei r i n)" "unmarked (jit_bmsi r i n)" "unmarked (jit_jmpi n)"
  "unmarked (jit_patch_abs th)" "\<not> unmarked (jit_patch n)"
  by (simp_all add: unmarked_def)

lemma grows_refl [simp, intro]: "grows em em"
  by (simp add: grows_def)

lemma grows_trans: "grows a b \<Longrightarrow> grows b c \<Longrightarrow> grows a c"
  unfolding grows_def by (elim conjE exE) (force intro: order.strict_trans2 order.trans)

lemma grows_nodes: "grows a b \<Longrightarrow> nodes a \<le> nodes b"
  by (simp add: grows_def)

lemma grows_length: "grows a b \<Longrightarrow> length (entries b) = length (entries a)"
  by (simp add: grows_def)

lemma grows_same:
  assumes "grows a b" "code c = code b" "nodes c = nodes b" "local_branches c = local_branches b" "length (entries c) = length (entries b)"
  shows "grows a c"
  using assms by (simp add: grows_def)

lemma grows_emit: "grows a b \<Longrightarrow> unmarked oper \<or> (\<exists>n. oper = jit_patch n \<and> nodes a \<le> n \<and> n < nodes b) \<Longrightarrow> grows a (emit oper b)"
  by (auto simp: grows_def unmarked_def)

lemma grows_set_entry: "grows a b \<Longrightarrow> grows a (set_entry i f b)"
  by (erule grows_same) simp_all

lemma grows_touch: "grows a b \<Longrightarrow> grows a (touch_and_lock i b)"
  by (erule grows_same) (simp_all add: touch_and_lock_def Let_def)

lemma grows_timestamp: "grows a b \<Longrightarrow> grows a (b\<lparr>cache_timestamp := ts\<rparr>)"
  by (erule grows_same) simp_all

lemma grows_node: "grows a b \<Longrightarrow> nodes b \<le> k \<Longrightarrow> grows a (b\<lparr>nodes := k\<rparr>)"
  unfolding grows_def by (auto simp: emit_def intro: order.strict_trans2)

lemmas grows_rules = grows_emit grows_set_entry grows_touch grows_timestamp grows_node

section \<open>Cache operations\<close>

lemma grows_writeback: "writeback_if_modified R i em = Some em' \<Longrightarrow> grows a em \<Longrightarrow> grows a em'"
  by (auto simp: writeback_if_modified_def writeback_register_def Let_def split: if_splits intro!: grows_rules)

lemma grows_load: "load_mips_register ldxi ext extr R r em = Some (x, em') \<Longrightarrow> (\<And>d f. unmarked (ldxi d f)) \<Longrightarrow>
    (\<And>w d a. extr = Some w \<Longrightarrow> unmarked (w d a)) \<Longrightarrow> grows a em \<Longrightarrow> grows a em'"
  by (auto simp: load_mips_register_def assert_that_def Let_def split: bind_splits if_splits option.splits
      intro!: grows_rules elim: grows_writeback)

lemma grows_loads:
  "load_mips_register_noext R r em = Some (x, em') \<Longrightarrow> grows a em \<Longrightarrow> grows a em'"
  "load_mips_register_sext R r em = Some (x, em') \<Longrightarrow> grows a em \<Longrightarrow> grows a em'"
  "load_mips_register_zext R r em = Some (x, em') \<Longrightarrow> grows a em \<Longrightarrow> grows a em'"
  unfolding load_mips_register_noext_def load_mips_register_sext_def load_mips_register_zext_def
  by (erule grows_load; auto)+

lemma grows_modify: "modify_mips_register R r em = Some (x, em') \<Longrightarrow> grows a em \<Longrightarrow> grows a em'"
  by (auto simp: modify_mips_register_def split: bind_splits if_splits intro!: grows_rules elim: grows_writeback)

lemma grows_immediate: "immediate_mips_register R r v em = Some (x, em') \<Longrightarrow> grows a em \<Longrightarrow> grows a em'"
  by (auto simp: immediate_mips_register_def split: bind_splits intro!: grows_rules elim: grows_modify)

lemma grows_unlock: "unlock_mips_register r em = Some em' \<Longrightarrow> grows a em \<Longrightarrow> grows a em'"
  by (auto simp: unlock_mips_register_def assert_that_def split: bind_splits if_splits intro!: grows_rules)

lemma grows_unlock_all: "unlock_all rs em = Some em' \<Longrightarrow> grows a em \<Longrightarrow> grows a em'"
  by (induction rs arbitrary: em) (auto split: bind_splits intro: grows_unlock)

lemma grows_flush_entry: "flush_entry R i em = Some em' \<Longrightarrow> grows a em \<Longrightarrow> grows a em'"
  by (auto simp: flush_entry_def assert_that_def split: bind_splits if_splits intro!: grows_rules elim: grows_writeback)

lemma grows_flush_entries: "flush_entries R is em = Some em' \<Longrightarrow> grows a em \<Longrightarrow> grows a em'"
  by (induction "is" arbitrary: em) (auto split: bind_splits intro: grows_flush_entry)

lemma grows_flush:
  "flush_register_window R em = Some em' \<Longrightarrow> grows a em \<Longrightarrow> grows a em'"
  "flush_caller_save_registers R em = Some em' \<Longrightarrow> grows a em \<Longrightarrow> grows a em'"
  "flush_mips_register R r em = Some em' \<Longrightarrow> grows a em \<Longrightarrow> grows a em'"
  by (auto simp: flush_register_window_def flush_caller_save_registers_def flush_mips_register_def split: bind_splits option.splits
      intro!: grows_rules elim: grows_flush_entries grows_flush_entry)

lemmas grows_cache = grows_loads grows_modify grows_immediate grows_unlock grows_unlock_all grows_flush

section \<open>Instructions\<close>

locale growing_load =
  fixes load :: load_op
  assumes load: "load R r em = Some (x, em') \<Longrightarrow> grows a em \<Longrightarrow> grows a em'"
begin

lemma alu: "shift_imm load f R instr em = Some em' \<Longrightarrow> grows a em \<Longrightarrow> grows a em'"
  "shift_var load f R instr em = Some em' \<Longrightarrow> grows a em \<Longrightarrow> grows a em'"
  "three_reg_op load f R instr em = Some em' \<Longrightarrow> grows a em \<Longrightarrow> grows a em'"
  "two_reg_imm_op load f imm R instr em = Some em' \<Longrightarrow> grows a em \<Longrightarrow> grows a em'"
  by (auto simp: shift_imm_def shift_var_def three_reg_op_def two_reg_imm_op_def Let_def split: bind_splits if_splits
      simp del: unlock_all.simps intro!: grows_rules elim!: grows_cache load)

end

interpretation gr: growing_load load_mips_register_noext
  by unfold_locales (rule grows_loads)

interpretation gr_sext: growing_load load_mips_register_sext
  by unfold_locales (rule grows_loads)

interpretation gr_zext: growing_load load_mips_register_zext
  by unfold_locales (rule grows_loads)

lemmas grows_alu = gr.alu gr_sext.alu gr_zext.alu

lemma grows_nor: "nor_op R instr em = Some em' \<Longrightarrow> grows a em \<Longrightarrow> grows a em'"
  by (auto simp: nor_op_def Let_def split: bind_splits if_splits simp del: unlock_all.simps intro!: grows_rules elim!: grows_cache)

lemma grows_immediate_op: "immediate_op v R instr em = Some em' \<Longrightarrow> grows a em \<Longrightarrow> grows a em'"
  by (auto simp: immediate_op_def Let_def split: bind_splits if_splits intro!: grows_rules elim!: grows_cache)

lemma grows_special: "special_alu k = Some f \<Longrightarrow> f R instr em = Some em' \<Longrightarrow> grows a em \<Longrightarrow> grows a em'"
  by (auto simp: special_alu_def split: if_splits elim!: grows_alu grows_nor)

lemma grows_immediate_alu: "immediate_alu k instr = Some f \<Longrightarrow> f R instr em = Some em' \<Longrightarrow> grows a em \<Longrightarrow> grows a em'"
  by (auto simp: immediate_alu_def split: if_splits elim!: grows_alu grows_immediate_op)

text \<open>A slow path: code, a branch over it, and the two patches.\<close>

lemma grows_store: "jit_emit_store_operation w f flip R instr em = Some em' \<Longrightarrow> grows a em \<Longrightarrow> grows a em'"
proof -
  assume "jit_emit_store_operation w f flip R instr em = Some em'" and a: "grows a em"
  then obtain rt_reg e1 rs_reg e2 tmp e3 where l: "load_mips_register_noext R (rt_of instr) em = Some (rt_reg, e1)"
    "load_mips_register_noext R (rs_of instr) e1 = Some (rs_reg, e2)" "modify_mips_register R SCRATCH_REGISTER0 e2 = Some (tmp, e3)"
    and rest: "(let em = emit (jit_i Add tmp rs_reg (simm instr)) e3; em = emit (jit_i And tmp tmp 0xfff) em;
        fl = (\<lambda>em. if flip \<noteq> 0 then emit (jit_i Xor tmp tmp (ucast flip)) em else em)
      in if 3 - flip \<noteq> 0 then do {
          em \<leftarrow> unlock_all [rt_of instr, rs_of instr, SCRATCH_REGISTER0] em;
          em \<leftarrow> flush_caller_save_registers R em;
          let (unaligned, em) = emit_node (jit_bmsi tmp (ucast (3 - flip))) em;
          let em = emit (jit_stxr w tmp rt_reg) (fl em);
          let (aligned, em) = emit_node jit_jmpi em;
          let em = emit (jit_patch unaligned) em;
          let em = emit (jit_finishi (the f) [tmp, rt_reg]) em;
          Some (emit (jit_patch aligned) em)
        }
        else unlock_all [rt_of instr, rs_of instr, SCRATCH_REGISTER0] (emit (jit_stxr w tmp rt_reg) (fl em))) = Some em'"
    unfolding jit_emit_store_operation_def Let_def by (auto split: bind_splits)
  let ?e = "emit (jit_i And tmp tmp 0xfff) (emit (jit_i Add tmp rs_reg (simm instr)) e3)"
  have e: "grows a ?e" using l a by (auto intro!: grows_rules elim!: grows_cache)
  show "grows a em'"
  proof (cases "3 - flip = 0")
    case True
    then show ?thesis using rest e by (auto simp: Let_def simp del: unlock_all.simps intro!: grows_rules elim!: grows_cache split: if_splits)
  next
    case False
    obtain e4 e5 where u: "unlock_all [rt_of instr, rs_of instr, SCRATCH_REGISTER0] ?e = Some e4" "flush_caller_save_registers R e4 = Some e5"
      using rest False by (auto simp: Let_def simp del: unlock_all.simps split: bind_splits)
    have g: "grows a e5" using u e by (auto simp del: unlock_all.simps elim!: grows_cache)
    show ?thesis
      using rest False u g grows_nodes [OF g]
      by (auto simp: Let_def emit_node_def simp del: unlock_all.simps intro!: grows_rules split: if_splits)
  qed
qed

lemma grows_load_op: "jit_emit_load_operation w f flip R instr em = Some em' \<Longrightarrow> grows a em \<Longrightarrow> grows a em'"
proof (cases "rt_of instr = 0")
  case False
  assume j: "jit_emit_load_operation w f flip R instr em = Some em'" and a: "grows a em"
  then obtain rs_reg e1 tmp e2 ret e3 where l: "load_mips_register_noext R (rs_of instr) em = Some (rs_reg, e1)"
    "modify_mips_register R SCRATCH_REGISTER0 e1 = Some (tmp, e2)"
    "modify_mips_register R SCRATCH_REGISTER1 (emit (jit_i And tmp tmp 0xfff) (emit (jit_i Add tmp rs_reg (simm instr)) e2)) = Some (ret, e3)"
    using False unfolding jit_emit_load_operation_def Let_def by (auto split: bind_splits)
  have e3: "grows a e3" using l a by (auto intro!: grows_rules elim!: grows_cache)
  define fl where "fl = (\<lambda>em. if flip \<noteq> 0 then emit (jit_i Xor tmp tmp (ucast flip)) em else em)"
  define access where "access = (if flip XOR 3 \<noteq> 0 then do {
             em \<leftarrow> unlock_all [rs_of instr, SCRATCH_REGISTER0, SCRATCH_REGISTER1] e3;
             em \<leftarrow> flush_caller_save_registers R em;
             let (unaligned, em) = emit_node (jit_bmsi tmp (ucast (flip XOR 3))) em;
             let em = emit (jit_ldxr w ret tmp) (fl em);
             let (aligned, em) = emit_node jit_jmpi em;
             let em = emit (jit_patch unaligned) em;
             let em = emit (jit_finishi (the f) [tmp]) em;
             let em = emit (jit_retval ret) em;
             Some (emit (jit_patch aligned) em)
           }
           else unlock_all [rs_of instr, SCRATCH_REGISTER0, SCRATCH_REGISTER1] (emit (jit_ldxr w ret tmp) (fl e3)))"
  have "access \<bind> (\<lambda>em. modify_mips_register R (rt_of instr) em \<bind>
      (\<lambda>(rt_reg, em). unlock_mips_register (rt_of instr) (emit (jit_movr rt_reg ret) em))) = Some em'"
    using j False l unfolding jit_emit_load_operation_def Let_def access_def fl_def by (simp del: unlock_all.simps)
  moreover have "grows a e" if e: "access = Some e" for e
  proof (cases "flip XOR 3 = 0")
    case True
    then show ?thesis using e e3
      by (auto simp: access_def fl_def simp del: unlock_all.simps intro!: grows_rules elim!: grows_cache split: if_splits)
  next
    case False
    obtain e4 e5 where u: "unlock_all [rs_of instr, SCRATCH_REGISTER0, SCRATCH_REGISTER1] e3 = Some e4" "flush_caller_save_registers R e4 = Some e5"
      using e False by (auto simp: access_def Let_def simp del: unlock_all.simps split: bind_splits)
    have g: "grows a e5" using u e3 by (auto simp del: unlock_all.simps elim!: grows_cache)
    show ?thesis
      using e False u g grows_nodes [OF g]
      by (auto simp: access_def fl_def Let_def emit_node_def simp del: unlock_all.simps intro!: grows_rules split: if_splits)
  qed
  ultimately show ?thesis by (auto split: bind_splits intro!: grows_rules elim!: grows_cache)
qed (simp add: jit_emit_load_operation_def Let_def)

lemma grows_memory: "memory_op k = Some f \<Longrightarrow> f R instr em = Some em' \<Longrightarrow> grows a em \<Longrightarrow> grows a em'"
  by (auto simp: memory_op_def split: if_splits elim!: grows_load_op grows_store)

lemma grows_handlers:
  "jit_vector_op t R instr em = Some em' \<Longrightarrow> grows a em \<Longrightarrow> grows a em'"
  "jit_vector_memory ops t R instr em = Some em' \<Longrightarrow> grows a em \<Longrightarrow> grows a em'"
  "jit_cop2 R instr em = Some em' \<Longrightarrow> grows a em \<Longrightarrow> grows a em'"
  by (auto simp: jit_vector_op_def jit_vector_memory_def jit_cop2_def Let_def split: bind_splits if_splits option.splits
      intro!: grows_rules elim!: grows_cache)

lemma grows_exit_dynamic: "grows a em \<Longrightarrow> grows a (jit_exit_dynamic pc' info first em)"
  using grows_nodes [of a em]
  by (auto simp: jit_exit_dynamic_def emit_node_def Let_def intro!: grows_rules)

lemma grows_exit: "jit_exit R pc' info mode first em = Some em' \<Longrightarrow> grows a em \<Longrightarrow> grows a em'"
  by (auto simp: jit_exit_def Let_def split: bind_splits intro!: grows_rules grows_exit_dynamic elim!: grows_cache)

lemma jit_exit_dynamic_nodes: "nodes em \<le> nodes (jit_exit_dynamic pc' info first em)"
  using grows_nodes [OF grows_exit_dynamic [OF grows_refl]] .

lemma grows_cop0:
  assumes j: "jit_cop0 rdp R pc' instr info first em = Some em'" and a: "grows a em"
  shows "grows a em'"
proof -
  have exit: "grows a (emit (jit_patch (nodes e)) (jit_exit_dynamic pc' info first ((emit oper e)\<lparr>nodes := nodes e + 1\<rparr>)))"
    if "grows a e" "unmarked oper" for e oper
    using grows_nodes [OF that(1)] that jit_exit_dynamic_nodes [of "(emit oper e)\<lparr>nodes := nodes e + 1\<rparr>" pc' info first]
    by (auto intro!: grows_exit_dynamic grows_rules)
  have called: "grows a (emit (jit_retval JIT_REGISTER_MODE) (emit (jit_finishi c []) e))" if "grows a e" for e c
    using that by (auto intro!: grows_rules)
  consider e c where "flush_register_window R em = Some e" "em' = (case emit_node (jit_beqi JIT_REGISTER_MODE (mode_word MODE_CONTINUE))
        (emit (jit_retval JIT_REGISTER_MODE) (emit (jit_finishi c []) e)) of
      (noexit, e) \<Rightarrow> emit (jit_patch noexit) (jit_exit_dynamic pc' info first e))" | "em' = em"
    using j unfolding jit_cop0_def Let_def by (cases "rs_of instr = 0"; cases "rs_of instr = 4") (auto simp: emit_node_def split: bind_splits)
  then show ?thesis
  proof cases
    case 1
    then show ?thesis using exit [OF called [OF grows_flush(1) [OF 1(1) a]]] by (simp add: emit_node_def)
  qed (use a in simp)
qed

lemma grows_branches:
  "jit_save_indirect_register R r em = Some em' \<Longrightarrow> grows a em \<Longrightarrow> grows a em'"
  "flush_impossible_delay_slot R info em = Some em' \<Longrightarrow> grows a em \<Longrightarrow> grows a em'"
  "static_branch R next_target info em = Some (i, em') \<Longrightarrow> grows a em \<Longrightarrow> grows a em'"
  "link_register R pc' r em = Some em' \<Longrightarrow> grows a em \<Longrightarrow> grows a em'"
  "branch_zero f R instr em = Some em' \<Longrightarrow> grows a em \<Longrightarrow> grows a em'"
  "branch_compare f R instr em = Some em' \<Longrightarrow> grows a em \<Longrightarrow> grows a em'"
  by (auto simp: jit_save_indirect_register_def flush_impossible_delay_slot_def jit_save_illegal_cond_branch_taken_def
      jit_save_illegal_indirect_register_def static_branch_def link_register_def branch_zero_def branch_compare_def Let_def
      simp del: unlock_all.simps split: bind_splits if_splits intro!: grows_rules elim!: grows_cache)

lemma grows_branch: "jit_branch R pc' instr info next_target em = Some (i, em') \<Longrightarrow> grows a em \<Longrightarrow> grows a em'"
proof -
  define P where "P x \<longleftrightarrow> (\<forall>i em'. x = Some (i, em') \<longrightarrow> grows a em')" for x :: "(InstructionInfo \<times> emitter) option"
  assume a: "grows a em"
  have if': "P x \<Longrightarrow> P y \<Longrightarrow> P (if c then x else y)" for x y c by simp
  have "P (jit_branch R pc' instr info next_target em)"
    unfolding jit_branch_def Let_def
    using a by (intro if') (auto simp: P_def simp del: unlock_all.simps split: bind_splits if_splits intro!: grows_rules elim!: grows_cache grows_branches)
  then show "jit_branch R pc' instr info next_target em = Some (i, em') \<Longrightarrow> grows a em'" unfolding P_def by blast
qed

lemma grows_instruction:
  "jit_instruction t rdp R pc' instr info first next_target em = Some (i, em') \<Longrightarrow> grows a em \<Longrightarrow> grows a em'"
  unfolding jit_instruction_def Let_def
  by (auto split: if_splits elim!: grows_handlers grows_exit grows_special grows_immediate_alu grows_cop0 grows_memory grows_branch)

end
