(* ===== verification/Mips_Machine.thy ===== *)
theory Mips_Machine
  imports Jit_Straight
begin

unbundle bit_operations_syntax

text \<open>
  The processor as its manual describes it, to compare compiled code with: one instruction after the other, with a delay slot after
  every branch, and instructions that leave to the host. A branch in a delay slot takes effect after the instruction that the first branch
  leads to, as on the real processor. The recompiler's representation of a pending branch in \<open>CPUState\<close> and its extra register for branch
  conditions are not part of this machine: \<open>follows\<close> relates its states to those of compiled code.
\<close>

section \<open>Branches\<close>

definition is_branch :: "u32 \<Rightarrow> bool" where
  "is_branch instr \<longleftrightarrow>
     (let type = unat (drop_bit 26 instr); funct = unat (instr AND 63); rt = rt_of instr
      in type = 0 \<and> (funct = 8 \<or> funct = 9) \<or> type = 1 \<and> (rt = 0 \<or> rt = 1 \<or> rt = 16 \<or> rt = 17) \<or> type \<in> {2, 3, 4, 5, 6, 7})"

definition link_to :: "nat \<Rightarrow> u32 \<Rightarrow> CPUState \<Rightarrow> CPUState" where
  "link_to r pc' s = (if r = 0 then s else s\<lparr>sr := (sr s)(r := (pc' + 8) AND 0xffc)\<rparr>)"

text \<open>Where a branch goes, if it is taken, and the state with the link register written.\<close>

definition mips_branch :: "u32 \<Rightarrow> u32 \<Rightarrow> CPUState \<Rightarrow> u32 option \<times> CPUState" where
  "mips_branch pc' instr s =
     (let type = unat (drop_bit 26 instr); rt = rt_of instr; a = sr s (rs_of instr); b = sr s rt;
          relative = (\<lambda>taken. if taken then Some ((pc' + 4 + push_bit 2 instr) AND 0xffc) else None);
          absolute = Some (push_bit 2 (instr AND 0x3ff))
      in if type = 0 then (Some a, if instr AND 63 = 9 then link_to (rd_of instr) pc' s else s)
         else if type = 1 then (relative (if even rt then sint a < 0 else sint a \<ge> 0), if rt \<ge> 16 then link_to 31 pc' s else s)
         else if type = 2 then (absolute, s)
         else if type = 3 then (absolute, link_to 31 pc' s)
         else if type = 4 then (relative (a = b), s)
         else if type = 5 then (relative (a \<noteq> b), s)
         else if type = 6 then (relative (sint a \<le> 0), s)
         else (relative (sint a > 0), s))"

section \<open>The machine\<close>

datatype machine = Running u32 "u32 option" cp0_host CPUState | Stopped ReturnMode u32 cp0_host CPUState

definition mips_cop0 :: "(CPUState \<Rightarrow> CPUState) \<Rightarrow> u32 \<Rightarrow> cp0_host \<Rightarrow> CPUState \<Rightarrow> cp0_host \<times> CPUState \<times> ReturnMode" where
  "mips_cop0 rdp instr gl s =
     (if rs_of instr = 0 then RSP_MFC0 gl s (rt_of instr) (rd_of instr)
      else if rs_of instr = 4 then (gl, RSP_MTC0 rdp gl s (rd_of instr) (rt_of instr))
      else (gl, s, MODE_CONTINUE))"

definition is_break :: "u32 \<Rightarrow> bool" where
  "is_break instr \<longleftrightarrow> drop_bit 26 instr = 0 \<and> instr AND 63 = 13"

definition next_pc :: "u32 \<Rightarrow> u32 option \<Rightarrow> u32" where
  "next_pc pc' slot = (case slot of None \<Rightarrow> (pc' + 4) AND 0xffc | Some a \<Rightarrow> a AND 0xffc)"

fun machine_step :: "target \<Rightarrow> (CPUState \<Rightarrow> CPUState) \<Rightarrow> (nat \<Rightarrow> u32) \<Rightarrow> machine \<Rightarrow> machine" where
  "machine_step t rdp mem (Running pc' slot gl s) =
     (let instr = mem (unat pc' div 4); continue = next_pc pc' slot
      in if is_break instr then Stopped MODE_BREAK continue gl s
         else if unat (drop_bit 26 instr) = 16 then
           (case mips_cop0 rdp instr gl s of (gl', s', mode) \<Rightarrow>
              if mode = MODE_CONTINUE then Running continue None gl' s' else Stopped mode continue gl' s')
         else if is_branch instr then
           (case mips_branch pc' instr s of (taken, s') \<Rightarrow> Running continue taken gl s')
         else Running continue None gl (mips_step t instr s))"
| "machine_step t rdp mem (Stopped mode pc' gl s) = Stopped mode pc' gl s"

definition machine_steps :: "target \<Rightarrow> (CPUState \<Rightarrow> CPUState) \<Rightarrow> (nat \<Rightarrow> u32) \<Rightarrow> nat \<Rightarrow> machine \<Rightarrow> machine" where
  "machine_steps t rdp mem k = (machine_step t rdp mem ^^ k)"

lemma machine_steps_simps [simp]: "machine_steps t rdp mem 0 c = c"
  "machine_steps t rdp mem (Suc k) c = machine_steps t rdp mem k (machine_step t rdp mem c)"
  by (simp_all add: machine_steps_def funpow_Suc_right del: funpow.simps(2))

lemma machine_steps_add: "machine_steps t rdp mem (j + k) c = machine_steps t rdp mem k (machine_steps t rdp mem j c)"
  by (simp add: machine_steps_def funpow_add add.commute [of j])

section \<open>States of compiled code\<close>

text \<open>Equal but for the pending branch in memory and the registers that only the recompiler has.\<close>

definition follows :: "CPUState \<Rightarrow> CPUState \<Rightarrow> bool" where
  "follows s s' \<longleftrightarrow> (\<exists>x. s' = with_sr x s \<and> (\<forall>r<32. reg_file x r = sr s r))"

definition same_slot :: "CPUState \<Rightarrow> CPUState \<Rightarrow> bool" where
  "same_slot s s' \<longleftrightarrow> has_delay_slot s' = has_delay_slot s \<and> branch_target s' = branch_target s \<and> sr s' COND_BRANCH_TAKEN = sr s COND_BRANCH_TAKEN"

definition transparent :: "(CPUState \<Rightarrow> CPUState) \<Rightarrow> bool" where
  "transparent g \<longleftrightarrow> (\<forall>s s'. follows s s' \<longrightarrow> follows (g s) (g s') \<and> same_slot s' (g s'))"

lemma follows_refl [simp]: "follows s s"
  unfolding follows_def by (intro exI [of _ "Scalars (sr s) (has_delay_slot s) (branch_target s)"]) (simp add: with_sr_self)

lemma same_slot_refl [simp]: "same_slot s s" and same_slot_trans: "same_slot a b \<Longrightarrow> same_slot b c \<Longrightarrow> same_slot a c"
  by (simp_all add: same_slot_def)

lemma follows_sr: "follows s s' \<Longrightarrow> r < 32 \<Longrightarrow> sr s' r = sr s r" "follows s s' \<Longrightarrow> sr s' (fld instr k) = sr s (fld instr k)"
  by (auto simp: follows_def)

lemma follows_fields: "follows s s' \<Longrightarrow> dmem s' = dmem s" "follows s s' \<Longrightarrow> cp0 s' = cp0 s" "follows s s' \<Longrightarrow> imem s' = imem s"
  by (auto simp: follows_def with_sr_def)

lemma follows_put: "follows s s' \<Longrightarrow> follows (s\<lparr>sr := (sr s)(r := v)\<rparr>) (s'\<lparr>sr := (sr s')(r := v)\<rparr>)"
proof -
  assume "follows s s'"
  then obtain x where x: "s' = with_sr x s" "\<forall>r<32. reg_file x r = sr s r" by (auto simp: follows_def)
  then have "s'\<lparr>sr := (sr s')(r := v)\<rparr> = with_sr (Scalars ((reg_file x)(r := v)) (pending x) (pending_target x)) (s\<lparr>sr := (sr s)(r := v)\<rparr>)"
    by (simp add: with_sr_def)
  then show ?thesis using x(2) unfolding follows_def by force
qed

lemma follows_scratch: "follows s s' \<Longrightarrow> r \<ge> 32 \<Longrightarrow> follows s (s'\<lparr>sr := (sr s')(r := v)\<rparr>)"
proof -
  assume "follows s s'" and r: "r \<ge> 32"
  then obtain x where x: "s' = with_sr x s" "\<forall>r<32. reg_file x r = sr s r" by (auto simp: follows_def)
  then have "s'\<lparr>sr := (sr s')(r := v)\<rparr> = with_sr (Scalars ((reg_file x)(r := v)) (pending x) (pending_target x)) s"
    by (simp add: with_sr_def)
  then show ?thesis using x(2) r unfolding follows_def by force
qed

lemma follows_slot [simp]: "follows s s' \<Longrightarrow> follows s (s'\<lparr>has_delay_slot := d\<rparr>)" "follows s s' \<Longrightarrow> follows s (s'\<lparr>branch_target := b\<rparr>)"
proof -
  assume "follows s s'"
  then obtain x where x: "s' = with_sr x s" "\<forall>r<32. reg_file x r = sr s r" by (auto simp: follows_def)
  have "s'\<lparr>has_delay_slot := d\<rparr> = with_sr (Scalars (reg_file x) d (pending_target x)) s"
    "s'\<lparr>branch_target := b\<rparr> = with_sr (Scalars (reg_file x) (pending x) b) s" by (simp_all add: x(1) with_sr_def)
  then show "follows s (s'\<lparr>has_delay_slot := d\<rparr>)" "follows s (s'\<lparr>branch_target := b\<rparr>)" using x(2) unfolding follows_def by force+
qed

lemma follows_agrees: "follows s s' \<Longrightarrow> agrees s' s'' \<Longrightarrow> follows s s''" and agrees_same_slot: "agrees s' s'' \<Longrightarrow> same_slot s' s''"
proof -
  assume a: "agrees s' s''"
  then have s'': "s'' = s'\<lparr>sr := sr s''\<rparr>" "\<forall>r\<le>32. sr s'' r = sr s' r" by (simp_all add: agrees_def)
  then show "same_slot s' s''" unfolding same_slot_def by (metis CPUState.select_convs(3,4) CPUState.surjective CPUState.update_convs(5) order_refl)
  assume "follows s s'"
  then obtain x where x: "s' = with_sr x s" "\<forall>r<32. reg_file x r = sr s r" by (auto simp: follows_def)
  have "s'' = with_sr (Scalars (sr s'') (pending x) (pending_target x)) s" using s''(1) by (cases s; cases s'') (simp add: x(1) with_sr_def)
  then show "follows s s''" using x s''(2) unfolding follows_def by force
qed

subsection \<open>Instructions respect the relation\<close>

lemma transparent_id: "transparent (\<lambda>s. s)"
  by (simp add: transparent_def)

lemma transparent_reads_only: "reads_only r g \<Longrightarrow> r < 32 \<Longrightarrow> transparent g"
  unfolding transparent_def
proof (intro allI impI conjI)
  fix s s' assume g: "reads_only r g" and r: "r < 32" and "follows s s'"
  then obtain x where x: "s' = with_sr x s" "\<forall>r<32. reg_file x r = sr s r" by (auto simp: follows_def)
  then have "g s' = with_sr x (g s)" using g r by (simp add: reads_only_def)
  then show "follows (g s) (g s')" using x reads_only_keeps(1) [OF g] unfolding follows_def by auto
  show "same_slot s' (g s')" using reads_only_keeps [OF g] by (simp add: same_slot_def)
qed

lemma transparent_scalar_free: "scalar_free g \<Longrightarrow> transparent g"
  by (rule transparent_reads_only [OF scalar_free_reads_only, of _ 0]) simp_all

lemma transparent_put:
  assumes "r \<noteq> 32" "\<And>s s'. follows s s' \<Longrightarrow> f s' = f s"
  shows "transparent (\<lambda>s. s\<lparr>sr := (sr s)(r := f s)\<rparr>)"
  using assms follows_put by (auto simp: transparent_def same_slot_def)

lemma transparent_writes_only: "writes_only r g \<Longrightarrow> r < 32 \<Longrightarrow> transparent g"
  unfolding writes_only_def
proof (elim disjE exE)
  fix f assume r: "r < 32" and f: "\<forall>s. g s = s\<lparr>sr := (sr s)(r := f s)\<rparr> \<and> (\<forall>x. f (with_sr x s) = f s)"
  then have "f s' = f s" if "follows s s'" for s s' using that by (auto simp: follows_def)
  then have "transparent (\<lambda>s. s\<lparr>sr := (sr s)(r := f s)\<rparr>)" using r by (intro transparent_put) simp_all
  moreover have "g = (\<lambda>s. s\<lparr>sr := (sr s)(r := f s)\<rparr>)" using f by blast
  ultimately show "transparent g" by simp
next
  assume "g = id" then show "transparent g" using transparent_id by (simp add: id_def)
qed

lemma transparent_dmem: "(\<And>s s'. follows s s' \<Longrightarrow> f s' = f s) \<Longrightarrow> transparent (\<lambda>s. s\<lparr>dmem := f s\<rparr>)"
  unfolding transparent_def
proof (intro allI impI conjI)
  fix s s' assume f: "\<And>s s'. follows s s' \<Longrightarrow> f s' = f s" and a: "follows s s'"
  then obtain x where "s' = with_sr x s" "\<forall>r<32. reg_file x r = sr s r" by (auto simp: follows_def)
  then show "follows (s\<lparr>dmem := f s\<rparr>) (s'\<lparr>dmem := f s'\<rparr>)"
    using f [OF a] unfolding follows_def by (intro exI [of _ x]) (simp add: with_sr_def)
qed (simp add: same_slot_def)

lemma transparent_step: "transparent (mips_step t instr)"
proof -
  have alu: "transparent (mips_alu instr)"
  proof -
    let ?dest = "if unat (drop_bit 26 instr) = 0 then rd_of instr else rt_of instr"
    have "transparent (\<lambda>s. s\<lparr>sr := (sr s)(?dest := f s)\<rparr>)" if "\<And>s s'. follows s s' \<Longrightarrow> f s' = f s" for f
      using that by (intro transparent_put) simp_all
    from this [of "\<lambda>s. if unat (drop_bit 26 instr) = 0 then mips_special (unat (instr AND 63)) (shift_of instr) (sr s (rs_of instr)) (sr s (rt_of instr))
        else mips_immediate (unat (drop_bit 26 instr)) (ucast instr) (sr s (rs_of instr))"]
    show ?thesis unfolding mips_alu_def Let_def using transparent_id by (cases "?dest = 0") (simp_all add: follows_sr)
  qed
  have mem: "transparent (mips_memory instr)"
    unfolding mips_memory_def Let_def
    using transparent_id transparent_put [of "rt_of instr" "\<lambda>s. mips_load (unat (drop_bit 26 instr)) (dmem s) (sr s (rs_of instr) + word_of_int (sint (ucast instr :: u16)))"]
      transparent_dmem [of "\<lambda>s. mips_store (unat (drop_bit 26 instr)) (sr s (rs_of instr) + word_of_int (sint (ucast instr :: u16))) (sr s (rt_of instr)) (dmem s)"]
    by (cases "rt_of instr = 0"; cases "unat (drop_bit 26 instr) < 40") (simp_all add: follows_sr follows_fields)
  have vec: "transparent (mips_vector_memory ops t instr)" if "ops = lwc2_ops \<or> ops = swc2_ops" for ops
  proof (cases "ops ! rd_of instr")
    case (Some f)
    have "transparent (\<lambda>s. f t (unat (drop_bit 7 instr AND 15)) s (rt_of instr) (sint (ucast instr :: 7 word)) (rs_of instr))"
      by (rule transparent_reads_only [OF ls_ops_read_only [OF that _ Some]]) simp_all
    moreover have "mips_vector_memory ops t instr = (\<lambda>s. f t (unat (drop_bit 7 instr AND 15)) s (rt_of instr) (sint (ucast instr :: 7 word)) (rs_of instr))"
      by (simp add: mips_vector_memory_def Some fun_eq_iff)
    ultimately show ?thesis by simp
  next
    case None
    then have "mips_vector_memory ops t instr = (\<lambda>s. s)" by (simp add: mips_vector_memory_def fun_eq_iff)
    then show ?thesis by (simp add: transparent_id)
  qed
  have move: "transparent (mips_move instr)"
    unfolding mips_move_def Let_def
    using transparent_id transparent_writes_only [OF writes_only_moves(1)] transparent_writes_only [OF writes_only_moves(2)]
      transparent_reads_only [OF reads_only_moves(1)] transparent_reads_only [OF reads_only_moves(2)]
    by (cases "rs_of instr = 0"; cases "rs_of instr = 2"; cases "rs_of instr = 4"; cases "rs_of instr = 6") simp_all
  have split: "transparent (\<lambda>s. if b then g s else g' s)" if "transparent g" "transparent g'" for b g g'
    using that by (cases b) simp_all
  show ?thesis
    unfolding mips_step_def Let_def
    by (intro split alu mem move vec transparent_id transparent_scalar_free scalar_free_vu_instruction) simp_all
qed

lemma transparent_link: "r < 32 \<Longrightarrow> transparent (link_to r pc')"
  unfolding link_to_def using transparent_id transparent_put [of r "\<lambda>_. (pc' + 8) AND 0xffc"] by (cases "r = 0") simp_all

subsection \<open>Coprocessor 0\<close>

lemma with_sr_system [simp]:
  "cp0 (with_sr x s) = cp0 s" "imem (with_sr x s) = imem s" "rdram (with_sr x s) = rdram s" "dirty_blocks (with_sr x s) = dirty_blocks s"
  "set_cr r v (with_sr x s) = with_sr x (set_cr r v s)" "(with_sr x s)\<lparr>cp0 := c\<rparr> = with_sr x (s\<lparr>cp0 := c\<rparr>)"
  "(with_sr x s)\<lparr>imem := m\<rparr> = with_sr x (s\<lparr>imem := m\<rparr>)" "(with_sr x s)\<lparr>rdram := d\<rparr> = with_sr x (s\<lparr>rdram := d\<rparr>)"
  "(with_sr x s)\<lparr>dirty_blocks := b\<rparr> = with_sr x (s\<lparr>dirty_blocks := b\<rparr>)"
  by (simp_all add: with_sr_def set_cr_def)

lemma dma_read_word_commute: "dma_read_word source dest j (with_sr x s) = with_sr x (dma_read_word source dest j s)"
  by (simp add: dma_read_word_def Let_def)

lemma dma_read_row_commute: "dma_read_row source dest len j (with_sr x s) = with_sr x (dma_read_row source dest len j s)"
proof (induction source dest len j s rule: dma_read_row.induct)
  case (1 source dest len j s)
  then show ?case
    by (subst (1 2) dma_read_row.simps) (simp add: Let_def dma_read_word_commute)
qed

lemma dma_read_rows_commute: "dma_read_rows len skip cnt i source dest (with_sr x s) =
    (case dma_read_rows len skip cnt i source dest s of (a, b, s') \<Rightarrow> (a, b, with_sr x s'))"
proof (induction len skip cnt i source dest s rule: dma_read_rows.induct)
  case (1 len skip cnt i source dest s)
  then show ?case
    by (subst (1 2) dma_read_rows.simps) (simp add: Let_def dma_read_row_commute)
qed

lemma dma_write_word_commute: "dma_write_word source dest j (with_sr x s) = with_sr x (dma_write_word source dest j s)"
  by (simp add: dma_write_word_def Let_def)

lemma dma_write_row_commute: "dma_write_row source dest len j (with_sr x s) = with_sr x (dma_write_row source dest len j s)"
proof (induction source dest len j s rule: dma_write_row.induct)
  case (1 source dest len j s)
  then show ?case
    by (subst (1 2) dma_write_row.simps) (simp add: Let_def dma_write_word_commute)
qed

lemma dma_write_rows_commute: "dma_write_rows len skip cnt i source dest (with_sr x s) =
    (case dma_write_rows len skip cnt i source dest s of (a, b, s') \<Rightarrow> (a, b, with_sr x s'))"
proof (induction len skip cnt i source dest s rule: dma_write_rows.induct)
  case (1 len skip cnt i source dest s)
  then show ?case
    by (subst (1 2) dma_write_rows.simps) (simp add: Let_def dma_write_row_commute)
qed

lemma rsp_dma_read_commute: "rsp_dma_read (with_sr x s) = (with_sr x (fst (rsp_dma_read s)), snd (rsp_dma_read s))"
  by (simp add: rsp_dma_read_def Let_def dma_read_rows_commute split_beta)

lemma rsp_dma_write_commute: "rsp_dma_write (with_sr x s) = with_sr x (rsp_dma_write s)"
  by (simp add: rsp_dma_write_def Let_def dma_write_rows_commute split_beta)

lemma rsp_status_write_commute: "rsp_status_write (with_sr x s) v = (with_sr x (fst (rsp_status_write s v)), snd (rsp_status_write s v))"
  by (simp add: rsp_status_write_def Let_def)

lemma RSP_MTC0_commute:
  assumes rdp: "scalar_free rdp" and x: "reg_file x rt = sr s rt"
  shows "RSP_MTC0 rdp gl (with_sr x s) rd rt = (with_sr x (fst (RSP_MTC0 rdp gl s rd rt)), snd (RSP_MTC0 rdp gl s rd rt))"
  using rdp x unfolding RSP_MTC0_def Let_def scalar_free_def
  by (simp add: rsp_dma_read_commute rsp_dma_write_commute rsp_status_write_commute)

lemma MTC0_respects:
  assumes rdp: "scalar_free rdp" and rt: "rt < 32" and f: "follows s s'"
  shows "follows (fst (RSP_MTC0 rdp gl s rd rt)) (fst (RSP_MTC0 rdp gl s' rd rt))" "same_slot s' (fst (RSP_MTC0 rdp gl s' rd rt))"
    "snd (RSP_MTC0 rdp gl s' rd rt) = snd (RSP_MTC0 rdp gl s rd rt)" "sr (fst (RSP_MTC0 rdp gl s' rd rt)) = sr s'"
proof -
  have ro: "reads_only rt (\<lambda>s. fst (RSP_MTC0 rdp gl s rd rt))" using RSP_MTC0_commute [OF rdp] by (simp add: reads_only_def)
  then show "follows (fst (RSP_MTC0 rdp gl s rd rt)) (fst (RSP_MTC0 rdp gl s' rd rt))" "same_slot s' (fst (RSP_MTC0 rdp gl s' rd rt))"
    using transparent_reads_only [OF ro rt] f by (simp_all add: transparent_def)
  show "sr (fst (RSP_MTC0 rdp gl s' rd rt)) = sr s'" using reads_only_keeps(1) [OF ro] .
  obtain x where "s' = with_sr x s" "reg_file x rt = sr s rt" using f rt by (auto simp: follows_def)
  then show "snd (RSP_MTC0 rdp gl s' rd rt) = snd (RSP_MTC0 rdp gl s rd rt)" using RSP_MTC0_commute [OF rdp] by simp
qed

lemma MFC0_respects:
  assumes rt: "rt < 32" and f: "follows s s'"
  shows "\<exists>s1'. RSP_MFC0 gl s' rt rd = (fst (RSP_MFC0 gl s rt rd), s1', snd (snd (RSP_MFC0 gl s rt rd))) \<and>
    follows (fst (snd (RSP_MFC0 gl s rt rd))) s1' \<and> same_slot s' s1' \<and> (sr s' 0 = 0 \<longrightarrow> sr s1' 0 = 0)"
proof -
  have put: "follows (set_sr r v a) (set_sr r v a')" if "follows a a'" for a a' r v
    using that follows_put by (simp add: set_sr_def)
  have cr: "follows (set_cr r v a) (set_cr r v a')" if "follows a a'" for a a' r v
    using that unfolding follows_def by (auto simp: set_cr_simps)
  have same: "same_slot a (set_sr rt v a)" "same_slot a (set_cr r v a)" for a r v
    using rt by (simp_all add: same_slot_def set_sr_def set_cr_def)
  let ?poll = "parallel_integration gl \<and> rd mod 16 = 4"
  let ?gl = "if ?poll then gl\<lparr>MFC0_count := (MFC0_count gl)(rt := MFC0_count gl rt + 1)\<rparr> else gl"
  let ?out = "?poll \<and> sint (MFC0_count ?gl rt) \<ge> SP_STATUS_TIMEOUT ?gl"
  let ?sem = "rd mod 16 = 7 \<and> parallel_integration ?gl \<and> graphics_hle ?gl"
  define a where "a s = (if rt \<noteq> 0 then set_sr rt (cr (cp0 s) (rd mod 16)) s else s)" for s
  have eq: "RSP_MFC0 gl s rt rd = (if ?out then (?gl, set_cr 4 (cr (cp0 (a s)) 4 OR SP_STATUS_HALT) (a s), MODE_CHECK_FLAGS)
      else (?gl, if ?sem then set_sr rt 0 (a s) else a s, MODE_CONTINUE))" for s
    unfolding RSP_MFC0_def Let_def a_def ..
  have c: "cp0 s' = cp0 s" using follows_fields(2) [OF f] .
  have a: "follows (a s) (a s')" "same_slot s' (a s')" "sr s' 0 = 0 \<longrightarrow> sr (a s') 0 = 0" "cp0 (a s') = cp0 (a s)"
    using f put same c by (auto simp: a_def set_sr_def)
  have zero: "sr (set_sr rt 0 b) 0 = 0 \<or> sr (set_sr rt 0 b) 0 = sr b 0" "sr (set_cr r v b) = sr b" for b r v
    by (simp_all add: set_sr_def)
  show ?thesis
  proof (cases ?out)
    case True
    show ?thesis unfolding eq if_P [OF True] using cr [OF a(1)] same_slot_trans [OF a(2) same(2)] a(3) by (simp add: a(4))
  next
    case False
    show ?thesis
    proof (cases ?sem)
      case sem: True
      show ?thesis unfolding eq if_not_P [OF False] if_P [OF sem]
        using put [OF a(1)] same_slot_trans [OF a(2) same(1)] a(3) zero(1) [of "a s'"] by auto
    next
      case sem: False
      show ?thesis unfolding eq if_not_P [OF False] if_not_P [OF sem] using a by simp
    qed
  qed
qed

lemma cop0_respects:
  assumes "scalar_free rdp" and f: "follows s s'"
  shows "\<exists>s1'. mips_cop0 rdp instr gl s' = (fst (mips_cop0 rdp instr gl s), s1', snd (snd (mips_cop0 rdp instr gl s))) \<and>
    follows (fst (snd (mips_cop0 rdp instr gl s))) s1' \<and> same_slot s' s1' \<and> (sr s' 0 = 0 \<longrightarrow> sr s1' 0 = 0)"
proof -
  consider (mfc0) "rs_of instr = 0" | (mtc0) "rs_of instr = 4" | (none) "rs_of instr \<noteq> 0" "rs_of instr \<noteq> 4" by blast
  then show ?thesis
  proof cases
    case mfc0
    then show ?thesis using MFC0_respects [OF fld_less(1) f] by (simp add: mips_cop0_def)
  next
    case mtc0
    have rt: "rt_of instr < 32" by simp
    show ?thesis using MTC0_respects [OF assms(1) rt f, of gl "rd_of instr"] mtc0
      by (intro exI [of _ "fst (RSP_MTC0 rdp gl s' (rd_of instr) (rt_of instr))"]) (simp add: mips_cop0_def prod_eq_iff)
  qed (use f in \<open>simp add: mips_cop0_def\<close>)
qed

end
