(* ===== verification/Jit_Branches.thy ===== *)
theory Jit_Branches
  imports Jit_Code Mips_Machine
begin

unbundle bit_operations_syntax

text \<open>
  Correctness of the code emitted for branches (\<open>CPU::jit_instruction\<close> of \<open>rsp_jit.cpp\<close>): the branch is not made, but remembered, in the
  information that the compiler keeps about the last instruction, in the register of the branch condition and in the host register of an
  indirect target, and a branch pending before it is saved in the stack frame.
\<close>

section \<open>Branches that are remembered\<close>

definition branch_to :: "InstructionInfo \<Rightarrow> host \<Rightarrow> u32" where
  "branch_to info h = (if indirect info then ucast (jit_regs h JIT_REGISTER_INDIRECT_PC) else info_branch_target info)"

text \<open>The branch that is pending after an instruction with information \<open>info\<close>.\<close>

definition slot_of :: "InstructionInfo \<Rightarrow> host \<Rightarrow> CPUState \<Rightarrow> u32 option" where
  "slot_of info h s = (if branch info \<and> (conditional info \<longrightarrow> sr s COND_BRANCH_TAKEN \<noteq> 0) then Some (branch_to info h) else None)"

definition saved_slot :: "InstructionInfo \<Rightarrow> host \<Rightarrow> CPUState \<Rightarrow> host \<Rightarrow> bool" where
  "saved_slot info h s h' \<longleftrightarrow> (branch info \<and> conditional info \<longrightarrow> (frame h' 1 = 0 \<longleftrightarrow> sr s COND_BRANCH_TAKEN = 0)) \<and>
     (branch info \<and> indirect info \<longrightarrow> frame h' 3 = jit_regs h JIT_REGISTER_INDIRECT_PC)"

text \<open>What \<open>jit_instruction\<close> reports about a branch.\<close>

definition branch_info :: "u32 \<Rightarrow> u32 \<Rightarrow> bool \<Rightarrow> InstructionInfo" where
  "branch_info pc' instr next_target =
     (let type = unat (drop_bit 26 instr)
      in if type = 0 then no_info\<lparr>branch := True, indirect := True, conditional := next_target\<rparr>
         else if type = 2 \<or> type = 3 then taken_to (absolute_target instr) next_target
         else if type = 6 then taken_to (relative_target pc' instr) (rs_of instr \<noteq> 0)
         else if type = 7 \<and> rs_of instr = 0 then no_info
         else taken_to (relative_target pc' instr) True)"

section \<open>Pieces of branches\<close>

lemma represents_fixed:
  assumes rep: "represents R em ls h s" and cpu: "cpu h' = cpu h"
    and reg: "\<And>i. jit_regs h' (entry_to_jit_register R i) = jit_regs h (entry_to_jit_register R i)"
  shows "represents R em ls h' s"
  using rep unfolding represents_def cpu reg .

lemma tracks_emit_fixed:
  assumes "tracks R cl b em ls h s" "plain oper" "cpu (exec_op cl oper h) = cpu h"
    "\<And>i. jit_regs (exec_op cl oper h) (entry_to_jit_register R i) = jit_regs h (entry_to_jit_register R i)"
  shows "tracks R cl b (emit oper em) ls (exec_op cl oper h) s"
proof -
  have "represents R em ls (exec_op cl oper h) s" by (rule represents_fixed [OF tracks_represents [OF assms(1)] assms(3,4)])
  then show ?thesis using exec_emit [of cl b em h oper] assms(1,2) unfolding tracks_def represents_entries [OF emit_simps(1)] by blast
qed

lemma computes_bind:
  assumes x: "computes R cl b em h x s1" and F: "\<And>s s'. agrees s s' \<Longrightarrow> agrees (F s) (F s')"
    and f: "\<And>em1 h1 s1'. tracks R cl b em1 [] h1 s1' \<Longrightarrow> length (entries em1) = length (entries em) \<Longrightarrow> computes R cl b em1 h1 (f em1) (F s1')"
  shows "computes R cl b em h (x \<bind> f) (F s1)"
proof -
  obtain em1 h1 s1' where c: "x = Some em1" "tracks R cl b em1 [] h1 s1'" "same_shape em em1" "same_env h h1" "agrees s1 s1'"
    using x by (auto simp: computes_def)
  have "computes R cl b em1 h1 (f em1) (F s1')" using f [OF c(2)] c(3) by (simp add: same_shape_def)
  then show ?thesis using c F [OF c(5)] same_shape_trans [OF c(3)] same_env_trans [OF c(4)] agrees_trans
    unfolding computes_def by (simp, blast)
qed

lemma truth_simps [simp]: "clean (truth c)" "ucast (truth c) = (of_bool c :: u32)"
  by (simp_all add: truth_def)

text \<open>A comparison with zero.\<close>

definition zero_test :: "alu \<Rightarrow> u32 \<Rightarrow> bool" where
  "zero_test f x = (if f = Lt then sint x < 0 else if f = Ge then sint x \<ge> 0 else if f = Le then sint x \<le> 0 else sint x > 0)"

lemma branch_zero_tracks:
  assumes "tracks R cl b em [] h s" "3 \<le> length (entries em)" and f: "f \<in> {Lt, Ge, Le, Gt}"
  shows "computes R cl b em h (branch_zero f R instr em) (s\<lparr>sr := (sr s)(COND_BRANCH_TAKEN := of_bool (zero_test f (sr s (rs_of instr))))\<rparr>)"
proof -
  have v: "ucast (alu_result f x 0) = (of_bool (zero_test f (ucast x :: u32)) :: u32)" if "extended SExt x" for x
    using f sext_sint [OF that] by (auto simp: zero_test_def word_sless_alt word_sle_eq)
  have c: "clean (alu_result f x 0)" for x using f by auto
  have "branch_zero f R instr em = do { (x, em) \<leftarrow> load_mips_register_sext R (rs_of instr) em;
      (d, em) \<leftarrow> modify_mips_register R COND_BRANCH_TAKEN em; unlock_all [rs_of instr, COND_BRANCH_TAKEN] (emit (jit_i f d x 0) em) }"
    by (simp add: branch_zero_def Let_def)
  then show ?thesis
    using ld_sext.unary_tracks [OF assms(1,2) _ _ _ v c, where src = "rs_of instr" and dst = COND_BRANCH_TAKEN] by simp
qed

lemma branch_compare_tracks:
  assumes "tracks R cl b em [] h s" "3 \<le> length (entries em)" and f: "f = Eq \<or> f = Ne"
  shows "computes R cl b em h (branch_compare f R instr em)
    (s\<lparr>sr := (sr s)(COND_BRANCH_TAKEN := of_bool ((sr s (rs_of instr) = sr s (rt_of instr)) = (f = Eq)))\<rparr>)"
proof -
  have eq: "x = y \<longleftrightarrow> ucast x = (ucast y :: u32)" if "extended SExt x" "extended SExt y" for x y using that by (metis extended.simps(1))
  have v: "ucast (alu_result f x y) = (of_bool ((ucast x = (ucast y :: u32)) = (f = Eq)) :: u32)" if "extended SExt x" "extended SExt y" for x y
    using f eq [OF that] by auto
  have c: "clean (alu_result f x y)" for x y using f by auto
  have "branch_compare f R instr em = do { (x, em) \<leftarrow> load_mips_register_sext R (rs_of instr) em; (y, em) \<leftarrow> load_mips_register_sext R (rt_of instr) em;
      (d, em) \<leftarrow> modify_mips_register R COND_BRANCH_TAKEN em; unlock_all [rs_of instr, rt_of instr, COND_BRANCH_TAKEN] (emit (jit_r f d x y) em) }"
    by (simp add: branch_compare_def Let_def)
  then show ?thesis
    using ld_sext.binary_tracks [OF assms(1,2) _ _ _ _ v c, where rs = "rs_of instr" and rt = "rt_of instr" and dst = COND_BRANCH_TAKEN] by simp
qed

lemma room_empty [simp]: "3 \<le> length (entries em) \<Longrightarrow> card (set ([] :: nat list)) < length (entries em)"
  by (simp del: length_greater_0_conv)

text \<open>The branch pending before a branch is saved; it may be the second of two in a row.\<close>

lemma save_cond_tracks:
  assumes t: "tracks R cl b em [] h s" and n: "3 \<le> length (entries em)"
  obtains em' h' where "jit_save_illegal_cond_branch_taken R em = Some em'" "tracks R cl b em' [] h' s" "same_shape em em'" "globals h' = globals h"
    "\<And>k. k < 3 \<Longrightarrow> jit_regs h' (JIT_V k) = jit_regs h (JIT_V k)" "frame h' 1 = 0 \<longleftrightarrow> sr s COND_BRANCH_TAKEN = 0"
proof (rule load_cond_tracks [OF t _ room_empty [OF n]])
  fix i em1 and h1 :: host
  let ?i = "entry_to_jit_register R i"
  let ?op = "jit_stxi_frame 1 ?i" and ?h = "h1\<lparr>frame := (frame h1)(1 := jit_regs h1 ?i)\<rparr>"
  assume l: "load_mips_register_noext R COND_BRANCH_TAKEN em = Some (?i, em1)" "tracks R cl b em1 [COND_BRANCH_TAKEN] h1 s"
    "holds em1 i COND_BRANCH_TAKEN" "same_shape em em1" "same_env h h1" "clean (jit_regs h1 ?i)" "ucast (jit_regs h1 ?i) = sr s COND_BRANCH_TAKEN"
  have t1: "tracks R cl b (emit ?op em1) [COND_BRANCH_TAKEN] ?h s" using tracks_emit_fixed [OF l(2), of ?op] by simp
  have "k = i" if "holds (emit ?op em1) k COND_BRANCH_TAKEN" for k
    using represents_unique [OF tracks_represents [OF l(2)] l(3)] that by simp
  then have clean: "clean (jit_regs ?h (entry_to_jit_register R k))" if "COND_BRANCH_TAKEN \<in> set [COND_BRANCH_TAKEN]" "holds (emit ?op em1) k COND_BRANCH_TAKEN" for k
    using that l(6) by simp
  obtain em2 where u: "unlock_mips_register COND_BRANCH_TAKEN (emit ?op em1) = Some em2" "tracks R cl b em2 [] ?h s" "same_shape (emit ?op em1) em2"
    using unlock_all_tracks [where rs = "[COND_BRANCH_TAKEN]", OF t1 refl clean] by (auto split: bind_splits)
  have "frame ?h 1 = 0 \<longleftrightarrow> sr s COND_BRANCH_TAKEN = 0" using l(6,7) by (auto simp: clean_def)
  moreover have "jit_save_illegal_cond_branch_taken R em = Some em2" using l(1) u(1) by (simp add: jit_save_illegal_cond_branch_taken_def)
  moreover have "globals ?h = globals h" "jit_regs ?h (JIT_V k) = jit_regs h (JIT_V k)" if "k < 3" for k using l(5) that by (simp_all add: same_env_def)
  ultimately show thesis using that [OF _ u(2)] same_shape_trans [OF l(4)] u(3) l(5) by (simp add: same_shape_def same_env_def)
qed simp

lemma flush_impossible_tracks:
  assumes t: "tracks R cl b em [] h s" and n: "3 \<le> length (entries em)"
  obtains em' h' where "flush_impossible_delay_slot R info em = Some em'" "tracks R cl b em' [] h' s" "same_shape em em'" "globals h' = globals h"
    "\<And>k. k < 3 \<Longrightarrow> jit_regs h' (JIT_V k) = jit_regs h (JIT_V k)" "saved_slot info h s h'"
proof -
  obtain em1 h1 where a: "(if branch info \<and> conditional info then jit_save_illegal_cond_branch_taken R em else Some em) = Some em1"
    "tracks R cl b em1 [] h1 s" "same_shape em em1" "globals h1 = globals h" "\<And>k. k < 3 \<Longrightarrow> jit_regs h1 (JIT_V k) = jit_regs h (JIT_V k)"
    "branch info \<and> conditional info \<Longrightarrow> frame h1 1 = 0 \<longleftrightarrow> sr s COND_BRANCH_TAKEN = 0"
  proof (cases "branch info \<and> conditional info")
    case True
    from save_cond_tracks [OF t n] show thesis using True that by auto
  next
    case False
    then show thesis using that [of em h] t by auto
  qed
  show thesis
  proof (cases "branch info \<and> indirect info")
    case True
    let ?op = "jit_stxi_frame 3 JIT_REGISTER_INDIRECT_PC" and ?h = "h1\<lparr>frame := (frame h1)(3 := jit_regs h1 (JIT_V 2))\<rparr>"
    have "tracks R cl b (emit ?op em1) [] ?h s" using tracks_emit_fixed [OF a(2), of ?op] by simp
    moreover have "flush_impossible_delay_slot R info em = Some (emit ?op em1)"
      using a(1) True by (auto simp: flush_impossible_delay_slot_def jit_save_illegal_indirect_register_def)
    moreover have "saved_slot info h s ?h" using a(5) [of 2] a(6) by (simp add: saved_slot_def)
    ultimately show thesis using that [of "emit ?op em1" ?h] a(3-5) by (simp add: same_shape_def)
  next
    case False
    then have "flush_impossible_delay_slot R info em = Some em1" using a(1) by (auto simp: flush_impossible_delay_slot_def)
    moreover have "saved_slot info h s h1" using a(6) False unfolding saved_slot_def by blast
    ultimately show thesis using that [of em1 h1] a(2-5) by blast
  qed
qed

text \<open>An indirect target is kept in a host register of its own.\<close>

lemma save_indirect_tracks:
  assumes t: "tracks R cl b em [] h s" and n: "3 \<le> length (entries em)" and r: "r < 32"
  obtains em' h' where "jit_save_indirect_register R r em = Some em'" "tracks R cl b em' [] h' s" "same_shape em em'" "globals h' = globals h"
    "frame h' = frame h" "ucast (jit_regs h' JIT_REGISTER_INDIRECT_PC) = sr s r"
proof (rule load_noext_tracks [OF t _ room_empty [OF n], of r])
  fix i em1 and h1 :: host
  let ?i = "entry_to_jit_register R i"
  let ?op = "jit_movr JIT_REGISTER_INDIRECT_PC ?i" and ?h = "put_reg JIT_REGISTER_INDIRECT_PC (jit_regs h1 ?i) h1"
  assume l: "load_mips_register_noext R r em = Some (?i, em1)" "tracks R cl b em1 [r] h1 s" "holds em1 i r" "same_shape em em1" "same_env h h1"
  have t1: "tracks R cl b (emit ?op em1) [r] ?h s" using tracks_emit_fixed [OF l(2), of ?op] by simp
  have "clean (jit_regs ?h (entry_to_jit_register R k))" if "COND_BRANCH_TAKEN \<in> set [r]" for k using that r by simp
  then obtain em2 where u: "unlock_mips_register r (emit ?op em1) = Some em2" "tracks R cl b em2 [] ?h s" "same_shape (emit ?op em1) em2"
    using unlock_all_tracks [where rs = "[r]", OF t1 refl] by (auto split: bind_splits)
  have "ucast (jit_regs ?h JIT_REGISTER_INDIRECT_PC) = sr s r" using holds_value [OF tracks_represents [OF l(2)] l(3)] by simp
  moreover have "jit_save_indirect_register R r em = Some em2" using l(1) u(1) by (simp add: jit_save_indirect_register_def)
  ultimately show thesis using that [OF _ u(2)] u(3) l(4,5) by (simp add: same_shape_def same_env_def)
qed (use r in simp)

section \<open>Branches\<close>

lemma link_value: "ucast ((pc' + 8) AND 0xffc :: u32) = (scast (ucast (ucast ((pc' + 8) AND 0xffc) :: u64) :: u32) :: u64)"
proof -
  let ?w = "(pc' + 8) AND 0xffc :: u32"
  have "scast ?w = (ucast ?w :: u64)"
  proof (rule bit_word_eqI)
    fix k assume k: "k < LENGTH(64)"
    have hi: "bit ?w j \<Longrightarrow> j < 12" for j
    proof -
      have "?w = take_bit 12 ?w" by (rule bit_word_eqI) (auto simp: bit_simps bit_numeral_rec split: nat.splits)
      then show "bit ?w j \<Longrightarrow> j < 12" by (metis bit_take_bit_iff)
    qed
    show "bit (scast ?w :: u64) k \<longleftrightarrow> bit (ucast ?w :: u64) k"
      using k hi [of k] hi [of 31] by (auto simp: bit_simps min_def)
  qed
  then show ?thesis by simp
qed

lemma link_register_tracks:
  assumes "tracks R cl b em [] h s" "3 \<le> length (entries em)" "r < 32"
  shows "computes R cl b em h (if r \<noteq> 0 then link_register R pc' r em else Some em) (link_to r pc' s)"
proof (cases "r = 0")
  case False
  then show ?thesis using constant_tracks [OF assms(1,2) _ _ link_value, of r pc'] assms(3) by (simp add: link_register_def link_to_def)
qed (use assms computes_nothing in \<open>simp add: link_to_def\<close>)

abbreviation static_cond :: "nat \<Rightarrow> bool \<Rightarrow> emitter \<Rightarrow> emitter option" where
  "static_cond R nt em \<equiv> immediate_mips_register R COND_BRANCH_TAKEN (if nt then 1 else 0) em \<bind>
     (\<lambda>(_, em). unlock_mips_register COND_BRANCH_TAKEN em)"

lemma static_branch_eq: "static_branch R nt info em = map_option (Pair (info\<lparr>conditional := nt\<rparr>)) (static_cond R nt em)"
  by (auto simp: static_branch_def split: bind_splits)

lemma static_cond_tracks:
  assumes "tracks R cl b em [] h s" "3 \<le> length (entries em)"
  shows "computes R cl b em h (static_cond R nt em) (s\<lparr>sr := (sr s)(COND_BRANCH_TAKEN := of_bool nt)\<rparr>)"
proof -
  let ?v = "if nt then 1 else 0 :: u64"
  have "?v = scast (ucast ?v :: u32)" "ucast ?v = (of_bool nt :: u32)" by simp_all
  then show ?thesis using constant_tracks [OF assms, of COND_BRANCH_TAKEN ?v] by simp
qed

lemma jump_and_link_tracks:
  assumes t: "tracks R cl b em [] h s" and n: "3 \<le> length (entries em)" and v: "v = scast (ucast v :: u32)" and c: "c = scast (ucast c :: u32)"
  shows "computes R cl b em h (do { (_, em) \<leftarrow> immediate_mips_register R 31 v em; (_, em) \<leftarrow> immediate_mips_register R COND_BRANCH_TAKEN c em;
      unlock_all [31, COND_BRANCH_TAKEN] em }) (s\<lparr>sr := (sr s)(31 := ucast v, COND_BRANCH_TAKEN := ucast c)\<rparr>)"
proof (rule immediate_tracks [OF t _ _ room_empty [OF n] v, of 31])
  fix i em1 and h1 :: host
  let ?s = "s\<lparr>sr := (sr s)(31 := ucast v)\<rparr>"
  assume l: "immediate_mips_register R 31 v em = Some (entry_to_jit_register R i, em1)" "tracks R cl b em1 [31] h1 ?s" "same_shape em em1" "same_env h h1"
  have room: "card (set [31 :: nat]) < length (entries em1)" using n l(3) by (simp add: same_shape_def)
  show ?thesis
  proof (rule immediate_tracks [OF l(2) _ _ room c, of COND_BRANCH_TAKEN])
    fix k em2 and h2 :: host
    assume m: "immediate_mips_register R COND_BRANCH_TAKEN c em1 = Some (entry_to_jit_register R k, em2)"
      "tracks R cl b em2 [COND_BRANCH_TAKEN, 31] h2 (?s\<lparr>sr := (sr ?s)(COND_BRANCH_TAKEN := ucast c)\<rparr>)" "holds em2 k COND_BRANCH_TAKEN"
      "same_shape em1 em2" "same_env h1 h2" "jit_regs h2 (entry_to_jit_register R k) = c"
    have "clean c" using c by (metis clean_scast)
    then have "clean (jit_regs h2 (entry_to_jit_register R l))" if "COND_BRANCH_TAKEN \<in> set [31, COND_BRANCH_TAKEN]" "holds em2 l COND_BRANCH_TAKEN" for l
      using represents_unique [OF tracks_represents [OF m(2)] m(3) that(2)] m(6) by simp
    then obtain em3 where u: "unlock_all [31, COND_BRANCH_TAKEN] em2 = Some em3" "same_shape em2 em3"
      "tracks R cl b em3 [] h2 (?s\<lparr>sr := (sr ?s)(COND_BRANCH_TAKEN := ucast c)\<rparr>)"
      using unlock_all_tracks [OF m(2), of "[31, COND_BRANCH_TAKEN]"] by auto
    have "same_shape em em3" using l(3) m(4) u(2) by (simp add: same_shape_def)
    then show ?thesis using l(1) m(1) u(1,3) same_env_trans [OF l(4) m(5)] by (intro computesI [OF _ u(3)]) (simp_all del: unlock_all.simps)
  qed simp_all
qed simp_all

lemma slot_of_env: "same_env h h' \<Longrightarrow> sr s' COND_BRANCH_TAKEN = sr s COND_BRANCH_TAKEN \<Longrightarrow> slot_of info h' s' = slot_of info h s"
  by (simp add: slot_of_def branch_to_def same_env_def)

text \<open>A branch: the reported information and the condition remember where it goes, if it is taken.\<close>

definition remembers :: "nat \<Rightarrow> clobber \<Rightarrow> jit_op list \<times> host \<Rightarrow> emitter \<Rightarrow> host \<Rightarrow> CPUState \<Rightarrow> InstructionInfo \<Rightarrow>
    (InstructionInfo \<times> emitter) option \<Rightarrow> InstructionInfo \<Rightarrow> CPUState \<Rightarrow> u32 option \<Rightarrow> bool" where
  "remembers R cl b em h s info x info' s1 slot \<longleftrightarrow> (\<exists>em' h' s'. x = Some (info', em') \<and> tracks R cl b em' [] h' s' \<and> same_shape em em' \<and>
     globals h' = globals h \<and> saved_slot info h s h' \<and> follows s1 s' \<and> has_delay_slot s' = has_delay_slot s \<and> branch_target s' = branch_target s \<and>
     slot_of info' h' s' = slot)"

lemma remembersI:
  assumes a: "saved_slot info h s h1" "globals h1 = globals h" "same_shape em em1"
    and c: "computes R cl b em1 h1 x s1" and y: "y = map_option (Pair info') x"
    and f: "follows s0 s1" "has_delay_slot s1 = has_delay_slot s" "branch_target s1 = branch_target s" and slot: "slot_of info' h1 s1 = slot"
  shows "remembers R cl b em h s info y info' s0 slot"
proof -
  obtain em2 h2 s2 where d: "x = Some em2" "tracks R cl b em2 [] h2 s2" "same_shape em1 em2" "same_env h1 h2" "agrees s1 s2"
    using c by (auto simp: computes_def)
  have same: "same_slot s1 s2" using agrees_same_slot [OF d(5)] .
  have "saved_slot info h s h2" "globals h2 = globals h" using a(1,2) d(4) by (simp_all add: saved_slot_def same_env_def)
  moreover have "slot_of info' h2 s2 = slot" using slot_of_env [OF d(4)] same slot by (simp add: same_slot_def)
  ultimately show ?thesis
    using d(1,2) same_shape_trans [OF a(3) d(3)] follows_agrees [OF f(1) d(5)] same f(2,3) y unfolding remembers_def same_slot_def by auto
qed

lemma follows_cond: "follows s s' \<Longrightarrow> follows s (s'\<lparr>sr := (sr s')(COND_BRANCH_TAKEN := v)\<rparr>)"
  by (rule follows_scratch) simp_all

lemma follows_link: "follows s s' \<Longrightarrow> r < 32 \<Longrightarrow> follows (link_to r pc' s) (link_to r pc' s')"
  using transparent_link by (simp add: transparent_def)

lemma link_to_simps [simp]: "has_delay_slot (link_to r pc' s) = has_delay_slot s" "branch_target (link_to r pc' s) = branch_target s"
  "r \<noteq> 32 \<Longrightarrow> sr (link_to r pc' s) 32 = sr s 32"
  by (simp_all add: link_to_def)

lemma agrees_link: "agrees s s' \<Longrightarrow> agrees (link_to r pc' s) (link_to r pc' s')"
  by (simp add: link_to_def agrees_put)

lemma map_option_bind: "x \<bind> (\<lambda>y. map_option f (g y)) = map_option f (x \<bind> g)"
  by (cases x) simp_all

lemma set_cond_agrees: "agrees s s' \<Longrightarrow> agrees (s\<lparr>sr := (sr s)(r := v)\<rparr>) (s'\<lparr>sr := (sr s')(r := v)\<rparr>)"
  by (rule agrees_put)

lemma branch_tracks:
  assumes br: "is_branch instr" and f: "follows \<sigma> s" and t: "tracks R cl b em [] h s" and n: "3 \<le> length (entries em)"
  shows "remembers R cl b em h s info (jit_branch R pc' instr info nt em) (branch_info pc' instr nt)
    (snd (mips_branch pc' instr \<sigma>)) (fst (mips_branch pc' instr \<sigma>))"
proof -
  let ?ty = "unat (drop_bit 26 instr)" and ?f = "unat (instr AND 63)" and ?rt = "rt_of instr"
  note defs = branch_info_def mips_branch_def Let_def taken_to_def no_info_def slot_of_def branch_to_def
  obtain em1 h1 where i: "flush_impossible_delay_slot R info em = Some em1" "tracks R cl b em1 [] h1 s" "same_shape em em1" "globals h1 = globals h"
    "saved_slot info h s h1"
    by (rule flush_impossible_tracks [OF t n, of info]) blast
  have n1: "3 \<le> length (entries em1)" using n i(3) by (simp add: same_shape_def)
  have regs: "sr s (fld instr k) = sr \<sigma> (fld instr k)" for k using follows_sr(2) [OF f] .
  have "sr s 0 = 0" using t by (simp add: tracks_def represents_def)
  then have zero: "sr \<sigma> 0 = 0" using follows_sr(1) [OF f, of 0] by simp
  note rem = remembersI [OF i(5,4,3)]
  have cond: "follows \<sigma> (s\<lparr>sr := (sr s)(COND_BRANCH_TAKEN := v)\<rparr>)" for v using follows_cond [OF f] .
  consider (jr) "?ty = 0" "?f = 8" | (jalr) "?ty = 0" "?f = 9" | (bz) "?ty = 1" "?rt = 0 \<or> ?rt = 1 \<or> ?rt = 16 \<or> ?rt = 17" | (j) "?ty = 2" | (jal) "?ty = 3"
    | (beq) "?ty = 4" | (bne) "?ty = 5" | (blez) "?ty = 6" | (bgtz) "?ty = 7" using br by (auto simp: is_branch_def Let_def)
  then show ?thesis
  proof cases
    case j
    have "jit_branch R pc' instr info nt em = map_option (Pair (branch_info pc' instr nt)) (static_cond R nt em1)"
      using i(1) j by (simp add: jit_branch_def static_branch_eq defs)
    then show ?thesis by (intro rem [OF static_cond_tracks [OF i(2) n1] _ _]) (use cond j in \<open>auto simp: defs absolute_target_def\<close>)
  next
    case jal
    let ?v = "ucast ((pc' + 8) AND 0xffc) :: u64" and ?c = "if nt then 1 else 0 :: u64"
    let ?s = "s\<lparr>sr := (sr s)(31 := ucast ?v, COND_BRANCH_TAKEN := ucast ?c)\<rparr>"
    have c: "?c = scast (ucast ?c :: u32)" by simp
    have "jit_branch R pc' instr info nt em = map_option (Pair (branch_info pc' instr nt)) (do { (_, em) \<leftarrow> immediate_mips_register R 31 ?v em1;
        (_, em) \<leftarrow> immediate_mips_register R COND_BRANCH_TAKEN ?c em; unlock_all [31, COND_BRANCH_TAKEN] em })"
      using i(1) jal by (simp add: jit_branch_def defs del: unlock_all.simps split: bind_splits)
    moreover have "?s = (link_to 31 pc' s)\<lparr>sr := (sr (link_to 31 pc' s))(COND_BRANCH_TAKEN := of_bool nt)\<rparr>" by (simp add: link_to_def)
    then have "follows (link_to 31 pc' \<sigma>) ?s" using follows_cond [OF follows_link [OF f, of 31]] by simp
    ultimately show ?thesis
      by (intro rem [OF jump_and_link_tracks [OF i(2) n1 link_value c]]) (use jal in \<open>auto simp: defs absolute_target_def\<close>)
  next
    case beq
    have "jit_branch R pc' instr info nt em = map_option (Pair (branch_info pc' instr nt)) (branch_compare Eq R instr em1)"
      using i(1) beq by (auto simp add: jit_branch_def defs)
    then show ?thesis
      by (intro rem [OF branch_compare_tracks [OF i(2) n1]]) (use cond beq regs in \<open>auto simp: defs relative_target_def\<close>)
  next
    case bne
    have "jit_branch R pc' instr info nt em = map_option (Pair (branch_info pc' instr nt)) (branch_compare Ne R instr em1)"
      using i(1) bne by (auto simp add: jit_branch_def defs)
    then show ?thesis
      by (intro rem [OF branch_compare_tracks [OF i(2) n1]]) (use cond bne regs in \<open>auto simp: defs relative_target_def\<close>)
  next
    case blez
    have y: "jit_branch R pc' instr info nt em = map_option (Pair (branch_info pc' instr nt)) (if rs_of instr \<noteq> 0 then branch_zero Le R instr em1 else Some em1)"
      using i(1) blez by (auto simp add: jit_branch_def defs split: bind_splits)
    show ?thesis
    proof (cases "rs_of instr = 0")
      case True
      then show ?thesis using y by (intro rem [OF computes_nothing [OF i(2)]]) (use f blez True zero in \<open>auto simp: defs relative_target_def\<close>)
    next
      case False
      then show ?thesis using y by (intro rem [OF branch_zero_tracks [OF i(2) n1, of Le instr]])
        (use cond blez regs False in \<open>auto simp: defs relative_target_def zero_test_def\<close>)
    qed
  next
    case bgtz
    have y: "jit_branch R pc' instr info nt em = map_option (Pair (branch_info pc' instr nt)) (if rs_of instr \<noteq> 0 then branch_zero Gt R instr em1 else Some em1)"
      using i(1) bgtz by (auto simp add: jit_branch_def defs split: bind_splits)
    show ?thesis
    proof (cases "rs_of instr = 0")
      case True
      then show ?thesis using y by (intro rem [OF computes_nothing [OF i(2)]]) (use f bgtz True zero in \<open>auto simp: defs relative_target_def\<close>)
    next
      case False
      then show ?thesis using y by (intro rem [OF branch_zero_tracks [OF i(2) n1, of Gt instr]])
        (use cond bgtz regs False in \<open>auto simp: defs relative_target_def zero_test_def\<close>)
    qed
  next
    case bz
    let ?g = "if ?rt = 16 \<or> ?rt = 0 then Lt else Ge" and ?lk = "\<lambda>s. if ?rt = 16 \<or> ?rt = 17 then link_to 31 pc' s else s"
    let ?s = "s\<lparr>sr := (sr s)(COND_BRANCH_TAKEN := of_bool (zero_test ?g (sr s (rs_of instr))))\<rparr>"
    have y: "jit_branch R pc' instr info nt em = map_option (Pair (branch_info pc' instr nt))
        (branch_zero ?g R instr em1 \<bind> (\<lambda>em. if ?rt = 16 \<or> ?rt = 17 then link_register R pc' 31 em else Some em))"
      using i(1) bz by (auto simp add: jit_branch_def defs)
    have c: "computes R cl b em1 h1 (branch_zero ?g R instr em1 \<bind>
        (\<lambda>em. if ?rt = 16 \<or> ?rt = 17 then link_register R pc' 31 em else Some em)) (?lk ?s)"
      by (rule computes_bind [OF branch_zero_tracks [OF i(2) n1]])
        (use agrees_link link_register_tracks [of R cl b _ _ _ 31 pc'] computes_nothing n1 in auto)
    have fo: "follows (?lk \<sigma>) (?lk ?s)" using follows_link [OF cond] cond by simp
    show ?thesis
      by (rule rem [OF c y]) (use fo bz regs in \<open>auto simp: defs relative_target_def zero_test_def\<close>)
  next
    case jr
    obtain em2 h2 where j: "jit_save_indirect_register R (rs_of instr) em1 = Some em2" "tracks R cl b em2 [] h2 s" "same_shape em1 em2"
      "globals h2 = globals h1" "frame h2 = frame h1" "ucast (jit_regs h2 JIT_REGISTER_INDIRECT_PC) = sr s (rs_of instr)"
      by (rule save_indirect_tracks [OF i(2) n1 fld_less(1), of instr 21])
    have n2: "3 \<le> length (entries em2)" using n1 j(3) by (simp add: same_shape_def)
    have "jit_branch R pc' instr info nt em = map_option (Pair (branch_info pc' instr nt)) (static_cond R nt em2)"
      using i(1) j(1) jr by (simp add: jit_branch_def static_branch_eq defs)
    then show ?thesis
      by (intro remembersI [OF _ _ same_shape_trans [OF i(3) j(3)] static_cond_tracks [OF j(2) n2]])
        (use i j cond regs jr in \<open>auto simp: defs saved_slot_def\<close>)
  next
    case jalr
    have f9: "instr AND 63 = 9" using jalr(2) by (simp add: word_unat_eq_iff)
    obtain em2 h2 where j: "jit_save_indirect_register R (rs_of instr) em1 = Some em2" "tracks R cl b em2 [] h2 s" "same_shape em1 em2"
      "globals h2 = globals h1" "frame h2 = frame h1" "ucast (jit_regs h2 JIT_REGISTER_INDIRECT_PC) = sr s (rs_of instr)"
      by (rule save_indirect_tracks [OF i(2) n1 fld_less(1), of instr 21])
    have n2: "3 \<le> length (entries em2)" using n1 j(3) by (simp add: same_shape_def)
    let ?lk = "link_to (rd_of instr) pc' s"
    let ?s = "?lk\<lparr>sr := (sr ?lk)(COND_BRANCH_TAKEN := of_bool nt)\<rparr>"
    have y: "jit_branch R pc' instr info nt em = map_option (Pair (branch_info pc' instr nt))
        ((if rd_of instr \<noteq> 0 then link_register R pc' (rd_of instr) em2 else Some em2) \<bind> static_cond R nt)"
      using i(1) j(1) jalr by (cases "link_register R pc' (rd_of instr) em2") (simp_all add: jit_branch_def static_branch_eq defs)
    have c: "computes R cl b em2 h2 ((if rd_of instr \<noteq> 0 then link_register R pc' (rd_of instr) em2 else Some em2) \<bind> static_cond R nt) ?s"
      by (rule computes_bind [OF link_register_tracks [OF j(2) n2 fld_less(1)] set_cond_agrees])
        (use static_cond_tracks n2 in auto)
    have fo: "follows (link_to (rd_of instr) pc' \<sigma>) ?s" using follows_cond [OF follows_link [OF f]] by simp
    show ?thesis
      by (rule remembersI [OF _ _ same_shape_trans [OF i(3) j(3)] c y])
        (use fo i j regs jalr f9 in \<open>auto simp: defs saved_slot_def\<close>)
  qed
qed

end
