(* ===== verification/Jit_Ends.thy ===== *)
theory Jit_Ends
  imports Jit_Branches
begin

unbundle bit_operations_syntax

text \<open>
  Correctness of the code that leaves a region: the exits of instructions of coprocessor 0 and of breaks (\<open>jit_exit_dynamic\<close>), against the
  machine of \<open>Mips_Machine\<close>, and what compiling one instruction of any kind amounts to.
\<close>

section \<open>Running pieces of code\<close>

definition runs :: "clobber \<Rightarrow> jit_op list \<times> host \<Rightarrow> jit_op list \<Rightarrow> outcome \<Rightarrow> bool" where
  "runs cl b ops out \<longleftrightarrow> (\<exists>new. ops = fst b @ new \<and> exec cl new (snd b) = out)"

lemma runs_Falls: "runs cl b ops (Falls h) \<longleftrightarrow> emitted cl b ops h"
  by (simp add: runs_def emitted_def)

lemma runs_append: "emitted cl b ops h \<Longrightarrow> runs cl b (ops @ tail) (exec cl tail h)"
  by (auto simp: runs_def emitted_def exec_append_Falls)

lemma emitted_append: "emitted cl b ops h \<Longrightarrow> exec cl tail h = Falls h' \<Longrightarrow> emitted cl b (ops @ tail) h'"
  using runs_append [of cl b ops h tail] by (simp add: runs_Falls)

lemma runs_Jumps: "runs cl b ops (Jumps th h) \<Longrightarrow> runs cl b (ops @ tail) (Jumps th h)"
  by (auto simp: runs_def exec_append_Jumps)

lemma emitted_refl: "emitted cl (ops, h) ops h"
  by (simp add: emitted_def)

lemma tracks_self: "represents R em ls h s \<Longrightarrow> tracks R cl (code em, h) em ls h s"
  by (simp add: tracks_def emitted_refl)

lemma tracks_emitted: "tracks R cl b em ls h s \<Longrightarrow> emitted cl b (code em) h"
  by (simp add: tracks_def)

lemma flow_simps [simp]:
  "jump_of (jit_patch_abs th) = Some th" "branch_of (jit_beqi r k n) h = (if jit_regs h r = k then Some n else None)"
  "branch_of (jit_bnei r k n) h = (if jit_regs h r \<noteq> k then Some n else None)" "branch_of (jit_jmpi n) h = Some n"
  "jump_of (jit_beqi r k n) = None" "jump_of (jit_bnei r k n) = None" "jump_of (jit_jmpi n) = None"
  by (simp_all add: jump_of_def branch_of_def)

lemma plain_flow [simp]: "plain oper \<Longrightarrow> jump_of oper = None" "plain oper \<Longrightarrow> branch_of oper h = None"
  by (simp_all add: plain_def)

lemma is_patch_simps [simp]: "is_patch n (jit_patch k) \<longleftrightarrow> k = n"
  by (simp add: is_patch_def)

lemma not_patch [simp]: "unmarked oper \<Longrightarrow> \<not> is_patch n oper"
  by (auto simp: is_patch_def unmarked_def split: jit_op.splits)

lemma skip_code: "jit_patch n \<notin> set new \<Longrightarrow> dropWhile (\<lambda>x. \<not> is_patch n x) (new @ ys) = dropWhile (\<lambda>x. \<not> is_patch n x) ys"
proof (induction new)
  case (Cons x xs)
  then have "\<not> is_patch n x" by (cases x) (auto simp: is_patch_def)
  then show ?case using Cons by simp
qed simp

section \<open>An empty cache\<close>

text \<open>After a flush the cache is vacant: it represents the state in memory, whatever the host registers have.\<close>

definition vacant :: "emitter \<Rightarrow> bool" where
  "vacant em \<longleftrightarrow> (\<forall>i<length (entries em). \<not> is_live (entries em ! i) \<and> num_locks (entries em ! i) = 0)"

lemma vacant_represents: "vacant em \<Longrightarrow> sr (cpu h) 0 = 0 \<Longrightarrow> represents R em [] h (cpu h)"
  by (auto simp: represents_def holds_def entry_ok_def vacant_def)

lemma vacant_emit [simp]: "vacant (emit oper em) = vacant em" "vacant (em\<lparr>nodes := k\<rparr>) = vacant em" "vacant (em\<lparr>local_branches := l\<rparr>) = vacant em"
  by (simp_all add: vacant_def)

lemma vacant_reset [simp]: "vacant (reset em)"
  by (simp add: vacant_def reset_def empty_entry_def)

text \<open>An emitter that can go on.\<close>

definition ready :: "nat \<Rightarrow> emitter \<Rightarrow> bool" where
  "ready R em \<longleftrightarrow> (\<exists>h s. represents R em [] h s)"

lemma readyI: "represents R em [] h s \<Longrightarrow> ready R em"
  by (auto simp: ready_def)

lemma vacant_ready: "vacant em \<Longrightarrow> ready R em"
proof -
  assume v: "vacant em"
  have "sr (cpu example_host) 0 = 0" by (simp add: example_host_def reset_state_def)
  from vacant_represents [OF v this] show ?thesis by (rule readyI)
qed

lemma flush_vacant:
  assumes t: "tracks R cl b em [] h s"
  obtains em' h' where "flush_register_window R em = Some em'" "emitted cl b (code em') h'" "vacant em'" "agrees s (cpu h')" "sr (cpu h') 0 = 0"
    "same_shape em em'" "same_env h h'" "jit_regs h' = jit_regs h" "grows em em'"
proof (rule flush_register_window_tracks [OF t])
  fix em' and h' :: host
  assume f: "flush_register_window R em = Some em'" "tracks R cl b em' [] h' s" "\<And>j r. \<not> holds em' j r"
    "\<And>r. r \<le> 32 \<Longrightarrow> sr (cpu h') r = sr s r" "same_shape em em'" "same_env h h'" "jit_regs h' = jit_regs h"
  have rep: "represents R em' [] h' s" using f(2) by (rule tracks_represents)
  have "vacant em'"
    unfolding vacant_def
  proof (intro allI impI)
    fix i assume i: "i < length (entries em')"
    have "\<not> is_live (entries em' ! i)" using f(3) [of i "mips_register (entries em' ! i)"] i by (simp add: holds_def)
    then show "\<not> is_live (entries em' ! i) \<and> num_locks (entries em' ! i) = 0" using rep i by (auto simp: represents_def entry_ok_def)
  qed
  moreover have "(cpu h')\<lparr>sr := sr s\<rparr> = s" "sr (cpu h') 0 = 0" using rep by (simp_all add: represents_def)
  moreover from this have "s\<lparr>sr := sr (cpu h')\<rparr> = cpu h'" by (metis CPUState.surjective CPUState.update_convs(5))
  then have "agrees s (cpu h')" using f(4) by (simp add: agrees_def)
  ultimately show thesis using that [OF f(1) tracks_emitted [OF f(2)]] f(5-7) grows_flush(1) [OF f(1) grows_refl] by simp
qed

section \<open>Exits\<close>

definition pending_slot :: "CPUState \<Rightarrow> u32 option" where
  "pending_slot s = (if has_delay_slot s \<noteq> 0 then Some (branch_target s) else None)"

text \<open>Where a run of compiled code has arrived.\<close>

fun arrives :: "thunk \<Rightarrow> host \<Rightarrow> machine \<Rightarrow> bool" where
  "arrives enter_thunk h (Running pc' slot gl s) \<longleftrightarrow> pc' = ucast (jit_regs h JIT_REGISTER_NEXT_PC) AND 0xffc \<and>
     slot = pending_slot (cpu h) \<and> gl = globals h \<and> follows s (cpu h) \<and> sr (cpu h) 0 = 0"
| "arrives return_thunk h (Stopped mode pc' gl s) \<longleftrightarrow> pc' = ucast (jit_regs h JIT_REGISTER_NEXT_PC) AND 0xffc \<and>
     mode_word mode = jit_regs h JIT_REGISTER_MODE \<and> gl = globals h \<and> follows s (cpu h) \<and> sr (cpu h) 0 = 0 \<and> has_delay_slot (cpu h) = 0"
| "arrives _ _ _ = False"

lemma scast32_zero [simp]: "scast (x :: u32) = (0 :: u64) \<longleftrightarrow> x = 0"
proof
  assume "scast x = (0 :: u64)"
  then have "ucast (scast x :: u64) = (0 :: u32)" by simp
  then show "x = 0" by simp
qed simp

lemma and_ffc [simp]: "x AND 0xffc AND 0xffc = x AND 0xffc" for x :: u32
  by (simp add: and.assoc)

lemma exit_pc_32 [simp]: "ucast (exit_pc pc') = (pc' + 4) AND 0xffc"
  by (simp add: exit_pc_def)

lemma exit_dynamic_runs:
  assumes e: "emitted cl b (code em) h"
  obtains h' where "runs cl b (code (jit_exit_dynamic pc' info first em)) (Jumps return_thunk h')" "jit_regs h' JIT_REGISTER_MODE = jit_regs h JIT_REGISTER_MODE"
    "globals h' = globals h" "cpu h' = (if first then (cpu h)\<lparr>has_delay_slot := 0\<rparr> else cpu h)"
    "ucast (jit_regs h' JIT_REGISTER_NEXT_PC) AND 0xffc = next_pc pc' (if first then pending_slot (cpu h) else slot_of info h (cpu h))"
proof -
  note simps = jit_exit_dynamic_def emit_node_def Let_def get_field_def put_field_def next_pc_def pending_slot_def slot_of_def branch_to_def
  obtain tail where tail: "code (jit_exit_dynamic pc' info first em) = code em @ tail" using grows_exit_dynamic [OF grows_refl] unfolding grows_def by blast
  obtain h' where h': "exec cl tail h = Jumps return_thunk h'" "jit_regs h' JIT_REGISTER_MODE = jit_regs h JIT_REGISTER_MODE"
    "globals h' = globals h" "cpu h' = (if first then (cpu h)\<lparr>has_delay_slot := 0\<rparr> else cpu h)"
    "ucast (jit_regs h' JIT_REGISTER_NEXT_PC) AND 0xffc = next_pc pc' (if first then pending_slot (cpu h) else slot_of info h (cpu h))"
  proof (cases first)
    case True
    then show thesis using that tail by (cases "has_delay_slot (cpu h) = 0") (auto simp: simps)
  next
    case False
    then show thesis using that tail
      by (cases "branch info"; cases "indirect info"; cases "conditional info"; cases "sr (cpu h) COND_BRANCH_TAKEN = 0") (auto simp: simps)
  qed
  then show thesis using that runs_append [OF e, of tail] tail by simp
qed

section \<open>One instruction of any kind\<close>

definition info_of :: "u32 \<Rightarrow> u32 \<Rightarrow> bool \<Rightarrow> InstructionInfo" where
  "info_of pc' instr next_target =
     (if is_branch instr then branch_info pc' instr next_target else if is_break instr then no_info\<lparr>handles_delay_slot := True\<rparr> else no_info)"

text \<open>Code that runs through: it leaves the branch that is pending alone, or saves it.\<close>

definition passed :: "nat \<Rightarrow> clobber \<Rightarrow> jit_op list \<times> host \<Rightarrow> emitter \<Rightarrow> InstructionInfo \<Rightarrow> host \<Rightarrow> CPUState \<Rightarrow> InstructionInfo \<Rightarrow>
    host \<Rightarrow> CPUState \<Rightarrow> bool" where
  "passed R cl b em' prev h s info h' s' \<longleftrightarrow> tracks R cl b em' [] h' s' \<and> has_delay_slot s' = has_delay_slot s \<and>
     branch_target s' = branch_target s \<and> (branch info \<longrightarrow> saved_slot prev h s h') \<and> (\<not> branch info \<longrightarrow> slot_of prev h' s' = slot_of prev h s)"

definition executes :: "target \<Rightarrow> (CPUState \<Rightarrow> CPUState) \<Rightarrow> (nat \<Rightarrow> u32) \<Rightarrow> nat \<Rightarrow> clobber \<Rightarrow> jit_op list \<times> host \<Rightarrow> emitter \<Rightarrow> InstructionInfo \<Rightarrow>
    host \<Rightarrow> CPUState \<Rightarrow> InstructionInfo \<Rightarrow> u32 \<Rightarrow> u32 option \<Rightarrow> CPUState \<Rightarrow> bool" where
  "executes t rdp mem R cl b em' prev h s info pc' slot \<sigma> \<longleftrightarrow>
     (\<exists>h' s' \<sigma>'. passed R cl b em' prev h s info h' s' \<and> follows \<sigma>' s' \<and>
        machine_step t rdp mem (Running pc' slot (globals h) \<sigma>) = Running (next_pc pc' slot) (slot_of info h' s') (globals h') \<sigma>') \<or>
     (\<exists>h'. runs cl b (code em') (Jumps return_thunk h') \<and> arrives return_thunk h' (machine_step t rdp mem (Running pc' slot (globals h) \<sigma>)))"

lemma slot_of_no_info [simp]: "slot_of no_info h s = None" "slot_of (no_info\<lparr>handles_delay_slot := d\<rparr>) h s = None"
  by (simp_all add: slot_of_def no_info_def)

lemma no_info_simps [simp]: "\<not> branch no_info" "\<not> handles_delay_slot no_info"
  by (simp_all add: no_info_def)

lemma executes_passes:
  assumes "tracks R cl b em' [] h' s'" "same_env h h'" "same_slot s s'" "\<not> branch info" "follows \<sigma>' s'"
    "machine_step t rdp mem (Running pc' slot (globals h) \<sigma>) = Running (next_pc pc' slot) None (globals h) \<sigma>'"
  shows "executes t rdp mem R cl b em' prev h s info pc' slot \<sigma>"
proof -
  have "passed R cl b em' prev h s info h' s'"
    using assms(1-4) slot_of_env [OF assms(2)] by (simp add: passed_def same_slot_def)
  moreover have "slot_of info h' s' = None" using assms(4) by (simp add: slot_of_def)
  moreover have "globals h' = globals h" using assms(2) by (simp add: same_env_def)
  ultimately show ?thesis using assms(5,6) unfolding executes_def by metis
qed

lemma falls_through_machine:
  assumes "falls_through instr \<or> unat (drop_bit 26 instr) = 1 \<and> \<not> is_branch instr" "mem (unat pc' div 4) = instr"
  shows "machine_step t rdp mem (Running pc' slot gl \<sigma>) = Running (next_pc pc' slot) None gl (mips_step t instr \<sigma>)"
proof -
  have "\<not> is_break instr" "unat (drop_bit 26 instr) \<noteq> 16" "\<not> is_branch instr"
    using assms(1) by (auto simp: falls_through_def is_break_def is_branch_def Let_def)
  then show ?thesis using assms(2) by (simp add: Let_def)
qed

lemma mode_word_continue: "mode_word mode = mode_word MODE_CONTINUE \<longleftrightarrow> mode = MODE_CONTINUE"
  by (cases mode) simp_all

lemma exit_arrives:
  assumes e: "emitted cl b (code em) h" and m: "jit_regs h JIT_REGISTER_MODE = mode_word mode" and f: "follows \<sigma> (cpu h)" and zero: "sr (cpu h) 0 = 0"
    and d: "\<not> first \<Longrightarrow> has_delay_slot (cpu h) = 0" and slot: "slot = (if first then pending_slot (cpu h) else slot_of prev h (cpu h))"
  obtains h' where "runs cl b (code (jit_exit_dynamic pc' prev first em)) (Jumps return_thunk h')"
    "arrives return_thunk h' (Stopped mode (next_pc pc' slot) (globals h) \<sigma>)"
proof (rule exit_dynamic_runs [OF e, of pc' prev first])
  fix h' assume "runs cl b (code (jit_exit_dynamic pc' prev first em)) (Jumps return_thunk h')" "jit_regs h' JIT_REGISTER_MODE = jit_regs h JIT_REGISTER_MODE"
    "globals h' = globals h" "cpu h' = (if first then (cpu h)\<lparr>has_delay_slot := 0\<rparr> else cpu h)"
    "ucast (jit_regs h' JIT_REGISTER_NEXT_PC) AND 0xffc = next_pc pc' (if first then pending_slot (cpu h) else slot_of prev h (cpu h))"
  then show thesis using that [of h'] m f zero d slot by auto
qed

lemma break_executes:
  assumes t: "tracks R cl b em [] h s" and f: "follows \<sigma> s" and d: "\<not> first \<Longrightarrow> has_delay_slot s = 0"
    and slot: "slot = (if first then pending_slot s else slot_of prev h s)" and instr: "is_break (mem (unat pc' div 4))"
  obtains em' where "jit_exit R pc' prev MODE_BREAK first em = Some em'" "vacant em'" "grows em em'"
    "executes t rdp mem R cl b em' prev h s info pc' slot \<sigma>"
proof (rule flush_vacant [OF t])
  fix em1 and h1 :: host
  assume fl: "flush_register_window R em = Some em1" "emitted cl b (code em1) h1" "vacant em1" "agrees s (cpu h1)" "sr (cpu h1) 0 = 0"
    "same_env h h1" "grows em em1"
  let ?op = "jit_movi JIT_REGISTER_MODE (mode_word MODE_BREAK)" and ?h = "put_reg JIT_REGISTER_MODE (mode_word MODE_BREAK) h1"
  have e: "emitted cl b (code (emit ?op em1)) ?h" using exec_emit [OF fl(2), of ?op] by simp
  have same: "same_slot s (cpu h1)" using agrees_same_slot [OF fl(4)] .
  have "slot_of prev ?h (cpu ?h) = slot_of prev h s" using same fl(6) by (simp add: slot_of_def branch_to_def same_slot_def same_env_def)
  then have sl: "slot = (if first then pending_slot (cpu ?h) else slot_of prev ?h (cpu ?h))" using slot same by (simp add: pending_slot_def same_slot_def)
  have fo: "follows \<sigma> (cpu ?h)" and dd: "\<not> first \<Longrightarrow> has_delay_slot (cpu ?h) = 0"
    using follows_agrees [OF f fl(4)] d same by (simp_all add: same_slot_def)
  have m: "jit_regs ?h JIT_REGISTER_MODE = mode_word MODE_BREAK" and z: "sr (cpu ?h) 0 = 0" using fl(5) by simp_all
  obtain h' where h': "runs cl b (code (jit_exit_dynamic pc' prev first (emit ?op em1))) (Jumps return_thunk h')"
    "arrives return_thunk h' (Stopped MODE_BREAK (next_pc pc' slot) (globals ?h) \<sigma>)"
    by (rule exit_arrives [OF e m fo z dd sl])
  have "machine_step t rdp mem (Running pc' slot (globals h) \<sigma>) = Stopped MODE_BREAK (next_pc pc' slot) (globals ?h) \<sigma>"
    using instr fl(6) by (simp add: same_env_def)
  then have "executes t rdp mem R cl b (jit_exit_dynamic pc' prev first (emit ?op em1)) prev h s info pc' slot \<sigma>"
    using h' unfolding executes_def by metis
  moreover have "vacant (jit_exit_dynamic pc' prev first (emit ?op em1))"
    using fl(3) by (simp add: jit_exit_dynamic_def emit_node_def Let_def)
  ultimately show thesis using that fl(1) grows_exit [of R pc' prev MODE_BREAK first em _ em] by (simp add: jit_exit_def)
qed

lemma cop0_call_executes:
  assumes t: "tracks R cl b em [] h s" and f: "follows \<sigma> s" and d: "\<not> first \<Longrightarrow> has_delay_slot s = 0" and rdp: "scalar_free rdp"
    and slot: "slot = (if first then pending_slot s else slot_of prev h s)" and instr: "unat (drop_bit 26 (mem (unat pc' div 4))) = 16"
    and g: "\<And>gl s. g gl s packed = mips_cop0 rdp (mem (unat pc' div 4)) gl s"
  obtains em' where "do {
            em \<leftarrow> flush_register_window R em;
            let em = emit (jit_finishi (Cp0_handler g packed) []) em;
            let em = emit (jit_retval JIT_REGISTER_MODE) em;
            let (noexit, em) = emit_node (jit_beqi JIT_REGISTER_MODE (mode_word MODE_CONTINUE)) em;
            let em = jit_exit_dynamic pc' prev first em;
            Some (emit (jit_patch noexit) em)
          } = Some em'" "vacant em'" "executes t rdp mem R cl b em' prev h s no_info pc' slot \<sigma>"
proof (rule flush_vacant [OF t])
  fix em1 and h1 :: host
  assume fl: "flush_register_window R em = Some em1" "emitted cl b (code em1) h1" "vacant em1" "agrees s (cpu h1)" "sr (cpu h1) 0 = 0"
    "same_env h h1"
  let ?instr = "mem (unat pc' div 4)"
  let ?call = "jit_finishi (Cp0_handler g packed) []" and ?ret = "jit_retval JIT_REGISTER_MODE"
  have f1: "follows \<sigma> (cpu h1)" using follows_agrees [OF f fl(4)] .
  obtain gl' \<sigma>' mode where m: "mips_cop0 rdp ?instr (globals h) \<sigma> = (gl', \<sigma>', mode)" by (metis prod_cases3)
  have gl: "globals h1 = globals h" using fl(6) by (simp add: same_env_def)
  from cop0_respects [OF rdp f1, of ?instr "globals h"] m fl(5) obtain s1 where s1: "mips_cop0 rdp ?instr (globals h) (cpu h1) = (gl', s1, mode)"
    "follows \<sigma>' s1" "same_slot (cpu h1) s1" "sr s1 0 = 0" by auto
  define h2 where "h2 = put_reg JIT_REGISTER_MODE (mode_word mode) (clobbered cl (h1\<lparr>cpu := s1, ret_value := mode_word mode, globals := gl'\<rparr>))"
  have h2: "cpu h2 = s1" "globals h2 = gl'" "jit_regs h2 JIT_REGISTER_MODE = mode_word mode" "jit_regs h2 (JIT_V k) = jit_regs h1 (JIT_V k)" "frame h2 = frame h1" for k
    by (simp_all add: h2_def)
  have "emitted cl b (code (emit ?ret (emit ?call em1))) h2"
    using exec_emit [OF exec_emit [OF fl(2), of ?call], of ?ret] by (simp add: call_def g gl s1(1) h2_def)
  moreover define em2 where "em2 = emit ?ret (emit ?call em1)"
  ultimately have e2: "emitted cl b (code em2) h2" and v2: "vacant em2" using fl(3) by simp_all
  let ?br = "jit_beqi JIT_REGISTER_MODE (mode_word MODE_CONTINUE) (nodes em2)"
  let ?em3 = "(emit ?br em2)\<lparr>nodes := nodes em2 + 1\<rparr>"
  let ?em4 = "jit_exit_dynamic pc' prev first ?em3"
  have same: "same_slot s s1" using same_slot_trans [OF agrees_same_slot [OF fl(4)] s1(3)] .
  have slots: "slot_of prev h2 s1 = slot_of prev h s" using same fl(6) h2(4) [of 2]
    by (simp add: slot_of_def branch_to_def same_slot_def same_env_def)
  have step: "machine_step t rdp mem (Running pc' slot (globals h) \<sigma>) =
      (if mode = MODE_CONTINUE then Running (next_pc pc' slot) None gl' \<sigma>' else Stopped mode (next_pc pc' slot) gl' \<sigma>')"
  proof -
    have "\<not> is_break ?instr" using instr by (auto simp: is_break_def)
    then show ?thesis using instr m by simp
  qed
  have v: "vacant (emit (jit_patch (nodes em2)) ?em4)" using v2 by (simp add: jit_exit_dynamic_def emit_node_def Let_def)
  have "executes t rdp mem R cl b (emit (jit_patch (nodes em2)) ?em4) prev h s no_info pc' slot \<sigma>"
  proof (cases "mode = MODE_CONTINUE")
    case True
    obtain tail where tail: "code ?em4 = code ?em3 @ tail" "jit_patch (nodes em2) \<notin> set tail"
      using grows_exit_dynamic [OF grows_refl, of ?em3 pc' prev first] unfolding grows_def by force
    have "exec cl (?br # tail @ [jit_patch (nodes em2)]) h2 = Falls h2"
      using skip_code [OF tail(2), of "[jit_patch (nodes em2)]"] h2(3) True by simp
    then have "emitted cl b (code (emit (jit_patch (nodes em2)) ?em4)) h2"
      using emitted_append [OF e2, of "?br # tail @ [jit_patch (nodes em2)]"] tail(1) by simp
    then have t2: "tracks R cl b (emit (jit_patch (nodes em2)) ?em4) [] h2 s1"
      using vacant_represents [OF v, of h2 R] s1(4) h2(1) by (simp add: tracks_def)
    then have "passed R cl b (emit (jit_patch (nodes em2)) ?em4) prev h s no_info h2 s1"
      using same slots by (simp add: passed_def same_slot_def)
    then show ?thesis using step True s1(2) h2(2) unfolding executes_def by (metis slot_of_no_info(1))
  next
    case False
    have "exec cl [?br] h2 = Falls h2" using False h2(3) mode_word_continue by simp
    then have e3: "emitted cl b (code ?em3) h2" using emitted_append [OF e2, of "[?br]"] by simp
    have dd: "\<not> first \<Longrightarrow> has_delay_slot (cpu h2) = 0" using d same h2(1) by (simp add: same_slot_def)
    have sl: "slot = (if first then pending_slot (cpu h2) else slot_of prev h2 (cpu h2))"
      using slot slots same h2(1) by (simp add: pending_slot_def same_slot_def)
    obtain h' where "runs cl b (code ?em4) (Jumps return_thunk h')" "arrives return_thunk h' (Stopped mode (next_pc pc' slot) (globals h2) \<sigma>')"
      using exit_arrives [OF e3 h2(3) _ _ dd sl, of \<sigma>'] h2(1) s1(2,4) by auto
    then show ?thesis using step False h2(2) runs_Jumps [of cl b "code ?em4" return_thunk h' "[jit_patch (nodes em2)]"]
      unfolding executes_def by (simp only: emit_simps if_False) metis
  qed
  then show thesis using that [of "emit (jit_patch (nodes em2)) ?em4"] fl(1) v by (simp add: emit_node_def em2_def)
qed

lemma jit_instruction_branch:
  assumes "is_branch instr \<or> unat (drop_bit 26 instr) = 1"
  shows "jit_instruction t rdp R pc' instr prev first nt em = jit_branch R pc' instr prev nt em"
proof -
  let ?ty = "unat (drop_bit 26 instr)" and ?f = "unat (instr AND 63)"
  have ty: "?ty \<in> {0, 1, 2, 3, 4, 5, 6, 7}" "?ty = 0 \<Longrightarrow> ?f = 8 \<or> ?f = 9"
    using assms by (auto simp: is_branch_def Let_def)
  then have "\<not> is_vu_instruction instr" using vu_type [of instr] by auto
  moreover have "immediate_alu ?ty instr = None" using ty(1) immediate_alu_iff [of ?ty instr] by auto
  moreover have "memory_op ?ty = None" using ty(1) memory_op_iff [of ?ty] by auto
  moreover have "?ty = 0 \<Longrightarrow> special_alu ?f = None" using ty(2) special_alu_iff [of ?f] by auto
  moreover have "\<not> (?ty = 0 \<and> ?f = 13)" "?ty \<noteq> 16" "?ty \<noteq> 18" "?ty \<noteq> 50" "?ty \<noteq> 58" using ty by auto
  ultimately show ?thesis unfolding jit_instruction_def Let_def by auto
qed

lemma instruction_kinds:
  "falls_through instr \<or> is_branch instr \<or> is_break instr \<or> unat (drop_bit 26 instr) = 16 \<or> unat (drop_bit 26 instr) = 1 \<and> \<not> is_branch instr"
proof (cases "falls_through instr")
  case False
  define ty f where "ty = unat (drop_bit 26 instr)" "f = unat (instr AND 63)"
  have eq: "drop_bit 26 instr = 0 \<longleftrightarrow> ty = 0" "instr AND 63 = 13 \<longleftrightarrow> f = 13" by (simp_all add: ty_f_def word_unat_eq_iff)
  have "ty \<in> {1, 2, 3, 4, 5, 6, 7, 16} \<or> ty = 0 \<and> f \<in> {8, 9, 13}" using False by (simp add: falls_through_def Let_def ty_f_def)
  then show ?thesis unfolding is_branch_def is_break_def Let_def eq ty_f_def [symmetric] by auto
qed simp

lemma instruction_executes:
  assumes tr: "tracks R cl b em [] h s" and n: "3 \<le> length (entries em)" and R: "R \<le> length (entries em)" and f: "follows \<sigma> s"
    and d: "\<not> first \<Longrightarrow> has_delay_slot s = 0" and slot: "slot = (if first then pending_slot s else slot_of prev h s)"
    and rdp: "scalar_free rdp" and instr: "mem (unat pc' div 4) = instr"
  obtains em' where "jit_instruction t rdp R pc' instr prev first nt em = Some (info_of pc' instr nt, em')" "ready R em'" "grows em em'"
    "executes t rdp mem R cl b em' prev h s (info_of pc' instr nt) pc' slot \<sigma>"
proof -
  let ?ty = "unat (drop_bit 26 instr)" and ?f = "unat (instr AND 63)"
  let ?j = "jit_instruction t rdp R pc' instr prev first nt em"
  have grows: "grows em em'" if "?j = Some (i, em')" for i em' by (rule grows_instruction [OF that grows_refl])
  note found = that
  have idle: thesis if "?j = Some (no_info, em)" "info_of pc' instr nt = no_info"
      "machine_step t rdp mem (Running pc' slot (globals h) \<sigma>) = Running (next_pc pc' slot) None (globals h) \<sigma>"
    by (rule found [of em], unfold that(2))
      (use that readyI [OF tracks_represents [OF tr]] executes_passes [OF tr same_env_refl same_slot_refl no_info_simps(1) f] in simp_all)
  consider (falls) "falls_through instr" | (branch) "is_branch instr" | (break) "is_break instr" | (cop0) "?ty = 16" | (type1) "?ty = 1" "\<not> is_branch instr"
    using instruction_kinds [of instr] by blast
  then show thesis
  proof cases
    case falls
    have nb: "\<not> is_branch instr" "\<not> is_break instr" using falls by (auto simp: falls_through_def is_branch_def is_break_def Let_def)
    obtain em' h' s' where c: "?j = Some (no_info, em')" "tracks R cl b em' [] h' s'" "same_env h h'" "agrees (mips_step t instr s) s'"
      using instruction_tracks [OF tr n R falls, of t rdp pc' prev first nt] by (auto simp: computes_def)
    have st: "follows (mips_step t instr \<sigma>) (mips_step t instr s)" "same_slot s (mips_step t instr s)"
      using transparent_step f by (simp_all add: transparent_def)
    have i: "info_of pc' instr nt = no_info" using nb by (simp add: info_of_def)
    show thesis
      by (rule that [of em'], unfold i)
        (use c grows readyI [OF tracks_represents [OF c(2)]] executes_passes [OF c(2,3) same_slot_trans [OF st(2) agrees_same_slot [OF c(4)]] _
            follows_agrees [OF st(1) c(4)] falls_through_machine [where mem = mem, OF disjI1 [OF falls] instr]] in simp_all)
  next
    case branch
    have i: "info_of pc' instr nt = branch_info pc' instr nt" using branch by (simp add: info_of_def)
    have j: "?j = jit_branch R pc' instr prev nt em" using branch by (intro jit_instruction_branch) simp
    have nb: "\<not> is_break instr" "?ty \<noteq> 16" using branch by (auto simp: is_branch_def is_break_def Let_def)
    have m: "machine_step t rdp mem (Running pc' slot gl \<sigma>) = Running (next_pc pc' slot) (fst (mips_branch pc' instr \<sigma>)) gl (snd (mips_branch pc' instr \<sigma>))" for gl
      using nb branch instr by (simp add: Let_def split_beta)
    obtain em' h' s' where c: "?j = Some (branch_info pc' instr nt, em')" "tracks R cl b em' [] h' s'" "globals h' = globals h"
      "saved_slot prev h s h'" "follows (snd (mips_branch pc' instr \<sigma>)) s'" "has_delay_slot s' = has_delay_slot s" "branch_target s' = branch_target s"
      "slot_of (branch_info pc' instr nt) h' s' = fst (mips_branch pc' instr \<sigma>)"
      using branch_tracks [OF branch f tr n, of prev pc' nt] by (auto simp: remembers_def j)
    show thesis
    proof (cases "branch (branch_info pc' instr nt)")
      case True
      have "passed R cl b em' prev h s (branch_info pc' instr nt) h' s'" using c True by (simp add: passed_def)
      then have "executes t rdp mem R cl b em' prev h s (branch_info pc' instr nt) pc' slot \<sigma>"
        using c m [of "globals h"] unfolding executes_def by metis
      then show thesis using that [of em'] c(1,2) grows readyI [OF tracks_represents [OF c(2)]] unfolding i by blast
    next
      case False
      then have z: "?ty = 7" "rs_of instr = 0" "branch_info pc' instr nt = no_info"
        using branch by (auto simp: branch_info_def is_branch_def taken_to_def no_info_def Let_def split: if_splits)
      obtain em1 h1 where fl: "flush_impossible_delay_slot R prev em = Some em1" "tracks R cl b em1 [] h1 s" "globals h1 = globals h"
        "\<And>k. k < 3 \<Longrightarrow> jit_regs h1 (JIT_V k) = jit_regs h (JIT_V k)"
        by (rule flush_impossible_tracks [OF tr n, of prev]) blast
      have "slot_of prev h1 s = slot_of prev h s" using fl(4) [of 2] by (simp add: slot_of_def branch_to_def)
      then have "passed R cl b em1 prev h s no_info h1 s" using fl(2) by (simp add: passed_def)
      moreover have "sr \<sigma> 0 = 0" using tr follows_sr(1) [OF f, of 0] by (simp add: tracks_def represents_def)
      then have "mips_branch pc' instr \<sigma> = (None, \<sigma>)" using z by (simp add: mips_branch_def Let_def)
      ultimately have "executes t rdp mem R cl b em1 prev h s no_info pc' slot \<sigma>"
        using m [of "globals h"] fl(3) f unfolding executes_def by (metis fst_conv slot_of_no_info(1) snd_conv)
      moreover have "?j = Some (no_info, em1)" using z fl(1) by (simp add: j jit_branch_def Let_def)
      ultimately show thesis using that [of em1] grows readyI [OF tracks_represents [OF fl(2)]] unfolding i z(3) by blast
    qed
  next
    case break
    have i: "info_of pc' instr nt = no_info\<lparr>handles_delay_slot := True\<rparr>" using break by (auto simp: info_of_def is_break_def is_branch_def Let_def)
    have ty: "?ty = 0" "?f = 13" using break by (simp_all add: is_break_def)
    then have "\<not> is_vu_instruction instr" using vu_type [of instr] by auto
    then have j: "?j = map_option (\<lambda>em. (no_info\<lparr>handles_delay_slot := True\<rparr>, em)) (jit_exit R pc' prev MODE_BREAK first em)"
      using ty by (simp add: jit_instruction_def Let_def)
    obtain em' where e: "jit_exit R pc' prev MODE_BREAK first em = Some em'" "vacant em'" "grows em em'"
      "executes t rdp mem R cl b em' prev h s (no_info\<lparr>handles_delay_slot := True\<rparr>) pc' slot \<sigma>"
      by (rule break_executes [OF tr f d slot, of mem pc' t rdp]) (use break instr in auto)
    show thesis using that [of em', unfolded i] e j vacant_ready by simp
  next
    case cop0
    have i: "info_of pc' instr nt = no_info" using cop0 by (auto simp: info_of_def is_break_def is_branch_def Let_def)
    have "\<not> is_vu_instruction instr" "immediate_alu 16 instr = None" using cop0 vu_type [of instr] immediate_alu_iff [of 16 instr] by auto
    then have j: "?j = map_option (\<lambda>em. (no_info, em)) (jit_cop0 rdp R pc' instr prev first em)"
      using cop0 by (simp add: jit_instruction_def Let_def)
    have g: "run_packed_mfc0 gl s (pack_cp (rt_of instr) (rd_of instr) 0) = RSP_MFC0 gl s (rt_of instr) (rd_of instr)"
      "run_packed_mtc0 rdp gl s (pack_cp (rt_of instr) (rd_of instr) 0) = RSP_MTC0 rdp gl s (rd_of instr) (rt_of instr)" for gl s
      by (simp_all add: run_packed_mfc0_def run_packed_mtc0_def unpack_pack_cp)
    have ty: "unat (drop_bit 26 (mem (unat pc' div 4))) = 16" using cop0 instr by simp
    consider (mfc0) "rs_of instr = 0" | (mtc0) "rs_of instr = 4" | (none) "rs_of instr \<noteq> 0" "rs_of instr \<noteq> 4" by blast
    then show thesis
    proof cases
      case mfc0
      show thesis
        by (rule cop0_call_executes [where mem = mem, OF tr f d rdp slot ty, of run_packed_mfc0 "pack_cp (rt_of instr) (rd_of instr) 0"])
          (use mfc0 instr g j found i grows vacant_ready in \<open>simp_all add: mips_cop0_def jit_cop0_def\<close>)
    next
      case mtc0
      show thesis
        by (rule cop0_call_executes [where mem = mem, OF tr f d rdp slot ty, of "\<lambda>gl s v. case run_packed_mtc0 rdp gl s v of (s, mode) \<Rightarrow> (gl, s, mode)"
            "pack_cp (rt_of instr) (rd_of instr) 0"])
          (use mtc0 instr g j found i grows vacant_ready in \<open>simp_all add: mips_cop0_def jit_cop0_def split_beta\<close>)
    next
      case none
      show thesis
      proof (rule idle [OF _ i])
        have "\<not> is_break instr" using cop0 by (auto simp: is_break_def)
        then show "machine_step t rdp mem (Running pc' slot (globals h) \<sigma>) = Running (next_pc pc' slot) None (globals h) \<sigma>"
          using cop0 instr none by (simp add: mips_cop0_def Let_def)
      qed (use none j in \<open>simp add: jit_cop0_def Let_def\<close>)
    qed
  next
    case type1
    show thesis
    proof (rule idle)
      show "?j = Some (no_info, em)" unfolding jit_instruction_branch [OF disjI2 [OF type1(1)]]
        using type1 by (auto simp: jit_branch_def is_branch_def Let_def)
      show "info_of pc' instr nt = no_info" using type1 by (auto simp: info_of_def is_break_def)
      have "\<not> is_vu_instruction instr" using type1 vu_type [of instr] by auto
      then have "mips_step t instr \<sigma> = \<sigma>" using type1 by (simp add: mips_step_def Let_def)
      then show "machine_step t rdp mem (Running pc' slot (globals h) \<sigma>) = Running (next_pc pc' slot) None (globals h) \<sigma>"
        using falls_through_machine [where mem = mem, OF disjI2 [OF conjI [OF type1]] instr] by simp
    qed
  qed
qed

end
