(* ===== verification/Jit_Delay.thy ===== *)
theory Jit_Delay
  imports Jit_Ends
begin

unbundle bit_operations_syntax

text \<open>
  Correctness of the code that resolves branches (\<open>jit_handle_delay_slot\<close>, \<open>jit_handle_impossible_delay_slot\<close>,
  \<open>jit_handle_latent_delay_slot\<close> and \<open>jit_end_of_block\<close> of \<open>rsp_jit.cpp\<close>): each makes the branch that is pending and hands on the one that
  becomes pending.
\<close>

section \<open>States at the ends of code\<close>

text \<open>A state in memory, with no branch pending in it.\<close>

definition settled :: "CPUState \<Rightarrow> cp0_host \<Rightarrow> host \<Rightarrow> bool" where
  "settled \<sigma> gl h \<longleftrightarrow> follows \<sigma> (cpu h) \<and> sr (cpu h) 0 = 0 \<and> has_delay_slot (cpu h) = 0 \<and> globals h = gl"

lemma settled_put_reg [simp]: "settled \<sigma> gl (put_reg r v h) = settled \<sigma> gl h"
  by (simp add: settled_def)

text \<open>Code that may also record local branches.\<close>

definition extends :: "emitter \<Rightarrow> emitter \<Rightarrow> bool" where
  "extends em em' \<longleftrightarrow> grows em (em'\<lparr>local_branches := local_branches em\<rparr>)"

lemma grows_extends: "grows em em' \<Longrightarrow> extends em em'"
  by (auto simp: grows_def extends_def)

lemma extends_trans: "extends a b \<Longrightarrow> extends b c \<Longrightarrow> extends a c"
proof -
  assume a: "extends a b" "extends b c"
  have "grows (b\<lparr>local_branches := local_branches a\<rparr>) (c\<lparr>local_branches := local_branches a\<rparr>)" using a(2) by (simp add: extends_def grows_def)
  then show ?thesis using a(1) grows_trans unfolding extends_def by blast
qed

lemma move_target_code: "jit_move_target info r em = emit (if indirect info then jit_movr r JIT_REGISTER_INDIRECT_PC
    else jit_movi r (ucast (info_branch_target info))) em"
  by (simp add: jit_move_target_def)

lemma move_target_exec: "exec_op cl (if indirect info then jit_movr r JIT_REGISTER_INDIRECT_PC else jit_movi r (ucast (info_branch_target info))) h =
    put_reg r (if indirect info then jit_regs h JIT_REGISTER_INDIRECT_PC else ucast (info_branch_target info)) h"
  "plain (if indirect info then jit_movr r JIT_REGISTER_INDIRECT_PC else jit_movi r (ucast (info_branch_target info)))"
  "unmarked (if indirect info then jit_movr r JIT_REGISTER_INDIRECT_PC else jit_movi r (ucast (info_branch_target info)))"
  "ucast (if indirect info then jit_regs h JIT_REGISTER_INDIRECT_PC else ucast (info_branch_target info)) = branch_to info h"
  by (simp_all add: branch_to_def)

section \<open>The normal delay slot\<close>

text \<open>The condition is moved to a scratch register and cleared in its own.\<close>

definition take_cond :: "nat \<Rightarrow> emitter \<Rightarrow> (jit_register \<times> emitter) option" where
  "take_cond R em = do {
     (_, em) \<leftarrow> load_mips_register_noext R COND_BRANCH_TAKEN em;
     (cond_branch_reg, em) \<leftarrow> modify_mips_register R COND_BRANCH_TAKEN em;
     (scratch_cond_reg, em) \<leftarrow> modify_mips_register R SCRATCH_REGISTER0 em;
     let em = emit (jit_movr scratch_cond_reg cond_branch_reg) em;
     let em = emit (jit_movi cond_branch_reg 0) em;
     em \<leftarrow> unlock_all [COND_BRANCH_TAKEN, COND_BRANCH_TAKEN, SCRATCH_REGISTER0] em;
     Some (scratch_cond_reg, em)
   }"

definition clear_cond :: "nat \<Rightarrow> emitter \<Rightarrow> (jit_register \<times> emitter) option" where
  "clear_cond R em = do {
     (cond_branch_reg, em) \<leftarrow> modify_mips_register R COND_BRANCH_TAKEN em;
     let em = emit (jit_movi cond_branch_reg 0) em;
     em \<leftarrow> unlock_mips_register COND_BRANCH_TAKEN em;
     Some (JIT_R 0, em)
   }"

definition leave_slot :: "InstructionInfo \<Rightarrow> u32 \<Rightarrow> u32 \<Rightarrow> jit_register \<Rightarrow> emitter \<Rightarrow> emitter" where
  "leave_slot prev base_pc end_pc r em =
     (let inside = (\<not> indirect prev \<and> info_branch_target prev \<ge> base_pc \<and> info_branch_target prev < end_pc);
          local_index = unat (drop_bit 2 (info_branch_target prev - base_pc));
          leave = (\<lambda>em. emit (jit_patch_abs enter_thunk) (jit_move_target prev JIT_REGISTER_NEXT_PC em))
      in if conditional prev then
         if inside then local_branch (jit_bnei r 0) local_index em
         else let (no_branch, em) = emit_node (jit_beqi r 0) em in emit (jit_patch no_branch) (leave em)
       else if inside then local_branch jit_jmpi local_index em else leave em)"

lemma delay_slot_eq: "jit_handle_delay_slot R prev base_pc end_pc em =
    (if conditional prev then take_cond R em else clear_cond R em) \<bind>
      (\<lambda>(r, em). flush_register_window R em \<bind> (\<lambda>em. Some (leave_slot prev base_pc end_pc r em)))"
  unfolding jit_handle_delay_slot_def take_cond_def clear_cond_def leave_slot_def Let_def by (rule refl)

lemma take_cond_tracks:
  assumes t: "tracks R cl b em [] h s" and n: "3 \<le> length (entries em)"
  obtains k em' h' s' where "take_cond R em = Some (entry_to_jit_register R k, em')"
    "tracks R cl b em' [] h' s'" "agrees (s\<lparr>sr := (sr s)(COND_BRANCH_TAKEN := 0)\<rparr>) s'" "same_env h h'" "grows em em'"
    "jit_regs h' (entry_to_jit_register R k) = 0 \<longleftrightarrow> sr s COND_BRANCH_TAKEN = 0"
proof (rule load_cond_tracks [OF t _ room_empty [OF n]])
  fix i em1 and h1 :: host
  let ?C = COND_BRANCH_TAKEN and ?S = SCRATCH_REGISTER0 and ?reg = "entry_to_jit_register R"
  assume l: "load_mips_register_noext R ?C em = Some (?reg i, em1)" "tracks R cl b em1 [?C] h1 s" "holds em1 i ?C" "same_shape em em1" "same_env h h1"
    "clean (jit_regs h1 (?reg i))" "ucast (jit_regs h1 (?reg i)) = sr s ?C"
  have room1: "card (set [?C]) < length (entries em1)" using n l(4) by (simp add: same_shape_def)
  show thesis
  proof (rule modify_tracks [OF l(2) _ _ room1, of ?C])
    fix j em2 and h2 :: host
    assume m: "modify_mips_register R ?C em1 = Some (?reg j, em2)"
      "tracks R cl b em2 [?C, ?C] h2 (s\<lparr>sr := (sr s)(?C := ucast (jit_regs h2 (?reg j)))\<rparr>)"
      "writable em2 j ?C" "keeps_locked [?C] em1 em2" "same_shape em1 em2" "same_env h1 h2" "jit_regs h2 = jit_regs h1"
    have "holds em2 i ?C" using m(4) l(3) by (simp add: keeps_locked_def)
    moreover have "holds em2 j ?C" using m(3) by (simp add: writable_def)
    ultimately have ij: "j = i" using represents_unique [OF tracks_represents [OF m(2)]] by blast
    have "s\<lparr>sr := (sr s)(?C := ucast (jit_regs h2 (?reg j)))\<rparr> = s" using l(7) m(7) ij by simp
    then have t2: "tracks R cl b em2 [?C, ?C] h2 s" using m(2) by simp
    have room2: "card (set [?C, ?C]) < length (entries em2)" using n l(4) m(5) by (simp add: same_shape_def)
    show thesis
    proof (rule modify_tracks [OF t2 _ _ room2, of ?S])
      fix k em3 and h3 :: host
      let ?v = "jit_regs h1 (?reg i)"
      assume q: "modify_mips_register R ?S em2 = Some (?reg k, em3)"
        "tracks R cl b em3 [?S, ?C, ?C] h3 (s\<lparr>sr := (sr s)(?S := ucast (jit_regs h3 (?reg k)))\<rparr>)"
        "writable em3 k ?S" "same_shape em2 em3" "same_env h2 h3" "jit_regs h3 = jit_regs h2"
        "\<And>j q. q \<in> set [?C, ?C] \<Longrightarrow> writable em2 j q \<Longrightarrow> writable em3 j q"
      have w: "writable em3 j ?C" using q(7) m(3) by simp
      have jk: "j \<noteq> k" using w q(3) by (auto simp: writable_def holds_def)
      let ?mov = "jit_movr (?reg k) (?reg j)" and ?clear = "jit_movi (?reg j) 0"
      let ?em4 = "emit ?mov em3" and ?h4 = "put_reg (?reg k) ?v h3"
      let ?em5 = "emit ?clear ?em4" and ?h5 = "put_reg (?reg j) 0 (put_reg (?reg k) ?v h3)"
      define s4 where "s4 = s\<lparr>sr := (sr s)(?S := ucast ?v)\<rparr>"
      have t4: "tracks R cl b ?em4 [?S, ?C, ?C] ?h4 s4"
        using write_tracks [OF q(2,3), of ?mov ?v] m(7) q(6) ij by (simp add: s4_def)
      have t5: "tracks R cl b ?em5 [?S, ?C, ?C] ?h5 (s4\<lparr>sr := (sr s4)(?C := 0)\<rparr>)"
        using write_tracks [OF t4, of j ?C ?clear 0] w by simp
      have clean: "clean (jit_regs ?h5 (?reg l))" if "holds ?em5 l ?C" for l
        using represents_unique [OF tracks_represents [OF t5] that, of j] w by (simp add: writable_def)
      obtain em6 where u: "unlock_all [?C, ?C, ?S] ?em5 = Some em6" "tracks R cl b em6 [] ?h5 (s4\<lparr>sr := (sr s4)(?C := 0)\<rparr>)"
        using unlock_all_tracks [OF t5, of "[?C, ?C, ?S]"] clean by (auto simp del: unlock_all.simps)
      have "grows em em6"
        using l(1) m(1) q(1) u(1) by (auto simp del: unlock_all.simps intro!: grows_rules elim!: grows_cache)
      moreover have "same_env h ?h5" using same_env_trans [OF same_env_trans [OF l(5) m(6)] q(5)] by (simp add: same_env_def)
      moreover have "agrees (s\<lparr>sr := (sr s)(?C := 0)\<rparr>) (s4\<lparr>sr := (sr s4)(?C := 0)\<rparr>)" by (simp add: s4_def agrees_def)
      moreover have "jit_regs ?h5 (?reg k) = 0 \<longleftrightarrow> sr s ?C = 0" using jk l(6,7) by (auto simp: clean_def)
      ultimately show thesis
        using that [of k em6 ?h5] u l(1) m(1) q(1) by (simp add: take_cond_def del: unlock_all.simps)
    qed simp_all
  qed simp_all
qed simp

lemma clear_cond_tracks:
  assumes t: "tracks R cl b em [] h s" and n: "3 \<le> length (entries em)"
  obtains em' h' where "clear_cond R em = Some (JIT_R 0, em')" "tracks R cl b em' [] h' (s\<lparr>sr := (sr s)(COND_BRANCH_TAKEN := 0)\<rparr>)"
    "same_env h h'" "grows em em'"
proof (rule modify_tracks [OF t _ _ room_empty [OF n], of COND_BRANCH_TAKEN])
  fix i em1 and h1 :: host
  let ?C = COND_BRANCH_TAKEN and ?reg = "entry_to_jit_register R"
  let ?s = "s\<lparr>sr := (sr s)(?C := ucast (jit_regs h1 (?reg i)))\<rparr>"
  assume m: "modify_mips_register R ?C em = Some (?reg i, em1)" "tracks R cl b em1 [?C] h1 ?s" "writable em1 i ?C" "same_env h h1"
  let ?clear = "jit_movi (?reg i) 0" and ?h = "put_reg (?reg i) 0 h1"
  have t1: "tracks R cl b (emit ?clear em1) [?C] ?h (s\<lparr>sr := (sr s)(?C := 0)\<rparr>)"
    using write_tracks [OF m(2,3), of ?clear 0] by simp
  have clean: "clean (jit_regs ?h (?reg l))" if "?C \<in> set [?C]" "holds (emit ?clear em1) l ?C" for l
    using represents_unique [OF tracks_represents [OF t1] that(2), of i] m(3) by (simp add: writable_def)
  obtain em2 where u: "unlock_mips_register ?C (emit ?clear em1) = Some em2" "tracks R cl b em2 [] ?h (s\<lparr>sr := (sr s)(?C := 0)\<rparr>)"
    using unlock_all_tracks [OF t1, of "[?C]"] clean by (auto split: bind_splits)
  have "grows em em2" using m(1) u(1) by (auto intro!: grows_rules elim!: grows_cache)
  then show thesis using that u m(1) same_env_trans [OF m(4)] by (simp add: clear_cond_def)
qed simp_all

text \<open>Where the code after a delay slot continues.\<close>

definition slot_outcome :: "InstructionInfo \<Rightarrow> u32 \<Rightarrow> u32 \<Rightarrow> host \<Rightarrow> CPUState \<Rightarrow> CPUState \<Rightarrow> emitter \<Rightarrow> outcome \<Rightarrow> bool" where
  "slot_outcome prev base_pc end_pc h s \<sigma> em' out \<longleftrightarrow> (case out of
     Falls h' \<Rightarrow> slot_of prev h s = None \<and> settled \<sigma> (globals h) h'
   | Jumps th h' \<Rightarrow> th = enter_thunk \<and> settled \<sigma> (globals h) h' \<and> slot_of prev h s = Some (ucast (jit_regs h' JIT_REGISTER_NEXT_PC))
   | Branches m h' \<Rightarrow> settled \<sigma> (globals h) h' \<and> sr (cpu h') COND_BRANCH_TAKEN = 0 \<and> \<not> indirect prev \<and>
       slot_of prev h s = Some (info_branch_target prev) \<and> base_pc \<le> info_branch_target prev \<and> info_branch_target prev < end_pc \<and>
       (m, unat (drop_bit 2 (info_branch_target prev - base_pc))) \<in> set (local_branches em'))"

lemma delay_slot_runs:
  assumes t: "tracks R cl b em [] h s" and n: "3 \<le> length (entries em)" and br: "branch prev" and d: "has_delay_slot s = 0" and f: "follows \<sigma> s"
  obtains em' out where "jit_handle_delay_slot R prev base_pc end_pc em = Some em'" "vacant em'" "runs cl b (code em') out"
    "slot_outcome prev base_pc end_pc h s \<sigma> em' out"
proof -
  let ?s = "s\<lparr>sr := (sr s)(COND_BRANCH_TAKEN := 0)\<rparr>"
  obtain r em1 h1 s1 where c: "(if conditional prev then take_cond R em else clear_cond R em) = Some (r, em1)" "tracks R cl b em1 [] h1 s1"
    "agrees ?s s1" "same_env h h1" "conditional prev \<Longrightarrow> jit_regs h1 r = 0 \<longleftrightarrow> sr s COND_BRANCH_TAKEN = 0"
  proof (cases "conditional prev")
    case True
    show thesis by (rule take_cond_tracks [OF t n]) (use that True in simp)
  next
    case False
    show thesis by (rule clear_cond_tracks [OF t n]) (use that False in simp)
  qed
  obtain em2 h2 where fl: "flush_register_window R em1 = Some em2" "emitted cl b (code em2) h2" "vacant em2" "agrees s1 (cpu h2)" "sr (cpu h2) 0 = 0"
    "same_env h1 h2" "jit_regs h2 = jit_regs h1"
    by (rule flush_vacant [OF c(2)]) blast
  have a: "agrees ?s (cpu h2)" using agrees_trans [OF c(3) fl(4)] .
  have "follows \<sigma> (cpu h2)" using follows_agrees [OF follows_cond [OF f] a] .
  moreover have "sr (cpu h2) COND_BRANCH_TAKEN = 0" "has_delay_slot (cpu h2) = 0" using a d agrees_same_slot [OF a] by (simp_all add: agrees_def same_slot_def)
  moreover have env: "same_env h h2" using same_env_trans [OF c(4) fl(6)] .
  ultimately have set: "settled \<sigma> (globals h) h2" "sr (cpu h2) COND_BRANCH_TAKEN = 0" using fl(5) by (simp_all add: settled_def same_env_def)
  have target: "branch_to prev h2 = branch_to prev h" using env by (simp add: branch_to_def same_env_def)
  have cond: "conditional prev \<Longrightarrow> jit_regs h2 r = 0 \<longleftrightarrow> sr s COND_BRANCH_TAKEN = 0" using c(5) fl(7) by simp
  have j: "jit_handle_delay_slot R prev base_pc end_pc em = Some (leave_slot prev base_pc end_pc r em2)"
    using c(1) fl(1) by (simp add: delay_slot_eq)
  have v: "vacant (leave_slot prev base_pc end_pc r em2)"
    using fl(3) by (simp add: leave_slot_def local_branch_def emit_node_def Let_def move_target_code)
  have "\<exists>tail. code (leave_slot prev base_pc end_pc r em2) = code em2 @ tail \<and>
      slot_outcome prev base_pc end_pc h s \<sigma> (leave_slot prev base_pc end_pc r em2) (exec cl tail h2)"
    using set cond br target
    by (cases "conditional prev"; cases "sr s COND_BRANCH_TAKEN = 0"; cases "indirect prev";
        cases "info_branch_target prev \<ge> base_pc \<and> info_branch_target prev < end_pc")
      (auto simp: leave_slot_def local_branch_def emit_node_def Let_def jit_move_target_def slot_outcome_def slot_of_def branch_to_def)
  then show thesis using that [OF j v] runs_append [OF fl(2)] by metis
qed

section \<open>A branch in a delay slot\<close>

definition impossible_regs :: "nat \<Rightarrow> emitter \<Rightarrow> (jit_register \<times> jit_register \<times> jit_register \<times> emitter) option" where
  "impossible_regs R em = do {
     (cond_branch_reg, em) \<leftarrow> load_mips_register_noext R COND_BRANCH_TAKEN em;
     (scratch_reg, em) \<leftarrow> modify_mips_register R SCRATCH_REGISTER0 em;
     (illegal_cond_reg, em) \<leftarrow> modify_mips_register R SCRATCH_REGISTER1 em;
     em \<leftarrow> unlock_all [COND_BRANCH_TAKEN, SCRATCH_REGISTER0, SCRATCH_REGISTER1] em;
     em \<leftarrow> flush_register_window R em;
     Some (cond_branch_reg, scratch_reg, illegal_cond_reg, em)
   }"

definition impossible_slot :: "InstructionInfo \<Rightarrow> InstructionInfo \<Rightarrow> jit_register \<Rightarrow> jit_register \<Rightarrow> jit_register \<Rightarrow> emitter \<Rightarrow> emitter" where
  "impossible_slot info prev c x y em =
     (let (nobranch, em) =
       (if conditional prev then
          let em = emit (jit_ldxi_frame y 1) em;
              em = jit_clear_illegal_cond_branch_taken x em
          in emit_node (jit_beqi y 0) em
        else (0, jit_clear_illegal_cond_branch_taken c em));
         em = (if \<not> conditional info then emit (jit_movi c 1) em else em);
         em = emit (jit_stxi_i F_has_delay_slot c) em;
         em = jit_move_target info c em;
         em = emit (jit_stxi_i F_branch_target c) em;
         em = (if indirect prev then emit (jit_ldxi_frame JIT_REGISTER_NEXT_PC 3) em
               else emit (jit_movi JIT_REGISTER_NEXT_PC (ucast (info_branch_target prev))) em);
         em = emit (jit_patch_abs enter_thunk) em
     in if conditional prev then emit (jit_patch nobranch) em else em)"

lemma impossible_slot_eq: "impossible_regs R em = Some (c, x, y, em') \<Longrightarrow>
    jit_handle_impossible_delay_slot R info prev em = Some (impossible_slot info prev c x y em')"
  by (cases "conditional prev") (auto simp: impossible_regs_def jit_handle_impossible_delay_slot_def impossible_slot_def emit_node_def Let_def
      simp del: unlock_all.simps split: bind_splits)

lemma impossible_regs_tracks:
  assumes t: "tracks R cl b em [] h s" and n: "3 \<le> length (entries em)"
  obtains c x y em' h' where "impossible_regs R em = Some (c, x, y, em')" "emitted cl b (code em') h'" "vacant em'" "agrees s (cpu h')"
    "sr (cpu h') 0 = 0" "same_env h h'" "grows em em'" "distinct [c, x, y, JIT_V 2]" "ucast (jit_regs h' c) = sr s COND_BRANCH_TAKEN"
proof (rule load_cond_tracks [OF t _ room_empty [OF n]])
  fix i em1 and h1 :: host
  let ?C = COND_BRANCH_TAKEN and ?S = SCRATCH_REGISTER0 and ?T = SCRATCH_REGISTER1 and ?reg = "entry_to_jit_register R"
  assume l: "load_mips_register_noext R ?C em = Some (?reg i, em1)" "tracks R cl b em1 [?C] h1 s" "holds em1 i ?C" "same_shape em em1" "same_env h h1"
    "clean (jit_regs h1 (?reg i))" "ucast (jit_regs h1 (?reg i)) = sr s ?C"
  have room1: "card (set [?C]) < length (entries em1)" using n l(4) by (simp add: same_shape_def)
  show thesis
  proof (rule modify_tracks [OF l(2) _ _ room1, of ?S])
    fix j em2 and h2 :: host
    let ?s2 = "s\<lparr>sr := (sr s)(?S := ucast (jit_regs h2 (?reg j)))\<rparr>"
    assume m: "modify_mips_register R ?S em1 = Some (?reg j, em2)" "tracks R cl b em2 [?S, ?C] h2 ?s2"
      "writable em2 j ?S" "keeps_locked [?C] em1 em2" "same_shape em1 em2" "same_env h1 h2" "jit_regs h2 = jit_regs h1"
    have room2: "card (set [?S, ?C]) < length (entries em2)" using n l(4) m(5) by (simp add: same_shape_def)
    show thesis
    proof (rule modify_tracks [OF m(2) _ _ room2, of ?T])
      fix k em3 and h3 :: host
      let ?s3 = "?s2\<lparr>sr := (sr ?s2)(?T := ucast (jit_regs h3 (?reg k)))\<rparr>"
      assume q: "modify_mips_register R ?T em2 = Some (?reg k, em3)" "tracks R cl b em3 [?T, ?S, ?C] h3 ?s3"
        "writable em3 k ?T" "keeps_locked [?S, ?C] em2 em3" "same_shape em2 em3" "same_env h2 h3" "jit_regs h3 = jit_regs h2"
      have held: "holds em3 i ?C" "holds em3 j ?S" "holds em3 k ?T"
        using l(3) m(3,4) q(3,4) by (simp_all add: keeps_locked_def writable_def)
      then have distinct: "distinct [?reg i, ?reg j, ?reg k, JIT_V 2]" by (auto simp: holds_def)
      have "clean (jit_regs h3 (?reg l))" if "holds em3 l ?C" for l
        using represents_unique [OF tracks_represents [OF q(2)] that held(1)] l(6) m(7) q(7) by simp
      then obtain em4 where u: "unlock_all [?C, ?S, ?T] em3 = Some em4" "tracks R cl b em4 [] h3 ?s3"
        using unlock_all_tracks [OF q(2), of "[?C, ?S, ?T]"] by (auto simp del: unlock_all.simps)
      show thesis
      proof (rule flush_vacant [OF u(2)])
        fix em5 and h5 :: host
        assume fl: "flush_register_window R em4 = Some em5" "emitted cl b (code em5) h5" "vacant em5" "agrees ?s3 (cpu h5)" "sr (cpu h5) 0 = 0"
          "same_env h3 h5" "jit_regs h5 = jit_regs h3"
        have "impossible_regs R em = Some (?reg i, ?reg j, ?reg k, em5)"
          using l(1) m(1) q(1) u(1) fl(1) by (simp add: impossible_regs_def del: unlock_all.simps)
        moreover have "grows em em5"
          using l(1) m(1) q(1) u(1) fl(1) by (auto simp del: unlock_all.simps intro!: grows_rules elim!: grows_cache)
        moreover have "agrees s ?s3" by (simp add: agrees_def)
        then have "agrees s (cpu h5)" using fl(4) agrees_trans by blast
        moreover have "same_env h h5" using l(5) m(6) q(6) fl(6) same_env_trans by blast
        moreover have "ucast (jit_regs h5 (?reg i)) = sr s ?C" using fl(7) q(7) m(7) l(7) by simp
        ultimately show thesis using that fl(2,3,5) distinct by blast
      qed
    qed simp_all
  qed simp_all
qed simp

definition impossible_outcome :: "InstructionInfo \<Rightarrow> InstructionInfo \<Rightarrow> u32 option \<Rightarrow> host \<Rightarrow> CPUState \<Rightarrow> CPUState \<Rightarrow> outcome \<Rightarrow> bool" where
  "impossible_outcome info prev slot h s \<sigma> out \<longleftrightarrow> (case out of
     Falls h' \<Rightarrow> slot = None \<and> settled \<sigma> (globals h) h' \<and> slot_of info h' (cpu h') = slot_of info h s
   | Jumps th h' \<Rightarrow> th = enter_thunk \<and> follows \<sigma> (cpu h') \<and> sr (cpu h') 0 = 0 \<and> globals h' = globals h \<and>
       pending_slot (cpu h') = slot_of info h s \<and> slot = Some (ucast (jit_regs h' JIT_REGISTER_NEXT_PC))
   | Branches m h' \<Rightarrow> False)"

lemma impossible_slot_runs:
  assumes t: "tracks R cl b em [] h s" and n: "3 \<le> length (entries em)" and br: "branch prev" "branch info" and d: "has_delay_slot s = 0"
    and f: "follows \<sigma> s" and saved: "saved_slot prev h0 s0 h"
  obtains em' out where "jit_handle_impossible_delay_slot R info prev em = Some em'" "vacant em'" "runs cl b (code em') out"
    "(conditional info \<longrightarrow> conditional prev) \<Longrightarrow> impossible_outcome info prev (slot_of prev h0 s0) h s \<sigma> out"
    "conditional info \<Longrightarrow> \<not> conditional prev \<Longrightarrow> \<exists>h'. out = Jumps enter_thunk h' \<and> settled \<sigma> (globals h) h' \<and>
       slot_of prev h0 s0 = Some (ucast (jit_regs h' JIT_REGISTER_NEXT_PC))"
proof (rule impossible_regs_tracks [OF t n])
  fix c x y em1 and h1 :: host
  assume i: "impossible_regs R em = Some (c, x, y, em1)" "emitted cl b (code em1) h1" "vacant em1" "agrees s (cpu h1)" "sr (cpu h1) 0 = 0"
    "same_env h h1" "distinct [c, x, y, JIT_V 2]" "ucast (jit_regs h1 c) = sr s COND_BRANCH_TAKEN"
  have j: "jit_handle_impossible_delay_slot R info prev em = Some (impossible_slot info prev c x y em1)"
    using i(1) by (rule impossible_slot_eq)
  have v: "vacant (impossible_slot info prev c x y em1)"
    using i(3) by (simp add: impossible_slot_def jit_clear_illegal_cond_branch_taken_def emit_node_def Let_def move_target_code)
  have fo: "follows \<sigma> (cpu h1)" using follows_agrees [OF f i(4)] .
  have mem: "has_delay_slot (cpu h1) = 0" "sr (cpu h1) COND_BRANCH_TAKEN = sr s COND_BRANCH_TAKEN"
    using agrees_same_slot [OF i(4)] d by (simp_all add: same_slot_def)
  have env: "frame h1 = frame h" "globals h1 = globals h" "jit_regs h1 (JIT_V 2) = jit_regs h (JIT_V 2)" using i(6) by (simp_all add: same_env_def)
  have saves: "branch prev \<Longrightarrow> conditional prev \<Longrightarrow> frame h 1 = 0 \<longleftrightarrow> sr s0 COND_BRANCH_TAKEN = 0"
    "indirect prev \<Longrightarrow> frame h 3 = jit_regs h0 (JIT_V 2)" using saved br by (simp_all add: saved_slot_def)
  have "\<exists>tail. code (impossible_slot info prev c x y em1) = code em1 @ tail \<and> ((conditional info \<longrightarrow> conditional prev) \<longrightarrow>
      impossible_outcome info prev (slot_of prev h0 s0) h s \<sigma> (exec cl tail h1)) \<and>
      (conditional info \<and> \<not> conditional prev \<longrightarrow> (\<exists>h'. exec cl tail h1 = Jumps enter_thunk h' \<and> settled \<sigma> (globals h) h' \<and>
         slot_of prev h0 s0 = Some (ucast (jit_regs h' JIT_REGISTER_NEXT_PC))))"
    using fo mem env i(5,7,8) br saves
    by (cases "conditional prev"; cases "conditional info"; cases "indirect prev"; cases "indirect info"; cases "frame h 1 = 0")
      (auto simp: impossible_slot_def jit_clear_illegal_cond_branch_taken_def emit_node_def Let_def jit_move_target_def impossible_outcome_def
        slot_of_def branch_to_def settled_def put_field_def pending_slot_def)
  then show thesis using that [OF j v] runs_append [OF i(2)] by metis
qed

section \<open>The end of a region\<close>

lemma load_cond_runs:
  assumes t: "tracks R cl b em [] h s" and n: "3 \<le> length (entries em)"
  obtains r em' h' where "jit_load_cond R em = Some (r, em')" "tracks R cl b em' [] h' s" "same_shape em em'" "same_env h h'" "grows em em'"
    "jit_regs h' r = 0 \<longleftrightarrow> sr s COND_BRANCH_TAKEN = 0" "ucast (jit_regs h' r) = sr s COND_BRANCH_TAKEN" "r \<noteq> JIT_V 2"
proof (rule load_cond_tracks [OF t _ room_empty [OF n]])
  fix i em1 and h1 :: host
  assume l: "load_mips_register_noext R COND_BRANCH_TAKEN em = Some (entry_to_jit_register R i, em1)" "tracks R cl b em1 [COND_BRANCH_TAKEN] h1 s"
    "holds em1 i COND_BRANCH_TAKEN" "same_shape em em1" "same_env h h1" "clean (jit_regs h1 (entry_to_jit_register R i))"
    "ucast (jit_regs h1 (entry_to_jit_register R i)) = sr s COND_BRANCH_TAKEN"
  have "clean (jit_regs h1 (entry_to_jit_register R k))" if "holds em1 k COND_BRANCH_TAKEN" for k
    using represents_unique [OF tracks_represents [OF l(2)] that l(3)] l(6) by simp
  then obtain em2 where u: "unlock_mips_register COND_BRANCH_TAKEN em1 = Some em2" "tracks R cl b em2 [] h1 s" "same_shape em1 em2"
    using unlock_all_tracks [OF l(2), of "[COND_BRANCH_TAKEN]"] by (auto split: bind_splits)
  have "grows em em2" using l(1) u(1) by (auto elim!: grows_cache)
  moreover have "jit_regs h1 (entry_to_jit_register R i) = 0 \<longleftrightarrow> sr s COND_BRANCH_TAKEN = 0" using l(6,7) by (auto simp: clean_def)
  ultimately show thesis using that u l same_shape_trans [OF l(4) u(3)] by (simp add: jit_load_cond_def)
qed simp

text \<open>A scratch register is given out, and the cache is flushed.\<close>

lemma scratch_runs:
  assumes t: "tracks R cl b em [] h s" and n: "3 \<le> length (entries em)"
  obtains i em' h' where "do { (x, em) \<leftarrow> modify_mips_register R SCRATCH_REGISTER0 em; em \<leftarrow> unlock_mips_register SCRATCH_REGISTER0 em;
      em \<leftarrow> flush_register_window R em; Some (x, em) } = Some (entry_to_jit_register R i, em')" "emitted cl b (code em') h'" "vacant em'"
    "agrees s (cpu h')" "sr (cpu h') 0 = 0" "same_env h h'" "grows em em'" "jit_regs h' = jit_regs h" "length (entries em') = length (entries em)"
proof (rule modify_tracks [OF t _ _ room_empty [OF n], of SCRATCH_REGISTER0])
  fix i em1 and h1 :: host
  let ?s = "s\<lparr>sr := (sr s)(SCRATCH_REGISTER0 := ucast (jit_regs h1 (entry_to_jit_register R i)))\<rparr>"
  assume m: "modify_mips_register R SCRATCH_REGISTER0 em = Some (entry_to_jit_register R i, em1)" "tracks R cl b em1 [SCRATCH_REGISTER0] h1 ?s"
    "same_shape em em1" "same_env h h1" "jit_regs h1 = jit_regs h"
  obtain em2 where u: "unlock_mips_register SCRATCH_REGISTER0 em1 = Some em2" "tracks R cl b em2 [] h1 ?s" "same_shape em1 em2"
    using unlock_all_tracks [OF m(2), of "[SCRATCH_REGISTER0]"] by (auto split: bind_splits)
  show thesis
  proof (rule flush_vacant [OF u(2)])
    fix em3 and h3 :: host
    assume fl: "flush_register_window R em2 = Some em3" "emitted cl b (code em3) h3" "vacant em3" "agrees ?s (cpu h3)" "sr (cpu h3) 0 = 0"
      "same_env h1 h3" "jit_regs h3 = jit_regs h1" "same_shape em2 em3"
    have "agrees s ?s" by simp
    then have "agrees s (cpu h3)" using fl(4) agrees_trans by blast
    moreover have "grows em em3" using m(1) u(1) fl(1) by (auto elim!: grows_cache)
    ultimately show thesis using that fl(2,3,5) m(1,5) u(1) fl(1,7) same_env_trans [OF m(4) fl(6)] grows_length by auto
  qed
qed simp_all

definition end_block :: "u32 \<Rightarrow> InstructionInfo \<Rightarrow> jit_register \<Rightarrow> jit_register \<Rightarrow> emitter \<Rightarrow> emitter" where
  "end_block pc' prev c x em =
    (let move = (\<lambda>em.
       let em = jit_move_target prev x em;
           em = emit (jit_stxi_i F_branch_target x) em;
           em = emit (jit_movi x 1) em
       in emit (jit_stxi_i F_has_delay_slot x) em);
         em = (if branch prev then
         if conditional prev then
           let (forward, em) = emit_node (jit_beqi c 0) em
           in emit (jit_patch forward) (move em)
         else move em
       else em);
         em = emit (jit_movi JIT_REGISTER_NEXT_PC (ucast pc')) em
     in emit (jit_patch_abs enter_thunk) em)"

lemma end_of_block_eq:
  assumes "(if branch prev \<and> conditional prev then jit_load_cond R em else Some (JIT_R 0, em)) = Some (c, em1)"
    "do { (x, em) \<leftarrow> modify_mips_register R SCRATCH_REGISTER0 em1; em \<leftarrow> unlock_mips_register SCRATCH_REGISTER0 em;
      em \<leftarrow> flush_register_window R em; Some (x, em) } = Some (x, em2)"
  shows "jit_end_of_block R pc' prev em = Some (end_block pc' prev c x em2)"
  unfolding jit_end_of_block_def assms(1) end_block_def using assms(2) by (auto simp: Let_def split: bind_splits)

text \<open>At the end of a region, the branch that is pending goes to memory.\<close>

lemma end_of_block_runs:
  assumes t: "tracks R cl b em [] h s" and n: "3 \<le> length (entries em)" and d: "has_delay_slot s = 0" and f: "follows \<sigma> s"
  obtains em' h' where "jit_end_of_block R pc' prev em = Some em'" "vacant em'" "runs cl b (code em') (Jumps enter_thunk h')"
    "follows \<sigma> (cpu h')" "sr (cpu h') 0 = 0" "globals h' = globals h" "pending_slot (cpu h') = slot_of prev h s"
    "ucast (jit_regs h' JIT_REGISTER_NEXT_PC) = pc'" "length (entries em') = length (entries em)"
proof -
  obtain c em1 h1 where l: "(if branch prev \<and> conditional prev then jit_load_cond R em else Some (JIT_R 0, em)) = Some (c, em1)"
    "tracks R cl b em1 [] h1 s" "same_shape em em1" "same_env h h1" "grows em em1"
    "branch prev \<Longrightarrow> conditional prev \<Longrightarrow> jit_regs h1 c = 0 \<longleftrightarrow> sr s COND_BRANCH_TAKEN = 0"
  proof (cases "branch prev \<and> conditional prev")
    case True
    show thesis by (rule load_cond_runs [OF t n]) (use True that in simp)
  next
    case False
    then show thesis using that [of "JIT_R 0" em h] t by auto
  qed
  have n1: "3 \<le> length (entries em1)" using n l(3) by (simp add: same_shape_def)
  show thesis
  proof (rule scratch_runs [OF l(2) n1])
    fix i em2 and h2 :: host
    let ?x = "entry_to_jit_register R i"
    assume m: "do { (x, em) \<leftarrow> modify_mips_register R SCRATCH_REGISTER0 em1; em \<leftarrow> unlock_mips_register SCRATCH_REGISTER0 em;
        em \<leftarrow> flush_register_window R em; Some (x, em) } = Some (?x, em2)" "emitted cl b (code em2) h2" "vacant em2"
      "agrees s (cpu h2)" "sr (cpu h2) 0 = 0" "same_env h1 h2" "jit_regs h2 = jit_regs h1" "length (entries em2) = length (entries em1)"
    have j: "jit_end_of_block R pc' prev em = Some (end_block pc' prev c ?x em2)" by (rule end_of_block_eq [OF l(1) m(1)])
    have v: "vacant (end_block pc' prev c ?x em2)" "length (entries (end_block pc' prev c ?x em2)) = length (entries em)"
      using m(3,8) l(3) by (simp_all add: end_block_def emit_node_def Let_def move_target_code same_shape_def)
    have fo: "follows \<sigma> (cpu h2)" using follows_agrees [OF f m(4)] .
    have mem: "has_delay_slot (cpu h2) = 0" using agrees_same_slot [OF m(4)] d by (simp add: same_slot_def)
    have env: "globals h2 = globals h" "jit_regs h2 (JIT_V 2) = jit_regs h (JIT_V 2)"
      using same_env_trans [OF l(4) m(6)] by (simp_all add: same_env_def)
    have "\<exists>tail h'. code (end_block pc' prev c ?x em2) = code em2 @ tail \<and> exec cl tail h2 = Jumps enter_thunk h' \<and> follows \<sigma> (cpu h') \<and>
        sr (cpu h') 0 = 0 \<and> globals h' = globals h \<and> pending_slot (cpu h') = slot_of prev h s \<and> ucast (jit_regs h' JIT_REGISTER_NEXT_PC) = pc'"
      using fo mem env m(5,7) l(6)
      by (cases "branch prev"; cases "conditional prev"; cases "indirect prev"; cases "sr s COND_BRANCH_TAKEN = 0")
        (auto simp: end_block_def emit_node_def Let_def jit_move_target_def slot_of_def branch_to_def put_field_def pending_slot_def)
    then show thesis using that [OF j v(1) _ _ _ _ _ _ v(2)] runs_append [OF m(2)] by metis
  qed
qed

section \<open>A delay slot left over\<close>

lemma represents_slot: "represents R em ls h s \<Longrightarrow> has_delay_slot (cpu h) = has_delay_slot s"
  "represents R em ls h s \<Longrightarrow> branch_target (cpu h) = branch_target s"
proof -
  assume "represents R em ls h s"
  then have "(cpu h)\<lparr>sr := sr s\<rparr> = s" by (simp add: represents_def)
  from arg_cong [OF this, of has_delay_slot] arg_cong [OF this, of branch_target]
  show "has_delay_slot (cpu h) = has_delay_slot s" "branch_target (cpu h) = branch_target s" by simp_all
qed

text \<open>After the first instruction of a region: is a branch pending in memory?\<close>

lemma latent_test_runs:
  assumes t: "tracks R cl b em [] h s" and n: "3 \<le> length (entries em)"
  obtains em' h' node where "do { (x, em) \<leftarrow> modify_mips_register R SCRATCH_REGISTER0 em; let em = emit (jit_ldxi_i x F_has_delay_slot) em;
      em \<leftarrow> unlock_mips_register SCRATCH_REGISTER0 em; em \<leftarrow> flush_register_window R em; Some (emit_node (jit_bnei x 0) em) } = Some (node, em')"
    "vacant em'" "agrees s (cpu h')" "sr (cpu h') 0 = 0" "same_env h h'"
    "runs cl b (code em') (if has_delay_slot s = 0 then Falls h' else Branches node h')"
    "\<exists>em1 x. grows em em1 \<and> node = nodes em1 \<and> em' = (emit (jit_bnei x 0 node) em1)\<lparr>nodes := node + 1\<rparr>"
proof (rule modify_tracks [OF t _ _ room_empty [OF n], of SCRATCH_REGISTER0])
  fix i em1 and h1 :: host
  let ?x = "entry_to_jit_register R i"
  let ?s = "s\<lparr>sr := (sr s)(SCRATCH_REGISTER0 := ucast (jit_regs h1 ?x))\<rparr>"
  assume m: "modify_mips_register R SCRATCH_REGISTER0 em = Some (?x, em1)" "tracks R cl b em1 [SCRATCH_REGISTER0] h1 ?s" "writable em1 i SCRATCH_REGISTER0"
    "same_shape em em1" "same_env h h1" "jit_regs h1 = jit_regs h"
  have mem: "has_delay_slot (cpu h1) = has_delay_slot s"
    using represents_slot(1) [OF tracks_represents [OF m(2)]] by simp
  let ?v = "scast (has_delay_slot s) :: u64" and ?op = "jit_ldxi_i ?x F_has_delay_slot"
  let ?h2 = "put_reg ?x ?v h1"
  define s2 where "s2 = ?s\<lparr>sr := (sr ?s)(SCRATCH_REGISTER0 := ucast ?v)\<rparr>"
  have t2: "tracks R cl b (emit ?op em1) [SCRATCH_REGISTER0] ?h2 s2"
    unfolding s2_def by (rule write_tracks [OF m(2,3)]) (simp_all add: get_field_def mem)
  obtain em3 where u: "unlock_mips_register SCRATCH_REGISTER0 (emit ?op em1) = Some em3" "tracks R cl b em3 [] ?h2 s2"
    using unlock_all_tracks [OF t2, of "[SCRATCH_REGISTER0]"] by (auto split: bind_splits)
  show thesis
  proof (rule flush_vacant [OF u(2)])
    fix em4 and h4 :: host
    assume fl: "flush_register_window R em3 = Some em4" "emitted cl b (code em4) h4" "vacant em4" "agrees s2 (cpu h4)" "sr (cpu h4) 0 = 0"
      "same_env ?h2 h4" "jit_regs h4 = jit_regs ?h2"
    have "agrees s s2" by (simp add: s2_def agrees_def)
    then have a: "agrees s (cpu h4)" using fl(4) agrees_trans by blast
    have g: "grows em em4" using m(1) u(1) fl(1) by (auto intro!: grows_rules elim!: grows_cache)
    let ?em = "snd (emit_node (jit_bnei ?x 0) em4)"
    have "\<exists>em1 x. grows em em1 \<and> nodes em4 = nodes em1 \<and> ?em = (emit (jit_bnei x 0 (nodes em4)) em1)\<lparr>nodes := nodes em4 + 1\<rparr>"
      using g by (intro exI [of _ em4] exI [of _ ?x]) (simp add: emit_node_def)
    moreover have "runs cl b (code ?em) (if has_delay_slot s = 0 then Falls h4 else Branches (nodes em4) h4)"
      using runs_append [OF fl(2), of "[jit_bnei ?x 0 (nodes em4)]"] fl(7) by (auto simp: emit_node_def)
    moreover have "same_env h h4" using same_env_trans [OF m(5) same_env_trans [OF same_env_put_reg fl(6)]] .
    moreover have "do { (x, em) \<leftarrow> modify_mips_register R SCRATCH_REGISTER0 em; let em = emit (jit_ldxi_i x F_has_delay_slot) em;
        em \<leftarrow> unlock_mips_register SCRATCH_REGISTER0 em; em \<leftarrow> flush_register_window R em; Some (emit_node (jit_bnei x 0) em) } =
        Some (nodes em4, ?em)" using m(1) u(1) fl(1) by (simp add: emit_node_def)
    moreover have "vacant ?em" using fl(3) by (simp add: emit_node_def)
    ultimately show thesis using that [of "nodes em4" ?em h4] a fl(5) by blast
  qed
qed simp_all

text \<open>The branch pending in memory is made, and that of the first instruction goes to memory.\<close>

definition latent_slot :: "InstructionInfo \<Rightarrow> jit_register \<Rightarrow> emitter \<Rightarrow> emitter" where
  "latent_slot info c em =
     (if branch info then
         let em = (if \<not> conditional info then emit (jit_movi c 1) em else em);
             em = emit (jit_stxi_i F_has_delay_slot c) em;
             em = emit (jit_ldxi_i JIT_REGISTER_NEXT_PC F_branch_target) em;
             em = jit_move_target info JIT_REGISTER_MODE em;
             em = emit (jit_stxi_i F_branch_target JIT_REGISTER_MODE) em
         in emit (jit_patch_abs enter_thunk) em
       else
         let em = emit (jit_movi JIT_REGISTER_NEXT_PC 0) em;
             em = emit (jit_stxi_i F_has_delay_slot JIT_REGISTER_NEXT_PC) em;
             em = emit (jit_ldxi_i JIT_REGISTER_NEXT_PC F_branch_target) em
         in emit (jit_patch_abs enter_thunk) em)"

lemma latent_slot_eq: "jit_handle_latent_delay_slot R info em =
    (if branch info \<and> conditional info then jit_load_cond R em else Some (JIT_REGISTER_NEXT_PC, em)) \<bind>
      (\<lambda>(c, em). flush_register_window R em \<bind> (\<lambda>em. Some (latent_slot info c em)))"
  unfolding jit_handle_latent_delay_slot_def latent_slot_def Let_def by (rule refl)

lemma latent_slot_runs:
  assumes v: "vacant em" and e: "emitted cl b (code em) h" and zero: "sr (cpu h) 0 = 0" and n: "3 \<le> length (entries em)"
  obtains em' h' where "jit_handle_latent_delay_slot R info em = Some em'" "runs cl b (code em') (Jumps enter_thunk h')"
    "\<And>\<sigma>. follows \<sigma> (cpu h) \<Longrightarrow> follows \<sigma> (cpu h')" "sr (cpu h') 0 = 0" "globals h' = globals h" "pending_slot (cpu h') = slot_of info h (cpu h)"
    "ucast (jit_regs h' JIT_REGISTER_NEXT_PC) = branch_target (cpu h)"
proof -
  have t: "tracks R cl b em [] h (cpu h)" using vacant_represents [OF v zero] e by (simp add: tracks_def)
  obtain c em1 h1 where l: "(if branch info \<and> conditional info then jit_load_cond R em else Some (JIT_REGISTER_NEXT_PC, em)) = Some (c, em1)"
    "tracks R cl b em1 [] h1 (cpu h)" "same_env h h1" "c \<noteq> JIT_V 2"
    "branch info \<Longrightarrow> conditional info \<Longrightarrow> ucast (jit_regs h1 c) = sr (cpu h) COND_BRANCH_TAKEN"
  proof (cases "branch info \<and> conditional info")
    case True
    show thesis by (rule load_cond_runs [OF t n]) (use True that in simp)
  next
    case False
    then show thesis using that [of JIT_REGISTER_NEXT_PC em h] t by auto
  qed
  obtain em2 h2 where fl: "flush_register_window R em1 = Some em2" "emitted cl b (code em2) h2" "agrees (cpu h) (cpu h2)" "sr (cpu h2) 0 = 0"
    "same_env h1 h2" "jit_regs h2 = jit_regs h1"
    by (rule flush_vacant [OF l(2)]) blast
  have j: "jit_handle_latent_delay_slot R info em = Some (latent_slot info c em2)" unfolding latent_slot_eq l(1) by (simp add: fl(1))
  have mem: "branch_target (cpu h2) = branch_target (cpu h)" using agrees_same_slot [OF fl(3)] by (simp add: same_slot_def)
  have env: "globals h2 = globals h" "jit_regs h2 (JIT_V 2) = jit_regs h (JIT_V 2)"
    using same_env_trans [OF l(3) fl(5)] by (simp_all add: same_env_def)
  have fo: "follows \<sigma> (cpu h2)" if "follows \<sigma> (cpu h)" for \<sigma> using follows_agrees [OF that fl(3)] .
  have "\<exists>tail h'. code (latent_slot info c em2) = code em2 @ tail \<and> exec cl tail h2 = Jumps enter_thunk h' \<and>
      (\<forall>\<sigma>. follows \<sigma> (cpu h) \<longrightarrow> follows \<sigma> (cpu h')) \<and> sr (cpu h') 0 = 0 \<and> globals h' = globals h \<and>
      pending_slot (cpu h') = slot_of info h (cpu h) \<and> ucast (jit_regs h' JIT_REGISTER_NEXT_PC) = branch_target (cpu h)"
    using fo mem env fl(4,6) l(4,5)
    by (cases "branch info"; cases "conditional info"; cases "indirect info"; cases "sr (cpu h) COND_BRANCH_TAKEN = 0")
      (auto simp: latent_slot_def Let_def jit_move_target_def slot_of_def branch_to_def put_field_def get_field_def pending_slot_def)
  then obtain tail h' where "code (latent_slot info c em2) = code em2 @ tail" "exec cl tail h2 = Jumps enter_thunk h'"
    "\<And>\<sigma>. follows \<sigma> (cpu h) \<Longrightarrow> follows \<sigma> (cpu h')" "sr (cpu h') 0 = 0" "globals h' = globals h" "pending_slot (cpu h') = slot_of info h (cpu h)"
    "ucast (jit_regs h' JIT_REGISTER_NEXT_PC) = branch_target (cpu h)" by blast
  then show thesis using that [OF j] runs_append [OF fl(2), of tail] by simp
qed

end
