(* ===== verification/Jit_Marks.thy ===== *)
theory Jit_Marks
  imports Jit_Delay
begin

unbundle bit_operations_syntax

text \<open>
  The places of a region: the addresses of its instructions, the entries that \<open>jit_mark_block_entries\<close> marks, and that every direct branch
  of the region that leads into the region leads to a marked entry.
\<close>

section \<open>Addresses\<close>

definition place :: "nat \<Rightarrow> nat \<Rightarrow> u32" where
  "place pc_word i = word_of_nat ((pc_word + i) * 4)"

lemma unat_small: "k < 2 ^ 32 \<Longrightarrow> unat (word_of_nat k :: u32) = k"
  by (simp add: unat_of_nat)

lemma take_small: "k < 1024 \<Longrightarrow> take_bit 10 (word_of_nat k) = (word_of_nat k :: u32)"
  by (simp add: take_bit_of_nat take_bit_nat_eq_self)

lemma unat_place: "pc_word + i \<le> 1024 \<Longrightarrow> unat (place pc_word i) = (pc_word + i) * 4"
proof -
  assume "pc_word + i \<le> 1024"
  then show ?thesis unfolding place_def by (intro unat_small) simp
qed

lemma place_word: "pc_word + i \<le> 1024 \<Longrightarrow> unat (place pc_word i) div 4 = pc_word + i"
  by (simp add: unat_place)

lemma place_Suc: "place pc_word i + 4 = place pc_word (Suc i)"
  by (simp add: place_def algebra_simps)

lemma word_mask_ffc: "push_bit 2 (w AND 0x3ff) = push_bit 2 w AND 0xffc" for w :: u32
  by (intro bit_word_eqI) (auto simp: bit_simps bit_numeral_rec split: nat.splits)

lemma place_ffc: "pc_word + i < 1024 \<Longrightarrow> place pc_word i AND 0xffc = place pc_word i"
proof -
  assume "pc_word + i < 1024"
  then have "take_bit 10 (word_of_nat (pc_word + i)) = (word_of_nat (pc_word + i) :: u32)" by (rule take_small)
  then have w: "word_of_nat (pc_word + i) AND 0x3ff = (word_of_nat (pc_word + i) :: u32)" 
    by (simp only: take_bit_eq_mask mask_eq_exp_minus_1) simp
  have p: "place pc_word i = push_bit 2 (word_of_nat (pc_word + i))" by (simp add: place_def push_bit_eq_mult mult.commute)
  show ?thesis unfolding p word_mask_ffc [symmetric] w ..
qed

section \<open>Marked entries\<close>

lemma branch_word_target:
  assumes br: "branch (info_of (place pc_word i) instr nt)" "\<not> indirect (info_of (place pc_word i) instr nt)"
  obtains w where "branch_word instr (pc_word + i) = Some w" "info_branch_target (info_of (place pc_word i) instr nt) = push_bit 2 w" "unat w < 1024"
proof -
  let ?ty = "unat (drop_bit 26 instr)"
  have rel: "relative_target (place pc_word i) instr = push_bit 2 ((word_of_nat (pc_word + i) + 1 + instr) AND 0x3ff)"
  proof -
    have "place pc_word i + 4 + push_bit 2 instr = push_bit 2 (word_of_nat (pc_word + i) + 1 + instr)"
      by (simp add: place_def push_bit_eq_mult algebra_simps)
    then show ?thesis by (simp only: word_mask_ffc relative_target_def)
  qed
  have small: "unat (w AND 0x3ff) < 1024" for w :: u32
  proof -
    have "w AND 0x3ff \<le> 0x3ff" by (rule word_and_le1)
    then show ?thesis by (simp add: word_le_nat_alt)
  qed
  have isbr: "is_branch instr" using br by (auto simp: info_of_def split: if_splits)
  then have nv: "\<not> is_vu_instruction instr" using vu_type [of instr] by (auto simp: is_branch_def Let_def)
  have t0: "?ty \<noteq> 0"
  proof
    assume "?ty = 0"
    then have "indirect (info_of (place pc_word i) instr nt)" using isbr by (simp add: info_of_def branch_info_def Let_def)
    then show False using br by simp
  qed
  show thesis
  proof (cases "?ty = 2 \<or> ?ty = 3")
    case True
    then have "branch_word instr (pc_word + i) = Some (instr AND 0x3ff)"
      "info_branch_target (info_of (place pc_word i) instr nt) = push_bit 2 (instr AND 0x3ff)"
      using isbr nv by (auto simp: info_of_def branch_info_def branch_word_def taken_to_def absolute_target_def no_info_def Let_def)
    then show thesis using that small by blast
  next
    case False
    let ?w = "(word_of_nat (pc_word + i) + 1 + instr) AND 0x3ff"
    have "branch_word instr (pc_word + i) = Some ?w"
      using isbr nv t0 False by (auto simp: branch_word_def is_branch_def Let_def)
    moreover have "info_branch_target (info_of (place pc_word i) instr nt) = relative_target (place pc_word i) instr"
      using br isbr t0 False by (auto simp: info_of_def branch_info_def taken_to_def no_info_def Let_def split: if_splits)
    ultimately show thesis using that small rel by simp
  qed
qed

lemma marks_length [simp]: "length (jit_mark_block_entries mem pc' end') = end' - pc'"
proof -
  have "length (fold f xs l) = length l" if "\<And>i l. length (f i l) = length l" for f :: "nat \<Rightarrow> bool list \<Rightarrow> bool list" and xs l
    using that by (induction xs arbitrary: l) simp_all
  then show ?thesis unfolding jit_mark_block_entries_def by (simp split: option.splits)
qed

lemma nth_list_update_keep: "k < length l \<Longrightarrow> l ! k \<Longrightarrow> l[m := True] ! k"
  by (cases "m = k") simp_all

lemma marked:
  assumes w: "branch_word (mem (pc' + i)) (pc' + i) = Some w" and i: "i < end' - pc'" and inside: "pc' \<le> unat w" "unat w < end'"
  shows "jit_mark_block_entries mem pc' end' ! (unat w - pc')"
proof -
  define f where "f = (\<lambda>i block_entries. case branch_word (mem (pc' + i)) (pc' + i) of None \<Rightarrow> block_entries
         | Some target \<Rightarrow> if pc' \<le> unat target \<and> unat target < end' then block_entries[unat target - pc' := True] else block_entries)"
  have len: "length (f i l) = length l" for i l by (simp add: f_def split: option.splits)
  have keep: "k < length l \<Longrightarrow> l ! k \<Longrightarrow> f i l ! k" for i l k
    by (cases "branch_word (mem (pc' + i)) (pc' + i)") (auto simp: f_def nth_list_update_neq nth_list_update_eq intro: nth_list_update_keep)
  have "fold f xs l ! (unat w - pc')" if "i \<in> set xs \<or> l ! (unat w - pc')" "length l = end' - pc'" for xs l
    using that
  proof (induction xs arbitrary: l)
    case (Cons x xs)
    have "x = i \<Longrightarrow> f x l ! (unat w - pc')" using w inside Cons.prems(2) by (simp add: f_def)
    then have "i \<in> set xs \<or> f x l ! (unat w - pc')" using Cons.prems keep inside by auto
    then show ?case using Cons.IH [of "f x l"] Cons.prems(2) len by simp
  qed simp
  from this [of "[0..<end' - pc']" "replicate (end' - pc') False"] i show ?thesis
    by (simp add: jit_mark_block_entries_def f_def)
qed

text \<open>A direct branch into the region leads to a marked entry.\<close>

lemma branch_marked:
  assumes region: "pc_word + n \<le> 1024" and i: "i < n" and br: "branch (info_of (place pc_word i) (mem (pc_word + i)) nt)"
    "\<not> indirect (info_of (place pc_word i) (mem (pc_word + i)) nt)"
    and inside: "place pc_word 0 \<le> info_branch_target (info_of (place pc_word i) (mem (pc_word + i)) nt)"
    "info_branch_target (info_of (place pc_word i) (mem (pc_word + i)) nt) < place pc_word n"
  defines "j \<equiv> unat (drop_bit 2 (info_branch_target (info_of (place pc_word i) (mem (pc_word + i)) nt) - place pc_word 0))"
  shows "j < n" "jit_mark_block_entries mem pc_word (pc_word + n) ! j"
    "info_branch_target (info_of (place pc_word i) (mem (pc_word + i)) nt) = place pc_word j"
proof -
  let ?target = "info_branch_target (info_of (place pc_word i) (mem (pc_word + i)) nt)"
  obtain w where w: "branch_word (mem (pc_word + i)) (pc_word + i) = Some w" "?target = push_bit 2 w" "unat w < 1024"
    by (rule branch_word_target [OF br])
  have "?target = word_of_nat (unat w * 4)" by (simp add: w(2) push_bit_eq_mult)
  moreover have "unat (word_of_nat (unat w * 4) :: u32) = unat w * 4" using w(3) by (intro unat_small) simp
  ultimately have t: "unat ?target = unat w * 4" by simp
  have in': "pc_word \<le> unat w" "unat w < pc_word + n"
    using inside region t by (simp_all add: word_le_nat_alt word_less_nat_alt unat_place)
  have "unat (?target - place pc_word 0) = unat w * 4 - pc_word * 4"
    using inside(1) region t by (simp add: unat_sub unat_place)
  then have j: "j = unat w - pc_word" unfolding j_def by (simp add: drop_bit_eq_div unat_div)
  show "j < n" using in' j by simp
  show "jit_mark_block_entries mem pc_word (pc_word + n) ! j" unfolding j using marked [where mem = mem and i = i and pc' = pc_word and end' = "pc_word + n", OF w(1) _ in'] i by simp
  show "?target = place pc_word j" unfolding w(2) using in' j by (simp add: place_def push_bit_eq_mult)
qed

end
