(* ===== verification/Jit_Simulation.thy ===== *)
theory Jit_Simulation
  imports Jit_Marks
begin

unbundle bit_operations_syntax

text \<open>
  Correctness of compiled regions: the code of \<open>CPU::jit_region\<close> simulates the machine of \<open>Mips_Machine\<close>. The proof goes through the code
  instruction by instruction, from the back: the code from an instruction on either leaves the region where the machine arrives, or branches
  to a marked entry of the region where the machine arrives, after at least one step of the machine.
\<close>

declare machine_step.simps [simp del]

section \<open>Marks of code\<close>

text \<open>Labels are those of instructions before \<open>i\<close>; the nodes of local branches and of the latent delay slot are not patched.\<close>

definition local_nodes :: "emitter \<Rightarrow> nat set" where
  "local_nodes em = fst ` set (local_branches em)"

definition neat :: "nat \<Rightarrow> nat option \<Rightarrow> emitter \<Rightarrow> bool" where
  "neat i latent em \<longleftrightarrow> (\<forall>k. jit_label k \<in> set (code em) \<longrightarrow> k < i) \<and>
     (\<forall>m. jit_patch m \<in> set (code em) \<longrightarrow> m < nodes em \<and> m \<notin> local_nodes em \<and> latent \<noteq> Some m) \<and>
     (\<forall>m \<in> local_nodes em. m < nodes em \<and> latent \<noteq> Some m) \<and> (\<forall>m. latent = Some m \<longrightarrow> m < nodes em) \<and> distinct (map fst (local_branches em))"

lemma neat_grows: "neat i latent em \<Longrightarrow> grows em em' \<Longrightarrow> neat i latent em'"
proof -
  assume n: "neat i latent em" and g: "grows em em'"
  obtain new where new: "code em' = code em @ new" "\<And>n. jit_patch n \<in> set new \<Longrightarrow> nodes em \<le> n \<and> n < nodes em'" "\<And>k. jit_label k \<notin> set new"
    and le: "nodes em \<le> nodes em'" and loc: "local_branches em' = local_branches em" using g unfolding grows_def by blast
  have l: "local_nodes em' = local_nodes em" by (simp add: local_nodes_def loc)
  have "m < nodes em' \<and> m \<notin> local_nodes em \<and> latent \<noteq> Some m" if "jit_patch m \<in> set (code em')" for m
  proof (cases "jit_patch m \<in> set (code em)")
    case True
    then show ?thesis using n le by (force simp: neat_def)
  next
    case False
    then have "nodes em \<le> m" "m < nodes em'" using that new by auto
    then show ?thesis using n by (force simp: neat_def)
  qed
  moreover have "k < i" if "jit_label k \<in> set (code em')" for k using that n new by (auto simp: neat_def)
  moreover have "m < nodes em' \<and> latent \<noteq> Some m" if "m \<in> local_nodes em" for m using that n le by (force simp: neat_def)
  moreover have "m < nodes em'" if "latent = Some m" for m using that n le by (force simp: neat_def)
  ultimately show ?thesis using n unfolding neat_def l loc by blast
qed

lemma grows_take: "take_cond R em = Some (r, em') \<Longrightarrow> grows em em'"
  by (auto simp: take_cond_def simp del: unlock_all.simps split: bind_splits intro!: grows_rules elim!: grows_cache)

lemma grows_clear: "clear_cond R em = Some (r, em') \<Longrightarrow> grows em em'"
  by (auto simp: clear_cond_def split: bind_splits intro!: grows_rules elim!: grows_cache)

lemma grows_move: "grows a em \<Longrightarrow> grows a (jit_move_target info r em)"
  by (auto simp: jit_move_target_def intro!: grows_rules)

lemma neat_local_branch:
  assumes n: "neat i latent em" and f: "\<And>n. unmarked (f n)"
  shows "neat i latent (local_branch f j em)"
proof -
  have "jit_patch m \<noteq> f n" "jit_label m \<noteq> f n" for m n using f [of n] unfolding unmarked_def by metis+
  then show ?thesis using n by (force simp: neat_def local_branch_def emit_node_def local_nodes_def Let_def)
qed

lemma neat_delay_slot:
  assumes n: "neat i latent em" and j: "jit_handle_delay_slot R prev base_pc end_pc em = Some em'"
  shows "neat i latent em'" "\<exists>l. local_branches em' = local_branches em @ l" "length (entries em') = length (entries em)"
proof -
  obtain r em1 em2 where e: "(if conditional prev then take_cond R em else clear_cond R em) = Some (r, em1)" "flush_register_window R em1 = Some em2"
    "em' = leave_slot prev base_pc end_pc r em2" using j unfolding delay_slot_eq by (auto split: bind_splits)
  have "grows em em1" using e(1) grows_take grows_clear by (auto split: if_splits)
  then have g: "grows em em2" by (rule grows_flush(1) [OF e(2)])
  have n2: "neat i latent em2" by (rule neat_grows [OF n g])
  have loc: "local_branches em2 = local_branches em" using g by (simp add: grows_def)
  have leave: "grows em2 (emit (jit_patch_abs enter_thunk) (jit_move_target prev r' em3))" if "grows em2 em3" for r' em3
    using that by (auto intro!: grows_rules grows_move)
  have skip: "grows em2 (emit (jit_patch (nodes em2)) (emit (jit_patch_abs enter_thunk) (jit_move_target prev r' ((emit oper em2)\<lparr>nodes := nodes em2 + 1\<rparr>))))"
    if "unmarked oper" for r' oper using that by (auto simp: jit_move_target_def intro!: grows_rules)
  show "length (entries em') = length (entries em)"
    using grows_length [OF g] by (simp add: e(3) leave_slot_def Let_def emit_node_def local_branch_def jit_move_target_def)
  have "neat i latent em' \<and> (\<exists>l. local_branches em' = local_branches em2 @ l)"
    unfolding e(3) leave_slot_def Let_def
    using neat_local_branch [OF n2, of "jit_bnei r 0"] neat_local_branch [OF n2, of jit_jmpi] neat_grows [OF n2 skip [of "jit_beqi r 0 (nodes em2)" JIT_REGISTER_NEXT_PC]]
      neat_grows [OF n2 leave [OF grows_refl, of JIT_REGISTER_NEXT_PC]]
    by (auto simp: emit_node_def local_branch_def jit_move_target_def Let_def)
  then show "neat i latent em'" "\<exists>l. local_branches em' = local_branches em @ l" using loc by simp_all
qed

lemma grows_impossible: "jit_handle_impossible_delay_slot R info prev em = Some em' \<Longrightarrow> grows em em'"
proof -
  assume j: "jit_handle_impossible_delay_slot R info prev em = Some em'"
  then obtain c x y em1 where r: "impossible_regs R em = Some (c, x, y, em1)"
    by (auto simp: jit_handle_impossible_delay_slot_def impossible_regs_def simp del: unlock_all.simps split: bind_splits)
  then have e: "em' = impossible_slot info prev c x y em1" using j impossible_slot_eq [OF r] by simp
  have g: "grows em em1" using r by (auto simp: impossible_regs_def simp del: unlock_all.simps split: bind_splits elim!: grows_cache)
  have "grows em1 (impossible_slot info prev c x y em1)"
    by (auto simp: impossible_slot_def jit_clear_illegal_cond_branch_taken_def emit_node_def jit_move_target_def Let_def intro!: grows_rules)
  then show ?thesis using grows_trans [OF g] e by simp
qed

lemma grows_load_cond: "jit_load_cond R em = Some (r, em') \<Longrightarrow> grows em em'"
  by (auto simp: jit_load_cond_def split: bind_splits elim!: grows_cache)

lemma grows_end_of_block: "jit_end_of_block R pc' prev em = Some em' \<Longrightarrow> grows em em'"
proof -
  assume j: "jit_end_of_block R pc' prev em = Some em'"
  then obtain c em1 x em2 where r: "(if branch prev \<and> conditional prev then jit_load_cond R em else Some (JIT_R 0, em)) = Some (c, em1)"
    "do { (x, em) \<leftarrow> modify_mips_register R SCRATCH_REGISTER0 em1; em \<leftarrow> unlock_mips_register SCRATCH_REGISTER0 em;
      em \<leftarrow> flush_register_window R em; Some (x, em) } = Some (x, em2)"
    unfolding jit_end_of_block_def by (auto simp: Let_def split: bind_splits)
  have e: "em' = end_block pc' prev c x em2" using j end_of_block_eq [OF r] by simp
  have "grows em em1" using r(1) grows_load_cond by (auto split: if_splits)
  then have "grows em em2" using r(2) by (auto split: bind_splits elim!: grows_cache)
  moreover have "grows em2 (end_block pc' prev c x em2)"
    by (auto simp: end_block_def emit_node_def jit_move_target_def Let_def intro!: grows_rules)
  ultimately show ?thesis using grows_trans e by simp
qed

lemma grows_latent: "jit_handle_latent_delay_slot R info em = Some em' \<Longrightarrow> grows em em'"
proof -
  assume j: "jit_handle_latent_delay_slot R info em = Some em'"
  then obtain c em1 em2 where r: "(if branch info \<and> conditional info then jit_load_cond R em else Some (JIT_REGISTER_NEXT_PC, em)) = Some (c, em1)"
    "flush_register_window R em1 = Some em2" "em' = latent_slot info c em2" unfolding latent_slot_eq by (auto split: bind_splits)
  have "grows em em1" using r(1) grows_load_cond by (auto split: if_splits)
  then have "grows em em2" by (rule grows_flush(1) [OF r(2)])
  moreover have "grows em2 (latent_slot info c em2)" by (auto simp: latent_slot_def jit_move_target_def Let_def intro!: grows_rules)
  ultimately show ?thesis using grows_trans r(3) by simp
qed

section \<open>One instruction of a region\<close>

definition region_entry :: "(nat \<Rightarrow> u32) \<Rightarrow> nat \<Rightarrow> nat \<Rightarrow> nat \<Rightarrow> bool" where
  "region_entry mem pc_word n i \<longleftrightarrow> i < n \<and> jit_mark_block_entries mem pc_word (pc_word + n) ! i"

definition region_info :: "(nat \<Rightarrow> u32) \<Rightarrow> nat \<Rightarrow> nat \<Rightarrow> nat \<Rightarrow> InstructionInfo" where
  "region_info mem pc_word n i = info_of (place pc_word i) (mem (pc_word + i)) (region_entry mem pc_word n (i + 1))"

definition prev_info :: "(nat \<Rightarrow> u32) \<Rightarrow> nat \<Rightarrow> nat \<Rightarrow> nat \<Rightarrow> InstructionInfo" where
  "prev_info mem pc_word n i = (case i of 0 \<Rightarrow> no_info | Suc j \<Rightarrow> region_info mem pc_word n j)"

text \<open>An instruction may not follow an unconditional branch, as the compiler sees it, if it is a conditional branch or if some branch of the
  region leads to it.\<close>

definition slot_allowed :: "(nat \<Rightarrow> u32) \<Rightarrow> nat \<Rightarrow> nat \<Rightarrow> nat \<Rightarrow> bool" where
  "slot_allowed mem pc_word n i \<longleftrightarrow>
     (let prev = prev_info mem pc_word n i; info = region_info mem pc_word n i
      in branch prev \<and> \<not> conditional prev \<longrightarrow> \<not> region_entry mem pc_word n i \<and> \<not> (branch info \<and> conditional info))"

text \<open>The branch pending before instruction \<open>i\<close>: at the start of the region it is the one in memory.\<close>

definition slot_at :: "InstructionInfo \<Rightarrow> nat \<Rightarrow> host \<Rightarrow> CPUState \<Rightarrow> u32 option" where
  "slot_at prev i h s = (if i = 0 then pending_slot s else slot_of prev h s)"

definition before :: "nat \<Rightarrow> InstructionInfo \<Rightarrow> nat \<Rightarrow> emitter \<Rightarrow> host \<Rightarrow> CPUState \<Rightarrow> CPUState \<Rightarrow> bool" where
  "before R prev i em h s \<sigma> \<longleftrightarrow> represents R em [] h s \<and> follows \<sigma> s \<and> (i \<noteq> 0 \<longrightarrow> has_delay_slot s = 0)"

text \<open>Where the machine is when the code of an instruction has run: at the next instruction, out of the region, at a marked entry, or at the
  target of the branch that was pending before the region.\<close>

definition after_one :: "nat \<Rightarrow> (nat \<Rightarrow> u32) \<Rightarrow> nat \<Rightarrow> nat \<Rightarrow> nat \<Rightarrow> region_state \<Rightarrow> outcome \<Rightarrow> machine \<Rightarrow> bool" where
  "after_one R mem pc_word n i st out m \<longleftrightarrow> (case out of
     Falls h' \<Rightarrow> \<exists>s' \<sigma>'. before R (region_info mem pc_word n i) (i + 1) (reg_em st) h' s' \<sigma>' \<and>
       m = Running (next_pc (place pc_word i) None) (slot_at (region_info mem pc_word n i) (i + 1) h' s') (globals h') \<sigma>'
   | Jumps th h' \<Rightarrow> arrives th h' m
   | Branches k h' \<Rightarrow> (\<exists>j \<sigma>'. (k, j) \<in> set (local_branches (reg_em st)) \<and> region_entry mem pc_word n j \<and>
         m = Running (place pc_word j) None (globals h') \<sigma>' \<and> settled \<sigma>' (globals h') h' \<and> sr (cpu h') COND_BRANCH_TAKEN = 0) \<or>
       (i = 0 \<and> latent_delay_slot st = Some k \<and> (\<exists>\<sigma>'. follows \<sigma>' (cpu h') \<and> sr (cpu h') 0 = 0 \<and>
         m = Running (branch_target (cpu h') AND 0xffc) (slot_of (region_info mem pc_word n 0) h' (cpu h')) (globals h') \<sigma>')))"

lemma slot_of_agrees: "agrees s s' \<Longrightarrow> same_env h h' \<Longrightarrow> slot_of info h' s' = slot_of info h s"
  by (rule slot_of_env) (simp_all add: agrees_def)

lemma infos_handle [simp]: "handles_delay_slot (info_of pc' instr nt) \<longleftrightarrow> is_break instr"
proof -
  have "is_break instr \<Longrightarrow> \<not> is_branch instr" by (auto simp: is_break_def is_branch_def Let_def)
  then show ?thesis by (auto simp: info_of_def branch_info_def taken_to_def no_info_def Let_def)
qed

lemma break_no_branch: "is_break instr \<Longrightarrow> \<not> branch (info_of pc' instr nt)"
  by (auto simp: info_of_def is_break_def is_branch_def no_info_def Let_def)

lemma ready_clear:
  assumes "ready R em"
  obtains h s where "represents R em [] h s" "has_delay_slot s = 0"
proof -
  obtain h s where r: "represents R em [] h s" using assms by (auto simp: ready_def)
  let ?h = "h\<lparr>cpu := (cpu h)\<lparr>has_delay_slot := 0\<rparr>\<rparr>" and ?s = "s\<lparr>has_delay_slot := 0\<rparr>"
  have c: "(cpu h)\<lparr>sr := sr s\<rparr> = s" using r by (simp add: represents_def)
  then have "(cpu ?h)\<lparr>sr := sr ?s\<rparr> = ?s" by (cases s; cases "cpu h") simp
  moreover have "entry_ok [] ?s e v \<longleftrightarrow> entry_ok [] s e v" for e v by (simp add: entry_ok_def)
  ultimately have "represents R em [] ?h ?s" using r unfolding represents_def by simp
  then show thesis using that by simp
qed

text \<open>The compiler goes on after every instruction.\<close>

definition resolved :: "nat \<Rightarrow> nat \<Rightarrow> nat \<Rightarrow> InstructionInfo \<Rightarrow> region_state \<Rightarrow> region_state \<Rightarrow> bool" where
  "resolved R n i info st st' \<longleftrightarrow> ready R (reg_em st') \<and> neat n (latent_delay_slot st') (reg_em st') \<and>
     (\<exists>l. local_branches (reg_em st') = local_branches (reg_em st) @ l) \<and> length (entries (reg_em st')) = length (entries (reg_em st)) \<and>
     (\<exists>new. code (reg_em st') = code (reg_em st) @ new) \<and> last_info st' = last_info st \<and> (i \<noteq> 0 \<or> handles_delay_slot info \<longrightarrow> latent_delay_slot st' = latent_delay_slot st \<and> first_info st' = first_info st) \<and>
     (i = 0 \<and> \<not> handles_delay_slot info \<longrightarrow> latent_delay_slot st' \<noteq> None \<and> first_info st' = info)"

lemma latent_test_eq:
  assumes "do { (x, em) \<leftarrow> modify_mips_register R SCRATCH_REGISTER0 em; let em = emit (jit_ldxi_i x F_has_delay_slot) em;
      em \<leftarrow> unlock_mips_register SCRATCH_REGISTER0 em; em \<leftarrow> flush_register_window R em; Some (emit_node (jit_bnei x 0) em) } = Some (node, em')"
    "\<not> handles_delay_slot info" "reg_em st = em"
  shows "resolve_branches R pc_word n 0 info st = Some (st\<lparr>reg_em := em', first_info := info, latent_delay_slot := Some node\<rparr>)"
  using assms by (auto simp: resolve_branches_def Let_def split: bind_splits prod.splits)

lemma resolve_ok:
  assumes r: "ready R (reg_em st)" and n: "3 \<le> length (entries (reg_em st))" and neat: "neat k (latent_delay_slot st) (reg_em st)"
    and first: "i = 0 \<Longrightarrow> latent_delay_slot st = None"
  obtains st' where "resolve_branches R pc_word cnt i info st = Some st'" "resolved R k i info st st'"
proof -
  obtain h s where rep: "represents R (reg_em st) [] h s" "has_delay_slot s = 0" by (rule ready_clear [OF r])
  note t = tracks_self [OF rep(1)]
  consider (latent) "i = 0" "\<not> handles_delay_slot info" | (two) "\<not> (i = 0 \<and> \<not> handles_delay_slot info)" "branch info" "branch (last_info st)"
    | (slot) "\<not> (i = 0 \<and> \<not> handles_delay_slot info)" "\<not> branch info" "\<not> handles_delay_slot info" "branch (last_info st)"
    | (none) "\<not> (i = 0 \<and> \<not> handles_delay_slot info)" "\<not> (branch info \<and> branch (last_info st))" "\<not> (\<not> handles_delay_slot info \<and> branch (last_info st))"
    by blast
  then show thesis
  proof cases
    case latent
    show thesis
    proof (rule latent_test_runs [OF t n])
      fix em' node and h' :: host
      assume l: "do { (x, em) \<leftarrow> modify_mips_register R SCRATCH_REGISTER0 (reg_em st); let em = emit (jit_ldxi_i x F_has_delay_slot) em;
          em \<leftarrow> unlock_mips_register SCRATCH_REGISTER0 em; em \<leftarrow> flush_register_window R em; Some (emit_node (jit_bnei x 0) em) } = Some (node, em')"
        "vacant em'" "\<exists>em1 x. grows (reg_em st) em1 \<and> node = nodes em1 \<and> em' = (emit (jit_bnei x 0 node) em1)\<lparr>nodes := node + 1\<rparr>"
      then obtain em1 x where e: "grows (reg_em st) em1" "node = nodes em1" "em' = (emit (jit_bnei x 0 node) em1)\<lparr>nodes := node + 1\<rparr>" by blast
      have "neat k None em1" using neat_grows [OF neat e(1)] first latent(1) by simp
      then have "neat k (Some node) em'" by (force simp: neat_def e local_nodes_def)
      moreover have "length (entries em') = length (entries (reg_em st))" "local_branches em' = local_branches (reg_em st)"
        "\<exists>new. code em' = code (reg_em st) @ new"
        using e(1) by (auto simp: e(3) grows_def)
      ultimately have "resolved R k i info st (st\<lparr>reg_em := em', first_info := info, latent_delay_slot := Some node\<rparr>)"
        using vacant_ready [OF l(2)] latent by (simp add: resolved_def)
      then show thesis using that latent_test_eq [OF l(1) latent(2) refl, of pc_word cnt] latent(1) by simp
    qed
  next
    case two
    let ?h0 = "put_reg (JIT_V 2) (frame h 3) h" and ?s0 = "s\<lparr>sr := (sr s)(COND_BRANCH_TAKEN := (if frame h 1 = 0 then 0 else 1))\<rparr>"
    have saved: "saved_slot (last_info st) ?h0 ?s0 h" by (simp add: saved_slot_def)
    obtain em' where i: "jit_handle_impossible_delay_slot R info (last_info st) (reg_em st) = Some em'" "vacant em'"
      by (rule impossible_slot_runs [OF t n two(3,2) rep(2) follows_refl saved]) blast
    have g: "grows (reg_em st) em'" by (rule grows_impossible [OF i(1)])
    have "resolve_branches R pc_word cnt i info st = Some (st\<lparr>reg_em := em'\<rparr>)"
      unfolding resolve_branches_def Let_def if_not_P [OF two(1)] using i(1) two by simp
    moreover have "resolved R k i info st (st\<lparr>reg_em := em'\<rparr>)"
      using vacant_ready [OF i(2)] neat_grows [OF neat g] g two(1) by (auto simp: resolved_def grows_def)
    ultimately show thesis by (rule that)
  next
    case slot
    obtain em' where i: "jit_handle_delay_slot R (last_info st) (place pc_word 0) (place pc_word cnt) (reg_em st) = Some em'" "vacant em'"
      "\<exists>new. code em' = code (reg_em st) @ new"
      by (rule delay_slot_runs [OF t n slot(4) rep(2) follows_refl]) (auto simp: runs_def)
    have "resolve_branches R pc_word cnt i info st = Some (st\<lparr>reg_em := em'\<rparr>)"
      unfolding resolve_branches_def Let_def if_not_P [OF slot(1)] using i(1) slot by (simp add: place_def)
    moreover have "resolved R k i info st (st\<lparr>reg_em := em'\<rparr>)"
      using vacant_ready [OF i(2)] neat_delay_slot [OF neat i(1)] slot(1) i(3) by (auto simp: resolved_def)
    ultimately show thesis by (rule that)
  next
    case none
    have "resolve_branches R pc_word cnt i info st = Some st"
      unfolding resolve_branches_def Let_def if_not_P [OF none(1)] if_not_P [OF none(2)] if_not_P [OF none(3)] by (rule refl)
    moreover have "resolved R k i info st st" using r neat none(1) by (auto simp: resolved_def)
    ultimately show thesis by (rule that)
  qed
qed

lemma next_pc_simps [simp]: "next_pc pc' (Some a) = a AND 0xffc"
  by (simp add: next_pc_def)

lemma settled_before: "vacant em \<Longrightarrow> settled \<sigma> gl h \<Longrightarrow> before R prev i em h (cpu h) \<sigma>"
  by (simp add: before_def settled_def vacant_represents)

lemma after_one_last_info [simp]:
  "after_one R mem pc_word n i (st\<lparr>last_info := info\<rparr>) out m = after_one R mem pc_word n i st out m"
  by (cases out) (simp_all add: after_one_def)

lemma after_one_Falls:
  assumes "vacant (reg_em st)" "settled \<sigma>' gl h'" "m = Running (next_pc (place pc_word i) None) (slot_of (region_info mem pc_word n i) h' (cpu h')) gl \<sigma>'"
  shows "after_one R mem pc_word n i st (Falls h') m"
  using settled_before [OF assms(1,2), of R "region_info mem pc_word n i" "i + 1"] assms(2,3) by (auto simp: after_one_def slot_at_def settled_def)

lemma resolve_runs:
  assumes tr: "tracks R cl b (reg_em st) [] h' s'" and n: "3 \<le> length (entries (reg_em st))" and region: "pc_word + n \<le> 1024" "i < n"
    and mem: "has_delay_slot s' = has_delay_slot s" "branch_target s' = branch_target s"
    and saved: "branch (region_info mem pc_word n i) \<Longrightarrow> saved_slot (last_info st) h s h'"
      "\<not> branch (region_info mem pc_word n i) \<Longrightarrow> slot_of (last_info st) h' s' = slot_of (last_info st) h s"
    and f: "follows \<sigma>' s'" and prev: "last_info st = prev_info mem pc_word n i" and d: "i \<noteq> 0 \<Longrightarrow> has_delay_slot s = 0"
    and m: "m = Running (next_pc (place pc_word i) (slot_at (last_info st) i h s)) (slot_of (region_info mem pc_word n i) h' s') (globals h') \<sigma>'"
    and ok: "slot_allowed mem pc_word n i" and nb: "\<not> handles_delay_slot (region_info mem pc_word n i)"
    and res: "resolve_branches R pc_word n i (region_info mem pc_word n i) st = Some st'"
  shows "\<exists>out. runs cl b (code (reg_em st')) out \<and> after_one R mem pc_word n i st' out m"
proof -
  let ?info = "region_info mem pc_word n i" and ?prev = "last_info st"
  consider (latent) "i = 0" | (two) "i \<noteq> 0" "branch ?info" "branch ?prev" | (slot) "i \<noteq> 0" "\<not> branch ?info" "branch ?prev"
    | (none) "i \<noteq> 0" "\<not> branch ?prev" by blast
  then show ?thesis
  proof cases
    case latent
    show ?thesis
    proof (rule latent_test_runs [OF tr n])
      fix em' node and h'' :: host
      assume l: "do { (x, em) \<leftarrow> modify_mips_register R SCRATCH_REGISTER0 (reg_em st); let em = emit (jit_ldxi_i x F_has_delay_slot) em;
          em \<leftarrow> unlock_mips_register SCRATCH_REGISTER0 em; em \<leftarrow> flush_register_window R em; Some (emit_node (jit_bnei x 0) em) } = Some (node, em')"
        "vacant em'" "agrees s' (cpu h'')" "sr (cpu h'') 0 = 0" "same_env h' h''"
        "runs cl b (code em') (if has_delay_slot s' = 0 then Falls h'' else Branches node h'')"
      have st': "st' = st\<lparr>reg_em := em', first_info := ?info, latent_delay_slot := Some node\<rparr>"
        using latent_test_eq [OF l(1) nb refl, of pc_word n] res latent by simp
      have slots: "slot_of ?info h'' (cpu h'') = slot_of ?info h' s'" by (rule slot_of_agrees [OF l(3,5)])
      have same: "has_delay_slot (cpu h'') = has_delay_slot s" "branch_target (cpu h'') = branch_target s"
        using agrees_same_slot [OF l(3)] mem by (simp_all add: same_slot_def)
      have fo: "follows \<sigma>' (cpu h'')" by (rule follows_agrees [OF f l(3)])
      have gl: "globals h'' = globals h'" using l(5) by (simp add: same_env_def)
      have "after_one R mem pc_word n i st' (if has_delay_slot s' = 0 then Falls h'' else Branches node h'') m"
      proof (cases "has_delay_slot s' = 0")
        case True
        then have set: "settled \<sigma>' (globals h'') h''" using same mem fo l(4) by (simp add: settled_def)
        have "slot_at ?prev i h s = None" using True mem latent by (simp add: slot_at_def pending_slot_def)
        then have m': "m = Running (next_pc (place pc_word i) None) (slot_of ?info h'' (cpu h'')) (globals h'') \<sigma>'" using m slots gl by simp
        have v: "vacant (reg_em st')" using l(2) st' by simp
        show ?thesis using after_one_Falls [OF v set m'] True by simp
      next
        case False
        then have "slot_at ?prev i h s = Some (branch_target (cpu h''))" using same mem latent by (simp add: slot_at_def pending_slot_def)
        then show ?thesis using False m slots gl fo l(4) latent by (simp add: after_one_def st')
      qed
      then show ?thesis using l(6) st' by auto
    qed
  next
    case two
    have d': "has_delay_slot s' = 0" using d two(1) mem by simp
    have cond: "conditional ?info \<longrightarrow> conditional ?prev" using ok two(2,3) unfolding prev slot_allowed_def by (auto simp: Let_def)
    obtain em' out where i: "jit_handle_impossible_delay_slot R ?info ?prev (reg_em st) = Some em'" "vacant em'" "runs cl b (code em') out"
      "impossible_outcome ?info ?prev (slot_of ?prev h s) h' s' \<sigma>' out"
      by (rule impossible_slot_runs [OF tr n two(3,2) d' f saved(1) [OF two(2)]]) (use cond in blast)
    have st': "st' = st\<lparr>reg_em := em'\<rparr>" using res two i(1) by (simp add: resolve_branches_def Let_def)
    have at: "slot_at ?prev i h s = slot_of ?prev h s" using two(1) by (simp add: slot_at_def)
    have v: "vacant (reg_em st')" using i(2) st' by simp
    have "after_one R mem pc_word n i st' out m"
    proof (cases out)
      case (Falls h'')
      then have o: "slot_of ?prev h s = None" "settled \<sigma>' (globals h') h''" "slot_of ?info h'' (cpu h'') = slot_of ?info h' s'"
        using i(4) by (simp_all add: impossible_outcome_def)
      show ?thesis unfolding Falls by (rule after_one_Falls [OF v o(2)]) (simp add: m at o)
    qed (use i(4) m in \<open>auto simp: after_one_def impossible_outcome_def at\<close>)
    then show ?thesis using i(3) st' by auto
  next
    case slot
    have d': "has_delay_slot s' = 0" using d slot(1) mem by simp
    obtain em' out where i: "jit_handle_delay_slot R ?prev (place pc_word 0) (place pc_word n) (reg_em st) = Some em'" "vacant em'" "runs cl b (code em') out"
      "slot_outcome ?prev (place pc_word 0) (place pc_word n) h' s' \<sigma>' em' out"
      by (rule delay_slot_runs [OF tr n slot(3) d' f])
    have st': "st' = st\<lparr>reg_em := em'\<rparr>" using res slot nb i(1) by (simp add: resolve_branches_def Let_def place_def)
    have at: "slot_at ?prev i h s = slot_of ?prev h' s'" using slot saved(2) by (simp add: slot_at_def)
    have none: "slot_of ?info h'' s'' = None" for h'' s'' using slot(2) by (simp add: slot_of_def)
    have "after_one R mem pc_word n i st' out m"
    proof (cases out)
      case (Falls h'')
      have v: "vacant (reg_em st')" using i(2) st' by simp
      have o: "slot_of ?prev h' s' = None" "settled \<sigma>' (globals h') h''" using Falls i(4) by (simp_all add: slot_outcome_def)
      show ?thesis unfolding Falls by (rule after_one_Falls [OF v o(2)]) (simp add: m at o none)
    next
      case (Jumps th h'')
      then show ?thesis using i(4) m none by (auto simp: after_one_def slot_outcome_def st' at settled_def pending_slot_def)
    next
      case (Branches k h'')
      let ?t = "info_branch_target ?prev" and ?j = "unat (drop_bit 2 (info_branch_target ?prev - place pc_word 0))"
      obtain q where q: "i = Suc q" using slot(1) by (cases i) simp_all
      have pi: "?prev = info_of (place pc_word q) (mem (pc_word + q)) (region_entry mem pc_word n (q + 1))"
        using prev q by (simp add: prev_info_def region_info_def)
      have o: "settled \<sigma>' (globals h') h''" "sr (cpu h'') COND_BRANCH_TAKEN = 0" "\<not> indirect ?prev" "slot_of ?prev h' s' = Some ?t"
        "place pc_word 0 \<le> ?t" "?t < place pc_word n" "(k, ?j) \<in> set (local_branches em')"
        using i(4) Branches by (simp_all add: slot_outcome_def)
      have qn: "q < n" using q region by simp
      note mk = branch_marked [where mem = mem and i = q and nt = "region_entry mem pc_word n (q + 1)", OF region(1) qn, folded pi, OF slot(3) o(3,5,6)]
      have "?t AND 0xffc = place pc_word ?j" using mk(1) place_ffc [of pc_word ?j] region by (simp add: mk(3) [symmetric])
      then have "m = Running (place pc_word ?j) None (globals h'') \<sigma>'" using m at o none by (simp add: settled_def)
      then show ?thesis using o mk(1,2) Branches by (auto simp: after_one_def st' region_entry_def settled_def)
    qed
    then show ?thesis using i(3) st' by auto
  next
    case none
    have st': "st' = st" using res none by (simp add: resolve_branches_def Let_def)
    have "slot_at ?prev i h s = None" using none by (simp add: slot_at_def slot_of_def)
    moreover have "before R ?info (i + 1) (reg_em st) h' s' \<sigma>'" using tracks_represents [OF tr] f d mem none(1) by (simp add: before_def)
    ultimately have "after_one R mem pc_word n i st' (Falls h') m" using m none(1) by (auto simp: after_one_def st' slot_at_def)
    then show ?thesis using tracks_emitted [OF tr, folded runs_Falls] st' by blast
  qed
qed

text \<open>The compiler before instruction \<open>i\<close>, when labels of instructions before \<open>k\<close> are placed.\<close>

definition region_inv :: "nat \<Rightarrow> (nat \<Rightarrow> u32) \<Rightarrow> nat \<Rightarrow> nat \<Rightarrow> nat \<Rightarrow> nat \<Rightarrow> region_state \<Rightarrow> bool" where
  "region_inv R mem pc_word n k i st \<longleftrightarrow> ready R (reg_em st) \<and> neat k (latent_delay_slot st) (reg_em st) \<and> 3 \<le> length (entries (reg_em st)) \<and>
     R \<le> length (entries (reg_em st)) \<and> last_info st = prev_info mem pc_word n i \<and> (i = 0 \<longrightarrow> latent_delay_slot st = None) \<and>
     (i \<noteq> 0 \<longrightarrow> latent_delay_slot st = None \<and> handles_delay_slot (region_info mem pc_word n 0) \<or>
        latent_delay_slot st \<noteq> None \<and> first_info st = region_info mem pc_word n 0)"

definition region_body :: "target \<Rightarrow> (CPUState \<Rightarrow> CPUState) \<Rightarrow> nat \<Rightarrow> (nat \<Rightarrow> u32) \<Rightarrow> nat \<Rightarrow> nat \<Rightarrow> nat \<Rightarrow> region_state \<Rightarrow> region_state option" where
  "region_body t rdp R mem pc_word n i st = do {
     (inst_info, em) \<leftarrow> jit_instruction t rdp R (place pc_word i) (mem (pc_word + i)) (last_info st) (i = 0) (region_entry mem pc_word n (i + 1)) (reg_em st);
     st \<leftarrow> resolve_branches R pc_word n i inst_info (st\<lparr>reg_em := em\<rparr>);
     Some (st\<lparr>last_info := inst_info\<rparr>)
   }"

lemma region_step_eq: "i < n \<Longrightarrow> region_step t rdp R mem pc_word n (jit_mark_block_entries mem pc_word (pc_word + n)) i st =
    enter_block R (region_entry mem pc_word n i) i (reg_em st) \<bind> (\<lambda>em. region_body t rdp R mem pc_word n i (st\<lparr>reg_em := em\<rparr>))"
  by (simp add: region_step_def region_body_def region_entry_def place_def)

lemma body_ok:
  assumes inv: "region_inv R mem pc_word n (Suc i) i st" and i: "i < n" and region: "pc_word + n \<le> 1024" and rdp: "scalar_free rdp"
  obtains em st' st'' where "jit_instruction t rdp R (place pc_word i) (mem (pc_word + i)) (last_info st) (i = 0) (region_entry mem pc_word n (i + 1)) (reg_em st) =
      Some (region_info mem pc_word n i, em)" "resolve_branches R pc_word n i (region_info mem pc_word n i) (st\<lparr>reg_em := em\<rparr>) = Some st''"
    "st' = st''\<lparr>last_info := region_info mem pc_word n i\<rparr>" "region_body t rdp R mem pc_word n i st = Some st'" "region_inv R mem pc_word n (Suc i) (Suc i) st'"
    "\<exists>new. code (reg_em st') = code em @ new" "\<exists>new. code (reg_em st') = code (reg_em st) @ new"
    "\<exists>l. local_branches (reg_em st') = local_branches (reg_em st) @ l" "3 \<le> length (entries em)"
    "i \<noteq> 0 \<longrightarrow> latent_delay_slot st' = latent_delay_slot st"
proof -
  have r: "ready R (reg_em st)" "3 \<le> length (entries (reg_em st))" "R \<le> length (entries (reg_em st))" "neat (Suc i) (latent_delay_slot st) (reg_em st)"
    using inv by (simp_all add: region_inv_def)
  obtain h s where rep: "represents R (reg_em st) [] h s" "has_delay_slot s = 0" by (rule ready_clear [OF r(1)])
  let ?slot = "if i = 0 then pending_slot s else slot_of (last_info st) h s"
  have instr: "mem (unat (place pc_word i) div 4) = mem (pc_word + i)" using i region by (simp add: place_word)
  obtain em where e: "jit_instruction t rdp R (place pc_word i) (mem (pc_word + i)) (last_info st) (i = 0) (region_entry mem pc_word n (i + 1)) (reg_em st) =
      Some (region_info mem pc_word n i, em)" "ready R em" "grows (reg_em st) em"
    by (rule instruction_executes [where mem = mem and \<sigma> = s and slot = ?slot and cl = "\<lambda>_ _. 0" and t = t and prev = "last_info st" and first = "i = 0" and nt = "region_entry mem pc_word n (i + 1)",
          OF tracks_self [OF rep(1)] r(2,3) follows_refl rep(2) refl rdp instr]) (simp add: region_info_def)
  let ?st = "st\<lparr>reg_em := em\<rparr>"
  have len: "length (entries em) = length (entries (reg_em st))" by (rule grows_length [OF e(3)])
  have q: "ready R (reg_em ?st)" "3 \<le> length (entries (reg_em ?st))" "neat (Suc i) (latent_delay_slot ?st) (reg_em ?st)"
    "i = 0 \<Longrightarrow> latent_delay_slot ?st = None"
    using e(2) r(2) len neat_grows [OF r(4) e(3)] inv by (simp_all add: region_inv_def)
  obtain st'' where s: "resolve_branches R pc_word n i (region_info mem pc_word n i) ?st = Some st''" "resolved R (Suc i) i (region_info mem pc_word n i) ?st st''"
    by (rule resolve_ok [OF q])
  let ?st' = "st''\<lparr>last_info := region_info mem pc_word n i\<rparr>"
  have "region_inv R mem pc_word n (Suc i) (Suc i) ?st'"
    using s(2) inv len by (cases "i = 0") (auto simp: resolved_def region_inv_def prev_info_def)
  moreover have "region_body t rdp R mem pc_word n i st = Some ?st'" using e(1) s(1) by (simp add: region_body_def)
  moreover have "\<exists>new. code (reg_em ?st') = code em @ new" "\<exists>l. local_branches (reg_em ?st') = local_branches (reg_em st) @ l"
    using s(2) e(3) by (auto simp: resolved_def grows_def)
  moreover from this(1) have "\<exists>new. code (reg_em ?st') = code (reg_em st) @ new" using e(3) by (auto simp: grows_def)
  moreover have "i \<noteq> 0 \<longrightarrow> latent_delay_slot ?st' = latent_delay_slot st" using s(2) by (simp add: resolved_def)
  ultimately show thesis using that [OF e(1) s(1) refl] len r(2) by simp
qed

lemma body_runs:
  assumes inv: "region_inv R mem pc_word n (Suc i) i st" and i: "i < n" and region: "pc_word + n \<le> 1024" and rdp: "scalar_free rdp"
    and ok: "slot_allowed mem pc_word n i" and bf: "before R (prev_info mem pc_word n i) i (reg_em st) h s \<sigma>"
    and st': "region_body t rdp R mem pc_word n i st = Some st'"
  shows "\<exists>out. runs cl (code (reg_em st), h) (code (reg_em st')) out \<and> after_one R mem pc_word n i st' out
    (machine_step t rdp mem (Running (place pc_word i) (slot_at (prev_info mem pc_word n i) i h s) (globals h) \<sigma>))"
proof (rule body_ok [OF inv i region rdp, of t])
  fix em st1 st''
  let ?info = "region_info mem pc_word n i" and ?prev = "prev_info mem pc_word n i"
  let ?m = "machine_step t rdp mem (Running (place pc_word i) (slot_at ?prev i h s) (globals h) \<sigma>)"
  assume b: "jit_instruction t rdp R (place pc_word i) (mem (pc_word + i)) (last_info st) (i = 0) (region_entry mem pc_word n (i + 1)) (reg_em st) = Some (?info, em)"
    "resolve_branches R pc_word n i ?info (st\<lparr>reg_em := em\<rparr>) = Some st''" "st1 = st''\<lparr>last_info := ?info\<rparr>"
    "region_body t rdp R mem pc_word n i st = Some st1" "\<exists>new. code (reg_em st1) = code em @ new" "3 \<le> length (entries em)"
  have s1: "st' = st1" using b(4) st' by simp
  have prev: "last_info st = ?prev" using inv by (simp add: region_inv_def)
  have rep: "represents R (reg_em st) [] h s" and f: "follows \<sigma> s" and d: "i \<noteq> 0 \<Longrightarrow> has_delay_slot s = 0" using bf by (simp_all add: before_def)
  have slot: "slot_at ?prev i h s = (if i = 0 then pending_slot s else slot_of ?prev h s)" by (simp add: slot_at_def)
  have len: "3 \<le> length (entries (reg_em st))" "R \<le> length (entries (reg_em st))" using inv by (simp_all add: region_inv_def)
  have instr: "mem (unat (place pc_word i) div 4) = mem (pc_word + i)" using i region by (simp add: place_word)
  obtain em' where "jit_instruction t rdp R (place pc_word i) (mem (pc_word + i)) ?prev (i = 0) (region_entry mem pc_word n (i + 1)) (reg_em st) = Some (?info, em')"
    "executes t rdp mem R cl (code (reg_em st), h) em' ?prev h s ?info (place pc_word i) (slot_at ?prev i h s) \<sigma>"
    by (rule instruction_executes [where mem = mem and cl = cl and t = t and first = "i = 0" and nt = "region_entry mem pc_word n (i + 1)",
          OF tracks_self [OF rep] len f d slot rdp instr]) (auto simp: region_info_def)
  then have "executes t rdp mem R cl (code (reg_em st), h) em ?prev h s ?info (place pc_word i) (slot_at ?prev i h s) \<sigma>"
    using b(1) by (simp add: prev)
  then consider (passed) h' s' \<sigma>' where "passed R cl (code (reg_em st), h) em ?prev h s ?info h' s'" "follows \<sigma>' s'"
      "?m = Running (next_pc (place pc_word i) (slot_at ?prev i h s)) (slot_of ?info h' s') (globals h') \<sigma>'"
    | (left) h' where "runs cl (code (reg_em st), h) (code em) (Jumps return_thunk h')" "arrives return_thunk h' ?m"
    unfolding executes_def by blast
  then show ?thesis
  proof cases
    case passed
    have "\<not> is_break (mem (pc_word + i))"
    proof
      assume "is_break (mem (pc_word + i))"
      then show False using passed(3) instr by (simp add: machine_step.simps)
    qed
    then have nb: "\<not> handles_delay_slot ?info" by (simp add: region_info_def)
    let ?st = "st\<lparr>reg_em := em\<rparr>"
    have p: "tracks R cl (code (reg_em st), h) (reg_em ?st) [] h' s'" "has_delay_slot s' = has_delay_slot s" "branch_target s' = branch_target s"
      "branch ?info \<Longrightarrow> saved_slot (last_info ?st) h s h'" "\<not> branch ?info \<Longrightarrow> slot_of (last_info ?st) h' s' = slot_of (last_info ?st) h s"
      using passed(1) prev by (simp_all add: passed_def)
    have prev': "last_info ?st = ?prev" and len': "3 \<le> length (entries (reg_em ?st))" using prev b(6) by simp_all
    have m: "?m = Running (next_pc (place pc_word i) (slot_at (last_info ?st) i h s)) (slot_of ?info h' s') (globals h') \<sigma>'"
      using passed(3) prev by simp
    have "\<exists>out. runs cl (code (reg_em st), h) (code (reg_em st'')) out \<and> after_one R mem pc_word n i st'' out ?m"
      by (rule resolve_runs [OF p(1) len' region i p(2-5) passed(2) prev' d m ok nb b(2)])
    then show ?thesis by (simp add: s1 b(3))
  next
    case left
    obtain new where "code (reg_em st1) = code em @ new" using b(5) by blast
    then have "runs cl (code (reg_em st), h) (code (reg_em st')) (Jumps return_thunk h')" using runs_Jumps [OF left(1)] s1 by simp
    then show ?thesis using left(2) by (auto simp: after_one_def)
  qed
qed

section \<open>The code from an instruction on\<close>

text \<open>Out of the region, or at a marked entry with no branch pending, after at least one step of the machine.\<close>

definition enters :: "CPUState \<Rightarrow> host \<Rightarrow> bool" where
  "enters \<sigma> h \<longleftrightarrow> follows \<sigma> (cpu h) \<and> sr (cpu h) 0 = 0 \<and> has_delay_slot (cpu h) = 0 \<and> sr (cpu h) COND_BRANCH_TAKEN = 0"

definition good :: "target \<Rightarrow> (CPUState \<Rightarrow> CPUState) \<Rightarrow> (nat \<Rightarrow> u32) \<Rightarrow> nat \<Rightarrow> nat \<Rightarrow> emitter \<Rightarrow> nat \<Rightarrow> outcome \<Rightarrow> machine \<Rightarrow> bool" where
  "good t rdp mem pc_word n em d out c \<longleftrightarrow> (case out of
     Falls h' \<Rightarrow> False
   | Jumps th h' \<Rightarrow> \<exists>k\<ge>d. arrives th h' (machine_steps t rdp mem k c)
   | Branches m h' \<Rightarrow> \<exists>j k \<sigma>'. d \<le> k \<and> map_of (local_branches em) m = Some j \<and> region_entry mem pc_word n j \<and>
       machine_steps t rdp mem k c = Running (place pc_word j) None (globals h') \<sigma>' \<and> enters \<sigma>' h')"

lemma good_step: "good t rdp mem pc_word n em 0 out (machine_step t rdp mem c) \<Longrightarrow> good t rdp mem pc_word n em 1 out c"
proof -
  have step: "machine_steps t rdp mem k (machine_step t rdp mem c) = machine_steps t rdp mem (Suc k) c" for k by simp
  have le: "1 \<le> Suc k" for k by simp
  assume "good t rdp mem pc_word n em 0 out (machine_step t rdp mem c)"
  then show ?thesis unfolding good_def step using le by (cases out; simp del: machine_steps_simps) blast+
qed

lemma good_Jumps: "arrives th h' c \<Longrightarrow> good t rdp mem pc_word n em 0 (Jumps th h') c"
  unfolding good_def by (simp, intro exI [of _ 0]) simp

lemma good_weaken: "good t rdp mem pc_word n em 1 out c \<Longrightarrow> good t rdp mem pc_word n em 0 out c"
  unfolding good_def by (cases out) auto

lemma exec_append_Branches:
  assumes "exec cl xs h = Branches m h'"
  shows "exec cl (xs @ ys) h = (case dropWhile (\<lambda>x. \<not> is_patch m x) ys of [] \<Rightarrow> Branches m h' | _ # rest \<Rightarrow> exec cl rest h')"
  using assms
proof (induction cl xs h rule: exec.induct)
  case (2 cl oper ops h)
  have nj: "jump_of oper = None" using "2.prems" by (auto split: option.splits)
  show ?case
  proof (cases "branch_of oper h")
    case None
    then show ?thesis using "2.IH"(1) [OF nj None] "2.prems" nj by simp
  next
    case (Some k)
    show ?thesis
    proof (cases "dropWhile (\<lambda>x. \<not> is_patch k x) ops")
      case Nil
      have "exec cl (oper # ops) h = Branches k h" by (simp only: exec.simps nj Some Nil option.case list.case)
      then have k: "k = m" "h = h'" using "2.prems" by simp_all
      have "\<forall>x \<in> set ops. \<not> is_patch m x" using Nil k by simp
      then have "dropWhile (\<lambda>x. \<not> is_patch m x) (ops @ ys) = dropWhile (\<lambda>x. \<not> is_patch m x) ys" by (simp add: dropWhile_append)
      then show ?thesis using nj Some k by simp
    next
      case (Cons x rest)
      have "dropWhile (\<lambda>x. \<not> is_patch k x) (ops @ ys) = x # rest @ ys"
        using Cons by (metis append_Cons dropWhile_append dropWhile_eq_Nil_conv list.distinct(1))
      then show ?thesis using "2.IH"(2) [OF nj Some Cons] "2.prems" nj Some Cons by simp
    qed
  qed
qed simp

subsection \<open>The end\<close>

definition region_tail :: "nat \<Rightarrow> nat \<Rightarrow> nat \<Rightarrow> region_state \<Rightarrow> emitter option" where
  "region_tail R pc_word n st = do {
     em \<leftarrow> flush_register_window R (reg_em st);
     em \<leftarrow> jit_end_of_block R (place pc_word n) (last_info st) em;
     (case latent_delay_slot st of None \<Rightarrow> Some em
      | Some node \<Rightarrow> jit_handle_latent_delay_slot R (first_info st) (emit (jit_patch node) em))
   }"

text \<open>What the end of the code does: at the last boundary, and where the latent delay slot is handled.\<close>

definition tail_code :: "nat \<Rightarrow> (nat \<Rightarrow> u32) \<Rightarrow> nat \<Rightarrow> nat \<Rightarrow> region_state \<Rightarrow> emitter \<Rightarrow> bool" where
  "tail_code R mem pc_word n st em_f \<longleftrightarrow> (\<exists>B L. code em_f = code (reg_em st) @ B @ L \<and> local_branches em_f = local_branches (reg_em st) \<and>
     (\<forall>m \<in> local_nodes (reg_em st). jit_patch m \<notin> set (B @ L)) \<and> (\<forall>k. jit_label k \<notin> set (B @ L)) \<and>
     (\<forall>cl h s \<sigma>. before R (prev_info mem pc_word n n) n (reg_em st) h s \<sigma> \<longrightarrow> (\<exists>h'. exec cl B h = Jumps enter_thunk h' \<and>
        arrives enter_thunk h' (Running (place pc_word n AND 0xffc) (slot_at (prev_info mem pc_word n n) n h s) (globals h) \<sigma>))) \<and>
     (\<forall>k. latent_delay_slot st = Some k \<longrightarrow> jit_patch k \<notin> set B \<and> (\<exists>L'. L = jit_patch k # L' \<and>
        (\<forall>cl h \<sigma>. follows \<sigma> (cpu h) \<longrightarrow> sr (cpu h) 0 = 0 \<longrightarrow> (\<exists>h'. exec cl L' h = Jumps enter_thunk h' \<and>
           arrives enter_thunk h' (Running (branch_target (cpu h) AND 0xffc) (slot_of (first_info st) h (cpu h)) (globals h) \<sigma>))))))"

lemma runs_new: "runs cl (ops, h) (ops @ new) out \<Longrightarrow> exec cl new h = out"
  by (simp add: runs_def)

lemma tail_ok:
  assumes inv: "region_inv R mem pc_word n n n st" and n: "0 < n"
  obtains em_f where "region_tail R pc_word n st = Some em_f" "tail_code R mem pc_word n st em_f"
proof -
  let ?prev = "prev_info mem pc_word n n"
  have r: "ready R (reg_em st)" "3 \<le> length (entries (reg_em st))" "neat n (latent_delay_slot st) (reg_em st)" "last_info st = ?prev"
    using inv by (simp_all add: region_inv_def)
  obtain h0 s0 where rep: "represents R (reg_em st) [] h0 s0" "has_delay_slot s0 = 0" by (rule ready_clear [OF r(1)])
  have both: "\<exists>em1 em2 h'. flush_register_window R (reg_em st) = Some em1 \<and> jit_end_of_block R (place pc_word n) ?prev em1 = Some em2 \<and> vacant em2 \<and>
      length (entries em2) = length (entries (reg_em st)) \<and> runs cl (code (reg_em st), h) (code em2) (Jumps enter_thunk h') \<and>
      follows \<sigma> (cpu h') \<and> sr (cpu h') 0 = 0 \<and> globals h' = globals h \<and> pending_slot (cpu h') = slot_of ?prev h s \<and>
      ucast (jit_regs h' JIT_REGISTER_NEXT_PC) = place pc_word n"
    if rep: "represents R (reg_em st) [] h s" and d: "has_delay_slot s = 0" and f: "follows \<sigma> s" for cl h s \<sigma>
  proof -
    obtain em1 h1 where fl: "flush_register_window R (reg_em st) = Some em1" "emitted cl (code (reg_em st), h) (code em1) h1" "vacant em1"
      "agrees s (cpu h1)" "sr (cpu h1) 0 = 0" "same_shape (reg_em st) em1" "same_env h h1"
      by (rule flush_vacant [OF tracks_self [OF rep]]) blast
    have t1: "tracks R cl (code (reg_em st), h) em1 [] h1 (cpu h1)" using fl(2) vacant_represents [OF fl(3,5)] by (simp add: tracks_def)
    have len: "length (entries em1) = length (entries (reg_em st))" "3 \<le> length (entries em1)" using fl(6) r(2) by (simp_all add: same_shape_def)
    have d1: "has_delay_slot (cpu h1) = 0" using agrees_same_slot [OF fl(4)] d by (simp add: same_slot_def)
    have sl: "slot_of ?prev h1 (cpu h1) = slot_of ?prev h s" by (rule slot_of_agrees [OF fl(4,7)])
    obtain em2 h' where e: "jit_end_of_block R (place pc_word n) ?prev em1 = Some em2" "vacant em2"
      "runs cl (code (reg_em st), h) (code em2) (Jumps enter_thunk h')" "follows \<sigma> (cpu h')" "sr (cpu h') 0 = 0" "globals h' = globals h1"
      "pending_slot (cpu h') = slot_of ?prev h1 (cpu h1)" "ucast (jit_regs h' JIT_REGISTER_NEXT_PC) = place pc_word n"
      "length (entries em2) = length (entries em1)"
      by (rule end_of_block_runs [OF t1 len(2) d1 follows_agrees [OF f fl(4)]])
    have "globals h1 = globals h" using fl(7) by (simp add: same_env_def)
    then show ?thesis using fl(1) e len(1) sl by auto
  qed
  obtain em1 em2 where c: "flush_register_window R (reg_em st) = Some em1" "jit_end_of_block R (place pc_word n) ?prev em1 = Some em2" "vacant em2"
    "length (entries em2) = length (entries (reg_em st))" using both [OF rep follows_refl] by blast
  have g: "grows (reg_em st) em2" using grows_end_of_block [OF c(2)] grows_flush(1) [OF c(1) grows_refl] grows_trans by blast
  obtain B where B: "code em2 = code (reg_em st) @ B" "\<And>m. jit_patch m \<in> set B \<Longrightarrow> nodes (reg_em st) \<le> m" "\<And>k. jit_label k \<notin> set B"
    "local_branches em2 = local_branches (reg_em st)" "nodes (reg_em st) \<le> nodes em2" using g unfolding grows_def by blast
  have fin: "\<exists>h'. exec cl B h = Jumps enter_thunk h' \<and> arrives enter_thunk h' (Running (place pc_word n AND 0xffc) (slot_at ?prev n h s) (globals h) \<sigma>)"
    if bf: "before R ?prev n (reg_em st) h s \<sigma>" for cl h s \<sigma>
  proof -
    have "represents R (reg_em st) [] h s" "has_delay_slot s = 0" "follows \<sigma> s" using bf n by (simp_all add: before_def)
    from both [OF this] c(1,2) B(1) obtain h' where "exec cl B h = Jumps enter_thunk h'" "follows \<sigma> (cpu h')" "sr (cpu h') 0 = 0" "globals h' = globals h"
      "pending_slot (cpu h') = slot_of ?prev h s" "ucast (jit_regs h' JIT_REGISTER_NEXT_PC) = place pc_word n" by (auto dest: runs_new)
    then show ?thesis using n by (simp add: slot_at_def)
  qed
  have loc: "jit_patch m \<notin> set B" if "m \<in> local_nodes (reg_em st) \<or> latent_delay_slot st = Some m" for m using that B(2) r(3) by (force simp: neat_def)
  show thesis
  proof (cases "latent_delay_slot st")
    case None
    have "tail_code R mem pc_word n st em2"
      unfolding tail_code_def using B(1,3,4) fin loc None by (intro exI [of _ B] exI [of _ "[]"]) simp
    then show thesis using that c(1,2) None r(4) by (simp add: region_tail_def)
  next
    case (Some k)
    let ?em = "emit (jit_patch k) em2"
    have v: "vacant ?em" "3 \<le> length (entries ?em)" using c(3,4) r(2) by simp_all
    have zero: "sr (cpu example_host) 0 = 0" by (simp add: example_host_def reset_state_def)
    obtain em3 where l: "jit_handle_latent_delay_slot R (first_info st) ?em = Some em3"
      by (rule latent_slot_runs [OF v(1) emitted_refl zero v(2), of R "first_info st"]) blast
    obtain L' where L: "code em3 = code ?em @ L'" "\<And>m. jit_patch m \<in> set L' \<Longrightarrow> nodes ?em \<le> m" "\<And>k. jit_label k \<notin> set L'" "local_branches em3 = local_branches ?em"
      using grows_latent [OF l] unfolding grows_def by blast
    have latent: "\<exists>h'. exec cl L' h = Jumps enter_thunk h' \<and>
        arrives enter_thunk h' (Running (branch_target (cpu h) AND 0xffc) (slot_of (first_info st) h (cpu h)) (globals h) \<sigma>)"
      if fo: "follows \<sigma> (cpu h)" and z: "sr (cpu h) 0 = 0" for cl h \<sigma>
    proof -
      obtain em4 h' where e: "jit_handle_latent_delay_slot R (first_info st) ?em = Some em4" "runs cl (code ?em, h) (code em4) (Jumps enter_thunk h')"
        "follows \<sigma> (cpu h')" "sr (cpu h') 0 = 0" "globals h' = globals h" "pending_slot (cpu h') = slot_of (first_info st) h (cpu h)"
        "ucast (jit_regs h' JIT_REGISTER_NEXT_PC) = branch_target (cpu h)"
        by (rule latent_slot_runs [OF v(1) emitted_refl z v(2), of R "first_info st" cl]) (use fo in blast)
      have "em4 = em3" using e(1) l by simp
      then have "exec cl L' h = Jumps enter_thunk h'" using e(2) runs_new [of cl "code ?em" h L'] L(1) by (simp del: emit_simps)
      then show ?thesis using e(3-7) by simp
    qed
    have loc': "jit_patch m \<notin> set (B @ jit_patch k # L')" if "m \<in> local_nodes (reg_em st)" for m
      using that loc [of m] L(2) [of m] B(5) r(3) Some by (force simp: neat_def)
    have "tail_code R mem pc_word n st em3"
      unfolding tail_code_def
    proof (rule exI [of _ B], rule exI [of _ "jit_patch k # L'"], intro conjI allI impI ballI)
      show "code em3 = code (reg_em st) @ B @ jit_patch k # L'" using L(1) B(1) by simp
      show "local_branches em3 = local_branches (reg_em st)" using L(4) B(4) by simp
    qed (use L B fin loc loc' latent Some in \<open>auto simp del: arrives.simps\<close>)
    then show thesis using that c(1,2) Some r(4) l by (simp add: region_tail_def)
  qed
qed

subsection \<open>Entering an instruction\<close>

lemma enter_ok:
  assumes inv: "region_inv R mem pc_word n i i st"
  obtains em where "enter_block R entry i (reg_em st) = Some em" "region_inv R mem pc_word n (Suc i) i (st\<lparr>reg_em := em\<rparr>)"
    "entry \<Longrightarrow> vacant em \<and> (\<exists>pre. code em = pre @ [jit_label i] \<and> jit_label i \<notin> set pre)"
    "\<exists>new. code em = code (reg_em st) @ new" "local_branches em = local_branches (reg_em st)"
    "\<And>cl h s \<sigma> prev. before R prev i (reg_em st) h s \<sigma> \<Longrightarrow> \<exists>h' s'. emitted cl (code (reg_em st), h) (code em) h' \<and>
      before R prev i em h' s' \<sigma> \<and> slot_at prev i h' s' = slot_at prev i h s \<and> globals h' = globals h"
proof (cases entry)
  case False
  have "neat (Suc i) latent em" if "neat i latent em" for latent em using that by (auto simp: neat_def less_Suc_eq)
  then have "region_inv R mem pc_word n (Suc i) i st" using inv by (simp add: region_inv_def)
  then show thesis using that [of "reg_em st"] False emitted_refl by (fastforce simp: enter_block_def)
next
  case True
  have r: "ready R (reg_em st)" "neat i (latent_delay_slot st) (reg_em st)" using inv by (simp_all add: region_inv_def)
  obtain h0 s0 where rep: "represents R (reg_em st) [] h0 s0" by (rule ready_clear [OF r(1)])
  obtain em1 where fl: "flush_register_window R (reg_em st) = Some em1" "grows (reg_em st) em1"
    by (rule flush_vacant [OF tracks_self [OF rep]]) blast
  let ?em = "emit (jit_label i) (reset em1)"
  have e: "enter_block R entry i (reg_em st) = Some ?em" using True fl(1) by (simp add: enter_block_def)
  have code: "code ?em = code em1 @ [jit_label i]" by (simp add: reset_def)
  have n1: "neat i (latent_delay_slot st) em1" by (rule neat_grows [OF r(2) fl(2)])
  have labels: "jit_label i \<notin> set (code em1)" using n1 by (auto simp: neat_def)
  have v: "vacant ?em" by simp
  have "neat (Suc i) (latent_delay_slot st) ?em" using n1 by (auto simp: neat_def reset_def local_nodes_def less_Suc_eq)
  moreover have "length (entries ?em) = length (entries (reg_em st))" using grows_length [OF fl(2)] by (simp add: reset_def)
  ultimately have "region_inv R mem pc_word n (Suc i) i (st\<lparr>reg_em := ?em\<rparr>)" using inv vacant_ready [OF v] by (simp add: region_inv_def)
  moreover have "\<exists>h' s'. emitted cl (code (reg_em st), h) (code ?em) h' \<and> before R prev i ?em h' s' \<sigma> \<and> slot_at prev i h' s' = slot_at prev i h s \<and>
      globals h' = globals h" if bf: "before R prev i (reg_em st) h s \<sigma>" for cl h s \<sigma> prev
  proof -
    have rep: "represents R (reg_em st) [] h s" using bf by (simp add: before_def)
    obtain em2 h2 where f2: "flush_register_window R (reg_em st) = Some em2" "emitted cl (code (reg_em st), h) (code em2) h2" "agrees s (cpu h2)"
      "sr (cpu h2) 0 = 0" "same_env h h2"
      by (rule flush_vacant [OF tracks_self [OF rep]]) blast
    have em: "em2 = em1" using f2(1) fl(1) by simp
    have "emitted cl (code (reg_em st), h) (code ?em) h2" using emitted_append [OF f2(2), of "[jit_label i]" h2] unfolding code em by simp
    moreover have "before R prev i ?em h2 (cpu h2) \<sigma>"
      using vacant_represents [OF v f2(4)] bf follows_agrees [OF _ f2(3)] agrees_same_slot [OF f2(3)] by (simp add: before_def same_slot_def)
    moreover have "slot_at prev i h2 (cpu h2) = slot_at prev i h s"
      using slot_of_agrees [OF f2(3,5)] agrees_same_slot [OF f2(3)] by (simp add: slot_at_def pending_slot_def same_slot_def)
    ultimately show ?thesis using f2(5) unfolding same_env_def by blast
  qed
  ultimately show thesis using that [OF e] v code labels fl(2) by (auto simp: grows_def reset_def)
qed

lemma steps_ok:
  assumes "region_inv R mem pc_word n i i st" "i \<le> n" "pc_word + n \<le> 1024" "scalar_free rdp"
  shows "\<exists>stn. region_steps t rdp R mem pc_word n (jit_mark_block_entries mem pc_word (pc_word + n)) [i..<n] st = Some stn \<and>
    region_inv R mem pc_word n n n stn \<and> (\<exists>new. code (reg_em stn) = code (reg_em st) @ new) \<and>
    (\<exists>l. local_branches (reg_em stn) = local_branches (reg_em st) @ l) \<and> (i \<noteq> 0 \<longrightarrow> latent_delay_slot stn = latent_delay_slot st)"
  using assms(2,1)
proof (induction "n - i" arbitrary: i st)
  case 0
  then show ?case by auto
next
  case (Suc d)
  then have i: "i < n" by simp
  have upt: "[i..<n] = i # [Suc i..<n]" using i by (simp add: upt_conv_Cons)
  obtain em where e: "enter_block R (region_entry mem pc_word n i) i (reg_em st) = Some em" "region_inv R mem pc_word n (Suc i) i (st\<lparr>reg_em := em\<rparr>)"
    "\<exists>new. code em = code (reg_em st) @ new" "local_branches em = local_branches (reg_em st)"
    by (rule enter_ok [OF Suc.prems(2), of "region_entry mem pc_word n i"]) blast
  obtain st1 where b: "region_body t rdp R mem pc_word n i (st\<lparr>reg_em := em\<rparr>) = Some st1" "region_inv R mem pc_word n (Suc i) (Suc i) st1"
    "\<exists>new. code (reg_em st1) = code em @ new" "\<exists>l. local_branches (reg_em st1) = local_branches em @ l"
    "i \<noteq> 0 \<longrightarrow> latent_delay_slot st1 = latent_delay_slot st"
    by (rule body_ok [OF e(2) i assms(3,4), of t]) auto
  have "region_step t rdp R mem pc_word n (jit_mark_block_entries mem pc_word (pc_word + n)) i st = Some st1"
    using e(1) b(1) by (simp add: region_step_eq [OF i])
  moreover have "d = n - Suc i" "Suc i \<le> n" using Suc.hyps(2) i by simp_all
  from Suc.hyps(1) [OF this b(2)] obtain stn where
    "region_steps t rdp R mem pc_word n (jit_mark_block_entries mem pc_word (pc_word + n)) [Suc i..<n] st1 = Some stn" "region_inv R mem pc_word n n n stn"
    "\<exists>new. code (reg_em stn) = code (reg_em st1) @ new" "\<exists>l. local_branches (reg_em stn) = local_branches (reg_em st1) @ l"
    "latent_delay_slot stn = latent_delay_slot st1" by blast
  ultimately show ?case using b(3-5) e(3,4) by (auto simp: upt)
qed

subsection \<open>From the back\<close>

definition suffix_good :: "target \<Rightarrow> (CPUState \<Rightarrow> CPUState) \<Rightarrow> nat \<Rightarrow> (nat \<Rightarrow> u32) \<Rightarrow> nat \<Rightarrow> nat \<Rightarrow> emitter \<Rightarrow> nat \<Rightarrow> nat \<Rightarrow> emitter \<Rightarrow> jit_op list \<Rightarrow> bool" where
  "suffix_good t rdp R mem pc_word n em_f d i em new \<longleftrightarrow> (\<forall>cl h s \<sigma>. before R (prev_info mem pc_word n i) i em h s \<sigma> \<longrightarrow>
     good t rdp mem pc_word n em_f d (exec cl new h)
       (Running (place pc_word i AND 0xffc) (slot_at (prev_info mem pc_word n i) i h s) (globals h) \<sigma>))"

definition label_good :: "target \<Rightarrow> (CPUState \<Rightarrow> CPUState) \<Rightarrow> (nat \<Rightarrow> u32) \<Rightarrow> nat \<Rightarrow> nat \<Rightarrow> emitter \<Rightarrow> nat \<Rightarrow> bool" where
  "label_good t rdp mem pc_word n em_f j \<longleftrightarrow> (\<forall>cl h \<sigma>. enters \<sigma> h \<longrightarrow>
     good t rdp mem pc_word n em_f 1 (exec cl (from_label j (code em_f)) h) (Running (place pc_word j) None (globals h) \<sigma>))"

lemma suffix_weaken: "suffix_good t rdp R mem pc_word n em_f (if b then 1 else 0) i em new \<Longrightarrow> suffix_good t rdp R mem pc_word n em_f 0 i em new"
  unfolding suffix_good_def by (cases b) (auto intro: good_weaken)

text \<open>What is known of the code after an instruction, from its end.\<close>

lemma after_good:
  assumes a: "after_one R mem pc_word n i st (exec cl new h) m" and rest: "suffix_good t rdp R mem pc_word n em_f 0 (Suc i) (reg_em st) ys"
    and loc: "local_branches em_f = local_branches (reg_em st) @ l" "distinct (map fst (local_branches em_f))"
      "\<And>k. k \<in> local_nodes em_f \<Longrightarrow> jit_patch k \<notin> set ys"
    and latent: "\<And>k h' \<sigma>'. i = 0 \<Longrightarrow> latent_delay_slot st = Some k \<Longrightarrow> follows \<sigma>' (cpu h') \<Longrightarrow> sr (cpu h') 0 = 0 \<Longrightarrow>
      \<exists>mid L' h''. ys = mid @ jit_patch k # L' \<and> jit_patch k \<notin> set mid \<and> exec cl L' h' = Jumps enter_thunk h'' \<and>
        arrives enter_thunk h'' (Running (branch_target (cpu h') AND 0xffc) (slot_of (region_info mem pc_word n 0) h' (cpu h')) (globals h') \<sigma>')"
  shows "good t rdp mem pc_word n em_f 0 (exec cl (new @ ys) h) m"
proof (cases "exec cl new h")
  case (Falls h')
  have "next_pc (place pc_word i) None = place pc_word (Suc i) AND 0xffc" by (simp add: next_pc_def place_Suc)
  then obtain s' \<sigma>' where "before R (prev_info mem pc_word n (Suc i)) (Suc i) (reg_em st) h' s' \<sigma>'"
    "m = Running (place pc_word (Suc i) AND 0xffc) (slot_at (prev_info mem pc_word n (Suc i)) (Suc i) h' s') (globals h') \<sigma>'"
    using a Falls by (auto simp: after_one_def prev_info_def)
  then show ?thesis using rest unfolding exec_append_Falls [OF Falls] suffix_good_def by blast
next
  case (Jumps th h')
  then show ?thesis using a good_Jumps by (simp add: exec_append_Jumps [OF Jumps] after_one_def)
next
  case (Branches k h')
  have skip: "exec cl (new @ ys) h = (case dropWhile (\<lambda>x. \<not> is_patch k x) ys of [] \<Rightarrow> Branches k h' | _ # rest \<Rightarrow> exec cl rest h')"
    by (rule exec_append_Branches [OF Branches])
  consider (loc) j \<sigma>' where "(k, j) \<in> set (local_branches (reg_em st))" "region_entry mem pc_word n j" "m = Running (place pc_word j) None (globals h') \<sigma>'"
      "settled \<sigma>' (globals h') h'" "sr (cpu h') COND_BRANCH_TAKEN = 0"
    | (lat) \<sigma>' where "i = 0" "latent_delay_slot st = Some k" "follows \<sigma>' (cpu h')" "sr (cpu h') 0 = 0"
      "m = Running (branch_target (cpu h') AND 0xffc) (slot_of (region_info mem pc_word n 0) h' (cpu h')) (globals h') \<sigma>'"
    using a Branches unfolding after_one_def by auto
  then show ?thesis
  proof cases
    case loc': loc
    have in_f: "(k, j) \<in> set (local_branches em_f)" using loc(1) loc'(1) by simp
    then have "jit_patch k \<notin> set ys" using loc(3) by (force simp: local_nodes_def)
    then have "dropWhile (\<lambda>x. \<not> is_patch k x) ys = []" using skip_code [of k ys "[]"] by simp
    then have "exec cl (new @ ys) h = Branches k h'" unfolding skip by (simp only: list.case)
    moreover have "map_of (local_branches em_f) k = Some j" using in_f loc(2) by simp
    moreover have "enters \<sigma>' h'" using loc'(4,5) by (simp add: enters_def settled_def)
    ultimately show ?thesis unfolding good_def using loc'(2,3) by (simp, intro exI [of _ 0]) auto
  next
    case lat
    from latent [OF lat(1-4)] obtain mid L' h'' where l: "ys = mid @ jit_patch k # L'" "jit_patch k \<notin> set mid" "exec cl L' h' = Jumps enter_thunk h''"
      "arrives enter_thunk h'' m" unfolding lat(5) by blast
    have "dropWhile (\<lambda>x. \<not> is_patch k x) ys = jit_patch k # L'" unfolding l(1) skip_code [OF l(2)] by simp
    then have "exec cl (new @ ys) h = Jumps enter_thunk h''" unfolding skip using l(3) by simp
    then show ?thesis using good_Jumps [OF l(4)] by simp
  qed
qed

lemma region_suffix:
  assumes region: "pc_word + n \<le> 1024" "0 < n" and rdp: "scalar_free rdp" and ok: "\<And>j. j < n \<Longrightarrow> slot_allowed mem pc_word n j"
    and tail: "tail_code R mem pc_word n stn em_f" and invn: "region_inv R mem pc_word n n n stn"
  shows "i \<le> n \<Longrightarrow> region_inv R mem pc_word n i i st \<Longrightarrow>
    region_steps t rdp R mem pc_word n (jit_mark_block_entries mem pc_word (pc_word + n)) [i..<n] st = Some stn \<Longrightarrow>
    \<exists>new. code em_f = code (reg_em st) @ new \<and> suffix_good t rdp R mem pc_word n em_f (if i < n then 1 else 0) i (reg_em st) new \<and>
      (\<forall>j. i \<le> j \<and> region_entry mem pc_word n j \<longrightarrow> label_good t rdp mem pc_word n em_f j)"
proof (induction "n - i" arbitrary: i st)
  case 0
  then have i: "i = n" "st = stn" by simp_all
  obtain B L where B: "code em_f = code (reg_em stn) @ B @ L" "\<And>cl h s \<sigma>. before R (prev_info mem pc_word n n) n (reg_em stn) h s \<sigma> \<Longrightarrow>
      \<exists>h'. exec cl B h = Jumps enter_thunk h' \<and>
        arrives enter_thunk h' (Running (place pc_word n AND 0xffc) (slot_at (prev_info mem pc_word n n) n h s) (globals h) \<sigma>)"
    using tail unfolding tail_code_def by blast
  have "suffix_good t rdp R mem pc_word n em_f 0 n (reg_em stn) (B @ L)"
    unfolding suffix_good_def
  proof (intro allI impI)
    fix cl h s \<sigma> assume "before R (prev_info mem pc_word n n) n (reg_em stn) h s \<sigma>"
    from B(2) [OF this, of cl] obtain h' where h': "exec cl B h = Jumps enter_thunk h'"
      "arrives enter_thunk h' (Running (place pc_word n AND 0xffc) (slot_at (prev_info mem pc_word n n) n h s) (globals h) \<sigma>)" by blast
    show "good t rdp mem pc_word n em_f 0 (exec cl (B @ L) h)
        (Running (place pc_word n AND 0xffc) (slot_at (prev_info mem pc_word n n) n h s) (globals h) \<sigma>)"
      unfolding exec_append_Jumps [OF h'(1)] by (rule good_Jumps [OF h'(2)])
  qed
  moreover have "\<not> region_entry mem pc_word n j" if "n \<le> j" for j using that by (simp add: region_entry_def)
  ultimately show ?case using B(1) i by (intro exI [of _ "B @ L"]) auto
next
  case (Suc d)
  then have i: "i < n" by simp
  let ?prev = "prev_info mem pc_word n i"
  obtain em where e: "enter_block R (region_entry mem pc_word n i) i (reg_em st) = Some em" "region_inv R mem pc_word n (Suc i) i (st\<lparr>reg_em := em\<rparr>)"
    "region_entry mem pc_word n i \<Longrightarrow> vacant em \<and> (\<exists>pre. code em = pre @ [jit_label i] \<and> jit_label i \<notin> set pre)"
    "\<exists>new. code em = code (reg_em st) @ new"
    "\<And>cl h s \<sigma> prev. before R prev i (reg_em st) h s \<sigma> \<Longrightarrow> \<exists>h' s'. emitted cl (code (reg_em st), h) (code em) h' \<and>
      before R prev i em h' s' \<sigma> \<and> slot_at prev i h' s' = slot_at prev i h s \<and> globals h' = globals h"
    by (rule enter_ok [OF Suc.prems(2), of "region_entry mem pc_word n i"]) blast
  obtain st1 where b: "region_body t rdp R mem pc_word n i (st\<lparr>reg_em := em\<rparr>) = Some st1" "region_inv R mem pc_word n (Suc i) (Suc i) st1"
    "\<exists>new. code (reg_em st1) = code em @ new"
    by (rule body_ok [OF e(2) i region(1) rdp, of t]) auto
  have "region_step t rdp R mem pc_word n (jit_mark_block_entries mem pc_word (pc_word + n)) i st = Some st1"
    using e(1) b(1) by (simp add: region_step_eq [OF i])
  moreover have "[i..<n] = i # [Suc i..<n]" using i by (simp add: upt_conv_Cons)
  ultimately have steps: "region_steps t rdp R mem pc_word n (jit_mark_block_entries mem pc_word (pc_word + n)) [Suc i..<n] st1 = Some stn"
    using Suc.prems(3) by simp
  have Sn: "d = n - Suc i" "Suc i \<le> n" using Suc.hyps(2) i by simp_all
  obtain ys where ys: "code em_f = code (reg_em st1) @ ys" "suffix_good t rdp R mem pc_word n em_f 0 (Suc i) (reg_em st1) ys"
    "\<And>j. Suc i \<le> j \<Longrightarrow> region_entry mem pc_word n j \<Longrightarrow> label_good t rdp mem pc_word n em_f j"
  proof -
    from Suc.hyps(1) [OF Sn b(2) steps] obtain ys where "code em_f = code (reg_em st1) @ ys"
      "suffix_good t rdp R mem pc_word n em_f (if Suc i < n then 1 else 0) (Suc i) (reg_em st1) ys"
      "\<forall>j. Suc i \<le> j \<and> region_entry mem pc_word n j \<longrightarrow> label_good t rdp mem pc_word n em_f j" by blast
    then show thesis using that suffix_weaken by blast
  qed
  obtain mid l where on: "code (reg_em stn) = code (reg_em st1) @ mid" "local_branches (reg_em stn) = local_branches (reg_em st1) @ l"
    "latent_delay_slot stn = latent_delay_slot st1"
    using steps_ok [OF b(2) Sn(2) region(1) rdp, of t] steps by auto
  obtain B L where BL: "code em_f = code (reg_em stn) @ B @ L" "local_branches em_f = local_branches (reg_em stn)"
    "\<And>m. m \<in> local_nodes (reg_em stn) \<Longrightarrow> jit_patch m \<notin> set (B @ L)"
    "\<And>k. latent_delay_slot stn = Some k \<Longrightarrow> jit_patch k \<notin> set B \<and> (\<exists>L'. L = jit_patch k # L' \<and>
        (\<forall>cl h \<sigma>. follows \<sigma> (cpu h) \<longrightarrow> sr (cpu h) 0 = 0 \<longrightarrow> (\<exists>h'. exec cl L' h = Jumps enter_thunk h' \<and>
           arrives enter_thunk h' (Running (branch_target (cpu h) AND 0xffc) (slot_of (first_info stn) h (cpu h)) (globals h) \<sigma>))))"
    using tail unfolding tail_code_def by (elim exE conjE) (rule that; simp)
  have split: "ys = mid @ B @ L" using BL(1) on(1) ys(1) by simp
  have neat: "neat n (latent_delay_slot stn) (reg_em stn)" using invn by (simp add: region_inv_def)
  obtain nb where nb: "code (reg_em st1) = code em @ nb" using b(3) by blast
  have prev: "before R ?prev i (reg_em (st\<lparr>reg_em := em\<rparr>)) h s \<sigma> = before R ?prev i em h s \<sigma>" for h s \<sigma> by simp
  have body: "good t rdp mem pc_word n em_f 1 (exec cl (nb @ ys) h) (Running (place pc_word i) (slot_at ?prev i h s) (globals h) \<sigma>)"
    if bf: "before R ?prev i em h s \<sigma>" for cl h s \<sigma>
  proof (rule good_step, rule after_good [OF _ ys(2)])
    obtain out where "runs cl (code em, h) (code (reg_em st1)) out"
      "after_one R mem pc_word n i st1 out (machine_step t rdp mem (Running (place pc_word i) (slot_at ?prev i h s) (globals h) \<sigma>))"
      using body_runs [OF e(2) i region(1) rdp ok [OF i] _ b(1), of h s \<sigma> cl] bf by auto
    then show "after_one R mem pc_word n i st1 (exec cl nb h) (machine_step t rdp mem (Running (place pc_word i) (slot_at ?prev i h s) (globals h) \<sigma>))"
      using nb runs_new by metis
    show "local_branches em_f = local_branches (reg_em st1) @ l" using BL(2) on(2) by simp
    show "distinct (map fst (local_branches em_f))" using neat BL(2) by (simp add: neat_def)
    show "jit_patch k \<notin> set ys" if "k \<in> local_nodes em_f" for k
    proof -
      have "k \<in> local_nodes (reg_em stn)" using that BL(2) by (simp add: local_nodes_def)
      then have "jit_patch k \<notin> set (code (reg_em stn))" "jit_patch k \<notin> set (B @ L)" using neat BL(3) by (auto simp: neat_def)
      then show ?thesis using on(1) split by simp
    qed
    fix k and h' :: host and \<sigma>' assume k: "i = 0" "latent_delay_slot st1 = Some k" "follows \<sigma>' (cpu h')" "sr (cpu h') 0 = 0"
    have kn: "latent_delay_slot stn = Some k" using k(2) on(3) by simp
    have first: "first_info stn = region_info mem pc_word n 0" using invn kn region(2) by (simp add: region_inv_def)
    obtain L' h'' where L': "jit_patch k \<notin> set B" "L = jit_patch k # L'" "exec cl L' h' = Jumps enter_thunk h''"
      "arrives enter_thunk h'' (Running (branch_target (cpu h') AND 0xffc) (slot_of (first_info stn) h' (cpu h')) (globals h') \<sigma>')"
      using BL(4) [OF kn] k(3,4) by blast
    have "jit_patch k \<notin> set (code (reg_em stn))" using neat kn by (auto simp: neat_def)
    then have "jit_patch k \<notin> set (mid @ B)" using on(1) L'(1) by simp
    moreover have "ys = (mid @ B) @ jit_patch k # L'" using split L'(2) by simp
    ultimately show "\<exists>mid L' h''. ys = mid @ jit_patch k # L' \<and> jit_patch k \<notin> set mid \<and> exec cl L' h' = Jumps enter_thunk h'' \<and>
        arrives enter_thunk h'' (Running (branch_target (cpu h') AND 0xffc) (slot_of (region_info mem pc_word n 0) h' (cpu h')) (globals h') \<sigma>')"
      using L'(3,4) unfolding first by blast
  qed
  have ffc: "place pc_word i AND 0xffc = place pc_word i" using place_ffc [of pc_word i] i region by simp
  obtain ne where ne: "code em = code (reg_em st) @ ne" using e(4) by blast
  have code: "code em_f = code em @ nb @ ys" using ys(1) nb by simp
  have "suffix_good t rdp R mem pc_word n em_f 1 i (reg_em st) (ne @ nb @ ys)"
    unfolding suffix_good_def ffc
  proof (intro allI impI)
    fix cl h s \<sigma> assume "before R ?prev i (reg_em st) h s \<sigma>"
    from e(5) [OF this, of cl] obtain h' s' where h': "emitted cl (code (reg_em st), h) (code em) h'" "before R ?prev i em h' s' \<sigma>"
      "slot_at ?prev i h' s' = slot_at ?prev i h s" "globals h' = globals h" by blast
    have "exec cl ne h = Falls h'" using h'(1) ne by (simp add: emitted_def)
    from body [OF h'(2), of cl] show "good t rdp mem pc_word n em_f 1 (exec cl (ne @ nb @ ys) h) (Running (place pc_word i) (slot_at ?prev i h s) (globals h) \<sigma>)"
      unfolding exec_append_Falls [OF \<open>exec cl ne h = Falls h'\<close>] h'(3,4) .
  qed
  moreover have "label_good t rdp mem pc_word n em_f i" if entry: "region_entry mem pc_word n i"
    unfolding label_good_def
  proof (intro allI impI)
    fix cl h \<sigma> assume en: "enters \<sigma> h"
    obtain pre where pre: "vacant em" "code em = pre @ [jit_label i]" "jit_label i \<notin> set pre" using e(3) [OF entry] by blast
    have "from_label i (code em_f) = nb @ ys"
    proof -
      have "dropWhile (\<lambda>x. x \<noteq> jit_label i) (pre @ jit_label i # nb @ ys) = jit_label i # nb @ ys"
        using pre(3) by (subst dropWhile_append2) auto
      then show ?thesis by (simp add: from_label_def code pre(2))
    qed
    moreover have bf: "before R ?prev i em h (cpu h) \<sigma>" using en vacant_represents [OF pre(1)] by (simp add: before_def enters_def)
    moreover have "slot_at ?prev i h (cpu h) = None"
      using en ok [OF i] entry by (auto simp: slot_at_def pending_slot_def enters_def slot_of_def slot_allowed_def Let_def)
    ultimately show "good t rdp mem pc_word n em_f 1 (exec cl (from_label i (code em_f)) h) (Running (place pc_word i) None (globals h) \<sigma>)"
      using body [OF bf, of cl] by simp
  qed
  moreover have "code em_f = code (reg_em st) @ ne @ nb @ ys" using code ne by simp
  moreover have "label_good t rdp mem pc_word n em_f j" if "i \<le> j" "region_entry mem pc_word n j" for j
    using that ys(3) \<open>region_entry mem pc_word n i \<Longrightarrow> label_good t rdp mem pc_word n em_f i\<close> by (cases "j = i") auto
  ultimately show ?case using i by (intro exI [of _ "ne @ nb @ ys"]) auto
qed

end
