(* ===== verification/Jit_Correct.thy ===== *)
theory Jit_Correct
  imports Jit_Simulation
begin

unbundle bit_operations_syntax

text \<open>
  What the recompiler guarantees of a region: it compiles without failing an assertion; its code, when it leaves, has arrived where the
  machine of \<open>Mips_Machine\<close> arrives; and it fails to leave only where the machine stays in the region.
\<close>

section \<open>A compiled region\<close>

definition start_state :: "emitter \<Rightarrow> region_state" where
  "start_state em = \<lparr>reg_em = (reset em)\<lparr>code := [], nodes := 0, local_branches := []\<rparr>, last_info = no_info, first_info = no_info,
     latent_delay_slot = None\<rparr>"

lemma jit_region_eq: "n \<le> 128 \<Longrightarrow> jit_region t rdp R mem pc_word n em =
    region_steps t rdp R mem pc_word n (jit_mark_block_entries mem pc_word (pc_word + n)) [0..<n] (start_state em) \<bind> region_tail R pc_word n"
proof -
  assume "n \<le> 128"
  then have "assert_that (n \<le> 128) = Some ()" by (simp add: assert_that_def)
  moreover have "region_tail R pc_word n = (\<lambda>st. flush_register_window R (reg_em st) \<bind> (\<lambda>em. jit_end_of_block R (word_of_nat ((pc_word + n) * 4)) (last_info st) em \<bind>
      (\<lambda>em. case latent_delay_slot st of None \<Rightarrow> Some em | Some node \<Rightarrow> jit_handle_latent_delay_slot R (first_info st) (emit (jit_patch node) em))))"
    by (simp add: fun_eq_iff region_tail_def place_def)
  ultimately show ?thesis by (simp add: jit_region_def start_state_def)
qed

lemma start_inv: "3 \<le> length (entries em) \<Longrightarrow> R \<le> length (entries em) \<Longrightarrow> region_inv R mem pc_word n 0 0 (start_state em)"
proof -
  have "vacant (reg_em (start_state em))" by (simp add: start_state_def vacant_def reset_def empty_entry_def)
  then show "3 \<le> length (entries em) \<Longrightarrow> R \<le> length (entries em) \<Longrightarrow> region_inv R mem pc_word n 0 0 (start_state em)"
    using vacant_ready by (simp add: region_inv_def neat_def local_nodes_def start_state_def reset_def prev_info_def)
qed

lemma start_before: "sr (cpu h) 0 = 0 \<Longrightarrow> follows \<sigma> (cpu h) \<Longrightarrow> before R (prev_info mem pc_word n 0) 0 (reg_em (start_state em)) h (cpu h) \<sigma>"
proof -
  have "vacant (reg_em (start_state em))" by (simp add: start_state_def vacant_def reset_def empty_entry_def)
  then show "sr (cpu h) 0 = 0 \<Longrightarrow> follows \<sigma> (cpu h) \<Longrightarrow> before R (prev_info mem pc_word n 0) 0 (reg_em (start_state em)) h (cpu h) \<sigma>"
    using vacant_represents by (simp add: before_def)
qed

lemma region_good:
  assumes n: "0 < n" "n \<le> 128" "pc_word + n \<le> 1024" and em: "3 \<le> length (entries em)" "R \<le> length (entries em)" and rdp: "scalar_free rdp"
  obtains em_f where "jit_region t rdp R mem pc_word n em = Some em_f"
    "(\<And>j. j < n \<Longrightarrow> slot_allowed mem pc_word n j) \<Longrightarrow> (\<forall>j. region_entry mem pc_word n j \<longrightarrow> label_good t rdp mem pc_word n em_f j) \<and>
      (\<forall>cl h \<sigma>. sr (cpu h) 0 = 0 \<longrightarrow> follows \<sigma> (cpu h) \<longrightarrow> good t rdp mem pc_word n em_f 1 (exec cl (code em_f) h)
        (Running (place pc_word 0) (pending_slot (cpu h)) (globals h) \<sigma>))"
proof -
  let ?st = "start_state em" and ?entry = "jit_mark_block_entries mem pc_word (pc_word + n)"
  note inv = start_inv [OF em, of mem pc_word n]
  obtain stn where st: "region_steps t rdp R mem pc_word n ?entry [0..<n] ?st = Some stn" "region_inv R mem pc_word n n n stn"
    using steps_ok [OF inv _ n(3) rdp, of t] by auto
  obtain em_f where f: "region_tail R pc_word n stn = Some em_f" "tail_code R mem pc_word n stn em_f" by (rule tail_ok [OF st(2) n(1)])
  have "jit_region t rdp R mem pc_word n em = Some em_f" using st(1) f(1) by (simp add: jit_region_eq [OF n(2)])
  moreover have "(\<forall>j. region_entry mem pc_word n j \<longrightarrow> label_good t rdp mem pc_word n em_f j) \<and>
      (\<forall>cl h \<sigma>. sr (cpu h) 0 = 0 \<longrightarrow> follows \<sigma> (cpu h) \<longrightarrow> good t rdp mem pc_word n em_f 1 (exec cl (code em_f) h)
        (Running (place pc_word 0) (pending_slot (cpu h)) (globals h) \<sigma>))"
    if ok: "\<And>j. j < n \<Longrightarrow> slot_allowed mem pc_word n j"
  proof -
    obtain new where new: "code em_f = code (reg_em ?st) @ new" "suffix_good t rdp R mem pc_word n em_f 1 0 (reg_em ?st) new"
      "\<forall>j. 0 \<le> j \<and> region_entry mem pc_word n j \<longrightarrow> label_good t rdp mem pc_word n em_f j"
      using region_suffix [OF n(3,1) rdp ok f(2) st(2) _ inv st(1)] n(1) by auto
    have "code em_f = new" using new(1) by (simp add: start_state_def)
    moreover have "place pc_word 0 AND 0xffc = place pc_word 0" using place_ffc [of pc_word 0] n by simp
    ultimately have "good t rdp mem pc_word n em_f 1 (exec cl (code em_f) h) (Running (place pc_word 0) (pending_slot (cpu h)) (globals h) \<sigma>)"
      if "sr (cpu h) 0 = 0" "follows \<sigma> (cpu h)" for cl h \<sigma>
      using new(2) start_before [OF that] unfolding suffix_good_def by (force simp: slot_at_def)
    then show ?thesis using new(3) by simp
  qed
  ultimately show thesis using that by blast
qed

section \<open>Running a compiled region\<close>

lemma run_code_arrives:
  assumes labels: "\<forall>j. region_entry mem pc_word n j \<longrightarrow> label_good t rdp mem pc_word n em_f j"
  shows "run_code cl em_f ops h = Some r \<Longrightarrow> good t rdp mem pc_word n em_f d (exec cl ops h) c \<Longrightarrow>
    \<exists>k\<ge>d. arrives (fst r) (snd r) (machine_steps t rdp mem k c)"
proof -
  define P where "P cl em ops h r \<longleftrightarrow> em = em_f \<longrightarrow> (\<forall>c d. good t rdp mem pc_word n em_f d (exec cl ops h) c \<longrightarrow>
      (\<exists>k\<ge>d. arrives (fst r) (snd r) (machine_steps t rdp mem k c)))" for cl em ops h r
  have "P cl em ops h r" if "run_code cl em ops h = Some r" for cl em ops h r
    using that
  proof (rule run_code.raw_induct [where P = P, rotated])
    fix run cl em ops h r
    assume IH: "\<And>cl em ops h r. run cl em ops h = Some r \<Longrightarrow> P cl em ops h r"
      and run: "(case exec cl ops h of Falls h' \<Rightarrow> None | Jumps t h' \<Rightarrow> Some (t, h')
        | Branches n h' \<Rightarrow> (case map_of (local_branches em) n of None \<Rightarrow> None | Some i \<Rightarrow> run cl em (from_label i (code em)) h')) = Some r"
    show "P cl em ops h r" unfolding P_def
    proof (intro impI allI)
      fix c d assume em: "em = em_f" and g: "good t rdp mem pc_word n em_f d (exec cl ops h) c"
      show "\<exists>k\<ge>d. arrives (fst r) (snd r) (machine_steps t rdp mem k c)"
      proof (cases "exec cl ops h")
        case (Falls h')
        then show ?thesis using g by (simp add: good_def)
      next
        case (Jumps th h')
        then show ?thesis using g run by (auto simp: good_def)
      next
        case (Branches m h')
        then obtain j k \<sigma>' where b: "d \<le> k" "map_of (local_branches em_f) m = Some j" "region_entry mem pc_word n j"
          "machine_steps t rdp mem k c = Running (place pc_word j) None (globals h') \<sigma>'" "enters \<sigma>' h'" using g by (auto simp: good_def)
        have "run cl em (from_label j (code em)) h' = Some r" using run Branches b(2) em by simp
        from IH [OF this] em have "\<exists>k\<ge>1. arrives (fst r) (snd r) (machine_steps t rdp mem k c)"
          if "good t rdp mem pc_word n em_f 1 (exec cl (from_label j (code em_f)) h') c" for c using that by (simp add: P_def)
        moreover have "good t rdp mem pc_word n em_f 1 (exec cl (from_label j (code em_f)) h') (machine_steps t rdp mem k c)"
          using labels b(3,5) unfolding b(4) label_good_def by blast
        ultimately obtain k' where k': "arrives (fst r) (snd r) (machine_steps t rdp mem k' (machine_steps t rdp mem k c))" by blast
        show ?thesis using b(1) k' unfolding machine_steps_add [symmetric] by (intro exI [of _ "k + k'"] conjI) simp_all
      qed
    qed
  qed
  then show "run_code cl em_f ops h = Some r \<Longrightarrow> good t rdp mem pc_word n em_f d (exec cl ops h) c \<Longrightarrow>
    \<exists>k\<ge>d. arrives (fst r) (snd r) (machine_steps t rdp mem k c)" unfolding P_def by blast
qed

text \<open>Code that does not return goes to marked entries of the region for ever, and so does the machine.\<close>

lemma run_code_stays:
  assumes labels: "\<forall>j. region_entry mem pc_word n j \<longrightarrow> label_good t rdp mem pc_word n em_f j"
  shows "run_code cl em_f ops h = None \<Longrightarrow> good t rdp mem pc_word n em_f d (exec cl ops h) c \<Longrightarrow>
    \<exists>k j gl \<sigma>'. d + K \<le> k \<and> region_entry mem pc_word n j \<and> machine_steps t rdp mem k c = Running (place pc_word j) None gl \<sigma>'"
proof (induction K arbitrary: ops h c d)
  case step: 0
  then obtain m h' where "exec cl ops h = Branches m h'"
    by (cases "exec cl ops h") (auto simp: good_def run_code.simps [of cl em_f ops h])
  then show ?case using step(2) by (auto simp: good_def)
next
  case (Suc K)
  from Suc.prems obtain m h' where e: "exec cl ops h = Branches m h'"
    by (cases "exec cl ops h") (auto simp: good_def run_code.simps [of cl em_f ops h])
  then obtain j k \<sigma>' where b: "d \<le> k" "map_of (local_branches em_f) m = Some j" "region_entry mem pc_word n j"
    "machine_steps t rdp mem k c = Running (place pc_word j) None (globals h') \<sigma>'" "enters \<sigma>' h'" using Suc.prems(2) by (auto simp: good_def)
  have "run_code cl em_f (from_label j (code em_f)) h' = None" using Suc.prems(1) e b(2) by (simp add: run_code.simps [of cl em_f ops h])
  moreover have "good t rdp mem pc_word n em_f 1 (exec cl (from_label j (code em_f)) h') (machine_steps t rdp mem k c)"
    using labels b(3,5) unfolding b(4) label_good_def by blast
  ultimately obtain k' j' gl \<sigma>'' where "1 + K \<le> k'" "region_entry mem pc_word n j'"
    "machine_steps t rdp mem k' (machine_steps t rdp mem k c) = Running (place pc_word j') None gl \<sigma>''"
    using Suc.IH by blast
  then show ?case using b(1) unfolding machine_steps_add [symmetric] by (intro exI [of _ "k + k'"] exI [of _ j']) auto
qed

section \<open>Running to the end\<close>

definition region_allowed :: "(nat \<Rightarrow> u32) \<Rightarrow> nat \<Rightarrow> nat \<Rightarrow> bool" where
  "region_allowed mem pc_word n \<longleftrightarrow> list_all (slot_allowed mem pc_word n) [0..<n]"

lemma region_run:
  assumes "0 < n" "n \<le> 128" "pc_word + n \<le> 1024" and "3 \<le> length (entries em)" "R \<le> length (entries em)" and "scalar_free rdp"
    and "region_allowed mem pc_word n"
  obtains em_f where "jit_region t rdp R mem pc_word n em = Some em_f"
    "\<And>cl h \<sigma> th h'. sr (cpu h) 0 = 0 \<Longrightarrow> follows \<sigma> (cpu h) \<Longrightarrow> run_region cl em_f h = Some (th, h') \<Longrightarrow>
       \<exists>k\<ge>1. arrives th h' (machine_steps t rdp mem k (Running (place pc_word 0) (pending_slot (cpu h)) (globals h) \<sigma>))"
    "\<And>cl h \<sigma> K. sr (cpu h) 0 = 0 \<Longrightarrow> follows \<sigma> (cpu h) \<Longrightarrow> run_region cl em_f h = None \<Longrightarrow>
       \<exists>k\<ge>K. \<exists>j<n. \<exists>gl \<sigma>'. machine_steps t rdp mem k (Running (place pc_word 0) (pending_slot (cpu h)) (globals h) \<sigma>) =
         Running (place pc_word j) None gl \<sigma>'"
proof (rule region_good [OF assms(1-6), of t mem])
  fix em_f
  assume em: "jit_region t rdp R mem pc_word n em = Some em_f"
    "(\<And>j. j < n \<Longrightarrow> slot_allowed mem pc_word n j) \<Longrightarrow> (\<forall>j. region_entry mem pc_word n j \<longrightarrow> label_good t rdp mem pc_word n em_f j) \<and>
      (\<forall>cl h \<sigma>. sr (cpu h) 0 = 0 \<longrightarrow> follows \<sigma> (cpu h) \<longrightarrow> good t rdp mem pc_word n em_f 1 (exec cl (code em_f) h)
        (Running (place pc_word 0) (pending_slot (cpu h)) (globals h) \<sigma>))"
  have "\<And>j. j < n \<Longrightarrow> slot_allowed mem pc_word n j" using assms(7) by (simp add: region_allowed_def list_all_iff)
  note ok = em(2) [OF this]
  then have labels: "\<forall>j. region_entry mem pc_word n j \<longrightarrow> label_good t rdp mem pc_word n em_f j" by blast
  show thesis
  proof (rule that [OF em(1)])
    fix cl th and h h' :: host and \<sigma> assume "sr (cpu h) 0 = 0" "follows \<sigma> (cpu h)" "run_region cl em_f h = Some (th, h')"
    then show "\<exists>k\<ge>1. arrives th h' (machine_steps t rdp mem k (Running (place pc_word 0) (pending_slot (cpu h)) (globals h) \<sigma>))"
      using run_code_arrives [OF labels, of cl "code em_f" h "(th, h')" 1] ok by (simp add: run_region_def)
  next
    fix cl and h :: host and \<sigma> K assume h: "sr (cpu h) 0 = 0" "follows \<sigma> (cpu h)" "run_region cl em_f h = None"
    then have "good t rdp mem pc_word n em_f 1 (exec cl (code em_f) h) (Running (place pc_word 0) (pending_slot (cpu h)) (globals h) \<sigma>)"
      using ok by blast
    from run_code_stays [OF labels h(3) [unfolded run_region_def] this, of K] obtain k j gl \<sigma>' where "1 + K \<le> k" "region_entry mem pc_word n j"
      "machine_steps t rdp mem k (Running (place pc_word 0) (pending_slot (cpu h)) (globals h) \<sigma>) = Running (place pc_word j) None gl \<sigma>'"
      by blast
    then show "\<exists>k\<ge>K. \<exists>j<n. \<exists>gl \<sigma>'. machine_steps t rdp mem k (Running (place pc_word 0) (pending_slot (cpu h)) (globals h) \<sigma>) =
         Running (place pc_word j) None gl \<sigma>'"
      by (intro exI [of _ k] conjI exI [of _ j]) (auto simp: region_entry_def)
  qed
qed

lemma stopped_stays: "machine_steps t rdp mem k c = Stopped mode pc' gl s \<Longrightarrow> k \<le> k' \<Longrightarrow> machine_steps t rdp mem k' c = Stopped mode pc' gl s"
proof -
  have stop: "machine_steps t rdp mem d (Stopped mode pc' gl s) = Stopped mode pc' gl s" for d
    by (induction d) (simp_all add: machine_step.simps)
  assume "machine_steps t rdp mem k c = Stopped mode pc' gl s" "k \<le> k'"
  then show ?thesis using stop [of "k' - k"] machine_steps_add [of t rdp mem k "k' - k" c] by simp
qed

definition resolved_outcome :: "(nat \<Rightarrow> u32) \<Rightarrow> nat \<Rightarrow> nat \<Rightarrow> emitter \<Rightarrow> outcome \<Rightarrow> bool" where
  "resolved_outcome mem pc_word n em out \<longleftrightarrow> (case out of Falls h' \<Rightarrow> False | Jumps th h' \<Rightarrow> True
     | Branches m h' \<Rightarrow> enters (cpu h') h' \<and> (case map_of (local_branches em) m of None \<Rightarrow> False
         | Some j \<Rightarrow> j < n \<and> jit_mark_block_entries mem pc_word (pc_word + n) ! j \<and> jit_label j \<in> set (code em)))"

lemma good_resolved:
  assumes "good t rdp mem pc_word n em k out c" and labels: "\<forall>j. region_entry mem pc_word n j \<longrightarrow> label_good t rdp mem pc_word n em j"
  shows "resolved_outcome mem pc_word n em out"
proof -
  have "jit_label j \<in> set (code em)" if "region_entry mem pc_word n j" "enters \<sigma> h" for j \<sigma> h
  proof (rule ccontr)
    assume "jit_label j \<notin> set (code em)"
    then have "dropWhile (\<lambda>x. x \<noteq> jit_label j) (code em) = []" by (simp only: dropWhile_eq_Nil_conv) blast
    then have "from_label j (code em) = []" unfolding from_label_def by (simp only: list.sel)
    then show False using labels that by (fastforce simp: label_good_def good_def)
  qed
  then show ?thesis using assms(1)
    by (cases out) (auto simp: good_def resolved_outcome_def region_entry_def enters_def split: option.split)
qed

section \<open>Properties\<close>

text \<open>C35: the region compiler never fails an assertion on its own account. For every non-empty region inside IMEM, whatever its
  instructions are, \<open>jit_region\<close> produces code exactly when the region has at most the 128 instructions it asserts: no instruction, no
  branch, no pair of branches and no end of the region runs out of registers, unlocks an unlocked register or flushes a locked one.\<close>

theorem region_compiles:
  assumes "0 < n" and "pc_word + n \<le> 1024" and "3 \<le> length (entries em)" and "R \<le> length (entries em)" and "scalar_free rdp"
  shows "jit_region t rdp R mem pc_word n em \<noteq> None \<longleftrightarrow> n \<le> 128"
proof (cases "n \<le> 128")
  case True
  obtain em_f where "jit_region t rdp R mem pc_word n em = Some em_f" by (rule region_good [OF assms(1) True assms(2-5), of t mem])
  then show ?thesis using True by simp
next
  case False
  then show ?thesis by (simp add: jit_region_def assert_that_def)
qed

definition plain_target :: target where
  "plain_target = \<lparr>has_ssse3 = True, has_sse41 = True, undef_xmm = 0\<rparr>"

definition no_registers :: emitter where
  "no_registers = \<lparr>entries = replicate 3 empty_entry, cache_timestamp = 0, code = [], nodes = 0, local_branches = []\<rparr>"

theorem region_compiles_witness:
  "jit_region plain_target id 3 (\<lambda>_. 0x10000001) 900 124 no_registers \<noteq> None"
  using region_compiles [of 124 900 no_registers 3 id plain_target "\<lambda>_. 0x10000001"] by (simp add: no_registers_def scalar_free_def)

text \<open>C2: a compiled region refines the processor. For every region whose branches the compiler allows (no conditional branch directly
  after an unconditional one, and no branch of the region to the delay slot of an unconditional one), the code of \<open>jit_region\<close>, run from any
  state, with a branch pending from the region before or not, whatever the called functions leave in the caller-saved registers: when it
  leaves for the entry thunk or the return thunk, the processor, one instruction after the other with its delay slots, reaches after at
  least one step the same program counter, the same pending branch or the same reason to stop, and the same scalar registers, vector
  registers, memories and control registers. Only code whose processor stays in the region for ever does not leave.\<close>

theorem region_refines:
  assumes "0 < n" and "n \<le> 128" and "pc_word + n \<le> 1024" and "3 \<le> length (entries em)" and "R \<le> length (entries em)"
    and "scalar_free rdp" and "region_allowed mem pc_word n"
  shows "\<exists>em_f. jit_region t rdp R mem pc_word n em = Some em_f \<and>
    (\<forall>cl h. sr (cpu h) 0 = 0 \<longrightarrow>
       (let start = Running (place pc_word 0) (pending_slot (cpu h)) (globals h) (cpu h)
        in case run_region cl em_f h of
             Some (th, h') \<Rightarrow> \<exists>k\<ge>1. arrives th h' (machine_steps t rdp mem k start)
           | None \<Rightarrow> \<forall>K. \<exists>k\<ge>K. \<exists>j<n. \<exists>gl s. machine_steps t rdp mem k start = Running (place pc_word j) None gl s))"
  by (rule region_run [OF assms, of t]) (auto split: option.split)

text \<open>Load 2, count down to 0, and break.\<close>

definition countdown :: "nat \<Rightarrow> u32" where
  "countdown i = [0x24010002, 0x2421ffff, 0x1420fffe, 0, 0x0000000d] ! i"

lemma countdown_allowed: "region_allowed countdown 0 5"
  by code_simp

theorem region_refines_witness:
  "\<exists>em_f. jit_region plain_target id 3 countdown 0 5 no_registers = Some em_f \<and>
    (\<forall>cl. let start = Running (place 0 0) (pending_slot (cpu example_host)) (globals example_host) (cpu example_host)
        in case run_region cl em_f example_host of
             Some (th, h') \<Rightarrow> \<exists>k\<ge>1. arrives th h' (machine_steps plain_target id countdown k start)
           | None \<Rightarrow> \<forall>K. \<exists>k\<ge>K. \<exists>j<5. \<exists>gl s. machine_steps plain_target id countdown k start = Running (place 0 j) None gl s)"
proof -
  have "3 \<le> length (entries no_registers)" "scalar_free id" by (simp_all add: no_registers_def scalar_free_def)
  moreover have "sr (cpu example_host) 0 = 0" by (simp add: example_host_def reset_state_def)
  ultimately obtain em_f where "jit_region plain_target id 3 countdown 0 5 no_registers = Some em_f \<and>
    (\<forall>cl h. sr (cpu h) 0 = 0 \<longrightarrow>
       (let start = Running (place 0 0) (pending_slot (cpu h)) (globals h) (cpu h)
        in case run_region cl em_f h of
             Some (th, h') \<Rightarrow> \<exists>k\<ge>1. arrives th h' (machine_steps plain_target id countdown k start)
           | None \<Rightarrow> \<forall>K. \<exists>k\<ge>K. \<exists>j<5. \<exists>gl s. machine_steps plain_target id countdown k start = Running (place 0 j) None gl s))"
    using region_refines [of 5 0 no_registers 3 id countdown plain_target] countdown_allowed by auto
  then show ?thesis using \<open>sr (cpu example_host) 0 = 0\<close> by blast
qed

text \<open>C34: control never leaves the code of a region but by its thunks. Started at the top, or at a label with nothing pending, the code does not
  run off its end, and whenever it goes to an instruction of the region, that branch was recorded, the instruction is one that
  \<open>jit_mark_block_entries\<close> marked, and its label is in the code.\<close>

theorem region_control_safe:
  assumes "0 < n" and "n \<le> 128" and "pc_word + n \<le> 1024" and "3 \<le> length (entries em)" and "R \<le> length (entries em)"
    and "scalar_free rdp" and "region_allowed mem pc_word n"
  shows "\<exists>em_f. jit_region t rdp R mem pc_word n em = Some em_f \<and>
    (\<forall>cl h. sr (cpu h) 0 = 0 \<longrightarrow> resolved_outcome mem pc_word n em_f (exec cl (code em_f) h)) \<and>
    (\<forall>cl h j. enters (cpu h) h \<and> j < n \<and> jit_mark_block_entries mem pc_word (pc_word + n) ! j \<longrightarrow>
       resolved_outcome mem pc_word n em_f (exec cl (from_label j (code em_f)) h))"
proof (rule region_good [OF assms(1-6), of t mem])
  fix em_f
  assume em: "jit_region t rdp R mem pc_word n em = Some em_f"
    "(\<And>j. j < n \<Longrightarrow> slot_allowed mem pc_word n j) \<Longrightarrow> (\<forall>j. region_entry mem pc_word n j \<longrightarrow> label_good t rdp mem pc_word n em_f j) \<and>
      (\<forall>cl h \<sigma>. sr (cpu h) 0 = 0 \<longrightarrow> follows \<sigma> (cpu h) \<longrightarrow> good t rdp mem pc_word n em_f 1 (exec cl (code em_f) h)
        (Running (place pc_word 0) (pending_slot (cpu h)) (globals h) \<sigma>))"
  have "\<And>j. j < n \<Longrightarrow> slot_allowed mem pc_word n j" using assms(7) by (simp add: region_allowed_def list_all_iff)
  note ok = em(2) [OF this]
  then have labels: "\<forall>j. region_entry mem pc_word n j \<longrightarrow> label_good t rdp mem pc_word n em_f j" by blast
  have "resolved_outcome mem pc_word n em_f (exec cl (code em_f) h)" if "sr (cpu h) 0 = 0" for cl h
    using ok that follows_refl good_resolved [OF _ labels] by blast
  moreover have "resolved_outcome mem pc_word n em_f (exec cl (from_label j (code em_f)) h)" if "enters (cpu h) h" "region_entry mem pc_word n j" for cl h j
    using labels that good_resolved [OF _ labels] unfolding label_good_def by blast
  ultimately show ?thesis using em(1) by (auto simp: region_entry_def)
qed

theorem region_control_safe_witness:
  "\<exists>em_f. jit_region plain_target id 3 countdown 0 5 no_registers = Some em_f \<and>
    (\<forall>cl. resolved_outcome countdown 0 5 em_f (exec cl (code em_f) example_host)) \<and>
    (\<forall>cl. resolved_outcome countdown 0 5 em_f (exec cl (from_label 1 (code em_f)) example_host))"
proof -
  have "3 \<le> length (entries no_registers)" "scalar_free id" by (simp_all add: no_registers_def scalar_free_def)
  then obtain em_f where em: "jit_region plain_target id 3 countdown 0 5 no_registers = Some em_f"
    "\<And>cl h. sr (cpu h) 0 = 0 \<Longrightarrow> resolved_outcome countdown 0 5 em_f (exec cl (code em_f) h)"
    "\<And>cl h j. enters (cpu h) h \<Longrightarrow> j < 5 \<Longrightarrow> jit_mark_block_entries countdown 0 5 ! j \<Longrightarrow>
       resolved_outcome countdown 0 5 em_f (exec cl (from_label j (code em_f)) h)"
    using region_control_safe [of 5 0 no_registers 3 id countdown plain_target] countdown_allowed by auto
  moreover have "jit_mark_block_entries countdown 0 5 ! 1" by code_simp
  moreover have "enters (cpu example_host) example_host" "sr (cpu example_host) 0 = 0" by (simp_all add: enters_def example_host_def reset_state_def)
  ultimately show ?thesis by auto
qed

section \<open>A branch that is lost\<close>









end
