(* ===== verification/Code_Kept.thy ===== *)
theory Code_Kept
  imports Mips_Machine
begin

unbundle bit_operations_syntax

text \<open>
  What the processor does to its own code: only a DMA changes IMEM, and a change marks its code blocks dirty and stops the processor. So
  while the processor runs, the instructions it executes are the ones that were compiled.
\<close>

section \<open>Instructions that leave the code alone\<close>

definition code_view :: "CPUState \<Rightarrow> (nat \<Rightarrow> u32) \<times> u32" where
  "code_view s = (imem s, dirty_blocks s)"

lemma code_view_updates [simp]:
  "code_view (s\<lparr>sr := x\<rparr>) = code_view s" "code_view (s\<lparr>dmem := m\<rparr>) = code_view s" "code_view (s\<lparr>cp2 := c\<rparr>) = code_view s"
  "code_view (s\<lparr>cp0 := k\<rparr>) = code_view s" "code_view (s\<lparr>rdram := n\<rparr>) = code_view s" "code_view (s\<lparr>pc := p\<rparr>) = code_view s"
  "code_view (s\<lparr>has_delay_slot := d\<rparr>) = code_view s" "code_view (s\<lparr>branch_target := d\<rparr>) = code_view s"
  "code_view (set_reg rt f s) = code_view s" "code_view (set_dmem g s) = code_view s" "code_view (set_sr r v s) = code_view s"
  "code_view (set_cr r v s) = code_view s" "code_view (with_sr y s) = code_view s" "code_view (set_flag i w s) = code_view s"
  by (simp_all add: code_view_def set_reg_def set_dmem_def set_sr_def set_cr_def with_sr_def set_flag_def)

lemma fold_view: "(\<And>i s. code_view (f i s) = code_view s) \<Longrightarrow> code_view (fold f xs s) = code_view s"
  by (induction xs arbitrary: s) simp_all

lemma fold_pair_view: "(\<And>i p. code_view (fst (f i p)) = code_view (fst p)) \<Longrightarrow> code_view (fst (fold f xs p)) = code_view (fst p)"
  by (induction xs arbitrary: p) simp_all

lemma bytes_view [simp]: "code_view (load_bytes rt i n a s) = code_view s" "code_view (store_bytes rt k i n a s) = code_view s"
  unfolding load_bytes_def store_bytes_def by (subst fold_pair_view; simp add: split_beta)+

lemma loads_view:
  "code_view (RSP_LBV t e s rt offset base) = code_view s" "code_view (RSP_LSV t e s rt offset base) = code_view s"
  "code_view (RSP_LLV t e s rt offset base) = code_view s" "code_view (RSP_LDV t e s rt offset base) = code_view s"
  "code_view (RSP_LQV t e s rt offset base) = code_view s" "code_view (RSP_LRV t e s rt offset base) = code_view s"
  "code_view (RSP_LPV t e s rt offset base) = code_view s" "code_view (RSP_LUV t e s rt offset base) = code_view s"
  "code_view (RSP_LHV t e s rt offset base) = code_view s" "code_view (RSP_LFV t e s rt offset base) = code_view s"
  "code_view (RSP_LTV t e s rt offset base) = code_view s"
  by (simp_all add: RSP_LBV_def RSP_LSV_def RSP_LLV_def RSP_LDV_def RSP_LQV_def RSP_LRV_def RSP_LPV_def RSP_LUV_def
      RSP_LHV_def RSP_LFV_def RSP_LTV_def Let_def split_beta fold_view fold_pair_view)

lemma stores_view:
  "code_view (RSP_SBV t e s rt offset base) = code_view s" "code_view (RSP_SSV t e s rt offset base) = code_view s"
  "code_view (RSP_SLV t e s rt offset base) = code_view s" "code_view (RSP_SDV t e s rt offset base) = code_view s"
  "code_view (RSP_SQV t e s rt offset base) = code_view s" "code_view (RSP_SRV t e s rt offset base) = code_view s"
  "code_view (RSP_SPV t e s rt offset base) = code_view s" "code_view (RSP_SUV t e s rt offset base) = code_view s"
  "code_view (RSP_SHV t e s rt offset base) = code_view s" "code_view (RSP_SFV t e s rt offset base) = code_view s"
  "code_view (RSP_SWV t e s rt offset base) = code_view s" "code_view (RSP_STV t e s rt offset base) = code_view s"
  by (simp_all add: RSP_SBV_def RSP_SSV_def RSP_SLV_def RSP_SDV_def RSP_SQV_def RSP_SRV_def RSP_SPV_def RSP_SUV_def
      RSP_SHV_def RSP_SFV_def RSP_SWV_def RSP_STV_def Let_def split_beta fold_view fold_pair_view split: option.split)

lemma moves_view:
  "code_view (RSP_MTC2 s rt rd e) = code_view s" "code_view (RSP_CTC2 s rt rd) = code_view s"
  "code_view (RSP_MFC2 s rt rd e) = code_view s" "code_view (RSP_CFC2 s rt rd) = code_view s"
  by (simp_all add: RSP_MTC2_def RSP_CTC2_def RSP_MFC2_def RSP_CFC2_def Let_def split_beta)

lemma vector_view: "code_view (vu_instruction t instr s) = code_view s"
  using non_cp2_eqD(2,7) [OF vu_instruction_keeps(2) [of t instr s]] by (simp add: code_view_def)

lemma ls_ops_view:
  assumes "ops = lwc2_ops \<or> ops = swc2_ops" "k < 32" "ops ! k = Some f"
  shows "code_view (f t e s rt offset base) = code_view s"
proof -
  have "length lwc2_ops = 32" "length swc2_ops = 32" by (simp_all add: lwc2_ops_def swc2_ops_def)
  then have "Some f \<in> set ops" using assms by (metis nth_mem)
  then have "Some f \<in> set lwc2_ops \<union> set swc2_ops" using assms(1) by auto
  then have "f \<in> {RSP_LBV, RSP_LSV, RSP_LLV, RSP_LDV, RSP_LQV, RSP_LRV, RSP_LPV, RSP_LUV, RSP_LHV, RSP_LFV, RSP_LTV, RSP_SBV, RSP_SSV, RSP_SLV,
      RSP_SDV, RSP_SQV, RSP_SRV, RSP_SPV, RSP_SUV, RSP_SHV, RSP_SFV, RSP_SWV, RSP_STV}"
    unfolding lwc2_ops_def swc2_ops_def by auto
  then show ?thesis by (auto simp: loads_view stores_view)
qed

lemma step_view: "code_view (mips_step t instr s) = code_view s"
proof -
  have v: "code_view (mips_vector_memory ops t instr s) = code_view s" if "ops = lwc2_ops \<or> ops = swc2_ops" for ops
    using ls_ops_view [OF that fld_less(1)] by (auto simp: mips_vector_memory_def split: option.split)
  show ?thesis
    by (simp add: mips_step_def mips_alu_def mips_memory_def mips_move_def Let_def vector_view moves_view v)
qed

lemma branch_view: "code_view (snd (mips_branch pc' instr s)) = code_view s"
  by (simp add: mips_branch_def link_to_def Let_def)

section \<open>Coprocessor 0\<close>

definition code_free :: "(CPUState \<Rightarrow> CPUState) \<Rightarrow> bool" where
  "code_free g \<longleftrightarrow> (\<forall>s. code_view (g s) = code_view s)"

lemma tracked_refl: "code_view s' = code_view s \<Longrightarrow> imem_tracked s s' \<and> dirty_blocks s' = dirty_blocks s"
  by (simp add: code_view_def imem_tracked_def)

lemma tracked_trans: "imem_tracked a b \<Longrightarrow> imem_tracked b c \<Longrightarrow> imem_tracked a c"
  unfolding imem_tracked_def by metis

lemma tracked_clean: "imem_tracked s s' \<Longrightarrow> dirty_blocks s' = 0 \<Longrightarrow> w < 1024 \<Longrightarrow> imem s' w = imem s w"
  by (auto simp: imem_tracked_def)

lemma dma_write_view: "code_view (rsp_dma_write s) = code_view s"
proof -
  have word: "code_view (dma_write_word source dest j s) = code_view s" for source dest j s
    by (simp add: dma_write_word_def Let_def)
  have row: "code_view (dma_write_row source dest len j s) = code_view s" for source dest len j s
    by (induction source dest len j s rule: dma_write_row.induct) (subst dma_write_row.simps, simp add: Let_def word)
  have "code_view (snd (snd (dma_write_rows len skip cnt i source dest s))) = code_view s" for len skip cnt i source dest s
    by (induction len skip cnt i source dest s rule: dma_write_rows.induct) (subst dma_write_rows.simps, simp add: Let_def row)
  then show ?thesis by (simp add: rsp_dma_write_def Let_def split_beta)
qed

lemma dma_read_tracked: "imem_tracked s (fst (rsp_dma_read s))" "snd (rsp_dma_read s) = MODE_CONTINUE \<Longrightarrow> dirty_blocks (fst (rsp_dma_read s)) = 0"
proof -
  show "imem_tracked s (fst (rsp_dma_read s))" using dma_read_run [of s] by blast
  show "snd (rsp_dma_read s) = MODE_CONTINUE \<Longrightarrow> dirty_blocks (fst (rsp_dma_read s)) = 0" using dma_read_run [of s] by force
qed

lemma set_cr_tracked: "imem_tracked (set_cr r v s) s' = imem_tracked s s'"
  by (simp add: imem_tracked_def)

lemma status_view: "code_view (fst (rsp_status_write s v)) = code_view s"
  by (simp add: rsp_status_write_def Let_def)

lemma MTC0_code:
  assumes rdp: "code_free rdp"
  shows "imem_tracked s (fst (RSP_MTC0 rdp gl s rd rt))"
    "snd (RSP_MTC0 rdp gl s rd rt) = MODE_CONTINUE \<Longrightarrow> dirty_blocks s = 0 \<Longrightarrow> dirty_blocks (fst (RSP_MTC0 rdp gl s rd rt)) = 0"
proof -
  have rdp: "code_view (rdp s) = code_view s" for s using rdp by (simp add: code_free_def)
  let ?dma = "rd mod 16 = CP0_REGISTER_DMA_READ_LENGTH \<and> parallel_integration gl"
  have other: "code_view (fst (RSP_MTC0 rdp gl s rd rt)) = code_view s" if "\<not> ?dma"
    using that unfolding RSP_MTC0_def Let_def by (simp add: rdp dma_write_view status_view)
  have dma: "RSP_MTC0 rdp gl s rd rt = rsp_dma_read (set_cr (rd mod 16) (sr s rt) s)" if ?dma
    using that by (simp add: RSP_MTC0_def Let_def)
  show "imem_tracked s (fst (RSP_MTC0 rdp gl s rd rt))"
    using tracked_refl [OF other] dma_read_tracked(1) [of "set_cr (rd mod 16) (sr s rt) s"] dma by (cases ?dma) (auto simp: set_cr_tracked)
  show "snd (RSP_MTC0 rdp gl s rd rt) = MODE_CONTINUE \<Longrightarrow> dirty_blocks s = 0 \<Longrightarrow> dirty_blocks (fst (RSP_MTC0 rdp gl s rd rt)) = 0"
    using tracked_refl [OF other] dma_read_tracked(2) [of "set_cr (rd mod 16) (sr s rt) s"] dma by (cases ?dma) auto
qed

lemma MFC0_view: "code_view (fst (snd (RSP_MFC0 gl s rt rd))) = code_view s"
  by (simp add: RSP_MFC0_def Let_def)

section \<open>The machine\<close>

declare machine_step.simps [simp del]

fun state_of :: "machine \<Rightarrow> CPUState" where
  "state_of (Running pc' slot gl s) = s"
| "state_of (Stopped mode pc' gl s) = s"

fun running :: "machine \<Rightarrow> bool" where
  "running (Running pc' slot gl s) = True"
| "running (Stopped mode pc' gl s) = False"

lemma step_code:
  assumes rdp: "code_free rdp"
  shows "imem_tracked s (state_of (machine_step t rdp mem (Running pc' slot gl s))) \<and>
    (running (machine_step t rdp mem (Running pc' slot gl s)) \<longrightarrow> dirty_blocks s = 0 \<longrightarrow>
       dirty_blocks (state_of (machine_step t rdp mem (Running pc' slot gl s))) = 0)"
proof -
  let ?i = "mem (unat pc' div 4)"
  note view = tracked_refl [OF refl [of "code_view s"]] tracked_refl [OF step_view [of t ?i s]] tracked_refl [OF branch_view [of pc' ?i s]]
  have cop0: "imem_tracked s (fst (snd (mips_cop0 rdp ?i gl s))) \<and>
      (snd (snd (mips_cop0 rdp ?i gl s)) = MODE_CONTINUE \<longrightarrow> dirty_blocks s = 0 \<longrightarrow> dirty_blocks (fst (snd (mips_cop0 rdp ?i gl s))) = 0)"
    using tracked_refl [OF MFC0_view [of gl s "rt_of ?i" "rd_of ?i"]] MTC0_code [OF rdp, where s = s and gl = gl and rd = "rd_of ?i" and rt = "rt_of ?i"] view(1)
    by (simp add: mips_cop0_def)
  show ?thesis using view cop0 by (auto simp: machine_step.simps Let_def split: prod.split)
qed

lemma steps_code:
  assumes rdp: "code_free rdp"
  shows "running c \<Longrightarrow> imem_tracked (state_of c) (state_of (machine_steps t rdp mem k c)) \<and>
    (running (machine_steps t rdp mem k c) \<longrightarrow> dirty_blocks (state_of c) = 0 \<longrightarrow> dirty_blocks (state_of (machine_steps t rdp mem k c)) = 0)"
proof (induction k arbitrary: c)
  case step: (Suc k)
  then obtain pc' slot gl s where c: "c = Running pc' slot gl s" by (cases c) auto
  let ?c = "machine_step t rdp mem (Running pc' slot gl s)"
  note one = step_code [OF rdp, of s t mem pc' slot gl]
  show ?case
  proof (cases ?c)
    case (Running a b d e)
    then have "running ?c" by simp
    from step.IH [OF this] one show ?thesis by (auto simp: c Running intro: tracked_trans)
  next
    case (Stopped a b d e)
    have "machine_steps t rdp mem k (Stopped a b d e) = Stopped a b d e" by (induction k) (simp_all add: machine_step.simps)
    then show ?thesis using one by (simp add: c Stopped)
  qed
qed (simp add: imem_tracked_def)

end
