(* ===== verification/Jit_Frame.thy ===== *)
theory Jit_Frame
  imports Jit_Correct Code_Kept
begin

unbundle bit_operations_syntax

text \<open>
  Entering generated code (\<open>CPU::init_jit_thunks\<close> and \<open>CPU::enter\<close> of \<open>rsp_jit.cpp\<close>): the entry thunk looks up the block of the next
  program counter and jumps to it, the return thunk saves the program counter and returns the mode. With the code cache of \<open>Jit_Blocks\<close>
  and the compiler of \<open>Jit_Region\<close> this is the whole recompiler, and it is proved to refine the processor.
\<close>

section \<open>The compiler as the code cache calls it\<close>

text \<open>What earlier compilations left in the register cache is a function \<open>left\<close> of the block, because a block is compiled only once.\<close>

definition compile_block :: "target \<Rightarrow> (CPUState \<Rightarrow> CPUState) \<Rightarrow> nat \<Rightarrow> emitter compiler \<Rightarrow> emitter option compiler" where
  "compile_block t rdp R left hash pc_word words =
     jit_region t rdp R (\<lambda>i. words ! (i - pc_word)) pc_word (length words) (left hash pc_word words)"

section \<open>Thunks\<close>

definition rsp_enter :: "'f compiler \<Rightarrow> 'f jit_cpu \<Rightarrow> u32 \<Rightarrow> 'f \<times> 'f jit_cpu" where
  "rsp_enter compile c pc' = get_jit_block compile pc' c"

definition thunk_clear :: "jit_op list" where
  "thunk_clear = [jit_movi JIT_REGISTER_MODE 0, jit_stxi_frame 1 JIT_REGISTER_MODE, jit_stxi_i (F_sr COND_BRANCH_TAKEN) JIT_REGISTER_MODE]"

text \<open>From the entry label to the jump into the block, whose address is a value that the generated code does not look at.\<close>

definition enter_label :: "clobber \<Rightarrow> ('f \<Rightarrow> u64) \<Rightarrow> 'f compiler \<Rightarrow> 'f jit_cpu \<Rightarrow> host \<Rightarrow> 'f \<times> 'f jit_cpu \<times> host" where
  "enter_label cl address compile c h =
     (case rsp_enter compile (c\<lparr>cpu_state := cpu h\<rparr>) (ucast (jit_regs h JIT_REGISTER_NEXT_PC)) of (block, c) \<Rightarrow>
        (block, c, fold (exec_op cl) thunk_clear (put_reg JIT_REGISTER_NEXT_PC (address block) (clobbered cl h))))"

partial_function (option) enter_loop :: "clobber \<Rightarrow> (emitter option \<Rightarrow> u64) \<Rightarrow> emitter option compiler \<Rightarrow> emitter option jit_cpu \<Rightarrow> host \<Rightarrow>
    (emitter option jit_cpu \<times> host) option" where
  "enter_loop cl address compile c h =
     (case enter_label cl address compile c h of (block, c, h) \<Rightarrow>
        (case block of None \<Rightarrow> None
         | Some em \<Rightarrow> (case run_region cl em h of None \<Rightarrow> None
             | Some (th, h) \<Rightarrow> (if th = enter_thunk then enter_loop cl address compile c h else Some (c, h)))))"

text \<open>The function that \<open>CPU::enter\<close> calls. The host state gives the registers, the stack and the globals; the result is the mode.\<close>

definition enter_frame :: "clobber \<Rightarrow> (emitter option \<Rightarrow> u64) \<Rightarrow> emitter option compiler \<Rightarrow> emitter option jit_cpu \<Rightarrow> host \<Rightarrow>
    (emitter option jit_cpu \<times> host \<times> u64) option" where
  "enter_frame cl address compile c h =
     (let h = exec_op cl (jit_ldxi_i JIT_REGISTER_NEXT_PC F_pc) (h\<lparr>cpu := cpu_state c\<rparr>)
      in case enter_loop cl address compile c h of None \<Rightarrow> None
         | Some (c, h) \<Rightarrow> let h = exec_op cl (jit_stxi_i F_pc JIT_REGISTER_NEXT_PC) h
             in Some (c\<lparr>cpu_state := cpu h\<rparr>, h, jit_regs h JIT_REGISTER_MODE))"

section \<open>Regions of the code memory\<close>

lemma mark_entries_cong:
  assumes "\<And>i. i < n \<Longrightarrow> mem (pc_word + i) = mem' (pc_word + i)"
  shows "jit_mark_block_entries mem pc_word (pc_word + n) = jit_mark_block_entries mem' pc_word (pc_word + n)"
  unfolding jit_mark_block_entries_def by (rule fold_cong) (auto simp: assms)

lemma region_steps_cong:
  assumes "\<And>i. i \<in> set is \<Longrightarrow> mem (pc_word + i) = mem' (pc_word + i)"
  shows "region_steps t rdp R mem pc_word n entry is st = region_steps t rdp R mem' pc_word n entry is st"
  using assms
proof (induction "is" arbitrary: st)
  case (Cons i "is")
  then have "region_step t rdp R mem pc_word n entry i st = region_step t rdp R mem' pc_word n entry i st" by (simp add: region_step_def)
  then show ?case using Cons by (simp cong: Option.bind_cong)
qed simp

lemma jit_region_cong:
  assumes "\<And>i. i < n \<Longrightarrow> mem (pc_word + i) = mem' (pc_word + i)"
  shows "jit_region t rdp R mem pc_word n em = jit_region t rdp R mem' pc_word n em"
proof -
  have "jit_mark_block_entries mem pc_word (pc_word + n) = jit_mark_block_entries mem' pc_word (pc_word + n)"
    by (rule mark_entries_cong) (rule assms)
  moreover have "region_steps t rdp R mem pc_word n entry [0..<n] st = region_steps t rdp R mem' pc_word n entry [0..<n] st" for entry st
    by (rule region_steps_cong) (simp add: assms)
  ultimately show ?thesis by (simp add: jit_region_def)
qed

text \<open>The region at a word, and its length.\<close>

definition region_length :: "(nat \<Rightarrow> u32) \<Rightarrow> nat \<Rightarrow> nat" where
  "region_length m w = analyze_static_end m w (block_end (4 * w)) - w"

lemma region_length_bounds:
  assumes "w < 1024"
  shows "0 < region_length m w" "region_length m w \<le> 128" "w + region_length m w \<le> 1024"
  using region_window [OF assms, of m] by (simp_all add: region_length_def)

lemma region_words: "length (region m w) = region_length m w" "i < region_length m w \<Longrightarrow> region m w ! i = m (w + i)"
  by (simp_all add: region_def region_length_def slice_def)

lemma fresh_compile: "fresh (compile_block t rdp R left) m w =
    jit_region t rdp R m w (region_length m w) (left (hash_imem w (region m w)) w (region m w))"
  unfolding fresh_def compile_block_def region_words(1) by (rule jit_region_cong) (simp add: region_words(2))

definition code_allowed :: "(nat \<Rightarrow> u32) \<Rightarrow> bool" where
  "code_allowed m \<longleftrightarrow> list_all (\<lambda>w. region_allowed m w (region_length m w)) [0..<1024]"

lemma word_address: "place (unat (p AND 0xfff) div 4) 0 = p AND 0xffc"
proof -
  have m: "p AND 0xfff = take_bit 12 p" "p AND 0xffc = push_bit 2 (take_bit 10 (drop_bit 2 p))"
    by (intro bit_word_eqI; auto simp: bit_simps bit_numeral_rec split: nat.splits)+
  have "unat (p AND 0xfff) div 4 = unat (drop_bit 2 (take_bit 12 p))" by (simp add: m(1) drop_bit_eq_div unat_div)
  then have "place (unat (p AND 0xfff) div 4) 0 = push_bit 2 (drop_bit 2 (take_bit 12 p))"
    by (simp add: place_def push_bit_eq_mult mult.commute)
  also have "\<dots> = p AND 0xffc" unfolding m(2) by (intro bit_word_eqI) (auto simp: bit_simps)
  finally show ?thesis .
qed

section \<open>The code cache during a run\<close>

lemma coherent_execute: "coherent compile R c \<Longrightarrow> imem_tracked (cpu_state c) s \<Longrightarrow> coherent compile R (c\<lparr>cpu_state := s\<rparr>)"
  unfolding coherent_def imem_tracked_def by simp metis

lemma get_jit_block_state: "cpu_state (snd (get_jit_block compile pc' c)) = cpu_state c"
  by (simp add: get_jit_block_def Let_def split: option.split)

lemma region_same:
  assumes "w < 1024" "\<And>x. x < 1024 \<Longrightarrow> m x = m' x"
  shows "region m w = region m' w"
proof (rule region_cong)
  fix x assume "w \<le> x" "x < block_end (4 * w)"
  then show "m x = m' x" using assms by (simp add: block_end_def)
qed

text \<open>Between two blocks: the cache is coherent, and the code memory is still the one the run started with.\<close>

definition between :: "emitter option compiler \<Rightarrow> (nat \<times> u32 list) set \<Rightarrow> (nat \<Rightarrow> u32) \<Rightarrow> emitter option jit_cpu \<Rightarrow> host \<Rightarrow> bool" where
  "between compile Rg m c h \<longleftrightarrow> coherent compile Rg (c\<lparr>cpu_state := cpu h\<rparr>) \<and> dirty_blocks (cpu h) = 0 \<and>
     (\<forall>w<1024. imem (cpu h) w = m w) \<and> sr (cpu h) 0 = 0"

text \<open>What the run may rely on: room for registers, no change of code by the host's callback, hashes without collision, and code whose
  branches the compiler allows.\<close>

definition frame_ok :: "(CPUState \<Rightarrow> CPUState) \<Rightarrow> nat \<Rightarrow> emitter compiler \<Rightarrow> (nat \<times> u32 list) set \<Rightarrow> (nat \<Rightarrow> u32) \<Rightarrow> bool" where
  "frame_ok rdp R left Rg m \<longleftrightarrow> scalar_free rdp \<and> code_free rdp \<and> (\<forall>hash w ws. 3 \<le> length (entries (left hash w ws)) \<and> R \<le> length (entries (left hash w ws))) \<and>
     collision_free Rg \<and> (\<forall>w<1024. (w, region m w) \<in> Rg) \<and> code_allowed m"

lemma follows_code: "follows \<sigma> s \<Longrightarrow> code_view s = code_view \<sigma>"
  by (auto simp: follows_def)

lemma thunk_clear_effect:
  fixes h :: host and cl :: clobber
  defines "h' \<equiv> fold (exec_op cl) thunk_clear h"
  shows "cpu h' = (cpu h)\<lparr>sr := (sr (cpu h))(COND_BRANCH_TAKEN := 0)\<rparr>" "globals h' = globals h"
  by (simp_all add: h'_def thunk_clear_def put_reg_def put_field_def)

lemma enter_block_runs:
  assumes ok: "frame_ok rdp R left Rg m" and b: "between (compile_block t rdp R left) Rg m c h" and f: "follows \<sigma> (cpu h)"
  obtains em c1 h1 where "enter_label cl address (compile_block t rdp R left) c h = (Some em, c1, h1)"
    "between (compile_block t rdp R left) Rg m c1 h1" "follows \<sigma> (cpu h1)"
    "\<And>th h'. run_region cl em h1 = Some (th, h') \<Longrightarrow> \<exists>k\<ge>1. arrives th h' (machine_steps t rdp m k
       (Running (ucast (jit_regs h JIT_REGISTER_NEXT_PC) AND 0xffc) (pending_slot (cpu h)) (globals h) \<sigma>))"
    "\<And>K. run_region cl em h1 = None \<Longrightarrow> \<exists>k\<ge>K. running (machine_steps t rdp m k
       (Running (ucast (jit_regs h JIT_REGISTER_NEXT_PC) AND 0xffc) (pending_slot (cpu h)) (globals h) \<sigma>))"
proof -
  let ?compile = "compile_block t rdp R left" and ?p = "ucast (jit_regs h JIT_REGISTER_NEXT_PC) :: u32" and ?c = "c\<lparr>cpu_state := cpu h\<rparr>"
  define w where "w = unat (?p AND 0xfff) div 4"
  have w: "w < 1024" using block_of_pc(1) by (simp add: w_def)
  let ?n = "region_length m w" and ?m = "imem (cpu h)" and ?left = "left (hash_imem w (region m w)) w (region m w)"
  have same: "region ?m w = region m w" using b w by (intro region_same) (simp_all add: between_def)
  have "(w, region (imem (cpu_state ?c)) w) \<in> Rg" using ok w by (simp add: same frame_ok_def)
  then have blk: "fst (get_jit_block ?compile ?p ?c) = fresh ?compile ?m w" "coherent ?compile Rg (snd (get_jit_block ?compile ?p ?c))"
    using get_jit_block_coherent [of ?compile Rg ?c w ?p] ok b by (simp_all add: between_def frame_ok_def w_def)
  have "fresh ?compile ?m w = fresh ?compile m w" by (simp add: fresh_def same)
  also have "\<dots> = jit_region t rdp R m w ?n ?left" by (rule fresh_compile)
  finally have fst_eq: "fst (get_jit_block ?compile ?p ?c) = \<dots>" using blk(1) by simp
  have allowed: "region_allowed m w ?n" using ok w by (simp add: frame_ok_def code_allowed_def list_all_iff)
  have room: "3 \<le> length (entries ?left)" "R \<le> length (entries ?left)" "scalar_free rdp" using ok by (simp_all add: frame_ok_def)
  show thesis
  proof (rule region_run [where t = t, OF region_length_bounds [OF w] room allowed])
    fix em
    assume em: "jit_region t rdp R m w ?n ?left = Some em"
      "\<And>cl h \<sigma> th h'. sr (cpu h) 0 = 0 \<Longrightarrow> follows \<sigma> (cpu h) \<Longrightarrow> run_region cl em h = Some (th, h') \<Longrightarrow>
         \<exists>k\<ge>1. arrives th h' (machine_steps t rdp m k (Running (place w 0) (pending_slot (cpu h)) (globals h) \<sigma>))"
      "\<And>cl h \<sigma> K. sr (cpu h) 0 = 0 \<Longrightarrow> follows \<sigma> (cpu h) \<Longrightarrow> run_region cl em h = None \<Longrightarrow>
         \<exists>k\<ge>K. \<exists>j<?n. \<exists>gl \<sigma>'. machine_steps t rdp m k (Running (place w 0) (pending_slot (cpu h)) (globals h) \<sigma>) = Running (place w j) None gl \<sigma>'"
    define c1 where "c1 = snd (get_jit_block ?compile ?p ?c)"
    define h1 where "h1 = fold (exec_op cl) thunk_clear (put_reg JIT_REGISTER_NEXT_PC (address (Some em)) (clobbered cl h))"
    have h1: "cpu h1 = (cpu h)\<lparr>sr := (sr (cpu h))(COND_BRANCH_TAKEN := 0)\<rparr>" "globals h1 = globals h" unfolding h1_def thunk_clear_effect by simp_all
    have e: "enter_label cl address ?compile c h = (Some em, c1, h1)"
      using fst_eq em(1) by (simp add: enter_label_def rsp_enter_def c1_def h1_def split_beta)
    have st: "cpu_state c1 = cpu h" by (simp add: c1_def get_jit_block_state)
    have "coherent ?compile Rg (c1\<lparr>cpu_state := cpu h1\<rparr>)"
      using coherent_execute [OF blk(2) [folded c1_def], of "cpu h1"] by (simp add: st h1 imem_tracked_def)
    then have b1: "between ?compile Rg m c1 h1" using b by (simp add: between_def h1)
    have f1: "follows \<sigma> (cpu h1)" using follows_scratch [OF f] by (simp add: h1)
    have slot: "pending_slot (cpu h1) = pending_slot (cpu h)" "place w 0 = ?p AND 0xffc" "sr (cpu h1) 0 = 0"
      using b by (simp_all add: h1 pending_slot_def w_def word_address between_def)
    show thesis
    proof (rule that [OF e b1 f1])
      fix th and h' :: host assume "run_region cl em h1 = Some (th, h')"
      from em(2) [OF slot(3) f1 this] show "\<exists>k\<ge>1. arrives th h' (machine_steps t rdp m k (Running (?p AND 0xffc) (pending_slot (cpu h)) (globals h) \<sigma>))"
        unfolding slot(1,2) h1(2) .
    next
      fix K assume "run_region cl em h1 = None"
      from em(3) [OF slot(3) f1 this, of K] show "\<exists>k\<ge>K. running (machine_steps t rdp m k (Running (?p AND 0xffc) (pending_slot (cpu h)) (globals h) \<sigma>))"
        unfolding slot(1,2) h1(2) by (metis running.simps(1))
    qed
  qed
qed

section \<open>The loop of the thunks\<close>

text \<open>Where the processor is when a block is entered.\<close>

definition here :: "host \<Rightarrow> CPUState \<Rightarrow> machine" where
  "here h \<sigma> = Running (ucast (jit_regs h JIT_REGISTER_NEXT_PC) AND 0xffc) (pending_slot (cpu h)) (globals h) \<sigma>"

text \<open>How a run ends.\<close>

definition ended :: "emitter option compiler \<Rightarrow> (nat \<times> u32 list) set \<Rightarrow> emitter option jit_cpu \<Rightarrow> host \<Rightarrow> machine \<Rightarrow> bool" where
  "ended compile Rg c h m \<longleftrightarrow> arrives return_thunk h m \<and> coherent compile Rg (c\<lparr>cpu_state := cpu h\<rparr>)"

lemma arrives_code:
  assumes b: "between compile Rg m c h" and f: "follows \<sigma> (cpu h)" and rdp: "code_free rdp"
    and a: "arrives th h' (machine_steps t rdp m k (here h0 \<sigma>))"
  shows "coherent compile Rg (c\<lparr>cpu_state := cpu h'\<rparr>)" "th = enter_thunk \<Longrightarrow> between compile Rg m c h'"
proof -
  let ?c = "machine_steps t rdp m k (here h0 \<sigma>)"
  have steps: "imem_tracked \<sigma> (state_of ?c)" "running ?c \<Longrightarrow> dirty_blocks \<sigma> = 0 \<Longrightarrow> dirty_blocks (state_of ?c) = 0"
    using steps_code [OF rdp, of "here h0 \<sigma>" t m k] by (simp_all add: here_def)
  have f': "follows (state_of ?c) (cpu h')" "th = enter_thunk \<Longrightarrow> running ?c" "sr (cpu h') 0 = 0"
    using a by (cases th; cases ?c; simp)+
  have view: "code_view (cpu h) = code_view \<sigma>" "code_view (cpu h') = code_view (state_of ?c)"
    using follows_code [OF f] follows_code [OF f'(1)] .
  then have tr: "imem_tracked (cpu h) (cpu h')" using steps(1) by (simp add: imem_tracked_def code_view_def)
  show co: "coherent compile Rg (c\<lparr>cpu_state := cpu h'\<rparr>)"
    using coherent_execute [of compile Rg "c\<lparr>cpu_state := cpu h\<rparr>" "cpu h'"] b tr by (simp add: between_def)
  assume "th = enter_thunk"
  then have "running ?c" by (rule f'(2))
  moreover have "dirty_blocks \<sigma> = 0" using b view by (simp add: between_def code_view_def)
  ultimately have "dirty_blocks (cpu h') = 0" using steps(2) view by (simp add: code_view_def)
  then show "between compile Rg m c h'" using co f'(3) tracked_clean [OF tr] b by (simp add: between_def)
qed

lemma arrives_here: "arrives enter_thunk h' c \<Longrightarrow> \<exists>\<sigma>'. c = here h' \<sigma>' \<and> follows \<sigma>' (cpu h')"
  by (cases c) (simp_all add: here_def)

lemma enter_loop_arrives:
  assumes ok: "frame_ok rdp R left Rg m"
  shows "enter_loop cl address (compile_block t rdp R left) c h = Some r \<Longrightarrow> between (compile_block t rdp R left) Rg m c h \<Longrightarrow>
    follows \<sigma> (cpu h) \<Longrightarrow> \<exists>k. ended (compile_block t rdp R left) Rg (fst r) (snd r) (machine_steps t rdp m k (here h \<sigma>))"
proof -
  let ?compile = "compile_block t rdp R left"
  define P where "P cl address comp c h r \<longleftrightarrow> comp = ?compile \<longrightarrow> (\<forall>\<sigma>. between ?compile Rg m c h \<longrightarrow> follows \<sigma> (cpu h) \<longrightarrow>
      (\<exists>k. ended ?compile Rg (fst r) (snd r) (machine_steps t rdp m k (here h \<sigma>))))"
    for cl :: clobber and address :: "emitter option \<Rightarrow> u64" and comp and c :: "emitter option jit_cpu" and h and r
  have "P cl address comp c h r" if "enter_loop cl address comp c h = Some r" for cl address comp c h r
    using that
  proof (rule enter_loop.raw_induct [where P = P, rotated])
    fix loop cl address comp c h r
    assume IH: "\<And>cl address comp c h r. loop cl address comp c h = Some r \<Longrightarrow> P cl address comp c h r"
      and run: "(case enter_label cl address comp c h of (block, c, h) \<Rightarrow>
        (case block of None \<Rightarrow> None
         | Some em \<Rightarrow> (case run_region cl em h of None \<Rightarrow> None
             | Some (th, h) \<Rightarrow> (if th = enter_thunk then loop cl address comp c h else Some (c, h))))) = Some r"
    show "P cl address comp c h r" unfolding P_def
    proof (intro impI allI)
      fix \<sigma> assume comp: "comp = ?compile" and b: "between ?compile Rg m c h" and f: "follows \<sigma> (cpu h)"
      obtain em c1 h1 where e: "enter_label cl address ?compile c h = (Some em, c1, h1)" "between ?compile Rg m c1 h1" "follows \<sigma> (cpu h1)"
        "\<And>th h'. run_region cl em h1 = Some (th, h') \<Longrightarrow> \<exists>k\<ge>1. arrives th h' (machine_steps t rdp m k (here h \<sigma>))"
        using enter_block_runs [OF ok b f, of cl address] unfolding here_def by metis
      obtain th h' where r: "run_region cl em h1 = Some (th, h')" "(if th = enter_thunk then loop cl address comp c1 h' else Some (c1, h')) = Some r"
        using run by (auto simp: comp e(1) split: option.splits)
      obtain k where k: "arrives th h' (machine_steps t rdp m k (here h \<sigma>))" using e(4) [OF r(1)] by blast
      have rdp: "code_free rdp" using ok by (simp add: frame_ok_def)
      note code = arrives_code [OF e(2,3) rdp k]
      show "\<exists>k. ended ?compile Rg (fst r) (snd r) (machine_steps t rdp m k (here h \<sigma>))"
      proof (cases "th = enter_thunk")
        case True
        obtain \<sigma>' where s: "machine_steps t rdp m k (here h \<sigma>) = here h' \<sigma>'" "follows \<sigma>' (cpu h')"
          using arrives_here k unfolding True by blast
        have "loop cl address comp c1 h' = Some r" using r(2) True by simp
        from IH [OF this] comp code(2) [OF True] s(2) obtain k' where
          "ended ?compile Rg (fst r) (snd r) (machine_steps t rdp m k' (here h' \<sigma>'))" unfolding P_def by blast
        then show ?thesis unfolding s(1) [symmetric] machine_steps_add [symmetric] by blast
      next
        case False
        then have "th = return_thunk" "r = (c1, h')" using r(2) by (cases th; simp)+
        then show ?thesis using k code(1) by (auto simp: ended_def)
      qed
    qed
  qed
  then show "enter_loop cl address ?compile c h = Some r \<Longrightarrow> between ?compile Rg m c h \<Longrightarrow>
    follows \<sigma> (cpu h) \<Longrightarrow> \<exists>k. ended ?compile Rg (fst r) (snd r) (machine_steps t rdp m k (here h \<sigma>))" unfolding P_def by blast
qed

lemma enter_loop_returns:
  assumes ok: "frame_ok rdp R left Rg m"
  shows "between (compile_block t rdp R left) Rg m c h \<Longrightarrow> follows \<sigma> (cpu h) \<Longrightarrow> \<not> running (machine_steps t rdp m k (here h \<sigma>)) \<Longrightarrow>
    enter_loop cl address (compile_block t rdp R left) c h \<noteq> None"
proof (induction k arbitrary: c h \<sigma> rule: less_induct)
  case (less k)
  let ?compile = "compile_block t rdp R left"
  have stays: "\<not> running (machine_steps t rdp m k' (here h \<sigma>))" if "k \<le> k'" for k'
    using less.prems(3) stopped_stays [OF _ that, of t rdp m "here h \<sigma>"] by (cases "machine_steps t rdp m k (here h \<sigma>)") auto
  obtain em c1 h1 where e: "enter_label cl address ?compile c h = (Some em, c1, h1)" "between ?compile Rg m c1 h1" "follows \<sigma> (cpu h1)"
    "\<And>th h'. run_region cl em h1 = Some (th, h') \<Longrightarrow> \<exists>k\<ge>1. arrives th h' (machine_steps t rdp m k (here h \<sigma>))"
    "\<And>K. run_region cl em h1 = None \<Longrightarrow> \<exists>k\<ge>K. running (machine_steps t rdp m k (here h \<sigma>))"
    using enter_block_runs [OF ok less.prems(1,2), of cl address] unfolding here_def by metis
  obtain th h' where r: "run_region cl em h1 = Some (th, h')" using e(5) [of k] stays by (cases "run_region cl em h1") auto
  have "enter_loop cl address ?compile c h = (if th = enter_thunk then enter_loop cl address ?compile c1 h' else Some (c1, h'))"
    by (subst enter_loop.simps) (simp add: e(1) r)
  moreover have "enter_loop cl address ?compile c1 h' \<noteq> None" if th: "th = enter_thunk"
  proof -
    obtain j where j: "1 \<le> j" "arrives enter_thunk h' (machine_steps t rdp m j (here h \<sigma>))" using e(4) [OF r] th by blast
    obtain \<sigma>' where s: "machine_steps t rdp m j (here h \<sigma>) = here h' \<sigma>'" "follows \<sigma>' (cpu h')" using arrives_here [OF j(2)] by blast
    have "running (machine_steps t rdp m j (here h \<sigma>))" unfolding s(1) by (simp add: here_def)
    then have "j < k" using stays [of j] by (meson not_le)
    then have "machine_steps t rdp m (k - j) (here h' \<sigma>') = machine_steps t rdp m k (here h \<sigma>)"
      using machine_steps_add [of t rdp m j "k - j" "here h \<sigma>"] s(1) by simp
    moreover have "between ?compile Rg m c1 h'"
      using arrives_code(2) [OF e(2,3) _ j(2)] ok by (simp add: frame_ok_def)
    ultimately show ?thesis using less.IH [of "k - j" c1 h' \<sigma>'] s(2) less.prems(3) j(1) \<open>j < k\<close> by simp
  qed
  ultimately show ?case by simp
qed

section \<open>Entering and running\<close>

text \<open>When \<open>enter_frame\<close> returns, the processor has come to a stop, and everything the caller sees is as the processor leaves it. When it does
  not return, the processor never stops.\<close>

lemma enter_frame_refines:
  fixes c :: "emitter option jit_cpu" and h :: host and t :: target and rdp :: "CPUState \<Rightarrow> CPUState"
  defines "s \<equiv> cpu_state c"
  defines "steps \<equiv> \<lambda>k. machine_steps t rdp (imem s) k (Running (pc s AND 0xffc) (pending_slot s) (globals h) s)"
  assumes "coherent (compile_block t rdp R left) Rg c" and "dirty_blocks s = 0" and "sr s 0 = 0" and "frame_ok rdp R left Rg (imem s)"
  shows "case enter_frame cl address (compile_block t rdp R left) c h of
      None \<Rightarrow> \<forall>k. running (steps k)
    | Some (c', h', ret) \<Rightarrow> (let s' = cpu_state c' in \<exists>k mode pc' \<sigma>. steps k = Stopped mode pc' (globals h') \<sigma> \<and> ret = mode_word mode \<and>
        pc s' AND 0xffc = pc' \<and> follows (\<sigma>\<lparr>pc := pc s'\<rparr>) s' \<and> sr s' 0 = 0 \<and> has_delay_slot s' = 0 \<and>
        coherent (compile_block t rdp R left) Rg c')"
proof -
  let ?compile = "compile_block t rdp R left"
  define h0 where "h0 = exec_op cl (jit_ldxi_i JIT_REGISTER_NEXT_PC F_pc) (h\<lparr>cpu := cpu_state c\<rparr>)"
  have h0: "cpu h0 = s" "globals h0 = globals h" "ucast (jit_regs h0 JIT_REGISTER_NEXT_PC) = pc s"
    by (simp_all add: h0_def put_reg_def get_field_def s_def)
  have start: "machine_steps t rdp (imem s) k (here h0 s) = steps k" for k by (simp add: here_def h0 steps_def)
  have b: "between ?compile Rg (imem s) c h0" using assms(3-5) by (simp add: between_def h0 s_def)
  have f: "follows s (cpu h0)" by (simp add: h0)
  have eq: "enter_frame cl address ?compile c h = (case enter_loop cl address ?compile c h0 of None \<Rightarrow> None
      | Some (c, h) \<Rightarrow> let h = exec_op cl (jit_stxi_i F_pc JIT_REGISTER_NEXT_PC) h in Some (c\<lparr>cpu_state := cpu h\<rparr>, h, jit_regs h JIT_REGISTER_MODE))"
    by (simp add: enter_frame_def h0_def)
  show ?thesis
  proof (cases "enter_loop cl address ?compile c h0")
    case None
    then have "running (steps k)" for k using enter_loop_returns [OF assms(6) b f, of k cl address] start by auto
    then show ?thesis by (simp add: eq None)
  next
    case (Some r)
    obtain c1 h1 where r: "r = (c1, h1)" by fastforce
    obtain k where k: "ended ?compile Rg c1 h1 (steps k)" using enter_loop_arrives [OF assms(6) Some b f] unfolding r start by auto
    then obtain mode pc' gl \<sigma> where st: "steps k = Stopped mode pc' gl \<sigma>" by (cases "steps k") (auto simp: ended_def)
    let ?v = "ucast (jit_regs h1 JIT_REGISTER_NEXT_PC) :: u32" and ?s = "(cpu h1)\<lparr>pc := ucast (jit_regs h1 JIT_REGISTER_NEXT_PC)\<rparr>"
    have fr: "enter_frame cl address ?compile c h = Some (c1\<lparr>cpu_state := ?s\<rparr>, h1\<lparr>cpu := ?s\<rparr>, jit_regs h1 JIT_REGISTER_MODE)"
      by (simp add: eq Some r put_field_def)
    have a: "arrives return_thunk h1 (Stopped mode pc' gl \<sigma>)" "coherent ?compile Rg (c1\<lparr>cpu_state := cpu h1\<rparr>)" using k by (simp_all add: ended_def st)
    have "coherent ?compile Rg (c1\<lparr>cpu_state := ?s\<rparr>)"
      using coherent_execute [OF a(2), of ?s] by (simp add: imem_tracked_def)
    moreover have "follows (\<sigma>\<lparr>pc := ?v\<rparr>) ?s"
    proof -
      have "follows \<sigma> (cpu h1)" using a(1) by simp
      then obtain x where "cpu h1 = with_sr x \<sigma>" "\<forall>r<32. reg_file x r = sr \<sigma> r" by (auto simp: follows_def)
      then show ?thesis unfolding follows_def by (intro exI [of _ x]) (simp add: with_sr_def)
    qed
    ultimately show ?thesis using a(1) st unfolding fr
      by (simp add: Let_def) (rule exI [of _ k], rule exI [of _ mode], rule exI [of _ \<sigma>], simp)
  qed
qed

text \<open>The reasons to stop are the ones for which \<open>CPU::run\<close> returns.\<close>

lemma MTC0_modes: "snd (RSP_MTC0 rdp gl s rd rt) \<in> {MODE_CONTINUE, MODE_CHECK_FLAGS, MODE_DMA_READ}"
proof -
  have "snd (rsp_status_write s v) \<in> {MODE_CONTINUE, MODE_CHECK_FLAGS, MODE_DMA_READ}"
    "snd (rsp_dma_read s) \<in> {MODE_CONTINUE, MODE_CHECK_FLAGS, MODE_DMA_READ}" for s v
    by (simp_all add: rsp_status_write_def rsp_dma_read_def Let_def split_beta)
  then show ?thesis unfolding RSP_MTC0_def Let_def by simp
qed

lemma step_stops: "machine_step t rdp mem (Running pc' slot gl s) = Stopped mode pc1 gl1 s1 \<Longrightarrow> leaves mode"
proof -
  have "snd (snd (mips_cop0 rdp instr gl s)) \<in> {MODE_CONTINUE, MODE_CHECK_FLAGS, MODE_DMA_READ}" for instr
    using MTC0_modes [of rdp gl s "rd_of instr" "rt_of instr"] by (simp add: mips_cop0_def RSP_MFC0_def Let_def)
  then show "machine_step t rdp mem (Running pc' slot gl s) = Stopped mode pc1 gl1 s1 \<Longrightarrow> leaves mode"
    by (auto simp: machine_step.simps Let_def leaves_def split: if_splits prod.splits) (metis insertE singletonD snd_conv)
qed

lemma steps_stop: "machine_steps t rdp mem k (Running pc' slot gl s) = Stopped mode pc1 gl1 s1 \<Longrightarrow> leaves mode"
proof (induction k arbitrary: pc' slot gl s)
  case (Suc k)
  show ?case
  proof (cases "machine_step t rdp mem (Running pc' slot gl s)")
    case (Running a b d e)
    then show ?thesis using Suc by simp
  next
    case (Stopped m a b d)
    have "machine_steps t rdp mem k (Stopped m a b d) = Stopped m a b d" by (induction k) (simp_all add: machine_step.simps)
    then show ?thesis using Suc.prems Stopped step_stops [OF Stopped] by simp
  qed
qed simp

definition mode_of :: "u64 \<Rightarrow> ReturnMode" where
  "mode_of ret = (if ret = 0 then MODE_ENTER else if ret = 2 then MODE_BREAK else if ret = 3 then MODE_DMA_READ
     else if ret = 4 then MODE_CHECK_FLAGS else MODE_CONTINUE)"

lemma mode_of_word [simp]: "mode_of (mode_word mode) = mode"
  by (cases mode) (simp_all add: mode_of_def)

text \<open>The frame as \<open>CPU::run\<close> calls it. A frame that does not return becomes one that is entered again for ever.\<close>

definition run_frame :: "clobber \<Rightarrow> (emitter option \<Rightarrow> u64) \<Rightarrow> emitter option compiler \<Rightarrow> host \<Rightarrow> emitter option jit_cpu \<Rightarrow>
    emitter option jit_cpu \<times> ReturnMode" where
  "run_frame cl address compile h c =
     (case enter_frame cl address compile c h of None \<Rightarrow> (c, MODE_CONTINUE) | Some (c', h', ret) \<Rightarrow> (c', mode_of ret))"

lemma run_loop_stuck: "fst (ef c) = c \<Longrightarrow> snd (ef c) = MODE_CONTINUE \<Longrightarrow> run_loop ef c = None"
proof (rule ccontr)
  assume stuck: "fst (ef c) = c" "snd (ef c) = MODE_CONTINUE" and "run_loop ef c \<noteq> None"
  then obtain k where k: "leaves (snd (ef (((\<lambda>c. fst (ef c)) ^^ k) c)))" using run_loop_returns by blast
  have "((\<lambda>c. fst (ef c)) ^^ j) c = c" for j by (induction j) (simp_all add: stuck(1))
  then show False using k stuck(2) by (simp add: leaves_def)
qed

lemma coherent_on_break: "coherent compile Rg c \<Longrightarrow> coherent compile Rg (on_break c)"
  unfolding on_break_def Let_def by (intro coherent_execute) (simp_all add: imem_tracked_def)

section \<open>Properties\<close>

text \<open>C1: the recompiler refines the processor. Take any coherent state of the code cache, with code blocks dirty or not, code whose branches
  the compiler allows, and any processor state with register 0 zero. If \<open>CPU::run\<close> returns, the processor started at the program counter,
  with the branch that was pending, comes to a stop after finitely many instructions, and everything the caller can see is as the processor
  leaves it: the returned mode, the program counter, the scalar and vector registers, the memories and the control registers, with the
  status of a break added; no branch is pending and the code cache is coherent again, even when the last instruction overwrote
  compiled code. If it does not return, the processor never stops. Nothing is assumed of the registers and the stack that generated code
  finds, of what called functions leave in the caller-saved registers, or of what earlier compilations left in the register cache.
  The side conditions are those of \<open>frame_ok\<close>: the branch pairs excluded by \<open>code_allowed\<close> (the compiler loses them, see
  \<open>second_branch_lost\<close>), no two contents of a code block with the same hash, a host callback that leaves the code and the scalar registers
  alone, and a register cache with the three entries that one instruction needs.\<close>

theorem run_refines:
  fixes c :: "emitter option jit_cpu" and h :: host and t :: target and rdp :: "CPUState \<Rightarrow> CPUState"
  defines "s \<equiv> (cpu_state c)\<lparr>dirty_blocks := 0\<rparr>"
  defines "steps \<equiv> \<lambda>k. machine_steps t rdp (imem s) k (Running (pc s AND 0xffc) (pending_slot s) (globals h) s)"
  assumes "coherent (compile_block t rdp R left) Rg c" and "sr s 0 = 0" and "frame_ok rdp R left Rg (imem s)"
  shows "case run (run_frame cl address (compile_block t rdp R left) h) c of
      None \<Rightarrow> \<forall>k. running (steps k)
    | Some (c', mode) \<Rightarrow> coherent (compile_block t rdp R left) Rg c' \<and>
       (\<exists>k pc' gl \<sigma> c1. steps k = Stopped mode pc' gl \<sigma> \<and> c' = (if mode = MODE_BREAK then on_break c1 else c1) \<and>
          (let s' = cpu_state c1 in pc s' AND 0xffc = pc' \<and> follows (\<sigma>\<lparr>pc := pc s'\<rparr>) s' \<and> sr s' 0 = 0 \<and> has_delay_slot s' = 0))"
proof -
  let ?compile = "compile_block t rdp R left" and ?c = "invalidate_code c"
  let ?ef = "run_frame cl address ?compile h"
  have s: "cpu_state ?c = s" by (simp add: invalidate_code_effect s_def)
  have run: "run ?ef c = run_loop ?ef ?c" by (simp add: run_def)
  have frame: "case enter_frame cl address ?compile ?c h of
      None \<Rightarrow> \<forall>k. running (steps k)
    | Some (c', h', ret) \<Rightarrow> (let s' = cpu_state c' in \<exists>k mode pc' \<sigma>. steps k = Stopped mode pc' (globals h') \<sigma> \<and> ret = mode_word mode \<and>
        pc s' AND 0xffc = pc' \<and> follows (\<sigma>\<lparr>pc := pc s'\<rparr>) s' \<and> sr s' 0 = 0 \<and> has_delay_slot s' = 0 \<and> coherent ?compile Rg c')"
    unfolding steps_def s [symmetric]
    by (rule enter_frame_refines) (use assms(3-5) in \<open>simp_all add: coherent_invalidate_code s\<close>, simp_all add: s_def)
  show ?thesis
  proof (cases "enter_frame cl address ?compile ?c h")
    case None
    then have "run ?ef c = None" unfolding run by (intro run_loop_stuck) (simp_all add: run_frame_def)
    then show ?thesis using frame None by simp
  next
    case (Some x)
    obtain c1 h1 ret where x: "x = (c1, h1, ret)" by (cases x)
    obtain k mode pc' \<sigma> where k: "steps k = Stopped mode pc' (globals h1) \<sigma>" "ret = mode_word mode" "pc (cpu_state c1) AND 0xffc = pc'"
      "follows (\<sigma>\<lparr>pc := pc (cpu_state c1)\<rparr>) (cpu_state c1)" "sr (cpu_state c1) 0 = 0" "has_delay_slot (cpu_state c1) = 0" "coherent ?compile Rg c1"
      using frame unfolding Some x by (auto simp: Let_def)
    have ef: "?ef ?c = (c1, mode)" by (simp add: run_frame_def Some x k(2))
    have "leaves mode" using steps_stop k(1) unfolding steps_def by blast
    then have "run ?ef c = Some (if mode = MODE_BREAK then on_break c1 else c1, mode)"
      unfolding run by (subst run_loop_step) (simp add: ef)
    moreover have "coherent ?compile Rg (if mode = MODE_BREAK then on_break c1 else c1)" using k(7) coherent_on_break [OF k(7)] by simp
    moreover have "\<exists>k pc' gl \<sigma> c2. steps k = Stopped mode pc' gl \<sigma> \<and> (if mode = MODE_BREAK then on_break c1 else c1) = (if mode = MODE_BREAK then on_break c2 else c2) \<and>
          (let s' = cpu_state c2 in pc s' AND 0xffc = pc' \<and> follows (\<sigma>\<lparr>pc := pc s'\<rparr>) s' \<and> sr s' 0 = 0 \<and> has_delay_slot s' = 0)"
      using k by (intro exI [of _ k] exI [of _ pc'] exI [of _ "globals h1"] exI [of _ \<sigma>] exI [of _ c1]) (simp add: Let_def)
    ultimately show ?thesis by simp
  qed
qed

text \<open>C37: the processor never executes code that it has changed. As long as it runs, its instruction memory is the one it started with and
  no code block is dirty; when it stops, every word that changed lies in a block marked dirty together with the block before it.\<close>

theorem code_kept:
  assumes "code_free rdp" and "dirty_blocks s = 0"
  shows "case machine_steps t rdp mem k (Running pc' slot gl s) of
      Running pc1 slot1 gl1 s1 \<Rightarrow> dirty_blocks s1 = 0 \<and> (\<forall>w<1024. imem s1 w = imem s w)
    | Stopped mode pc1 gl1 s1 \<Rightarrow> imem_tracked s s1"
proof -
  let ?m = "machine_steps t rdp mem k (Running pc' slot gl s)"
  have "imem_tracked s (state_of ?m)" "running ?m \<Longrightarrow> dirty_blocks (state_of ?m) = 0"
    using steps_code [OF assms(1), of "Running pc' slot gl s" t mem k] assms(2) by simp_all
  then show ?thesis using tracked_clean by (cases ?m) auto
qed

text \<open>A jump to another block with its delay slot, and breaks everywhere else.\<close>

definition jump_imem :: "nat \<Rightarrow> u32" where
  "jump_imem w = (if w = 0 then 0x08000040 else if w = 1 then 0x24010007 else 13)"

definition jump_cpu :: "emitter option jit_cpu" where
  "jump_cpu = \<lparr>cpu_state = reset_state\<lparr>imem := jump_imem\<rparr>, blocks = \<lambda>_. None, cached_imem = jump_imem, cached_blocks = \<lambda>_ _. None\<rparr>"

definition jump_regions :: "(nat \<times> u32 list) set" where
  "jump_regions = (\<lambda>w. (w, region jump_imem w)) ` {..<1024}"

lemma jump_region_allowed: "w < 1024 \<Longrightarrow> region_allowed jump_imem w (region_length jump_imem w)"
proof -
  assume w: "w < 1024"
  consider "w = 0" | "w = 1" | "2 \<le> w" by linarith
  then show ?thesis
  proof cases
    case 1
    have "region_allowed jump_imem 0 (region_length jump_imem 0)" by code_simp
    then show ?thesis by (simp add: 1)
  next
    case 2
    have "region_allowed jump_imem 1 (region_length jump_imem 1)" by code_simp
    then show ?thesis by (simp add: 2)
  next
    case 3
    have be: "w < block_end (4 * w)" using region_window(1,2) [OF w, of jump_imem] by (simp add: analyze_static_end_def)
    have "static_scan jump_imem w (block_end (4 * w)) 0 w = w + 1"
      using be 3 by (subst static_scan.simps) (simp add: static_step_def jump_imem_def)
    then have "region_length jump_imem w = 1" using be by (simp add: region_length_def analyze_static_end_def)
    then show ?thesis by (simp add: region_allowed_def slot_allowed_def prev_info_def no_info_def Let_def)
  qed
qed

lemma jump_frame_ok: "frame_ok id 3 (\<lambda>hash w ws. no_registers) jump_regions jump_imem"
  using jump_region_allowed
  by (auto simp: frame_ok_def scalar_free_def code_free_def no_registers_def collision_free_def jump_regions_def code_allowed_def list_all_iff)

lemma jump_run: "machine_steps plain_target id jump_imem 3 (Running 0 None gl (reset_state\<lparr>imem := jump_imem\<rparr>)) =
    Stopped MODE_BREAK 0x104 gl (reset_state\<lparr>imem := jump_imem, sr := (\<lambda>_. 0)(1 := 7)\<rparr>)"
  by (simp add: numeral_3_eq_3 machine_step.simps jump_imem_def is_break_def is_branch_def mips_branch_def next_pc_def mips_step_def
      is_vu_instruction_def mips_alu_def mips_immediate_def fld_def reset_state_def Let_def)

theorem run_refines_witness:
  "\<exists>c'. run (run_frame (\<lambda>_ _. 7) (\<lambda>_. 0) (compile_block plain_target id 3 (\<lambda>hash w ws. no_registers)) example_host) jump_cpu = Some (c', MODE_BREAK) \<and>
    pc (cpu_state c') AND 0xffc = 0x104 \<and> sr (cpu_state c') 1 = 7"
proof -
  let ?run = "run (run_frame (\<lambda>_ _. 7) (\<lambda>_. 0) (compile_block plain_target id 3 (\<lambda>hash w ws. no_registers)) example_host) jump_cpu"
  let ?s = "reset_state\<lparr>imem := jump_imem\<rparr>"
  let ?steps = "\<lambda>k. machine_steps plain_target id jump_imem k (Running 0 None (globals example_host) ?s)"
  note stop = jump_run [of "globals example_host"]
  have st: "(cpu_state jump_cpu)\<lparr>dirty_blocks := 0\<rparr> = ?s" "pc ?s AND 0xffc = 0" "pending_slot ?s = None" "imem ?s = jump_imem"
    by (simp_all add: jump_cpu_def reset_state_def pending_slot_def)
  have co: "coherent (compile_block plain_target id 3 (\<lambda>hash w ws. no_registers)) jump_regions jump_cpu"
    by (simp add: coherent_def jump_cpu_def imem_tracked_def)
  have r: "case ?run of None \<Rightarrow> \<forall>k. running (?steps k)
    | Some (c', mode) \<Rightarrow> coherent (compile_block plain_target id 3 (\<lambda>hash w ws. no_registers)) jump_regions c' \<and>
       (\<exists>k pc' gl \<sigma> c1. ?steps k = Stopped mode pc' gl \<sigma> \<and> c' = (if mode = MODE_BREAK then on_break c1 else c1) \<and>
          (let s' = cpu_state c1 in pc s' AND 0xffc = pc' \<and> follows (\<sigma>\<lparr>pc := pc s'\<rparr>) s' \<and> sr s' 0 = 0 \<and> has_delay_slot s' = 0))"
    by (rule run_refines [OF co, where cl = "\<lambda>_ _. 7" and address = "\<lambda>_. 0" and h = example_host, unfolded st])
      (simp_all add: jump_frame_ok, simp_all add: reset_state_def)
  show ?thesis
  proof (cases ?run)
    case None
    then have "running (?steps 3)" using r by simp
    then show ?thesis by (simp only: stop running.simps)
  next
    case (Some x)
    obtain c' mode where x: "x = (c', mode)" by (cases x)
    then obtain k pc' gl \<sigma> c1 where k: "?steps k = Stopped mode pc' gl \<sigma>" "c' = (if mode = MODE_BREAK then on_break c1 else c1)"
      "pc (cpu_state c1) AND 0xffc = pc'" "follows (\<sigma>\<lparr>pc := pc (cpu_state c1)\<rparr>) (cpu_state c1)" using r Some by (auto simp: Let_def)
    have "Stopped mode pc' gl \<sigma> = ?steps (max k 3)" using stopped_stays [OF k(1)] by simp
    also have "\<dots> = Stopped MODE_BREAK 0x104 (globals example_host) (?s\<lparr>sr := (\<lambda>_. 0)(1 := 7)\<rparr>)"
      using stopped_stays [OF stop] by simp
    finally have "mode = MODE_BREAK" "pc' = 0x104" "sr \<sigma> 1 = 7" by simp_all
    moreover have "pc (cpu_state (on_break c1)) = pc (cpu_state c1)" "sr (cpu_state (on_break c1)) = sr (cpu_state c1)"
      by (simp_all add: on_break_def Let_def set_cr_def)
    ultimately show ?thesis using Some x k(2,3) follows_sr(1) [OF k(4), of 1] by simp
  qed
qed

theorem code_kept_witness:
  "case machine_steps plain_target id jump_imem 2 (Running 0 None (globals example_host) (reset_state\<lparr>imem := jump_imem\<rparr>)) of
      Running pc1 slot1 gl1 s1 \<Rightarrow> dirty_blocks s1 = 0 \<and> (\<forall>w<1024. imem s1 w = jump_imem w)
    | Stopped mode pc1 gl1 s1 \<Rightarrow> imem_tracked (reset_state\<lparr>imem := jump_imem\<rparr>) s1"
  using code_kept [of id "reset_state\<lparr>imem := jump_imem\<rparr>" plain_target jump_imem 2 0 None "globals example_host"]
  by (simp add: code_free_def reset_state_def split: machine.splits)

end
