(* ===== verification/Jit_Allocator.thy ===== *)
theory Jit_Allocator
  imports Rsp_Prelude
begin

unbundle bit_operations_syntax

text \<open>
  The allocator for generated code and its data (\<open>jit_allocator.cpp\<close>): blocks of address space reserved from the operating system and
  handed out from their start, page by page. Addresses and sizes are words of the width of \<open>size_t\<close>, which is the type variable \<open>'w\<close>: what
  the source decides by the range of \<open>size_t\<close> is decided by this width, and sums wrap around at it. The null pointer is 0. The operating
  system is two arguments: \<open>reserve\<close> gives the address of new address space (\<open>mmap\<close> or \<open>VirtualAlloc\<close>), depending on what
  is mapped, and \<open>protect\<close> changes the access of pages. \<open>abort()\<close> is the result \<open>None\<close>.
\<close>

section \<open>Operations\<close>

record 'a Block =
  block_code :: 'a
  block_size_of :: 'a
  block_offset :: 'a

datatype protection = Read_write | Execute | Read_only

type_synonym 'w reserve = "('w word \<times> 'w word) list \<Rightarrow> 'w word \<Rightarrow> 'w word"
type_synonym 'w protect = "protection \<Rightarrow> 'w word \<Rightarrow> 'w word \<Rightarrow> bool"

definition huge_va :: "'w::len itself \<Rightarrow> bool" where
  "huge_va _ \<longleftrightarrow> uint (- 1 :: 'w word) > 0x100000000"

definition block_size :: "'w::len word" where
  "block_size = (if huge_va TYPE('w) then 1024 * 1024 * 1024 else 2 * 1024 * 1024)"

definition align_page :: "'w::len word \<Rightarrow> 'w word \<Rightarrow> 'w word" where
  "align_page PAGE_SIZE offset = (offset + PAGE_SIZE - 1) AND NOT (PAGE_SIZE - 1)"

definition mapped :: "'w::len word Block list \<Rightarrow> ('w word \<times> 'w word) list" where
  "mapped = map (\<lambda>b. (block_code b, block_size_of b))"

definition reserve_block :: "'w::len reserve \<Rightarrow> 'w word Block list \<Rightarrow> 'w word \<Rightarrow> 'w word Block" where
  "reserve_block reserve present amount = \<lparr>block_code = reserve (mapped present) amount, block_size_of = amount, block_offset = 0\<rparr>"

text \<open>The end of \<open>allocate\<close>: take the pages from the last block.\<close>

definition take_pages :: "'w::len protect \<Rightarrow> 'w word \<Rightarrow> 'w word Block list \<Rightarrow> 'w word \<times> 'w word Block list" where
  "take_pages protect amount blocks =
     (let block = last blocks
      in if block_code block = 0 then (0, blocks)
         else let ret = block_code block + block_offset block;
                  blocks = butlast blocks @ [block\<lparr>block_offset := block_offset block + amount\<rparr>]
              in if protect Read_write ret amount then (ret, blocks) else (0, blocks))"

definition allocate :: "'w::len word \<Rightarrow> 'w reserve \<Rightarrow> 'w protect \<Rightarrow> 'w word Block list \<Rightarrow> 'w word Block list \<Rightarrow> 'w word \<Rightarrow>
    ('w word \<times> 'w word Block list) option" where
  "allocate PAGE_SIZE reserve protect others blocks amount =
     (let amount = align_page PAGE_SIZE amount;
          blocks = (if blocks = [] then [reserve_block reserve others (max amount block_size)] else blocks);
          block = last blocks
      in if block_code block = 0 then Some (0, blocks)
         else let block = block\<lparr>block_offset := align_page PAGE_SIZE (block_offset block)\<rparr>;
                  blocks = butlast blocks @ [block]
              in if block_offset block + amount > block_size_of block then
                   (if huge_va TYPE('w) then None
                    else Some (take_pages protect amount (blocks @ [reserve_block reserve (others @ blocks) (max amount block_size)])))
                 else Some (take_pages protect amount blocks))"

record 'a Allocator =
  code_blocks :: "'a Block list"
  data_blocks :: "'a Block list"

definition allocate_code :: "'w::len word \<Rightarrow> 'w reserve \<Rightarrow> 'w protect \<Rightarrow> 'w word \<Rightarrow> 'w word Allocator \<Rightarrow> ('w word \<times> 'w word Allocator) option" where
  "allocate_code PAGE_SIZE reserve protect amount a =
     map_option (map_prod id (\<lambda>bs. a\<lparr>code_blocks := bs\<rparr>)) (allocate PAGE_SIZE reserve protect (data_blocks a) (code_blocks a) amount)"

definition allocate_data :: "'w::len word \<Rightarrow> 'w reserve \<Rightarrow> 'w protect \<Rightarrow> 'w word \<Rightarrow> 'w word Allocator \<Rightarrow> ('w word \<times> 'w word Allocator) option" where
  "allocate_data PAGE_SIZE reserve protect amount a =
     map_option (map_prod id (\<lambda>bs. a\<lparr>data_blocks := bs\<rparr>)) (allocate PAGE_SIZE reserve protect (code_blocks a) (data_blocks a) amount)"

text \<open>\<open>commit\<close>, with the protections that it asks for.\<close>

definition commit :: "'w::len protect \<Rightarrow> 'w word \<Rightarrow> 'w word \<Rightarrow> 'w word \<Rightarrow> 'w word \<Rightarrow> bool \<times> (protection \<times> 'w word) list" where
  "commit protect code code_size data data_size =
     (let ok = True; calls = [];
          (ok, calls) = (if ok then (ok, calls) else (protect Execute code code_size, calls @ [(Execute, code)]));
          (ok, calls) = (if ok then (ok, calls) else (protect Read_only data data_size, calls @ [(Read_only, data)]))
      in (ok, calls))"

section \<open>Pages\<close>

text \<open>A page size: a power of two that divides the block size.\<close>

definition page_size :: "'w::len word \<Rightarrow> bool" where
  "page_size P \<longleftrightarrow> (\<exists>k. 1 \<le> k \<and> k \<le> 21 \<and> P = 2 ^ k)"

text \<open>A quarter of the address space, in which no sum of the allocator wraps around.\<close>

lemma address_space:
  assumes "32 \<le> LENGTH('w::len)"
  shows "(2 :: nat) ^ LENGTH('w) = 4 * 2 ^ (LENGTH('w) - 2)" "(2 :: nat) ^ (LENGTH('w) - 1) = 2 * 2 ^ (LENGTH('w) - 2)"
    "(2 :: nat) ^ 30 \<le> 2 ^ (LENGTH('w) - 2)" "2 * (2 :: nat) ^ 21 < 2 ^ (LENGTH('w) - 2)"
proof -
  have "LENGTH('w) = Suc (Suc (LENGTH('w) - 2))" "LENGTH('w) - 1 = Suc (LENGTH('w) - 2)" using assms by simp_all
  then show "(2 :: nat) ^ LENGTH('w) = 4 * 2 ^ (LENGTH('w) - 2)" "(2 :: nat) ^ (LENGTH('w) - 1) = 2 * 2 ^ (LENGTH('w) - 2)"
    by (metis power_Suc mult.assoc mult_2 numeral_Bit0, metis power_Suc)
  show "(2 :: nat) ^ 30 \<le> 2 ^ (LENGTH('w) - 2)" using assms by (intro power_increasing) simp_all
  then show "2 * (2 :: nat) ^ 21 < 2 ^ (LENGTH('w) - 2)" by simp
qed

lemma page_unat:
  fixes P :: "'w::len word"
  assumes W: "32 \<le> LENGTH('w)" and P: "page_size P"
  obtains k where "P = 2 ^ k" "unat P = 2 ^ k" "1 \<le> k" "k \<le> 21"
proof -
  obtain k where k: "1 \<le> k" "k \<le> 21" "P = 2 ^ k" using P by (auto simp: page_size_def)
  have "(2 :: nat) ^ k < 2 ^ LENGTH('w)" using k(2) W by (intro power_strict_increasing) simp_all
  moreover have "P = word_of_nat (2 ^ k)" using k(3) by simp
  ultimately have "unat P = 2 ^ k" by (simp only: unat_of_nat) (simp add: take_bit_nat_eq_self)
  then show thesis using k that by blast
qed

lemma unat_and_not_mask: "unat (x AND NOT (mask k)) = unat x div 2 ^ k * 2 ^ k" for x :: "'w::len word"
proof -
  have "x AND NOT (mask k) = push_bit k (drop_bit k x)" by (intro bit_word_eqI) (auto simp: bit_simps)
  moreover have "push_bit k (drop_bit k (unat x)) < 2 ^ LENGTH('w)"
  proof -
    have "unat x < 2 ^ LENGTH('w)" by (rule unsigned_less)
    moreover have "push_bit k (drop_bit k (unat x)) \<le> unat x" by (simp add: push_bit_eq_mult drop_bit_eq_div)
    ultimately show ?thesis by linarith
  qed
  then have "unat (push_bit k (drop_bit k x)) = push_bit k (drop_bit k (unat x))"
    by (simp add: unat_drop_bit_eq unsigned_push_bit_eq take_bit_nat_eq_self)
  ultimately show ?thesis by (simp add: push_bit_eq_mult drop_bit_eq_div)
qed

lemma div_last: "0 < p \<Longrightarrow> (q * p + (p - 1)) div p = q" for p q :: nat
  by (subst div_mult_self3) simp_all

lemma div_gap: "0 < p \<Longrightarrow> a < a div p * p + p" for a p :: nat
  using div_mult_mod_eq [of a p] mod_less_divisor [of p a] by linarith

lemma align_page_unat:
  fixes P x :: "'w::len word"
  assumes W: "32 \<le> LENGTH('w)" and P: "page_size P" and x: "unat x \<le> 2 ^ (LENGTH('w) - 1)"
  shows "unat (align_page P x) = (unat x + unat P - 1) div unat P * unat P" "unat P dvd unat (align_page P x)" "unat x \<le> unat (align_page P x)"
    "unat (align_page P x) \<le> unat x + 2 ^ 21"
proof -
  note space = address_space [OF W]
  obtain k where k: "P = 2 ^ k" "unat P = 2 ^ k" "k \<le> 21" using page_unat [OF W P] by metis
  have p: "(2 :: nat) ^ k \<le> 2 ^ 21" using k(3) by (intro power_increasing) simp_all
  have "unat x + unat P < 2 ^ LENGTH('w)" using x p space k(2) by simp
  then have "unat (x + P) = unat x + unat P" by (rule unat_add_lem [THEN iffD1])
  moreover have "1 \<le> x + P" unfolding word_le_nat_alt calculation using k(2) by (simp add: Suc_le_eq)
  ultimately have "unat (x + P - 1) = unat x + unat P - 1" by (simp add: unat_sub)
  moreover have "P - 1 = mask k" by (simp add: k(1) mask_eq_decr_exp)
  ultimately show eq: "unat (align_page P x) = (unat x + unat P - 1) div unat P * unat P"
    by (simp add: align_page_def unat_and_not_mask k(2))
  then show "unat P dvd unat (align_page P x)" by simp
  have "(unat x + unat P - 1) div unat P * unat P \<le> unat x + unat P - 1" by simp
  then show "unat (align_page P x) \<le> unat x + 2 ^ 21" unfolding eq using x p k(2) by linarith
  have "unat x + unat P - 1 < (unat x + unat P - 1) div unat P * unat P + unat P"
    by (rule div_gap) (simp add: k(2))
  then show "unat x \<le> unat (align_page P x)" unfolding eq by linarith
qed

lemma align_page_aligned:
  fixes P x :: "'w::len word"
  assumes W: "32 \<le> LENGTH('w)" and P: "page_size P" and x: "unat x \<le> 2 ^ (LENGTH('w) - 1)" and d: "unat P dvd unat x"
  shows "align_page P x = x"
proof -
  obtain k where k: "unat P = 2 ^ k" using page_unat [OF W P] by metis
  obtain q where q: "unat x = unat P * q" using d by blast
  have "0 < unat P" using k by simp
  then have "unat P * q + unat P - 1 = unat P * q + (unat P - 1)" by linarith
  moreover have "(unat P * q + (unat P - 1)) div unat P = q" using \<open>0 < unat P\<close> by (intro div_nat_eqI) simp_all
  ultimately have "(unat P * q + unat P - 1) div unat P = q" by simp
  then show ?thesis using align_page_unat(1) [OF W P x] q by (simp add: word_unat_eq_iff mult.commute)
qed

section \<open>Blocks\<close>

text \<open>A failed \<open>VirtualAlloc\<close> gives the null pointer, a failed \<open>mmap\<close> the address \<open>MAP_FAILED\<close>, which is -1 and which the program does not
  tell from reserved address space.\<close>

definition failed :: "'w::len word \<Rightarrow> bool" where
  "failed a \<longleftrightarrow> a = 0 \<or> a = - 1"

definition extent :: "'w::len word Block \<Rightarrow> nat set" where
  "extent b = {unat (block_code b)..<unat (block_code b) + unat (block_size_of b)}"

definition used :: "'w::len word Block \<Rightarrow> nat set" where
  "used b = (if failed (block_code b) then {} else {unat (block_code b)..<unat (block_code b) + unat (block_offset b)})"

definition grant :: "'w::len word \<Rightarrow> 'w word \<Rightarrow> nat set" where
  "grant ret amount = {unat ret..<unat ret + unat amount}"

definition good_block :: "'w::len word \<Rightarrow> 'w word Block \<Rightarrow> bool" where
  "good_block P b \<longleftrightarrow> unat P dvd unat (block_offset b) \<and> unat (block_offset b) \<le> unat (block_size_of b) \<and>
     unat (block_size_of b) \<le> 2 ^ (LENGTH('w) - 2) + 2 ^ 21 \<and>
     (\<not> failed (block_code b) \<longrightarrow> unat P dvd unat (block_code b) \<and> unat (block_code b) + unat (block_size_of b) < 2 ^ LENGTH('w))"

definition apart :: "'w::len word Block \<Rightarrow> 'w word Block \<Rightarrow> bool" where
  "apart b c \<longleftrightarrow> \<not> failed (block_code b) \<longrightarrow> \<not> failed (block_code c) \<longrightarrow> extent b \<inter> extent c = {}"

definition good_blocks :: "'w::len word \<Rightarrow> 'w word Block list \<Rightarrow> bool" where
  "good_blocks P bs \<longleftrightarrow> (\<forall>b\<in>set bs. good_block P b) \<and> sorted_wrt apart bs"

definition all_used :: "'w::len word Block list \<Rightarrow> nat set" where
  "all_used bs = (\<Union>b\<in>set bs. used b)"

text \<open>What the operating system promises: address space that it reserves is page aligned, does not wrap around, and does not overlap what is
  mapped, and only the access of whole pages can be changed (\<open>mprotect\<close> fails for an address that is not page aligned).\<close>

definition os_ok :: "'w::len word \<Rightarrow> 'w reserve \<Rightarrow> 'w protect \<Rightarrow> bool" where
  "os_ok P reserve protect \<longleftrightarrow>
     (\<forall>m amount. \<not> failed (reserve m amount) \<longrightarrow> unat P dvd unat (reserve m amount) \<and> unat (reserve m amount) + unat amount < 2 ^ LENGTH('w) \<and>
       (\<forall>(a, n) \<in> set m. \<not> failed a \<longrightarrow> {unat a..<unat a + unat n} \<inter> {unat (reserve m amount)..<unat (reserve m amount) + unat amount} = {})) \<and>
     (\<forall>access a amount. protect access a amount \<longrightarrow> unat P dvd unat a)"

lemma os_protect: "os_ok P reserve protect \<Longrightarrow> protect access a amount \<Longrightarrow> unat P dvd unat a"
  unfolding os_ok_def by blast

lemma used_extent: "good_block P b \<Longrightarrow> used b \<subseteq> extent b"
  by (auto simp: good_block_def used_def extent_def)

lemma good_blocks_swap: "good_blocks P (xs @ ys) = good_blocks P (ys @ xs)" for P :: "'w::len word"
proof -
  have "apart b c \<Longrightarrow> apart c b" for b c :: "'w word Block" by (auto simp: apart_def)
  then show ?thesis by (auto simp: good_blocks_def sorted_wrt_append)
qed

lemma reserve_good:
  fixes P :: "'w::len word"
  assumes os: "os_ok P reserve protect" and bs: "good_blocks P bs" and n: "unat amount \<le> 2 ^ (LENGTH('w) - 2) + 2 ^ 21"
  shows "good_blocks P (bs @ [reserve_block reserve bs amount])" "all_used (bs @ [reserve_block reserve bs amount]) = all_used bs"
proof -
  let ?b = "reserve_block reserve bs amount"
  have b: "block_code ?b = reserve (mapped bs) amount" "block_size_of ?b = amount" "block_offset ?b = 0" by (simp_all add: reserve_block_def)
  have "good_block P ?b" using os n by (simp add: good_block_def b os_ok_def)
  moreover have "apart c ?b" if "c \<in> set bs" for c
    using os that by (force simp: apart_def extent_def b os_ok_def mapped_def)
  ultimately show "good_blocks P (bs @ [?b])" using bs by (simp add: good_blocks_def sorted_wrt_append)
  show "all_used (bs @ [?b]) = all_used bs" by (auto simp: all_used_def used_def b)
qed

text \<open>Pages taken from the last block are fresh. Nothing is taken from a block whose reservation failed: its addresses are not page aligned.\<close>

lemma failed_unaligned:
  fixes P offset :: "'w::len word"
  assumes W: "32 \<le> LENGTH('w)" and P: "page_size P" and d: "unat P dvd unat offset"
  shows "\<not> unat P dvd unat (- 1 + offset)"
proof
  assume "unat P dvd unat (- 1 + offset)"
  moreover have "even (unat P)" using page_unat [OF W P] by (metis dvd_power dvd_refl less_eq_Suc_le One_nat_def)
  ultimately have "even (unat (- 1 + offset))" "even (unat offset)" using d by (blast intro: dvd_trans)+
  moreover have "even (unat x) \<longleftrightarrow> even x" for x :: "'w word" using bit_unsigned_iff [of x 0, where ?'a = nat] by (simp add: bit_0)
  ultimately have "even (- 1 + offset)" "even offset" by simp_all
  then show False by simp
qed

lemma take_pages_fresh:
  fixes P :: "'w::len word"
  assumes W: "32 \<le> LENGTH('w)" and P: "page_size P" and os: "os_ok P reserve protect"
    and good: "good_blocks P (others @ bs @ [b])" and n: "unat P dvd unat amount"
    and room: "unat (block_offset b) + unat amount \<le> unat (block_size_of b)"
    and take: "take_pages protect amount (bs @ [b]) = (ret, bs')"
  shows "good_blocks P (others @ bs')" "all_used (others @ bs @ [b]) \<subseteq> all_used (others @ bs')"
    "ret \<noteq> 0 \<Longrightarrow> unat P dvd unat ret \<and> unat ret + unat amount < 2 ^ LENGTH('w) \<and> grant ret amount \<inter> all_used (others @ bs @ [b]) = {} \<and>
      grant ret amount \<subseteq> all_used (others @ bs') \<and> grant ret amount \<subseteq> extent b"
proof -
  let ?b = "b\<lparr>block_offset := block_offset b + amount\<rparr>"
  have b: "good_block P b" using good by (simp add: good_blocks_def)
  have "good_blocks P (others @ bs') \<and> all_used (others @ bs @ [b]) \<subseteq> all_used (others @ bs') \<and>
    (ret \<noteq> 0 \<longrightarrow> unat P dvd unat ret \<and> unat ret + unat amount < 2 ^ LENGTH('w) \<and> grant ret amount \<inter> all_used (others @ bs @ [b]) = {} \<and>
      grant ret amount \<subseteq> all_used (others @ bs') \<and> grant ret amount \<subseteq> extent b)"
  proof (cases "block_code b = 0")
    case True
    then show ?thesis using take good by (auto simp: take_pages_def)
  next
    case nonzero: False
    have small: "unat P dvd unat (block_offset b)" "unat (block_size_of b) \<le> 2 ^ (LENGTH('w) - 2) + 2 ^ 21" using b by (simp_all add: good_block_def)
    have "unat (block_offset b) + unat amount < 2 ^ LENGTH('w)" using room small(2) address_space [OF W] by linarith
    then have off: "unat (block_offset b + amount) = unat (block_offset b) + unat amount" by (rule unat_add_lem [THEN iffD1])
    have gb: "good_block P ?b" using b n room by (simp add: good_block_def off)
    have ap: "apart c ?b = apart c b" for c by (simp add: apart_def extent_def)
    have bs': "bs' = bs @ [?b]" "ret \<noteq> 0 \<Longrightarrow> ret = block_code b + block_offset b \<and> unat P dvd unat ret"
      using take nonzero os_protect [OF os] by (auto simp: take_pages_def Let_def split: if_splits)
    have good': "good_blocks P (others @ bs')" using good gb by (auto simp: bs'(1) good_blocks_def sorted_wrt_append ap)
    show ?thesis
    proof (cases "failed (block_code b)")
      case True
      then have "block_code b = - 1" using nonzero by (simp add: failed_def)
      then have "ret = 0" using bs'(2) failed_unaligned [OF W P small(1)] by metis
      moreover have "all_used (others @ bs @ [b]) = all_used (others @ bs')" using True by (simp add: all_used_def bs'(1) used_def)
      ultimately show ?thesis using good' by simp
    next
      case False
    have g: "unat P dvd unat (block_code b)" "unat P dvd unat (block_offset b)" "unat (block_code b) + unat (block_size_of b) < 2 ^ LENGTH('w)"
      using b False small by (simp_all add: good_block_def)
    have "unat (block_code b) + unat (block_offset b) < 2 ^ LENGTH('w)" using room g(3) by linarith
    then have adr: "unat (block_code b + block_offset b) = unat (block_code b) + unat (block_offset b)" by (rule unat_add_lem [THEN iffD1])
    have u: "used ?b = used b \<union> {unat (block_code b) + unat (block_offset b)..<unat (block_code b) + unat (block_offset b) + unat amount}"
      using False by (auto simp: used_def off)
    have "grant ret amount \<inter> used c = {}" if "ret \<noteq> 0" "c \<in> set (others @ bs)" for c
    proof -
      have "apart c b" "good_block P c" using good that(2) by (auto simp: good_blocks_def sorted_wrt_append)
      moreover have "grant ret amount \<subseteq> extent b" using room by (auto simp: grant_def bs'(2) [OF that(1), THEN conjunct1] adr extent_def)
      ultimately show ?thesis using used_extent [of P c] False by (auto simp: apart_def used_def split: if_splits)
    qed
    moreover have "grant ret amount \<inter> used b = {}" if "ret \<noteq> 0" using False by (auto simp: grant_def bs'(2) [OF that, THEN conjunct1] adr used_def)
    ultimately have "grant ret amount \<inter> all_used (others @ bs @ [b]) = {}" if "ret \<noteq> 0" using that by (auto simp: all_used_def)
    moreover have "grant ret amount \<subseteq> used ?b" "grant ret amount \<subseteq> extent b" if "ret \<noteq> 0"
      using room by (auto simp: u grant_def bs'(2) [OF that, THEN conjunct1] adr extent_def)
    moreover have "all_used (others @ bs @ [b]) \<subseteq> all_used (others @ bs')" by (auto simp: all_used_def bs'(1) u)
    moreover have "used ?b \<subseteq> all_used (others @ bs')" by (auto simp: all_used_def bs'(1))
    moreover have "unat P dvd unat ret" "unat ret + unat amount < 2 ^ LENGTH('w)" if "ret \<noteq> 0"
      using g room by (simp_all add: bs'(2) [OF that, THEN conjunct1] adr)
    ultimately show ?thesis using good' by blast
    qed
  qed
  then show "good_blocks P (others @ bs')" "all_used (others @ bs @ [b]) \<subseteq> all_used (others @ bs')"
    "ret \<noteq> 0 \<Longrightarrow> unat P dvd unat ret \<and> unat ret + unat amount < 2 ^ LENGTH('w) \<and> grant ret amount \<inter> all_used (others @ bs @ [b]) = {} \<and>
      grant ret amount \<subseteq> all_used (others @ bs') \<and> grant ret amount \<subseteq> extent b" by blast+
qed

section \<open>Allocation\<close>

lemma block_size_unat:
  assumes "32 \<le> LENGTH('w::len)"
  shows "unat (block_size :: 'w word) = (if huge_va TYPE('w) then 2 ^ 30 else 2 ^ 21)"
proof -
  have "(2 :: nat) ^ 30 < 2 ^ LENGTH('w)" "(2 :: nat) ^ 21 < 2 ^ LENGTH('w)" using assms by (intro power_strict_increasing; simp)+
  then have "unat (word_of_nat (2 ^ 30) :: 'w word) = 2 ^ 30" "unat (word_of_nat (2 ^ 21) :: 'w word) = 2 ^ 21"
    unfolding unat_of_nat by (simp_all only: mod_less)
  then show ?thesis by (simp add: block_size_def)
qed

lemma allocate_fresh:
  fixes P :: "'w::len word"
  assumes W: "32 \<le> LENGTH('w)" and P: "page_size P" and os: "os_ok P reserve protect" and good: "good_blocks P (others @ bs)" and n: "unat amount \<le> 2 ^ (LENGTH('w) - 2)"
    and alloc: "allocate P reserve protect others bs amount = Some (ret, bs')"
  shows "good_blocks P (others @ bs')" "all_used (others @ bs) \<subseteq> all_used (others @ bs')"
    "ret \<noteq> 0 \<Longrightarrow> unat P dvd unat ret \<and> unat ret + unat (align_page P amount) < 2 ^ LENGTH('w) \<and>
      grant ret (align_page P amount) \<inter> all_used (others @ bs) = {} \<and> grant ret (align_page P amount) \<subseteq> all_used (others @ bs')"
proof -
  let ?n = "align_page P amount" and ?new = "\<lambda>present. reserve_block reserve present (max (align_page P amount) block_size)"
  have n': "unat amount \<le> 2 ^ (LENGTH('w) - 1)" using n address_space [OF W] by simp
  note np = align_page_unat [OF W P n']
  note space = address_space [OF W]
  have "unat (block_size :: 'w word) \<le> 2 ^ 30" using block_size_unat [OF W] by simp
  then have mx: "unat (max ?n block_size) \<le> 2 ^ (LENGTH('w) - 2) + 2 ^ 21" using np(4) n using space by (auto simp: max_def)
  have fits: "unat ?n \<le> unat (block_size_of (?new present))" for present
    by (simp add: reserve_block_def max_def word_le_nat_alt)
  define bs1 where "bs1 = (if bs = [] then [?new others] else bs)"
  have b1: "good_blocks P (others @ bs1)" "all_used (others @ bs1) = all_used (others @ bs)" "bs1 \<noteq> []"
    using reserve_good [OF os _ mx, of others] good by (auto simp: bs1_def)
  then obtain xs b where xs: "bs1 = xs @ [b]" by (meson rev_exhaust)
  have gb: "good_block P b" using b1(1) by (simp add: xs good_blocks_def)
  have al: "allocate P reserve protect others bs amount = (if block_code b = 0 then Some (0, xs @ [b])
      else let block = b\<lparr>block_offset := align_page P (block_offset b)\<rparr>
        in if block_offset block + ?n > block_size_of block then
             (if huge_va TYPE('w) then None else Some (take_pages protect ?n ((xs @ [block]) @ [?new (others @ xs @ [block])])))
           else Some (take_pages protect ?n (xs @ [block])))"
    unfolding allocate_def Let_def bs1_def [symmetric] by (simp add: xs)
  have "good_blocks P (others @ bs') \<and> all_used (others @ bs) \<subseteq> all_used (others @ bs') \<and>
    (ret \<noteq> 0 \<longrightarrow> unat P dvd unat ret \<and> unat ret + unat ?n < 2 ^ LENGTH('w) \<and>
      grant ret ?n \<inter> all_used (others @ bs) = {} \<and> grant ret ?n \<subseteq> all_used (others @ bs'))"
  proof (cases "block_code b = 0")
    case True
    then show ?thesis using alloc b1 by (auto simp: al xs)
  next
    case False
    then have g: "unat P dvd unat (block_offset b)" "unat (block_offset b) \<le> unat (block_size_of b)" "unat (block_size_of b) \<le> 2 ^ (LENGTH('w) - 2) + 2 ^ 21"
      using gb by (simp_all add: good_block_def)
    have b: "b\<lparr>block_offset := align_page P (block_offset b)\<rparr> = b"
      using align_page_aligned [OF W P _ g(1)] g(2,3) space by simp
    have sum: "unat (block_offset b + ?n) = unat (block_offset b) + unat ?n"
      using g(2,3) np(4) n space by (intro unat_add_lem [THEN iffD1]) linarith
    show ?thesis
    proof (cases "block_offset b + ?n > block_size_of b")
      case full: True
      let ?b = "?new (others @ xs @ [b])"
      have take: "take_pages protect ?n ((xs @ [b]) @ [?b]) = (ret, bs')"
        using alloc False full by (auto simp: al b Let_def split: if_splits)
      have "good_blocks P (others @ (xs @ [b]) @ [?b])" "all_used (others @ (xs @ [b]) @ [?b]) = all_used (others @ bs)"
        using reserve_good [OF os _ mx, of "others @ xs @ [b]"] b1 by (simp_all add: xs)
      moreover have "unat (block_offset ?b) + unat ?n \<le> unat (block_size_of ?b)" using fits by (simp add: reserve_block_def)
      ultimately show ?thesis using take_pages_fresh [OF W P os _ np(2) _ take, of others] by simp
    next
      case room: False
      have take: "take_pages protect ?n (xs @ [b]) = (ret, bs')" using alloc False room by (simp add: al b Let_def)
      have "unat (block_offset b) + unat ?n \<le> unat (block_size_of b)" using room sum by (simp add: word_le_nat_alt not_less)
      then show ?thesis using take_pages_fresh [OF W P os _ np(2) _ take, of others] b1 by (simp add: xs)
    qed
  qed
  then show "good_blocks P (others @ bs')" "all_used (others @ bs) \<subseteq> all_used (others @ bs')"
    "ret \<noteq> 0 \<Longrightarrow> unat P dvd unat ret \<and> unat ret + unat ?n < 2 ^ LENGTH('w) \<and>
      grant ret ?n \<inter> all_used (others @ bs) = {} \<and> grant ret ?n \<subseteq> all_used (others @ bs')" by blast+
qed

section \<open>Sequences of requests\<close>

definition no_blocks :: "'a Allocator" where
  "no_blocks = \<lparr>code_blocks = [], data_blocks = []\<rparr>"

fun allocate_all :: "'w::len word \<Rightarrow> 'w reserve \<Rightarrow> 'w protect \<Rightarrow> (bool \<times> 'w word) list \<Rightarrow> 'w word Allocator \<Rightarrow>
    ((bool \<times> 'w word \<times> 'w word) list \<times> 'w word Allocator) option" where
  "allocate_all P reserve protect [] a = Some ([], a)"
| "allocate_all P reserve protect ((code, amount) # requests) a =
     (case (if code then allocate_code else allocate_data) P reserve protect amount a of None \<Rightarrow> None
      | Some (ret, a) \<Rightarrow> map_option (map_prod ((#) (code, ret, align_page P amount)) id) (allocate_all P reserve protect requests a))"

definition placed :: "'w::len word \<Rightarrow> bool \<times> 'w word \<times> 'w word \<Rightarrow> bool" where
  "placed P = (\<lambda>(code, ret, n). ret \<noteq> 0 \<longrightarrow> unat P dvd unat ret \<and> unat ret + unat n < 2 ^ LENGTH('w))"

definition separate :: "bool \<times> 'w::len word \<times> 'w word \<Rightarrow> bool \<times> 'w word \<times> 'w word \<Rightarrow> bool" where
  "separate = (\<lambda>(code, ret, n) (code', ret', n'). ret \<noteq> 0 \<longrightarrow> ret' \<noteq> 0 \<longrightarrow> {unat ret..<unat ret + unat n} \<inter> {unat ret'..<unat ret' + unat n'} = {})"

lemma all_used_swap: "all_used (xs @ ys) = all_used (ys @ xs)"
  by (auto simp: all_used_def)

lemma allocate_one:
  fixes P :: "'w::len word"
  assumes W: "32 \<le> LENGTH('w)" and P: "page_size P" and os: "os_ok P reserve protect" and good: "good_blocks P (data_blocks a @ code_blocks a)" and n: "unat amount \<le> 2 ^ (LENGTH('w) - 2)"
    and alloc: "(if code then allocate_code else allocate_data) P reserve protect amount a = Some (ret, a')"
  shows "good_blocks P (data_blocks a' @ code_blocks a')" "all_used (data_blocks a @ code_blocks a) \<subseteq> all_used (data_blocks a' @ code_blocks a')"
    "ret \<noteq> 0 \<Longrightarrow> unat P dvd unat ret \<and> unat ret + unat (align_page P amount) < 2 ^ LENGTH('w) \<and>
      grant ret (align_page P amount) \<inter> all_used (data_blocks a @ code_blocks a) = {} \<and>
      grant ret (align_page P amount) \<subseteq> all_used (data_blocks a' @ code_blocks a')"
proof -
  have "good_blocks P (data_blocks a' @ code_blocks a') \<and> all_used (data_blocks a @ code_blocks a) \<subseteq> all_used (data_blocks a' @ code_blocks a') \<and>
    (ret \<noteq> 0 \<longrightarrow> unat P dvd unat ret \<and> unat ret + unat (align_page P amount) < 2 ^ LENGTH('w) \<and>
      grant ret (align_page P amount) \<inter> all_used (data_blocks a @ code_blocks a) = {} \<and>
      grant ret (align_page P amount) \<subseteq> all_used (data_blocks a' @ code_blocks a'))"
  proof (cases code)
    case True
    then obtain bs where bs: "allocate P reserve protect (data_blocks a) (code_blocks a) amount = Some (ret, bs)" "a' = a\<lparr>code_blocks := bs\<rparr>"
      using alloc by (auto simp: allocate_code_def)
    show ?thesis using allocate_fresh [OF W P os good n bs(1)] by (simp add: bs(2))
  next
    case False
    then obtain bs where bs: "allocate P reserve protect (code_blocks a) (data_blocks a) amount = Some (ret, bs)" "a' = a\<lparr>data_blocks := bs\<rparr>"
      using alloc by (auto simp: allocate_data_def)
    show ?thesis using allocate_fresh [OF W P os good [unfolded good_blocks_swap [of P "data_blocks a"]] n bs(1)]
      by (simp add: bs(2) good_blocks_swap [of P _ "code_blocks a"] all_used_swap [of _ "code_blocks a"])
  qed
  then show "good_blocks P (data_blocks a' @ code_blocks a')" "all_used (data_blocks a @ code_blocks a) \<subseteq> all_used (data_blocks a' @ code_blocks a')"
    "ret \<noteq> 0 \<Longrightarrow> unat P dvd unat ret \<and> unat ret + unat (align_page P amount) < 2 ^ LENGTH('w) \<and>
      grant ret (align_page P amount) \<inter> all_used (data_blocks a @ code_blocks a) = {} \<and>
      grant ret (align_page P amount) \<subseteq> all_used (data_blocks a' @ code_blocks a')" by blast+
qed

lemma allocate_all_fresh:
  fixes P :: "'w::len word"
  assumes W: "32 \<le> LENGTH('w)" and P: "page_size P" and os: "os_ok P reserve protect"
  shows "allocate_all P reserve protect requests a = Some (grants, a') \<Longrightarrow> good_blocks P (data_blocks a @ code_blocks a) \<Longrightarrow>
    \<forall>(code, amount) \<in> set requests. unat amount \<le> 2 ^ (LENGTH('w) - 2) \<Longrightarrow> list_all (placed P) grants \<and> sorted_wrt separate grants \<and>
      (\<forall>(code, ret, n) \<in> set grants. ret \<noteq> 0 \<longrightarrow> grant ret n \<inter> all_used (data_blocks a @ code_blocks a) = {})"
proof (induction requests arbitrary: a grants)
  case (Cons r requests)
  obtain code amount where r: "r = (code, amount)" by (cases r)
  obtain ret a1 gs where one: "(if code then allocate_code else allocate_data) P reserve protect amount a = Some (ret, a1)"
    and rest: "allocate_all P reserve protect requests a1 = Some (gs, a')" and grants: "grants = (code, ret, align_page P amount) # gs"
    using Cons.prems(1) by (auto simp: r split: option.splits)
  have n: "unat amount \<le> 2 ^ (LENGTH('w) - 2)" "\<forall>(code, amount) \<in> set requests. unat amount \<le> 2 ^ (LENGTH('w) - 2)" using Cons.prems(3) by (auto simp: r)
  note step = allocate_one [OF W P os Cons.prems(2) n(1) one]
  have IH: "list_all (placed P) gs \<and> sorted_wrt separate gs \<and>
      (\<forall>(code, ret, n) \<in> set gs. ret \<noteq> 0 \<longrightarrow> grant ret n \<inter> all_used (data_blocks a1 @ code_blocks a1) = {})"
    by (rule Cons.IH [OF rest step(1) n(2)])
  have later: "grant r' n' \<inter> all_used (data_blocks a1 @ code_blocks a1) = {}" if "(c', r', n') \<in> set gs" "r' \<noteq> 0" for c' r' n'
    using IH that by blast
  have "separate (code, ret, align_page P amount) g" if g: "g \<in> set gs" for g
  proof -
    obtain c' r' n' where e: "g = (c', r', n')" by (cases g)
    have "grant ret (align_page P amount) \<inter> grant r' n' = {}" if "ret \<noteq> 0" "r' \<noteq> 0"
      using later [OF _ that(2)] g e step(3) that(1) by blast
    then show ?thesis by (simp add: e separate_def grant_def)
  qed
  moreover have "placed P (code, ret, align_page P amount)" using step(3) by (simp add: placed_def)
  moreover have "\<forall>(code, ret, n) \<in> set gs. ret \<noteq> 0 \<longrightarrow> grant ret n \<inter> all_used (data_blocks a @ code_blocks a) = {}"
    using later step(2) by blast
  ultimately show ?case using IH step(3) by (simp add: grants)
qed simp

text \<open>On a host with 64 bit addresses there is one block of code, of 1 GiB if no request is larger.\<close>

definition one_block :: "u64 Block list \<Rightarrow> bool" where
  "one_block bs \<longleftrightarrow> bs = [] \<or> (\<exists>b. bs = [b] \<and> block_size_of b = block_size)"

lemma host_kinds: "huge_va TYPE(64)" "\<not> huge_va TYPE(32)"
  by (simp_all add: huge_va_def unsigned_minus_1_eq_mask mask_eq_exp_minus_1)

lemma block_size_value: "block_size = (0x40000000 :: u64)"
  by (simp add: block_size_def host_kinds)

lemma len64: "LENGTH(64) = 64" "64 - 2 = (62 :: nat)" "64 - 1 = (63 :: nat)"
  by simp_all

lemma take_pages_block:
  "take_pages protect amount [b] = (ret, bs') \<Longrightarrow> \<exists>b'. bs' = [b'] \<and> block_code b' = block_code b \<and> block_size_of b' = block_size_of b"
  by (auto simp: take_pages_def Let_def split: if_splits)

lemma allocate_reach:
  fixes P :: "64 word"
  assumes P: "page_size P" and os: "os_ok P reserve protect" and good: "good_blocks P (others @ bs)" and n: "unat amount \<le> 2 ^ 30"
    and one: "one_block bs" and alloc: "allocate P reserve protect others bs amount = Some (ret, bs')"
  shows "\<exists>b. bs' = [b] \<and> block_size_of b = block_size \<and> (bs \<noteq> [] \<longrightarrow> block_code b = block_code (hd bs)) \<and>
    (ret \<noteq> 0 \<longrightarrow> grant ret (align_page P amount) \<subseteq> extent b)"
proof -
  let ?n = "align_page P amount" and ?new = "reserve_block reserve others (max (align_page P amount) block_size)"
  have W: "32 \<le> LENGTH(64)" by simp
  have n2: "unat amount \<le> 2 ^ 62" "unat amount \<le> 2 ^ 63" using n by simp_all
  obtain k where k: "unat P = 2 ^ k" "k \<le> 21" using page_unat [OF W P] by metis
  have "unat ?n \<le> 2 ^ 30"
  proof -
    have "(2 :: nat) ^ 30 = 2 ^ (30 - k) * 2 ^ k" using k(2) by (simp add: power_add [symmetric])
    moreover have "(unat amount + 2 ^ k - 1) div 2 ^ k \<le> (2 ^ (30 - k) * 2 ^ k + (2 ^ k - 1)) div 2 ^ k"
      using n calculation by (intro div_le_mono) simp
    moreover have "(2 ^ (30 - k) * 2 ^ k + (2 ^ k - 1)) div 2 ^ k = (2 :: nat) ^ (30 - k)" by (rule div_last) simp
    ultimately show ?thesis unfolding align_page_unat(1) [OF W P, unfolded len64, OF n2(2)] k(1) by (simp only: mult_le_mono1)
  qed
  then have new: "block_size_of ?new = block_size" by (simp add: reserve_block_def block_size_value max_def word_le_nat_alt)
  define b where "b = (if bs = [] then ?new else hd bs)"
  have b: "block_size_of b = block_size" "(if bs = [] then [?new] else bs) = [b]"
    using one new by (auto simp: b_def one_block_def)
  have take: "bs' = [b] \<and> ret = 0 \<or> (\<exists>b'. take_pages protect ?n [b'] = (ret, bs') \<and> block_code b' = block_code b \<and> block_size_of b' = block_size_of b)"
    using alloc unfolding allocate_def b(2) Let_def by (auto simp: host_kinds split: if_splits)
  then obtain b' where b': "bs' = [b']" "block_code b' = block_code b" "block_size_of b' = block_size" using take_pages_block b(1) by fastforce
  note fresh = allocate_fresh [OF W P os good, unfolded len64, OF n2(1) alloc]
  have "grant ret ?n \<subseteq> extent b'" if "ret \<noteq> 0"
  proof -
    have "grant ret ?n \<subseteq> used b'" using fresh(3) [OF that] by (auto simp: all_used_def b'(1))
    moreover have "good_block P b'" using fresh(1) by (simp add: good_blocks_def b'(1))
    ultimately show ?thesis using used_extent by blast
  qed
  then show ?thesis using b' by (auto simp: b_def)
qed

lemma allocate_all_reach:
  fixes P :: "64 word"
  assumes P: "page_size P" and os: "os_ok P reserve protect"
  shows "allocate_all P reserve protect requests a = Some (grants, a') \<Longrightarrow> good_blocks P (data_blocks a @ code_blocks a) \<Longrightarrow>
    \<forall>(code, amount) \<in> set requests. unat amount \<le> 2 ^ 30 \<Longrightarrow> one_block (code_blocks a) \<Longrightarrow>
      \<exists>base. (code_blocks a \<noteq> [] \<longrightarrow> base = unat (block_code (hd (code_blocks a)))) \<and>
        (\<forall>(code, ret, n) \<in> set grants. code \<and> ret \<noteq> 0 \<longrightarrow> grant ret n \<subseteq> {base..<base + 2 ^ 30})"
proof (induction requests arbitrary: a grants)
  case (Cons r requests)
  have W: "32 \<le> LENGTH(64)" by simp
  obtain code amount where r: "r = (code, amount)" by (cases r)
  obtain ret a1 gs where step: "(if code then allocate_code else allocate_data) P reserve protect amount a = Some (ret, a1)"
    and rest: "allocate_all P reserve protect requests a1 = Some (gs, a')" and grants: "grants = (code, ret, align_page P amount) # gs"
    using Cons.prems(1) by (auto simp: r split: option.splits)
  have n: "unat amount \<le> 2 ^ 30" "unat amount \<le> 2 ^ 62" "\<forall>(code, amount) \<in> set requests. unat amount \<le> 2 ^ 30" using Cons.prems(3) by (auto simp: r)
  note good = allocate_one(1) [OF W P os Cons.prems(2), unfolded len64, OF n(2) step]
  show ?case
  proof (cases code)
    case True
    then obtain bs where bs: "allocate P reserve protect (data_blocks a) (code_blocks a) amount = Some (ret, bs)" "a1 = a\<lparr>code_blocks := bs\<rparr>"
      using step by (auto simp: allocate_code_def)
    obtain b where b: "bs = [b]" "block_size_of b = block_size" "code_blocks a \<noteq> [] \<Longrightarrow> block_code b = block_code (hd (code_blocks a))"
      "ret \<noteq> 0 \<Longrightarrow> grant ret (align_page P amount) \<subseteq> extent b"
      using allocate_reach [OF P os Cons.prems(2) n(1) Cons.prems(4) bs(1)] by blast
    have "one_block (code_blocks a1)" by (simp add: bs(2) b(1,2) one_block_def)
    from Cons.IH [OF rest good n(3) this] have "\<forall>(code, ret, n) \<in> set gs. code \<and> ret \<noteq> 0 \<longrightarrow>
        grant ret n \<subseteq> {unat (block_code b)..<unat (block_code b) + 2 ^ 30}" by (simp add: bs(2) b(1))
    moreover have "extent b = {unat (block_code b)..<unat (block_code b) + 2 ^ 30}" by (simp add: extent_def b(2) block_size_value)
    ultimately show ?thesis using b(3,4) by (intro exI [of _ "unat (block_code b)"]) (simp add: grants)
  next
    case False
    then have "code_blocks a1 = code_blocks a" using step by (auto simp: allocate_data_def)
    then show ?thesis using Cons.IH [OF rest good n(3)] Cons.prems(4) False by (simp add: grants)
  qed
qed simp

section \<open>Properties\<close>

text \<open>C38: the allocator never hands out memory twice. For every sequence of requests for code and data, each for at most a quarter of the
  address space (1 GiB on a host of 32 bits, where the sums of the allocator wrap around at 2^32), on a host with 32 or more bits, and whether
  or not the system runs out of address space, the pages granted are page aligned, do not wrap around the address space, and no
  two grants overlap, be they code or data, from one block or from several.\<close>

theorem allocations_disjoint:
  fixes P :: "'w::len word"
  assumes "32 \<le> LENGTH('w)" and "page_size P" and "os_ok P reserve protect"
    and "\<forall>(code, amount) \<in> set requests. unat amount \<le> 2 ^ (LENGTH('w) - 2)"
    and "allocate_all P reserve protect requests no_blocks = Some (grants, a)"
  shows "list_all (placed P) grants \<and> sorted_wrt separate grants"
  using allocate_all_fresh [OF assms(1-3,5) _ assms(4)] by (simp add: good_blocks_def no_blocks_def)

text \<open>A system that reserves at most twice the size of a block, at two places, and then gives \<open>MAP_FAILED\<close>.\<close>

definition example_reserve :: "'w::len reserve" where
  "example_reserve m amount = (if amount > 2 * block_size then - 1 else if m = [] then 0x10000
     else if m = [(0x10000, block_size)] then 0x50000000 else - 1)"

definition example_protect :: "'w::len protect" where
  "example_protect access a amount \<longleftrightarrow> a AND 0xfff = 0 \<and> amount \<le> block_size"

lemma example_page: "page_size (0x1000 :: 'w::len word)"
  unfolding page_size_def by (rule exI [of _ 12]) simp

lemma example_aligned: "a AND 0xfff = 0 \<Longrightarrow> 0x1000 dvd unat a" for a :: "'w::len word"
proof -
  assume "a AND 0xfff = 0"
  then have "take_bit 12 (unat a) = 0" by (simp add: and_ones_take_bit flip: unsigned_take_bit_eq)
  then show ?thesis by (simp add: take_bit_eq_mod mod_eq_0_iff_dvd)
qed

lemma example_os: "os_ok 0x1000 example_reserve (example_protect :: 64 protect)" "os_ok 0x1000 example_reserve (example_protect :: 32 protect)"
proof -
  have "unat amount \<le> 0x80000000" if "\<not> amount > 0x80000000" for amount :: u64 using that by (simp add: word_le_nat_alt not_less)
  then show "os_ok 0x1000 example_reserve (example_protect :: 64 protect)"
    by (force simp: os_ok_def example_reserve_def example_protect_def failed_def block_size_def host_kinds dest: example_aligned)
  have "unat amount \<le> 0x400000" if "\<not> amount > 0x400000" for amount :: u32 using that by (simp add: word_le_nat_alt not_less)
  then show "os_ok 0x1000 example_reserve (example_protect :: 32 protect)"
    by (force simp: os_ok_def example_reserve_def example_protect_def failed_def block_size_def host_kinds dest: example_aligned)
qed

definition example_requests :: "(bool \<times> 'w::len word) list" where
  "example_requests = [(True, 5), (False, 0x1001), (True, 0x2000)]"

definition example_grants :: "(bool \<times> 'w::len word \<times> 'w word) list" where
  "example_grants = [(True, 0x10000, 0x1000), (False, 0x50000000, 0x2000), (True, 0x11000, 0x2000)]"

text \<open>On the smaller host the last request does not fit in the block any more, and no other block can be reserved.\<close>

definition small_requests :: "(bool \<times> u32) list" where
  "small_requests = [(True, 5), (False, 0x1001), (True, 0x200000)]"

definition small_grants :: "(bool \<times> u32 \<times> u32) list" where
  "small_grants = [(True, 0x10000, 0x1000), (False, 0x50000000, 0x2000), (True, 0, 0x200000)]"

lemma example_run:
  "map_option fst (allocate_all (0x1000 :: u64) example_reserve example_protect example_requests no_blocks) = Some example_grants"
  "map_option fst (allocate_all (0x1000 :: u32) example_reserve example_protect small_requests no_blocks) = Some small_grants"
  by code_simp+

theorem allocations_disjoint_witness:
  "list_all (placed 0x1000) (example_grants :: (bool \<times> u64 \<times> u64) list) \<and> sorted_wrt separate (example_grants :: (bool \<times> u64 \<times> u64) list) \<and>
   list_all (placed 0x1000) small_grants \<and> sorted_wrt separate small_grants"
proof -
  obtain a where a: "allocate_all (0x1000 :: u64) example_reserve example_protect example_requests no_blocks = Some (example_grants, a)"
    using example_run(1) by fastforce
  obtain b where b: "allocate_all (0x1000 :: u32) example_reserve example_protect small_requests no_blocks = Some (small_grants, b)"
    using example_run(2) by fastforce
  show ?thesis using allocations_disjoint [OF _ example_page example_os(1) _ a] allocations_disjoint [OF _ example_page example_os(2) _ b]
    by (simp add: example_requests_def small_requests_def)
qed

text \<open>A size for which the sum with the offset wraps around passes the check of the room that is left, on a host with 32 bits: the request is
  refused by the system, but the offset of the block is 0 again, and the first page is handed out a second time.\<close>

lemma wrapped_size_granted_twice:
  "map_option fst (allocate_all (0x1000 :: u32) example_reserve example_protect [(True, 0x1000), (True, 0xfffff000), (True, 0x1000)] no_blocks) =
    Some [(True, 0x10000, 0x1000), (True, 0, 0xfffff000), (True, 0x10000, 0x1000)]"
  by code_simp

text \<open>C39: generated code can jump to all generated code. On a host with 64 bit addresses, when no request is larger than 1 GiB, all code that is
  ever granted lies in one range of 1 GiB, which relative jumps of 32 bits span; if that range is full the program aborts.\<close>

theorem code_in_reach:
  fixes P :: u64
  assumes "page_size P" and "os_ok P reserve protect" and "\<forall>(code, amount) \<in> set requests. unat amount \<le> 2 ^ 30"
    and "allocate_all P reserve protect requests no_blocks = Some (grants, a)"
  shows "\<exists>base. \<forall>(code, ret, n) \<in> set grants. code \<and> ret \<noteq> 0 \<longrightarrow> {unat ret..<unat ret + unat n} \<subseteq> {base..<base + 2 ^ 30}"
  using allocate_all_reach [OF assms(1,2,4) _ assms(3)] by (simp add: good_blocks_def no_blocks_def one_block_def grant_def)

theorem code_in_reach_witness:
  "\<exists>base. \<forall>(code, ret, n) \<in> set (example_grants :: (bool \<times> u64 \<times> u64) list). code \<and> ret \<noteq> 0 \<longrightarrow>
    {unat ret..<unat ret + unat n} \<subseteq> {base..<base + 2 ^ 30}"
proof -
  obtain a where "allocate_all (0x1000 :: u64) example_reserve example_protect example_requests no_blocks = Some (example_grants, a)"
    using example_run(1) by fastforce
  from code_in_reach [OF example_page example_os(1) _ this] show ?thesis by (simp add: example_requests_def)
qed

text \<open>\<open>commit\<close> is meant to make code executable and data read only; it asks for neither, and always reports success.\<close>

lemma commit_protects_nothing: "commit protect code code_size data data_size = (True, [])"
  by (simp add: commit_def)

end
