(* ===== verification/Plugin.thy ===== *)
theory Plugin
  imports Jit_Blocks
begin

unbundle bit_operations_syntax

text \<open>
  The plugin that an emulator calls (\<open>parallel.cpp\<close>): \<open>InitiateRSP\<close> connects the registers of the emulator, \<open>DoRspCycles\<close> hands a task to the
  emulator's own graphics or runs the processor until it halts or raises an interrupt. The registers \<open>SP_STATUS_REG\<close>, \<open>DPC_STATUS_REG\<close> and
  \<open>MI_INTR_REG\<close> are the ones that coprocessor 0 points to. \<open>CPU::run\<close> and the callbacks of the emulator are arguments. The variant
  with \<open>PARALLEL_INTEGRATION_EX\<close>, which yields on semaphores, is not modelled, nor is the reset of \<open>semaphore_count\<close>, which only disabled code reads.
\<close>

section \<open>State and operations\<close>

record 'f plugin =
  rsp_cpu :: "'f jit_cpu"
  rsp_host :: cp0_host
  SP_PC_REG :: u32

definition on_state :: "(CPUState \<Rightarrow> CPUState) \<Rightarrow> 'f plugin \<Rightarrow> 'f plugin" where
  "on_state f p = p\<lparr>rsp_cpu := (rsp_cpu p)\<lparr>cpu_state := f (cpu_state (rsp_cpu p))\<rparr>\<rparr>"

definition SP_STATUS_REG :: "'f plugin \<Rightarrow> u32" where
  "SP_STATUS_REG p = cr (cp0 (cpu_state (rsp_cpu p))) CP0_REGISTER_SP_STATUS"

definition MI_INTR_REG :: "'f plugin \<Rightarrow> u32" where
  "MI_INTR_REG p = irq (cp0 (cpu_state (rsp_cpu p)))"

definition set_status :: "u32 \<Rightarrow> 'f plugin \<Rightarrow> 'f plugin" where
  "set_status v = on_state (set_cr CP0_REGISTER_SP_STATUS v)"

text \<open>An emulator that gives one memory for both DMEM and IMEM is not connected.\<close>

definition InitiateRSP :: "bool \<Rightarrow> bool \<Rightarrow> bool \<Rightarrow> CPUState \<Rightarrow> 'f plugin option" where
  "InitiateRSP integration hle same_memory registers =
     (if same_memory then None
      else Some \<lparr>rsp_cpu = \<lparr>cpu_state = set_cr CP0_REGISTER_SP_STATUS SP_STATUS_HALT registers, blocks = \<lambda>_. None, cached_imem = \<lambda>_. 0, cached_blocks = \<lambda>_ _. None\<rparr>,
        rsp_host = \<lparr>parallel_integration = integration, graphics_hle = hle, SP_STATUS_TIMEOUT = 0x7fff, MFC0_count = \<lambda>_. 0\<rparr>,
        SP_PC_REG = 0x04001000 AND 0x00000fff\<rparr>)"

text \<open>A task for the emulator's graphics: its type is in DMEM.\<close>

definition hle_task :: "'f plugin \<Rightarrow> bool" where
  "hle_task p \<longleftrightarrow> host_u32 (dmem (cpu_state (rsp_cpu p))) (0xfc0 div 4) = 1 \<and> graphics_hle (rsp_host p) \<and>
     host_u32 (dmem (cpu_state (rsp_cpu p))) (0xff0 div 4) \<noteq> 0"

definition run_hle :: "('f plugin \<Rightarrow> 'f plugin) option \<Rightarrow> ('f plugin \<Rightarrow> 'f plugin) \<Rightarrow> 'f plugin \<Rightarrow> 'f plugin" where
  "run_hle ProcessDlist CheckInterrupts p =
     (let p = (case ProcessDlist of None \<Rightarrow> p | Some f \<Rightarrow> f p);
          p = set_status (SP_STATUS_REG p OR 0x0203) p;
          p = (if SP_STATUS_REG p AND SP_STATUS_INTR_BREAK \<noteq> 0
               then CheckInterrupts (on_state (\<lambda>s. s\<lparr>cp0 := (cp0 s)\<lparr>irq := irq (cp0 s) OR 1\<rparr>\<rparr>) p) else p)
      in on_state (\<lambda>s. set_cr CP0_REGISTER_CMD_STATUS (cr (cp0 s) CP0_REGISTER_CMD_STATUS AND NOT 0x0002) s) p)"

definition prepare :: "'f plugin \<Rightarrow> 'f plugin" where
  "prepare p =
     (let p = p\<lparr>rsp_cpu := invalidate_imem (rsp_cpu p)\<rparr>;
          p = on_state (\<lambda>s. s\<lparr>pc := SP_PC_REG p AND 0xfff\<rparr>) p
      in p\<lparr>rsp_host := (rsp_host p)\<lparr>MFC0_count := \<lambda>_. 0\<rparr>\<rparr>)"

text \<open>\<open>while (!(*SP_STATUS_REG & SP_STATUS_HALT))\<close>: run, and leave on an interrupt. The loop may not end.\<close>

partial_function (option) run_until :: "('f plugin \<Rightarrow> ('f plugin \<times> ReturnMode) option) \<Rightarrow> 'f plugin \<Rightarrow> 'f plugin option" where
  "run_until cpu_run p =
     (if SP_STATUS_REG p AND SP_STATUS_HALT \<noteq> 0 then Some p
      else case cpu_run p of None \<Rightarrow> None
        | Some (p, mode) \<Rightarrow> if mode = MODE_CHECK_FLAGS \<and> MI_INTR_REG p AND 1 \<noteq> 0 then Some p else run_until cpu_run p)"

definition DoRspCycles :: "('f plugin \<Rightarrow> ('f plugin \<times> ReturnMode) option) \<Rightarrow> ('f plugin \<Rightarrow> 'f plugin) option \<Rightarrow> ('f plugin \<Rightarrow> 'f plugin) \<Rightarrow>
    u32 \<Rightarrow> 'f plugin \<Rightarrow> (u32 \<times> 'f plugin) option" where
  "DoRspCycles cpu_run ProcessDlist CheckInterrupts cycles p =
     (if hle_task p then Some (cycles, run_hle ProcessDlist CheckInterrupts p)
      else if SP_STATUS_REG p AND SP_STATUS_HALT \<noteq> 0 then Some (0, p)
      else case run_until cpu_run (prepare p) of None \<Rightarrow> None
        | Some p \<Rightarrow>
            let p = p\<lparr>SP_PC_REG := 0x04001000 OR (pc (cpu_state (rsp_cpu p)) AND 0xffc)\<rparr>;
                restart = (\<lambda>p. Some (cycles, set_status (SP_STATUS_REG p AND NOT SP_STATUS_HALT) p))
            in if SP_STATUS_REG p AND SP_STATUS_BROKE \<noteq> 0 then Some (cycles, p)
               else if MI_INTR_REG p AND 1 \<noteq> 0 then restart (CheckInterrupts p)
               else if SP_STATUS_REG p AND SP_STATUS_HALT \<noteq> 0 then Some (cycles, p)
               else restart (p\<lparr>rsp_host := (rsp_host p)\<lparr>SP_STATUS_TIMEOUT := 16\<rparr>\<rparr>))"

section \<open>How a run ends\<close>

lemma run_until_ends: "run_until cpu_run p = Some q \<Longrightarrow> SP_STATUS_REG q AND SP_STATUS_HALT \<noteq> 0 \<or> MI_INTR_REG q AND 1 \<noteq> 0"
proof (induction cpu_run p q rule: run_until.raw_induct [rotated 1, consumes 1, case_names step])
  case (step loop cpu_run p q)
  show ?case
  proof (cases "SP_STATUS_REG p AND SP_STATUS_HALT \<noteq> 0")
    case True
    then show ?thesis using step(2) by simp
  next
    case False
    then obtain p' mode where r: "cpu_run p = Some (p', mode)" using step(2) by (auto split: option.splits)
    show ?thesis using step(1) [of cpu_run p' q] step(2) False r by (auto split: if_splits)
  qed
qed

text \<open>A quantity that every run of the processor keeps is kept by the loop.\<close>

lemma run_until_keeps:
  assumes "\<And>p p' mode. cpu_run p = Some (p', mode) \<Longrightarrow> f p' = f p"
  shows "run_until cpu_run p = Some q \<Longrightarrow> f q = f p"
proof -
  have "(\<And>p p' mode. cpu_run p = Some (p', mode) \<Longrightarrow> f p' = f p) \<Longrightarrow> f q = f p" if "run_until cpu_run p = Some q" for cpu_run p q
    using that
  proof (induction cpu_run p q rule: run_until.raw_induct [rotated 1, consumes 1, case_names step])
    case (step loop cpu_run p q)
    show ?case
    proof (cases "SP_STATUS_REG p AND SP_STATUS_HALT \<noteq> 0")
      case True
      then show ?thesis using step(2) by simp
    next
      case False
      then obtain p' mode where r: "cpu_run p = Some (p', mode)" using step(2) by (auto split: option.splits)
      show ?thesis using step(1) [of cpu_run p' q] step(2,3) False r by (auto split: if_splits)
    qed
  qed
  then show "run_until cpu_run p = Some q \<Longrightarrow> f q = f p" using assms by blast
qed

section \<open>Properties\<close>

text \<open>C40: one call of the emulator. If the call does not go to the emulator's graphics and the processor is not halted, and the processor runs
  until \<open>q\<close>, the call reports all its cycles and publishes the program counter in the address space of IMEM. An interrupt, while
  the break flag is clear, is told to the emulator, and the halt is cleared so that the processor goes on with the next call. In all other
  cases the status is that of \<open>q\<close>: halted, or not halted with both an interrupt pending and the break flag set (left set by an earlier task),
  which the emulator is not told of. The time-out of status polls stays the same, although a comment at the end of the function means to
  shorten it: that assignment is reached with neither halt nor interrupt, which the loop never leaves with.\<close>

theorem DoRspCycles_correct:
  fixes p q :: "'f plugin"
  assumes "\<not> hle_task p" and "SP_STATUS_REG p AND SP_STATUS_HALT = 0" and "run_until cpu_run (prepare p) = Some q"
    and "\<And>p p' mode. cpu_run p = Some (p', mode) \<Longrightarrow> SP_STATUS_TIMEOUT (rsp_host p') = SP_STATUS_TIMEOUT (rsp_host p)"
    and "\<And>p. SP_STATUS_TIMEOUT (rsp_host (CheckInterrupts p)) = SP_STATUS_TIMEOUT (rsp_host p)"
  defines "q' \<equiv> q\<lparr>SP_PC_REG := 0x04001000 OR (pc (cpu_state (rsp_cpu q)) AND 0xffc)\<rparr>"
  shows "\<exists>p'. DoRspCycles cpu_run ProcessDlist CheckInterrupts cycles p = Some (cycles, p') \<and>
    SP_STATUS_TIMEOUT (rsp_host p') = SP_STATUS_TIMEOUT (rsp_host p) \<and>
    (if SP_STATUS_REG q AND SP_STATUS_BROKE \<noteq> 0 \<or> MI_INTR_REG q AND 1 = 0
     then p' = q' \<and> (SP_STATUS_REG p' AND SP_STATUS_HALT \<noteq> 0 \<or> SP_STATUS_REG p' AND SP_STATUS_BROKE \<noteq> 0 \<and> MI_INTR_REG p' AND 1 \<noteq> 0)
     else p' = set_status (SP_STATUS_REG (CheckInterrupts q') AND NOT SP_STATUS_HALT) (CheckInterrupts q') \<and> SP_STATUS_REG p' AND SP_STATUS_HALT = 0)"
proof -
  note ends = run_until_ends [OF assms(3)]
  have kept: "SP_STATUS_TIMEOUT (rsp_host q) = SP_STATUS_TIMEOUT (rsp_host p)"
    using run_until_keeps [of cpu_run "\<lambda>p. SP_STATUS_TIMEOUT (rsp_host p)", OF assms(4) assms(3)] by (simp add: prepare_def on_state_def Let_def)
  have same: "SP_STATUS_REG q' = SP_STATUS_REG q" "MI_INTR_REG q' = MI_INTR_REG q" "rsp_host q' = rsp_host q"
    by (simp_all add: q'_def SP_STATUS_REG_def MI_INTR_REG_def)
  have run: "DoRspCycles cpu_run ProcessDlist CheckInterrupts cycles p =
      (if SP_STATUS_REG q AND SP_STATUS_BROKE \<noteq> 0 \<or> MI_INTR_REG q AND 1 = 0 then Some (cycles, q')
       else Some (cycles, set_status (SP_STATUS_REG (CheckInterrupts q') AND NOT SP_STATUS_HALT) (CheckInterrupts q')))"
    using ends assms(1,2) unfolding DoRspCycles_def assms(3) by (simp add: q'_def [symmetric] same Let_def)
  show ?thesis
  proof (cases "SP_STATUS_REG q AND SP_STATUS_BROKE \<noteq> 0 \<or> MI_INTR_REG q AND 1 = 0")
    case True
    then have "SP_STATUS_REG q AND SP_STATUS_HALT \<noteq> 0 \<or> SP_STATUS_REG q AND SP_STATUS_BROKE \<noteq> 0 \<and> MI_INTR_REG q AND 1 \<noteq> 0" using ends by blast
    then show ?thesis using True kept by (simp add: run same)
  next
    case False
    have "SP_STATUS_REG (set_status v r) = v" "rsp_host (set_status v r) = rsp_host r" for v and r :: "'f plugin"
      by (simp_all add: set_status_def on_state_def SP_STATUS_REG_def)
    then show ?thesis using False kept assms(5) by (simp add: run same and.assoc)
  qed
qed

text \<open>A processor whose only run ends in a break.\<close>

definition break_run :: "unit plugin \<Rightarrow> (unit plugin \<times> ReturnMode) option" where
  "break_run p = Some (p\<lparr>rsp_cpu := on_break (rsp_cpu p)\<rparr>, MODE_BREAK)"

definition break_plugin :: "unit plugin" where
  "break_plugin = set_status 0 (the (InitiateRSP True False False reset_state))"

lemma invalidate_imem_cp0: "cp0 (cpu_state (invalidate_imem c)) = cp0 (cpu_state c)"
  unfolding invalidate_imem_def by (rule fold_keeps [where P = "\<lambda>c. cp0 (cpu_state c)"]) simp

lemma break_status: "SP_STATUS_REG (prepare break_plugin) = 0" "SP_STATUS_REG break_plugin = 0"
  by (simp_all add: SP_STATUS_REG_def prepare_def break_plugin_def InitiateRSP_def set_status_def on_state_def Let_def invalidate_imem_cp0)

lemma broken_status: "SP_STATUS_REG ((prepare break_plugin)\<lparr>rsp_cpu := on_break (rsp_cpu (prepare break_plugin))\<rparr>) = 3"
  using break_status(1) by (simp add: SP_STATUS_REG_def on_break_def Let_def SP_STATUS_BROKE_def SP_STATUS_HALT_def)

lemma break_until: "run_until break_run (prepare break_plugin) = Some ((prepare break_plugin)\<lparr>rsp_cpu := on_break (rsp_cpu (prepare break_plugin))\<rparr>)"
  by (subst run_until.simps, subst run_until.simps) (simp add: break_status break_run_def broken_status SP_STATUS_HALT_def)

theorem DoRspCycles_correct_witness:
  "\<exists>p'. DoRspCycles break_run None id 100 break_plugin = Some (100, p') \<and> SP_STATUS_TIMEOUT (rsp_host p') = 0x7fff \<and> SP_STATUS_REG p' = 3"
proof -
  have "\<not> hle_task break_plugin" by (simp add: hle_task_def break_plugin_def InitiateRSP_def set_status_def on_state_def)
  moreover have "SP_STATUS_TIMEOUT (rsp_host break_plugin) = 0x7fff" by (simp add: break_plugin_def InitiateRSP_def set_status_def on_state_def)
  moreover have "SP_STATUS_REG (q\<lparr>SP_PC_REG := v\<rparr>) = SP_STATUS_REG q" for q :: "unit plugin" and v by (simp add: SP_STATUS_REG_def)
  ultimately show ?thesis
    using DoRspCycles_correct [OF _ _ break_until, of id None 100] by (force simp: break_status broken_status break_run_def SP_STATUS_BROKE_def)
qed

end
