(* ===== verification/Sse2neon.thy ===== *)
theory Sse2neon
  imports S16
begin

unbundle bit_operations_syntax

text \<open>
  The SSE intrinsics on ARM, \<open>src/arch/simd/rsp/SSE2NEON.h\<close>: the functions of the header that the vector unit is compiled with there,
  written in the intrinsics of the NEON instruction set, whose documented meaning comes first. \<open>aarch64\<close> and \<open>gnuc\<close> say what
  the header was compiled for and with. Reinterpreting a register at another lane width is the identity. Each function is proved to
  be the SSE instruction of theory \<open>Sse\<close>, so that what the development proves of the vector unit holds on ARM as well. Modelled are the functions that the sources call there
  (\<open>rsp_common.h\<close> defines \<open>__SSSE3__\<close> on ARM, so the bodies for older processors are not compiled); loads and stores of whole registers
  are the moves of the state.
\<close>

section \<open>NEON instructions\<close>

text \<open>A Q register is \<open>m128i\<close>, a D register is \<open>d64\<close>. The lane width is a type argument where an instruction exists at several.\<close>

named_theorems neon_defs \<open>definitions of NEON instructions\<close>

definition vaddq :: "'w::len itself \<Rightarrow> m128i \<Rightarrow> m128i \<Rightarrow> m128i" where
  [neon_defs]: "vaddq _ = map2_lanes ((+) :: 'w word \<Rightarrow> 'w word \<Rightarrow> 'w word)"

definition vsubq :: "'w::len itself \<Rightarrow> m128i \<Rightarrow> m128i \<Rightarrow> m128i" where
  [neon_defs]: "vsubq _ = map2_lanes ((-) :: 'w word \<Rightarrow> 'w word \<Rightarrow> 'w word)"

definition vmulq :: "'w::len itself \<Rightarrow> m128i \<Rightarrow> m128i \<Rightarrow> m128i" where
  [neon_defs]: "vmulq _ = map2_lanes ((*) :: 'w word \<Rightarrow> 'w word \<Rightarrow> 'w word)"

definition vqaddq_s :: "'w::len itself \<Rightarrow> m128i \<Rightarrow> m128i \<Rightarrow> m128i" where
  [neon_defs]: "vqaddq_s _ = map2_lanes (\<lambda>x y :: 'w word. sat_s (sint x + sint y))"

definition vqaddq_u :: "'w::len itself \<Rightarrow> m128i \<Rightarrow> m128i \<Rightarrow> m128i" where
  [neon_defs]: "vqaddq_u _ = map2_lanes (\<lambda>x y :: 'w word. sat_u (uint x + uint y))"

definition vqsubq_s :: "'w::len itself \<Rightarrow> m128i \<Rightarrow> m128i \<Rightarrow> m128i" where
  [neon_defs]: "vqsubq_s _ = map2_lanes (\<lambda>x y :: 'w word. sat_s (sint x - sint y))"

definition vqsubq_u :: "'w::len itself \<Rightarrow> m128i \<Rightarrow> m128i \<Rightarrow> m128i" where
  [neon_defs]: "vqsubq_u _ = map2_lanes (\<lambda>x y :: 'w word. sat_u (uint x - uint y))"

definition vceqq :: "'w::len itself \<Rightarrow> m128i \<Rightarrow> m128i \<Rightarrow> m128i" where
  [neon_defs]: "vceqq _ = map2_lanes (\<lambda>x y :: 'w word. mask_word (x = y))"

definition vcgtq_s :: "'w::len itself \<Rightarrow> m128i \<Rightarrow> m128i \<Rightarrow> m128i" where
  [neon_defs]: "vcgtq_s _ = map2_lanes (\<lambda>x y :: 'w word. mask_word (sint x > sint y))"

definition vcltq_s :: "'w::len itself \<Rightarrow> m128i \<Rightarrow> m128i \<Rightarrow> m128i" where
  [neon_defs]: "vcltq_s _ = map2_lanes (\<lambda>x y :: 'w word. mask_word (sint x < sint y))"

definition vminq_s :: "'w::len itself \<Rightarrow> m128i \<Rightarrow> m128i \<Rightarrow> m128i" where
  [neon_defs]: "vminq_s _ = map2_lanes (\<lambda>x y :: 'w word. word_of_int (min (sint x) (sint y)))"

definition vmaxq_s :: "'w::len itself \<Rightarrow> m128i \<Rightarrow> m128i \<Rightarrow> m128i" where
  [neon_defs]: "vmaxq_s _ = map2_lanes (\<lambda>x y :: 'w word. word_of_int (max (sint x) (sint y)))"

definition vbicq :: "m128i \<Rightarrow> m128i \<Rightarrow> m128i" where
  [neon_defs]: "vbicq a b = a AND NOT b"

definition vbslq :: "m128i \<Rightarrow> m128i \<Rightarrow> m128i \<Rightarrow> m128i" where
  [neon_defs]: "vbslq m a b = (m AND a) OR (NOT m AND b)"

definition vdupq_n :: "'w::len word \<Rightarrow> m128i" where
  [neon_defs]: "vdupq_n x = vec (\<lambda>_. x)"

text \<open>A shift by a register takes the low byte of each lane as a signed amount; negative amounts shift to the right.\<close>

definition shift_amount :: "'w::len word \<Rightarrow> int" where
  "shift_amount c = sint (ucast c :: u8)"

definition vshlq_s :: "'w::len itself \<Rightarrow> m128i \<Rightarrow> m128i \<Rightarrow> m128i" where
  [neon_defs]: "vshlq_s _ = map2_lanes (\<lambda>x c :: 'w word. if 0 \<le> shift_amount c then push_bit (nat (shift_amount c)) x
     else signed_drop_bit (nat (- shift_amount c)) x)"

definition vshlq_u :: "'w::len itself \<Rightarrow> m128i \<Rightarrow> m128i \<Rightarrow> m128i" where
  [neon_defs]: "vshlq_u _ = map2_lanes (\<lambda>x c :: 'w word. if 0 \<le> shift_amount c then push_bit (nat (shift_amount c)) x
     else drop_bit (nat (- shift_amount c)) x)"

definition vshrq_n_s :: "'w::len itself \<Rightarrow> m128i \<Rightarrow> nat \<Rightarrow> m128i" where
  [neon_defs]: "vshrq_n_s _ a n = map_lanes (\<lambda>x :: 'w word. signed_drop_bit n x) a"

definition vshrq_n_u :: "'w::len itself \<Rightarrow> m128i \<Rightarrow> nat \<Rightarrow> m128i" where
  [neon_defs]: "vshrq_n_u _ a n = map_lanes (\<lambda>x :: 'w word. drop_bit n x) a"

definition vsraq_n_u :: "'w::len itself \<Rightarrow> m128i \<Rightarrow> m128i \<Rightarrow> nat \<Rightarrow> m128i" where
  [neon_defs]: "vsraq_n_u _ a b n = map2_lanes (\<lambda>x y :: 'w word. x + drop_bit n y) a b"

definition vget_low :: "m128i \<Rightarrow> d64" where
  [neon_defs]: "vget_low a = lane a 0"

definition vget_high :: "m128i \<Rightarrow> d64" where
  [neon_defs]: "vget_high a = lane a 1"

definition vcombine :: "d64 \<Rightarrow> d64 \<Rightarrow> m128i" where
  [neon_defs]: "vcombine lo hi = vec (\<lambda>i. if i = 0 then lo else hi)"

definition vmull_s16 :: "d64 \<Rightarrow> d64 \<Rightarrow> m128i" where
  [neon_defs]: "vmull_s16 a b = vec (\<lambda>i. word_of_int (sint (lane a i :: u16) * sint (lane b i :: u16)) :: u32)"

definition vmull_u16 :: "d64 \<Rightarrow> d64 \<Rightarrow> m128i" where
  [neon_defs]: "vmull_u16 a b = vec (\<lambda>i. word_of_int (uint (lane a i :: u16) * uint (lane b i :: u16)) :: u32)"

definition vmull_high_u16 :: "m128i \<Rightarrow> m128i \<Rightarrow> m128i" where
  [neon_defs]: "vmull_high_u16 a b = vmull_u16 (vget_high a) (vget_high b)"

text \<open>Unzipping takes the even or the odd lanes of two registers, zipping interleaves their lower or upper halves.\<close>

definition vuzp2q :: "'w::len itself \<Rightarrow> m128i \<Rightarrow> m128i \<Rightarrow> m128i" where
  [neon_defs]: "vuzp2q _ a b = vec (\<lambda>i. let k = lane_count TYPE(128) TYPE('w) div 2 in
     if i < k then lane a (2 * i + 1) else lane b (2 * (i - k) + 1) :: 'w word)"

definition vuzp1q :: "'w::len itself \<Rightarrow> m128i \<Rightarrow> m128i \<Rightarrow> m128i" where
  [neon_defs]: "vuzp1q _ a b = vec (\<lambda>i. let k = lane_count TYPE(128) TYPE('w) div 2 in
     if i < k then lane a (2 * i) else lane b (2 * (i - k)) :: 'w word)"

definition vuzpq :: "'w::len itself \<Rightarrow> m128i \<Rightarrow> m128i \<Rightarrow> m128i \<times> m128i" where
  [neon_defs]: "vuzpq w a b = (vuzp1q w a b, vuzp2q w a b)"

definition vzip1q :: "'w::len itself \<Rightarrow> m128i \<Rightarrow> m128i \<Rightarrow> m128i" where
  [neon_defs]: "vzip1q _ a b = vec (\<lambda>i. lane (if even i then a else b) (i div 2) :: 'w word)"

definition vzip2q :: "'w::len itself \<Rightarrow> m128i \<Rightarrow> m128i \<Rightarrow> m128i" where
  [neon_defs]: "vzip2q _ a b = vec (\<lambda>i. lane (if even i then a else b) (lane_count TYPE(128) TYPE('w) div 2 + i div 2) :: 'w word)"

definition vzip :: "'w::len itself \<Rightarrow> d64 \<Rightarrow> d64 \<Rightarrow> d64 \<times> d64" where
  [neon_defs]: "vzip _ a b =
     (vec (\<lambda>i. lane (if even i then a else b) (i div 2) :: 'w word),
      vec (\<lambda>i. lane (if even i then a else b) (lane_count TYPE(64) TYPE('w) div 2 + i div 2) :: 'w word))"

definition vqmovn_s16 :: "m128i \<Rightarrow> d64" where
  [neon_defs]: "vqmovn_s16 a = vec (\<lambda>i. sat_s (sint (lane a i :: u16)) :: u8)"

definition vqmovn_s32 :: "m128i \<Rightarrow> d64" where
  [neon_defs]: "vqmovn_s32 a = vec (\<lambda>i. sat_s (sint (lane a i :: u32)) :: u16)"

text \<open>A table lookup gives 0 for an index outside of the table.\<close>

definition vqtbl1q :: "m128i \<Rightarrow> m128i \<Rightarrow> m128i" where
  [neon_defs]: "vqtbl1q table k = vec (\<lambda>i. let c = unat (lane k i :: u8) in if c < 16 then lane table c else 0 :: u8)"

definition vtbl2 :: "d64 \<times> d64 \<Rightarrow> d64 \<Rightarrow> d64" where
  [neon_defs]: "vtbl2 table k = vec (\<lambda>i. let c = unat (lane k i :: u8) in
     if c < 8 then lane (fst table) c else if c < 16 then lane (snd table) (c - 8) else 0 :: u8)"

definition vextq_8 :: "m128i \<Rightarrow> m128i \<Rightarrow> nat \<Rightarrow> m128i" where
  [neon_defs]: "vextq_8 a b n = vec (\<lambda>i. if i + n < 16 then lane a (i + n) else lane b (i + n - 16) :: u8)"

section \<open>The functions of the header\<close>

text \<open>The name of a function is that of the intrinsic, with \<open>sse2neon\<close> for the leading \<open>_mm\<close>.\<close>

named_theorems sse2neon_defs \<open>definitions of the functions of SSE2NEON.h\<close>

definition sse2neon_add_epi16 :: "m128i \<Rightarrow> m128i \<Rightarrow> m128i" where
  [sse2neon_defs]: "sse2neon_add_epi16 a b =
     vaddq TYPE(16) a b"

definition sse2neon_sub_epi16 :: "m128i \<Rightarrow> m128i \<Rightarrow> m128i" where
  [sse2neon_defs]: "sse2neon_sub_epi16 a b =
     vsubq TYPE(16) a b"

definition sse2neon_adds_epi16 :: "m128i \<Rightarrow> m128i \<Rightarrow> m128i" where
  [sse2neon_defs]: "sse2neon_adds_epi16 a b =
     vqaddq_s TYPE(16) a b"

definition sse2neon_adds_epu16 :: "m128i \<Rightarrow> m128i \<Rightarrow> m128i" where
  [sse2neon_defs]: "sse2neon_adds_epu16 a b =
     vqaddq_u TYPE(16) a b"

definition sse2neon_subs_epi16 :: "m128i \<Rightarrow> m128i \<Rightarrow> m128i" where
  [sse2neon_defs]: "sse2neon_subs_epi16 a b =
     vqsubq_s TYPE(16) a b"

definition sse2neon_subs_epu16 :: "m128i \<Rightarrow> m128i \<Rightarrow> m128i" where
  [sse2neon_defs]: "sse2neon_subs_epu16 a b =
     vqsubq_u TYPE(16) a b"

definition sse2neon_mullo_epi16 :: "m128i \<Rightarrow> m128i \<Rightarrow> m128i" where
  [sse2neon_defs]: "sse2neon_mullo_epi16 a b =
     vmulq TYPE(16) a b"

definition sse2neon_cmpeq_epi16 :: "m128i \<Rightarrow> m128i \<Rightarrow> m128i" where
  [sse2neon_defs]: "sse2neon_cmpeq_epi16 a b =
     vceqq TYPE(16) a b"

definition sse2neon_cmpeq_epi8 :: "m128i \<Rightarrow> m128i \<Rightarrow> m128i" where
  [sse2neon_defs]: "sse2neon_cmpeq_epi8 a b =
     vceqq TYPE(8) a b"

definition sse2neon_cmpgt_epi16 :: "m128i \<Rightarrow> m128i \<Rightarrow> m128i" where
  [sse2neon_defs]: "sse2neon_cmpgt_epi16 a b =
     vcgtq_s TYPE(16) a b"

definition sse2neon_cmplt_epi16 :: "m128i \<Rightarrow> m128i \<Rightarrow> m128i" where
  [sse2neon_defs]: "sse2neon_cmplt_epi16 a b =
     vcltq_s TYPE(16) a b"

definition sse2neon_min_epi16 :: "m128i \<Rightarrow> m128i \<Rightarrow> m128i" where
  [sse2neon_defs]: "sse2neon_min_epi16 a b =
     vminq_s TYPE(16) a b"

definition sse2neon_max_epi16 :: "m128i \<Rightarrow> m128i \<Rightarrow> m128i" where
  [sse2neon_defs]: "sse2neon_max_epi16 a b =
     vmaxq_s TYPE(16) a b"

definition sse2neon_and_si128 :: "m128i \<Rightarrow> m128i \<Rightarrow> m128i" where
  [sse2neon_defs]: "sse2neon_and_si128 a b =
     a AND b"

definition sse2neon_or_si128 :: "m128i \<Rightarrow> m128i \<Rightarrow> m128i" where
  [sse2neon_defs]: "sse2neon_or_si128 a b =
     a OR b"

definition sse2neon_xor_si128 :: "m128i \<Rightarrow> m128i \<Rightarrow> m128i" where
  [sse2neon_defs]: "sse2neon_xor_si128 a b =
     a XOR b"

definition sse2neon_andnot_si128 :: "m128i \<Rightarrow> m128i \<Rightarrow> m128i" where
  [sse2neon_defs]: "sse2neon_andnot_si128 a b =
     vbicq b a"

definition sse2neon_setzero_si128 :: "m128i" where
  [sse2neon_defs]: "sse2neon_setzero_si128 =
     vdupq_n (0 :: u32)"

definition sse2neon_set1_epi16 :: "u16 \<Rightarrow> m128i" where
  [sse2neon_defs]: "sse2neon_set1_epi16 w =
     vdupq_n w"

definition sse2neon_set1_epi32 :: "u32 \<Rightarrow> m128i" where
  [sse2neon_defs]: "sse2neon_set1_epi32 i =
     vdupq_n i"

definition sse2neon_slli_epi16 :: "m128i \<Rightarrow> u32 \<Rightarrow> m128i" where
  [sse2neon_defs]: "sse2neon_slli_epi16 a imm =
     (if imm AND NOT 15 \<noteq> 0 then sse2neon_setzero_si128 else vshlq_s TYPE(16) a (vdupq_n (ucast imm :: u16)))"

definition sse2neon_srai_epi16 :: "m128i \<Rightarrow> u32 \<Rightarrow> m128i" where
  [sse2neon_defs]: "sse2neon_srai_epi16 a imm =
     (let count = if imm AND NOT 15 \<noteq> 0 then 15 else imm in vshlq_s TYPE(16) a (vdupq_n (ucast (- count) :: u16)))"

definition sse2neon_srli_epi16 :: "m128i \<Rightarrow> u32 \<Rightarrow> m128i" where
  [sse2neon_defs]: "sse2neon_srli_epi16 a imm =
     (if imm AND NOT 15 \<noteq> 0 then sse2neon_setzero_si128 else vshlq_u TYPE(16) a (vdupq_n (ucast (- imm) :: u16)))"

definition sse2neon_srli_si128 :: "m128i \<Rightarrow> u32 \<Rightarrow> m128i" where
  [sse2neon_defs]: "sse2neon_srli_si128 a imm =
     (if imm AND NOT 15 \<noteq> 0 then vdupq_n (0 :: u8) else vextq_8 a (vdupq_n (0 :: u8)) (if sint imm > 15 then 0 else unat imm))"

definition sse2neon_mulhi_epi16 :: "m128i \<Rightarrow> m128i \<Rightarrow> m128i" where
  [sse2neon_defs]: "sse2neon_mulhi_epi16 a b =
     (let ab3210 = vmull_s16 (vget_low a) (vget_low b);
          ab7654 = vmull_s16 (vget_high a) (vget_high b)
      in snd (vuzpq TYPE(16) ab3210 ab7654))"

definition sse2neon_mulhi_epu16 :: "bool \<Rightarrow> m128i \<Rightarrow> m128i \<Rightarrow> m128i" where
  [sse2neon_defs]: "sse2neon_mulhi_epu16 aarch64 a b =
     (let ab3210 = vmull_u16 (vget_low a) (vget_low b)
      in if aarch64 then vuzp2q TYPE(16) ab3210 (vmull_high_u16 a b)
         else snd (vuzpq TYPE(16) ab3210 (vmull_u16 (vget_high a) (vget_high b))))"

definition sse2neon_blendv_epi8 :: "m128i \<Rightarrow> m128i \<Rightarrow> m128i \<Rightarrow> m128i" where
  [sse2neon_defs]: "sse2neon_blendv_epi8 a b m =
     vbslq (vshrq_n_s TYPE(8) m 7) b a"

definition sse2neon_packs_epi16 :: "m128i \<Rightarrow> m128i \<Rightarrow> m128i" where
  [sse2neon_defs]: "sse2neon_packs_epi16 a b =
     vcombine (vqmovn_s16 a) (vqmovn_s16 b)"

definition sse2neon_packs_epi32 :: "m128i \<Rightarrow> m128i \<Rightarrow> m128i" where
  [sse2neon_defs]: "sse2neon_packs_epi32 a b =
     vcombine (vqmovn_s32 a) (vqmovn_s32 b)"

definition sse2neon_unpacklo_epi8 :: "bool \<Rightarrow> m128i \<Rightarrow> m128i \<Rightarrow> m128i" where
  [sse2neon_defs]: "sse2neon_unpacklo_epi8 aarch64 a b =
     (if aarch64 then vzip1q TYPE(8) a b
      else case vzip TYPE(8) (vget_low a) (vget_low b) of (lo, hi) \<Rightarrow> vcombine lo hi)"

definition sse2neon_unpacklo_epi16 :: "bool \<Rightarrow> m128i \<Rightarrow> m128i \<Rightarrow> m128i" where
  [sse2neon_defs]: "sse2neon_unpacklo_epi16 aarch64 a b =
     (if aarch64 then vzip1q TYPE(16) a b
      else case vzip TYPE(16) (vget_low a) (vget_low b) of (lo, hi) \<Rightarrow> vcombine lo hi)"

definition sse2neon_unpackhi_epi16 :: "bool \<Rightarrow> m128i \<Rightarrow> m128i \<Rightarrow> m128i" where
  [sse2neon_defs]: "sse2neon_unpackhi_epi16 aarch64 a b =
     (if aarch64 then vzip2q TYPE(16) a b
      else case vzip TYPE(16) (vget_high a) (vget_high b) of (lo, hi) \<Rightarrow> vcombine lo hi)"

definition sse2neon_unpacklo_epi64 :: "bool \<Rightarrow> m128i \<Rightarrow> m128i \<Rightarrow> m128i" where
  [sse2neon_defs]: "sse2neon_unpacklo_epi64 aarch64 a b =
     (if aarch64 then vzip1q TYPE(64) a b else vcombine (vget_low a) (vget_low b))"

definition sse2neon_shuffle_epi8 :: "bool \<Rightarrow> bool \<Rightarrow> m128i \<Rightarrow> m128i \<Rightarrow> m128i" where
  [sse2neon_defs]: "sse2neon_shuffle_epi8 aarch64 gnuc a b =
     (let idx_masked = b AND vdupq_n (0x8F :: u8)
      in if aarch64 then vqtbl1q a idx_masked
         else if gnuc then let e = vtbl2 (vget_low a, vget_high a) (vget_low idx_masked);
                               f = vtbl2 (vget_low a, vget_high a) (vget_high idx_masked)
                           in vcombine e f
         else let a_split = (vget_low a, vget_high a)
              in vcombine (vtbl2 a_split (vget_low idx_masked)) (vtbl2 a_split (vget_high idx_masked)))"

definition sse2neon_movemask_epi8 :: "m128i \<Rightarrow> u32" where
  [sse2neon_defs]: "sse2neon_movemask_epi8 a =
     (let high_bits = vshrq_n_u TYPE(8) a 7;
          paired16 = vsraq_n_u TYPE(16) high_bits high_bits 7;
          paired32 = vsraq_n_u TYPE(32) paired16 paired16 14;
          paired64 = vsraq_n_u TYPE(64) paired32 paired32 28
      in ucast (lane paired64 0 :: u8) OR push_bit 8 (ucast (lane paired64 8 :: u8)))"

section \<open>Halves of a register\<close>

text \<open>A narrow lane of a Q register, found in the half that holds it.\<close>

lemma lane_halves:
  fixes a :: m128i
  assumes "LENGTH('n::len) * k = 64" "i < k"
  shows "lane (vget_low a) i = (lane a i :: 'n word)" "lane (vget_high a) i = (lane a (k + i) :: 'n word)"
  using lane_lane [of k i a 0, where 'n = 'n and 'w = 64] lane_lane [of k i a 1, where 'n = 'n and 'w = 64] assms
  by (simp_all add: neon_defs)

lemma lane_vcombine:
  assumes k: "LENGTH('n::len) * k = 64" and i: "i < 2 * k"
  shows "(lane (vcombine lo hi) i :: 'n word) = (if i < k then lane lo i else lane hi (i - k))"
proof -
  have q: "lane (vcombine lo hi) 0 = lo" "lane (vcombine lo hi) 1 = hi" by (simp_all add: neon_defs lane_vec)
  have "lane (lane (vcombine lo hi) 0 :: d64) i = (lane (vcombine lo hi) i :: 'n word)" if "i < k"
    using lane_lane [of k i "vcombine lo hi" 0, where 'n = 'n and 'w = 64] k that by simp
  moreover have "lane (lane (vcombine lo hi) 1 :: d64) (i - k) = (lane (vcombine lo hi) i :: 'n word)" if "\<not> i < k"
    using lane_lane [of k "i - k" "vcombine lo hi" 1, where 'n = 'n and 'w = 64] k that i by simp
  ultimately show ?thesis using q by auto
qed

lemmas halves [lane_simps] = lane_halves [where 'n = 8 and k = 8, simplified] lane_halves [where 'n = 16 and k = 4, simplified]
  lane_halves [where 'n = 64 and k = 1, simplified]
  lane_vcombine [where 'n = 8 and k = 8, simplified] lane_vcombine [where 'n = 16 and k = 4, simplified] lane_vcombine [where 'n = 64 and k = 1, simplified]

lemma lane_vdupq_n [lane_simps]: "i < lane_count TYPE(128) TYPE('w) \<Longrightarrow> lane (vdupq_n x) i = (x :: 'w::len word)"
  by (simp add: neon_defs lane_vec)

section \<open>Arithmetic, comparisons and logic\<close>

lemma word_of_int_sint_min_max:
  "word_of_int (min (sint x) (sint y)) = (if sint x < sint y then x else y)"
  "word_of_int (max (sint x) (sint y)) = (if sint x > sint y then x else y)"
  by (simp_all add: min_def max_def)

lemma setzero: "sse2neon_setzero_si128 = mm_setzero_si128"
  by (rule m128i_eqI32) (simp add: sse2neon_defs lane_simps)

lemma same_arithmetic:
  "sse2neon_add_epi16 = mm_add_epi16" "sse2neon_sub_epi16 = mm_sub_epi16" "sse2neon_mullo_epi16 = mm_mullo_epi16"
  "sse2neon_adds_epi16 = mm_adds_epi16" "sse2neon_adds_epu16 = mm_adds_epu16"
  "sse2neon_subs_epi16 = mm_subs_epi16" "sse2neon_subs_epu16 = mm_subs_epu16"
  by (simp_all add: fun_eq_iff sse2neon_defs neon_defs simd_defs)

lemma same_compare:
  "sse2neon_cmpeq_epi16 = mm_cmpeq_epi16" "sse2neon_cmpeq_epi8 = mm_cmpeq_epi8" "sse2neon_cmpgt_epi16 = mm_cmpgt_epi16"
  "sse2neon_cmplt_epi16 a b = mm_cmplt_epi16 a b" "sse2neon_min_epi16 = mm_min_epi16" "sse2neon_max_epi16 = mm_max_epi16"
  by (simp_all add: fun_eq_iff sse2neon_defs neon_defs simd_defs map2_lanes_def word_of_int_sint_min_max)

lemma same_logic:
  "sse2neon_and_si128 = mm_and_si128" "sse2neon_or_si128 = mm_or_si128" "sse2neon_xor_si128 = mm_xor_si128"
  "sse2neon_andnot_si128 = mm_andnot_si128" "sse2neon_set1_epi16 = mm_set1_epi16" "sse2neon_set1_epi32 = mm_set1_epi32"
  by (simp_all add: fun_eq_iff sse2neon_defs neon_defs simd_defs pandn_def ac_simps)

lemma same_blend: "sse2neon_blendv_epi8 a b m = mm_blendv_epi8 a b m"
proof (rule m128i_eqI8)
  fix i :: nat assume i: "i < 16"
  have "signed_drop_bit 7 x = mask_word (bit x 7)" for x :: u8
    by (rule bit_word_eqI) (auto simp: bit_simps mask_word_def min_def not_le less_Suc0 simp flip: One_nat_def split: if_splits)
  then show "lane (sse2neon_blendv_epi8 a b m) i = (lane (mm_blendv_epi8 a b m) i :: u8)"
    using i by (simp add: sse2neon_defs neon_defs simd_defs lane_simps)
qed

section \<open>Shifts\<close>

lemma small_amount: "imm AND NOT 15 = 0 \<longleftrightarrow> unat imm < 16" for imm :: u32
proof -
  have "imm AND NOT 15 = 0 \<longleftrightarrow> take_bit 4 imm = imm"
    unfolding and_ones_take_bit(2) [symmetric] by (auto simp: bit_eq_iff bit_simps)
  also have "\<dots> \<longleftrightarrow> unat (take_bit 4 imm) = unat imm" by (simp only: word_unat_eq_iff)
  also have "\<dots> \<longleftrightarrow> unat imm < 16" by (simp add: unsigned_take_bit_eq take_bit_nat_eq_self_iff)
  finally show ?thesis .
qed

lemma small_amounts: "unat imm < 16 \<Longrightarrow> imm \<in> {0, 1, 2, 3, 4, 5, 6, 7, 8, 9, 10, 11, 12, 13, 14, 15}" for imm :: u32
  by (simp add: word_unat_eq_iff) presburger

lemma shift_amounts:
  fixes imm :: u32
  assumes "unat imm < 16"
  shows "shift_amount (ucast imm :: u16) = int (unat imm)" "shift_amount (ucast (- imm) :: u16) = - int (unat imm)"
proof -
  note small_amounts [OF assms]
  moreover have "ucast (ucast (- 1 :: u32) :: u16) = (- 1 :: u8)" by (rule bit_word_eqI) (simp add: bit_simps)
  ultimately show "shift_amount (ucast imm :: u16) = int (unat imm)" "shift_amount (ucast (- imm) :: u16) = - int (unat imm)"
    by (auto simp: shift_amount_def)
qed

lemma far_shifts:
  fixes x :: u16
  assumes "16 \<le> n"
  shows "push_bit n x = 0" "drop_bit n x = 0" "signed_drop_bit n x = signed_drop_bit 15 x"
  using assms by (auto intro!: bit_word_eqI simp: bit_simps min_def not_le less_Suc0 simp flip: One_nat_def split: if_splits)

lemma lane_vshlq [lane_simps]:
  fixes a c :: m128i
  assumes "i < lane_count TYPE(128) TYPE('w::len)"
  defines "n \<equiv> shift_amount (lane c i :: 'w word)"
  shows "lane (vshlq_s TYPE('w) a c) i = (if 0 \<le> n then push_bit (nat n) (lane a i) else signed_drop_bit (nat (- n)) (lane a i) :: 'w word)"
    "lane (vshlq_u TYPE('w) a c) i = (if 0 \<le> n then push_bit (nat n) (lane a i) else drop_bit (nat (- n)) (lane a i) :: 'w word)"
  using assms by (simp_all add: neon_defs lane_simps)

lemma same_shifts:
  "sse2neon_slli_epi16 a imm = mm_slli_epi16 a (unat imm)"
  "sse2neon_srli_epi16 a imm = mm_srli_epi16 a (unat imm)"
  "sse2neon_srai_epi16 a imm = mm_srai_epi16 a (unat imm)"
proof (rule_tac [!] m128i_eqI16)
  fix i :: nat assume i: "i < 8"
  show "lane (sse2neon_slli_epi16 a imm) i = (lane (mm_slli_epi16 a (unat imm)) i :: u16)"
    using i unfolding sse2neon_slli_epi16_def small_amount setzero by (simp add: lane_simps shift_amounts far_shifts)
  show "lane (sse2neon_srli_epi16 a imm) i = (lane (mm_srli_epi16 a (unat imm)) i :: u16)"
    using i unfolding sse2neon_srli_epi16_def small_amount setzero
    by (cases "imm = 0") (simp_all add: lane_simps shift_amounts far_shifts uint_0_iff shift_amount_def [of 0])
  show "lane (sse2neon_srai_epi16 a imm) i = (lane (mm_srai_epi16 a (unat imm)) i :: u16)"
  proof (cases "unat imm < 16")
    case True
    then show ?thesis using i unfolding sse2neon_srai_epi16_def small_amount
      by (cases "imm = 0") (simp_all add: Let_def lane_simps shift_amounts uint_0_iff shift_amount_def [of 0])
  next
    case False
    moreover have "shift_amount (ucast (- (15 :: u32)) :: u16) = - 15" using shift_amounts(2) [of 15] by simp
    ultimately show ?thesis using i far_shifts(3) [of "unat imm" "lane a i"] unfolding sse2neon_srai_epi16_def small_amount
      by (simp add: Let_def lane_simps)
  qed
qed

lemma lane_drop_bit: "lane (drop_bit (LENGTH('w::len) * n) a) i = (lane a (i + n) :: 'w word)" for a :: m128i
proof -
  have "drop_bit (LENGTH('w) * i) (drop_bit (LENGTH('w) * n) a) = drop_bit (LENGTH('w) * (i + n)) a"
    unfolding drop_bit_drop_bit distrib_left by (rule refl)
  then show ?thesis unfolding lane_def by simp
qed

lemma same_byte_shift: "sse2neon_srli_si128 a imm = mm_srli_si128 a (unat imm)"
proof (rule m128i_eqI8)
  fix i :: nat assume i: "i < 16"
  have d: "lane (mm_srli_si128 a n) i = (lane a (i + n) :: u8)" for n
    using lane_drop_bit [of n a i, where 'w = 8] by (simp add: psrldq_def)
  have z: "lane a k = (0 :: u8)" if "16 \<le> k" for k
    using that by (intro bit_word_eqI) (auto simp: lane_def bit_simps dest: bit_imp_le_length)
  have s: "\<not> 15 < sint imm" if "unat imm < 16"
    using small_amounts [OF that] by auto
  show "lane (sse2neon_srli_si128 a imm) i = (lane (mm_srli_si128 a (unat imm)) i :: u8)"
  proof (cases "unat imm < 16")
    case True
    then show ?thesis using i s [OF True] z [of "i + unat imm"] unfolding sse2neon_srli_si128_def small_amount d
      by (simp add: vextq_8_def lane_vec lane_vdupq_n)
  next
    case False
    then show ?thesis using i z [of "i + unat imm"] unfolding sse2neon_srli_si128_def small_amount d
      by (simp add: lane_vdupq_n)
  qed
qed

section \<open>High products\<close>

lemma high_half: "lane (word_of_int k :: u32) 1 = (word_of_int (k div 65536) :: u16)"
proof -
  have "lane (word_of_int k :: u32) 1 = (word_of_int (drop_bit 16 k) :: u16)"
    by (rule bit_word_eqI) (simp add: lane_def bit_simps)
  then show ?thesis by (simp add: drop_bit_eq_div)
qed

lemma lane_vmull:
  assumes "i < 4"
  shows "lane (vmull_s16 a b) (Suc (2 * i)) = (word_of_int (sint (lane a i :: u16) * sint (lane b i :: u16) div 65536) :: u16)"
    "lane (vmull_u16 a b) (Suc (2 * i)) = (word_of_int (uint (lane a i :: u16) * uint (lane b i :: u16) div 65536) :: u16)"
proof -
  have n: "lane (lane x i :: u32) 1 = (lane x (Suc (2 * i)) :: u16)" for x :: m128i
    using lane_lane [of 2 1 x i, where 'n = 16 and 'w = 32] assms by (simp add: mult.commute [of i])
  have "lane (vmull_s16 a b) i = (word_of_int (sint (lane a i :: u16) * sint (lane b i :: u16)) :: u32)"
    "lane (vmull_u16 a b) i = (word_of_int (uint (lane a i :: u16) * uint (lane b i :: u16)) :: u32)"
    unfolding vmull_s16_def vmull_u16_def using assms by (simp_all only: lane_vec lane_count_simps)
  then show "lane (vmull_s16 a b) (Suc (2 * i)) = (word_of_int (sint (lane a i :: u16) * sint (lane b i :: u16) div 65536) :: u16)"
    "lane (vmull_u16 a b) (Suc (2 * i)) = (word_of_int (uint (lane a i :: u16) * uint (lane b i :: u16) div 65536) :: u16)"
    unfolding n [symmetric] by (simp_all only: high_half)
qed

lemma same_high_products:
  "sse2neon_mulhi_epi16 a b = mm_mulhi_epi16 a b" "sse2neon_mulhi_epu16 aarch64 a b = mm_mulhi_epu16 a b"
proof (rule_tac [!] m128i_eqI16)
  fix i :: nat assume i: "i < 8"
  show "lane (sse2neon_mulhi_epi16 a b) i = (lane (mm_mulhi_epi16 a b) i :: u16)"
    using i by (cases "i < 4") (simp_all add: sse2neon_mulhi_epi16_def vuzpq_def vuzp2q_def Let_def lane_vec lane_arith lane_vmull halves)
  show "lane (sse2neon_mulhi_epu16 aarch64 a b) i = (lane (mm_mulhi_epu16 a b) i :: u16)"
    using i by (cases "i < 4") (simp_all add: sse2neon_mulhi_epu16_def vuzpq_def vuzp2q_def vmull_high_u16_def Let_def lane_vec lane_arith lane_vmull halves)
qed

section \<open>Packing and interleaving\<close>

lemma same_packs: "sse2neon_packs_epi16 a b = mm_packs_epi16 a b" "sse2neon_packs_epi32 a b = mm_packs_epi32 a b"
proof -
  show "sse2neon_packs_epi16 a b = mm_packs_epi16 a b"
    by (rule m128i_eqI8) (simp add: sse2neon_defs vqmovn_s16_def packss_def halves lane_vec Let_def)
  show "sse2neon_packs_epi32 a b = mm_packs_epi32 a b"
    by (rule m128i_eqI16) (simp add: sse2neon_defs vqmovn_s32_def packss_def halves lane_vec Let_def)
qed

text \<open>The second half of an interleaving, counted from its start.\<close>

lemma second_half: "8 \<le> i \<Longrightarrow> 4 + (i - 8) div 2 = i div 2" "4 \<le> i \<Longrightarrow> 2 + (i - 4) div 2 = i div (2 :: nat)" "4 \<le> i \<Longrightarrow> Suc (Suc ((i - 4) div 2)) = i div 2"
  by presburger+

lemma same_unpack8: "sse2neon_unpacklo_epi8 aarch64 a b = mm_unpacklo_epi8 a b"
proof (rule m128i_eqI8)
  fix i :: nat assume "i < 16"
  then show "lane (sse2neon_unpacklo_epi8 aarch64 a b) i = (lane (mm_unpacklo_epi8 a b) i :: u8)"
    by (cases "i < 8") (simp_all add: sse2neon_unpacklo_epi8_def vzip1q_def vzip_def punpckl_def halves lane_vec Let_def second_half)
qed

lemma same_unpack16:
  "sse2neon_unpacklo_epi16 aarch64 a b = mm_unpacklo_epi16 a b" "sse2neon_unpackhi_epi16 aarch64 a b = mm_unpackhi_epi16 a b"
proof (rule_tac [!] m128i_eqI16)
  fix i :: nat assume i: "i < 8"
  show "lane (sse2neon_unpacklo_epi16 aarch64 a b) i = (lane (mm_unpacklo_epi16 a b) i :: u16)"
    using i by (cases "i < 4") (simp_all add: sse2neon_unpacklo_epi16_def vzip1q_def vzip_def punpckl_def halves lane_vec Let_def second_half)
  have h: "4 + (2 + (i - 4) div 2) = i div 2 + 4" if "\<not> i < 4"
    using second_half(2) [of i] that by simp
  show "lane (sse2neon_unpackhi_epi16 aarch64 a b) i = (lane (mm_unpackhi_epi16 a b) i :: u16)"
  proof (cases "i < 4")
    case True
    then show ?thesis by (simp add: sse2neon_unpackhi_epi16_def vzip2q_def vzip_def punpckh_def halves lane_vec Let_def add.commute)
  next
    case False
    with i have "2 + (i - 4) div 2 < 4" by simp
    then show ?thesis using i False h [OF False]
      by (simp add: sse2neon_unpackhi_epi16_def vzip2q_def vzip_def punpckh_def halves lane_vec Let_def add.commute [of 4 "i div 2"] del: add_2_eq_Suc)
  qed
qed

lemma same_unpack64: "sse2neon_unpacklo_epi64 aarch64 a b = mm_unpacklo_epi64 a b"
proof (rule m128i_eqI64)
  fix i :: nat assume "i < 2"
  then have "i = 0 \<or> i = 1" by auto
  then show "lane (sse2neon_unpacklo_epi64 aarch64 a b) i = (lane (mm_unpacklo_epi64 a b) i :: u64)"
    by (elim disjE) (simp_all add: sse2neon_unpacklo_epi64_def vzip1q_def vcombine_def vget_low_def punpckl_def lane_vec)
qed

section \<open>Byte shuffles\<close>

lemma shuffle_index:
  fixes c :: u8
  shows "unat (c AND 0x8F) < 16 \<longleftrightarrow> \<not> bit c 7" "\<not> bit c 7 \<Longrightarrow> c AND 0x8F = take_bit 4 c"
proof -
  have t: "c AND 0x8F = take_bit 4 c OR (if bit c 7 then 0x80 else 0)"
  proof (rule bit_word_eqI)
    fix n assume "n < LENGTH(8)"
    then have "n \<in> {0, 1, 2, 3, 4, 5, 6, 7}" by auto
    then show "bit (c AND 0x8F) n = bit (take_bit 4 c OR (if bit c 7 then 0x80 else 0)) n"
      by (auto simp: bit_simps)
  qed
  then show r: "c AND 0x8F = take_bit 4 c" if "\<not> bit c 7" using that by simp
  have "unat (take_bit 4 c) < 16" using take_bit_nat_less_exp [of 4 "unat c"] by (simp add: unsigned_take_bit_eq)
  moreover have "0x80 AND (c AND 0x8F) = 0x80" if "bit c 7"
    unfolding t using that by (auto simp: bit_eq_iff bit_simps)
  then have "0x80 \<le> c AND 0x8F" if "bit c 7"
    using that word_and_le1 [of "0x80" "c AND 0x8F"] by (simp only:)
  then have "128 \<le> unat (c AND 0x8F)" if "bit c 7"
    using that by (simp add: word_le_nat_alt)
  ultimately show "unat (c AND 0x8F) < 16 \<longleftrightarrow> \<not> bit c 7" using r by fastforce
qed

lemma shuffle_select:
  "(if unat (c AND 0x8F) < 16 then f (unat (c AND 0x8F)) else 0) = (if bit c 7 then 0 else f (unat (take_bit 4 c)))" for c :: u8
  using shuffle_index [of c] by auto

lemma lane_tables:
  "i < 16 \<Longrightarrow> lane (vqtbl1q a k) i = (if unat (lane k i :: u8) < 16 then lane a (unat (lane k i :: u8)) else 0 :: u8)"
  "i < 8 \<Longrightarrow> lane (vtbl2 (vget_low a, vget_high a) d) i = (if unat (lane d i :: u8) < 16 then lane a (unat (lane d i :: u8)) else 0 :: u8)"
  by (simp_all add: vqtbl1q_def vtbl2_def lane_vec halves Let_def)

lemma same_shuffle: "sse2neon_shuffle_epi8 aarch64 gnuc a k = mm_shuffle_epi8 a k"
proof (rule m128i_eqI8)
  fix i :: nat assume i: "i < 16"
  have m: "lane (k AND vdupq_n (0x8F :: u8)) i = (lane k i AND 0x8F :: u8)" if "i < 16" for i
    using that by (simp add: lane_bitwise lane_vdupq_n)
  have "lane (sse2neon_shuffle_epi8 aarch64 gnuc a k) i
      = (if unat (lane k i AND 0x8F :: u8) < 16 then lane a (unat (lane k i AND 0x8F :: u8)) else 0 :: u8)"
    using i by (cases "i < 8") (simp_all add: sse2neon_shuffle_epi8_def lane_tables halves m Let_def)
  then show "lane (sse2neon_shuffle_epi8 aarch64 gnuc a k) i = (lane (mm_shuffle_epi8 a k) i :: u8)"
    unfolding shuffle_select using i by (simp add: pshufb_def lane_vec Let_def)
qed

section \<open>The byte mask\<close>

lemma unat_halves:
  assumes "LENGTH('w::len) = 2 * LENGTH('n::len)"
  shows "unat (x :: 'w word) = unat (lane x 0 :: 'n word) + 2 ^ LENGTH('n) * unat (lane x 1 :: 'n word)"
proof -
  have "unat (lane x 0 :: 'n word) = unat x mod 2 ^ LENGTH('n)" by (simp add: lane_def unsigned_ucast_eq take_bit_eq_mod)
  moreover have "unat x div 2 ^ LENGTH('n) < 2 ^ LENGTH('n)"
    using unsigned_less [of x, where 'a = nat] assms by (intro less_mult_imp_div_less) (simp add: mult_2 power_add)
  then have "unat (lane x 1 :: 'n word) = unat x div 2 ^ LENGTH('n)"
    by (simp add: lane_def unsigned_ucast_eq take_bit_eq_mod unat_drop_bit_eq flip: drop_bit_eq_div)
  ultimately show ?thesis by simp
qed

lemma lane_vsraq:
  fixes a :: m128i
  assumes "i < lane_count TYPE(128) TYPE('w::len)" "unat (lane a i :: 'w word) + unat (lane a i :: 'w word) div 2 ^ n < 2 ^ LENGTH('w)"
  shows "unat (lane (vsraq_n_u TYPE('w) a a n) i :: 'w word) = unat (lane a i :: 'w word) + unat (lane a i :: 'w word) div 2 ^ n"
proof -
  have "unat (drop_bit n w) = unat w div 2 ^ n" for w :: "'w word" by (simp add: unat_drop_bit_eq flip: drop_bit_eq_div)
  then show ?thesis using assms by (simp add: vsraq_n_u_def lane_map2_lanes unat_word_ariths)
qed

text \<open>Shifting a lane onto itself adds its upper half, moved down, to its lower half, when both fit there together.\<close>

lemma paired_halves:
  fixes x :: m128i
  assumes w: "LENGTH('w::len) = 2 * LENGTH('n::len)" and i: "i < lane_count TYPE(128) TYPE('w)"
    and u: "unat (lane x (2 * i) :: 'n word) = u" and v: "unat (lane x (2 * i + 1) :: 'n word) = v"
    and n: "s \<le> LENGTH('n)" "u < 2 ^ s" "u + 2 ^ (LENGTH('n) - s) * v < 2 ^ LENGTH('n)"
  shows "unat (lane (vsraq_n_u TYPE('w) x x s) i :: 'w word) = u + 2 ^ (LENGTH('n) - s) * v + 2 ^ LENGTH('n) * v"
proof -
  have x: "unat (lane x i :: 'w word) = u + 2 ^ LENGTH('n) * v"
    using unat_halves [OF w, of "lane x i"] lane_lane [of 2 0 x i, where 'n = 'n and 'w = 'w] lane_lane [of 2 1 x i, where 'n = 'n and 'w = 'w] w u v
    by simp
  have "(2 :: nat) ^ LENGTH('n) = 2 ^ s * 2 ^ (LENGTH('n) - s)" using n(1) by (simp flip: power_add)
  then have d: "(u + 2 ^ LENGTH('n) * v) div 2 ^ s = 2 ^ (LENGTH('n) - s) * v" using n(2) by (simp add: mult.assoc)
  have "v < 2 ^ LENGTH('n)" unfolding v [symmetric] by (rule unsigned_less)
  then have "v + 1 \<le> 2 ^ LENGTH('n)" by simp
  then have "2 ^ LENGTH('n) * (v + 1) \<le> (2 :: nat) ^ LENGTH('w)" unfolding w mult_2 power_add by (rule mult_le_mono2)
  then have "u + 2 ^ LENGTH('n) * v + 2 ^ (LENGTH('n) - s) * v < 2 ^ LENGTH('w)" using n(3) by simp
  then show ?thesis using lane_vsraq [OF i, of x s] unfolding x d by simp
qed

lemma high_bytes: "(of_nat (x + 256 * m) :: u8) = of_nat x"
  unfolding word_of_nat_eq_iff take_bit_eq_mod by simp

lemma eight_lanes: "[0..<8] = [0, 1, 2, 3, 4, 5, 6, 7]"
  by (simp add: upt_rec)

lemma sign_bit_byte: "drop_bit 7 w = of_bool (bit w 7)" for w :: u8
  using bit_imp_le_length [of w] by (intro bit_word_eqI) (fastforce simp: bit_simps)

text \<open>Three pairings bring the sign bits of the eight bytes of each half into its lowest byte.\<close>

lemma paired_bytes:
  fixes a :: m128i
  assumes "k < 2"
  defines "x \<equiv> vshrq_n_u TYPE(8) a 7"
  defines "y \<equiv> vsraq_n_u TYPE(32) (vsraq_n_u TYPE(16) x x 7) (vsraq_n_u TYPE(16) x x 7) 14"
  shows "lane (vsraq_n_u TYPE(64) y y 28) (8 * k) = (horner_sum of_bool 2 (map (\<lambda>i. bit (lane a (8 * k + i) :: u8) 7) [0..<8]) :: u8)"
proof -
  define b where "b i = (of_bool (bit (lane a (8 * k + i) :: u8) 7) :: nat)" for i
  define p where "p = vsraq_n_u TYPE(16) x x 7"
  define r where "r i = b (2 * i) + 2 * b (2 * i + 1) + 256 * b (2 * i + 1)" for i
  define q where "q i = r (2 * i) + 4 * r (2 * i + 1) + 65536 * r (2 * i + 1)" for i
  have b1: "b i \<le> 1" for i by (simp add: b_def)
  have r9: "r i \<le> 259" for i using b1 [of "2 * i"] b1 [of "2 * i + 1"] by (simp add: r_def)
  have q26: "q i \<le> 16975519" for i using r9 [of "2 * i"] r9 [of "2 * i + 1"] by (simp add: q_def)
  have x8: "unat (lane x (8 * k + i) :: u8) = b i" if "i < 8" for i
    using that assms(1) by (simp add: x_def b_def vshrq_n_u_def lane_map_lanes sign_bit_byte)
  have p16: "unat (lane p (4 * k + i) :: u16) = r i" if "i < 4" for i
    using paired_halves [of "4 * k + i" x "b (2 * i)" "b (2 * i + 1)" 7, where 'n = 8 and 'w = 16] x8 [of "2 * i"] x8 [of "2 * i + 1"]
      that assms(1) b1 [of "2 * i"] b1 [of "2 * i + 1"] by (simp add: p_def r_def distrib_left)
  have y32: "unat (lane y (2 * k + i) :: u32) = q i" if "i < 2" for i
    using paired_halves [of "2 * k + i" p "r (2 * i)" "r (2 * i + 1)" 14, where 'n = 16 and 'w = 32] p16 [of "2 * i"] p16 [of "2 * i + 1"]
      that assms(1) r9 [of "2 * i"] r9 [of "2 * i + 1"] by (simp add: y_def p_def q_def distrib_left)
  define u where "u = (lane (vsraq_n_u TYPE(64) y y 28) k :: u64)"
  have u: "unat u = q 0 + 16 * q 1 + 4294967296 * q 1"
    using paired_halves [of k y "q 0" "q 1" 28, where 'n = 32 and 'w = 64] y32 [of 0] y32 [of 1] assms(1) q26 [of 0] q26 [of 1] by (simp add: u_def)
  have "(lane (vsraq_n_u TYPE(64) y y 28) (8 * k) :: u8) = ucast u"
    using lane_lane [of 8 0 "vsraq_n_u TYPE(64) y y 28" k, where 'n = 8 and 'w = 64] by (simp add: u_def lane_def)
  also have "\<dots> = of_nat (unat u)" by (simp add: unsigned_of_nat of_nat_unat)
  also have "unat u = b 0 + 2 * b 1 + 4 * b 2 + 8 * b 3 + 16 * b 4 + 32 * b 5 + 64 * b 6 + 128 * b 7
      + 256 * (b 1 + 4 * b 3 + 256 * r 1 + 16 * (b 5 + 4 * b 7 + 256 * r 3) + 16777216 * q 1)"
    unfolding u by (simp add: q_def r_def)
  also have "(of_nat \<dots> :: u8) = of_nat (b 0 + 2 * b 1 + 4 * b 2 + 8 * b 3 + 16 * b 4 + 32 * b 5 + 64 * b 6 + 128 * b 7)"
    by (rule high_bytes)
  also have "\<dots> = horner_sum of_bool 2 (map (\<lambda>i. bit (lane a (8 * k + i) :: u8) 7) [0..<8])"
    unfolding eight_lanes by (simp add: b_def del: add_2_eq_Suc add_2_eq_Suc')
  finally show ?thesis .
qed

lemma same_movemask: "sse2neon_movemask_epi8 a = mm_movemask_epi8 a"
proof -
  define bs where "bs k = map (\<lambda>i. bit (lane a (8 * k + i) :: u8) 7) [0..<8]" for k
  have "sse2neon_movemask_epi8 a = ucast (horner_sum of_bool 2 (bs 0) :: u8) OR push_bit 8 (ucast (horner_sum of_bool 2 (bs 1) :: u8))"
    unfolding sse2neon_movemask_epi8_def Let_def using paired_bytes [of 0 a] paired_bytes [of 1 a] by (simp add: bs_def)
  moreover have "map (\<lambda>i. bit (lane a i :: u8) 7) [0..<16] = bs 0 @ bs 1"
    by (simp add: bs_def upt_rec eval_nat_numeral)
  then have "mm_movemask_epi8 a = horner_sum of_bool 2 (bs 0 @ bs 1)"
    unfolding pmovmskb_def by (simp only:)
  moreover have "length (bs k) = 8" for k by (simp add: bs_def)
  ultimately show ?thesis
    by (intro bit_word_eqI) (auto simp: bit_simps bit_horner_sum_bit_word_iff nth_append not_less)
qed

section \<open>The header is the instruction set\<close>

text \<open>C33: on ARM every intrinsic that the vector unit is written in computes what the SSE instruction of the same name computes, for
  all operands, for both instruction sets and both compilers the header distinguishes. So the properties of the vector unit hold there.\<close>

theorem sse2neon_correct:
  "sse2neon_add_epi16 a b = mm_add_epi16 a b \<and> sse2neon_sub_epi16 a b = mm_sub_epi16 a b \<and>
   sse2neon_adds_epi16 a b = mm_adds_epi16 a b \<and> sse2neon_adds_epu16 a b = mm_adds_epu16 a b \<and>
   sse2neon_subs_epi16 a b = mm_subs_epi16 a b \<and> sse2neon_subs_epu16 a b = mm_subs_epu16 a b \<and>
   sse2neon_mullo_epi16 a b = mm_mullo_epi16 a b \<and> sse2neon_mulhi_epi16 a b = mm_mulhi_epi16 a b \<and>
   sse2neon_mulhi_epu16 aarch64 a b = mm_mulhi_epu16 a b \<and>
   sse2neon_cmpeq_epi16 a b = mm_cmpeq_epi16 a b \<and> sse2neon_cmpeq_epi8 a b = mm_cmpeq_epi8 a b \<and>
   sse2neon_cmpgt_epi16 a b = mm_cmpgt_epi16 a b \<and> sse2neon_cmplt_epi16 a b = mm_cmplt_epi16 a b \<and>
   sse2neon_min_epi16 a b = mm_min_epi16 a b \<and> sse2neon_max_epi16 a b = mm_max_epi16 a b \<and>
   sse2neon_and_si128 a b = mm_and_si128 a b \<and> sse2neon_or_si128 a b = mm_or_si128 a b \<and>
   sse2neon_xor_si128 a b = mm_xor_si128 a b \<and> sse2neon_andnot_si128 a b = mm_andnot_si128 a b \<and>
   sse2neon_blendv_epi8 a b m = mm_blendv_epi8 a b m \<and> sse2neon_movemask_epi8 a = mm_movemask_epi8 a \<and>
   sse2neon_setzero_si128 = mm_setzero_si128 \<and> sse2neon_set1_epi16 w = mm_set1_epi16 w \<and> sse2neon_set1_epi32 v = mm_set1_epi32 v \<and>
   sse2neon_slli_epi16 a imm = mm_slli_epi16 a (unat imm) \<and> sse2neon_srli_epi16 a imm = mm_srli_epi16 a (unat imm) \<and>
   sse2neon_srai_epi16 a imm = mm_srai_epi16 a (unat imm) \<and> sse2neon_srli_si128 a imm = mm_srli_si128 a (unat imm) \<and>
   sse2neon_packs_epi16 a b = mm_packs_epi16 a b \<and> sse2neon_packs_epi32 a b = mm_packs_epi32 a b \<and>
   sse2neon_unpacklo_epi8 aarch64 a b = mm_unpacklo_epi8 a b \<and> sse2neon_unpacklo_epi16 aarch64 a b = mm_unpacklo_epi16 a b \<and>
   sse2neon_unpackhi_epi16 aarch64 a b = mm_unpackhi_epi16 a b \<and> sse2neon_unpacklo_epi64 aarch64 a b = mm_unpacklo_epi64 a b \<and>
   sse2neon_shuffle_epi8 aarch64 gnuc a b = mm_shuffle_epi8 a b"
  by (simp_all only: same_arithmetic same_high_products same_compare same_logic same_blend same_movemask setzero same_shifts same_byte_shift
    same_packs same_unpack8 same_unpack16 same_unpack64 same_shuffle simp_thms)

end
